(* ===== verification/Prelude.thy ===== *)
theory Prelude
  imports Main "HOL-Library.Word"
begin

text \<open>
  Shared vocabulary of the development: byte strings, the outcome type of code that reads
  through pointers, and the generic lemmas on lists that the components use.

  A pointer into an immutable byte buffer is represented by the suffix of the buffer that
  starts at it: \<open>buf == buf_end\<close> is \<open>buf = []\<close>, \<open>buf_end - buf\<close> is \<open>length buf\<close>, and the
  difference of two pointers into one buffer is the difference of the two lengths. Reading
  through a pointer that is at the end of its buffer is the outcome \<open>Oob\<close>, so that the
  absence of out-of-bounds reads is a theorem about the model and not an assumption of it.
\<close>

type_synonym view = "string \<times> nat"

text \<open>The bytes a pointer and a length designate (a \<open>std::string_view\<close>).\<close>

definition view_str :: "view \<Rightarrow> string" where
  "view_str v = take (snd v) (fst v)"

lemma view_str_pair [simp]: "view_str (p, n) = take n p"
  by (simp add: view_str_def)

subsection \<open>Outcomes of pointer code\<close>

text \<open>
  \<open>Ok\<close> is a normal result, \<open>Ret\<close> the early return of an error code (the code writes it
  through \<open>*ret\<close> and returns NULL), \<open>Oob\<close> a read at or past the end of the buffer.
\<close>

datatype 'a presult = Ok 'a | Ret int | Oob

fun pbind :: "'a presult \<Rightarrow> ('a \<Rightarrow> 'b presult) \<Rightarrow> 'b presult" where
  "pbind (Ok a) f = f a"
| "pbind (Ret e) f = Ret e"
| "pbind Oob f = Oob"

lemma pbind_eq_Ok: "pbind m f = Ok b \<longleftrightarrow> (\<exists>a. m = Ok a \<and> f a = Ok b)"
  by (cases m) auto

lemma pbind_eq_Ret: "pbind m f = Ret e \<longleftrightarrow> m = Ret e \<or> (\<exists>a. m = Ok a \<and> f a = Ret e)"
  by (cases m) auto

lemma pbind_eq_Oob: "pbind m f = Oob \<longleftrightarrow> m = Oob \<or> (\<exists>a. m = Ok a \<and> f a = Oob)"
  by (cases m) auto

lemmas pbind_eqs = pbind_eq_Ok pbind_eq_Ret pbind_eq_Oob

lemma pbind_cong [fundef_cong]:
  "m = m' \<Longrightarrow> (\<And>a. m' = Ok a \<Longrightarrow> f a = f' a) \<Longrightarrow> pbind m f = pbind m' f'"
  by (cases m') auto

subsection \<open>Results\<close>

text \<open>A value, an exception, or undefined behaviour.\<close>

datatype 'a res = Val 'a | Throw string | UB

fun rbind :: "'a res \<Rightarrow> ('a \<Rightarrow> 'b res) \<Rightarrow> 'b res" where
  "rbind (Val a) f = f a"
| "rbind (Throw e) f = Throw e"
| "rbind UB f = UB"

lemma rbind_cong [fundef_cong]: "m = m' \<Longrightarrow> (\<And>a. m' = Val a \<Longrightarrow> f a = f' a) \<Longrightarrow> rbind m f = rbind m' f'"
  by (cases m') auto

lemma rbind_eq_Val: "rbind m f = Val b \<longleftrightarrow> (\<exists>a. m = Val a \<and> f a = Val b)"
  by (cases m) auto

lemma rbind_assoc: "rbind (rbind m f) g = rbind m (\<lambda>a. rbind (f a) g)"
  by (cases m) auto

lemma rbind_eq_Throw: "rbind m f = Throw e \<longleftrightarrow> m = Throw e \<or> (\<exists>a. m = Val a \<and> f a = Throw e)"
  by (cases m) auto

lemma rbind_eq_UB: "rbind m f = UB \<longleftrightarrow> m = UB \<or> (\<exists>a. m = Val a \<and> f a = UB)"
  by (cases m) auto

subsection \<open>Suffixes\<close>

text \<open>\<open>suf r b\<close>: the pointer \<open>r\<close> is at or after the pointer \<open>b\<close> in the same buffer.\<close>

definition suf :: "'a list \<Rightarrow> 'a list \<Rightarrow> bool" where
  "suf r b \<longleftrightarrow> (\<exists>p. b = p @ r)"

lemma suf_refl [simp, intro]: "suf b b"
  by (auto simp: suf_def)

lemma suf_Nil [simp, intro]: "suf [] b"
  by (auto simp: suf_def)

lemma suf_Cons [intro]: "suf r b \<Longrightarrow> suf r (c # b)"
  by (auto simp: suf_def intro: exI [of _ "c # _"])

lemma suf_trans: "suf r s \<Longrightarrow> suf s b \<Longrightarrow> suf r b"
  by (auto simp: suf_def)

lemma suf_ConsD: "suf (c # r) b \<Longrightarrow> suf r b"
  by (auto simp: suf_def intro: exI [of _ "_ @ [c]"])

lemma suf_length: "suf r b \<Longrightarrow> length r \<le> length b"
  by (auto simp: suf_def)

lemma suf_drop [simp, intro]: "suf (drop n b) b"
  by (auto simp: suf_def intro: exI [of _ "take n b"])

lemma suf_drop_eq: "suf r b \<Longrightarrow> r = drop (length b - length r) b"
  by (auto simp: suf_def)

lemma suf_eq_iff: "suf r b \<Longrightarrow> length r = length b \<Longrightarrow> r = b"
  by (auto simp: suf_def)

lemma take_le_append: "n \<le> length p \<Longrightarrow> take n (p @ x) = take n p"
  by simp

subsection \<open>Counting threads\<close>

text \<open>How many of \<open>N\<close> threads are at one of the places \<open>P\<close>.\<close>

definition npcs :: "nat \<Rightarrow> ('p \<Rightarrow> bool) \<Rightarrow> (nat \<Rightarrow> 'p) \<Rightarrow> int" where
  "npcs N P f = (\<Sum>t<N. of_bool (P (f t)))"

lemma npcs_upd:
  assumes "t < N"
  shows "npcs N P (f(t := p)) = npcs N P f - of_bool (P (f t)) + of_bool (P p)"
proof -
  have r: "npcs N P g = of_bool (P (g t)) + (\<Sum>u\<in>{..<N} - {t}. of_bool (P (g u)))" for g
    unfolding npcs_def using assms by (intro sum.remove) simp_all
  have "(\<Sum>u\<in>{..<N} - {t}. of_bool (P ((f(t := p)) u))) = (\<Sum>u\<in>{..<N} - {t}. of_bool (P (f u)) :: int)"
    by (rule sum.cong) simp_all
  then show ?thesis unfolding r [of f] r [of "f(t := p)"] by simp
qed

lemma npcs_ge0: "0 \<le> npcs N P f"
  unfolding npcs_def by (simp add: sum_nonneg)

lemma npcs_pos: "t < N \<Longrightarrow> P (f t) \<Longrightarrow> 1 \<le> npcs N P f"
  unfolding npcs_def using member_le_sum [of t "{..<N}" "\<lambda>t. of_bool (P (f t)) :: int"] by simp

lemma npcs_zero: "(\<And>t. t < N \<Longrightarrow> \<not> P (f t)) \<Longrightarrow> npcs N P f = 0"
  unfolding npcs_def by simp

text \<open>Whether a thread is at one of the places \<open>P\<close>; whether one other than \<open>t\<close> is.\<close>

definition any_pc :: "nat \<Rightarrow> ('p \<Rightarrow> bool) \<Rightarrow> (nat \<Rightarrow> 'p) \<Rightarrow> bool" where
  "any_pc N P f \<longleftrightarrow> (\<exists>t<N. P (f t))"

definition other_pc :: "nat \<Rightarrow> nat \<Rightarrow> ('p \<Rightarrow> bool) \<Rightarrow> (nat \<Rightarrow> 'p) \<Rightarrow> bool" where
  "other_pc N t P f \<longleftrightarrow> (\<exists>u<N. u \<noteq> t \<and> P (f u))"

lemma any_upd: "t < N \<Longrightarrow> any_pc N P (f(t := p)) \<longleftrightarrow> P p \<or> other_pc N t P f"
  by (auto simp: any_pc_def other_pc_def)

lemma other_upd [simp]: "other_pc N t P (f(t := p)) = other_pc N t P f"
  by (auto simp: other_pc_def)

lemma any_apart: "t < N \<Longrightarrow> any_pc N P f \<longleftrightarrow> P (f t) \<or> other_pc N t P f"
  by (auto simp: any_pc_def other_pc_def)

subsection \<open>Bits of numbers\<close>

lemma bit_lt: "(n::nat) < 2 ^ k \<Longrightarrow> bit n i \<Longrightarrow> i < k"
  by (metis bit_take_bit_iff take_bit_nat_eq_self)

end
