(* ===== verification/PicoScan.thy ===== *)
theory PicoScan
  imports Prelude
begin

text \<open>
  The scanning layer of \<open>src/picohttpparser.c\<close>: the character classes, the vectorised
  \<open>findchar_fast\<close>, the token and line scanners and the completeness check.
  The flag \<open>sse\<close> says whether the file is compiled with \<open>__SSE4_2__\<close>; both variants of every
  scanner are modelled and proved equal.
\<close>

section \<open>Character classes\<close>

definition CR :: char where "CR = CHR 0x0D"
definition LF :: char where "LF = CHR 0x0A"
definition SP :: char where "SP = CHR 0x20"
definition HT :: char where "HT = CHR 0x09"

abbreviation byte :: "char \<Rightarrow> nat" where
  "byte c \<equiv> of_char c"

text \<open>\<open>(unsigned char)(c) - 040u < 0137u\<close>: the subtraction is on a 32-bit unsigned.\<close>

definition IS_PRINTABLE_ASCII :: "char \<Rightarrow> bool" where
  "IS_PRINTABLE_ASCII c \<longleftrightarrow> (of_nat (byte c) :: 32 word) - 32 < 95"

text \<open>The control characters that end a line scan: below SP except HT, and DEL.\<close>

definition is_ctl :: "char \<Rightarrow> bool" where
  "is_ctl c \<longleftrightarrow> (byte c < 32 \<and> c \<noteq> HT) \<or> byte c = 127"

definition token_char_map :: "nat list" where
  "token_char_map =
    [0,0,0,0,0,0,0,0,0,0,0,0,0,0,0,0, 0,0,0,0,0,0,0,0,0,0,0,0,0,0,0,0,
     0,1,0,1,1,1,1,1,0,0,1,1,0,1,1,0, 1,1,1,1,1,1,1,1,1,1,0,0,0,0,0,0,
     0,1,1,1,1,1,1,1,1,1,1,1,1,1,1,1, 1,1,1,1,1,1,1,1,1,1,1,0,0,0,1,1,
     1,1,1,1,1,1,1,1,1,1,1,1,1,1,1,1, 1,1,1,1,1,1,1,1,1,1,1,0,1,0,1,0,
     0,0,0,0,0,0,0,0,0,0,0,0,0,0,0,0, 0,0,0,0,0,0,0,0,0,0,0,0,0,0,0,0,
     0,0,0,0,0,0,0,0,0,0,0,0,0,0,0,0, 0,0,0,0,0,0,0,0,0,0,0,0,0,0,0,0,
     0,0,0,0,0,0,0,0,0,0,0,0,0,0,0,0, 0,0,0,0,0,0,0,0,0,0,0,0,0,0,0,0,
     0,0,0,0,0,0,0,0,0,0,0,0,0,0,0,0, 0,0,0,0,0,0,0,0,0,0,0,0,0,0,0,0]"

definition is_token_char :: "char \<Rightarrow> bool" where
  "is_token_char c \<longleftrightarrow> token_char_map ! byte c \<noteq> 0"

section \<open>Macros\<close>

definition CHECK_EOF :: "string \<Rightarrow> string presult" where
  "CHECK_EOF buf = (if buf = [] then Ret (-2) else Ok buf)"

definition EXPECT_CHAR_NO_CHECK :: "char \<Rightarrow> string \<Rightarrow> string presult" where
  "EXPECT_CHAR_NO_CHECK ch buf =
     (case buf of [] \<Rightarrow> Oob | c # r \<Rightarrow> if c \<noteq> ch then Ret (-1) else Ok r)"

definition EXPECT_CHAR :: "char \<Rightarrow> string \<Rightarrow> string presult" where
  "EXPECT_CHAR ch buf = pbind (CHECK_EOF buf) (EXPECT_CHAR_NO_CHECK ch)"

text \<open>\<open>PARSE_INT\<close>: one decimal digit times a weight; the value and the advanced pointer.\<close>

definition PARSE_INT :: "nat \<Rightarrow> string \<Rightarrow> (nat \<times> string) presult" where
  "PARSE_INT mul buf =
     (case buf of [] \<Rightarrow> Oob
      | c # r \<Rightarrow> if byte c < 48 \<or> 57 < byte c then Ret (-1) else Ok (mul * (byte c - 48), r))"

definition PARSE_INT_3 :: "string \<Rightarrow> (nat \<times> string) presult" where
  "PARSE_INT_3 buf =
     pbind (PARSE_INT 100 buf) (\<lambda>(h, b1).
     pbind (PARSE_INT 10 b1) (\<lambda>(t, b2).
     pbind (PARSE_INT 1 b2) (\<lambda>(u, b3). Ok (h + t + u, b3))))"

section \<open>findchar_fast\<close>

text \<open>
  The ranges are pairs of bytes, as \<open>_mm_cmpestri\<close> reads them in mode \<open>_SIDD_CMP_RANGES\<close>
  over unsigned bytes: the instruction returns the least index of the 16 bytes whose byte
  lies in one of the ranges, and 16 if there is none.
\<close>

fun in_ranges :: "nat list \<Rightarrow> char \<Rightarrow> bool" where
  "in_ranges (lo # hi # rs) c = (lo \<le> byte c \<and> byte c \<le> hi \<or> in_ranges rs c)"
| "in_ranges _ c = False"

definition cmpestri :: "nat list \<Rightarrow> string \<Rightarrow> nat presult" where
  "cmpestri ranges buf =
     (if length buf < 16 then Oob
      else Ok (length (takeWhile (\<lambda>c. \<not> in_ranges ranges c) (take 16 buf))))"

function findchar_blocks :: "nat list \<Rightarrow> string \<Rightarrow> nat \<Rightarrow> (bool \<times> string) presult" where
  "findchar_blocks ranges buf left =
     pbind (cmpestri ranges buf) (\<lambda>r.
       if r \<noteq> 16 then Ok (True, drop r buf)
       else if left - 16 \<noteq> 0 then findchar_blocks ranges (drop 16 buf) (left - 16)
       else Ok (False, drop 16 buf))"
  by pat_completeness auto
termination
  by (relation "measure (\<lambda>(_, _, left). left)") auto

declare findchar_blocks.simps [simp del]

text \<open>Returns the found flag and the advanced pointer.\<close>

definition findchar_fast :: "bool \<Rightarrow> nat list \<Rightarrow> string \<Rightarrow> (bool \<times> string) presult" where
  "findchar_fast sse ranges buf =
     (if sse \<and> 16 \<le> length buf
      then findchar_blocks ranges buf (length buf - length buf mod 16)
      else Ok (False, buf))"

section \<open>get_token_to_eol\<close>

text \<open>\<open>n\<close> unrolled \<open>DOIT()\<close>s; the flag says whether one jumped to \<open>NonPrintable\<close>.\<close>

fun doits :: "nat \<Rightarrow> string \<Rightarrow> (bool \<times> string) presult" where
  "doits 0 buf = Ok (False, buf)"
| "doits (Suc n) [] = Oob"
| "doits (Suc n) (c # r) =
     (if \<not> IS_PRINTABLE_ASCII c then Ok (True, c # r) else doits n r)"

lemma doits_length: "doits n buf = Ok (b, r) \<Longrightarrow> length r \<le> length buf \<and> (\<not> b \<longrightarrow> length r + n = length buf)"
  by (induction n buf rule: doits.induct) (auto split: if_splits)

text \<open>The unrolled loop; \<open>Ok (True, b)\<close> is the jump to \<open>FOUND_CTL\<close> with \<open>buf = b\<close>.\<close>

function eol_fast :: "string \<Rightarrow> (bool \<times> string) presult" where
  "eol_fast buf =
     (if 8 \<le> length buf then
        pbind (doits 8 buf) (\<lambda>(nonprint, b).
          if \<not> nonprint then eol_fast b
          else (case b of [] \<Rightarrow> Oob
                | c # r \<Rightarrow> if is_ctl c then Ok (True, b) else eol_fast r))
      else Ok (False, buf))"
  by pat_completeness auto
termination
  by (relation "measure length") (auto dest: doits_length)

declare eol_fast.simps [simp del]

fun eol_slow :: "string \<Rightarrow> string presult" where
  "eol_slow [] = Ret (-2)"
| "eol_slow (c # r) =
     (if \<not> IS_PRINTABLE_ASCII c \<and> is_ctl c then Ok (c # r) else eol_slow r)"

definition ranges1 :: "nat list" where
  "ranges1 = [0, 8, 10, 31, 127, 127]"

text \<open>The code after the label \<open>FOUND_CTL\<close>: token pointer, token length, new \<open>buf\<close>.\<close>

definition found_ctl :: "string \<Rightarrow> string \<Rightarrow> (view \<times> string) presult" where
  "found_ctl token_start buf =
     (case buf of [] \<Rightarrow> Oob
      | c # r \<Rightarrow>
          if c = CR then
            pbind (EXPECT_CHAR LF r) (\<lambda>b.
              Ok ((token_start, length token_start - length b - 2), b))
          else if c = LF then
            Ok ((token_start, length token_start - length buf), r)
          else Ret (-1))"

definition get_token_to_eol :: "bool \<Rightarrow> string \<Rightarrow> (view \<times> string) presult" where
  "get_token_to_eol sse buf =
     pbind (if sse then findchar_fast True ranges1 buf else eol_fast buf) (\<lambda>(found, b).
       if found then found_ctl buf b
       else pbind (eol_slow b) (found_ctl buf))"

section \<open>is_complete\<close>

text \<open>The loop with its counter; the result is the pointer just past the blank line.\<close>

fun is_complete_loop :: "nat \<Rightarrow> string \<Rightarrow> string presult" where
  "is_complete_loop cnt [] = Ret (-2)"
| "is_complete_loop cnt (c # r) =
     (if c = CR then
        (case r of [] \<Rightarrow> Ret (-2)
         | d # s \<Rightarrow> if d \<noteq> LF then Ret (-1)
                   else if Suc cnt = 2 then Ok s else is_complete_loop (Suc cnt) s)
      else if c = LF then
        (if Suc cnt = 2 then Ok r else is_complete_loop (Suc cnt) r)
      else is_complete_loop 0 r)"

text \<open>
  \<open>buf + last_len - 3\<close> must not pass \<open>buf_end\<close>; the callers pass the length of an earlier
  prefix of the same buffer.
\<close>

definition is_complete :: "string \<Rightarrow> nat \<Rightarrow> string presult" where
  "is_complete buf last_len =
     (let n = (if last_len < 3 then 0 else last_len - 3)
      in if length buf < n then Oob else is_complete_loop 0 (drop n buf))"

section \<open>parse_token and ADVANCE_TOKEN\<close>

definition token_ranges :: "nat list" where
  "token_ranges = [0x00, 0x20, 0x22, 0x22, 0x28, 0x29, 0x2c, 0x2c, 0x2f, 0x2f,
                   0x3a, 0x40, 0x5b, 0x5d, 0x7b, 0xff]"

fun token_loop :: "char \<Rightarrow> string \<Rightarrow> string presult" where
  "token_loop next_char [] = Oob"
| "token_loop next_char (c # r) =
     (if c = next_char then Ok (c # r)
      else if \<not> is_token_char c then Ret (-1)
      else if r = [] then Ret (-2) else token_loop next_char r)"

definition parse_token :: "bool \<Rightarrow> char \<Rightarrow> string \<Rightarrow> (view \<times> string) presult" where
  "parse_token sse next_char buf_start =
     pbind (findchar_fast sse token_ranges buf_start) (\<lambda>(found, b).
     pbind (if found then Ok b else CHECK_EOF b) (\<lambda>b.
     pbind (token_loop next_char b) (\<lambda>b.
       Ok ((buf_start, length buf_start - length b), b))))"

definition ranges2 :: "nat list" where
  "ranges2 = [0x00, 0x20, 0x7f, 0x7f]"

fun advance_loop :: "string \<Rightarrow> string presult" where
  "advance_loop [] = Oob"
| "advance_loop (c # r) =
     (if c = SP then Ok (c # r)
      else if \<not> IS_PRINTABLE_ASCII c \<and> (byte c < 32 \<or> byte c = 127) then Ret (-1)
      else if r = [] then Ret (-2) else advance_loop r)"

definition ADVANCE_TOKEN :: "bool \<Rightarrow> string \<Rightarrow> (view \<times> string) presult" where
  "ADVANCE_TOKEN sse tok_start =
     pbind (findchar_fast sse ranges2 tok_start) (\<lambda>(found, b).
     pbind (if found then Ok b else CHECK_EOF b) (\<lambda>b.
     pbind (advance_loop b) (\<lambda>b.
       Ok ((tok_start, length tok_start - length b), b))))"

section \<open>parse_http_version\<close>

definition parse_http_version :: "string \<Rightarrow> (nat \<times> string) presult" where
  "parse_http_version buf =
     (if length buf < 9 then Ret (-2)
      else pbind (EXPECT_CHAR_NO_CHECK (CHR ''H'') buf) (\<lambda>b.
           pbind (EXPECT_CHAR_NO_CHECK (CHR ''T'') b) (\<lambda>b.
           pbind (EXPECT_CHAR_NO_CHECK (CHR ''T'') b) (\<lambda>b.
           pbind (EXPECT_CHAR_NO_CHECK (CHR ''P'') b) (\<lambda>b.
           pbind (EXPECT_CHAR_NO_CHECK (CHR ''/'') b) (\<lambda>b.
           pbind (EXPECT_CHAR_NO_CHECK (CHR ''1'') b) (\<lambda>b.
           pbind (EXPECT_CHAR_NO_CHECK (CHR ''.'') b) (PARSE_INT 1))))))))"


section \<open>The character classes over byte values\<close>

lemma byte_less [simp]: "byte c < 256"
  by (metis of_char_of of_char_mod_256 mod_less_divisor zero_less_numeral)

lemma byte_eq_iff: "c = d \<longleftrightarrow> byte c = byte d"
  by simp

lemma byte_consts [simp]: "byte CR = 13" "byte LF = 10" "byte SP = 32" "byte HT = 9"
  by (simp_all add: CR_def LF_def SP_def HT_def)

lemma printable_iff: "IS_PRINTABLE_ASCII c \<longleftrightarrow> 32 \<le> byte c \<and> byte c \<le> 126"
proof -
  have b: "int (byte c) < 256"
    using byte_less [of c] by linarith
  have "(of_nat (byte c) :: 32 word) - 32 = word_of_int (int (byte c) - 32)"
    by simp
  then have "IS_PRINTABLE_ASCII c \<longleftrightarrow> (int (byte c) - 32) mod 4294967296 < 95"
    by (simp only: IS_PRINTABLE_ASCII_def word_less_def uint_word_of_int) simp
  also have "\<dots> \<longleftrightarrow> 32 \<le> int (byte c) \<and> int (byte c) \<le> 126"
  proof (cases "32 \<le> int (byte c)")
    case True
    then have "(int (byte c) - 32) mod 4294967296 = int (byte c) - 32"
      using b by (intro mod_pos_pos_trivial; linarith)
    with True show ?thesis by simp linarith
  next
    case False
    then have "(int (byte c) - 32) mod 4294967296 = int (byte c) - 32 + 4294967296"
      by (subst mod_add_self2 [symmetric], subst mod_pos_pos_trivial) auto
    with False show ?thesis by simp
  qed
  finally show ?thesis by linarith
qed

lemma is_ctl_iff: "is_ctl c \<longleftrightarrow> byte c < 9 \<or> (9 < byte c \<and> byte c < 32) \<or> byte c = 127"
  by (auto simp: is_ctl_def byte_eq_iff)

lemma is_ctl_not_printable: "is_ctl c \<Longrightarrow> \<not> IS_PRINTABLE_ASCII c"
  by (auto simp: is_ctl_iff printable_iff)

lemma in_ranges1: "in_ranges ranges1 c \<longleftrightarrow> is_ctl c"
  by (auto simp: ranges1_def is_ctl_iff)

text \<open>The complement of \<open>token_ranges\<close>, over byte values.\<close>

definition out_of_ranges :: "nat \<Rightarrow> bool" where
  "out_of_ranges n \<longleftrightarrow>
     \<not> (n \<le> 0x20 \<or> 0x22 \<le> n \<and> n \<le> 0x22 \<or> 0x28 \<le> n \<and> n \<le> 0x29 \<or> 0x2c \<le> n \<and> n \<le> 0x2c \<or> 0x2f \<le> n \<and> n \<le> 0x2f
        \<or> 0x3a \<le> n \<and> n \<le> 0x40 \<or> 0x5b \<le> n \<and> n \<le> 0x5d \<or> 0x7b \<le> n \<and> n \<le> 0xff)"

lemma map_table:
  "\<forall>n\<in>set ([33] @ [35..<40] @ [42..<44] @ [45..<47] @ [48..<58] @ [65..<91] @ [94..<123]).
     token_char_map ! n = 1"
  by (simp add: token_char_map_def)

lemma out_of_ranges_iff:
  "out_of_ranges n \<Longrightarrow> n < 256 \<Longrightarrow> n \<in> set ([33] @ [35..<40] @ [42..<44] @ [45..<47] @ [48..<58] @ [65..<91] @ [94..<123])"
  by (simp only: set_append set_upt Un_iff atLeastLessThan_iff list.set insert_iff empty_iff out_of_ranges_def)
    presburger

lemma not_in_token_ranges: "\<not> in_ranges token_ranges c \<Longrightarrow> is_token_char c"
proof -
  assume "\<not> in_ranges token_ranges c"
  then have "out_of_ranges (byte c)"
    by (simp only: token_ranges_def out_of_ranges_def in_ranges.simps le0 simp_thms)
  from bspec [OF map_table out_of_ranges_iff [OF this byte_less]] show ?thesis
    by (simp add: is_token_char_def)
qed

lemma in_ranges2: "in_ranges ranges2 c \<longleftrightarrow> byte c \<le> 32 \<or> byte c = 127"
  by (auto simp: ranges2_def)

section \<open>Scanning loops\<close>

text \<open>A generic scanning loop.\<close>

fun scan :: "(char \<Rightarrow> bool) \<Rightarrow> (char \<Rightarrow> bool) \<Rightarrow> string \<Rightarrow> string presult" where
  "scan stop bad [] = Ret (-2)"
| "scan stop bad (c # r) =
     (if stop c then Ok (c # r) else if bad c then Ret (-1) else scan stop bad r)"

lemma scan_not_Oob [simp]: "scan stop bad b \<noteq> Oob"
  by (induction b) auto

lemma scan_Ret: "scan stop bad b = Ret e \<Longrightarrow> e = -1 \<or> e = -2"
  by (induction b) (auto split: if_splits)

lemma scan_Ok: "scan stop bad b = Ok r \<Longrightarrow>
    \<exists>p. b = p @ r \<and> r \<noteq> [] \<and> stop (hd r) \<and> (\<forall>c\<in>set p. \<not> stop c \<and> \<not> bad c)"
proof (induction b)
  case Nil
  then show ?case by simp
next
  case (Cons c b)
  show ?case
  proof (cases "stop c")
    case True
    with Cons.prems show ?thesis by auto
  next
    case False
    with Cons.prems have nb: "\<not> bad c" and s: "scan stop bad b = Ok r"
      by (auto split: if_splits)
    from Cons.IH [OF s] obtain p where
      "b = p @ r" "r \<noteq> []" "stop (hd r)" "\<forall>c\<in>set p. \<not> stop c \<and> \<not> bad c" by blast
    with False nb show ?thesis by (intro exI [of _ "c # p"]) auto
  qed
qed

lemma scan_skip: "(\<And>c. c \<in> set p \<Longrightarrow> \<not> stop c \<and> \<not> bad c) \<Longrightarrow> scan stop bad (p @ b) = scan stop bad b"
  by (induction p) auto

lemma scan_stable_Ok: "scan stop bad b = Ok r \<Longrightarrow> scan stop bad (b @ x) = Ok (r @ x)"
  by (induction b) (auto split: if_splits)

lemma scan_stable_Ret: "scan stop bad b = Ret (-1) \<Longrightarrow> scan stop bad (b @ x) = Ret (-1)"
  by (induction b) (auto split: if_splits)

lemma findchar_blocks_spec:
  assumes "16 \<le> left" "left \<le> length buf" "16 dvd left"
  shows "\<exists>f b p. findchar_blocks ranges buf left = Ok (f, b) \<and> buf = p @ b \<and>
      (\<forall>c\<in>set p. \<not> in_ranges ranges c) \<and> (f \<longrightarrow> b \<noteq> [] \<and> in_ranges ranges (hd b))"
  using assms
proof (induction ranges buf left rule: findchar_blocks.induct)
  case (1 ranges buf left)
  let ?P = "\<lambda>c. \<not> in_ranges ranges c"
  let ?t = "takeWhile ?P (take 16 buf)"
  have c: "cmpestri ranges buf = Ok (length ?t)"
    using "1.prems" by (simp add: cmpestri_def)
  have all: "\<forall>c\<in>set ?t. ?P c" by (auto dest: set_takeWhileD)
  have pre: "buf = ?t @ drop (length ?t) buf"
    by (metis append_take_drop_id takeWhile_eq_take length_takeWhile_le take_take min.absorb1
        append_eq_conv_conj takeWhile_dropWhile_id append.assoc)
  show ?case
  proof (cases "length ?t = 16")
    case False
    then have lt: "length ?t < length (take 16 buf)"
      using "1.prems" length_takeWhile_le [of ?P "take 16 buf"] by simp
    then have "\<not> ?P (take 16 buf ! length ?t)"
      by (rule nth_length_takeWhile)
    moreover have "drop (length ?t) buf \<noteq> []" "hd (drop (length ?t) buf) = take 16 buf ! length ?t"
      using lt by (auto simp: hd_drop_conv_nth)
    moreover have "findchar_blocks ranges buf left = Ok (True, drop (length ?t) buf)"
      using False by (subst findchar_blocks.simps) (simp add: c)
    ultimately show ?thesis using pre all by metis
  next
    case True
    then have t16: "?t = take 16 buf"
      by (metis (no_types) length_takeWhile_le takeWhile_eq_take take_all_iff length_take min.cobounded2)
    show ?thesis
    proof (cases "left = 16")
      case l16: True
      have "findchar_blocks ranges buf left = Ok (False, drop 16 buf)"
        using True l16 by (subst findchar_blocks.simps) (simp add: c)
      then show ?thesis using t16 all
        by (intro exI [of _ False] exI [of _ "drop 16 buf"] exI [of _ "take 16 buf"]) auto
    next
      case False
      have "16 \<le> left - 16" "left - 16 \<le> length (drop 16 buf)" "16 dvd left - 16"
        using False "1.prems" by (auto simp: dvd_minus_self elim!: dvdE)
      moreover have eq: "findchar_blocks ranges buf left = findchar_blocks ranges (drop 16 buf) (left - 16)"
        using True False "1.prems" by (subst findchar_blocks.simps) (simp add: c)
      ultimately obtain f b p where
        r: "findchar_blocks ranges (drop 16 buf) (left - 16) = Ok (f, b)" "drop 16 buf = p @ b"
          "\<forall>c\<in>set p. ?P c" "f \<longrightarrow> b \<noteq> [] \<and> in_ranges ranges (hd b)"
        using "1.IH" [OF c] True False "1.prems" by auto
      have "buf = (take 16 buf @ p) @ b" using r(2) by (metis append.assoc append_take_drop_id)
      moreover have "\<forall>c\<in>set (take 16 buf @ p). ?P c" using all t16 r(3) by auto
      ultimately show ?thesis using eq r(1,4) by metis
    qed
  qed
qed

lemma findchar_fast_spec:
  "\<exists>f b p. findchar_fast sse ranges buf = Ok (f, b) \<and> buf = p @ b \<and>
      (\<forall>c\<in>set p. \<not> in_ranges ranges c) \<and> (f \<longrightarrow> b \<noteq> [] \<and> in_ranges ranges (hd b))"
proof (cases "sse \<and> 16 \<le> length buf")
  case True
  have d: "16 dvd length buf - length buf mod 16"
    by (rule dvd_minus_mod)
  have "length buf mod 16 < 16" by simp
  then have "length buf - length buf mod 16 \<noteq> 0" using True by linarith
  with d have "16 \<le> length buf - length buf mod 16" by (meson dvd_imp_le not_gr_zero)
  with d findchar_blocks_spec [of "length buf - length buf mod 16" buf ranges] True
  show ?thesis by (simp add: findchar_fast_def)
next
  case False
  then show ?thesis by (auto simp: findchar_fast_def)
qed

lemma doits_no_Oob: "n \<le> length buf \<Longrightarrow> doits n buf \<noteq> Oob \<and> (\<forall>e. doits n buf \<noteq> Ret e)"
  by (induction n buf rule: doits.induct) auto

lemma doits_Ok: "doits n buf = Ok (f, b) \<Longrightarrow>
   \<exists>p. buf = p @ b \<and> (\<forall>c\<in>set p. IS_PRINTABLE_ASCII c) \<and> (f \<longrightarrow> b \<noteq> [] \<and> \<not> IS_PRINTABLE_ASCII (hd b))"
proof (induction n buf rule: doits.induct)
  case (3 n c r)
  show ?case
  proof (cases "IS_PRINTABLE_ASCII c")
    case True
    with 3 obtain p where "r = p @ b" "\<forall>c\<in>set p. IS_PRINTABLE_ASCII c"
      "f \<longrightarrow> b \<noteq> [] \<and> \<not> IS_PRINTABLE_ASCII (hd b)" by auto
    with True show ?thesis by (intro exI [of _ "c # p"]) auto
  next
    case False
    with 3 show ?thesis by auto
  qed
qed auto

lemma eol_fast_spec:
  "\<exists>f b p. eol_fast buf = Ok (f, b) \<and> buf = p @ b \<and> (\<forall>c\<in>set p. \<not> is_ctl c) \<and>
      (f \<longrightarrow> b \<noteq> [] \<and> is_ctl (hd b))"
proof (induction buf rule: eol_fast.induct)
  case (1 buf)
  show ?case
  proof (cases "8 \<le> length buf")
    case False
    then show ?thesis by (subst eol_fast.simps) auto
  next
    case True
    then obtain f b where d: "doits 8 buf = Ok (f, b)"
      using doits_no_Oob [of 8 buf] by (cases "doits 8 buf") auto
    from doits_Ok [OF d] obtain p where p: "buf = p @ b" "\<forall>c\<in>set p. IS_PRINTABLE_ASCII c"
      "f \<longrightarrow> b \<noteq> [] \<and> \<not> IS_PRINTABLE_ASCII (hd b)" by blast
    then have pc: "\<forall>c\<in>set p. \<not> is_ctl c" using is_ctl_not_printable by blast
    show ?thesis
    proof (cases f)
      case False
      from "1.IH"(1) [OF True d refl] False obtain g b' p' where
        r: "eol_fast b = Ok (g, b')" "b = p' @ b'" "\<forall>c\<in>set p'. \<not> is_ctl c"
          "g \<longrightarrow> b' \<noteq> [] \<and> is_ctl (hd b')" by auto
      have "eol_fast buf = Ok (g, b')"
        using True d False r(1) by (subst eol_fast.simps) simp
      with r p pc show ?thesis by (intro exI [of _ g] exI [of _ b'] exI [of _ "p @ p'"]) auto
    next
      case t: True
      then obtain c r where br: "b = c # r" using p(3) by (cases b) auto
      show ?thesis
      proof (cases "is_ctl c")
        case ct: True
        have "eol_fast buf = Ok (True, b)"
          using True d t br ct by (subst eol_fast.simps) simp
        then show ?thesis using p pc ct br by auto
      next
        case nc: False
        from "1.IH"(2) [OF True d refl _ br nc] t obtain g b' p' where
          r: "eol_fast r = Ok (g, b')" "r = p' @ b'" "\<forall>c\<in>set p'. \<not> is_ctl c"
            "g \<longrightarrow> b' \<noteq> [] \<and> is_ctl (hd b')" by auto
        have "eol_fast buf = Ok (g, b')"
          using True d t br nc r(1) by (subst eol_fast.simps) simp
        with r p pc br nc show ?thesis
          by (intro exI [of _ g] exI [of _ b'] exI [of _ "p @ c # p'"]) auto
      qed
    qed
  qed
qed

lemma eol_slow_scan: "eol_slow b = scan is_ctl (\<lambda>_. False) b"
  by (induction b) (auto dest: is_ctl_not_printable)

lemma token_loop_scan: "b \<noteq> [] \<Longrightarrow> token_loop nc b = scan (\<lambda>c. c = nc) (\<lambda>c. \<not> is_token_char c) b"
  by (induction b) auto

lemma advance_loop_scan:
  "b \<noteq> [] \<Longrightarrow> advance_loop b = scan (\<lambda>c. c = SP) (\<lambda>c. byte c < 32 \<or> byte c = 127) b"
  by (induction b) (auto simp: printable_iff)

text \<open>Each scanner, fast path or not, is its plain scanning loop.\<close>

lemma get_token_to_eol_scan:
  "get_token_to_eol sse buf = pbind (scan is_ctl (\<lambda>_. False) buf) (found_ctl buf)"
proof -
  obtain f b p where r:
    "(if sse then findchar_fast True ranges1 buf else eol_fast buf) = Ok (f, b)" "buf = p @ b"
    "\<forall>c\<in>set p. \<not> is_ctl c" "f \<longrightarrow> b \<noteq> [] \<and> is_ctl (hd b)"
    using findchar_fast_spec [of True ranges1 buf] eol_fast_spec [of buf]
    by (cases sse) (auto simp: in_ranges1)
  have s: "scan is_ctl (\<lambda>_. False) buf = scan is_ctl (\<lambda>_. False) b"
    unfolding r(2) using r(3) by (intro scan_skip) auto
  show ?thesis
  proof (cases f)
    case True
    then have "scan is_ctl (\<lambda>_. False) b = Ok b" using r(4) by (cases b) auto
    with True r(1) s show ?thesis by (simp add: get_token_to_eol_def)
  next
    case False
    with r(1) s show ?thesis by (simp add: get_token_to_eol_def eol_slow_scan)
  qed
qed

lemma parse_token_scan:
  assumes "in_ranges token_ranges nc"
  shows "parse_token sse nc buf =
    pbind (scan (\<lambda>c. c = nc) (\<lambda>c. \<not> is_token_char c) buf) (\<lambda>b. Ok ((buf, length buf - length b), b))"
proof -
  obtain f b p where r:
    "findchar_fast sse token_ranges buf = Ok (f, b)" "buf = p @ b"
    "\<forall>c\<in>set p. \<not> in_ranges token_ranges c" "f \<longrightarrow> b \<noteq> []"
    using findchar_fast_spec [of sse token_ranges buf] by auto
  have "scan (\<lambda>c. c = nc) (\<lambda>c. \<not> is_token_char c) (p @ b) = scan (\<lambda>c. c = nc) (\<lambda>c. \<not> is_token_char c) b"
    using r(3) assms not_in_token_ranges by (intro scan_skip) auto
  with r show ?thesis
    by (cases "b = []") (auto simp: parse_token_def CHECK_EOF_def token_loop_scan)
qed

lemma ADVANCE_TOKEN_scan:
  "ADVANCE_TOKEN sse buf =
    pbind (scan (\<lambda>c. c = SP) (\<lambda>c. byte c < 32 \<or> byte c = 127) buf) (\<lambda>b. Ok ((buf, length buf - length b), b))"
proof -
  obtain f b p where r:
    "findchar_fast sse ranges2 buf = Ok (f, b)" "buf = p @ b"
    "\<forall>c\<in>set p. \<not> in_ranges ranges2 c" "f \<longrightarrow> b \<noteq> []"
    using findchar_fast_spec [of sse ranges2 buf] by auto
  have "scan (\<lambda>c. c = SP) (\<lambda>c. byte c < 32 \<or> byte c = 127) (p @ b)
      = scan (\<lambda>c. c = SP) (\<lambda>c. byte c < 32 \<or> byte c = 127) b"
    using r(3) by (intro scan_skip) (auto simp: in_ranges2 byte_eq_iff simp del: of_char_eq_iff)
  with r show ?thesis
    by (cases "b = []") (auto simp: ADVANCE_TOKEN_def CHECK_EOF_def advance_loop_scan)
qed

end
