(* ===== verification/PicoRequest.thy ===== *)
theory PicoRequest
  imports PicoScan
begin

text \<open>
  The grammar layer of \<open>src/picohttpparser.c\<close>: header blocks, request lines, status lines and
  the three entry points \<open>phr_parse_request\<close>, \<open>phr_parse_response\<close> and \<open>phr_parse_headers\<close>.
  The out-parameters of the C functions are the components of the \<open>Ok\<close> result; on an error
  the C code leaves them partly written and no caller reads them, so \<open>Ret\<close> carries the code only.
\<close>

section \<open>Sizes of the scanners' results\<close>

lemma EXPECT_CHAR_cases:
  "EXPECT_CHAR ch b = (case b of [] \<Rightarrow> Ret (-2) | c # r \<Rightarrow> if c \<noteq> ch then Ret (-1) else Ok r)"
  by (auto simp: EXPECT_CHAR_def CHECK_EOF_def EXPECT_CHAR_NO_CHECK_def split: list.splits)

lemma found_ctl_length: "found_ctl s b = Ok (t, r) \<Longrightarrow> length r < length b"
  by (auto simp: found_ctl_def EXPECT_CHAR_cases pbind_eqs split: list.splits if_splits)

lemma scan_length: "scan stop bad b = Ok r \<Longrightarrow> length r \<le> length b"
  by (auto dest: scan_Ok)

lemma get_token_to_eol_length: "get_token_to_eol sse b = Ok (t, r) \<Longrightarrow> length r < length b"
  by (auto simp: get_token_to_eol_scan pbind_eqs dest!: scan_length found_ctl_length)

lemma colon_in_ranges [simp]: "in_ranges token_ranges (CHR '':'')" "in_ranges token_ranges SP"
  by (simp_all add: token_ranges_def SP_def)

lemma parse_token_colon_length: "parse_token sse (CHR '':'') b = Ok (t, r) \<Longrightarrow> length r \<le> length b"
  by (auto simp: parse_token_scan pbind_eqs dest: scan_length)

section \<open>parse_headers\<close>

record phr_header =
  hd_name :: "string option"   \<comment> \<open>NULL for a continuation line\<close>
  hd_name_len :: nat
  hd_value :: string
  hd_value_len :: nat

text \<open>The loop that skips SP and HT after the colon.\<close>

fun skip_hspace :: "string \<Rightarrow> string presult" where
  "skip_hspace [] = Ret (-2)"
| "skip_hspace (c # r) = (if \<not> (c = SP \<or> c = HT) then Ok (c # r) else skip_hspace r)"

lemma skip_hspace_scan: "skip_hspace b = scan (\<lambda>c. \<not> (c = SP \<or> c = HT)) (\<lambda>_. False) b"
  by (induction b) auto

text \<open>The loop that moves \<open>value_end\<close> back over trailing SP and HT.\<close>

fun trim_len :: "string \<Rightarrow> nat \<Rightarrow> nat presult" where
  "trim_len v 0 = Ok 0"
| "trim_len v (Suc n) =
     (if length v \<le> n then Oob
      else if \<not> (v ! n = SP \<or> v ! n = HT) then Ok (Suc n) else trim_len v n)"

text \<open>The name part of a header line: name pointer, name length and the pointer after it.\<close>

definition parse_header_name :: "bool \<Rightarrow> nat \<Rightarrow> string \<Rightarrow> (string option \<times> nat \<times> string) presult" where
  "parse_header_name sse num_headers buf =
     (case buf of [] \<Rightarrow> Oob
      | c # _ \<Rightarrow>
        if \<not> (num_headers \<noteq> 0 \<and> (c = SP \<or> c = HT)) then
          pbind (parse_token sse (CHR '':'') buf) (\<lambda>((nm, nl), b).
            if nl = 0 then Ret (-1)
            else (case b of [] \<Rightarrow> Oob
                  | _ # b' \<Rightarrow> pbind (skip_hspace b') (\<lambda>b''. Ok (Some nm, nl, b''))))
        else Ok (None, 0, buf))"

lemma parse_header_name_length: "parse_header_name sse n b = Ok (nm, nl, r) \<Longrightarrow> length r \<le> length b"
  by (auto simp: parse_header_name_def pbind_eqs skip_hspace_scan list.case_eq_if
      split: if_splits dest!: parse_token_colon_length scan_length)

function parse_headers :: "bool \<Rightarrow> nat \<Rightarrow> phr_header list \<Rightarrow> string \<Rightarrow> (phr_header list \<times> string) presult" where
  "parse_headers sse max_headers hs buf =
     (case buf of [] \<Rightarrow> Ret (-2)
      | c # r \<Rightarrow>
        if c = CR then pbind (EXPECT_CHAR LF r) (\<lambda>b. Ok (hs, b))
        else if c = LF then Ok (hs, r)
        else if length hs = max_headers then Ret (-1)
        else
          pbind (parse_header_name sse (length hs) buf) (\<lambda>(nm, nl, b).
          pbind (get_token_to_eol sse b) (\<lambda>(v, b').
          pbind (trim_len (fst v) (snd v)) (\<lambda>vl.
            parse_headers sse max_headers
              (hs @ [\<lparr>hd_name = nm, hd_name_len = nl, hd_value = fst v, hd_value_len = vl\<rparr>]) b'))))"
  by pat_completeness auto
termination
  by (relation "measure (\<lambda>(_, _, _, buf). length buf)")
    (auto dest!: parse_header_name_length get_token_to_eol_length)

declare parse_headers.simps [simp del]

section \<open>parse_request\<close>

record phr_request =
  rq_method :: view
  rq_path :: view
  rq_minor_version :: nat
  rq_headers :: "phr_header list"

text \<open>\<open>do { ++buf; CHECK_EOF(); } while (*buf == ' ')\<close>.\<close>

fun skip_spaces :: "string \<Rightarrow> string presult" where
  "skip_spaces [] = Oob"
| "skip_spaces (c # r) =
     (case r of [] \<Rightarrow> Ret (-2) | d # _ \<Rightarrow> if d = SP then skip_spaces r else Ok r)"

text \<open>The end of a request line: CRLF or LF.\<close>

definition skip_first_empty_line :: "string \<Rightarrow> string presult" where
  "skip_first_empty_line buf =
     (case buf of [] \<Rightarrow> Ret (-2)
      | c # r \<Rightarrow> if c = CR then EXPECT_CHAR LF r else if c = LF then Ok r else Ok buf)"

definition end_of_request_line :: "string \<Rightarrow> string presult" where
  "end_of_request_line buf =
     (case buf of [] \<Rightarrow> Oob
      | c # r \<Rightarrow> if c = CR then EXPECT_CHAR LF r else if c = LF then Ok r else Ret (-1))"

definition parse_request :: "bool \<Rightarrow> nat \<Rightarrow> string \<Rightarrow> (phr_request \<times> string) presult" where
  "parse_request sse max_headers buf =
     pbind (skip_first_empty_line buf) (\<lambda>b.
     pbind (parse_token sse SP b) (\<lambda>(m, b).
     pbind (skip_spaces b) (\<lambda>b.
     pbind (ADVANCE_TOKEN sse b) (\<lambda>(p, b).
     pbind (skip_spaces b) (\<lambda>b.
     if snd m = 0 \<or> snd p = 0 then Ret (-1)
     else
       pbind (parse_http_version b) (\<lambda>(v, b).
       pbind (end_of_request_line b) (\<lambda>b.
       pbind (parse_headers sse max_headers [] b) (\<lambda>(hs, b).
         Ok (\<lparr>rq_method = m, rq_path = p, rq_minor_version = v, rq_headers = hs\<rparr>, b)))))))))"

text \<open>The conversion \<open>(int)(buf - buf_start)\<close>.\<close>

definition to_int :: "nat \<Rightarrow> int" where
  "to_int n = sint (of_nat n :: 32 word)"

lemma to_int_id: "n < 2147483648 \<Longrightarrow> to_int n = int n"
  by (simp add: to_int_def signed_of_nat signed_take_bit_int_eq_self)

text \<open>The slowloris check the three entry points share.\<close>

definition check_complete :: "string \<Rightarrow> nat \<Rightarrow> unit presult" where
  "check_complete buf last_len =
     (if last_len \<noteq> 0 then pbind (is_complete buf last_len) (\<lambda>_. Ok ()) else Ok ())"

definition phr_parse_request :: "bool \<Rightarrow> string \<Rightarrow> nat \<Rightarrow> nat \<Rightarrow> (phr_request \<times> int) presult" where
  "phr_parse_request sse buf_start max_headers last_len =
     pbind (check_complete buf_start last_len) (\<lambda>_.
     pbind (parse_request sse max_headers buf_start) (\<lambda>(rq, b).
       Ok (rq, to_int (length buf_start - length b))))"

section \<open>parse_response\<close>

record phr_response =
  rs_minor_version :: nat
  rs_status :: nat
  rs_msg :: view
  rs_headers :: "phr_header list"

text \<open>\<open>do { ++*msg; --*msg_len; } while (**msg == ' ')\<close>; the length is a \<open>size_t\<close>.\<close>

fun strip_msg :: "string \<Rightarrow> nat \<Rightarrow> view presult" where
  "strip_msg [] n = Oob"
| "strip_msg (c # r) n =
     (case r of [] \<Rightarrow> Oob
      | d # _ \<Rightarrow> if d = SP then strip_msg r (n - 1) else Ok (r, n - 1))"

definition response_msg :: "view \<Rightarrow> view presult" where
  "response_msg msg =
     (if snd msg = 0 then Ok msg
      else (case fst msg of [] \<Rightarrow> Oob
            | d # _ \<Rightarrow> if d = SP then strip_msg (fst msg) (snd msg) else Ret (-1)))"

definition parse_response :: "bool \<Rightarrow> nat \<Rightarrow> string \<Rightarrow> (phr_response \<times> string) presult" where
  "parse_response sse max_headers buf =
     pbind (parse_http_version buf) (\<lambda>(v, b).
     case b of [] \<Rightarrow> Oob
     | c # _ \<Rightarrow>
       if c \<noteq> SP then Ret (-1)
       else
         pbind (skip_spaces b) (\<lambda>b.
         if length b < 4 then Ret (-2)
         else
           pbind (PARSE_INT_3 b) (\<lambda>(st, b).
           pbind (get_token_to_eol sse b) (\<lambda>(msg, b).
           pbind (response_msg msg) (\<lambda>m.
           pbind (parse_headers sse max_headers [] b) (\<lambda>(hs, b).
             Ok (\<lparr>rs_minor_version = v, rs_status = st, rs_msg = m, rs_headers = hs\<rparr>, b)))))))"

definition phr_parse_response :: "bool \<Rightarrow> string \<Rightarrow> nat \<Rightarrow> nat \<Rightarrow> (phr_response \<times> int) presult" where
  "phr_parse_response sse buf_start max_headers last_len =
     pbind (check_complete buf_start last_len) (\<lambda>_.
     pbind (parse_response sse max_headers buf_start) (\<lambda>(rs, b).
       Ok (rs, to_int (length buf_start - length b))))"

definition phr_parse_headers :: "bool \<Rightarrow> string \<Rightarrow> nat \<Rightarrow> nat \<Rightarrow> (phr_header list \<times> int) presult" where
  "phr_parse_headers sse buf_start max_headers last_len =
     pbind (check_complete buf_start last_len) (\<lambda>_.
     pbind (parse_headers sse max_headers [] buf_start) (\<lambda>(hs, b).
       Ok (hs, to_int (length buf_start - length b))))"

end
