(* ===== verification/PicoSafe.thy ===== *)
theory PicoSafe
  imports PicoRequest
begin

text \<open>
  What the scanners of \<open>src/picohttpparser.c\<close> return, and that no parser reads outside the
  buffer: \<open>fine m\<close> is closed under the code's sequencing, so each parser inherits it from its parts.
\<close>

section \<open>What the scanners return\<close>

lemma parse_token_Ok:
  assumes "in_ranges token_ranges nc" and "parse_token sse nc b = Ok (t, r)"
  shows "\<exists>p. b = p @ r \<and> t = (b, length p) \<and> (\<forall>c\<in>set p. is_token_char c) \<and> r \<noteq> [] \<and> hd r = nc"
proof -
  from assms obtain r' where s: "scan (\<lambda>c. c = nc) (\<lambda>c. \<not> is_token_char c) b = Ok r'"
    and t: "t = (b, length b - length r')" "r = r'"
    by (auto simp: parse_token_scan pbind_eqs)
  from scan_Ok [OF s] t show ?thesis by auto
qed

lemmas parse_token_colon_Ok = parse_token_Ok [OF colon_in_ranges(1)]
lemmas parse_token_SP_Ok = parse_token_Ok [OF colon_in_ranges(2)]

lemma ADVANCE_TOKEN_Ok:
  assumes "ADVANCE_TOKEN sse b = Ok (t, r)"
  shows "\<exists>p. b = p @ r \<and> t = (b, length p) \<and>
    (\<forall>c\<in>set p. c \<noteq> SP \<and> 32 \<le> byte c \<and> byte c \<noteq> 127) \<and> r \<noteq> [] \<and> hd r = SP"
proof -
  from assms obtain r' where
    s: "scan (\<lambda>c. c = SP) (\<lambda>c. byte c < 32 \<or> byte c = 127) b = Ok r'"
    and t: "t = (b, length b - length r')" "r = r'"
    by (auto simp: ADVANCE_TOKEN_scan pbind_eqs)
  from scan_Ok [OF s] t show ?thesis by (auto simp: not_less)
qed

text \<open>A line is the text up to a line end, which is CRLF or LF.\<close>

lemma get_token_to_eol_Ok:
  assumes "get_token_to_eol sse b = Ok (t, r)"
  shows "\<exists>p e. b = p @ e @ r \<and> (e = [CR, LF] \<or> e = [LF]) \<and> t = (b, length p) \<and> (\<forall>c\<in>set p. \<not> is_ctl c)"
proof -
  from assms obtain s where s: "scan is_ctl (\<lambda>_. False) b = Ok s" and f: "found_ctl b s = Ok (t, r)"
    by (auto simp: get_token_to_eol_scan pbind_eqs)
  from scan_Ok [OF s] obtain p where p: "b = p @ s" "s \<noteq> []" "\<forall>c\<in>set p. \<not> is_ctl c" by blast
  from f p show ?thesis
    by (auto simp: found_ctl_def EXPECT_CHAR_cases pbind_eqs split: list.splits if_splits)
qed

lemma get_token_to_eol_fits: "get_token_to_eol sse b = Ok ((p, n), r) \<Longrightarrow> n \<le> length p"
  by (auto dest!: get_token_to_eol_Ok)

lemma trim_len_Ok: "n \<le> length v \<Longrightarrow> \<exists>m. trim_len v n = Ok m \<and> m \<le> n \<and>
    (m \<noteq> 0 \<longrightarrow> v ! (m - 1) \<noteq> SP \<and> v ! (m - 1) \<noteq> HT)"
  by (induction n) auto

lemma skip_spaces_Ok: "skip_spaces b = Ok r \<Longrightarrow> \<exists>c p. b = c # p @ r \<and> (\<forall>d\<in>set p. d = SP) \<and> r \<noteq> [] \<and> hd r \<noteq> SP"
proof (induction b)
  case Nil
  then show ?case by simp
next
  case (Cons c b)
  show ?case
  proof (cases b)
    case Nil
    with Cons.prems show ?thesis by simp
  next
    case b: (Cons d b')
    show ?thesis
    proof (cases "d = SP")
      case True
      with b Cons.prems have "skip_spaces b = Ok r" by simp
      from Cons.IH [OF this] obtain p where "b = d # p @ r" "\<forall>d\<in>set p. d = SP" "r \<noteq> []" "hd r \<noteq> SP"
        using b by auto
      then show ?thesis using True by (intro exI [of _ c] exI [of _ "d # p"]) auto
    next
      case False
      with b Cons.prems show ?thesis by auto
    qed
  qed
qed

section \<open>No read out of bounds, and the two error codes\<close>

text \<open>\<open>fine m\<close>: no read out of bounds, and an error is -1 or -2.\<close>

definition fine :: "'a presult \<Rightarrow> bool" where
  "fine m \<longleftrightarrow> (case m of Ok _ \<Rightarrow> True | Ret e \<Rightarrow> e = -1 \<or> e = -2 | Oob \<Rightarrow> False)"

named_theorems fine_intros

lemma fine_simps [simp]: "fine (Ok a)" "fine (Ret e) \<longleftrightarrow> e = -1 \<or> e = -2" "\<not> fine Oob"
  by (simp_all add: fine_def)

lemma fine_bind [fine_intros]: "fine m \<Longrightarrow> (\<And>a. m = Ok a \<Longrightarrow> fine (f a)) \<Longrightarrow> fine (pbind m f)"
  by (cases m) auto

lemma fine_scan [fine_intros]: "fine (scan stop bad b)"
  by (induction b) auto

lemma fine_EXPECT_CHAR [fine_intros]: "fine (EXPECT_CHAR ch b)"
  by (auto simp: EXPECT_CHAR_cases split: list.splits)

lemma fine_parse_token [fine_intros]: "in_ranges token_ranges nc \<Longrightarrow> fine (parse_token sse nc b)"
  by (auto simp: parse_token_scan intro!: fine_intros)

lemma fine_ADVANCE_TOKEN [fine_intros]: "fine (ADVANCE_TOKEN sse b)"
  by (auto simp: ADVANCE_TOKEN_scan intro!: fine_intros)

lemma fine_found_ctl: "s \<noteq> [] \<Longrightarrow> fine (found_ctl b s)"
  by (auto simp: found_ctl_def split: list.splits intro!: fine_intros)

lemma fine_get_token_to_eol [fine_intros]: "fine (get_token_to_eol sse b)"
  by (auto simp: get_token_to_eol_scan intro!: fine_intros fine_found_ctl dest: scan_Ok)

lemma fine_skip_hspace [fine_intros]: "fine (skip_hspace b)"
  by (simp add: skip_hspace_scan fine_intros)

lemma fine_skip_spaces [fine_intros]: "b \<noteq> [] \<Longrightarrow> fine (skip_spaces b)"
  by (induction b) (auto split: list.splits)

lemma fine_trim_len [fine_intros]: "n \<le> length v \<Longrightarrow> fine (trim_len v n)"
  using trim_len_Ok by fastforce

lemma fine_parse_header_name [fine_intros]: "b \<noteq> [] \<Longrightarrow> fine (parse_header_name sse n b)"
  by (cases b)
    (auto simp: parse_header_name_def list.case_eq_if intro!: fine_intros dest: parse_token_colon_Ok)

lemma fine_parse_headers [fine_intros]: "fine (parse_headers sse mx hs b)"
proof (induction sse mx hs b rule: parse_headers.induct)
  case (1 sse mx hs b)
  show ?case
  proof (cases b)
    case Nil
    then show ?thesis by (subst parse_headers.simps) simp
  next
    case (Cons c r)
    show ?thesis
    proof (cases "c = CR \<or> c = LF \<or> length hs = mx")
      case True
      moreover have "fine (pbind (EXPECT_CHAR LF r) (\<lambda>b. Ok (hs, b)))"
        by (intro fine_bind fine_EXPECT_CHAR) simp
      ultimately show ?thesis using Cons
        by (subst parse_headers.simps) (simp add: disj_imp)
    next
      case False
      with Cons "1.IH" [OF Cons] show ?thesis
        by (subst parse_headers.simps)
          (auto intro!: fine_intros dest: get_token_to_eol_fits)
    qed
  qed
qed

lemma EXPECT_NO_CHECK_Ok: "EXPECT_CHAR_NO_CHECK ch b = Ok r \<Longrightarrow> length b = Suc (length r)"
  by (auto simp: EXPECT_CHAR_NO_CHECK_def split: list.splits if_splits)

lemma fine_EXPECT_NO_CHECK: "b \<noteq> [] \<Longrightarrow> fine (EXPECT_CHAR_NO_CHECK ch b)"
  by (auto simp: EXPECT_CHAR_NO_CHECK_def split: list.splits)

lemma PARSE_INT_Ok: "PARSE_INT k b = Ok (v, r) \<Longrightarrow> length b = Suc (length r)"
  by (auto simp: PARSE_INT_def split: list.splits if_splits)

lemma fine_PARSE_INT: "b \<noteq> [] \<Longrightarrow> fine (PARSE_INT k b)"
  by (auto simp: PARSE_INT_def split: list.splits)

lemma parse_http_version_length: "parse_http_version b = Ok (v, r) \<Longrightarrow> length b = length r + 8 \<and> r \<noteq> []"
  by (auto simp: parse_http_version_def pbind_eqs split: if_splits
      dest!: EXPECT_NO_CHECK_Ok PARSE_INT_Ok)

lemma fine_parse_http_version [fine_intros]: "fine (parse_http_version b)"
  by (auto simp: parse_http_version_def intro!: fine_bind fine_EXPECT_NO_CHECK fine_PARSE_INT
      dest!: EXPECT_NO_CHECK_Ok)

lemma fine_PARSE_INT_3: "3 \<le> length b \<Longrightarrow> fine (PARSE_INT_3 b)"
  by (auto simp: PARSE_INT_3_def intro!: fine_bind fine_PARSE_INT dest!: PARSE_INT_Ok)

lemma fine_is_complete_loop: "fine (is_complete_loop n b)"
  by (induction n b rule: is_complete_loop.induct) (auto split: list.splits)

lemma fine_check_complete [fine_intros]: "last_len \<le> length b \<Longrightarrow> fine (check_complete b last_len)"
  by (auto simp: check_complete_def is_complete_def Let_def intro!: fine_intros fine_is_complete_loop)

lemma fine_end_of_request_line [fine_intros]: "b \<noteq> [] \<Longrightarrow> fine (end_of_request_line b)"
  by (auto simp: end_of_request_line_def split: list.splits intro!: fine_intros)

lemma fine_skip_first_empty_line [fine_intros]: "fine (skip_first_empty_line b)"
  by (auto simp: skip_first_empty_line_def split: list.splits intro!: fine_intros)

lemma parse_token_SP_nonempty: "parse_token sse SP b = Ok (t, r) \<Longrightarrow> r \<noteq> []"
  by (auto dest: parse_token_SP_Ok)

lemma ADVANCE_TOKEN_nonempty: "ADVANCE_TOKEN sse b = Ok (t, r) \<Longrightarrow> r \<noteq> []"
  by (auto dest: ADVANCE_TOKEN_Ok)

lemma parse_http_version_nonempty: "parse_http_version b = Ok (v, r) \<Longrightarrow> r \<noteq> []"
  by (auto dest: parse_http_version_length)

lemmas nonempty_dests = parse_token_SP_nonempty ADVANCE_TOKEN_nonempty parse_http_version_nonempty

lemma fine_parse_request: "fine (parse_request sse mx b)"
  by (auto simp: parse_request_def intro!: fine_intros dest: nonempty_dests)

text \<open>The message of a status line ends at a control character, so the loop over SP stops before it.\<close>

lemma fine_strip_msg: "b = p @ e \<Longrightarrow> e \<noteq> [] \<Longrightarrow> hd e \<noteq> SP \<Longrightarrow> p \<noteq> [] \<Longrightarrow> fine (strip_msg b n)"
proof (induction b arbitrary: p n)
  case Nil
  then show ?case by simp
next
  case (Cons c b)
  then obtain p' where p': "p = c # p'" "b = p' @ e" by (cases p) auto
  have "b \<noteq> []" using Cons.prems(2) p'(2) by simp
  then obtain d b' where b: "b = d # b'" by (cases b) auto
  show ?case
  proof (cases "d = SP")
    case True
    then have "p' \<noteq> []" using p' b Cons.prems(3) by (cases p') auto
    with Cons.IH [OF p'(2) Cons.prems(2,3)] b True show ?thesis by simp
  next
    case False
    with b show ?thesis by simp
  qed
qed

lemma get_token_to_eol_strip:
  assumes "get_token_to_eol sse b = Ok (v, r)" and "0 < snd v"
  shows "fine (strip_msg (fst v) (snd v))" and "fst v \<noteq> []"
proof -
  from get_token_to_eol_Ok [OF assms(1)] obtain p e where
    *: "b = p @ e @ r" "e = [CR, LF] \<or> e = [LF]" "v = (b, length p)" by auto
  then have "fine (strip_msg b (length p))"
    using assms(2) by (intro fine_strip_msg [of b p "e @ r"]) (auto simp: byte_eq_iff simp del: of_char_eq_iff)
  with * assms(2) show "fine (strip_msg (fst v) (snd v))" "fst v \<noteq> []" by auto
qed

lemma fine_response_msg: "get_token_to_eol sse b = Ok (v, r) \<Longrightarrow> fine (response_msg v)"
  by (cases v) (auto simp: response_msg_def list.case_eq_if dest: get_token_to_eol_strip)

lemma fine_parse_response: "fine (parse_response sse mx b)"
  by (auto simp: parse_response_def split: list.splits
      intro!: fine_intros fine_PARSE_INT_3 fine_response_msg dest!: parse_http_version_nonempty)

end
