(* ===== verification/PicoGrammar.thy ===== *)
theory PicoGrammar
  imports PicoSafe
begin

text \<open>
  The language of requests as inductive predicates over byte strings (\<open>hblock\<close>, \<open>reqblock\<close>), and
  that \<open>parse_headers\<close> and \<open>parse_request\<close> accept exactly this language with these fields.
\<close>

section \<open>The grammar of requests\<close>

definition is_ws :: "char \<Rightarrow> bool" where
  "is_ws c \<longleftrightarrow> c = SP \<or> c = HT"

definition is_eol :: "string \<Rightarrow> bool" where
  "is_eol e \<longleftrightarrow> e = [CR, LF] \<or> e = [LF]"

text \<open>A header as the program sees it: the name (none for a continuation line) and the value.\<close>

definition hdr_str :: "phr_header \<Rightarrow> string option \<times> string" where
  "hdr_str h = (map_option (take (hd_name_len h)) (hd_name h), take (hd_value_len h) (hd_value h))"

definition trimmed :: "string \<Rightarrow> bool" where
  "trimmed v \<longleftrightarrow> v = [] \<or> \<not> is_ws (last v)"

text \<open>
  \<open>hblock first hs p\<close>: the bytes \<open>p\<close> are a header block with the headers \<open>hs\<close>, the blank line
  included; \<open>first\<close> says that a continuation line may not come yet.
\<close>

inductive hblock :: "bool \<Rightarrow> (string option \<times> string) list \<Rightarrow> string \<Rightarrow> bool" where
  hb_end: "is_eol e \<Longrightarrow> hblock first [] e"
| hb_named: "\<lbrakk>n \<noteq> []; \<forall>c\<in>set n. is_token_char c; \<forall>c\<in>set ws. is_ws c;
     \<forall>c\<in>set v. \<not> is_ctl c; trimmed v; v = [] \<or> \<not> is_ws (hd v); \<forall>c\<in>set ws'. is_ws c;
     v = [] \<longrightarrow> ws' = []; is_eol e; hblock False hs p\<rbrakk>
   \<Longrightarrow> hblock first ((Some n, v) # hs) (n @ CHR '':'' # ws @ v @ ws' @ e @ p)"
| hb_cont: "\<lbrakk>v @ ws' \<noteq> []; is_ws (hd (v @ ws')); \<forall>c\<in>set v. \<not> is_ctl c; trimmed v;
     \<forall>c\<in>set ws'. is_ws c; is_eol e; hblock False hs p\<rbrakk>
   \<Longrightarrow> hblock False ((None, v) # hs) (v @ ws' @ e @ p)"

lemma is_ws_not_ctl: "is_ws c \<Longrightarrow> \<not> is_ctl c"
  by (auto simp: is_ws_def is_ctl_iff)

lemma trim_len_split: "n \<le> length v \<Longrightarrow> trim_len v n = Ok m \<Longrightarrow>
   \<exists>ws. take n v = take m v @ ws \<and> (\<forall>c\<in>set ws. is_ws c) \<and> trimmed (take m v) \<and> m \<le> n"
proof (induction n)
  case 0
  then show ?case by (simp add: trimmed_def)
next
  case (Suc n)
  show ?case
  proof (cases "is_ws (v ! n)")
    case True
    with Suc.prems have "trim_len v n = Ok m" by (auto simp: is_ws_def)
    with Suc obtain ws where "take n v = take m v @ ws" "\<forall>c\<in>set ws. is_ws c" "trimmed (take m v)" "m \<le> n"
      by auto
    with True Suc.prems show ?thesis
      by (intro exI [of _ "ws @ [v ! n]"]) (auto simp: take_Suc_conv_app_nth)
  next
    case False
    with Suc.prems have "m = Suc n" by (auto simp: is_ws_def)
    with False Suc.prems show ?thesis
      by (auto simp: trimmed_def take_Suc_conv_app_nth)
  qed
qed

lemma trim_len_exact:
  "\<forall>c\<in>set ws. is_ws c \<Longrightarrow> trimmed v \<Longrightarrow> trim_len (v @ ws @ r) (length v + length ws) = Ok (length v)"
proof (induction ws arbitrary: r rule: rev_induct)
  case Nil
  then show ?case
    by (cases v rule: rev_cases) (auto simp: trimmed_def is_ws_def nth_append)
next
  case (snoc c ws)
  then have "trim_len (v @ ws @ c # r) (length v + length ws) = Ok (length v)" by simp
  with snoc.prems show ?case by (auto simp: is_ws_def nth_append)
qed

lemma line_cases:
  assumes "get_token_to_eol sse b = Ok (t, r)"
  obtains p e where "b = p @ e @ r" "is_eol e" "t = (b, length p)" "\<forall>c\<in>set p. \<not> is_ctl c"
  using get_token_to_eol_Ok [OF assms] by (auto simp: is_eol_def)

lemma hblock_line:
  assumes "get_token_to_eol sse b = Ok (t, r)" and "trim_len (fst t) (snd t) = Ok m"
  obtains v ws e where "b = v @ ws @ e @ r" "is_eol e" "fst t = b" "v = take m b" "trimmed v"
    "\<forall>c\<in>set v. \<not> is_ctl c" "\<forall>c\<in>set ws. is_ws c"
proof -
  from line_cases [OF assms(1)] obtain p e where
    p: "b = p @ e @ r" "is_eol e" "t = (b, length p)" "\<forall>c\<in>set p. \<not> is_ctl c" by blast
  from trim_len_split [of "length p" b m] assms(2) p obtain ws where
    w: "take (length p) b = take m b @ ws" "\<forall>c\<in>set ws. is_ws c" "trimmed (take m b)" by auto
  have "p = take m b @ ws" using w(1) p(1) by simp
  with p w show thesis by (intro that [of "take m b" ws e]) auto
qed

lemma parse_header_name_Ok:
  assumes "parse_header_name sse n b = Ok (nm, nl, d)"
  shows "(\<exists>m ws. nm = Some b \<and> nl = length m \<and> m \<noteq> [] \<and> b = m @ CHR '':'' # ws @ d \<and>
            (\<forall>c\<in>set m. is_token_char c) \<and> (\<forall>c\<in>set ws. is_ws c) \<and> d \<noteq> [] \<and> \<not> is_ws (hd d))
       \<or> (nm = None \<and> nl = 0 \<and> d = b \<and> n \<noteq> 0 \<and> b \<noteq> [] \<and> is_ws (hd b))"
proof (cases b)
  case Nil
  with assms show ?thesis by (simp add: parse_header_name_def)
next
  case (Cons c r)
  show ?thesis
  proof (cases "n \<noteq> 0 \<and> (c = SP \<or> c = HT)")
    case True
    with assms Cons show ?thesis by (auto simp: parse_header_name_def is_ws_def)
  next
    case False
    with assms Cons obtain nm' k b' where t: "parse_token sse (CHR '':'') b = Ok ((nm', k), b')" and
      k: "k \<noteq> 0" and rest: "(case b' of [] \<Rightarrow> Oob | _ # b'' \<Rightarrow> pbind (skip_hspace b'') (\<lambda>e. Ok (Some nm', k, e)))
         = Ok (nm, nl, d)"
      by (auto simp: parse_header_name_def pbind_eqs split: if_splits)
    from parse_token_colon_Ok [OF t] obtain m where m: "b = m @ b'" "nm' = b" "k = length m"
      "\<forall>c\<in>set m. is_token_char c" "b' \<noteq> []" "hd b' = CHR '':''" by auto
    then obtain b'' where b'': "b' = CHR '':'' # b''" by (cases b') auto
    from rest have s: "scan (\<lambda>c. \<not> (c = SP \<or> c = HT)) (\<lambda>_. False) b'' = Ok d" and e: "nm = Some nm'" "nl = k"
      by (auto simp: b'' pbind_eqs skip_hspace_scan)
    from scan_Ok [OF s] obtain ws where "b'' = ws @ d" "d \<noteq> []" "\<not> is_ws (hd d)" "\<forall>c\<in>set ws. is_ws c"
      by (auto simp: is_ws_def)
    with m b'' e k show ?thesis by auto
  qed
qed

lemma is_token_SP_HT [simp]: "\<not> is_token_char SP" "\<not> is_token_char HT" "\<not> is_token_char CR" "\<not> is_token_char LF"
   "\<not> is_token_char (CHR '':'')"
  by (simp_all add: is_token_char_def token_char_map_def SP_def HT_def CR_def LF_def)

lemma is_token_not_ws: "is_token_char c \<Longrightarrow> \<not> is_ws c \<and> c \<noteq> CR \<and> c \<noteq> LF \<and> c \<noteq> CHR '':''"
  by (auto simp: is_ws_def simp del: of_char_eq_iff) 

lemma ctl_CR_LF [simp]: "is_ctl CR" "is_ctl LF"
  by (auto simp: is_ctl_iff)

text \<open>Soundness: what the parser accepts is a header block.\<close>

lemma parse_headers_sound:
  "parse_headers sse mx hs b = Ok (hs', r) \<Longrightarrow> length hs \<le> mx \<Longrightarrow>
   \<exists>p new. b = p @ r \<and> hs' = hs @ new \<and> hblock (hs = []) (map hdr_str new) p \<and> length hs' \<le> mx"
proof (induction sse mx hs b arbitrary: hs' rule: parse_headers.induct)
  case (1 sse mx hs b)
  show ?case
  proof (cases b)
    case Nil
    with "1.prems" show ?thesis by (subst (asm) parse_headers.simps) simp
  next
    case (Cons c q)
    consider "c = CR" | "c = LF" | "c \<noteq> CR" "c \<noteq> LF" by blast
    then show ?thesis
    proof cases
      assume "c = CR"
      with "1.prems" Cons have "pbind (EXPECT_CHAR LF q) (\<lambda>b. Ok (hs, b)) = Ok (hs', r)"
        by (subst (asm) parse_headers.simps) simp
      then have "q = LF # r" "hs' = hs"
        by (auto simp: EXPECT_CHAR_cases pbind_eqs split: list.splits if_splits)
      then show ?thesis using Cons \<open>c = CR\<close> "1.prems"(2)
        by (intro exI [of _ "[CR, LF]"] exI [of _ "[]"]) (auto intro!: hb_end simp: is_eol_def)
    next
      assume "c = LF"
      with "1.prems" Cons have "q = r" "hs' = hs"
        by (subst (asm) parse_headers.simps, simp add: byte_eq_iff del: of_char_eq_iff)+
      then show ?thesis using Cons \<open>c = LF\<close> "1.prems"(2)
        by (intro exI [of _ "[LF]"] exI [of _ "[]"]) (auto intro!: hb_end simp: is_eol_def)
    next
      assume nc: "c \<noteq> CR" "c \<noteq> LF"
      with "1.prems" Cons have lm: "length hs \<noteq> mx"
        by (subst (asm) parse_headers.simps) (auto split: if_splits)
      from "1.prems"(1) nc lm Cons have "pbind (parse_header_name sse (length hs) b) (\<lambda>(nm, nl, b).
          pbind (get_token_to_eol sse b) (\<lambda>(v, b').
          pbind (trim_len (fst v) (snd v)) (\<lambda>vl.
            parse_headers sse mx
              (hs @ [\<lparr>hd_name = nm, hd_name_len = nl, hd_value = fst v, hd_value_len = vl\<rparr>]) b'))) = Ok (hs', r)"
        by (subst (asm) parse_headers.simps) simp
      then obtain nm nl d v b' m where
        hn: "parse_header_name sse (length hs) b = Ok (nm, nl, d)" and
        gt: "get_token_to_eol sse d = Ok (v, b')" and
        tl: "trim_len (fst v) (snd v) = Ok m" and
        ph: "parse_headers sse mx
              (hs @ [\<lparr>hd_name = nm, hd_name_len = nl, hd_value = fst v, hd_value_len = m\<rparr>]) b' = Ok (hs', r)"
        by (auto simp: pbind_eqs)
      let ?h = "\<lparr>hd_name = nm, hd_name_len = nl, hd_value = fst v, hd_value_len = m\<rparr>"
      from "1.IH" [OF Cons nc lm hn refl refl gt refl tl ph] lm "1.prems"(2) obtain p new where
        ih: "b' = p @ r" "hs' = hs @ ?h # new" "hblock False (map hdr_str new) p" "length hs' \<le> mx" by auto
      from hblock_line [OF gt tl] obtain val ws e where
        ln: "d = val @ ws @ e @ b'" "is_eol e" "fst v = d" "val = take m d" "trimmed val"
        "\<forall>c\<in>set val. \<not> is_ctl c" "\<forall>c\<in>set ws. is_ws c" by blast
      from parse_header_name_Ok [OF hn] show ?thesis
      proof (elim disjE exE conjE)
        fix n w
        assume n: "nm = Some b" "nl = length n" "n \<noteq> []" "b = n @ CHR '':'' # w @ d"
          "\<forall>c\<in>set n. is_token_char c" "\<forall>c\<in>set w. is_ws c" "d \<noteq> []" "\<not> is_ws (hd d)"
        have v1: "val = [] \<or> \<not> is_ws (hd val)" using n(8) ln(1) by (cases val) auto
        have v2: "val = [] \<longrightarrow> ws = []" using n(8) ln(1,7) by (cases ws) auto
        have "hblock (hs = []) ((Some n, val) # map hdr_str new) (n @ CHR '':'' # w @ val @ ws @ e @ p)"
          using n(3,5,6) ln(6,5) v1 ln(7) v2 ln(2) ih(3) by (rule hb_named)
        moreover have "hdr_str ?h = (Some n, val)"
          unfolding hdr_str_def using n(1,2) ln(3,4) append_eq_conv_conj [THEN iffD1, OF n(4) [symmetric]] by simp
        moreover have "b = (n @ CHR '':'' # w @ val @ ws @ e @ p) @ r"
          using n(4) ln(1) ih(1) by simp
        ultimately show ?thesis using ih(2,4)
          by (intro exI [of _ "n @ CHR '':'' # w @ val @ ws @ e @ p"] exI [of _ "?h # new"]) simp
      next
        assume n: "nm = None" "nl = 0" "d = b" "length hs \<noteq> 0" "b \<noteq> []" "is_ws (hd b)"
        have ne: "val @ ws \<noteq> []"
          using n ln(1,2) by (auto simp: is_eol_def is_ws_def byte_eq_iff simp del: of_char_eq_iff)
        then have "is_ws (hd (val @ ws))" using n ln(1) by (metis hd_append2 append.assoc)
        then have "hblock False ((None, val) # map hdr_str new) (val @ ws @ e @ p)"
          using ne ln(6,5,7,2) ih(3) by (intro hb_cont)
        moreover have "hdr_str ?h = (None, val)"
          using n(1,2) ln(3,4) by (simp add: hdr_str_def)
        moreover have "b = (val @ ws @ e @ p) @ r"
          using n(3) ln(1) ih(1) by simp
        ultimately show ?thesis using ih(2,4) n(4)
          by (intro exI [of _ "val @ ws @ e @ p"] exI [of _ "?h # new"]) simp
      qed
    qed
  qed
qed

text \<open>Completeness: every header block is accepted.\<close>

lemma get_token_to_eol_complete:
  assumes "\<forall>c\<in>set p. \<not> is_ctl c" "is_eol e"
  shows "get_token_to_eol sse (p @ e @ r) = Ok ((p @ e @ r, length p), r)"
proof -
  have "scan is_ctl (\<lambda>_. False) (p @ e @ r) = Ok (e @ r)"
    using assms by (subst scan_skip) (auto simp: is_eol_def)
  then show ?thesis using assms(2)
    by (auto simp: get_token_to_eol_scan is_eol_def found_ctl_def EXPECT_CHAR_cases byte_eq_iff
        simp del: of_char_eq_iff)
qed

lemma parse_token_complete:
  assumes "in_ranges token_ranges nc" "\<forall>c\<in>set p. is_token_char c" "\<not> is_token_char nc"
  shows "parse_token sse nc (p @ nc # r) = Ok ((p @ nc # r, length p), nc # r)"
proof -
  have "scan (\<lambda>c. c = nc) (\<lambda>c. \<not> is_token_char c) (p @ nc # r) = Ok (nc # r)"
    using assms by (subst scan_skip) auto
  then show ?thesis by (simp add: parse_token_scan [OF assms(1)])
qed

lemma no_ctl_append:
  "\<forall>c\<in>set v. \<not> is_ctl c \<Longrightarrow> \<forall>c\<in>set ws. is_ws c \<Longrightarrow> \<forall>c\<in>set (v @ ws). \<not> is_ctl c"
  using is_ws_not_ctl by auto

lemma skip_hspace_complete:
  assumes "\<forall>c\<in>set ws. is_ws c" "r \<noteq> []" "\<not> is_ws (hd r)"
  shows "skip_hspace (ws @ r) = Ok r"
  using assms by (induction ws) (cases r, auto simp: is_ws_def)

lemma eol_not_ws: "is_eol e \<Longrightarrow> e \<noteq> [] \<and> \<not> is_ws (hd e)"
  by (auto simp: is_eol_def is_ws_def byte_eq_iff simp del: of_char_eq_iff)

lemma parse_headers_complete:
  assumes "hblock first hs p" "first \<or> acc \<noteq> []" "length acc + length hs \<le> mx"
  shows "\<exists>new. parse_headers sse mx acc (p @ r) = Ok (acc @ new, r) \<and> map hdr_str new = hs"
  using assms
proof (induction arbitrary: acc rule: hblock.induct)
  case (hb_end e first)
  then have "parse_headers sse mx acc (e @ r) = Ok (acc, r)"
    by (subst parse_headers.simps)
      (auto simp: is_eol_def EXPECT_CHAR_cases byte_eq_iff simp del: of_char_eq_iff)
  then show ?case by simp
next
  case (hb_named n ws v ws' e hs p first)
  let ?d = "v @ ws' @ e @ p @ r"
  let ?b = "n @ CHR '':'' # ws @ ?d"
  obtain c n' where n: "n = c # n'" using hb_named by (cases n) auto
  with hb_named have c: "\<not> is_ws c" "c \<noteq> CR" "c \<noteq> LF" using is_token_not_ws by auto
  have d: "?d \<noteq> []" "\<not> is_ws (hd ?d)"
    using hb_named eol_not_ws [of e] by (cases v; auto)+
  have "parse_token sse (CHR '':'') ?b = Ok ((?b, length n), CHR '':'' # ws @ ?d)"
    using hb_named by (intro parse_token_complete) auto
  then have hn: "parse_header_name sse (length acc) ?b = Ok (Some ?b, length n, ?d)"
    using hb_named c n skip_hspace_complete [of ws ?d] d by (simp add: parse_header_name_def is_ws_def)
  have gt: "get_token_to_eol sse ?d = Ok ((?d, length (v @ ws')), p @ r)"
    using get_token_to_eol_complete [OF no_ctl_append [OF hb_named(4,7)] hb_named(9), of sse "p @ r"] by simp
  have tl: "trim_len ?d (length (v @ ws')) = Ok (length v)"
    using trim_len_exact [of ws' v "e @ p @ r"] hb_named by simp
  let ?h = "\<lparr>hd_name = Some ?b, hd_name_len = length n, hd_value = ?d, hd_value_len = length v\<rparr>"
  have "length acc \<noteq> mx" using hb_named.prems by simp
  then have "parse_headers sse mx acc ?b = parse_headers sse mx (acc @ [?h]) (p @ r)"
    using c hn gt tl n by (subst parse_headers.simps) simp
  moreover from hb_named.IH [of "acc @ [?h]"] hb_named.prems obtain new where
    "parse_headers sse mx (acc @ [?h]) (p @ r) = Ok ((acc @ [?h]) @ new, r)" "map hdr_str new = hs" by auto
  ultimately show ?case by (intro exI [of _ "?h # new"]) (auto simp: hdr_str_def)
next
  case (hb_cont v ws' e hs p)
  let ?d = "v @ ws' @ e @ p @ r"
  obtain c d' where n: "?d = c # d'" "is_ws c"
    using hb_cont(1,2) by (cases "v @ ws'") (auto simp: append_eq_Cons_conv)
  then have c: "c \<noteq> CR" "c \<noteq> LF" by (auto simp: is_ws_def byte_eq_iff simp del: of_char_eq_iff)
  have hn: "parse_header_name sse (length acc) ?d = Ok (None, 0, ?d)"
    using hb_cont.prems n by (simp add: parse_header_name_def is_ws_def)
  have gt: "get_token_to_eol sse ?d = Ok ((?d, length (v @ ws')), p @ r)"
    using get_token_to_eol_complete [OF no_ctl_append [OF hb_cont(3,5)] hb_cont(6), of sse "p @ r"] by simp
  have tl: "trim_len ?d (length (v @ ws')) = Ok (length v)"
    using trim_len_exact [of ws' v "e @ p @ r"] hb_cont by simp
  let ?h = "\<lparr>hd_name = None, hd_name_len = 0, hd_value = ?d, hd_value_len = length v\<rparr>"
  have "length acc \<noteq> mx" using hb_cont.prems by simp
  then have "parse_headers sse mx acc ?d = parse_headers sse mx (acc @ [?h]) (p @ r)"
    using c hn gt tl n by (subst parse_headers.simps) simp
  moreover from hb_cont.IH [of "acc @ [?h]"] hb_cont.prems obtain new where
    "parse_headers sse mx (acc @ [?h]) (p @ r) = Ok ((acc @ [?h]) @ new, r)" "map hdr_str new = hs" by auto
  ultimately show ?case by (intro exI [of _ "?h # new"]) (auto simp: hdr_str_def)
qed

section \<open>Requests\<close>

definition is_spaces :: "string \<Rightarrow> bool" where
  "is_spaces s \<longleftrightarrow> s \<noteq> [] \<and> (\<forall>c\<in>set s. c = SP)"

definition is_path_char :: "char \<Rightarrow> bool" where
  "is_path_char c \<longleftrightarrow> c \<noteq> SP \<and> 32 \<le> byte c \<and> byte c \<noteq> 127"

inductive reqblock :: "string \<Rightarrow> string \<Rightarrow> nat \<Rightarrow> (string option \<times> string) list \<Rightarrow> string \<Rightarrow> bool" where
  "\<lbrakk>pre = [] \<or> is_eol pre; m \<noteq> []; \<forall>c\<in>set m. is_token_char c; is_spaces s1;
    p \<noteq> []; \<forall>c\<in>set p. is_path_char c; is_spaces s2; v \<le> 9; is_eol e; hblock True hs h\<rbrakk>
   \<Longrightarrow> reqblock m p v hs (pre @ m @ s1 @ p @ s2 @ ''HTTP/1.'' @ char_of (48 + v) # e @ h)"

definition req_str :: "phr_request \<Rightarrow> string \<times> string \<times> nat \<times> (string option \<times> string) list" where
  "req_str q = (view_str (rq_method q), view_str (rq_path q), rq_minor_version q, map hdr_str (rq_headers q))"

lemma EXPECT_NO_CHECK_eq_Ok: "EXPECT_CHAR_NO_CHECK ch b = Ok r \<longleftrightarrow> b = ch # r"
  by (auto simp: EXPECT_CHAR_NO_CHECK_def split: list.splits)

lemma PARSE_INT_1_eq_Ok: "PARSE_INT 1 b = Ok (v, r) \<longleftrightarrow> v \<le> 9 \<and> b = char_of (48 + v) # r"
proof
  assume "PARSE_INT 1 b = Ok (v, r)"
  then obtain c where c: "b = c # r" "48 \<le> byte c" "byte c \<le> 57" "v = byte c - 48"
    by (auto simp: PARSE_INT_def split: list.splits if_splits)
  then have "48 + v = byte c" by simp
  then have "char_of (48 + v) = c" by (simp only: char_of_char)
  with c show "v \<le> 9 \<and> b = char_of (48 + v) # r" by auto
qed (auto simp: PARSE_INT_def)

lemma parse_http_version_eq_Ok:
  "parse_http_version b = Ok (v, r) \<longleftrightarrow> v \<le> 9 \<and> b = ''HTTP/1.'' @ char_of (48 + v) # r \<and> r \<noteq> []"
proof
  assume *: "parse_http_version b = Ok (v, r)"
  then have "9 \<le> length b" by (auto simp: parse_http_version_def split: if_splits)
  moreover from * have "v \<le> 9 \<and> b = ''HTTP/1.'' @ char_of (48 + v) # r"
    by (auto simp: parse_http_version_def pbind_eqs EXPECT_NO_CHECK_eq_Ok PARSE_INT_1_eq_Ok
      simp del: One_nat_def split: if_splits)
  ultimately show "v \<le> 9 \<and> b = ''HTTP/1.'' @ char_of (48 + v) # r \<and> r \<noteq> []" by auto
next
  assume *: "v \<le> 9 \<and> b = ''HTTP/1.'' @ char_of (48 + v) # r \<and> r \<noteq> []"
  then have "PARSE_INT 1 (char_of (48 + v) # r) = Ok (v, r)"
    by (simp only: PARSE_INT_1_eq_Ok)
  moreover have "\<not> length b < 9" using * by (cases r) (auto simp del: char_of_eq_iff)
  moreover have "EXPECT_CHAR_NO_CHECK c (c # s) = Ok s" for c s
    by (simp add: EXPECT_CHAR_NO_CHECK_def)
  ultimately show "parse_http_version b = Ok (v, r)"
    using * by (simp only: parse_http_version_def append.simps pbind.simps if_False)
qed

lemma end_of_request_line_eq_Ok: "end_of_request_line b = Ok r \<longleftrightarrow> (\<exists>e. is_eol e \<and> b = e @ r)"
proof
  assume "end_of_request_line b = Ok r"
  then show "\<exists>e. is_eol e \<and> b = e @ r"
    by (auto simp: end_of_request_line_def is_eol_def EXPECT_CHAR_cases split: list.splits if_splits)
qed (auto simp: end_of_request_line_def is_eol_def EXPECT_CHAR_cases CR_def LF_def)

lemma skip_first_empty_line_Ok:
  assumes "skip_first_empty_line b = Ok r"
  shows "\<exists>pre. (pre = [] \<or> is_eol pre) \<and> b = pre @ r"
  using assms by (auto simp: skip_first_empty_line_def is_eol_def EXPECT_CHAR_cases
      split: list.splits if_splits)

lemma skip_first_empty_line_complete:
  assumes "pre = [] \<or> is_eol pre" "r \<noteq> []" "hd r \<noteq> CR" "hd r \<noteq> LF"
  shows "skip_first_empty_line (pre @ r) = Ok r"
  using assms by (cases r) (auto simp: skip_first_empty_line_def is_eol_def EXPECT_CHAR_cases CR_def LF_def)

lemma ADVANCE_TOKEN_complete:
  assumes "\<forall>c\<in>set p. is_path_char c"
  shows "ADVANCE_TOKEN sse (p @ SP # r) = Ok ((p @ SP # r, length p), SP # r)"
proof -
  have "scan (\<lambda>c. c = SP) (\<lambda>c. byte c < 32 \<or> byte c = 127) (p @ SP # r) = Ok (SP # r)"
    using assms by (subst scan_skip) (auto simp: is_path_char_def)
  then show ?thesis by (simp add: ADVANCE_TOKEN_scan)
qed

lemma skip_spaces_complete:
  "is_spaces s \<Longrightarrow> r \<noteq> [] \<Longrightarrow> hd r \<noteq> SP \<Longrightarrow> skip_spaces (s @ r) = Ok r"
proof (induction s)
  case (Cons c s)
  then show ?case
    by (cases s; cases r) (auto simp: is_spaces_def)
qed (simp add: is_spaces_def)

lemma skip_spaces_sound:
  assumes "skip_spaces b = Ok r" "hd b = SP"
  shows "\<exists>s. is_spaces s \<and> b = s @ r \<and> r \<noteq> [] \<and> hd r \<noteq> SP"
proof -
  from skip_spaces_Ok [OF assms(1)] obtain c p where
    "b = c # p @ r" "\<forall>d\<in>set p. d = SP" "r \<noteq> []" "hd r \<noteq> SP" by blast
  with assms(2) show ?thesis by (intro exI [of _ "c # p"]) (auto simp: is_spaces_def)
qed

lemma parse_request_sound:
  assumes "parse_request sse mx b = Ok (rq, r)" and "req_str rq = (m, p, v, hs)"
  shows "\<exists>q. b = q @ r \<and> reqblock m p v hs q \<and> length hs \<le> mx"
proof -
  from assms(1) obtain b1 mv b2 b3 pv b4 b5 v' b6 b7 hl where
    1: "skip_first_empty_line b = Ok b1" and 2: "parse_token sse SP b1 = Ok (mv, b2)" and
    3: "skip_spaces b2 = Ok b3" and 4: "ADVANCE_TOKEN sse b3 = Ok (pv, b4)" and
    5: "skip_spaces b4 = Ok b5" and 6: "snd mv \<noteq> 0" "snd pv \<noteq> 0" and
    7: "parse_http_version b5 = Ok (v', b6)" and 8: "end_of_request_line b6 = Ok b7" and
    9: "parse_headers sse mx [] b7 = Ok (hl, r)" and
    rq: "rq = \<lparr>rq_method = mv, rq_path = pv, rq_minor_version = v', rq_headers = hl\<rparr>"
    by (auto simp: parse_request_def pbind_eqs split: if_splits)
  from skip_first_empty_line_Ok [OF 1] obtain pre where pre: "pre = [] \<or> is_eol pre" "b = pre @ b1" by auto
  from parse_token_SP_Ok [OF 2] obtain m' where m: "b1 = m' @ b2" "mv = (b1, length m')"
    "\<forall>c\<in>set m'. is_token_char c" "hd b2 = SP" by auto
  from skip_spaces_sound [OF 3 m(4)] obtain s1 where s1: "is_spaces s1" "b2 = s1 @ b3" by auto
  from ADVANCE_TOKEN_Ok [OF 4] obtain p' where p: "b3 = p' @ b4" "pv = (b3, length p')"
    "\<forall>c\<in>set p'. is_path_char c" "hd b4 = SP" by (auto simp: is_path_char_def)
  from skip_spaces_sound [OF 5 p(4)] obtain s2 where s2: "is_spaces s2" "b4 = s2 @ b5" by auto
  from 7 have v: "v' \<le> 9" "b5 = ''HTTP/1.'' @ char_of (48 + v') # b6" by (auto simp: parse_http_version_eq_Ok)
  from 8 obtain e where e: "is_eol e" "b6 = e @ b7" by (auto simp: end_of_request_line_eq_Ok)
  from parse_headers_sound [OF 9] obtain h where
    h: "b7 = h @ r" "hblock True (map hdr_str hl) h" "length hl \<le> mx" by auto
  have str: "m = m'" "p = p'" "v = v'" "hs = map hdr_str hl"
    using assms(2) rq m(1,2) p(1,2) by (auto simp: req_str_def)
  have "reqblock m' p' v' (map hdr_str hl)
      (pre @ m' @ s1 @ p' @ s2 @ ''HTTP/1.'' @ char_of (48 + v') # e @ h)"
    using pre(1) m(2,3) 6 s1(1) p(2,3) s2(1) v(1) e(1) h(2) by (intro reqblock.intros) auto
  moreover have "b = (pre @ m' @ s1 @ p' @ s2 @ ''HTTP/1.'' @ char_of (48 + v') # e @ h) @ r"
    using pre(2) m(1) s1(2) p(1) s2(2) v(2) e(2) h(1) by simp
  ultimately show ?thesis using str h(3) by (metis length_map)
qed

lemma parse_request_complete:
  assumes "reqblock m p v hs q" and "length hs \<le> mx"
  shows "\<exists>rq. parse_request sse mx (q @ r) = Ok (rq, r) \<and> req_str rq = (m, p, v, hs)"
  using assms
proof (induction rule: reqblock.induct)
  case (1 pre m s1 p s2 v e hs h)
  let ?b7 = "h @ r"
  let ?b6 = "e @ ?b7"
  let ?b5 = "''HTTP/1.'' @ char_of (48 + v) # ?b6"
  let ?b4 = "s2 @ ?b5"
  let ?b3 = "p @ ?b4"
  let ?b2 = "s1 @ ?b3"
  let ?b1 = "m @ ?b2"
  obtain s1' where s1: "s1 = SP # s1'" using 1(4) by (cases s1) (auto simp: is_spaces_def)
  obtain s2' where s2: "s2 = SP # s2'" using 1(7) by (cases s2) (auto simp: is_spaces_def)
  have hm: "hd ?b1 \<noteq> CR" "hd ?b1 \<noteq> LF" using 1(2,3) is_token_not_ws by (cases m; simp)+
  have hp: "hd ?b3 \<noteq> SP" using 1(5,6) by (cases p) (auto simp: is_path_char_def)
  have a1: "skip_first_empty_line (pre @ ?b1) = Ok ?b1"
    using 1(1,2) hm by (intro skip_first_empty_line_complete) auto
  have a2: "parse_token sse SP ?b1 = Ok ((?b1, length m), ?b2)"
    unfolding s1 append_Cons using 1(3) by (intro parse_token_complete) auto
  have a3: "skip_spaces ?b2 = Ok ?b3"
    using 1(4,5) hp by (intro skip_spaces_complete) auto
  have a4: "ADVANCE_TOKEN sse ?b3 = Ok ((?b3, length p), ?b4)"
    unfolding s2 append_Cons using 1(6) by (rule ADVANCE_TOKEN_complete)
  have a5: "skip_spaces ?b4 = Ok ?b5"
    using 1(7) by (intro skip_spaces_complete) (auto simp: SP_def)
  have a7: "parse_http_version ?b5 = Ok (v, ?b6)"
    using 1(8,9) by (subst parse_http_version_eq_Ok) (auto simp: is_eol_def)
  have a8: "end_of_request_line ?b6 = Ok ?b7"
    using 1(9) by (subst end_of_request_line_eq_Ok) auto
  from parse_headers_complete [OF 1(10), of "[]" mx sse r] 1(11) obtain hl where
    a9: "parse_headers sse mx [] ?b7 = Ok (hl, r)" and hl: "map hdr_str hl = hs" by auto
  have "parse_request sse mx (pre @ ?b1) =
     Ok (\<lparr>rq_method = (?b1, length m), rq_path = (?b3, length p), rq_minor_version = v, rq_headers = hl\<rparr>, r)"
    using 1(2,5) unfolding parse_request_def a1 pbind.simps a2 prod.case a3 a4 a5 snd_conv a7 a8 a9 by simp
  with hl show ?case by (intro exI conjI) (auto simp: req_str_def)
qed

end
