(* ===== verification/PicoExtend.thy ===== *)
theory PicoExtend
  imports PicoSafe
begin

text \<open>
  Incremental parsing: how the outcome of each parser of \<open>src/picohttpparser.c\<close> on the bytes
  received so far determines its outcome once more bytes have arrived.
\<close>

section \<open>Parsing a longer buffer\<close>

text \<open>
  The server parses the bytes received so far again and again as more arrive.
  \<open>extends g m m'\<close>: where the outcome \<open>m\<close> on the shorter buffer is a success or an error
  other than -2 (incomplete), the outcome \<open>m'\<close> on the longer one is the same, up to \<open>g\<close>.
\<close>

definition extends :: "('a \<Rightarrow> 'b) \<Rightarrow> 'a presult \<Rightarrow> 'b presult \<Rightarrow> bool" where
  "extends g m m' \<longleftrightarrow> (case m of Ok a \<Rightarrow> m' = Ok (g a) | Ret e \<Rightarrow> e = -2 \<or> m' = Ret e | Oob \<Rightarrow> True)"

lemma extends_simps [simp]:
  "extends g (Ok a) m' \<longleftrightarrow> m' = Ok (g a)"
  "extends g (Ret e) m' \<longleftrightarrow> e = -2 \<or> m' = Ret e"
  "extends g Oob m'"
  by (simp_all add: extends_def)

named_theorems extends_intros

lemma extends_bind [extends_intros]:
  "extends g m m' \<Longrightarrow> (\<And>a. m = Ok a \<Longrightarrow> extends h (f a) (f' (g a))) \<Longrightarrow> extends h (pbind m f) (pbind m' f')"
  by (cases m) auto

definition ext_view :: "string \<Rightarrow> view \<Rightarrow> view" where
  "ext_view x v = (fst v @ x, snd v)"

lemma ext_view_simps [simp]: "fst (ext_view x v) = fst v @ x" "snd (ext_view x v) = snd v"
  "ext_view x (p, n) = (p @ x, n)"
  by (simp_all add: ext_view_def)

definition ext_header :: "string \<Rightarrow> phr_header \<Rightarrow> phr_header" where
  "ext_header x h = h\<lparr>hd_name := map_option (\<lambda>n. n @ x) (hd_name h), hd_value := hd_value h @ x\<rparr>"

definition ext_request :: "string \<Rightarrow> phr_request \<Rightarrow> phr_request" where
  "ext_request x q = q\<lparr>rq_method := ext_view x (rq_method q), rq_path := ext_view x (rq_path q),
     rq_headers := map (ext_header x) (rq_headers q)\<rparr>"

lemma extends_scan [extends_intros]:
  "extends (\<lambda>r. r @ x) (scan stop bad b) (scan stop bad (b @ x))"
  by (induction b) auto

lemma extends_EXPECT_CHAR [extends_intros]:
  "extends (\<lambda>r. r @ x) (EXPECT_CHAR ch b) (EXPECT_CHAR ch (b @ x))"
  by (auto simp: EXPECT_CHAR_cases split: list.splits)

lemma extends_parse_token:
  "in_ranges token_ranges nc \<Longrightarrow>
   extends (\<lambda>(t, r). (ext_view x t, r @ x)) (parse_token sse nc b) (parse_token sse nc (b @ x))"
  by (simp only: parse_token_scan, rule extends_bind, rule extends_scan) auto

lemma extends_ADVANCE_TOKEN:
  "extends (\<lambda>(t, r). (ext_view x t, r @ x)) (ADVANCE_TOKEN sse b) (ADVANCE_TOKEN sse (b @ x))"
  by (simp only: ADVANCE_TOKEN_scan, rule extends_bind, rule extends_scan) auto

lemma extends_found_ctl:
  "extends (\<lambda>(t, r). (ext_view x t, r @ x)) (found_ctl s b) (found_ctl (s @ x) (b @ x))"
proof (cases b)
  case (Cons c r)
  have "extends (\<lambda>(t, r). (ext_view x t, r @ x))
     (pbind (EXPECT_CHAR LF r) (\<lambda>b. Ok ((s, length s - length b - 2), b)))
     (pbind (EXPECT_CHAR LF (r @ x)) (\<lambda>b. Ok ((s @ x, length (s @ x) - length b - 2), b)))"
    by (rule extends_bind, rule extends_EXPECT_CHAR) simp
  with Cons show ?thesis by (simp add: found_ctl_def)
qed (simp add: found_ctl_def)

lemma extends_get_token_to_eol:
  "extends (\<lambda>(t, r). (ext_view x t, r @ x)) (get_token_to_eol sse b) (get_token_to_eol sse (b @ x))"
  by (simp only: get_token_to_eol_scan, rule extends_bind, rule extends_scan, rule extends_found_ctl)

lemma trim_len_append: "n \<le> length v \<Longrightarrow> trim_len (v @ x) n = trim_len v n"
  by (induction n) (auto simp: nth_append)

lemma extends_skip_spaces: "extends (\<lambda>r. r @ x) (skip_spaces b) (skip_spaces (b @ x))"
proof (induction b)
  case (Cons c b)
  then show ?case by (cases b) auto
qed simp

lemma extends_parse_header_name:
  assumes "b \<noteq> []"
  shows "extends (\<lambda>(nm, nl, r). (map_option (\<lambda>n. n @ x) nm, nl, r @ x))
     (parse_header_name sse n b) (parse_header_name sse n (b @ x))"
proof -
  obtain c r where b: "b = c # r" using assms by (cases b) auto
  have *: "extends (\<lambda>(nm, nl, r). (map_option (\<lambda>n. n @ x) nm, nl, r @ x))
      (pbind (parse_token sse (CHR '':'') b) (\<lambda>((nm, nl), b).
            if nl = 0 then Ret (-1)
            else (case b of [] \<Rightarrow> Oob
                  | _ # b' \<Rightarrow> pbind (skip_hspace b') (\<lambda>b''. Ok (Some nm, nl, b'')))))
      (pbind (parse_token sse (CHR '':'') (b @ x)) (\<lambda>((nm, nl), b).
            if nl = 0 then Ret (-1)
            else (case b of [] \<Rightarrow> Oob
                  | _ # b' \<Rightarrow> pbind (skip_hspace b') (\<lambda>b''. Ok (Some nm, nl, b'')))))"
  proof (rule extends_bind, rule extends_parse_token [OF colon_in_ranges(1)], goal_cases)
    case (1 a)
    obtain nm nl d where a: "a = ((nm, nl), d)" by (metis prod.exhaust)
    have "extends (\<lambda>(nm, nl, r). (map_option (\<lambda>n. n @ x) nm, nl, r @ x))
       (pbind (skip_hspace b') (\<lambda>b''. Ok (Some nm, nl, b'')))
       (pbind (skip_hspace (b' @ x)) (\<lambda>b''. Ok (Some (nm @ x), nl, b'')))" for b'
      by (simp only: skip_hspace_scan, rule extends_bind, rule extends_scan) simp
    then show ?case by (auto simp: a split: list.splits)
  qed
  show ?thesis using * by (simp add: parse_header_name_def b)
qed

lemma extends_parse_headers:
  "extends (\<lambda>(hs, r). (map (ext_header x) hs, r @ x))
     (parse_headers sse mx hs b) (parse_headers sse mx (map (ext_header x) hs) (b @ x))"
proof (induction sse mx hs b rule: parse_headers.induct)
  case (1 sse mx hs b)
  let ?g = "\<lambda>(hs, r). (map (ext_header x) hs, r @ x)"
  show ?case
  proof (cases b)
    case Nil
    then show ?thesis by (subst parse_headers.simps) simp
  next
    case (Cons c r)
    have cr: "extends ?g (pbind (EXPECT_CHAR LF r) (\<lambda>b. Ok (hs, b)))
        (pbind (EXPECT_CHAR LF (r @ x)) (\<lambda>b. Ok (map (ext_header x) hs, b)))"
      by (rule extends_bind, rule extends_EXPECT_CHAR) simp
    show ?thesis
    proof (cases "c = CR \<or> c = LF \<or> length hs = mx")
      case True
      with cr show ?thesis unfolding Cons
        by (subst (1 2) parse_headers.simps) (auto simp del: pbind.simps)
    next
      case False
      then have f: "c \<noteq> CR" "c \<noteq> LF" "length hs \<noteq> mx" by auto
      have "extends ?g
         (pbind (parse_header_name sse (length hs) b) (\<lambda>(nm, nl, b).
          pbind (get_token_to_eol sse b) (\<lambda>(v, b').
          pbind (trim_len (fst v) (snd v)) (\<lambda>vl.
            parse_headers sse mx
              (hs @ [\<lparr>hd_name = nm, hd_name_len = nl, hd_value = fst v, hd_value_len = vl\<rparr>]) b'))))
         (pbind (parse_header_name sse (length hs) (b @ x)) (\<lambda>(nm, nl, b).
          pbind (get_token_to_eol sse b) (\<lambda>(v, b').
          pbind (trim_len (fst v) (snd v)) (\<lambda>vl.
            parse_headers sse mx (map (ext_header x) hs @
              [\<lparr>hd_name = nm, hd_name_len = nl, hd_value = fst v, hd_value_len = vl\<rparr>]) b'))))"
      proof (rule extends_bind, rule extends_parse_header_name, simp add: Cons, goal_cases)
        case (1 a)
        then have hn: "parse_header_name sse (length hs) b = Ok a" by simp
        obtain nm nl d where a: "a = (nm, nl, d)" by (metis prod.exhaust)
        show ?case unfolding a prod.case
        proof (rule extends_bind, rule extends_get_token_to_eol, goal_cases)
          case (1 t)
          then have gt: "get_token_to_eol sse d = Ok t" by simp
          obtain p n b' where t: "t = ((p, n), b')" by (metis prod.exhaust)
          from 1 have le: "n \<le> length p" by (auto simp: t dest: get_token_to_eol_fits)
          from trim_len_Ok [OF le] obtain m where m: "trim_len p n = Ok m" by auto
          have ih: "extends ?g (parse_headers sse mx
               (hs @ [\<lparr>hd_name = nm, hd_name_len = nl, hd_value = p, hd_value_len = m\<rparr>]) b')
             (parse_headers sse mx (map (ext_header x)
               (hs @ [\<lparr>hd_name = nm, hd_name_len = nl, hd_value = p, hd_value_len = m\<rparr>])) (b' @ x))"
            using "1.IH" [OF Cons f hn a [symmetric] refl gt t [symmetric], of m] m by simp
          show ?case using ih by (simp add: t m trim_len_append le ext_header_def)
        qed
      qed
      then show ?thesis using f unfolding Cons
        by (subst (1 2) parse_headers.simps) (simp del: pbind.simps)
    qed
  qed
qed

lemma extends_bind_ptr:
  "extends (\<lambda>r. r @ x) m m' \<Longrightarrow> (\<And>r. m = Ok r \<Longrightarrow> extends h (f r) (f' (r @ x))) \<Longrightarrow>
   extends h (pbind m f) (pbind m' f')"
  by (rule extends_bind)

lemma extends_skip_first_empty_line:
  "extends (\<lambda>r. r @ x) (skip_first_empty_line b) (skip_first_empty_line (b @ x))"
  using extends_EXPECT_CHAR
  by (cases b) (auto simp: skip_first_empty_line_def)

lemma extends_end_of_request_line:
  "b \<noteq> [] \<Longrightarrow> extends (\<lambda>r. r @ x) (end_of_request_line b) (end_of_request_line (b @ x))"
  using extends_EXPECT_CHAR
  by (cases b) (auto simp: end_of_request_line_def)

lemma extends_EXPECT_NO_CHECK:
  "extends (\<lambda>r. r @ x) (EXPECT_CHAR_NO_CHECK ch b) (EXPECT_CHAR_NO_CHECK ch (b @ x))"
  by (cases b) (auto simp: EXPECT_CHAR_NO_CHECK_def)

lemma extends_PARSE_INT:
  "extends (\<lambda>(v, r). (v, r @ x)) (PARSE_INT k b) (PARSE_INT k (b @ x))"
  by (cases b) (auto simp: PARSE_INT_def)

lemma extends_parse_http_version:
  "extends (\<lambda>(v, r). (v, r @ x)) (parse_http_version b) (parse_http_version (b @ x))"
proof (cases "length b < 9")
  case False
  then show ?thesis
    by (simp add: parse_http_version_def del: pbind.simps One_nat_def)
       (intro extends_bind_ptr [where x = x] extends_EXPECT_NO_CHECK extends_PARSE_INT)
qed (simp add: parse_http_version_def)

lemma extends_parse_request:
  "extends (\<lambda>(q, r). (ext_request x q, r @ x)) (parse_request sse mx b) (parse_request sse mx (b @ x))"
  unfolding parse_request_def
proof (rule extends_bind, rule extends_skip_first_empty_line, rule extends_bind,
    rule extends_parse_token [OF colon_in_ranges(2)], unfold case_prod_beta, simp del: pbind.simps,
    rule extends_bind, rule extends_skip_spaces, rule extends_bind, rule extends_ADVANCE_TOKEN,
    unfold case_prod_beta, simp del: pbind.simps, rule extends_bind, rule extends_skip_spaces, goal_cases)
  case (1 b1 mv b2 pv b3)
  show ?case
  proof (cases "snd (fst mv) = 0 \<or> snd (fst pv) = 0")
    case False
    have "extends (\<lambda>(q, r). (ext_request x q, r @ x))
       (pbind (parse_http_version b3) (\<lambda>(v, b). pbind (end_of_request_line b) (\<lambda>b.
          pbind (parse_headers sse mx [] b) (\<lambda>(hs, b).
           Ok (\<lparr>rq_method = fst mv, rq_path = fst pv, rq_minor_version = v, rq_headers = hs\<rparr>, b)))))
       (pbind (parse_http_version (b3 @ x)) (\<lambda>(v, b). pbind (end_of_request_line b) (\<lambda>b.
          pbind (parse_headers sse mx [] b) (\<lambda>(hs, b).
           Ok (\<lparr>rq_method = ext_view x (fst mv), rq_path = ext_view x (fst pv), rq_minor_version = v, rq_headers = hs\<rparr>, b)))))"
    proof (rule extends_bind, rule extends_parse_http_version, goal_cases)
      case (1 a)
      then obtain v b4 where a: "a = (v, b4)" "b4 \<noteq> []"
        by (cases a) (auto dest: parse_http_version_nonempty)
      show ?case unfolding a(1) prod.case
      proof (rule extends_bind, rule extends_end_of_request_line [OF a(2)], goal_cases)
        case (1 b5)
        show ?case
        proof (rule extends_bind, rule extends_parse_headers [where hs = "[]", simplified], goal_cases)
          case (1 t)
          then show ?case by (cases t) (simp add: ext_request_def)
        qed
      qed
    qed
    with False show ?thesis by (simp add: case_prod_unfold)
  qed simp
qed

end
