(* ===== verification/PicoParse.thy ===== *)
theory PicoParse
  imports PicoGrammar PicoExtend
begin

text \<open>
  The entry points of \<open>src/picohttpparser.c\<close>: equality of the SSE4.2 and the portable build, the
  slowloris check \<open>is_complete\<close>, and the properties of \<open>phr_parse_request\<close>.
\<close>

section \<open>Both builds agree\<close>

lemma parse_token_sse: "in_ranges token_ranges nc \<Longrightarrow> parse_token sse nc b = parse_token False nc b"
  by (simp add: parse_token_scan)

lemma ADVANCE_TOKEN_sse: "ADVANCE_TOKEN sse b = ADVANCE_TOKEN False b"
  by (simp add: ADVANCE_TOKEN_scan)

lemma get_token_to_eol_sse: "get_token_to_eol sse b = get_token_to_eol False b"
  by (simp add: get_token_to_eol_scan)

lemma parse_header_name_sse: "parse_header_name sse n b = parse_header_name False n b"
  unfolding parse_header_name_def parse_token_sse [OF colon_in_ranges(1), of sse] ..

lemma parse_headers_sse: "parse_headers sse mx hs b = parse_headers False mx hs b"
proof (induction sse mx hs b rule: parse_headers.induct)
  case (1 sse mx hs b)
  show ?case
  proof (cases b)
    case Nil
    then show ?thesis by (simp add: parse_headers.simps)
  next
    case (Cons c r)
    show ?thesis
    proof (cases "c \<noteq> CR \<and> c \<noteq> LF \<and> length hs \<noteq> mx")
      case False
      then show ?thesis unfolding Cons by (subst (1 2) parse_headers.simps) auto
    next
      case True
      then have t: "c \<noteq> CR" "c \<noteq> LF" "length hs \<noteq> mx" by auto
      have ih: "parse_headers sse mx
              (hs @ [\<lparr>hd_name = fst a, hd_name_len = fst (snd a), hd_value = fst (fst t), hd_value_len = vl\<rparr>]) (snd t)
         = parse_headers False mx
              (hs @ [\<lparr>hd_name = fst a, hd_name_len = fst (snd a), hd_value = fst (fst t), hd_value_len = vl\<rparr>]) (snd t)"
        if "parse_header_name sse (length hs) b = Ok a"
          "get_token_to_eol sse (snd (snd a)) = Ok t" "trim_len (fst (fst t)) (snd (fst t)) = Ok vl" for a t vl
        using "1.IH" [OF Cons t that(1) _ refl that(2) _ that(3), of "fst a" "fst (snd a)"] by simp
      show ?thesis
        using t unfolding Cons
        by (subst (1 2) parse_headers.simps)
          (auto simp: parse_header_name_sse [of sse] get_token_to_eol_sse [of sse] Cons case_prod_unfold
            intro!: pbind_cong ih)
    qed
  qed
qed

lemma parse_request_sse: "parse_request sse mx b = parse_request False mx b"
  unfolding parse_request_def parse_token_sse [OF colon_in_ranges(2), of sse] ADVANCE_TOKEN_sse [of sse]
    parse_headers_sse [of sse] ..

lemma parse_response_sse: "parse_response sse mx b = parse_response False mx b"
  unfolding parse_response_def get_token_to_eol_sse [of sse] parse_headers_sse [of sse] ..

section \<open>The completeness check\<close>

text \<open>Every CR of the text is followed by LF.\<close>

fun cr_ok :: "string \<Rightarrow> bool" where
  "cr_ok [] = True"
| "cr_ok (c # r) = ((c = CR \<longrightarrow> r \<noteq> [] \<and> hd r = LF) \<and> cr_ok r)"

lemma cr_ok_append: "cr_ok p \<Longrightarrow> cr_ok r \<Longrightarrow> cr_ok (p @ r)"
proof (induction p)
  case (Cons c p)
  then show ?case by (cases p) auto
qed simp

lemma cr_ok_plain: "\<forall>c\<in>set p. c \<noteq> CR \<Longrightarrow> cr_ok p"
  by (induction p) auto

lemma cr_ok_eol: "is_eol e \<Longrightarrow> cr_ok e"
  by (auto simp: is_eol_def CR_def LF_def)

lemma cr_ok_no_ctl: "\<forall>c\<in>set p. \<not> is_ctl c \<Longrightarrow> cr_ok p"
  by (intro cr_ok_plain) auto

lemma cr_ok_ws: "\<forall>c\<in>set p. is_ws c \<Longrightarrow> cr_ok p"
  by (intro cr_ok_no_ctl) (auto dest: is_ws_not_ctl)

lemma cr_ok_drop: "cr_ok s \<Longrightarrow> cr_ok (drop n s)"
proof (induction s arbitrary: n)
  case (Cons c s)
  then show ?case by (cases n) auto
qed simp

lemma hblock_cr_ok: "hblock b hs p \<Longrightarrow> cr_ok p"
proof (induction rule: hblock.induct)
  case (hb_named n ws v ws' e hs p first)
  have "cr_ok n" using hb_named(2) is_token_not_ws by (intro cr_ok_plain) blast
  moreover have "cr_ok [CHR '':'']" by (simp add: CR_def)
  ultimately have "cr_ok (n @ [CHR '':''] @ ws @ v @ ws' @ e @ p)"
    using cr_ok_ws [OF hb_named(3)] cr_ok_no_ctl [OF hb_named(4)] cr_ok_ws [OF hb_named(7)]
      cr_ok_eol [OF hb_named(9)] hb_named.IH by (simp only: cr_ok_append)
  then show ?case by simp
next
  case (hb_cont v ws' e hs p)
  show ?case
    using cr_ok_no_ctl [OF hb_cont(3)] cr_ok_ws [OF hb_cont(5)] cr_ok_eol [OF hb_cont(6)] hb_cont.IH
    by (simp only: cr_ok_append)
qed (simp add: cr_ok_eol)

text \<open>A header block after a line end closes with two line ends.\<close>

lemma hblock_ends: "hblock b hs p \<Longrightarrow> is_eol e \<Longrightarrow> \<exists>q e1 e2. e @ p = q @ e1 @ e2 \<and> is_eol e1 \<and> is_eol e2"
proof (induction arbitrary: e rule: hblock.induct)
  case (hb_end e' first)
  then show ?case by (intro exI [of _ "[]"] exI [of _ e] exI [of _ e']) simp
next
  case (hb_named n ws v ws' e' hs p first)
  from hb_named.IH [OF hb_named.hyps(9)] obtain q e1 e2 where "e' @ p = q @ e1 @ e2" "is_eol e1" "is_eol e2"
    by blast
  then show ?case
    by (intro exI [of _ "e @ n @ CHR '':'' # ws @ v @ ws' @ q"] exI [of _ e1] exI [of _ e2]) simp
next
  case (hb_cont v ws' e' hs p)
  from hb_cont.IH [OF hb_cont.hyps(6)] obtain q e1 e2 where "e' @ p = q @ e1 @ e2" "is_eol e1" "is_eol e2"
    by blast
  then show ?case
    by (intro exI [of _ "e @ v @ ws' @ q"] exI [of _ e1] exI [of _ e2]) simp
qed

lemma digit_not_CR: "v \<le> 9 \<Longrightarrow> char_of (48 + v :: nat) \<noteq> CR"
proof -
  assume "v \<le> 9"
  then have "byte (char_of (48 + v)) = 48 + v" by (simp add: of_char_of)
  then have "byte (char_of (48 + v)) \<noteq> byte CR" by (simp only: byte_consts)
  then show ?thesis by metis
qed

lemma reqblock_cr_ok: "reqblock m p v hs q \<Longrightarrow> cr_ok q"
proof (induction rule: reqblock.induct)
  case (1 pre m s1 p s2 v e hs h)
  have "cr_ok pre" using 1(1) cr_ok_eol by auto
  moreover have "cr_ok m" using 1(3) is_token_not_ws by (intro cr_ok_plain) blast
  moreover have "cr_ok s1" "cr_ok s2" using 1(4,7) by (auto intro!: cr_ok_ws simp: is_spaces_def is_ws_def)
  moreover have "cr_ok p" using 1(6) by (auto intro!: cr_ok_no_ctl simp: is_path_char_def is_ctl_iff)
  moreover have "cr_ok (''HTTP/1.'' @ char_of (48 + v) # [])"
    using digit_not_CR [OF 1(8)] by (intro cr_ok_plain) (auto simp: CR_def)
  ultimately have "cr_ok (((pre @ m) @ s1 @ p @ s2) @ (''HTTP/1.'' @ char_of (48 + v) # []) @ e @ h)"
    using cr_ok_eol [OF 1(9)] hblock_cr_ok [OF 1(10)] by (simp only: cr_ok_append)
  then show ?case by simp
qed

lemma reqblock_ends: "reqblock m p v hs q \<Longrightarrow> \<exists>q' e1 e2. q = q' @ e1 @ e2 \<and> is_eol e1 \<and> is_eol e2"
proof (induction rule: reqblock.induct)
  case (1 pre m s1 p s2 v e hs h)
  from hblock_ends [OF 1(10) 1(9)] obtain q e1 e2 where "e @ h = q @ e1 @ e2" "is_eol e1" "is_eol e2" by blast
  then show ?case
    by (intro exI [of _ "pre @ m @ s1 @ p @ s2 @ ''HTTP/1.'' @ char_of (48 + v) # q"] exI [of _ e1] exI [of _ e2])
      simp
qed

definition ends2 :: "string \<Rightarrow> bool" where
  "ends2 s \<longleftrightarrow> (\<exists>q e1 e2. s = q @ e1 @ e2 \<and> is_eol e1 \<and> is_eol e2)"

lemma ends2_other: "ends2 (c # r) \<Longrightarrow> c \<noteq> CR \<Longrightarrow> c \<noteq> LF \<Longrightarrow> ends2 r"
  unfolding ends2_def by (auto simp: Cons_eq_append_conv is_eol_def)

lemma ends2_LF: "ends2 (LF # r) \<Longrightarrow> ends2 r \<or> is_eol r"
  unfolding ends2_def by (auto simp: Cons_eq_append_conv is_eol_def CR_def LF_def)

lemma ends2_CRLF: "ends2 (CR # LF # r) \<Longrightarrow> ends2 r \<or> is_eol r"
proof -
  assume "ends2 (CR # LF # r)"
  then obtain q e1 e2 where q: "CR # LF # r = q @ e1 @ e2" "is_eol e1" "is_eol e2"
    by (auto simp: ends2_def)
  show ?thesis
  proof (cases q)
    case Nil
    with q show ?thesis by (auto simp: is_eol_def CR_def LF_def)
  next
    case (Cons a q')
    show ?thesis
    proof (cases q')
      case Nil
      with q Cons show ?thesis by (auto simp: is_eol_def CR_def LF_def)
    next
      case (Cons b q'')
      with q \<open>q = a # q'\<close> have "r = q'' @ e1 @ e2" by simp
      with q show ?thesis by (auto simp: ends2_def)
    qed
  qed
qed

lemma is_complete_loop_ends2:
  "cr_ok s \<Longrightarrow> cnt \<le> 1 \<Longrightarrow> ends2 s \<or> cnt = 1 \<and> is_eol s \<Longrightarrow> \<exists>t. is_complete_loop cnt (s @ x) = Ok t"
proof (induction "length s" arbitrary: s cnt rule: less_induct)
  case less
  show ?case
  proof (cases "cnt = 1 \<and> is_eol s")
    case True
    then show ?thesis by (auto simp: is_eol_def CR_def LF_def)
  next
    case False
    with less.prems(3) have e: "ends2 s" by blast
    then obtain c r where s: "s = c # r"
      by (cases s) (auto simp: ends2_def is_eol_def)
    have cnt: "cnt = 0 \<or> cnt = 1" using less.prems(2) by auto
    consider "c = CR" | "c = LF" | "c \<noteq> CR" "c \<noteq> LF" by blast
    then show ?thesis
    proof cases
      assume c: "c = CR"
      with s less.prems(1) obtain r' where r: "r = LF # r'" by (cases r) auto
      have "ends2 r' \<or> is_eol r'" using e s c r ends2_CRLF by simp
      moreover have "cr_ok r'" using less.prems(1) s r by simp
      ultimately have "\<exists>t. is_complete_loop 1 (r' @ x) = Ok t"
        using less.hyps [of r' 1] s r by auto
      with cnt show ?thesis by (auto simp: s c r)
    next
      assume c: "c = LF"
      have "ends2 r \<or> is_eol r" using e s c ends2_LF by simp
      moreover have "cr_ok r" using less.prems(1) s by simp
      ultimately have "\<exists>t. is_complete_loop 1 (r @ x) = Ok t"
        using less.hyps [of r 1] s by auto
      moreover have "LF \<noteq> CR" by (simp add: CR_def LF_def)
      ultimately show ?thesis using cnt by (auto simp: s c)
    next
      assume c: "c \<noteq> CR" "c \<noteq> LF"
      have "\<exists>t. is_complete_loop 0 (r @ x) = Ok t"
        using less.hyps [of r 0] s less.prems(1) ends2_other [of c r] e c by auto
      then show ?thesis by (simp add: s c)
    qed
  qed
qed

text \<open>
  The check never refuses or postpones a request that is complete now and was not complete
  when \<open>last_len\<close> bytes had arrived.
\<close>

lemma check_complete_passes:
  assumes "reqblock m p v hs q" "last_len < length q"
  shows "check_complete (q @ r) last_len = Ok ()"
proof -
  from reqblock_ends [OF assms(1)] obtain q' e1 e2 where
    q: "q = q' @ e1 @ e2" "is_eol e1" "is_eol e2" by blast
  let ?n = "if last_len < 3 then 0 else last_len - 3"
  have l: "length e1 \<le> 2" "length e2 \<le> 2" using q by (auto simp: is_eol_def)
  with assms(2) q(1) have n: "?n \<le> length q'" by (auto split: if_splits)
  then have d: "drop ?n q = drop ?n q' @ e1 @ e2" using q(1) by simp
  have "cr_ok (drop ?n q)" using assms(1) by (intro cr_ok_drop reqblock_cr_ok)
  moreover have "ends2 (drop ?n q)" unfolding d ends2_def using q by blast
  ultimately have "\<exists>t. is_complete_loop 0 (drop ?n q @ r) = Ok t"
    by (intro is_complete_loop_ends2) auto
  moreover have "drop ?n (q @ r) = drop ?n q @ r" using n q(1) by auto
  moreover have "\<not> length (q @ r) < ?n" using n q(1) by auto
  ultimately show ?thesis by (auto simp: check_complete_def is_complete_def Let_def)
qed

section \<open>Properties of the entry points\<close>

text \<open>C1: \<open>phr_parse_request\<close> accepts exactly the requests of the grammar. It succeeds with method
  \<open>m\<close>, path \<open>p\<close>, minor version \<open>v\<close>, headers \<open>hs\<close> and consumed length \<open>n\<close> if and only if the buffer
  starts with \<open>n\<close> bytes that are a request with these parts and the headers fit the caller's array;
  every other buffer is an error. The buffer is shorter than 2 GiB, as the result is an \<open>int\<close>.\<close>

theorem phr_parse_request_exact:
  assumes "length buf < 2147483648"
  shows "(\<exists>rq. phr_parse_request sse buf mx 0 = Ok (rq, n) \<and> req_str rq = (m, p, v, hs)) \<longleftrightarrow>
     (\<exists>q r. buf = q @ r \<and> n = int (length q) \<and> reqblock m p v hs q \<and> length hs \<le> mx)"
proof
  assume "\<exists>rq. phr_parse_request sse buf mx 0 = Ok (rq, n) \<and> req_str rq = (m, p, v, hs)"
  then obtain rq r where r: "parse_request sse mx buf = Ok (rq, r)" "req_str rq = (m, p, v, hs)"
    and n: "n = to_int (length buf - length r)"
    by (auto simp: phr_parse_request_def check_complete_def pbind_eqs)
  from parse_request_sound [OF r] n assms
  show "\<exists>q r. buf = q @ r \<and> n = int (length q) \<and> reqblock m p v hs q \<and> length hs \<le> mx"
    by (auto simp: to_int_id)
next
  assume "\<exists>q r. buf = q @ r \<and> n = int (length q) \<and> reqblock m p v hs q \<and> length hs \<le> mx"
  then obtain q r where q: "buf = q @ r" "n = int (length q)" "reqblock m p v hs q" "length hs \<le> mx" by blast
  from parse_request_complete [OF q(3,4), of sse r] q(1,2) assms
  show "\<exists>rq. phr_parse_request sse buf mx 0 = Ok (rq, n) \<and> req_str rq = (m, p, v, hs)"
    by (auto simp: phr_parse_request_def check_complete_def to_int_id)
qed

lemma hblock_example: "hblock True [(Some ''Host'', ''h'')] (''Host: h'' @ [CR, LF, CR, LF])"
proof -
  have e: "is_eol [CR, LF]" by (simp add: is_eol_def)
  have "hblock True [(Some ''Host'', ''h'')] (''Host'' @ CHR '':'' # [SP] @ ''h'' @ [] @ [CR, LF] @ [CR, LF])"
    by (rule hb_named)
      (auto simp: e is_token_char_def token_char_map_def is_ws_def is_ctl_iff trimmed_def SP_def HT_def
        intro: hb_end [OF e])
  then show ?thesis by (simp add: SP_def)
qed

lemma reqblock_example:
  "reqblock ''GET'' ''/a'' 1 [(Some ''Host'', ''h'')]
     (''GET /a HTTP/1.1'' @ [CR, LF] @ ''Host: h'' @ [CR, LF, CR, LF])"
proof -
  have e: "is_eol [CR, LF]" by (simp add: is_eol_def)
  have "reqblock ''GET'' ''/a'' 1 [(Some ''Host'', ''h'')]
     ([] @ ''GET'' @ [SP] @ ''/a'' @ [SP] @ ''HTTP/1.'' @ char_of (48 + 1 :: nat) # [CR, LF] @ ''Host: h'' @ [CR, LF, CR, LF])"
    by (rule reqblock.intros)
      (simp_all add: e is_token_char_def token_char_map_def is_spaces_def is_path_char_def SP_def
        hblock_example [simplified SP_def append.simps append_Nil])
  moreover have "char_of (48 + 1 :: nat) = CHR ''1''" by (simp add: char_of_def bit_iff_odd)
  ultimately show ?thesis by (simp add: SP_def)
qed

lemma phr_parse_request_exact_witness:
  "\<exists>rq. phr_parse_request True (''GET /a HTTP/1.1'' @ [CR, LF] @ ''Host: h'' @ [CR, LF, CR, LF] @ ''xyz'') 64 0
      = Ok (rq, 28) \<and> req_str rq = (''GET'', ''/a'', 1, [(Some ''Host'', ''h'')])"
  by (subst phr_parse_request_exact, simp)
    (intro exI [of _ "''GET /a HTTP/1.1'' @ [CR, LF] @ ''Host: h'' @ [CR, LF, CR, LF]"] exI [of _ "''xyz''"],
      use reqblock_example in simp)

text \<open>C2: memory safety and error codes. On every buffer, with every header limit and every
  \<open>last_len\<close> that is not larger than the buffer, each of the three entry points reads no byte outside
  the buffer, and fails with -1 (malformed) or -2 (incomplete) only.\<close>

theorem phr_parse_safe:
  assumes "last_len \<le> length buf"
  shows "fine (phr_parse_request sse buf mx last_len) \<and> fine (phr_parse_response sse buf mx last_len) \<and>
    fine (phr_parse_headers sse buf mx last_len)"
  using assms
  by (auto simp: phr_parse_request_def phr_parse_response_def phr_parse_headers_def case_prod_unfold
      intro!: fine_intros fine_parse_request fine_parse_response)

lemma phr_parse_safe_witness:
  "fine (phr_parse_request True ''GET / HTTP/1.1'' 64 3) \<and> fine (phr_parse_response True ''GET / HTTP/1.1'' 64 3) \<and>
    fine (phr_parse_headers True ''GET / HTTP/1.1'' 64 3)"
  by (rule phr_parse_safe) simp

text \<open>C3: incremental parsing. When more bytes arrive, a request that was complete parses to the same
  fields and the same consumed length, and a malformed request stays malformed: only the answer -2
  can change.\<close>

theorem phr_parse_request_incremental:
  "(phr_parse_request sse b mx 0 = Ok (rq, n) \<longrightarrow>
      phr_parse_request sse (b @ x) mx 0 = Ok (ext_request x rq, n)) \<and>
   (phr_parse_request sse b mx 0 = Ret (-1) \<longrightarrow> phr_parse_request sse (b @ x) mx 0 = Ret (-1))"
proof -
  have "extends (\<lambda>(q, r). (ext_request x q, r @ x)) (parse_request sse mx b) (parse_request sse mx (b @ x))"
    by (rule extends_parse_request)
  then show ?thesis
    by (cases "parse_request sse mx b")
      (auto simp: phr_parse_request_def check_complete_def)
qed

lemma phr_parse_request_incremental_witness:
  "\<exists>rq. phr_parse_request False (''GET /a HTTP/1.1'' @ [CR, LF] @ ''Host: h'' @ [CR, LF, CR, LF]) 64 0 = Ok (rq, 28) \<and>
     phr_parse_request False ((''GET /a HTTP/1.1'' @ [CR, LF] @ ''Host: h'' @ [CR, LF, CR, LF]) @ ''body'') 64 0
       = Ok (ext_request ''body'' rq, 28)"
proof -
  let ?b = "''GET /a HTTP/1.1'' @ [CR, LF] @ ''Host: h'' @ [CR, LF, CR, LF]"
  from parse_request_complete [OF reqblock_example, of 64 False "[]"] obtain rq where
    "parse_request False 64 ?b = Ok (rq, [])" by auto
  then have "phr_parse_request False ?b 64 0 = Ok (rq, 28)"
    by (simp add: phr_parse_request_def check_complete_def to_int_id)
  with phr_parse_request_incremental [of False ?b 64 rq 28 "''body''"] show ?thesis by blast
qed

text \<open>The slowloris check is transparent. If the request was incomplete when \<open>b\<close> had arrived, then
  the call on the longer buffer that passes the earlier length as \<open>last_len\<close> succeeds exactly when the
  plain call does, with the same result: the shortcut never loses or delays a complete request.\<close>

theorem phr_parse_request_last_len:
  assumes "phr_parse_request sse b mx 0 = Ret (-2)"
  shows "phr_parse_request sse (b @ x) mx (length b) = Ok res \<longleftrightarrow> phr_parse_request sse (b @ x) mx 0 = Ok res"
proof
  assume "phr_parse_request sse (b @ x) mx (length b) = Ok res"
  then show "phr_parse_request sse (b @ x) mx 0 = Ok res"
    by (auto simp: phr_parse_request_def check_complete_def pbind_eqs split: if_splits)
next
  assume ok: "phr_parse_request sse (b @ x) mx 0 = Ok res"
  then obtain rq r where r: "parse_request sse mx (b @ x) = Ok (rq, r)"
    by (auto simp: phr_parse_request_def check_complete_def pbind_eqs)
  obtain m p v hs where s: "req_str rq = (m, p, v, hs)" by (metis prod_cases4)
  from parse_request_sound [OF r s] obtain q where
    q: "b @ x = q @ r" "reqblock m p v hs q" "length hs \<le> mx" by blast
  have "length b < length q"
  proof (rule ccontr)
    assume "\<not> length b < length q"
    then obtain y where "b = q @ y" using q(1) by (metis append_eq_append_conv_if append_take_drop_id linorder_not_le order_less_imp_le)
    with parse_request_complete [OF q(2,3), of sse y] assms show False
      by (auto simp: phr_parse_request_def check_complete_def pbind_eqs)
  qed
  from check_complete_passes [OF q(2) this, of r] q(1) ok
  show "phr_parse_request sse (b @ x) mx (length b) = Ok res"
    by (simp add: phr_parse_request_def check_complete_def [of _ 0])
qed

lemma phr_parse_request_last_len_witness:
  "\<exists>rq. phr_parse_request False (''GET'' @ '' /a HTTP/1.1'' @ [CR, LF] @ ''Host: h'' @ [CR, LF, CR, LF]) 64 (length ''GET'')
     = Ok (rq, 28)"
proof -
  let ?x = "'' /a HTTP/1.1'' @ [CR, LF] @ ''Host: h'' @ [CR, LF, CR, LF]"
  have inc: "phr_parse_request False ''GET'' 64 0 = Ret (-2)"
    by (simp add: phr_parse_request_def check_complete_def parse_request_def skip_first_empty_line_def
      parse_token_scan CR_def LF_def is_token_char_def token_char_map_def, simp add: SP_def)
  from parse_request_complete [OF reqblock_example, of 64 False "[]"] obtain rq where
    "parse_request False 64 (''GET'' @ ?x) = Ok (rq, [])" by auto
  then have "phr_parse_request False (''GET'' @ ?x) 64 0 = Ok (rq, 28)"
    by (simp add: phr_parse_request_def check_complete_def to_int_id)
  with phr_parse_request_last_len [OF inc, of ?x "(rq, 28)"] show ?thesis by blast
qed

text \<open>C4: the build with SSE4.2 and the portable build compute the same outcome on every input, for all
  three entry points, reads outside the buffer included.\<close>

theorem phr_parse_sse_agree:
  "phr_parse_request True buf mx last_len = phr_parse_request False buf mx last_len \<and>
   phr_parse_response True buf mx last_len = phr_parse_response False buf mx last_len \<and>
   phr_parse_headers True buf mx last_len = phr_parse_headers False buf mx last_len"
  unfolding phr_parse_request_def phr_parse_response_def phr_parse_headers_def
    parse_request_sse [of True] parse_response_sse [of True] parse_headers_sse [of True]
  by (intro conjI refl)

end
