(* ===== verification/Chunked.thy ===== *)
theory Chunked
  imports PicoScan
begin

text \<open>
  The chunked transfer decoder of \<open>src/picohttpparser.c\<close> (\<open>phr_decode_chunked\<close>), which decodes a
  buffer in place and keeps its state between calls: one function per \<open>case\<close> of its switch, over
  the buffer and the offsets \<open>src\<close> and \<open>dst\<close>. What it computes is in \<open>ChunkedRun\<close>.
\<close>

section \<open>The decoder\<close>

datatype chunk_state =
    CHUNKED_IN_CHUNK_SIZE | CHUNKED_IN_CHUNK_EXT | CHUNKED_IN_CHUNK_DATA | CHUNKED_IN_CHUNK_CRLF
  | CHUNKED_IN_TRAILERS_LINE_HEAD | CHUNKED_IN_TRAILERS_LINE_MIDDLE

record phr_chunked_decoder =
  bytes_left_in_chunk :: "64 word"
  consume_trailer :: bool
  hex_count :: nat
  chunk_st :: chunk_state

definition decode_hex :: "char \<Rightarrow> int" where
  "decode_hex ch =
     (if 48 \<le> byte ch \<and> byte ch \<le> 57 then int (byte ch) - 48
      else if 65 \<le> byte ch \<and> byte ch \<le> 70 then int (byte ch) - 65 + 10
      else if 97 \<le> byte ch \<and> byte ch \<le> 102 then int (byte ch) - 97 + 10
      else -1)"

text \<open>
  How a case of the switch ends: a jump to \<open>Exit\<close> with the value of \<open>ret\<close>, a jump to \<open>Complete\<close>,
  the fall into the next case, the \<open>break\<close> to the loop around the switch, or a read out of bounds.
\<close>

datatype flow = FExit int | FComplete | FFall | FBreak | FOob

record cst =
  cdec :: phr_chunked_decoder
  cbuf :: string
  cdst :: nat
  csrc :: nat

text \<open>\<open>buf\<close> is exactly the \<open>*_bufsz\<close> bytes of the call.\<close>

abbreviation bufsz :: "cst \<Rightarrow> nat" where "bufsz s \<equiv> length (cbuf s)"

definition rd :: "cst \<Rightarrow> (char \<Rightarrow> flow \<times> cst) \<Rightarrow> flow \<times> cst" where
  "rd s f = (if csrc s < bufsz s then f (cbuf s ! csrc s) else (FOob, s))"

text \<open>The copied ranges may overlap; all reads are of the old contents.\<close>

definition memmove :: "string \<Rightarrow> nat \<Rightarrow> nat \<Rightarrow> nat \<Rightarrow> string" where
  "memmove buf dst src n =
     map (\<lambda>i. if dst \<le> i \<and> i < dst + n then buf ! (src + (i - dst)) else buf ! i) [0..<length buf]"

lemma rd_cong [fundef_cong]:
  "s = s' \<Longrightarrow> (\<And>c. csrc s' < bufsz s' \<Longrightarrow> f c = f' c) \<Longrightarrow> rd s f = rd s' f'"
  by (auto simp: rd_def)

function in_chunk_size :: "cst \<Rightarrow> flow \<times> cst" where
  "in_chunk_size s =
     (if csrc s = bufsz s then (FExit (-2), s)
      else rd s (\<lambda>c.
        if decode_hex c = -1 then
          if hex_count (cdec s) = 0 then (FExit (-1), s)
          else (FFall, s\<lparr>cdec := (cdec s)\<lparr>hex_count := 0, chunk_st := CHUNKED_IN_CHUNK_EXT\<rparr>\<rparr>)
        else if hex_count (cdec s) = 16 then (FExit (-1), s)
        else in_chunk_size (s\<lparr>csrc := csrc s + 1,
               cdec := (cdec s)\<lparr>bytes_left_in_chunk := bytes_left_in_chunk (cdec s) * 16 + of_int (decode_hex c),
                                hex_count := hex_count (cdec s) + 1\<rparr>\<rparr>)))"
  by pat_completeness auto
termination
  by (relation "measure (\<lambda>s. bufsz s - csrc s)") (auto simp: rd_def)

text \<open>The loops that skip bytes: \<open>for (;; ++src)\<close> with the exit at the end of the buffer.\<close>

function skip_while :: "(char \<Rightarrow> bool) \<Rightarrow> cst \<Rightarrow> flow \<times> cst" where
  "skip_while p s =
     (if csrc s = bufsz s then (FExit (-2), s)
      else rd s (\<lambda>c. if p c then skip_while p (s\<lparr>csrc := csrc s + 1\<rparr>) else (FFall, s)))"
  by pat_completeness auto
termination
  by (relation "measure (\<lambda>(_, s). bufsz s - csrc s)") (auto simp: rd_def)

declare in_chunk_size.simps [simp del] skip_while.simps [simp del]

definition fall :: "flow \<times> cst \<Rightarrow> (cst \<Rightarrow> flow \<times> cst) \<Rightarrow> flow \<times> cst" where
  "fall r f = (case r of (FFall, s) \<Rightarrow> f s | (x, s) \<Rightarrow> (x, s))"

definition set_st :: "chunk_state \<Rightarrow> cst \<Rightarrow> cst" where
  "set_st q s = s\<lparr>cdec := (cdec s)\<lparr>chunk_st := q\<rparr>\<rparr>"

definition in_chunk_ext :: "cst \<Rightarrow> flow \<times> cst" where
  "in_chunk_ext s =
     fall (skip_while (\<lambda>c. c \<noteq> LF) s) (\<lambda>s1.
       let s2 = s1\<lparr>csrc := csrc s1 + 1\<rparr> in
       if bytes_left_in_chunk (cdec s2) = 0 then
         if consume_trailer (cdec s2) then (FBreak, set_st CHUNKED_IN_TRAILERS_LINE_HEAD s2)
         else (FComplete, s2)
       else (FFall, set_st CHUNKED_IN_CHUNK_DATA s2))"

definition in_chunk_data :: "cst \<Rightarrow> flow \<times> cst" where
  "in_chunk_data s =
     (let avail = bufsz s - csrc s; left = unat (bytes_left_in_chunk (cdec s)) in
      if avail < left then
        (FExit (-2),
         s\<lparr>cbuf := (if cdst s \<noteq> csrc s then memmove (cbuf s) (cdst s) (csrc s) avail else cbuf s),
           csrc := csrc s + avail, cdst := cdst s + avail,
           cdec := (cdec s)\<lparr>bytes_left_in_chunk := bytes_left_in_chunk (cdec s) - of_nat avail\<rparr>\<rparr>)
      else
        (FFall,
         s\<lparr>cbuf := (if cdst s \<noteq> csrc s then memmove (cbuf s) (cdst s) (csrc s) left else cbuf s),
           csrc := csrc s + left, cdst := cdst s + left,
           cdec := (cdec s)\<lparr>bytes_left_in_chunk := 0, chunk_st := CHUNKED_IN_CHUNK_CRLF\<rparr>\<rparr>))"

definition in_chunk_crlf :: "cst \<Rightarrow> flow \<times> cst" where
  "in_chunk_crlf s =
     fall (skip_while (\<lambda>c. c = CR) s) (\<lambda>s1. rd s1 (\<lambda>c.
       if c \<noteq> LF then (FExit (-1), s1)
       else (FBreak, set_st CHUNKED_IN_CHUNK_SIZE (s1\<lparr>csrc := csrc s1 + 1\<rparr>))))"

definition in_trailers_line_head :: "cst \<Rightarrow> flow \<times> cst" where
  "in_trailers_line_head s =
     fall (skip_while (\<lambda>c. c = CR) s) (\<lambda>s1. rd s1 (\<lambda>c.
       let s2 = s1\<lparr>csrc := csrc s1 + 1\<rparr> in
       if c = LF then (FComplete, s2) else (FFall, set_st CHUNKED_IN_TRAILERS_LINE_MIDDLE s2)))"

definition in_trailers_line_middle :: "cst \<Rightarrow> flow \<times> cst" where
  "in_trailers_line_middle s =
     fall (skip_while (\<lambda>c. c \<noteq> LF) s) (\<lambda>s1.
       (FBreak, set_st CHUNKED_IN_TRAILERS_LINE_HEAD (s1\<lparr>csrc := csrc s1 + 1\<rparr>)))"

text \<open>One execution of the switch.\<close>

definition chunk_switch :: "cst \<Rightarrow> flow \<times> cst" where
  "chunk_switch s =
     (case chunk_st (cdec s) of
        CHUNKED_IN_CHUNK_SIZE \<Rightarrow>
          fall (fall (fall (in_chunk_size s) in_chunk_ext) in_chunk_data) in_chunk_crlf
      | CHUNKED_IN_CHUNK_EXT \<Rightarrow> fall (fall (in_chunk_ext s) in_chunk_data) in_chunk_crlf
      | CHUNKED_IN_CHUNK_DATA \<Rightarrow> fall (in_chunk_data s) in_chunk_crlf
      | CHUNKED_IN_CHUNK_CRLF \<Rightarrow> in_chunk_crlf s
      | CHUNKED_IN_TRAILERS_LINE_HEAD \<Rightarrow> fall (in_trailers_line_head s) in_trailers_line_middle
      | CHUNKED_IN_TRAILERS_LINE_MIDDLE \<Rightarrow> in_trailers_line_middle s)"

section \<open>The loop\<close>

text \<open>Every case moves \<open>src\<close> forward, and one that breaks to the loop consumes a byte.\<close>

definition forward :: "cst \<Rightarrow> flow \<times> cst \<Rightarrow> bool" where
  "forward s r \<longleftrightarrow> bufsz (snd r) = bufsz s \<and> csrc s \<le> csrc (snd r) \<and>
     (fst r = FBreak \<longrightarrow> csrc s < csrc (snd r) \<and> csrc (snd r) \<le> bufsz s)"

lemma memmove_length [simp]: "length (memmove buf d s n) = length buf"
  by (simp add: memmove_def)

lemma set_st_simps [simp]: "cbuf (set_st q s) = cbuf s" "cdst (set_st q s) = cdst s" "csrc (set_st q s) = csrc s"
  "cdec (set_st q s) = (cdec s)\<lparr>chunk_st := q\<rparr>"
  by (simp_all add: set_st_def)

lemma forward_fall: "forward s r \<Longrightarrow> (\<And>s'. r = (FFall, s') \<Longrightarrow> forward s' (f s')) \<Longrightarrow> forward s (fall r f)"
  by (cases r; cases "fst r") (auto simp: fall_def forward_def)

lemma forward_skip_while: "forward s (skip_while p s) \<and> fst (skip_while p s) \<notin> {FBreak, FComplete}"
proof (induction p s rule: skip_while.induct)
  case (1 p s)
  show ?case
  proof (cases "csrc s < bufsz s \<and> p (cbuf s ! csrc s)")
    case True
    then have "skip_while p s = skip_while p (s\<lparr>csrc := csrc s + 1\<rparr>)"
      by (subst skip_while.simps) (simp add: rd_def)
    with True "1.IH" [of "cbuf s ! csrc s"] show ?thesis by (auto simp: forward_def)
  next
    case False
    then show ?thesis by (subst (1 2) skip_while.simps) (auto simp: rd_def forward_def)
  qed
qed

lemma skip_while_FFall: "skip_while p s = (FFall, s') \<Longrightarrow> csrc s' < bufsz s'"
proof (induction p s rule: skip_while.induct)
  case (1 p s)
  from "1.prems" show ?case
    by (subst (asm) skip_while.simps) (auto simp: rd_def split: if_splits intro: "1.IH")
qed

lemma forward_in_chunk_size: "forward s (in_chunk_size s) \<and> fst (in_chunk_size s) \<noteq> FBreak"
proof (induction s rule: in_chunk_size.induct)
  case (1 s)
  show ?case
  proof (cases "csrc s < bufsz s \<and> decode_hex (cbuf s ! csrc s) \<noteq> -1 \<and> hex_count (cdec s) \<noteq> 16")
    case True
    then have "in_chunk_size s = in_chunk_size (s\<lparr>csrc := csrc s + 1,
               cdec := (cdec s)\<lparr>bytes_left_in_chunk := bytes_left_in_chunk (cdec s) * 16 +
                   of_int (decode_hex (cbuf s ! csrc s)), hex_count := hex_count (cdec s) + 1\<rparr>\<rparr>)"
      by (subst in_chunk_size.simps) (simp add: rd_def)
    with True "1.IH" [of "cbuf s ! csrc s"] show ?thesis by (auto simp: forward_def)
  next
    case False
    then show ?thesis by (subst (1 2) in_chunk_size.simps) (auto simp: rd_def forward_def)
  qed
qed

lemma forward_in_chunk_ext: "forward s (in_chunk_ext s)"
  unfolding in_chunk_ext_def
  by (rule forward_fall [OF forward_skip_while [THEN conjunct1]])
    (auto simp: forward_def Let_def dest: skip_while_FFall)

lemma forward_in_chunk_data: "forward s (in_chunk_data s)"
  by (auto simp: in_chunk_data_def forward_def Let_def)

lemma forward_in_chunk_crlf: "forward s (in_chunk_crlf s)"
  unfolding in_chunk_crlf_def
  by (rule forward_fall [OF forward_skip_while [THEN conjunct1]]) (auto simp: forward_def rd_def)

lemma forward_head: "forward s (in_trailers_line_head s)"
  unfolding in_trailers_line_head_def
  by (rule forward_fall [OF forward_skip_while [THEN conjunct1]]) (auto simp: forward_def rd_def Let_def)

lemma forward_middle: "forward s (in_trailers_line_middle s)"
  unfolding in_trailers_line_middle_def
  by (rule forward_fall [OF forward_skip_while [THEN conjunct1]]) (auto simp: forward_def dest: skip_while_FFall)

lemma forward_switch: "forward s (chunk_switch s)"
  unfolding chunk_switch_def
  by (cases "chunk_st (cdec s)")
    (simp_all add: forward_fall forward_in_chunk_size [THEN conjunct1] forward_in_chunk_ext forward_in_chunk_data
      forward_in_chunk_crlf forward_head forward_middle)

text \<open>The loop around the switch, with the code after the labels; \<open>ret\<close>, the decoder, the buffer and \<open>*_bufsz\<close>.\<close>

definition chunk_exit :: "int \<Rightarrow> cst \<Rightarrow> (int \<times> phr_chunked_decoder \<times> string \<times> nat) presult" where
  "chunk_exit ret s =
     Ok (ret, cdec s,
         (if cdst s \<noteq> csrc s then memmove (cbuf s) (cdst s) (csrc s) (bufsz s - csrc s) else cbuf s), cdst s)"

function chunk_loop :: "cst \<Rightarrow> (int \<times> phr_chunked_decoder \<times> string \<times> nat) presult" where
  "chunk_loop s =
     (case chunk_switch s of
        (FExit ret, s') \<Rightarrow> chunk_exit ret s'
      | (FComplete, s') \<Rightarrow> chunk_exit (int (bufsz s') - int (csrc s')) s'
      | (FBreak, s') \<Rightarrow> chunk_loop s'
      | (_, s') \<Rightarrow> Oob)"
  by pat_completeness auto
termination
proof (relation "measure (\<lambda>s. bufsz s - csrc s)", goal_cases)
  case (2 s x s')
  then have "chunk_switch s = (FBreak, s')" by simp
  with forward_switch [of s] show ?case by (auto simp: forward_def)
qed simp

declare chunk_loop.simps [simp del]

definition phr_decode_chunked ::
    "phr_chunked_decoder \<Rightarrow> string \<Rightarrow> (int \<times> phr_chunked_decoder \<times> string \<times> nat) presult" where
  "phr_decode_chunked decoder buf = chunk_loop \<lparr>cdec = decoder, cbuf = buf, cdst = 0, csrc = 0\<rparr>"

definition phr_decode_chunked_is_in_data :: "phr_chunked_decoder \<Rightarrow> bool" where
  "phr_decode_chunked_is_in_data decoder \<longleftrightarrow> chunk_st decoder = CHUNKED_IN_CHUNK_DATA"

end
