(* ===== verification/ChunkedRun.thy ===== *)
theory ChunkedRun
  imports Chunked
begin

text \<open>
  The decoder of \<open>Chunked\<close> as an automaton that consumes one byte at a time and emits data bytes, the
  simulation that the code is this automaton, and its consequences: independence of
  how the input is split over calls, the round trip with an encoder, no wrap-around.
\<close>

section \<open>The decoder as an automaton\<close>

datatype cact = CGo phr_chunked_decoder string | CStop | CBad

definition ext_step :: "phr_chunked_decoder \<Rightarrow> char \<Rightarrow> cact" where
  "ext_step d c =
     (if c \<noteq> LF then CGo d []
      else if bytes_left_in_chunk d \<noteq> 0 then CGo (d\<lparr>chunk_st := CHUNKED_IN_CHUNK_DATA\<rparr>) []
      else if consume_trailer d then CGo (d\<lparr>chunk_st := CHUNKED_IN_TRAILERS_LINE_HEAD\<rparr>) []
      else CStop)"

definition cstep :: "phr_chunked_decoder \<Rightarrow> char \<Rightarrow> cact" where
  "cstep d c =
     (case chunk_st d of
        CHUNKED_IN_CHUNK_SIZE \<Rightarrow>
          if decode_hex c \<noteq> -1 then
            if hex_count d = 16 then CBad
            else CGo (d\<lparr>bytes_left_in_chunk := bytes_left_in_chunk d * 16 + of_int (decode_hex c),
                        hex_count := hex_count d + 1\<rparr>) []
          else if hex_count d = 0 then CBad
          else ext_step (d\<lparr>hex_count := 0, chunk_st := CHUNKED_IN_CHUNK_EXT\<rparr>) c
      | CHUNKED_IN_CHUNK_EXT \<Rightarrow> ext_step d c
      | CHUNKED_IN_CHUNK_DATA \<Rightarrow>
          CGo (d\<lparr>bytes_left_in_chunk := bytes_left_in_chunk d - 1,
                 chunk_st := (if bytes_left_in_chunk d = 1 then CHUNKED_IN_CHUNK_CRLF else CHUNKED_IN_CHUNK_DATA)\<rparr>) [c]
      | CHUNKED_IN_CHUNK_CRLF \<Rightarrow>
          if c = CR then CGo d [] else if c = LF then CGo (d\<lparr>chunk_st := CHUNKED_IN_CHUNK_SIZE\<rparr>) [] else CBad
      | CHUNKED_IN_TRAILERS_LINE_HEAD \<Rightarrow>
          if c = CR then CGo d [] else if c = LF then CStop
          else CGo (d\<lparr>chunk_st := CHUNKED_IN_TRAILERS_LINE_MIDDLE\<rparr>) []
      | CHUNKED_IN_TRAILERS_LINE_MIDDLE \<Rightarrow>
          if c = LF then CGo (d\<lparr>chunk_st := CHUNKED_IN_TRAILERS_LINE_HEAD\<rparr>) [] else CGo d [])"

text \<open>The result of a run: more input expected, complete with the bytes that follow, or malformed; each
  with the decoded bytes.\<close>

datatype cres = CMore phr_chunked_decoder string | CDone string string | CFail string

fun crun :: "phr_chunked_decoder \<Rightarrow> string \<Rightarrow> string \<Rightarrow> cres" where
  "crun d out [] = CMore d out"
| "crun d out (c # r) =
     (case cstep d c of CGo d' e \<Rightarrow> crun d' (out @ e) r | CStop \<Rightarrow> CDone out r | CBad \<Rightarrow> CFail out)"

text \<open>A data chunk being read is not exhausted.\<close>

definition dec_ok :: "phr_chunked_decoder \<Rightarrow> bool" where
  "dec_ok d \<longleftrightarrow> (chunk_st d = CHUNKED_IN_CHUNK_DATA \<longrightarrow> bytes_left_in_chunk d \<noteq> 0)"

section \<open>The code is the automaton\<close>

definition outp :: "cst \<Rightarrow> string" where "outp s = take (cdst s) (cbuf s)"
definition rest :: "cst \<Rightarrow> string" where "rest s = drop (csrc s) (cbuf s)"
definition run :: "cst \<Rightarrow> cres" where "run s = crun (cdec s) (outp s) (rest s)"

definition cok :: "cst \<Rightarrow> bool" where
  "cok s \<longleftrightarrow> cdst s \<le> csrc s \<and> csrc s \<le> bufsz s \<and> dec_ok (cdec s)"

text \<open>The handler's outcome \<open>r\<close> accounts for the run from \<open>s\<close>; a fall reaches the state \<open>q\<close>.\<close>

definition sim :: "chunk_state \<Rightarrow> cst \<Rightarrow> flow \<times> cst \<Rightarrow> bool" where
  "sim q s r \<longleftrightarrow> cok (snd r) \<and>
     (case fst r of
        FExit e \<Rightarrow> e = -2 \<and> run s = CMore (cdec (snd r)) (outp (snd r)) \<and> rest (snd r) = []
                 \<or> e = -1 \<and> run s = CFail (outp (snd r))
      | FComplete \<Rightarrow> run s = CDone (outp (snd r)) (rest (snd r))
      | FFall \<Rightarrow> run (snd r) = run s \<and> chunk_st (cdec (snd r)) = q
      | FBreak \<Rightarrow> run (snd r) = run s
      | FOob \<Rightarrow> False)"

lemma sim_run: "sim q s' r \<Longrightarrow> run s' = run s \<Longrightarrow> sim q s r"
  by (cases "fst r") (auto simp: sim_def)

lemma sim_fall:
  assumes "sim q s r" "\<And>s'. cok s' \<Longrightarrow> chunk_st (cdec s') = q \<Longrightarrow> sim q' s' (f s')"
  shows "sim q' s (fall r f)"
proof (cases r)
  case (Pair x s')
  show ?thesis
  proof (cases "x = FFall")
    case True
    with assms Pair have "sim q' s' (f s')" "run s' = run s" by (auto simp: sim_def)
    with True Pair show ?thesis by (simp add: fall_def sim_run)
  next
    case False
    with assms(1) Pair show ?thesis by (cases x) (auto simp: sim_def fall_def)
  qed
qed

lemma rest_Cons: "csrc s < bufsz s \<Longrightarrow> rest s = cbuf s ! csrc s # drop (csrc s + 1) (cbuf s)"
  by (simp add: rest_def Cons_nth_drop_Suc)

lemma outp_csrc [simp]: "outp (s\<lparr>csrc := k\<rparr>) = outp s" "outp (set_st q s) = outp s" "outp (s\<lparr>cdec := d\<rparr>) = outp s"
  by (simp_all add: outp_def)

lemma rest_upd [simp]: "rest (set_st q s) = rest s" "rest (s\<lparr>cdec := d\<rparr>) = rest s"
   "rest (s\<lparr>csrc := k\<rparr>) = drop k (cbuf s)"
  by (simp_all add: rest_def)

lemma run_step:
  assumes "csrc s < bufsz s"
  shows "run s = (case cstep (cdec s) (cbuf s ! csrc s) of
      CGo d e \<Rightarrow> crun d (outp s @ e) (drop (Suc (csrc s)) (cbuf s))
    | CStop \<Rightarrow> CDone (outp s) (drop (Suc (csrc s)) (cbuf s)) | CBad \<Rightarrow> CFail (outp s))"
  by (simp add: run_def rest_Cons [OF assms])

lemma skip_while_run:
  assumes "cok s" "\<And>c. p c \<Longrightarrow> cstep (cdec s) c = CGo (cdec s) []"
  shows "(skip_while p s = (FExit (-2), s\<lparr>csrc := bufsz s\<rparr>) \<and> run s = CMore (cdec s) (outp s)) \<or>
    (\<exists>k. skip_while p s = (FFall, s\<lparr>csrc := k\<rparr>) \<and> csrc s \<le> k \<and> k < bufsz s \<and> \<not> p (cbuf s ! k) \<and>
       run (s\<lparr>csrc := k\<rparr>) = run s)"
  using assms
proof (induction p s rule: skip_while.induct)
  case (1 p s)
  show ?case
  proof (cases "csrc s = bufsz s")
    case True
    then show ?thesis by (subst (1) skip_while.simps) (auto simp: run_def rest_def)
  next
    case False
    with "1.prems"(1) have l: "csrc s < bufsz s" by (simp add: cok_def)
    show ?thesis
    proof (cases "p (cbuf s ! csrc s)")
      case np: False
      with l have "skip_while p s = (FFall, s)" by (subst skip_while.simps) (simp add: rd_def)
      with np l show ?thesis by (intro disjI2 exI [of _ "csrc s"]) simp
    next
      case pc: True
      let ?t = "s\<lparr>csrc := csrc s + 1\<rparr>"
      have eq: "skip_while p s = skip_while p ?t"
        using l pc by (subst skip_while.simps) (simp add: rd_def)
      have rn: "run ?t = run s"
        using l "1.prems"(2) [OF pc] by (subst run_step [OF l]) (simp add: run_def)
      have "cok ?t" using "1.prems"(1) l by (simp add: cok_def)
      with "1.IH" [OF False l pc this] "1.prems"(2) rn eq show ?thesis by auto
    qed
  qed
qed

lemma cok_csrc: "cok s \<Longrightarrow> csrc s \<le> k \<Longrightarrow> k \<le> bufsz s \<Longrightarrow> cok (s\<lparr>csrc := k\<rparr>)"
  by (simp add: cok_def)

lemma sim_size: "cok s \<Longrightarrow> chunk_st (cdec s) = CHUNKED_IN_CHUNK_SIZE \<Longrightarrow>
    sim CHUNKED_IN_CHUNK_EXT s (in_chunk_size s)"
proof (induction s rule: in_chunk_size.induct)
  case (1 s)
  show ?case
  proof (cases "csrc s = bufsz s")
    case True
    then show ?thesis using "1.prems"
      by (subst in_chunk_size.simps) (simp add: sim_def run_def rest_def)
  next
    case False
    with "1.prems"(1) have l: "csrc s < bufsz s" by (simp add: cok_def)
    let ?c = "cbuf s ! csrc s"
    show ?thesis
    proof (cases "decode_hex ?c \<noteq> -1 \<and> hex_count (cdec s) \<noteq> 16")
      case True
      let ?t = "s\<lparr>csrc := csrc s + 1,
               cdec := (cdec s)\<lparr>bytes_left_in_chunk := bytes_left_in_chunk (cdec s) * 16 + of_int (decode_hex ?c),
                                hex_count := hex_count (cdec s) + 1\<rparr>\<rparr>"
      have eq: "in_chunk_size s = in_chunk_size ?t"
        using l True by (subst in_chunk_size.simps) (simp add: rd_def)
      have "cok ?t" "chunk_st (cdec ?t) = CHUNKED_IN_CHUNK_SIZE"
        using "1.prems" l by (auto simp: cok_def dec_ok_def)
      then have "sim CHUNKED_IN_CHUNK_EXT ?t (in_chunk_size ?t)"
        using "1.IH" [OF False l, of ?c] True by blast
      moreover have "run ?t = run s"
        using True "1.prems" by (subst run_step [OF l]) (simp add: cstep_def run_def outp_def rest_def)
      ultimately show ?thesis unfolding eq by (rule sim_run)
    next
      case False
      then show ?thesis using l "1.prems"
        by (subst in_chunk_size.simps)
          (auto simp: rd_def sim_def run_step cstep_def cok_def dec_ok_def ext_step_def split: if_splits)
    qed
  qed
qed

lemma sim_skip:
  assumes "cok s" "\<And>c. p c \<Longrightarrow> cstep (cdec s) c = CGo (cdec s) []"
    and f: "\<And>s1. cok s1 \<Longrightarrow> cdec s1 = cdec s \<Longrightarrow> csrc s1 < bufsz s1 \<Longrightarrow> \<not> p (cbuf s1 ! csrc s1) \<Longrightarrow> sim q s1 (f s1)"
  shows "sim q s (fall (skip_while p s) f)"
proof -
  have "(skip_while p s = (FExit (-2), s\<lparr>csrc := bufsz s\<rparr>) \<and> run s = CMore (cdec s) (outp s)) \<or>
    (\<exists>k. skip_while p s = (FFall, s\<lparr>csrc := k\<rparr>) \<and> csrc s \<le> k \<and> k < bufsz s \<and> \<not> p (cbuf s ! k) \<and>
       run (s\<lparr>csrc := k\<rparr>) = run s)"
    using assms(1,2) by (rule skip_while_run)
  then show ?thesis
  proof (elim disjE exE conjE)
  assume "skip_while p s = (FExit (-2), s\<lparr>csrc := bufsz s\<rparr>)" "run s = CMore (cdec s) (outp s)"
  then show ?thesis using assms(1) by (simp add: fall_def sim_def cok_def)
next
  fix k
  assume k: "skip_while p s = (FFall, s\<lparr>csrc := k\<rparr>)" "csrc s \<le> k" "k < bufsz s" "\<not> p (cbuf s ! k)"
    "run (s\<lparr>csrc := k\<rparr>) = run s"
  then have "sim q (s\<lparr>csrc := k\<rparr>) (f (s\<lparr>csrc := k\<rparr>))"
    using assms(1) by (intro f) (auto intro: cok_csrc)
  with k(1,5) show ?thesis by (simp add: fall_def sim_run)
  qed
qed

lemma run_set_st [simp]:
  "run (set_st q (s\<lparr>csrc := k\<rparr>)) = crun ((cdec s)\<lparr>chunk_st := q\<rparr>) (outp s) (drop k (cbuf s))"
  by (simp add: run_def)

lemma cok_set_st: "csrc s < bufsz s \<Longrightarrow> cok s \<Longrightarrow> (q = CHUNKED_IN_CHUNK_DATA \<longrightarrow> bytes_left_in_chunk (cdec s) \<noteq> 0) \<Longrightarrow>
   cok (set_st q (s\<lparr>csrc := Suc (csrc s)\<rparr>))"
  by (auto simp: cok_def dec_ok_def)

lemma sim_ext: "cok s \<Longrightarrow> chunk_st (cdec s) = CHUNKED_IN_CHUNK_EXT \<Longrightarrow>
    sim CHUNKED_IN_CHUNK_DATA s (in_chunk_ext s)"
  unfolding in_chunk_ext_def
  by (rule sim_skip)
    (auto simp: cstep_def ext_step_def sim_def run_step cok_set_st cok_csrc Let_def)

lemma sim_crlf: "cok s \<Longrightarrow> chunk_st (cdec s) = CHUNKED_IN_CHUNK_CRLF \<Longrightarrow> sim q s (in_chunk_crlf s)"
  unfolding in_chunk_crlf_def
  by (rule sim_skip) (auto simp: cstep_def sim_def run_step rd_def cok_set_st)

lemma sim_head: "cok s \<Longrightarrow> chunk_st (cdec s) = CHUNKED_IN_TRAILERS_LINE_HEAD \<Longrightarrow>
    sim CHUNKED_IN_TRAILERS_LINE_MIDDLE s (in_trailers_line_head s)"
  unfolding in_trailers_line_head_def
  by (rule sim_skip) (auto simp: cstep_def sim_def run_step rd_def cok_set_st cok_csrc Let_def)

lemma sim_middle: "cok s \<Longrightarrow> chunk_st (cdec s) = CHUNKED_IN_TRAILERS_LINE_MIDDLE \<Longrightarrow>
    sim q s (in_trailers_line_middle s)"
  unfolding in_trailers_line_middle_def
  by (rule sim_skip) (auto simp: cstep_def sim_def run_step cok_set_st)

text \<open>Data is copied in blocks; the automaton copies it byte by byte.\<close>

lemma word_bound: "unat (w :: 64 word) = Suc n \<Longrightarrow> unat (w - 1) = n"
  by (metis diff_Suc_1 nat.distinct(1) unat_minus_one unsigned_0)

lemma crun_data:
  assumes "chunk_st d = CHUNKED_IN_CHUNK_DATA" "n \<le> length r" "n < unat (bytes_left_in_chunk d)"
  shows "crun d out r =
    crun (d\<lparr>bytes_left_in_chunk := bytes_left_in_chunk d - of_nat n\<rparr>) (out @ take n r) (drop n r)"
  using assms
proof (induction n arbitrary: d out r)
  case 0
  then show ?case by simp
next
  case (Suc n)
  let ?d = "d\<lparr>bytes_left_in_chunk := bytes_left_in_chunk d - 1\<rparr>"
  obtain c r' where r: "r = c # r'" using Suc.prems(2) by (cases r) auto
  have n1: "bytes_left_in_chunk d \<noteq> 1" using Suc.prems(3) by auto
  obtain k where k: "unat (bytes_left_in_chunk d) = Suc k" "n < k"
    using Suc.prems(3) by (cases "unat (bytes_left_in_chunk d)") auto
  then have "n < unat (bytes_left_in_chunk ?d)" using word_bound by simp
  then have "crun ?d (out @ [c]) r' =
      crun (?d\<lparr>bytes_left_in_chunk := bytes_left_in_chunk ?d - of_nat n\<rparr>) ((out @ [c]) @ take n r') (drop n r')"
    using Suc.prems r by (intro Suc.IH) auto
  moreover have "cstep d c = CGo ?d [c]" using Suc.prems(1) n1 by (simp add: cstep_def)
  ultimately show ?case by (simp add: r algebra_simps)
qed

lemma crun_data_all:
  assumes "chunk_st d = CHUNKED_IN_CHUNK_DATA" "unat (bytes_left_in_chunk d) = Suc n" "Suc n \<le> length r"
  shows "crun d out r = crun (d\<lparr>bytes_left_in_chunk := 0, chunk_st := CHUNKED_IN_CHUNK_CRLF\<rparr>)
    (out @ take (Suc n) r) (drop (Suc n) r)"
proof -
  let ?d = "d\<lparr>bytes_left_in_chunk := bytes_left_in_chunk d - of_nat n\<rparr>"
  have "bytes_left_in_chunk d = of_nat (Suc n)" unfolding assms(2) [symmetric] by simp
  then have b: "bytes_left_in_chunk d - of_nat n = 1" by simp
  obtain c r' where r: "drop n r = c # r'" using assms(3) by (cases "drop n r") auto
  have "crun d out r = crun ?d (out @ take n r) (drop n r)"
    using assms by (intro crun_data) auto
  also have "\<dots> = crun (?d\<lparr>bytes_left_in_chunk := 0, chunk_st := CHUNKED_IN_CHUNK_CRLF\<rparr>) ((out @ take n r) @ [c]) r'"
    using assms(1) b by (simp add: r cstep_def)
  also have "(out @ take n r) @ [c] = out @ take (Suc n) r"
    using r assms(3) by (metis append.assoc hd_drop_conv_nth Suc_le_lessD list.sel(1) take_Suc_conv_app_nth)
  also have "r' = drop (Suc n) r" using r by (metis drop_Suc list.sel(3) tl_drop)
  finally show ?thesis by simp
qed

lemma take_memmove:
  assumes "d \<le> s" "s + n \<le> length buf"
  shows "take (d + n) (memmove buf d s n) = take d buf @ take n (drop s buf)"
proof (rule nth_equalityI)
  fix i assume "i < length (take (d + n) (memmove buf d s n))"
  then show "take (d + n) (memmove buf d s n) ! i = (take d buf @ take n (drop s buf)) ! i"
    using assms by (cases "i < d") (auto simp: memmove_def nth_append)
qed (use assms in simp)

lemma drop_memmove:
  assumes "d \<le> s" "s + n \<le> length buf"
  shows "drop (s + n) (memmove buf d s n) = drop (s + n) buf"
  by (rule nth_equalityI) (use assms in \<open>auto simp: memmove_def\<close>)

lemma sim_data: 
  assumes "cok s" "chunk_st (cdec s) = CHUNKED_IN_CHUNK_DATA"
  shows "sim CHUNKED_IN_CHUNK_CRLF s (in_chunk_data s)"
proof -
  let ?l = "unat (bytes_left_in_chunk (cdec s))"
  let ?a = "bufsz s - csrc s"
  have b: "cdst s \<le> csrc s" "csrc s \<le> bufsz s" "?l \<noteq> 0"
    using assms by (auto simp: cok_def dec_ok_def unat_eq_zero)
  have mv: "take (cdst s + n) (if cdst s \<noteq> csrc s then memmove (cbuf s) (cdst s) (csrc s) n else cbuf s)
        = outp s @ take n (rest s)"
    "drop (csrc s + n) (if cdst s \<noteq> csrc s then memmove (cbuf s) (cdst s) (csrc s) n else cbuf s)
        = drop n (rest s)" if "csrc s + n \<le> bufsz s" for n
    using b(1) that take_memmove [of "cdst s" "csrc s" n "cbuf s"] drop_memmove [of "cdst s" "csrc s" n "cbuf s"]
    by (cases "cdst s = csrc s"; simp add: outp_def rest_def take_add add.commute [of n])+
  show ?thesis
  proof (cases "?a < ?l")
    case True
    let ?d = "(cdec s)\<lparr>bytes_left_in_chunk := bytes_left_in_chunk (cdec s) - of_nat ?a\<rparr>"
    have "bytes_left_in_chunk (cdec s) \<noteq> of_nat ?a"
    proof
      assume "bytes_left_in_chunk (cdec s) = of_nat ?a"
      then have "?l = take_bit 64 ?a" by (simp add: unsigned_of_nat)
      also have "\<dots> \<le> ?a" by (rule take_bit_nat_less_eq_self)
      finally show False using True by simp
    qed
    then have ok: "dec_ok ?d" using assms by (simp add: dec_ok_def)
    have "run s = crun ?d (outp s @ take ?a (rest s)) (drop ?a (rest s))"
      unfolding run_def using True assms(2) by (intro crun_data) (auto simp: rest_def)
    also have "drop ?a (rest s) = []" by (simp add: rest_def)
    finally have "run s = CMore ?d (outp s @ take ?a (rest s))" by simp
    moreover have "cdst s + ?a \<le> bufsz s" using b by simp
    ultimately show ?thesis using True ok b mv [of ?a]
      by (simp add: in_chunk_data_def Let_def sim_def cok_def outp_def rest_def)
  next
    case False
    let ?d = "(cdec s)\<lparr>bytes_left_in_chunk := 0, chunk_st := CHUNKED_IN_CHUNK_CRLF\<rparr>"
    obtain n where n: "?l = Suc n" using b(3) by (cases ?l) auto
    have le: "?l \<le> length (rest s)" using False by (simp add: rest_def)
    have "run s = crun ?d (outp s @ take ?l (rest s)) (drop ?l (rest s))"
      unfolding run_def n using assms(2) n le by (intro crun_data_all) auto
    moreover have "csrc s + ?l \<le> bufsz s" using False b by simp
    ultimately show ?thesis using False b mv [of ?l]
      by (simp add: in_chunk_data_def Let_def sim_def cok_def dec_ok_def run_def outp_def rest_def add.commute)
  qed
qed

lemma sim_switch: "cok s \<Longrightarrow> sim q s (chunk_switch s)"
  unfolding chunk_switch_def
  by (cases "chunk_st (cdec s)")
    (auto intro!: sim_fall sim_size sim_ext sim_data sim_crlf sim_head sim_middle)

lemma chunk_loop_run:
  "cok s \<Longrightarrow> \<exists>ret s'. chunk_loop s = chunk_exit ret s' \<and> cok s' \<and> bufsz s' = bufsz s \<and>
     (case run s of
        CMore d out \<Rightarrow> ret = -2 \<and> cdec s' = d \<and> outp s' = out \<and> rest s' = []
      | CDone out r \<Rightarrow> ret = int (length r) \<and> outp s' = out \<and> rest s' = r
      | CFail out \<Rightarrow> ret = -1 \<and> outp s' = out)"
proof (induction s rule: chunk_loop.induct)
  case (1 s)
  obtain f s' where f: "chunk_switch s = (f, s')" by (cases "chunk_switch s")
  have sim: "sim q s (f, s')" for q using sim_switch [OF "1.prems"] f by metis
  have nf: "f \<noteq> FFall"
    using sim [of CHUNKED_IN_CHUNK_SIZE] sim [of CHUNKED_IN_CHUNK_EXT] by (auto simp: sim_def)
  have ok: "cok s'" using sim by (simp add: sim_def)
  have len: "bufsz s' = bufsz s" using forward_switch [of s] f by (simp add: forward_def)
  show ?case
  proof (cases f)
    case (FExit e)
    then have "chunk_loop s = chunk_exit e s'" using f by (subst chunk_loop.simps) simp
    with sim FExit ok len show ?thesis by (intro exI [of _ e] exI [of _ s']) (auto simp: sim_def)
  next
    case FComplete
    let ?e = "int (bufsz s') - int (csrc s')"
    have "chunk_loop s = chunk_exit ?e s'" using f FComplete by (subst chunk_loop.simps) simp
    moreover have "?e = int (length (rest s'))" using ok by (simp add: rest_def cok_def of_nat_diff)
    ultimately show ?thesis
      using sim FComplete ok len by (intro exI [of _ ?e] exI [of _ s']) (auto simp: sim_def)
  next
    case FBreak
    then have "chunk_loop s = chunk_loop s'" using f by (subst chunk_loop.simps) simp
    moreover have "run s' = run s" using sim FBreak by (simp add: sim_def)
    ultimately show ?thesis using "1.IH" [OF f [symmetric] FBreak ok] len by auto
  next
    case FOob
    with sim show ?thesis by (simp add: sim_def)
  qed (use nf in simp)
qed

lemma phr_decode_chunked_run:
  assumes "dec_ok d"
  shows "\<exists>ret d' b n. phr_decode_chunked d buf = Ok (ret, d', b, n) \<and> length b = length buf \<and> n \<le> length buf \<and>
     dec_ok d' \<and>
     (case crun d [] buf of
        CMore e out \<Rightarrow> ret = -2 \<and> d' = e \<and> take n b = out
      | CDone out r \<Rightarrow> ret = int (length r) \<and> take n b = out \<and> take (length r) (drop n b) = r
      | CFail out \<Rightarrow> ret = -1 \<and> take n b = out)"
proof -
  let ?s = "\<lparr>cdec = d, cbuf = buf, cdst = 0, csrc = 0\<rparr>"
  have "cok ?s" using assms by (simp add: cok_def)
  moreover have "run ?s = crun d [] buf" by (simp add: run_def outp_def rest_def)
  ultimately obtain ret s' where r: "chunk_loop ?s = chunk_exit ret s'" "cok s'" "bufsz s' = length buf"
    "case crun d [] buf of
        CMore d out \<Rightarrow> ret = -2 \<and> cdec s' = d \<and> outp s' = out \<and> rest s' = []
      | CDone out r \<Rightarrow> ret = int (length r) \<and> outp s' = out \<and> rest s' = r
      | CFail out \<Rightarrow> ret = -1 \<and> outp s' = out"
    using chunk_loop_run [of ?s] by auto
  let ?n = "bufsz s' - csrc s'"
  let ?b = "if cdst s' \<noteq> csrc s' then memmove (cbuf s') (cdst s') (csrc s') ?n else cbuf s'"
  have b: "cdst s' \<le> csrc s'" "csrc s' \<le> bufsz s'" "dec_ok (cdec s')" using r(2) by (auto simp: cok_def)
  then have all: "take (cdst s' + ?n) ?b = outp s' @ rest s'"
    using take_memmove [of "cdst s'" "csrc s'" ?n "cbuf s'"]
    by (cases "cdst s' = csrc s'") (simp_all add: outp_def rest_def)
  have lo: "length (outp s') = cdst s'" using b by (simp add: outp_def)
  have out: "take (cdst s') ?b = outp s'"
  proof -
    have "take (cdst s') ?b = take (cdst s') (take (cdst s' + ?n) ?b)" by (simp add: min_def)
    also have "\<dots> = outp s'" unfolding all using lo by simp
    finally show ?thesis .
  qed
  have rest: "take (length (rest s')) (drop (cdst s') ?b) = rest s'"
  proof -
    have "take ?n (drop (cdst s') ?b) = drop (cdst s') (take (cdst s' + ?n) ?b)"
      by (simp add: drop_take)
    also have "\<dots> = rest s'" unfolding all using lo by simp
    finally show ?thesis by (simp add: rest_def)
  qed
  have "phr_decode_chunked d buf = Ok (ret, cdec s', ?b, cdst s')"
    using r(1) by (simp add: phr_decode_chunked_def chunk_exit_def)
  with r(3,4) b out rest show ?thesis
    by (intro exI [of _ ret] exI [of _ "cdec s'"] exI [of _ ?b] exI [of _ "cdst s'"])
      (auto split: cres.splits)
qed

section \<open>Splitting the input, and encoding\<close>

lemma crun_append: "crun d out (a @ b) =
   (case crun d out a of CMore d' out' \<Rightarrow> crun d' out' b | CDone out' r \<Rightarrow> CDone out' (r @ b) | CFail out' \<Rightarrow> CFail out')"
proof (induction a arbitrary: d out)
  case (Cons c a)
  then show ?case by (auto split: cact.splits)
qed simp

lemma crun_out: "crun d (o1 @ o2) r =
   (case crun d o2 r of CMore d' o' \<Rightarrow> CMore d' (o1 @ o') | CDone o' q \<Rightarrow> CDone (o1 @ o') q | CFail o' \<Rightarrow> CFail (o1 @ o'))"
proof (induction r arbitrary: d o2)
  case (Cons c r)
  then show ?case by (auto split: cact.splits)
qed simp

lemma crun_out_Nil: "crun d out r =
   (case crun d [] r of CMore d' o' \<Rightarrow> CMore d' (out @ o') | CDone o' q \<Rightarrow> CDone (out @ o') q | CFail o' \<Rightarrow> CFail (out @ o'))"
  using crun_out [of d out "[]" r] by simp

text \<open>The number a string of hexadecimal digits denotes, and one step of its evaluation.\<close>

fun hex_val :: "nat \<Rightarrow> string \<Rightarrow> nat option" where
  "hex_val n [] = Some n"
| "hex_val n (c # r) = (if decode_hex c = -1 then None else hex_val (n * 16 + nat (decode_hex c)) r)"

lemma decode_hex_range: "decode_hex c = -1 \<or> (0 \<le> decode_hex c \<and> decode_hex c < 16)"
  by (auto simp: decode_hex_def)

lemma hex_val_bound: "hex_val n s = Some v \<Longrightarrow> v < (n + 1) * 16 ^ length s"
proof (induction s arbitrary: n)
  case (Cons c s)
  then have h: "decode_hex c \<noteq> -1" and v: "hex_val (n * 16 + nat (decode_hex c)) s = Some v"
    by (auto split: if_splits)
  have "v < (n * 16 + nat (decode_hex c) + 1) * 16 ^ length s" by (rule Cons.IH [OF v])
  also have "\<dots> \<le> ((n + 1) * 16) * 16 ^ length s"
    using h decode_hex_range [of c] by (intro mult_right_mono) auto
  finally show ?case by (simp add: algebra_simps)
qed simp

lemma unat64: "n < 2 ^ 64 \<Longrightarrow> unat (of_nat n :: 64 word) = n"
  by (simp add: unsigned_of_nat take_bit_nat_eq_self)

text \<open>A chunk size line: up to 16 hexadecimal digits are the number they denote.\<close>

lemma crun_hex:
  assumes "hex_val (unat (bytes_left_in_chunk d)) s = Some v" "chunk_st d = CHUNKED_IN_CHUNK_SIZE"
    "hex_count d + length s \<le> 16" "unat (bytes_left_in_chunk d) < 16 ^ hex_count d"
  shows "crun d out (s @ r) =
    crun (d\<lparr>bytes_left_in_chunk := of_nat v, hex_count := hex_count d + length s\<rparr>) out r"
  using assms
proof (induction s arbitrary: d)
  case Nil
  then show ?case by auto
next
  case (Cons c s)
  let ?n = "unat (bytes_left_in_chunk d)"
  let ?d = "d\<lparr>bytes_left_in_chunk := bytes_left_in_chunk d * 16 + of_int (decode_hex c), hex_count := hex_count d + 1\<rparr>"
  have h: "decode_hex c \<noteq> -1" using Cons.prems by (auto split: if_splits)
  then have dh: "0 \<le> decode_hex c" "decode_hex c < 16" using decode_hex_range [of c] by auto
  have b: "?n * 16 + nat (decode_hex c) < 16 ^ (hex_count d + 1)"
  proof -
    have "?n * 16 + nat (decode_hex c) < (?n + 1) * 16" using dh by auto
    also have "\<dots> \<le> 16 ^ hex_count d * 16" using Cons.prems(4) by (intro mult_right_mono) auto
    finally show ?thesis by simp
  qed
  also have "(16::nat) ^ (hex_count d + 1) \<le> 16 ^ 16" using Cons.prems(3) by (intro power_increasing) auto
  finally have b64: "?n * 16 + nat (decode_hex c) < 2 ^ 64" by simp
  have "bytes_left_in_chunk ?d = of_nat (?n * 16 + nat (decode_hex c))"
    using dh by (simp add: of_nat_nat)
  then have u: "unat (bytes_left_in_chunk ?d) = ?n * 16 + nat (decode_hex c)"
    using unat64 [OF b64] by (simp only:)
  have step: "cstep d c = CGo ?d []"
    using h Cons.prems by (simp add: cstep_def)
  have "crun ?d out (s @ r) = crun (?d\<lparr>bytes_left_in_chunk := of_nat v, hex_count := hex_count ?d + length s\<rparr>) out r"
    using Cons.prems h u b by (intro Cons.IH) (auto split: if_splits)
  then show ?case using step by simp
qed

text \<open>
  \<open>chunked x p\<close>: the bytes \<open>p\<close> encode the data \<open>x\<close>. A chunk is a size of 1 to 16 digits, an
  extension, LF, the data, any number of CR and LF; the last chunk has size 0.
\<close>

definition size_digits :: "string \<Rightarrow> nat \<Rightarrow> bool" where
  "size_digits hex n \<longleftrightarrow> hex_val 0 hex = Some n \<and> hex \<noteq> [] \<and> length hex \<le> 16"

definition chunk_ext :: "string \<Rightarrow> bool" where
  "chunk_ext ext \<longleftrightarrow> LF \<notin> set ext \<and> (ext \<noteq> [] \<longrightarrow> decode_hex (hd ext) = -1)"

inductive chunked :: "string \<Rightarrow> string \<Rightarrow> bool" where
  last_chunk: "size_digits hex 0 \<Longrightarrow> chunk_ext ext \<Longrightarrow> chunked [] (hex @ ext @ [LF])"
| data_chunk: "size_digits hex (length x) \<Longrightarrow> x \<noteq> [] \<Longrightarrow> chunk_ext ext \<Longrightarrow> \<forall>c\<in>set crs. c = CR \<Longrightarrow> chunked y p
    \<Longrightarrow> chunked (x @ y) (hex @ ext @ [LF] @ x @ crs @ [LF] @ p)"

definition fresh :: "phr_chunked_decoder \<Rightarrow> bool" where
  "fresh d \<longleftrightarrow> bytes_left_in_chunk d = 0 \<and> hex_count d = 0 \<and> chunk_st d = CHUNKED_IN_CHUNK_SIZE"

lemma crun_skip: "\<forall>c\<in>set s. cstep d c = CGo d [] \<Longrightarrow> crun d out (s @ r) = crun d out r"
  by (induction s) auto

lemma decode_hex_LF: "decode_hex LF = -1" by (simp add: decode_hex_def)

lemma crun_size_line:
  assumes "size_digits hex n" "chunk_ext ext" "fresh d"
  shows "crun d out (hex @ ext @ LF # r) =
    (case ext_step (d\<lparr>bytes_left_in_chunk := of_nat n, chunk_st := CHUNKED_IN_CHUNK_EXT\<rparr>) LF of
       CGo d' e \<Rightarrow> crun d' (out @ e) r | CStop \<Rightarrow> CDone out r | CBad \<Rightarrow> CFail out)"
proof -
  let ?d = "d\<lparr>bytes_left_in_chunk := of_nat n, hex_count := length hex\<rparr>"
  let ?e = "d\<lparr>bytes_left_in_chunk := of_nat n, hex_count := 0, chunk_st := CHUNKED_IN_CHUNK_EXT\<rparr>"
  have hc: "?e = d\<lparr>bytes_left_in_chunk := of_nat n, chunk_st := CHUNKED_IN_CHUNK_EXT\<rparr>"
    using assms(3) by (cases d) (simp add: fresh_def)
  have "crun d out (hex @ ext @ LF # r) = crun ?d out (ext @ LF # r)"
    using assms by (subst crun_hex [where v = n]) (auto simp: size_digits_def fresh_def)
  also have "\<dots> = crun ?e out (ext @ LF # r)"
  proof -
    obtain c q where c: "ext @ LF # r = c # q" "decode_hex c = -1"
      using assms(2) decode_hex_LF by (cases ext) (auto simp: chunk_ext_def)
    have "cstep ?d c = cstep ?e c"
      using c(2) assms(1,3) by (auto simp: cstep_def size_digits_def fresh_def)
    then show ?thesis by (simp add: c(1))
  qed
  also have "\<dots> = crun ?e out (LF # r)"
    using assms(2) by (intro crun_skip) (auto simp: cstep_def ext_step_def chunk_ext_def)
  finally show ?thesis unfolding hc by (simp add: cstep_def)
qed

lemma size_digits_bound: "size_digits hex n \<Longrightarrow> n < 2 ^ 64"
proof -
  assume s: "size_digits hex n"
  then have "n < (0 + 1) * 16 ^ length hex" by (intro hex_val_bound) (simp add: size_digits_def)
  also have "\<dots> = 16 ^ length hex" by simp
  also have "\<dots> \<le> 16 ^ 16" using s by (intro power_increasing) (auto simp: size_digits_def)
  finally show ?thesis by simp
qed

lemma crun_chunked:
  "chunked x p \<Longrightarrow> fresh d \<Longrightarrow> \<not> consume_trailer d \<Longrightarrow> crun d out (p @ r) = CDone (out @ x) r"
proof (induction arbitrary: d out rule: chunked.induct)
  case (last_chunk hex ext)
  then show ?case
    using crun_size_line [OF last_chunk(1,2), of d out r] by (simp add: ext_step_def)
next
  case (data_chunk hex x ext crs y p)
  let ?d = "d\<lparr>bytes_left_in_chunk := of_nat (length x), chunk_st := CHUNKED_IN_CHUNK_DATA\<rparr>"
  let ?c = "d\<lparr>bytes_left_in_chunk := 0, chunk_st := CHUNKED_IN_CHUNK_CRLF\<rparr>"
  have l: "length x < 2 ^ 64" using data_chunk(1) by (rule size_digits_bound)
  then have u: "unat (of_nat (length x) :: 64 word) = length x" by (rule unat64)
  then have nz: "(of_nat (length x) :: 64 word) \<noteq> 0" using data_chunk(2) by (metis length_0_conv unsigned_0)
  have "crun d out ((hex @ ext @ [LF] @ x @ crs @ [LF] @ p) @ r) = crun ?d out (x @ crs @ LF # p @ r)"
    using crun_size_line [OF data_chunk(1,3) data_chunk.prems(1), of out] nz by (simp add: ext_step_def)
  also have "\<dots> = crun ?c (out @ x) (crs @ LF # p @ r)"
  proof -
    obtain n where n: "length x = Suc n" using data_chunk(2) by (cases x) auto
    show ?thesis using u n by (subst crun_data_all [where n = n]) auto
  qed
  also have "\<dots> = crun ?c (out @ x) (LF # p @ r)"
    using data_chunk(4) by (intro crun_skip) (auto simp: cstep_def)
  also have "\<dots> = crun (d\<lparr>bytes_left_in_chunk := 0, chunk_st := CHUNKED_IN_CHUNK_SIZE\<rparr>) (out @ x) (p @ r)"
    by (simp add: cstep_def CR_def LF_def)
  also have "\<dots> = CDone ((out @ x) @ y) r"
    using data_chunk.prems by (intro data_chunk.IH) (auto simp: fresh_def)
  finally show ?case by simp
qed

section \<open>Properties of the decoder\<close>

text \<open>C5: the in-place decoder implements the byte automaton. From every decoder state with an unfinished
  data chunk it terminates without a read out of bounds, and its result is that of the automaton: -2 and the
  automaton's state with the decoded bytes in front, the number of undecoded bytes (which follow
  the decoded ones) when the last chunk was read, -1 when the automaton refuses a byte.\<close>

theorem phr_decode_chunked_refines:
  assumes "dec_ok d"
  shows "\<exists>ret d' b n. phr_decode_chunked d buf = Ok (ret, d', b, n) \<and> length b = length buf \<and> n \<le> length buf \<and>
     dec_ok d' \<and>
     (case crun d [] buf of
        CMore e out \<Rightarrow> ret = -2 \<and> d' = e \<and> take n b = out
      | CDone out r \<Rightarrow> ret = int (length r) \<and> take n b = out \<and> take (length r) (drop n b) = r
      | CFail out \<Rightarrow> ret = -1 \<and> take n b = out)"
  using assms by (rule phr_decode_chunked_run)

definition zero_dec :: phr_chunked_decoder where
  "zero_dec = \<lparr>bytes_left_in_chunk = 0, consume_trailer = False, hex_count = 0, chunk_st = CHUNKED_IN_CHUNK_SIZE\<rparr>"

lemma zero_dec_ok [simp]: "dec_ok zero_dec" "fresh zero_dec" "\<not> consume_trailer zero_dec"
  by (simp_all add: dec_ok_def fresh_def zero_dec_def)

lemma phr_decode_chunked_refines_witness:
  "\<exists>d' b. phr_decode_chunked zero_dec ''g'' = Ok (-1, d', b, 0)"
  using phr_decode_chunked_refines [of zero_dec "''g''"]
  by (auto simp: zero_dec_def dec_ok_def cstep_def decode_hex_def ext_step_def)

text \<open>C6: chunk boundaries in the transport do not matter. If a call on \<open>a\<close> returns -2, then one call on
  \<open>a @ b\<close> and a second call on \<open>b\<close> with the saved decoder return the same value, leave the same decoder
  when more input is needed, and decode the same bytes.\<close>

theorem phr_decode_chunked_split:
  assumes "dec_ok d" "phr_decode_chunked d a = Ok (-2, d1, b1, n1)"
  shows "\<exists>ret d2 b2 n2 d3 b3 n3.
     phr_decode_chunked d (a @ b) = Ok (ret, d2, b2, n2) \<and> phr_decode_chunked d1 b = Ok (ret, d3, b3, n3) \<and>
     take n2 b2 = take n1 b1 @ take n3 b3 \<and> (ret = -2 \<longrightarrow> d2 = d3)"
proof -
  from phr_decode_chunked_run [OF assms(1), of a] assms(2) have
    1: "crun d [] a = CMore d1 (take n1 b1)" "dec_ok d1"
    by (auto split: cres.splits)
  from phr_decode_chunked_run [OF assms(1), of "a @ b"] obtain ret2 d2 b2 n2 where
    2: "phr_decode_chunked d (a @ b) = Ok (ret2, d2, b2, n2)"
      "case crun d [] (a @ b) of
        CMore e out \<Rightarrow> ret2 = -2 \<and> d2 = e \<and> take n2 b2 = out
      | CDone out r \<Rightarrow> ret2 = int (length r) \<and> take n2 b2 = out \<and> take (length r) (drop n2 b2) = r
      | CFail out \<Rightarrow> ret2 = -1 \<and> take n2 b2 = out" by blast
  from phr_decode_chunked_run [OF 1(2), of b] obtain ret3 d3 b3 n3 where
    3: "phr_decode_chunked d1 b = Ok (ret3, d3, b3, n3)"
      "case crun d1 [] b of
        CMore e out \<Rightarrow> ret3 = -2 \<and> d3 = e \<and> take n3 b3 = out
      | CDone out r \<Rightarrow> ret3 = int (length r) \<and> take n3 b3 = out \<and> take (length r) (drop n3 b3) = r
      | CFail out \<Rightarrow> ret3 = -1 \<and> take n3 b3 = out" by blast
  have "crun d [] (a @ b) = crun d1 (take n1 b1) b" by (simp add: crun_append 1(1))
  with 2(2) 3(2) have "ret3 = ret2 \<and> take n2 b2 = take n1 b1 @ take n3 b3 \<and> (ret2 = -2 \<longrightarrow> d2 = d3)"
    by (auto simp: crun_out_Nil [of d1 "take n1 b1"] split: cres.splits)
  with 2(1) 3(1) show ?thesis by blast
qed

lemma decode_3_example: "phr_decode_chunked zero_dec ''3''
   = Ok (-2, zero_dec\<lparr>bytes_left_in_chunk := 3, hex_count := 1\<rparr>, ''3'', 0)"
  by (simp add: phr_decode_chunked_def chunk_loop.simps chunk_switch_def in_chunk_size.simps rd_def fall_def
      zero_dec_def decode_hex_def chunk_exit_def memmove_def numeral_2_eq_2)

lemma phr_decode_chunked_split_witness:
  "\<exists>ret d2 b2 n2 d3 b3 n3.
     phr_decode_chunked zero_dec (''3'' @ ''0'') = Ok (ret, d2, b2, n2) \<and>
     phr_decode_chunked (zero_dec\<lparr>bytes_left_in_chunk := 3, hex_count := 1\<rparr>) ''0'' = Ok (ret, d3, b3, n3) \<and>
     take n2 b2 = take 0 ''3'' @ take n3 b3 \<and> (ret = -2 \<longrightarrow> d2 = d3)"
  by (rule phr_decode_chunked_split [OF zero_dec_ok(1) decode_3_example])

text \<open>C7: round trip. Every chunked encoding of \<open>x\<close>, followed by any bytes \<open>r\<close>, is decoded by a zero-filled
  decoder to \<open>x\<close>, returning the length of \<open>r\<close>, with \<open>r\<close> placed right after the data.\<close>

theorem phr_decode_chunked_roundtrip:
  assumes "chunked x p"
  shows "\<exists>d' b. phr_decode_chunked zero_dec (p @ r) = Ok (int (length r), d', b, length x) \<and>
     take (length x) b = x \<and> take (length r) (drop (length x) b) = r"
proof -
  have c: "crun zero_dec [] (p @ r) = CDone x r"
    using crun_chunked [OF assms, of zero_dec "[]" r] by simp
  from phr_decode_chunked_run [OF zero_dec_ok(1), of "p @ r"] obtain ret d' b n where
    1: "phr_decode_chunked zero_dec (p @ r) = Ok (ret, d', b, n)" "length b = length (p @ r)" "n \<le> length (p @ r)"
      "ret = int (length r)" "take n b = x" "take (length r) (drop n b) = r"
    unfolding c by auto
  then have "n = length x" by auto
  with 1 show ?thesis by auto
qed

lemma phr_decode_chunked_roundtrip_witness:
  "\<exists>d' b. phr_decode_chunked zero_dec ((''1'' @ [] @ [LF] @ ''a'' @ [CR] @ [LF] @ ''0'' @ [] @ [LF]) @ ''xy'')
     = Ok (2, d', b, 1) \<and> take 1 b = ''a'' \<and> take 2 (drop 1 b) = ''xy''"
proof -
  have l: "chunked [] (''0'' @ [] @ [LF])"
    by (rule last_chunk) (simp_all add: size_digits_def decode_hex_def chunk_ext_def)
  have "chunked (''a'' @ []) (''1'' @ [] @ [LF] @ ''a'' @ [CR] @ [LF] @ ''0'' @ [] @ [LF])"
    by (rule data_chunk [OF _ _ _ _ l]) (simp_all add: size_digits_def decode_hex_def chunk_ext_def)
  from phr_decode_chunked_roundtrip [OF this, of "''xy''"] show ?thesis
    by (simp add: numeral_2_eq_2)
qed

text \<open>No wrap-around of the chunk size. A line of hexadecimal digits is read as the number it denotes
  while it has at most 16 digits, which a 64-bit \<open>size_t\<close> holds; one more digit is an error.\<close>

theorem phr_decode_chunked_size:
  assumes "hex_val 0 s = Some v"
  shows "\<exists>ret d' b n. phr_decode_chunked zero_dec s = Ok (ret, d', b, n) \<and>
     (length s \<le> 16 \<longrightarrow> ret = -2 \<and> unat (bytes_left_in_chunk d') = v) \<and> (16 < length s \<longrightarrow> ret = -1)"
proof (cases "length s \<le> 16")
  case True
  have "v < (0 + 1) * 16 ^ length s" using assms by (rule hex_val_bound)
  also have "\<dots> = 16 ^ length s" by simp
  also have "\<dots> \<le> 16 ^ 16" using True by (intro power_increasing) auto
  finally have v: "v < 2 ^ 64" by simp
  let ?d = "zero_dec\<lparr>bytes_left_in_chunk := of_nat v, hex_count := length s\<rparr>"
  have "crun zero_dec [] (s @ []) = CMore ?d []"
    using assms True by (subst crun_hex [where v = v]) (auto simp: zero_dec_def)
  then have c: "crun zero_dec [] s = CMore ?d []" by simp
  have "unat (bytes_left_in_chunk ?d) = v" using unat64 [OF v] by simp
  with phr_decode_chunked_run [OF zero_dec_ok(1), of s, unfolded c cres.case] True show ?thesis
    by (metis not_le)
next
  case False
  let ?p = "take 16 s"
  have hv: "hex_val n t = Some u \<Longrightarrow> \<exists>w. hex_val n (take k t) = Some w" for n t u k
    by (induction t arbitrary: n k) (auto simp: take_Cons' split: if_splits)
  have hd: "hex_val n t = Some u \<Longrightarrow> k < length t \<Longrightarrow> decode_hex (t ! k) \<noteq> -1" for n t u k
    by (induction t arbitrary: n k) (auto simp: nth_Cons' split: if_splits)
  from hv [OF assms, of 16] obtain w where w: "hex_val 0 ?p = Some w" by blast
  have s: "s = ?p @ s ! 16 # drop 17 s"
    using False id_take_nth_drop [of 16 s] by simp
  have "crun zero_dec [] (?p @ s ! 16 # drop 17 s) =
      crun (zero_dec\<lparr>bytes_left_in_chunk := of_nat w, hex_count := 16\<rparr>) [] (s ! 16 # drop 17 s)"
    using w False by (subst crun_hex [where v = w]) (auto simp: zero_dec_def)
  also have "\<dots> = CFail []"
    using hd [OF assms, of 16] False by (simp add: cstep_def zero_dec_def)
  finally have "crun zero_dec [] s = CFail []" using s by simp
  with phr_decode_chunked_run [OF zero_dec_ok(1), of s] False show ?thesis by auto
qed

lemma phr_decode_chunked_size_witness:
  "\<exists>ret d' b n. phr_decode_chunked zero_dec ''1F'' = Ok (ret, d', b, n) \<and>
     (length ''1F'' \<le> 16 \<longrightarrow> ret = -2 \<and> unat (bytes_left_in_chunk d') = 31) \<and> (16 < length ''1F'' \<longrightarrow> ret = -1)"
  by (rule phr_decode_chunked_size) (simp add: decode_hex_def)

end
