(* ===== verification/TaQueue.thy ===== *)
theory TaQueue
  imports Prelude
begin

text \<open>
  The intrusive lists of \<open>libs/tinyasync/include/tinyasync/basics.h\<close>: \<open>ListNode\<close>, \<open>Stack\<close>, \<open>Queue\<close>. A node
  is an address; the heap maps it to its \<open>m_next\<close>, with \<open>None\<close> for \<open>nullptr\<close>. The queues of the
  coroutine mutex, the events, the acceptor and the task queue of the event loop are all instances
  of \<open>Queue\<close>; what they rely on is the locale \<open>fifo\<close>.
\<close>

section \<open>Nodes\<close>

type_synonym node = nat
type_synonym next_heap = "node \<Rightarrow> node option"

text \<open>\<open>lseg h p xs\<close>: from \<open>p\<close>, following \<open>m_next\<close> to \<open>nullptr\<close>, one meets the nodes \<open>xs\<close>.\<close>

fun lseg :: "next_heap \<Rightarrow> node option \<Rightarrow> node list \<Rightarrow> bool" where
  "lseg h p [] = (p = None)"
| "lseg h p (x # xs) = (p = Some x \<and> lseg h (h x) xs)"

lemma lseg_None [simp]: "lseg h None xs \<longleftrightarrow> xs = []"
  by (cases xs) auto

lemma lseg_upd_other [simp]: "n \<notin> set xs \<Longrightarrow> lseg (h(n := q)) p xs = lseg h p xs"
  by (induction xs arbitrary: p) auto

lemma lseg_unique: "lseg h p xs \<Longrightarrow> lseg h p ys \<Longrightarrow> xs = ys"
proof (induction xs arbitrary: p ys)
  case (Cons x xs)
  then show ?case by (cases ys) auto
qed simp

lemma lseg_snoc:
  "lseg h p (xs @ [t]) \<Longrightarrow> distinct (xs @ [t]) \<Longrightarrow> n \<notin> set (xs @ [t]) \<Longrightarrow> lseg (h(n := None, t := Some n)) p (xs @ [t, n])"
proof (induction xs arbitrary: p)
  case (Cons x xs)
  then show ?case by (cases xs) auto
qed auto

section \<open>Stack\<close>

text \<open>The state is the heap and \<open>m_before_head.m_next\<close>.\<close>

type_synonym stack = "next_heap \<times> node option"

definition Stack_push :: "node \<Rightarrow> stack \<Rightarrow> stack" where
  "Stack_push n s = (case s of (h, hd0) \<Rightarrow> (h(n := hd0), Some n))"

definition Stack_empty :: "stack \<Rightarrow> bool" where
  "Stack_empty s \<longleftrightarrow> snd s = None"

definition Stack_pop :: "stack \<Rightarrow> node option \<times> stack" where
  "Stack_pop s = (case s of (h, hd0) \<Rightarrow>
     (case hd0 of Some n \<Rightarrow> (Some n, (h, h n)) | None \<Rightarrow> (None, s)))"

definition stack_rep :: "stack \<Rightarrow> node list \<Rightarrow> bool" where
  "stack_rep s xs \<longleftrightarrow> lseg (fst s) (snd s) xs \<and> distinct xs"

lemma Stack_push_rep: "stack_rep s xs \<Longrightarrow> n \<notin> set xs \<Longrightarrow> stack_rep (Stack_push n s) (n # xs)"
  by (auto simp: stack_rep_def Stack_push_def split: prod.splits)

lemma Stack_pop_rep:
  "stack_rep s xs \<Longrightarrow> fst (Stack_pop s) = (case xs of [] \<Rightarrow> None | x # _ \<Rightarrow> Some x) \<and> stack_rep (snd (Stack_pop s)) (tl xs)"
  by (cases xs) (auto simp: stack_rep_def Stack_pop_def split: prod.splits)

lemma Stack_empty_rep: "stack_rep s xs \<Longrightarrow> Stack_empty s \<longleftrightarrow> xs = []"
  by (cases xs) (auto simp: stack_rep_def Stack_empty_def)

section \<open>Queue\<close>

text \<open>
  \<open>bh_next\<close> is \<open>m_before_head.m_next\<close>; \<open>queue_size\<close> is the counter of the debug build, and a failed
  \<open>TINYASYNC_ASSERT\<close> is the result \<open>None\<close>.
\<close>

record queue =
  bh_next :: "node option"
  m_tail :: "node option"
  queue_size :: int

type_synonym qstate = "next_heap \<times> queue"

definition Queue_init :: queue where
  "Queue_init = \<lparr>bh_next = None, m_tail = None, queue_size = 0\<rparr>"

text \<open>The copy constructor and \<open>operator=\<close>: member by member, the nodes are shared.\<close>

definition Queue_copy :: "queue \<Rightarrow> queue" where
  "Queue_copy r = \<lparr>bh_next = bh_next r, m_tail = m_tail r, queue_size = queue_size r\<rparr>"

partial_function (option) count_from :: "next_heap \<Rightarrow> node option \<Rightarrow> nat \<Rightarrow> nat option" where
  "count_from h p n = (case p of None \<Rightarrow> Some n | Some x \<Rightarrow> count_from h (h x) (n + 1))"

definition Queue_count :: "qstate \<Rightarrow> nat option" where
  "Queue_count s = count_from (fst s) (bh_next (snd s)) 0"

text \<open>\<open>clear\<close> does not reset the debug counter.\<close>

definition Queue_clear :: "qstate \<Rightarrow> qstate" where
  "Queue_clear s = (fst s, (snd s)\<lparr>bh_next := None, m_tail := None\<rparr>)"

definition Queue_push :: "node \<Rightarrow> qstate \<Rightarrow> qstate" where
  "Queue_push n s =
     (case s of (h, q) \<Rightarrow>
        let h1 = h(n := None);
            (h2, q2) = (case m_tail q of
                          None \<Rightarrow> (h1, q\<lparr>bh_next := Some n\<rparr>)
                        | Some t \<Rightarrow> (h1(t := Some n), q))
        in (h2, q2\<lparr>m_tail := Some n, queue_size := queue_size q2 + 1\<rparr>))"

text \<open>
  \<open>pop(bool &is_empty)\<close>: the value of the reference argument is an input and an output. The code
  computes a local \<open>is_empty_\<close> and never stores it into the argument.
\<close>

definition Queue_pop_flag :: "bool \<Rightarrow> qstate \<Rightarrow> ((node option \<times> bool) \<times> qstate) option" where
  "Queue_pop_flag is_empty s =
     (case s of (h, q) \<Rightarrow>
        (case bh_next q of
           None \<Rightarrow> Some ((None, is_empty), (h, q))
         | Some n \<Rightarrow>
             let new_head = h n; q1 = q\<lparr>bh_next := new_head\<rparr>; emptied = (new_head = None) in
             if emptied then
               (if queue_size q \<noteq> 1 then None
                else Some ((Some n, is_empty), (h, q1\<lparr>m_tail := None, queue_size := queue_size q - 1\<rparr>)))
             else Some ((Some n, is_empty), (h, q1\<lparr>queue_size := queue_size q - 1\<rparr>))))"

definition Queue_pop :: "qstate \<Rightarrow> (node option \<times> qstate) option" where
  "Queue_pop s = map_option (\<lambda>((n, _), s'). (n, s')) (Queue_pop_flag False s)"

definition Queue_pop_nocheck :: "qstate \<Rightarrow> ((node \<times> bool) \<times> qstate) option" where
  "Queue_pop_nocheck s =
     (case s of (h, q) \<Rightarrow>
        (case bh_next q of
           None \<Rightarrow> None
         | Some n \<Rightarrow>
             let new_head = h n; q1 = q\<lparr>bh_next := new_head\<rparr>; emptied = (new_head = None) in
             if emptied then
               (if queue_size q \<noteq> 1 then None
                else Some ((n, emptied), (h, q1\<lparr>m_tail := None, queue_size := queue_size q - 1\<rparr>)))
             else Some ((n, emptied), (h, q1\<lparr>queue_size := queue_size q - 1\<rparr>))))"

text \<open>The representation invariant.\<close>

definition queue_rep :: "qstate \<Rightarrow> node list \<Rightarrow> bool" where
  "queue_rep s xs \<longleftrightarrow> lseg (fst s) (bh_next (snd s)) xs \<and> distinct xs \<and>
     m_tail (snd s) = (if xs = [] then None else Some (last xs)) \<and> queue_size (snd s) = int (length xs)"

lemma queue_rep_unique: "queue_rep q xs \<Longrightarrow> queue_rep q ys \<Longrightarrow> xs = ys"
  using lseg_unique by (auto simp: queue_rep_def)

lemma Queue_init_rep: "queue_rep (h, Queue_init) []"
  by (simp add: queue_rep_def Queue_init_def)

lemma Queue_copy_rep: "queue_rep (h, q) xs \<Longrightarrow> queue_rep (h, Queue_copy q) xs"
  by (simp add: queue_rep_def Queue_copy_def)

lemma Queue_push_rep:
  assumes "queue_rep s xs" "n \<notin> set xs"
  shows "queue_rep (Queue_push n s) (xs @ [n])"
proof (cases xs rule: rev_cases)
  case Nil
  with assms show ?thesis
    by (cases s) (auto simp: queue_rep_def Queue_push_def)
next
  case (snoc ys t)
  with assms lseg_snoc [of "fst s" "bh_next (snd s)" ys t n] show ?thesis
    by (cases s) (auto simp: queue_rep_def Queue_push_def)
qed

lemma Queue_pop_nocheck_rep:
  assumes "queue_rep s (x # xs)"
  shows "\<exists>s'. Queue_pop_nocheck s = Some ((x, xs = []), s') \<and> queue_rep s' xs"
  using assms by (cases s; cases xs) (auto simp: queue_rep_def Queue_pop_nocheck_def Let_def)

lemma Queue_pop_flag_Cons:
  assumes "queue_rep s (x # xs)"
  shows "\<exists>s'. Queue_pop_flag f s = Some ((Some x, f), s') \<and> queue_rep s' xs"
  using assms by (cases s; cases xs) (auto simp: queue_rep_def Queue_pop_flag_def Let_def)

lemma Queue_pop_flag_Nil:
  assumes "queue_rep s []"
  shows "Queue_pop_flag f s = Some ((None, f), s)"
  using assms by (cases s) (auto simp: queue_rep_def Queue_pop_flag_def)

lemma Queue_pop_Cons:
  assumes "queue_rep s (x # xs)"
  shows "\<exists>s'. Queue_pop s = Some (Some x, s') \<and> queue_rep s' xs"
  using Queue_pop_flag_Cons [OF assms, of False] by (auto simp: Queue_pop_def)

lemma Queue_pop_Nil: "queue_rep s [] \<Longrightarrow> Queue_pop s = Some (None, s)"
  by (simp add: Queue_pop_def Queue_pop_flag_Nil)

lemma Queue_count_rep: "queue_rep s xs \<Longrightarrow> Queue_count s = Some (length xs)"
proof -
  have "lseg h p xs \<Longrightarrow> count_from h p n = Some (n + length xs)" for h p n
    by (induction xs arbitrary: p n) (subst count_from.simps, simp)+
  then show "queue_rep s xs \<Longrightarrow> ?thesis" by (simp add: queue_rep_def Queue_count_def)
qed

section \<open>The interface of the queues\<close>

text \<open>Operations on a queue, and a run of them that collects what the pops return.\<close>

datatype 'n qop = Push 'n | Pop

fun run_ops :: "('n \<Rightarrow> 's \<Rightarrow> 's) \<Rightarrow> ('s \<Rightarrow> ('n option \<times> 's) option) \<Rightarrow> 'n qop list \<Rightarrow> 's \<Rightarrow> ('n option list \<times> 's) option" where
  "run_ops push pop [] s = Some ([], s)"
| "run_ops push pop (Push n # ops) s = run_ops push pop ops (push n s)"
| "run_ops push pop (Pop # ops) s =
     (case pop s of None \<Rightarrow> None
      | Some (r, s') \<Rightarrow> map_option (\<lambda>(rs, s''). (r # rs, s'')) (run_ops push pop ops s'))"

text \<open>The specification: a list; and the callers' obligation not to push a node that is queued.\<close>

fun spec_ops :: "'n qop list \<Rightarrow> 'n list \<Rightarrow> 'n option list \<times> 'n list" where
  "spec_ops [] xs = ([], xs)"
| "spec_ops (Push n # ops) xs = spec_ops ops (xs @ [n])"
| "spec_ops (Pop # ops) xs =
     (case xs of [] \<Rightarrow> (case spec_ops ops [] of (rs, ys) \<Rightarrow> (None # rs, ys))
      | x # xs' \<Rightarrow> (case spec_ops ops xs' of (rs, ys) \<Rightarrow> (Some x # rs, ys)))"

fun ops_ok :: "'n qop list \<Rightarrow> 'n list \<Rightarrow> bool" where
  "ops_ok [] xs = True"
| "ops_ok (Push n # ops) xs = (n \<notin> set xs \<and> ops_ok ops (xs @ [n]))"
| "ops_ok (Pop # ops) xs = ops_ok ops (tl xs)"

locale fifo =
  fixes rep :: "'s \<Rightarrow> 'n list \<Rightarrow> bool"
    and push :: "'n \<Rightarrow> 's \<Rightarrow> 's"
    and pop :: "'s \<Rightarrow> ('n option \<times> 's) option"
  assumes push_rep: "rep s xs \<Longrightarrow> n \<notin> set xs \<Longrightarrow> rep (push n s) (xs @ [n])"
    and pop_Nil: "rep s [] \<Longrightarrow> pop s = Some (None, s)"
    and pop_Cons: "rep s (x # xs) \<Longrightarrow> \<exists>s'. pop s = Some (Some x, s') \<and> rep s' xs"
begin

lemma run_refines:
  assumes "rep s xs" "ops_ok ops xs"
  shows "\<exists>s'. run_ops push pop ops s = Some (fst (spec_ops ops xs), s') \<and> rep s' (snd (spec_ops ops xs))"
  using assms
proof (induction ops arbitrary: s xs)
  case (Cons op ops)
  show ?case
  proof (cases op)
    case (Push n)
    with Cons show ?thesis using push_rep by auto
  next
    case Pop
    show ?thesis
    proof (cases xs)
      case Nil
      with Cons.prems Pop pop_Nil have "pop s = Some (None, s)" "ops_ok ops []" by auto
      with Cons.IH [of s "[]"] Cons.prems(1) Nil Pop show ?thesis by (auto split: prod.splits)
    next
      case (Cons x xs')
      with Cons.prems pop_Cons obtain s' where "pop s = Some (Some x, s')" "rep s' xs'" by blast
      moreover have "ops_ok ops xs'" using Cons.prems(2) Pop Cons by simp
      ultimately show ?thesis using Cons.IH [of s' xs'] Pop Cons by (auto split: prod.splits)
    qed
  qed
qed simp

text \<open>What was pushed comes out in the same order.\<close>

lemma push_all:
  assumes "rep s xs" "distinct (xs @ ns)"
  shows "\<exists>s'. run_ops push pop (map Push ns) s = Some ([], s') \<and> rep s' (xs @ ns)"
  using assms
proof (induction ns arbitrary: s xs)
  case (Cons n ns)
  with push_rep [of s xs n] Cons.IH [of "push n s" "xs @ [n]"] show ?case by simp
qed simp

lemma drain:
  assumes "rep s xs"
  shows "\<exists>s'. run_ops push pop (replicate (length xs) Pop) s = Some (map Some xs, s') \<and> rep s' []"
  using assms
proof (induction xs arbitrary: s)
  case (Cons x xs)
  with pop_Cons obtain s1 where "pop s = Some (Some x, s1)" "rep s1 xs" by blast
  with Cons.IH [of s1] show ?case by auto
qed simp

end

interpretation tq: fifo queue_rep Queue_push Queue_pop
  by unfold_locales (auto intro: Queue_push_rep Queue_pop_Nil dest: Queue_pop_Cons)

section \<open>Properties\<close>

text \<open>C14: the intrusive queue is a FIFO queue. Any sequence of pushes and pops on \<open>Queue\<close>, in which no node is
  pushed while it is queued, runs without a failing assertion and returns what the same
  sequence returns on a list, and leaves a queue that holds the nodes of that list.\<close>

theorem Queue_refines:
  assumes "queue_rep s xs" "ops_ok ops xs"
  shows "\<exists>s'. run_ops Queue_push Queue_pop ops s = Some (fst (spec_ops ops xs), s') \<and>
     queue_rep s' (snd (spec_ops ops xs))"
  using assms by (rule tq.run_refines)

lemma Queue_refines_witness:
  "\<exists>s'. run_ops Queue_push Queue_pop [Push 5, Push 7, Pop, Push 5, Pop, Pop, Pop] (\<lambda>_. None, Queue_init)
      = Some ([Some 5, Some 7, Some 5, None], s') \<and> queue_rep s' []"
proof -
  have "ops_ok [Push 5, Push (7::nat), Pop] []" by simp
  then show ?thesis
    using Queue_refines [OF Queue_init_rep, of "[Push 5, Push 7, Pop, Push 5, Pop, Pop, Pop]"] by simp
qed

text \<open>The flag of \<open>Queue::pop(bool&)\<close> says nothing. Whatever the queue holds, the call returns
  with the argument as the caller had set it, even when it removed the last node; only
  \<open>pop_nocheck\<close> reports that the queue became empty.\<close>

theorem Queue_pop_flag_unset:
  assumes "queue_rep s (x # xs)"
  shows "\<exists>s'. Queue_pop_flag f s = Some ((Some x, f), s') \<and> Queue_pop_nocheck s = Some ((x, xs = []), s')"
  using assms by (cases s; cases xs) (auto simp: queue_rep_def Queue_pop_flag_def Queue_pop_nocheck_def Let_def)

lemma Queue_pop_flag_unset_witness:
  "\<exists>s'. Queue_pop_flag False (Queue_push 3 (\<lambda>_. None, Queue_init)) = Some ((Some 3, False), s') \<and>
     Queue_pop_nocheck (Queue_push 3 (\<lambda>_. None, Queue_init)) = Some ((3, [] = ([] :: nat list)), s')"
proof (rule Queue_pop_flag_unset)
  show "queue_rep (Queue_push 3 (\<lambda>_. None, Queue_init)) [3]"
    using Queue_push_rep [OF Queue_init_rep, of 3] by simp
qed

end
