(* ===== verification/LockCore.thy ===== *)
theory LockCore
  imports TaQueue
begin

text \<open>
  \<open>LockCore\<close>, the lock-free core of the coroutine mutex of
  \<open>libs/tinyasync/include/tinyasync/mutex.h\<close>, as an interleaving of atomic steps on one word of flags
  and the intrusive queue. The agents are the awaiters: agent \<open>t\<close> calls \<open>try_lock\<close> with its node \<open>t\<close>, and \<open>unlock\<close>
  when it owns the mutex. Memory is sequentially consistent. Every access to the flags is a step of its own, and so are the accesses to
  the queue; the accesses to a debug counter, which only the owner or the agent in the section of the queue makes, are one step together
  with the test that follows, or with the access to the flags next to them. The debug counters
  and assertions (\<open>NDEBUG\<close> not defined) are modelled: \<open>exit(1)\<close> or a failed assertion sets \<open>crashed\<close>.
\<close>

unbundle bit_operations_syntax

definition k_mtx_locked :: int where "k_mtx_locked = 1"
definition k_que_locked :: int where "k_que_locked = 2"
definition k_que_notempty :: int where "k_que_notempty = 4"

definition bit_set :: "int \<Rightarrow> int \<Rightarrow> int" where "bit_set flags b = flags OR b"
definition bit_clear :: "int \<Rightarrow> int \<Rightarrow> int" where "bit_clear flags b = flags AND (NOT b)"
definition bit_test :: "int \<Rightarrow> int \<Rightarrow> bool" where "bit_test flags b \<longleftrightarrow> flags AND b \<noteq> 0"

text \<open>
  Where an agent is. \<open>T\<close>: in \<open>try_lock\<close>, \<open>U\<close>: in \<open>unlock\<close>. A \<open>Cas\<close> or \<open>Rel\<close> state holds the local \<open>old_flags\<close> of a
  compare-and-exchange loop; \<open>head\<close> and \<open>que_empty\<close> are the locals after the pop.
\<close>

datatype lpc =
    LIdle
  | TCas int | TOwned | TEnter | TPush | TLeave | TRelLoad | TRel int
  | LWait                                  \<comment> \<open>\<open>try_lock\<close> returned false\<close>
  | LOwn                                   \<comment> \<open>owns the mutex\<close>
  | UCas int | UEnter | UPop | ULeave node bool | URelLoad node bool | URel node bool int

record lockcore =
  m_flags :: int
  m_que :: qstate
  que_thd_cnt :: int
  mtx_thd_cnt :: int
  mtx_lock_cnt :: int
  crashed :: bool
  lpcs :: "node \<Rightarrow> lpc"

definition lc_init :: lockcore where
  "lc_init = \<lparr>m_flags = 0, m_que = (\<lambda>_. None, Queue_init), que_thd_cnt = 0, mtx_thd_cnt = 0, mtx_lock_cnt = 0,
     crashed = False, lpcs = \<lambda>_. LIdle\<rparr>"

definition lc_is_locked :: "lockcore \<Rightarrow> bool" where
  "lc_is_locked s \<longleftrightarrow> bit_test (m_flags s) k_mtx_locked"

definition at :: "node \<Rightarrow> lpc \<Rightarrow> lockcore \<Rightarrow> lockcore" where
  "at t p s = s\<lparr>lpcs := (lpcs s)(t := p)\<rparr>"

text \<open>\<open>compare_exchange_strong\<close>: on a mismatch the local gets the current flags.\<close>

definition cas :: "int \<Rightarrow> int \<Rightarrow> lockcore \<Rightarrow> (lockcore \<Rightarrow> lockcore) \<Rightarrow> (int \<Rightarrow> lockcore \<Rightarrow> lockcore) \<Rightarrow> lockcore" where
  "cas expected desired s ok retry =
     (if m_flags s = expected then ok (s\<lparr>m_flags := desired\<rparr>) else retry (m_flags s) s)"

text \<open>\<open>++cnt; if (cnt > 1) exit(1)\<close> after the assertions.\<close>

definition enter_que :: "bool \<Rightarrow> lockcore \<Rightarrow> lockcore" where
  "enter_que asserts s =
     s\<lparr>que_thd_cnt := que_thd_cnt s + 1, crashed := (crashed s \<or> \<not> asserts \<or> que_thd_cnt s + 1 > 1)\<rparr>"

definition try_lock_step :: "node \<Rightarrow> lpc \<Rightarrow> lockcore \<Rightarrow> lockcore" where
  "try_lock_step t p s =
     (case p of
        LIdle \<Rightarrow> at t (TCas (m_flags s)) s
      | TCas old_flags \<Rightarrow>
          let flags = bit_set old_flags k_mtx_locked; enqueue = (flags = old_flags) in
          if enqueue then
            cas (bit_clear old_flags k_que_locked) (bit_set old_flags k_que_locked) s
              (at t TEnter) (\<lambda>old. at t (TCas old))
          else cas old_flags flags s (at t TOwned) (\<lambda>old. at t (TCas old))
      | TEnter \<Rightarrow> at t TPush (enter_que (bit_test (m_flags s) k_que_locked) s)
      | TPush \<Rightarrow> at t TLeave (s\<lparr>m_que := Queue_push t (m_que s)\<rparr>)
      | TLeave \<Rightarrow> at t TRelLoad (s\<lparr>que_thd_cnt := que_thd_cnt s - 1\<rparr>)
      | TRelLoad \<Rightarrow> at t (TRel (m_flags s)) s
      | TRel old_flags \<Rightarrow>
          cas old_flags (bit_set (bit_clear old_flags k_que_locked) k_que_notempty) s
            (at t LWait) (\<lambda>old. at t (TRel old))
      | TOwned \<Rightarrow>
          at t LOwn (s\<lparr>mtx_thd_cnt := mtx_thd_cnt s + 1, mtx_lock_cnt := mtx_lock_cnt s + 1,
            crashed := (crashed s \<or> \<not> bit_test (m_flags s) k_mtx_locked \<or> mtx_thd_cnt s + 1 = 2)\<rparr>)
      | _ \<Rightarrow> s)"

text \<open>
  \<open>unlock(b)\<close>. The decrement of \<open>mtx_thd_cnt\<close> is inside the loop, once per attempt. \<open>pop_nocheck\<close> asserts that the
  queue is not empty. When \<open>unlock\<close> returns a node, its caller hands over to that agent: the mutex with \<open>b\<close>
  (\<open>Mutex::unlock\<close>), otherwise just the wake-up.
\<close>

definition unlock_step :: "bool \<Rightarrow> node \<Rightarrow> lpc \<Rightarrow> lockcore \<Rightarrow> lockcore" where
  "unlock_step b t p s =
     (case p of
        LOwn \<Rightarrow> at t (UCas (m_flags s)) s
      | UCas old_flags \<Rightarrow>
          let que_empty = (\<not> bit_test old_flags k_que_notempty);
              s1 = s\<lparr>mtx_thd_cnt := mtx_thd_cnt s - 1\<rparr> in
          if que_empty then
            cas old_flags (bit_clear old_flags k_mtx_locked) s1 (at t LIdle) (\<lambda>old. at t (UCas old))
          else
            let flags = bit_set old_flags k_que_locked;
                flags' = (if \<not> b then bit_clear flags k_mtx_locked else flags);
                s2 = (if \<not> b then s1 else s1\<lparr>mtx_thd_cnt := mtx_thd_cnt s1 + 1\<rparr>) in
            cas (bit_clear old_flags k_que_locked) flags' s2 (at t UEnter) (\<lambda>old. at t (UCas old))
      | UEnter \<Rightarrow>
          at t UPop (enter_que ((b \<longrightarrow> bit_test (m_flags s) k_mtx_locked) \<and> bit_test (m_flags s) k_que_locked) s)
      | UPop \<Rightarrow>
          (case Queue_pop_nocheck (m_que s) of
             None \<Rightarrow> s\<lparr>crashed := True\<rparr>
           | Some ((h, e), q) \<Rightarrow> at t (ULeave h e) (s\<lparr>m_que := q\<rparr>))
      | ULeave h e \<Rightarrow> at t (URelLoad h e) (s\<lparr>que_thd_cnt := que_thd_cnt s - 1\<rparr>)
      | URelLoad h e \<Rightarrow> at t (URel h e (m_flags s)) s
      | URel h e old_flags \<Rightarrow>
          let flags = bit_clear old_flags k_que_locked;
              flags' = (if e then bit_clear flags k_que_notempty else flags) in
          cas old_flags flags' s (\<lambda>s'. at h (if b then LOwn else LIdle) (at t LIdle s')) (\<lambda>old. at t (URel h e old))
      | _ \<Rightarrow> s)"

text \<open>The next atomic step of agent \<open>t\<close>; a waiting agent has none.\<close>

definition lc_step :: "bool \<Rightarrow> node \<Rightarrow> lockcore \<Rightarrow> lockcore" where
  "lc_step b t s =
     (case lpcs s t of
        LWait \<Rightarrow> s
      | LIdle \<Rightarrow> try_lock_step t (lpcs s t) s
      | TCas _ \<Rightarrow> try_lock_step t (lpcs s t) s
      | TOwned \<Rightarrow> try_lock_step t (lpcs s t) s
      | TEnter \<Rightarrow> try_lock_step t (lpcs s t) s
      | TPush \<Rightarrow> try_lock_step t (lpcs s t) s
      | TLeave \<Rightarrow> try_lock_step t (lpcs s t) s
      | TRelLoad \<Rightarrow> try_lock_step t (lpcs s t) s
      | TRel _ \<Rightarrow> try_lock_step t (lpcs s t) s
      | _ \<Rightarrow> unlock_step b t (lpcs s t) s)"

inductive lc_reach :: "bool \<Rightarrow> lockcore \<Rightarrow> bool" for b where
  init: "lc_reach b lc_init"
| step: "lc_reach b s \<Longrightarrow> lc_reach b (lc_step b t s)"

section \<open>The flags\<close>

definition mkflags :: "bool \<Rightarrow> bool \<Rightarrow> bool \<Rightarrow> int" where
  "mkflags m q n = of_bool m * 1 + of_bool q * 2 + of_bool n * 4"

lemma mkflags_inj [simp]: "mkflags m q n = mkflags m' q' n' \<longleftrightarrow> m = m' \<and> q = q' \<and> n = n'"
  by (cases m; cases q; cases n; cases m'; cases q'; cases n'; simp add: mkflags_def)

lemma flag_ops [simp]:
  "bit_set (mkflags m q n) k_mtx_locked = mkflags True q n"
  "bit_set (mkflags m q n) k_que_locked = mkflags m True n"
  "bit_set (mkflags m q n) k_que_notempty = mkflags m q True"
  "bit_clear (mkflags m q n) k_mtx_locked = mkflags False q n"
  "bit_clear (mkflags m q n) k_que_locked = mkflags m False n"
  "bit_clear (mkflags m q n) k_que_notempty = mkflags m q False"
  "bit_test (mkflags m q n) k_mtx_locked = m"
  "bit_test (mkflags m q n) k_que_locked = q"
  "bit_test (mkflags m q n) k_que_notempty = n"
  by (cases m; cases q; cases n;
      simp add: mkflags_def bit_set_def bit_clear_def bit_test_def k_mtx_locked_def k_que_locked_def k_que_notempty_def)+

section \<open>The invariant\<close>

text \<open>Who owns the mutex, who is in the section that the queue bit guards, who has counted itself in.\<close>

fun owns :: "bool \<Rightarrow> lpc \<Rightarrow> bool" where
  "owns b TOwned = True" | "owns b LOwn = True" | "owns b (UCas _) = True"
| "owns b UEnter = b" | "owns b UPop = b" | "owns b (ULeave _ _) = b" | "owns b (URelLoad _ _) = b" | "owns b (URel _ _ _) = b"
| "owns b _ = False"

fun qsec :: "lpc \<Rightarrow> bool" where
  "qsec TEnter = True" | "qsec TPush = True" | "qsec TLeave = True" | "qsec TRelLoad = True" | "qsec (TRel _) = True"
| "qsec UEnter = True" | "qsec UPop = True" | "qsec (ULeave _ _) = True" | "qsec (URelLoad _ _) = True" | "qsec (URel _ _ _) = True"
| "qsec _ = False"

fun counted :: "lpc \<Rightarrow> bool" where
  "counted TPush = True" | "counted TLeave = True" | "counted UPop = True" | "counted (ULeave _ _) = True"
| "counted _ = False"

fun queued :: "lpc \<Rightarrow> bool" where
  "queued TLeave = True" | "queued TRelLoad = True" | "queued (TRel _) = True" | "queued LWait = True"
| "queued _ = False"

fun popped :: "lpc \<Rightarrow> node option" where
  "popped (ULeave h _) = Some h" | "popped (URelLoad h _) = Some h" | "popped (URel h _ _) = Some h"
| "popped _ = None"

fun old_ok :: "lpc \<Rightarrow> bool" where
  "old_ok (TCas f) = (f \<in> {f. \<exists>m q n. f = mkflags m q n})"
| "old_ok (TRel f) = (f \<in> {f. \<exists>m q n. f = mkflags m q n})"
| "old_ok (UCas f) = (f \<in> {f. \<exists>m q n. f = mkflags m q n})"
| "old_ok (URel _ _ f) = (f \<in> {f. \<exists>m q n. f = mkflags m q n})"
| "old_ok _ = True"

text \<open>What the not-empty bit says about the queue while an agent is in the section.\<close>

fun qcond :: "lpc \<Rightarrow> bool \<Rightarrow> node list \<Rightarrow> bool" where
  "qcond TEnter n xs = (n = (xs \<noteq> []))" | "qcond TPush n xs = (n = (xs \<noteq> []))"
| "qcond TLeave n xs = (xs \<noteq> [])" | "qcond TRelLoad n xs = (xs \<noteq> [])" | "qcond (TRel _) n xs = (xs \<noteq> [])"
| "qcond UEnter n xs = (n \<and> xs \<noteq> [])" | "qcond UPop n xs = (n \<and> xs \<noteq> [])"
| "qcond (ULeave h e) n xs = (n \<and> e = (xs = []))" | "qcond (URelLoad h e) n xs = (n \<and> e = (xs = []))"
| "qcond (URel h e f) n xs = (n \<and> e = (xs = []))"
| "qcond _ n xs = False"

text \<open>
  The parameters: the owner \<open>om\<close>, the agent \<open>oq\<close> in the queue section, the queued nodes \<open>xs\<close>, the node \<open>pop\<close> that
  was popped and not yet handed over.
\<close>

definition agent_ok :: "bool \<Rightarrow> node option \<Rightarrow> node option \<Rightarrow> node list \<Rightarrow> node option \<Rightarrow> node \<Rightarrow> lpc \<Rightarrow> bool" where
  "agent_ok b om oq xs pop t pc \<longleftrightarrow> owns b pc = (om = Some t) \<and> qsec pc = (oq = Some t) \<and> old_ok pc \<and>
     (t \<in> set xs \<longleftrightarrow> queued pc \<and> pop \<noteq> Some t) \<and> (pop = Some t \<longrightarrow> pc = LWait)"

definition que_ok :: "node option \<Rightarrow> bool \<Rightarrow> node list \<Rightarrow> node option \<Rightarrow> int \<Rightarrow> (node \<Rightarrow> lpc) \<Rightarrow> bool" where
  "que_ok oq n xs pop c pcs \<longleftrightarrow>
     (case oq of None \<Rightarrow> c = 0 \<and> n = (xs \<noteq> []) \<and> pop = None
      | Some u \<Rightarrow> c = of_bool (counted (pcs u)) \<and> qcond (pcs u) n xs \<and> pop = popped (pcs u))"

definition mtx_ok :: "node option \<Rightarrow> int \<Rightarrow> (node \<Rightarrow> lpc) \<Rightarrow> bool" where
  "mtx_ok om c pcs \<longleftrightarrow> c \<le> (case om of None \<Rightarrow> 0 | Some u \<Rightarrow> of_bool (pcs u \<noteq> TOwned))"

definition lc_inv :: "bool \<Rightarrow> node option \<Rightarrow> node option \<Rightarrow> bool \<Rightarrow> node list \<Rightarrow> node option \<Rightarrow> lockcore \<Rightarrow> bool" where
  "lc_inv b om oq n xs pop s \<longleftrightarrow>
     \<not> crashed s \<and> m_flags s = mkflags (om \<noteq> None) (oq \<noteq> None) n \<and> queue_rep (m_que s) xs \<and>
     (\<forall>t. agent_ok b om oq xs pop t (lpcs s t)) \<and> que_ok oq n xs pop (que_thd_cnt s) (lpcs s) \<and>
     mtx_ok om (mtx_thd_cnt s) (lpcs s)"

lemma at_simps [simp]:
  "lpcs (at t p s) = (lpcs s)(t := p)" "m_flags (at t p s) = m_flags s" "m_que (at t p s) = m_que s"
  "que_thd_cnt (at t p s) = que_thd_cnt s" "mtx_thd_cnt (at t p s) = mtx_thd_cnt s" "crashed (at t p s) = crashed s"
  by (simp_all add: at_def)

text \<open>A change of the locals only: \<open>p\<close> and \<open>p'\<close> are of the same kind.\<close>

definition same_kind :: "bool \<Rightarrow> lpc \<Rightarrow> lpc \<Rightarrow> bool" where
  "same_kind b p p' \<longleftrightarrow> owns b p' = owns b p \<and> qsec p' = qsec p \<and> counted p' = counted p \<and>
    queued p' = queued p \<and> popped p' = popped p \<and> old_ok p' \<and> p \<noteq> TOwned \<and> p' \<noteq> TOwned \<and> p \<noteq> LWait \<and> qcond p' = qcond p"

lemma lc_inv_local:
  assumes inv: "lc_inv b om oq n xs pop s" and k: "same_kind b (lpcs s t) p'" and "c \<le> mtx_thd_cnt s"
  shows "lc_inv b om oq n xs pop (at t p' (s\<lparr>mtx_thd_cnt := c\<rparr>))"
proof -
  have "agent_ok b om oq xs pop t p'"
    using inv k by (auto simp: lc_inv_def same_kind_def agent_ok_def)
  then have "\<forall>u. agent_ok b om oq xs pop u (lpcs (at t p' (s\<lparr>mtx_thd_cnt := c\<rparr>)) u)"
    using inv by (simp add: lc_inv_def)
  moreover have "que_ok oq n xs pop (que_thd_cnt s) ((lpcs s)(t := p'))"
    using inv k by (auto simp: lc_inv_def same_kind_def que_ok_def split: option.splits)
  moreover have "mtx_ok om c ((lpcs s)(t := p'))"
    using inv k assms(3) by (auto simp: lc_inv_def same_kind_def mtx_ok_def split: option.splits)
  ultimately show ?thesis using inv by (simp add: lc_inv_def)
qed

lemma lc_inv_local0:
  assumes "lc_inv b om oq n xs pop s" "same_kind b (lpcs s t) p'"
  shows "lc_inv b om oq n xs pop (at t p' s)"
  using lc_inv_local [OF assms order.refl] by simp

lemma lc_inv_upd:
  assumes "\<not> crashed s'" "m_flags s' = mkflags (om \<noteq> None) (oq \<noteq> None) n" "queue_rep (m_que s') xs"
    "\<And>u. u \<noteq> t \<Longrightarrow> agent_ok b om oq xs pop u (lpcs s' u)" "agent_ok b om oq xs pop t p"
    "que_ok oq n xs pop (que_thd_cnt s') ((lpcs s')(t := p))" "mtx_ok om (mtx_thd_cnt s') ((lpcs s')(t := p))"
  shows "lc_inv b om oq n xs pop (at t p s')"
  using assms by (simp add: lc_inv_def)

lemma lc_invD:
  assumes "lc_inv b om oq n xs pop s"
  shows "\<not> crashed s" "m_flags s = mkflags (om \<noteq> None) (oq \<noteq> None) n" "queue_rep (m_que s) xs"
    "agent_ok b om oq xs pop t (lpcs s t)" "que_ok oq n xs pop (que_thd_cnt s) (lpcs s)"
    "mtx_ok om (mtx_thd_cnt s) (lpcs s)"
  using assms by (simp_all add: lc_inv_def)

lemma step_TCas_own:
  assumes inv: "lc_inv b None oq n xs pop s" and t: "lpcs s t = TCas f"
  shows "lc_inv b (Some t) oq n xs pop (at t TOwned (s\<lparr>m_flags := mkflags True (oq \<noteq> None) n\<rparr>))"
proof (rule lc_inv_upd)
  show "agent_ok b (Some t) oq xs pop u (lpcs (s\<lparr>m_flags := mkflags True (oq \<noteq> None) n\<rparr>) u)" if "u \<noteq> t" for u
    using lc_invD(4) [OF inv, of u] that by (simp add: agent_ok_def)
  show "agent_ok b (Some t) oq xs pop t TOwned"
    using lc_invD(4) [OF inv, of t] t by (simp add: agent_ok_def)
  show "que_ok oq n xs pop (que_thd_cnt (s\<lparr>m_flags := mkflags True (oq \<noteq> None) n\<rparr>))
     ((lpcs (s\<lparr>m_flags := mkflags True (oq \<noteq> None) n\<rparr>))(t := TOwned))"
    using lc_invD(5) [OF inv] lc_invD(4) [OF inv, of t] t
    by (cases oq) (auto simp: que_ok_def agent_ok_def)
qed (use lc_invD [OF inv] in \<open>simp_all add: mtx_ok_def\<close>)

lemma step_TCas_que:
  assumes inv: "lc_inv b (Some o1) None n xs pop s" and t: "lpcs s t = TCas f"
  shows "lc_inv b (Some o1) (Some t) n xs pop (at t TEnter (s\<lparr>m_flags := mkflags True True n\<rparr>))"
proof (rule lc_inv_upd)
  show "agent_ok b (Some o1) (Some t) xs pop u (lpcs (s\<lparr>m_flags := mkflags True True n\<rparr>) u)" if "u \<noteq> t" for u
    using lc_invD(4) [OF inv, of u] that by (simp add: agent_ok_def)
  show "agent_ok b (Some o1) (Some t) xs pop t TEnter"
    using lc_invD(4) [OF inv, of t] t by (simp add: agent_ok_def)
qed (use lc_invD [OF inv] lc_invD(4) [OF inv, of t] t in \<open>auto simp: mtx_ok_def que_ok_def agent_ok_def split: if_splits\<close>)

lemma step_TOwned:
  assumes inv: "lc_inv b om oq n xs pop s" and t: "lpcs s t = TOwned"
  shows "lc_inv b om oq n xs pop (try_lock_step t TOwned s)"
  unfolding try_lock_step_def lpc.case
proof (rule lc_inv_upd)
  have om: "om = Some t" using lc_invD(4) [OF inv, of t] t by (simp add: agent_ok_def)
  let ?s = "s\<lparr>mtx_thd_cnt := mtx_thd_cnt s + 1, mtx_lock_cnt := mtx_lock_cnt s + 1,
            crashed := (crashed s \<or> \<not> bit_test (m_flags s) k_mtx_locked \<or> mtx_thd_cnt s + 1 = 2)\<rparr>"
  have c: "mtx_thd_cnt s \<le> 0" using lc_invD(6) [OF inv] om t by (simp add: mtx_ok_def)
  show "\<not> crashed ?s" using lc_invD(1,2) [OF inv] c om by simp
  show "agent_ok b om oq xs pop u (lpcs ?s u)" for u using lc_invD(4) [OF inv, of u] by simp
  show "agent_ok b om oq xs pop t LOwn" using lc_invD(4) [OF inv, of t] t by (simp add: agent_ok_def)
  show "mtx_ok om (mtx_thd_cnt ?s) ((lpcs ?s)(t := LOwn))" using c om by (simp add: mtx_ok_def)
  show "que_ok oq n xs pop (que_thd_cnt ?s) ((lpcs ?s)(t := LOwn))"
    using lc_invD(5) [OF inv] lc_invD(4) [OF inv, of t] t by (cases oq) (auto simp: que_ok_def agent_ok_def)
qed (use lc_invD [OF inv] in simp_all)

text \<open>A step of the agent in the queue section that stays there.\<close>

lemma step_section:
  assumes inv: "lc_inv b om (Some t) n xs pop s" and k: "owns b p' = owns b (lpcs s t)" "qsec p'" "old_ok p'"
    "p' \<noteq> TOwned" "lpcs s t \<noteq> TOwned"
    and q: "queue_rep q xs'" "qcond p' n xs'" "c = of_bool (counted p')"
    and xs: "\<And>u. u \<noteq> t \<Longrightarrow> popped p' \<noteq> Some u \<Longrightarrow> u \<in> set xs' \<longleftrightarrow> u \<in> set xs"
      "\<And>u. u \<noteq> t \<Longrightarrow> popped p' = Some u \<Longrightarrow> lpcs s u = LWait \<and> u \<notin> set xs'"
      "\<And>u. u \<noteq> t \<Longrightarrow> pop = Some u \<Longrightarrow> popped p' = Some u"
      "t \<in> set xs' \<longleftrightarrow> queued p'" "popped p' \<noteq> Some t"
    and cr: "\<not> cr"
  shows "lc_inv b om (Some t) n xs' (popped p') (at t p' (s\<lparr>m_que := q, que_thd_cnt := c, crashed := cr\<rparr>))"
proof (rule lc_inv_upd)
  let ?s = "s\<lparr>m_que := q, que_thd_cnt := c, crashed := cr\<rparr>"
  show "agent_ok b om (Some t) xs' (popped p') u (lpcs ?s u)" if "u \<noteq> t" for u
  proof (cases "popped p' = Some u")
    case True
    with lc_invD(4) [OF inv, of u] xs(2) [OF that True] show ?thesis by (simp add: agent_ok_def)
  next
    case False
    with lc_invD(4) [OF inv, of u] xs(1,3) [OF that] show ?thesis by (auto simp: agent_ok_def)
  qed
  show "agent_ok b om (Some t) xs' (popped p') t p'"
    using lc_invD(4) [OF inv, of t] k xs(4,5) by (auto simp: agent_ok_def)
  show "que_ok (Some t) n xs' (popped p') (que_thd_cnt ?s) ((lpcs ?s)(t := p'))"
    using q by (simp add: que_ok_def)
  show "mtx_ok om (mtx_thd_cnt ?s) ((lpcs ?s)(t := p'))"
    using lc_invD(6) [OF inv] k by (auto simp: mtx_ok_def split: option.splits)
qed (use lc_invD [OF inv] q cr in simp_all)

lemma section_facts:
  assumes inv: "lc_inv b om oq n xs pop s" and "qsec (lpcs s t)"
  shows "oq = Some t" "que_thd_cnt s = of_bool (counted (lpcs s t))" "qcond (lpcs s t) n xs" "pop = popped (lpcs s t)"
    "m_flags s = mkflags (om \<noteq> None) True n"
proof -
  show *: "oq = Some t" using lc_invD(4) [OF inv, of t] assms(2) by (simp add: agent_ok_def)
  with lc_invD [OF inv] show "que_thd_cnt s = of_bool (counted (lpcs s t))" "qcond (lpcs s t) n xs" "pop = popped (lpcs s t)"
    "m_flags s = mkflags (om \<noteq> None) True n" by (simp_all add: que_ok_def)
qed

lemma step_TEnter:
  assumes inv: "lc_inv b om oq n xs pop s" and t: "lpcs s t = TEnter"
  shows "lc_inv b om oq n xs None (try_lock_step t TEnter s)"
proof -
  note f = section_facts [OF inv, of t, unfolded t, simplified]
  have tx: "t \<notin> set xs" using lc_invD(4) [OF inv, of t] t by (simp add: agent_ok_def)
  have "lc_inv b om (Some t) n xs (popped TPush)
     (at t TPush (s\<lparr>m_que := m_que s, que_thd_cnt := 1, crashed := False\<rparr>))"
    using inv unfolding f(1)
    by (rule step_section) (use f tx lc_invD [OF inv] t in \<open>auto simp: t\<close>)
  then show ?thesis using f lc_invD(1) [OF inv]
    by (simp add: try_lock_step_def enter_que_def)
qed

lemma step_TPush:
  assumes inv: "lc_inv b om oq n xs pop s" and t: "lpcs s t = TPush"
  shows "lc_inv b om oq n (xs @ [t]) None (try_lock_step t TPush s)"
proof -
  note f = section_facts [OF inv, of t, unfolded t, simplified]
  have tx: "t \<notin> set xs" using lc_invD(4) [OF inv, of t] t by (simp add: agent_ok_def)
  have "lc_inv b om (Some t) n (xs @ [t]) (popped TLeave)
     (at t TLeave (s\<lparr>m_que := Queue_push t (m_que s), que_thd_cnt := 1, crashed := False\<rparr>))"
    using inv unfolding f(1)
    by (rule step_section) (use f tx lc_invD [OF inv] t in \<open>auto simp: t Queue_push_rep\<close>)
  moreover have "s\<lparr>m_que := Queue_push t (m_que s), que_thd_cnt := 1, crashed := False\<rparr> = s\<lparr>m_que := Queue_push t (m_que s)\<rparr>"
    using f lc_invD(1) [OF inv] by (cases s) simp
  ultimately show ?thesis using f by (simp add: try_lock_step_def)
qed

lemma step_TLeave:
  assumes inv: "lc_inv b om oq n xs pop s" and t: "lpcs s t = TLeave"
  shows "lc_inv b om oq n xs None (try_lock_step t TLeave s)"
proof -
  note f = section_facts [OF inv, of t, unfolded t, simplified]
  have tx: "t \<in> set xs" using lc_invD(4) [OF inv, of t] t f by (simp add: agent_ok_def)
  have "lc_inv b om (Some t) n xs (popped TRelLoad)
     (at t TRelLoad (s\<lparr>m_que := m_que s, que_thd_cnt := 0, crashed := False\<rparr>))"
    using inv unfolding f(1)
    by (rule step_section) (use f tx lc_invD [OF inv] t in \<open>auto simp: t\<close>)
  moreover have "s\<lparr>m_que := m_que s, que_thd_cnt := 0, crashed := False\<rparr> = s\<lparr>que_thd_cnt := 0\<rparr>"
    using lc_invD(1) [OF inv] by (cases s) simp
  ultimately show ?thesis using f by (simp add: try_lock_step_def)
qed

lemma step_UEnter:
  assumes inv: "lc_inv b om oq n xs pop s" and t: "lpcs s t = UEnter"
  shows "lc_inv b om oq n xs None (unlock_step b t UEnter s)"
proof -
  note f = section_facts [OF inv, of t, unfolded t, simplified]
  have tx: "t \<notin> set xs" "b \<longrightarrow> om \<noteq> None" using lc_invD(4) [OF inv, of t] t by (simp_all add: agent_ok_def)
  have "lc_inv b om (Some t) n xs (popped UPop)
     (at t UPop (s\<lparr>m_que := m_que s, que_thd_cnt := 1, crashed := False\<rparr>))"
    using inv unfolding f(1)
    by (rule step_section) (use f tx lc_invD [OF inv] t in \<open>auto simp: t\<close>)
  then show ?thesis using f lc_invD(1) [OF inv] tx(2)
    by (simp add: unlock_step_def enter_que_def)
qed

lemma step_UPop:
  assumes inv: "lc_inv b om oq n xs pop s" and t: "lpcs s t = UPop"
  shows "\<exists>h xs'. xs = h # xs' \<and> lc_inv b om oq n xs' (Some h) (unlock_step b t UPop s)"
proof -
  note f = section_facts [OF inv, of t, unfolded t, simplified]
  have tx: "t \<notin> set xs" using lc_invD(4) [OF inv, of t] t by (simp_all add: agent_ok_def)
  from f(3) obtain h xs' where xs: "xs = h # xs'" by (cases xs) auto
  from Queue_pop_nocheck_rep lc_invD(3) [OF inv] xs obtain q where
    q: "Queue_pop_nocheck (m_que s) = Some ((h, xs' = []), q)" "queue_rep q xs'" by blast
  have h: "lpcs s h = LWait" "h \<notin> set xs'" "h \<noteq> t"
  proof -
    show "h \<notin> set xs'" using lc_invD(3) [OF inv] xs by (simp add: queue_rep_def)
    show "h \<noteq> t" using xs tx by auto
    have "queued (lpcs s h)" "qsec (lpcs s h) = (oq = Some h)"
      using lc_invD(4) [OF inv, of h] xs by (auto simp: agent_ok_def)
    then show "lpcs s h = LWait" using f(1) \<open>h \<noteq> t\<close> by (cases "lpcs s h") auto
  qed
  have "lc_inv b om (Some t) n xs' (popped (ULeave h (xs' = [])))
     (at t (ULeave h (xs' = [])) (s\<lparr>m_que := q, que_thd_cnt := 1, crashed := False\<rparr>))"
    using inv unfolding f(1)
    by (rule step_section) (use f tx q h xs in \<open>auto simp: t\<close>)
  moreover have "s\<lparr>m_que := q, que_thd_cnt := 1, crashed := False\<rparr> = s\<lparr>m_que := q\<rparr>"
    using f lc_invD(1) [OF inv] by (cases s) simp
  ultimately show ?thesis using f q(1) xs by (simp add: unlock_step_def)
qed

lemma step_ULeave:
  assumes inv: "lc_inv b om oq n xs pop s" and t: "lpcs s t = ULeave h e"
  shows "lc_inv b om oq n xs (Some h) (unlock_step b t (ULeave h e) s)"
proof -
  note f = section_facts [OF inv, of t, unfolded t, simplified]
  have tx: "t \<notin> set xs" "h \<noteq> t" using lc_invD(4) [OF inv, of t] t f(4) by (auto simp: agent_ok_def)
  have h: "lpcs s h = LWait" "h \<notin> set xs" using lc_invD(4) [OF inv, of h] f(4) by (auto simp: agent_ok_def)
  have "lc_inv b om (Some t) n xs (popped (URelLoad h e))
     (at t (URelLoad h e) (s\<lparr>m_que := m_que s, que_thd_cnt := 0, crashed := False\<rparr>))"
    using inv unfolding f(1)
    by (rule step_section) (use f tx h lc_invD [OF inv] t in \<open>auto simp: t\<close>)
  moreover have "s\<lparr>m_que := m_que s, que_thd_cnt := 0, crashed := False\<rparr> = s\<lparr>que_thd_cnt := 0\<rparr>"
    using lc_invD(1) [OF inv] by (cases s) simp
  ultimately show ?thesis using f by (simp add: unlock_step_def)
qed

text \<open>The agent leaves the queue section.\<close>

lemma step_TRel_done:
  assumes inv: "lc_inv b om oq n xs pop s" and t: "lpcs s t = TRel f"
  shows "lc_inv b om None True xs None (at t LWait (s\<lparr>m_flags := mkflags (om \<noteq> None) False True\<rparr>))"
proof (rule lc_inv_upd)
  let ?s = "s\<lparr>m_flags := mkflags (om \<noteq> None) False True\<rparr>"
  note f = section_facts [OF inv, of t, unfolded t, simplified]
  show "agent_ok b om None xs None u (lpcs ?s u)" if "u \<noteq> t" for u
    using lc_invD(4) [OF inv, of u] f(1,4) that by (auto simp: agent_ok_def)
  show "agent_ok b om None xs None t LWait"
    using lc_invD(4) [OF inv, of t] f(1,4) t by (auto simp: agent_ok_def)
  show "que_ok None True xs None (que_thd_cnt ?s) ((lpcs ?s)(t := LWait))" using f by (simp add: que_ok_def)
  show "mtx_ok om (mtx_thd_cnt ?s) ((lpcs ?s)(t := LWait))"
    using lc_invD(6) [OF inv] t by (auto simp: mtx_ok_def split: option.splits)
qed (use lc_invD [OF inv] in simp_all)

lemma step_UCas_free:
  assumes inv: "lc_inv b om oq n xs pop s" and t: "lpcs s t = UCas f"
  shows "lc_inv b None oq n xs pop (at t LIdle (s\<lparr>mtx_thd_cnt := mtx_thd_cnt s - 1, m_flags := mkflags False (oq \<noteq> None) n\<rparr>))"
proof (rule lc_inv_upd)
  let ?s = "s\<lparr>mtx_thd_cnt := mtx_thd_cnt s - 1, m_flags := mkflags False (oq \<noteq> None) n\<rparr>"
  have om: "om = Some t" "oq \<noteq> Some t" using lc_invD(4) [OF inv, of t] t by (auto simp: agent_ok_def)
  show "agent_ok b None oq xs pop u (lpcs ?s u)" if "u \<noteq> t" for u
    using lc_invD(4) [OF inv, of u] om that by (auto simp: agent_ok_def)
  show "agent_ok b None oq xs pop t LIdle"
    using lc_invD(4) [OF inv, of t] om t by (auto simp: agent_ok_def)
  show "que_ok oq n xs pop (que_thd_cnt ?s) ((lpcs ?s)(t := LIdle))"
    using lc_invD(5) [OF inv] om by (auto simp: que_ok_def split: option.splits)
  show "mtx_ok None (mtx_thd_cnt ?s) ((lpcs ?s)(t := LIdle))"
    using lc_invD(6) [OF inv] om t by (simp add: mtx_ok_def)
qed (use lc_invD [OF inv] in simp_all)

lemma step_UCas_que:
  assumes inv: "lc_inv b om None True xs pop s" and t: "lpcs s t = UCas f" and c: "c \<le> mtx_thd_cnt s" "\<not> b \<Longrightarrow> c \<le> mtx_thd_cnt s - 1"
  shows "lc_inv b (if b then Some t else None) (Some t) True xs None
    (at t UEnter (s\<lparr>mtx_thd_cnt := c, m_flags := mkflags b True True\<rparr>))"
proof (rule lc_inv_upd)
  let ?s = "s\<lparr>mtx_thd_cnt := c, m_flags := mkflags b True True\<rparr>"
  have om: "om = Some t" using lc_invD(4) [OF inv, of t] t by (auto simp: agent_ok_def)
  have q: "pop = None" "xs \<noteq> []" "que_thd_cnt s = 0" using lc_invD(5) [OF inv] by (auto simp: que_ok_def)
  show "agent_ok b (if b then Some t else None) (Some t) xs None u (lpcs ?s u)" if "u \<noteq> t" for u
    using lc_invD(4) [OF inv, of u] om q that by (auto simp: agent_ok_def)
  show "agent_ok b (if b then Some t else None) (Some t) xs None t UEnter"
    using lc_invD(4) [OF inv, of t] om t q by (auto simp: agent_ok_def)
  show "que_ok (Some t) True xs None (que_thd_cnt ?s) ((lpcs ?s)(t := UEnter))"
    using q by (simp add: que_ok_def)
  show "mtx_ok (if b then Some t else None) (mtx_thd_cnt ?s) ((lpcs ?s)(t := UEnter))"
    using lc_invD(6) [OF inv] om t c by (auto simp: mtx_ok_def)
qed (use lc_invD [OF inv] in simp_all)

lemma step_URel_done:
  assumes inv: "lc_inv b om oq n xs pop s" and t: "lpcs s t = URel h e f"
  shows "lc_inv b (if b then Some h else om) None (\<not> e) xs None
    (at h (if b then LOwn else LIdle) (at t LIdle (s\<lparr>m_flags := mkflags (om \<noteq> None) False (\<not> e)\<rparr>)))"
proof (rule lc_inv_upd)
  let ?s = "at t LIdle (s\<lparr>m_flags := mkflags (om \<noteq> None) False (\<not> e)\<rparr>)"
  let ?p = "if b then LOwn else LIdle"
  note f = section_facts [OF inv, of t, unfolded t, simplified]
  have tx: "t \<notin> set xs" "h \<noteq> t" "b = (om = Some t)"
    using lc_invD(4) [OF inv, of t] t f(4) by (auto simp: agent_ok_def)
  have h: "lpcs s h = LWait" "h \<notin> set xs" "\<not> b \<longrightarrow> om \<noteq> Some h"
    using lc_invD(4) [OF inv, of h] f(4) by (auto simp: agent_ok_def)
  show "agent_ok b (if b then Some h else om) None xs None u (lpcs ?s u)" if "u \<noteq> h" for u
    using lc_invD(4) [OF inv, of u] lc_invD(4) [OF inv, of t] tx f(1,4) that t by (auto simp: agent_ok_def)
  show "agent_ok b (if b then Some h else om) None xs None h ?p"
    using h by (auto simp: agent_ok_def)
  show "que_ok None (\<not> e) xs None (que_thd_cnt ?s) ((lpcs ?s)(h := ?p))" using f by (simp add: que_ok_def)
  show "mtx_ok (if b then Some h else om) (mtx_thd_cnt ?s) ((lpcs ?s)(h := ?p))"
    using lc_invD(6) [OF inv] tx h t by (auto simp: mtx_ok_def split: option.splits if_splits)
  show "m_flags ?s = mkflags ((if b then Some h else om) \<noteq> None) (None \<noteq> None) (\<not> e)"
    using tx by auto
qed (use lc_invD [OF inv] in simp_all)

section \<open>Every step keeps the invariant\<close>

lemma same_kind_simps:
  "f = mkflags m q n \<Longrightarrow> same_kind b LIdle (TCas f)" "f = mkflags m q n \<Longrightarrow> same_kind b (TCas g) (TCas f)"
  "f = mkflags m q n \<Longrightarrow> same_kind b TRelLoad (TRel f)" "f = mkflags m q n \<Longrightarrow> same_kind b (TRel g) (TRel f)"
  "f = mkflags m q n \<Longrightarrow> same_kind b LOwn (UCas f)" "f = mkflags m q n \<Longrightarrow> same_kind b (UCas g) (UCas f)"
  "f = mkflags m q n \<Longrightarrow> same_kind b (URelLoad h e) (URel h e f)"
  "f = mkflags m q n \<Longrightarrow> same_kind b (URel h e g) (URel h e f)"
  by (auto simp: same_kind_def fun_eq_iff)

lemma lc_step_inv:
  assumes inv: "lc_inv b om oq n xs pop s"
  shows "\<exists>om oq n xs pop. lc_inv b om oq n xs pop (lc_step b t s)"
proof -
  have fl: "m_flags s = mkflags (om \<noteq> None) (oq \<noteq> None) n" using lc_invD(2) [OF inv] .
  have ok: "agent_ok b om oq xs pop t (lpcs s t)" using lc_invD(4) [OF inv] .
  have loc: "\<exists>om oq n xs pop. lc_inv b om oq n xs pop (at t p' s)" if "same_kind b (lpcs s t) p'" for p'
    using lc_inv_local0 [OF inv that] by blast
  have loc': "\<exists>om oq n xs pop. lc_inv b om oq n xs pop (at t p' (s\<lparr>mtx_thd_cnt := c\<rparr>))"
    if "same_kind b (lpcs s t) p'" "c \<le> mtx_thd_cnt s" for p' c
    using lc_inv_local [OF inv that] by blast
  show ?thesis
  proof (cases "lpcs s t")
    case LIdle
    then show ?thesis using loc same_kind_simps(1) [OF fl] by (simp add: lc_step_def try_lock_step_def)
  next
    case (TCas f)
    from ok TCas obtain m q k where f: "f = mkflags m q k" by (auto simp: agent_ok_def)
    have step: "lc_step b t s = (if m then cas (mkflags True False k) (mkflags True True k) s (at t TEnter) (\<lambda>old. at t (TCas old))
         else cas f (mkflags True q k) s (at t TOwned) (\<lambda>old. at t (TCas old)))"
      using TCas by (auto simp: lc_step_def try_lock_step_def Let_def f)
    show ?thesis
    proof (cases m)
      case True
      show ?thesis
      proof (cases "m_flags s = mkflags True False k")
        case eq: True
        with fl obtain o1 where o: "om = Some o1" "oq = None" "n = k" by (cases om; cases oq) auto
        have "lc_inv b (Some o1) None k xs pop s" using inv o by simp
        from step_TCas_que [OF this TCas] have
          "lc_inv b (Some o1) (Some t) k xs pop (at t TEnter (s\<lparr>m_flags := mkflags True True k\<rparr>))" .
        then have "\<exists>om oq n xs pop. lc_inv b om oq n xs pop (at t TEnter (s\<lparr>m_flags := mkflags True True k\<rparr>))"
          by blast
        then show ?thesis using step True eq by (simp add: cas_def)
      next
        case False
        then show ?thesis using step True loc [unfolded TCas, OF same_kind_simps(2) [OF fl]] by (simp add: cas_def)
      qed
    next
      case m: False
      show ?thesis
      proof (cases "m_flags s = f")
        case True
        with fl f m have o: "om = None" "q = (oq \<noteq> None)" "n = k" by auto
        have "lc_inv b None oq k xs pop s" using inv o by simp
        from step_TCas_own [OF this TCas] have
          "lc_inv b (Some t) oq k xs pop (at t TOwned (s\<lparr>m_flags := mkflags True q k\<rparr>))" using o by simp
        then have "\<exists>om oq n xs pop. lc_inv b om oq n xs pop (at t TOwned (s\<lparr>m_flags := mkflags True q k\<rparr>))"
          by blast
        then show ?thesis using step m True by (simp add: cas_def)
      next
        case False
        then show ?thesis using step m loc [unfolded TCas, OF same_kind_simps(2) [OF fl]] by (simp add: cas_def)
      qed
    qed
  next
    case TOwned
    then show ?thesis using step_TOwned [OF inv TOwned] by (simp only: lc_step_def lpc.case) blast
  next
    case TEnter
    then show ?thesis using step_TEnter [OF inv TEnter] by (simp only: lc_step_def lpc.case) blast
  next
    case TPush
    then show ?thesis using step_TPush [OF inv TPush] by (simp only: lc_step_def lpc.case) blast
  next
    case TLeave
    then show ?thesis using step_TLeave [OF inv TLeave] by (simp only: lc_step_def lpc.case) blast
  next
    case TRelLoad
    then show ?thesis using loc same_kind_simps(3) [OF fl] by (simp add: lc_step_def try_lock_step_def)
  next
    case (TRel f)
    from ok TRel obtain m q k where f: "f = mkflags m q k" by (auto simp: agent_ok_def)
    have step: "lc_step b t s = cas f (mkflags m False True) s (at t LWait) (\<lambda>old. at t (TRel old))"
      using TRel by (simp add: lc_step_def try_lock_step_def f)
    show ?thesis
    proof (cases "m_flags s = f")
      case True
      with fl f have "m = (om \<noteq> None)" by simp
      moreover have "\<exists>om oq n xs pop. lc_inv b om oq n xs pop (at t LWait (s\<lparr>m_flags := mkflags (om' \<noteq> None) False True\<rparr>))"
        if "om' = om" for om' using step_TRel_done [OF inv TRel] that by blast
      ultimately show ?thesis using step True by (simp add: cas_def)
    next
      case False
      then show ?thesis using step loc [unfolded TRel, OF same_kind_simps(4) [OF fl]] by (simp add: cas_def)
    qed
  next
    case LWait
    then have "lc_step b t s = s" by (simp add: lc_step_def)
    then show ?thesis using inv by (simp only:) blast
  next
    case LOwn
    then show ?thesis using loc same_kind_simps(5) [OF fl] by (simp add: lc_step_def unlock_step_def)
  next
    case (UCas f)
    from ok UCas obtain m q k where f: "f = mkflags m q k" by (auto simp: agent_ok_def)
    have om: "om = Some t" using ok UCas by (simp add: agent_ok_def)
    let ?c = "if k \<and> b then mtx_thd_cnt s - 1 + 1 else mtx_thd_cnt s - 1"
    let ?s = "s\<lparr>mtx_thd_cnt := ?c\<rparr>"
    have step: "lc_step b t s = (if \<not> k then cas f (mkflags False q False) ?s (at t LIdle) (\<lambda>old. at t (UCas old))
        else cas (mkflags m False True) (mkflags (m \<and> b) True True) ?s (at t UEnter) (\<lambda>old. at t (UCas old)))"
      using UCas by (auto simp: lc_step_def unlock_step_def Let_def f)
    have again: "\<exists>om oq n xs pop. lc_inv b om oq n xs pop (at t (UCas (m_flags s)) ?s)"
      using loc' [unfolded UCas, OF same_kind_simps(6) [OF fl], of ?c] by simp
    show ?thesis
    proof (cases k)
      case k: False
      show ?thesis
      proof (cases "m_flags s = f")
        case True
        with fl f k have "q = (oq \<noteq> None)" "n = False" by auto
        moreover have "\<exists>om oq n xs pop. lc_inv b om oq n xs pop
            (at t LIdle (s\<lparr>mtx_thd_cnt := mtx_thd_cnt s - 1, m_flags := mkflags False (oq' \<noteq> None) n'\<rparr>))"
          if "oq' = oq" "n' = n" for oq' n' using step_UCas_free [OF inv UCas] that by blast
        ultimately show ?thesis using step True k by (simp add: cas_def)
      next
        case False
        then show ?thesis using step again k by (simp add: cas_def)
      qed
    next
      case k: True
      show ?thesis
      proof (cases "m_flags s = mkflags m False True")
        case True
        with fl om have o: "m" "oq = None" "n" by auto
        have q: "pop = None" using lc_invD(5) [OF inv] o by (simp add: que_ok_def)
        have "lc_inv b om None True xs pop s" using inv o by simp
        from step_UCas_que [OF this UCas, of ?c] k have
          "lc_inv b (if b then Some t else None) (Some t) True xs None
            (at t UEnter (s\<lparr>mtx_thd_cnt := ?c, m_flags := mkflags b True True\<rparr>))" by simp
        then have "\<exists>om oq n xs pop. lc_inv b om oq n xs pop
            (at t UEnter (s\<lparr>mtx_thd_cnt := ?c, m_flags := mkflags b True True\<rparr>))" by blast
        then show ?thesis using step True k o by (simp add: cas_def)
      next
        case False
        then show ?thesis using step again k by (simp add: cas_def)
      qed
    qed
  next
    case UEnter
    then show ?thesis using step_UEnter [OF inv UEnter] by (simp only: lc_step_def lpc.case) blast
  next
    case UPop
    then show ?thesis using step_UPop [OF inv UPop] by (simp only: lc_step_def lpc.case) blast
  next
    case (ULeave h e)
    then show ?thesis using step_ULeave [OF inv ULeave] by (simp only: lc_step_def lpc.case) blast
  next
    case (URelLoad h e)
    then show ?thesis using loc same_kind_simps(7) [OF fl] by (simp add: lc_step_def unlock_step_def)
  next
    case (URel h e f)
    from ok URel obtain m q k where f: "f = mkflags m q k" by (auto simp: agent_ok_def)
    have step: "lc_step b t s = cas f (mkflags m False (k \<and> \<not> e)) s
        (\<lambda>s'. at h (if b then LOwn else LIdle) (at t LIdle s')) (\<lambda>old. at t (URel h e old))"
      using URel by (auto simp: lc_step_def unlock_step_def f Let_def)
    show ?thesis
    proof (cases "m_flags s = f")
      case True
      have "qsec (lpcs s t)" using URel by simp
      from section_facts [OF inv this] URel have "n" by simp
      with True fl f have "m = (om \<noteq> None)" "k" by auto
      moreover have "\<exists>om oq n xs pop. lc_inv b om oq n xs pop
          (at h (if b then LOwn else LIdle) (at t LIdle (s\<lparr>m_flags := mkflags (om' \<noteq> None) False (\<not> e)\<rparr>)))"
        if "om' = om" for om' using step_URel_done [OF inv URel] that by blast
      ultimately show ?thesis using step True by (simp add: cas_def)
    next
      case False
      then show ?thesis using step loc [unfolded URel, OF same_kind_simps(8) [OF fl]] by (simp add: cas_def)
    qed
  qed
qed

lemma lc_reach_inv: "lc_reach b s \<Longrightarrow> \<exists>om oq n xs pop. lc_inv b om oq n xs pop s"
proof (induction rule: lc_reach.induct)
  case init
  have "lc_inv b None None False [] None lc_init"
    using Queue_init_rep [of "\<lambda>_. None"]
    by (simp add: lc_inv_def lc_init_def agent_ok_def que_ok_def mtx_ok_def mkflags_def)
  then show ?case by blast
next
  case (step s t)
  then show ?case using lc_step_inv by blast
qed

section \<open>Properties\<close>

text \<open>C8: the mutex excludes. In every interleaving of any number of agents, with either argument of \<open>unlock\<close>, at
  most one agent owns the mutex, at most one works on the queue, the mutex bit says exactly
  whether there is an owner, and neither an assertion nor an \<open>exit(1)\<close> of the debug build is reached.\<close>

theorem LockCore_mutex:
  assumes "lc_reach b s"
  shows "\<not> crashed s \<and> (\<forall>t u. owns b (lpcs s t) \<and> owns b (lpcs s u) \<longrightarrow> t = u) \<and>
    (\<forall>t u. qsec (lpcs s t) \<and> qsec (lpcs s u) \<longrightarrow> t = u) \<and> lc_is_locked s = (\<exists>t. owns b (lpcs s t))"
proof -
  from lc_reach_inv [OF assms] obtain om oq n xs pop where inv: "lc_inv b om oq n xs pop s" by blast
  have o: "owns b (lpcs s t) \<longleftrightarrow> om = Some t" "qsec (lpcs s t) \<longleftrightarrow> oq = Some t" for t
    using lc_invD(4) [OF inv, of t] by (simp_all add: agent_ok_def)
  show ?thesis using lc_invD(1,2) [OF inv] by (auto simp: o lc_is_locked_def)
qed

lemma LockCore_mutex_witness:
  "lc_is_locked (fold (lc_step True) [1, 1, 1, 2] lc_init) \<and> owns True (lpcs (fold (lc_step True) [1, 1, 1, 2] lc_init) 1)"
proof -
  let ?s = "fold (lc_step True) [1, 1, 1, 2] lc_init"
  have "lc_reach True ?s"
    unfolding fold_simps id_apply comp_def by (intro lc_reach.intros)
  moreover have "owns True (lpcs ?s 1)"
    by (simp add: lc_step_def try_lock_step_def lc_init_def at_def Let_def cas_def bit_set_def bit_clear_def
      k_mtx_locked_def)
  ultimately show ?thesis using LockCore_mutex [of True ?s] by blast
qed

text \<open>The agents that wait are exactly the queued ones. Whenever no agent works on the queue, the
  queue holds without repetition the nodes of the agents whose \<open>try_lock\<close> returned false, and the
  not-empty bit is set exactly when there is one: \<open>unlock\<close> of the owner then wakes the one that has waited longest.\<close>

theorem LockCore_queue:
  assumes "lc_reach b s" "\<forall>t. \<not> qsec (lpcs s t)"
  shows "\<exists>xs. queue_rep (m_que s) xs \<and> set xs = {t. lpcs s t = LWait} \<and>
    bit_test (m_flags s) k_que_notempty = (xs \<noteq> []) \<and> \<not> bit_test (m_flags s) k_que_locked"
proof -
  from lc_reach_inv [OF assms(1)] obtain om oq n xs pop where inv: "lc_inv b om oq n xs pop s" by blast
  have q: "qsec (lpcs s t) \<longleftrightarrow> oq = Some t" for t
    using lc_invD(4) [OF inv, of t] by (simp add: agent_ok_def)
  with assms(2) have oq: "oq = None" by (cases oq) auto
  with lc_invD(5) [OF inv] have p: "pop = None" "n = (xs \<noteq> [])" by (auto simp: que_ok_def)
  have "t \<in> set xs \<longleftrightarrow> lpcs s t = LWait" for t
    using lc_invD(4) [OF inv, of t] p assms(2) [rule_format, of t] by (cases "lpcs s t") (auto simp: agent_ok_def)
  with lc_invD(2,3) [OF inv] oq p show ?thesis by auto
qed

lemma LockCore_queue_witness:
  "\<exists>xs. queue_rep (m_que lc_init) xs \<and> set xs = {t. lpcs lc_init t = LWait} \<and>
    bit_test (m_flags lc_init) k_que_notempty = (xs \<noteq> []) \<and> \<not> bit_test (m_flags lc_init) k_que_locked"
  by (rule LockCore_queue [of True]) (simp_all add: lc_reach.init, simp add: lc_init_def)

definition lost_wakeup :: "lockcore" where
  "lost_wakeup = fold (lc_step True) [1, 1, 1, 2, 2, 1, 1, 2, 2, 2, 2, 2] lc_init"

text \<open>A wake-up can be lost. \<open>unlock\<close> decides that the queue is empty from the not-empty bit, without looking at
  the bit that says that an agent is just pushing. In this interleaving agent 2 is suspended in the
  queue, all other agents are idle, and the mutex is free: the owner 1 unlocked it between the moment 2 took the
  queue bit and the moment it set the not-empty bit. No step of 2 changes anything.\<close>

theorem LockCore_lost_wakeup:
  "lc_reach True lost_wakeup \<and> \<not> lc_is_locked lost_wakeup \<and> lpcs lost_wakeup = (\<lambda>_. LIdle)(2 := LWait) \<and>
   lc_step True 2 lost_wakeup = lost_wakeup"
proof -
  have r: "lc_reach True lost_wakeup"
    unfolding lost_wakeup_def fold_simps id_apply comp_def by (intro lc_reach.intros)
  have "m_flags lost_wakeup = 4" "lpcs lost_wakeup 2 = LWait" "\<forall>t. t \<noteq> 2 \<longrightarrow> lpcs lost_wakeup t = LIdle"
    by (simp_all add: lost_wakeup_def lc_step_def try_lock_step_def unlock_step_def lc_init_def at_def Let_def cas_def
      bit_set_def bit_clear_def bit_test_def enter_que_def k_mtx_locked_def k_que_locked_def k_que_notempty_def)
  with r show ?thesis by (auto simp: lc_is_locked_def bit_test_def k_mtx_locked_def lc_step_def)
qed

end
