(* ===== verification/TaSync.thy ===== *)
theory TaSync
  imports LockCore
begin

text \<open>
  The coroutine synchronisation of \<open>libs/tinyasync/include/tinyasync/mutex.h\<close> above \<open>LockCore\<close>:
  \<open>Mutex\<close> with \<open>MutexLockAwaiter\<close>, \<open>AdoptUniqueLock\<close>, \<open>Event\<close> and \<open>Condv\<close>.
  A coroutine is named by a number. Resuming a coroutine runs code that is not part of these
  classes: it is the parameter \<open>resume\<close>, a state transformer.
\<close>

section \<open>An uncontended call of LockCore\<close>

text \<open>What \<open>try_lock\<close> and \<open>unlock(true)\<close> promise: an owner and a line of waiting agents.\<close>

type_synonym amutex = "node option \<times> node list"

definition am_try_lock :: "node \<Rightarrow> amutex \<Rightarrow> bool \<times> amutex" where
  "am_try_lock t m = (case m of (None, xs) \<Rightarrow> (True, (Some t, xs)) | (Some u, xs) \<Rightarrow> (False, (Some u, xs @ [t])))"

definition am_unlock :: "amutex \<Rightarrow> node option \<times> amutex" where
  "am_unlock m = (case snd m of [] \<Rightarrow> (None, (None, [])) | h # xs \<Rightarrow> (Some h, (Some h, xs)))"

definition am_rep :: "lockcore \<Rightarrow> amutex \<Rightarrow> bool" where
  "am_rep s m \<longleftrightarrow> \<not> crashed s \<and> m_flags s = mkflags (fst m \<noteq> None) False (snd m \<noteq> []) \<and> queue_rep (m_que s) (snd m) \<and>
     (\<forall>t. lpcs s t = (if fst m = Some t then LOwn else if t \<in> set (snd m) then LWait else LIdle)) \<and>
     que_thd_cnt s = 0 \<and> mtx_thd_cnt s \<le> of_bool (fst m \<noteq> None) \<and> (\<forall>u. fst m = Some u \<longrightarrow> u \<notin> set (snd m))"

text \<open>The calls, run to their end without interference: at most 8 atomic steps.\<close>

definition lc_call :: "node \<Rightarrow> lockcore \<Rightarrow> lockcore" where
  "lc_call t s = (let run = (\<lambda>n. (lc_step True t ^^ n) s) in
     if lpcs s t = LOwn then run (if bit_test (m_flags s) k_que_notempty then 7 else 2)
     else run (if bit_test (m_flags s) k_mtx_locked then 7 else 3))"

lemma funpow_unfold: "(f ^^ Suc n) x = (f ^^ n) (f x)"
  by (simp add: funpow_swap1)

lemmas lc_eval = lc_step_def try_lock_step_def unlock_step_def cas_def Let_def enter_que_def

lemma lc_call_lock_free:
  assumes "am_rep s (None, xs)" "t \<notin> set xs"
  shows "am_rep (lc_call t s) (Some t, xs)"
proof -
  let ?f = "mkflags False False (xs \<noteq> [])" and ?g = "mkflags True False (xs \<noteq> [])"
  have p: "lpcs s t = LIdle" "m_flags s = ?f" using assms by (auto simp: am_rep_def)
  let ?s1 = "at t (TCas ?f) s"
  let ?s2 = "at t TOwned (?s1\<lparr>m_flags := ?g\<rparr>)"
  let ?s3 = "at t LOwn (?s2\<lparr>mtx_thd_cnt := mtx_thd_cnt s + 1, mtx_lock_cnt := mtx_lock_cnt s + 1, crashed := False\<rparr>)"
  have "lc_step True t s = ?s1" using p by (simp add: lc_eval)
  moreover have "lc_step True t ?s1 = ?s2" using p by (simp add: lc_eval)
  moreover have "lc_step True t ?s2 = ?s3"
    using assms by (simp add: lc_eval am_rep_def at_def)
  ultimately have "lc_call t s = ?s3"
    using p by (simp add: lc_call_def numeral_3_eq_3 funpow_unfold del: funpow.simps(2))
  then show ?thesis using assms by (auto simp: am_rep_def)
qed

lemma lc_call_lock_busy:
  assumes r: "am_rep s (Some u, xs)" and t: "t \<noteq> u" "t \<notin> set xs"
  shows "am_rep (lc_call t s) (Some u, xs @ [t])"
proof -
  let ?n = "xs \<noteq> []"
  have p: "lpcs s t = LIdle" "m_flags s = mkflags True False ?n" "\<not> crashed s" "que_thd_cnt s = 0"
    using assms by (auto simp: am_rep_def)
  let ?s1 = "at t (TCas (mkflags True False ?n)) s"
  let ?s2 = "at t TEnter (?s1\<lparr>m_flags := mkflags True True ?n\<rparr>)"
  let ?s3 = "at t TPush (?s2\<lparr>que_thd_cnt := 1, crashed := False\<rparr>)"
  let ?s4 = "at t TLeave (?s3\<lparr>m_que := Queue_push t (m_que s)\<rparr>)"
  let ?s5 = "at t TRelLoad (?s4\<lparr>que_thd_cnt := 0\<rparr>)"
  let ?s6 = "at t (TRel (mkflags True True ?n)) ?s5"
  let ?s7 = "at t LWait (?s6\<lparr>m_flags := mkflags True False True\<rparr>)"
  have "lc_step True t s = ?s1" using p by (simp add: lc_eval)
  moreover have "lc_step True t ?s1 = ?s2" by (simp add: lc_eval p)
  moreover have "lc_step True t ?s2 = ?s3" by (simp add: lc_eval p at_def)
  moreover have "lc_step True t ?s3 = ?s4" by (simp add: lc_eval at_def)
  moreover have "lc_step True t ?s4 = ?s5" by (simp add: lc_eval at_def)
  moreover have "lc_step True t ?s5 = ?s6" by (simp add: lc_eval at_def)
  moreover have "lc_step True t ?s6 = ?s7" by (simp add: lc_eval)
  ultimately have "lc_call t s = ?s7"
    using p by (simp add: lc_call_def eval_nat_numeral funpow_unfold del: funpow.simps(2))
  then show ?thesis using assms by (auto simp: am_rep_def Queue_push_rep)
qed

lemma lc_call_unlock_empty:
  assumes r: "am_rep s (Some t, [])"
  shows "am_rep (lc_call t s) (None, [])"
proof -
  have p: "lpcs s t = LOwn" "m_flags s = mkflags True False False" using assms by (auto simp: am_rep_def)
  let ?s1 = "at t (UCas (mkflags True False False)) s"
  let ?s2 = "at t LIdle (?s1\<lparr>mtx_thd_cnt := mtx_thd_cnt s - 1, m_flags := mkflags False False False\<rparr>)"
  have "lc_step True t s = ?s1" using p by (simp add: lc_eval)
  moreover have "lc_step True t ?s1 = ?s2" by (simp add: lc_eval p)
  ultimately have "lc_call t s = ?s2"
    using p by (simp add: lc_call_def eval_nat_numeral funpow_unfold del: funpow.simps(2))
  then show ?thesis using assms by (auto simp: am_rep_def)
qed

lemma lc_call_unlock_next:
  assumes r: "am_rep s (Some t, h # xs)"
  shows "am_rep (lc_call t s) (Some h, xs)"
proof -
  have p: "lpcs s t = LOwn" "m_flags s = mkflags True False True" "\<not> crashed s" "que_thd_cnt s = 0"
    "queue_rep (m_que s) (h # xs)" "h \<noteq> t" "lpcs s h = LWait" "h \<notin> set xs"
    using assms by (auto simp: am_rep_def queue_rep_def)
  from Queue_pop_nocheck_rep [OF p(5)] obtain q where
    q: "Queue_pop_nocheck (m_que s) = Some ((h, xs = []), q)" "queue_rep q xs" by blast
  let ?s1 = "at t (UCas (mkflags True False True)) s"
  let ?s2 = "at t UEnter (?s1\<lparr>mtx_thd_cnt := mtx_thd_cnt s, m_flags := mkflags True True True\<rparr>)"
  let ?s3 = "at t UPop (?s2\<lparr>que_thd_cnt := 1, crashed := False\<rparr>)"
  let ?s4 = "at t (ULeave h (xs = [])) (?s3\<lparr>m_que := q\<rparr>)"
  let ?s5 = "at t (URelLoad h (xs = [])) (?s4\<lparr>que_thd_cnt := 0\<rparr>)"
  let ?s6 = "at t (URel h (xs = []) (mkflags True True True)) ?s5"
  let ?s7 = "at h LOwn (at t LIdle (?s6\<lparr>m_flags := mkflags True False (xs \<noteq> [])\<rparr>))"
  have "lc_step True t s = ?s1" using p by (simp add: lc_eval)
  moreover have "lc_step True t ?s1 = ?s2" by (simp add: lc_eval p)
  moreover have "lc_step True t ?s2 = ?s3" by (simp add: lc_eval p at_def)
  moreover have "lc_step True t ?s3 = ?s4" by (simp add: lc_eval at_def q)
  moreover have "lc_step True t ?s4 = ?s5" by (simp add: lc_eval at_def)
  moreover have "lc_step True t ?s5 = ?s6" by (simp add: lc_eval at_def)
  moreover have "lc_step True t ?s6 = ?s7" by (auto simp: lc_eval)
  ultimately have "lc_call t s = ?s7"
    using p by (simp add: lc_call_def eval_nat_numeral funpow_unfold del: funpow.simps(2))
  then show ?thesis using assms q(2) p(6,8) by (auto simp: am_rep_def)
qed

section \<open>Mutex and MutexLockAwaiter\<close>

text \<open>
  The mutex of a set of coroutines on one context: the lock, the posted tasks (\<open>m_posttask\<close> of the awaiters that were
  handed the mutex, in the order of the task queue), the coroutines that were resumed by their task.
\<close>

record msys =
  m_lockcore :: amutex
  m_posted :: "node list"
  m_resumed :: "node list"

definition Mutex_is_locked :: "msys \<Rightarrow> bool" where
  "Mutex_is_locked s \<longleftrightarrow> fst (m_lockcore s) \<noteq> None"

definition MutexLockAwaiter_await_ready :: bool where
  "MutexLockAwaiter_await_ready = False"

text \<open>True when the coroutine stays suspended.\<close>

definition MutexLockAwaiter_await_suspend :: "node \<Rightarrow> msys \<Rightarrow> bool \<times> msys" where
  "MutexLockAwaiter_await_suspend t s =
     (case am_try_lock t (m_lockcore s) of (own_mutex, m) \<Rightarrow> (\<not> own_mutex, s\<lparr>m_lockcore := m\<rparr>))"

definition Mutex_unlock :: "msys \<Rightarrow> msys" where
  "Mutex_unlock s =
     (case am_unlock (m_lockcore s) of
        (Some h, m) \<Rightarrow> s\<lparr>m_lockcore := m, m_posted := m_posted s @ [h]\<rparr>
      | (None, m) \<Rightarrow> s\<lparr>m_lockcore := m\<rparr>)"

text \<open>\<open>on_callback\<close> of the first posted task, and \<open>await_resume\<close>; both assert that the mutex is locked.\<close>

definition MutexLockAwaiter_on_callback :: "msys \<Rightarrow> msys option" where
  "MutexLockAwaiter_on_callback s =
     (case m_posted s of [] \<Rightarrow> Some s
      | t # ts \<Rightarrow> if Mutex_is_locked s then Some (s\<lparr>m_posted := ts, m_resumed := m_resumed s @ [t]\<rparr>) else None)"

definition MutexLockAwaiter_await_resume :: "msys \<Rightarrow> bool" where
  "MutexLockAwaiter_await_resume s = Mutex_is_locked s"

text \<open>A coroutine that is neither suspended nor posted and has the mutex unlocks it; others ask for it; tasks run.\<close>

datatype mop = MLock node | MUnlock | MTask

definition msys_ok :: "msys \<Rightarrow> bool" where
  "msys_ok s \<longleftrightarrow> (case m_posted s of [] \<Rightarrow> True | [h] \<Rightarrow> fst (m_lockcore s) = Some h | _ \<Rightarrow> False)"

fun mop_ok :: "mop \<Rightarrow> msys \<Rightarrow> bool" where
  "mop_ok (MLock t) s = (fst (m_lockcore s) \<noteq> Some t \<and> t \<notin> set (snd (m_lockcore s)))"
| "mop_ok MUnlock s = (fst (m_lockcore s) \<noteq> None \<and> m_posted s = [])"
| "mop_ok MTask s = True"

fun mop_run :: "mop \<Rightarrow> msys \<Rightarrow> msys option" where
  "mop_run (MLock t) s = Some (snd (MutexLockAwaiter_await_suspend t s))"
| "mop_run MUnlock s = Some (Mutex_unlock s)"
| "mop_run MTask s = MutexLockAwaiter_on_callback s"

lemma mop_keeps: "msys_ok s \<Longrightarrow> mop_ok op s \<Longrightarrow> \<exists>s'. mop_run op s = Some s' \<and> msys_ok s'"
  by (cases op; cases "m_lockcore s"; cases "fst (m_lockcore s)"; cases "snd (m_lockcore s)")
    (auto simp: msys_ok_def MutexLockAwaiter_await_suspend_def am_try_lock_def Mutex_unlock_def am_unlock_def
      MutexLockAwaiter_on_callback_def Mutex_is_locked_def split: list.splits)

section \<open>AdoptUniqueLock\<close>

text \<open>A store of guards; the log is the sequence of the mutexes that were unlocked.\<close>

record 'm guard =
  g_mtx :: 'm
  g_owned :: bool

type_synonym 'm guards = "(nat \<Rightarrow> 'm guard) \<times> 'm list"

definition AdoptUniqueLock_new :: "nat \<Rightarrow> 'm \<Rightarrow> 'm guards \<Rightarrow> 'm guards" where
  "AdoptUniqueLock_new i m s = ((fst s)(i := \<lparr>g_mtx = m, g_owned = True\<rparr>), snd s)"

definition AdoptUniqueLock_delete :: "nat \<Rightarrow> 'm guards \<Rightarrow> 'm guards" where
  "AdoptUniqueLock_delete i s = (fst s, if g_owned (fst s i) then snd s @ [g_mtx (fst s i)] else snd s)"

definition AdoptUniqueLock_unlock :: "nat \<Rightarrow> 'm guards \<Rightarrow> 'm guards" where
  "AdoptUniqueLock_unlock i s =
     (if g_owned (fst s i) then ((fst s)(i := (fst s i)\<lparr>g_owned := False\<rparr>), snd s @ [g_mtx (fst s i)]) else s)"

text \<open>Move construction of \<open>i\<close> from \<open>j\<close>, and move assignment, in the order of the code.\<close>

definition AdoptUniqueLock_move :: "nat \<Rightarrow> nat \<Rightarrow> 'm guards \<Rightarrow> 'm guards" where
  "AdoptUniqueLock_move i j s =
     (let g = (fst s)(i := (fst s i)\<lparr>g_mtx := g_mtx (fst s j)\<rparr>);
          g1 = g(i := (g i)\<lparr>g_owned := g_owned (g j)\<rparr>)
      in (g1(j := (g1 j)\<lparr>g_owned := False\<rparr>), snd s))"

definition AdoptUniqueLock_assign :: "nat \<Rightarrow> nat \<Rightarrow> 'm guards \<Rightarrow> 'm guards" where
  "AdoptUniqueLock_assign i j s =
     AdoptUniqueLock_move i j (fst s, if g_owned (fst s i) then snd s @ [g_mtx (fst s i)] else snd s)"

text \<open>The obligations for a mutex: guards that own it, and unlocks done.\<close>

definition obligations :: "nat list \<Rightarrow> 'm \<Rightarrow> 'm guards \<Rightarrow> nat" where
  "obligations ids m s =
     length (filter (\<lambda>i. g_owned (fst s i) \<and> g_mtx (fst s i) = m) ids) + length (filter (\<lambda>x. x = m) (snd s))"

lemma filter_upd:
  "distinct ids \<Longrightarrow> i \<in> set ids \<Longrightarrow>
   length (filter (\<lambda>k. P ((f(i := v)) k)) ids) + of_bool (P (f i)) = length (filter (\<lambda>k. P (f k)) ids) + of_bool (P v)"
proof (induction ids)
  case (Cons a ids)
  show ?case
  proof (cases "a = i")
    case True
    with Cons.prems have "i \<notin> set ids" by auto
    then have "filter (\<lambda>k. P ((f(i := v)) k)) ids = filter (\<lambda>k. P (f k)) ids"
      by (intro filter_cong) auto
    with True show ?thesis by simp
  next
    case False
    with Cons show ?thesis by auto
  qed
qed simp

lemma obligations_upd:
  assumes "distinct ids" "i \<in> set ids"
  shows "obligations ids m ((fst s)(i := v), l) + of_bool (g_owned (fst s i) \<and> g_mtx (fst s i) = m) + length (filter (\<lambda>x. x = m) (snd s))
     = obligations ids m s + of_bool (g_owned v \<and> g_mtx v = m) + length (filter (\<lambda>x. x = m) l)"
  using filter_upd [OF assms, of "\<lambda>g. g_owned g \<and> g_mtx g = m" "fst s" v]
  by (simp add: obligations_def)

lemma unlock_obligations:
  assumes "distinct ids" "i \<in> set ids"
  shows "obligations ids m (AdoptUniqueLock_unlock i s) = obligations ids m s"
  using obligations_upd [OF assms, of m s "(fst s i)\<lparr>g_owned := False\<rparr>" "snd s @ [g_mtx (fst s i)]"]
  by (auto simp: AdoptUniqueLock_unlock_def split: if_splits)

lemma move_obligations:
  assumes "distinct ids" "i \<in> set ids" "j \<in> set ids" "\<not> g_owned (fst s i) \<or> i = j"
  shows "obligations ids m (AdoptUniqueLock_move i j s) =
    obligations ids m s - (if i = j then of_bool (g_owned (fst s i) \<and> g_mtx (fst s i) = m) else 0)"
proof (cases "i = j")
  case True
  then show ?thesis
    using obligations_upd [OF assms(1,2), of m s "(fst s i)\<lparr>g_owned := False\<rparr>" "snd s"]
    by (simp add: AdoptUniqueLock_move_def Let_def)
next
  case False
  let ?g = "(fst s)(i := \<lparr>g_mtx = g_mtx (fst s j), g_owned = g_owned (fst s j)\<rparr>)"
  have e: "AdoptUniqueLock_move i j s = (?g(j := (fst s j)\<lparr>g_owned := False\<rparr>), snd s)"
    using False by (cases "fst s i") (simp add: AdoptUniqueLock_move_def Let_def)
  show ?thesis
    unfolding e
    using False assms(4) obligations_upd [OF assms(1,2), of m s "\<lparr>g_mtx = g_mtx (fst s j), g_owned = g_owned (fst s j)\<rparr>" "snd s"]
      obligations_upd [OF assms(1,3), of m "(?g, snd s)" "(fst s j)\<lparr>g_owned := False\<rparr>" "snd s"]
    by simp
qed

lemma assign_obligations:
  assumes "distinct ids" "i \<in> set ids" "j \<in> set ids"
  shows "obligations ids m (AdoptUniqueLock_assign i j s) = obligations ids m s"
proof (cases "i = j")
  case True
  let ?l = "if g_owned (fst s i) then snd s @ [g_mtx (fst s i)] else snd s"
  have "AdoptUniqueLock_assign i j s = ((fst s)(i := (fst s i)\<lparr>g_owned := False\<rparr>), ?l)"
    using True by (simp add: AdoptUniqueLock_assign_def AdoptUniqueLock_move_def Let_def)
  with obligations_upd [OF assms(1,2), of m s "(fst s i)\<lparr>g_owned := False\<rparr>" ?l] show ?thesis
    by (auto split: if_splits)
next
  case False
  let ?v = "(fst s i)\<lparr>g_owned := False\<rparr>"
  have "AdoptUniqueLock_assign i j s = AdoptUniqueLock_move i j (AdoptUniqueLock_unlock i s)"
    using False by (auto simp: AdoptUniqueLock_assign_def AdoptUniqueLock_unlock_def AdoptUniqueLock_move_def Let_def)
  moreover have "\<not> g_owned (fst (AdoptUniqueLock_unlock i s) i)" by (simp add: AdoptUniqueLock_unlock_def)
  ultimately show ?thesis
    using move_obligations [OF assms, of "AdoptUniqueLock_unlock i s" m] unlock_obligations [OF assms(1,2), of m s] False
    by simp
qed

section \<open>Event\<close>

text \<open>
  An event with the heap of nodes: the queue of awaiters, their coroutines (\<open>m_resume_coroutine\<close>) and the posted
  \<open>PostTaskEvent\<close>s, each with its \<open>m_awaiters\<close>. A failing assertion of the queue is the result \<open>None\<close>.
\<close>

record evsys =
  ev_que :: qstate
  ev_co :: "node \<Rightarrow> nat"
  ev_posts :: "node option list"

definition Event_new :: evsys where
  "Event_new = \<lparr>ev_que = (\<lambda>_. None, Queue_init), ev_co = \<lambda>_. 0, ev_posts = []\<rparr>"

definition EventAwaiter_await_suspend :: "node \<Rightarrow> nat \<Rightarrow> evsys \<Rightarrow> evsys" where
  "EventAwaiter_await_suspend n h s = s\<lparr>ev_que := Queue_push n (ev_que s), ev_co := (ev_co s)(n := h)\<rparr>"

definition Event_notify_one :: "evsys \<Rightarrow> evsys option" where
  "Event_notify_one s =
     (case Queue_pop (ev_que s) of
        None \<Rightarrow> None
      | Some (None, q) \<Rightarrow> Some (s\<lparr>ev_que := q\<rparr>)
      | Some (Some n, q) \<Rightarrow> Some (s\<lparr>ev_que := ((fst q)(n := None), snd q), ev_posts := ev_posts s @ [Some n]\<rparr>))"

text \<open>\<open>notify_all\<close> takes the list and resets the head and the tail, and posts even when nobody waits.\<close>

definition Event_notify_all :: "evsys \<Rightarrow> evsys" where
  "Event_notify_all s =
     (let q = snd (ev_que s) in
      s\<lparr>ev_posts := ev_posts s @ [bh_next q], ev_que := (fst (ev_que s), q\<lparr>bh_next := None, m_tail := None\<rparr>)\<rparr>)"

text \<open>
  The loop of \<open>on_notify\<close>: resume the coroutine, then read \<open>m_next\<close> of its node. The result has the resumed
  coroutines in order.
\<close>

partial_function (option) Event_resume_all ::
    "(nat \<Rightarrow> evsys \<Rightarrow> evsys) \<Rightarrow> node option \<Rightarrow> evsys \<Rightarrow> (nat list \<times> evsys) option" where
  "Event_resume_all resume p s =
     (case p of None \<Rightarrow> Some ([], s)
      | Some n \<Rightarrow>
          let s' = resume (ev_co s n) s in
          Option.bind (Event_resume_all resume (fst (ev_que s') n) s') (\<lambda>(tr, s''). Some (ev_co s n # tr, s'')))"

definition Event_on_notify :: "(nat \<Rightarrow> evsys \<Rightarrow> evsys) \<Rightarrow> evsys \<Rightarrow> (nat list \<times> evsys) option" where
  "Event_on_notify resume s =
     (case ev_posts s of [] \<Rightarrow> Some ([], s) | p # ps \<Rightarrow> Event_resume_all resume p (s\<lparr>ev_posts := ps\<rparr>))"

text \<open>The nodes of the waiting coroutines are left alone while the others run.\<close>

definition keeps_nodes :: "(nat \<Rightarrow> evsys \<Rightarrow> evsys) \<Rightarrow> node set \<Rightarrow> bool" where
  "keeps_nodes resume N \<longleftrightarrow>
     (\<forall>c s. \<forall>n\<in>N. fst (ev_que (resume c s)) n = fst (ev_que s) n \<and> ev_co (resume c s) n = ev_co s n)"

lemma lseg_cong: "(\<And>n. n \<in> set ns \<Longrightarrow> h n = h' n) \<Longrightarrow> lseg h p ns = lseg h' p ns"
  by (induction ns arbitrary: p) auto

lemma Event_resume_all_list:
  assumes "lseg (fst (ev_que s)) p ns" "keeps_nodes resume N" "set ns \<subseteq> N"
  shows "\<exists>s'. Event_resume_all resume p s = Some (map (ev_co s) ns, s')"
  using assms
proof (induction ns arbitrary: p s)
  case Nil
  then show ?case by (subst Event_resume_all.simps) simp
next
  case (Cons n ns)
  let ?s = "resume (ev_co s n) s"
  have k: "fst (ev_que ?s) m = fst (ev_que s) m" "ev_co ?s m = ev_co s m" if "m \<in> N" for m
    using Cons.prems(2) that by (auto simp: keeps_nodes_def)
  have "lseg (fst (ev_que ?s)) (fst (ev_que ?s) n) ns = lseg (fst (ev_que s)) (fst (ev_que s) n) ns"
  proof -
    have "fst (ev_que ?s) n = fst (ev_que s) n" using k(1) Cons.prems(3) by simp
    moreover have "lseg (fst (ev_que ?s)) q ns = lseg (fst (ev_que s)) q ns" for q
      using k(1) Cons.prems(3) by (intro lseg_cong) auto
    ultimately show ?thesis by simp
  qed
  moreover have "lseg (fst (ev_que s)) (fst (ev_que s) n) ns" using Cons.prems(1) by simp
  ultimately obtain s' where "Event_resume_all resume (fst (ev_que ?s) n) ?s = Some (map (ev_co ?s) ns, s')"
    using Cons.IH [of ?s] Cons.prems(2,3) by auto
  moreover have "map (ev_co ?s) ns = map (ev_co s) ns" using k Cons.prems(3) by auto
  ultimately show ?case using Cons.prems(1)
    by (subst Event_resume_all.simps) (simp add: Let_def)
qed

section \<open>Condv\<close>

text \<open>
  A condition variable with its mutex. \<open>wait\<close> pushes the awaiter and unlocks the mutex; the native spin lock makes
  the queue operations atomic. Agent \<open>n\<close> of the mutex is the \<open>m_mutex_lock_awaiter\<close> of the awaiter \<open>n\<close>.
\<close>

record cvsys =
  cv_que :: qstate
  cv_co :: "node \<Rightarrow> nat"
  cv_posts :: "node option list"
  cv_mtx :: msys

definition CondvAwaiter_await_suspend :: "node \<Rightarrow> nat \<Rightarrow> cvsys \<Rightarrow> cvsys option" where
  "CondvAwaiter_await_suspend n h s =
     (if Mutex_is_locked (cv_mtx s)
      then Some (s\<lparr>cv_que := Queue_push n (cv_que s), cv_co := (cv_co s)(n := h), cv_mtx := Mutex_unlock (cv_mtx s)\<rparr>)
      else None)"

definition Condv_notify_one :: "cvsys \<Rightarrow> cvsys option" where
  "Condv_notify_one s =
     (case Queue_pop (cv_que s) of
        None \<Rightarrow> None
      | Some (None, q) \<Rightarrow> Some (s\<lparr>cv_que := q\<rparr>)
      | Some (Some n, q) \<Rightarrow> Some (s\<lparr>cv_que := ((fst q)(n := None), snd q), cv_posts := cv_posts s @ [Some n]\<rparr>))"

definition Condv_notify_all :: "cvsys \<Rightarrow> cvsys" where
  "Condv_notify_all s =
     (let q = snd (cv_que s); s' = s\<lparr>cv_que := (fst (cv_que s), q\<lparr>bh_next := None, m_tail := None\<rparr>)\<rparr> in
      if bh_next q \<noteq> None then s'\<lparr>cv_posts := cv_posts s @ [bh_next q]\<rparr> else s')"

partial_function (option) Condv_resume_all ::
    "(nat \<Rightarrow> cvsys \<Rightarrow> cvsys) \<Rightarrow> node option \<Rightarrow> cvsys \<Rightarrow> (nat list \<times> cvsys) option" where
  "Condv_resume_all resume p s =
     (case p of None \<Rightarrow> Some ([], s)
      | Some n \<Rightarrow>
          (case MutexLockAwaiter_await_suspend n (cv_mtx s) of (susp, m) \<Rightarrow>
             let s1 = s\<lparr>cv_mtx := m\<rparr> in
             if \<not> susp then
               (let s2 = resume (cv_co s n) s1 in
                Option.bind (Condv_resume_all resume (fst (cv_que s2) n) s2) (\<lambda>(tr, s'). Some (cv_co s n # tr, s')))
             else Condv_resume_all resume (fst (cv_que s1) n) s1))"

definition Condv_on_notify :: "(nat \<Rightarrow> cvsys \<Rightarrow> cvsys) \<Rightarrow> cvsys \<Rightarrow> (nat list \<times> cvsys) option" where
  "Condv_on_notify resume s =
     (case cv_posts s of [] \<Rightarrow> Some ([], s) | p # ps \<Rightarrow> Condv_resume_all resume p (s\<lparr>cv_posts := ps\<rparr>))"

lemma Condv_resume_all_held:
  assumes "lseg (fst (cv_que s)) p ns" "m_lockcore (cv_mtx s) = (Some u, xs)"
  shows "Condv_resume_all resume p s = Some ([], s\<lparr>cv_mtx := (cv_mtx s)\<lparr>m_lockcore := (Some u, xs @ ns)\<rparr>\<rparr>)"
  using assms
proof (induction ns arbitrary: p s xs)
  case Nil
  then have "(cv_mtx s)\<lparr>m_lockcore := (Some u, xs @ [])\<rparr> = cv_mtx s" by simp
  with Nil show ?case by (subst Condv_resume_all.simps) simp
next
  case (Cons n ns)
  let ?s = "s\<lparr>cv_mtx := (cv_mtx s)\<lparr>m_lockcore := (Some u, xs @ [n])\<rparr>\<rparr>"
  have "Condv_resume_all resume (fst (cv_que ?s) n) ?s =
      Some ([], ?s\<lparr>cv_mtx := (cv_mtx ?s)\<lparr>m_lockcore := (Some u, (xs @ [n]) @ ns)\<rparr>\<rparr>)"
    using Cons.prems by (intro Cons.IH) auto
  then show ?case using Cons.prems
    by (subst Condv_resume_all.simps) (simp add: MutexLockAwaiter_await_suspend_def am_try_lock_def)
qed

section \<open>Properties\<close>

text \<open>C11: \<open>LockCore\<close> implements the mutex. From any state in which no call is under way, \<open>try_lock\<close> by a new
  agent and \<open>unlock(true)\<close> by the owner, run without interference, end after at most 7 atomic
  steps in a state that represents what the specification says: the mutex is taken or the agent
  is last in line, and the first in line becomes the owner or the mutex is free.\<close>

theorem LockCore_refines:
  assumes "am_rep s m"
  shows "(fst m \<noteq> Some t \<and> t \<notin> set (snd m) \<longrightarrow> am_rep (lc_call t s) (snd (am_try_lock t m))) \<and>
    (fst m = Some t \<longrightarrow> am_rep (lc_call t s) (snd (am_unlock m)))"
proof -
  obtain o1 xs where m: "m = (o1, xs)" by (cases m)
  show ?thesis
  proof (cases o1)
    case None
    with assms m lc_call_lock_free [of s xs t] show ?thesis by (simp add: am_try_lock_def)
  next
    case (Some u)
    show ?thesis
    proof (cases xs)
      case Nil
      with assms m Some lc_call_lock_busy [of s u "[]" t] lc_call_unlock_empty [of s t]
      show ?thesis by (auto simp: am_try_lock_def am_unlock_def)
    next
      case (Cons h ys)
      with assms m Some lc_call_lock_busy [of s u xs t] lc_call_unlock_next [of s t h ys]
      show ?thesis by (auto simp: am_try_lock_def am_unlock_def)
    qed
  qed
qed

lemma lc_init_rep: "am_rep lc_init (None, [])"
  using Queue_init_rep [of "\<lambda>_. None"] by (simp add: am_rep_def lc_init_def mkflags_def)

lemma LockCore_refines_witness:
  "am_rep (lc_call 3 (lc_call 8 (lc_call 3 lc_init))) (Some 8, [])"
proof -
  have "am_rep (lc_call 3 lc_init) (Some 3, [])"
    using LockCore_refines [OF lc_init_rep, of 3] by (simp add: am_try_lock_def)
  from LockCore_refines [OF this, of 8] have "am_rep (lc_call 8 (lc_call 3 lc_init)) (Some 3, [8])"
    by (simp add: am_try_lock_def)
  from LockCore_refines [OF this, of 3] show ?thesis by (simp add: am_unlock_def)
qed

text \<open>The coroutine mutex never resumes a coroutine without the mutex. From a fresh mutex, after any operations
  in which no coroutine asks for the mutex twice and only an owner that runs unlocks it, no
  assertion fails, and a posted coroutine is the owner.\<close>

theorem Mutex_handover:
  assumes "msys_ok s" "mop_ok op s"
  shows "\<exists>s'. mop_run op s = Some s' \<and> msys_ok s' \<and>
    (\<forall>t. op = MTask \<and> m_posted s = [t] \<longrightarrow> fst (m_lockcore s') = Some t \<and> m_resumed s' = m_resumed s @ [t])"
proof -
  from mop_keeps [OF assms] obtain s' where s': "mop_run op s = Some s'" "msys_ok s'" by blast
  moreover have "fst (m_lockcore s') = Some t \<and> m_resumed s' = m_resumed s @ [t]" if "op = MTask" "m_posted s = [t]" for t
    using s' that assms(1)
    by (auto simp: MutexLockAwaiter_on_callback_def msys_ok_def split: if_splits)
  ultimately show ?thesis by blast
qed

lemma Mutex_handover_witness:
  "\<exists>s'. mop_run MTask \<lparr>m_lockcore = (Some 2, [5]), m_posted = [2], m_resumed = []\<rparr> = Some s' \<and> msys_ok s' \<and>
    (\<forall>t. MTask = MTask \<and> m_posted \<lparr>m_lockcore = (Some 2, [5]), m_posted = [2], m_resumed = []\<rparr> = [t] \<longrightarrow>
       fst (m_lockcore s') = Some t \<and>
       m_resumed s' = m_resumed \<lparr>m_lockcore = (Some 2, [5]), m_posted = [2], m_resumed = []\<rparr> @ [t])"
  by (rule Mutex_handover) (simp_all add: msys_ok_def)

text \<open>\<open>AdoptUniqueLock\<close> unlocks exactly once. Unlocking, moving into a fresh guard and assigning (to itself
  included) keep, for every mutex, the number of guards that own it plus the number of times it was unlocked; and a
  destructor unlocks once if the guard owns its mutex, not at all otherwise.\<close>

theorem AdoptUniqueLock_once:
  assumes "distinct ids" "i \<in> set ids" "j \<in> set ids"
  shows "obligations ids m (AdoptUniqueLock_unlock i s) = obligations ids m s \<and>
    obligations ids m (AdoptUniqueLock_assign i j s) = obligations ids m s \<and>
    (\<not> g_owned (fst s i) \<longrightarrow> obligations ids m (AdoptUniqueLock_move i j s) = obligations ids m s) \<and>
    snd (AdoptUniqueLock_delete i s) = snd s @ (if g_owned (fst s i) then [g_mtx (fst s i)] else [])"
  using unlock_obligations [OF assms(1,2), of m s] assign_obligations [OF assms, of m s]
    move_obligations [OF assms, of s m]
  by (auto simp: AdoptUniqueLock_delete_def split: if_splits)

lemma AdoptUniqueLock_once_witness:
  "obligations [0, 1] (7::nat) (AdoptUniqueLock_assign 0 1 (AdoptUniqueLock_new 1 7 (AdoptUniqueLock_new 0 7 (\<lambda>_. \<lparr>g_mtx = 0, g_owned = False\<rparr>, [])))) = 2"
proof -
  let ?s = "AdoptUniqueLock_new 1 (7::nat) (AdoptUniqueLock_new 0 7 (\<lambda>_. \<lparr>g_mtx = 0, g_owned = False\<rparr>, []))"
  have "obligations [0, 1] 7 (AdoptUniqueLock_assign 0 1 ?s) = obligations [0, 1] 7 ?s"
    using AdoptUniqueLock_once [of "[0, 1]" 0 1 7 ?s] by simp
  then show ?thesis by (simp add: AdoptUniqueLock_new_def obligations_def)
qed

text \<open>\<open>notify_all\<close> resumes the waiting coroutines in the order in which they began to wait, each once, and
  leaves the queue empty, provided a resumed coroutine does not touch the nodes of those that still wait.\<close>

theorem Event_notify_all_fifo:
  assumes "queue_rep (ev_que s) ns" "ev_posts s = []" "keeps_nodes resume (set ns)"
  shows "\<exists>s'. Event_on_notify resume (Event_notify_all s) = Some (map (ev_co s) ns, s') \<and>
    lseg (fst (ev_que (Event_notify_all s))) (bh_next (snd (ev_que (Event_notify_all s)))) []"
proof -
  let ?s = "(Event_notify_all s)\<lparr>ev_posts := []\<rparr>"
  have "lseg (fst (ev_que ?s)) (bh_next (snd (ev_que s))) ns"
    using assms(1) by (simp add: queue_rep_def Event_notify_all_def Let_def)
  from Event_resume_all_list [OF this assms(3) order.refl] assms(2) show ?thesis
    by (auto simp: Event_on_notify_def Event_notify_all_def Let_def)
qed

definition two_waiters :: evsys where
  "two_waiters = EventAwaiter_await_suspend 2 20 (EventAwaiter_await_suspend 1 10 Event_new)"

lemma two_waiters_rep: "queue_rep (ev_que two_waiters) [1, 2]"
proof -
  have "queue_rep (Queue_push 2 (Queue_push 1 (\<lambda>_. None, Queue_init))) (([] @ [1]) @ [2])"
    by (intro Queue_push_rep Queue_init_rep) simp_all
  then show ?thesis by (simp add: two_waiters_def EventAwaiter_await_suspend_def Event_new_def)
qed

lemma two_waiters_simps: "ev_posts two_waiters = []" "ev_co two_waiters 1 = 10" "ev_co two_waiters 2 = 20"
  by (simp_all add: two_waiters_def EventAwaiter_await_suspend_def Event_new_def)

lemma Event_notify_all_fifo_witness:
  "\<exists>s'. Event_on_notify (\<lambda>_ s. s) (Event_notify_all two_waiters) = Some ([10, 20], s')"
  using Event_notify_all_fifo [OF two_waiters_rep two_waiters_simps(1), of "\<lambda>_ s. s"]
  by (auto simp: keeps_nodes_def two_waiters_simps simp del: One_nat_def)

definition wait_again :: "nat \<Rightarrow> evsys \<Rightarrow> evsys" where
  "wait_again c s = (if c = 10 then EventAwaiter_await_suspend 1 10 s else s)"

text \<open>A coroutine that waits again while it is being notified cuts the others off. When coroutine 10,
  resumed by \<open>notify_all\<close>, awaits the event again with the same awaiter, \<open>on_notify\<close> reads the \<open>m_next\<close> that the new
  wait has reset: coroutine 20 is not resumed and is no longer in the queue.\<close>

theorem Event_lost_waiter:
  "\<exists>s'. Event_on_notify wait_again (Event_notify_all two_waiters) = Some ([10], s') \<and>
     lseg (fst (ev_que s')) (bh_next (snd (ev_que s'))) [1]"
  by (simp add: Event_on_notify_def Event_notify_all_def two_waiters_def EventAwaiter_await_suspend_def Event_new_def
      Queue_push_def Queue_init_def Let_def Event_resume_all.simps wait_again_def)

text \<open>In the debug build, an event can be used only once with \<open>notify_all\<close>: it does not reset the counter of
  the queue, so after it the next wait followed by \<open>notify_one\<close> fails the assertion of \<open>Queue::pop\<close>.\<close>

theorem Event_counter_stale:
  assumes "queue_rep (ev_que s) ns" "ns \<noteq> []"
  shows "Event_notify_one (EventAwaiter_await_suspend n c (Event_notify_all s)) = None"
  using assms
  by (cases "ev_que s")
    (auto simp: Event_notify_one_def EventAwaiter_await_suspend_def Event_notify_all_def Queue_push_def Queue_pop_def
      Queue_pop_flag_def queue_rep_def Let_def)

lemma Event_counter_stale_witness:
  "Event_notify_one (EventAwaiter_await_suspend 1 10 (Event_notify_all two_waiters)) = None"
  using Event_counter_stale [OF two_waiters_rep] by simp

text \<open>A notified coroutine of a condition variable gets the mutex before it runs. When \<open>notify_all\<close>'s task runs while
  some coroutine owns the mutex, no coroutine is resumed, and all that waited stand in the line of the mutex, in the
  order in which they began to wait; none is lost.\<close>

theorem Condv_notify_all_lines_up:
  assumes "queue_rep (cv_que s) ns" "ns \<noteq> []" "cv_posts s = []" "m_lockcore (cv_mtx s) = (Some u, xs)"
  shows "\<exists>s'. Condv_on_notify resume (Condv_notify_all s) = Some ([], s') \<and> m_lockcore (cv_mtx s') = (Some u, xs @ ns)"
proof -
  obtain n ns' where ns: "ns = n # ns'" using assms(2) by (cases ns) auto
  let ?s = "(Condv_notify_all s)\<lparr>cv_posts := []\<rparr>"
  have "lseg (fst (cv_que ?s)) (bh_next (snd (cv_que s))) ns" "m_lockcore (cv_mtx ?s) = (Some u, xs)"
    "bh_next (snd (cv_que s)) = Some n"
    using assms ns by (simp_all add: queue_rep_def Condv_notify_all_def Let_def)
  from Condv_resume_all_held [OF this(1,2), of resume] this(3) assms(3) show ?thesis
    by (simp add: Condv_on_notify_def Condv_notify_all_def Let_def)
qed

lemma Condv_notify_all_lines_up_witness:
  "\<exists>s'. Condv_on_notify (\<lambda>_ s. s) (Condv_notify_all
      \<lparr>cv_que = Queue_push 4 (\<lambda>_. None, Queue_init), cv_co = \<lambda>_. 9, cv_posts = [],
       cv_mtx = \<lparr>m_lockcore = (Some 1, [2]), m_posted = [], m_resumed = []\<rparr>\<rparr>) = Some ([], s') \<and>
    m_lockcore (cv_mtx s') = (Some 1, [2] @ [4])"
proof (rule Condv_notify_all_lines_up)
  show "queue_rep (cv_que \<lparr>cv_que = Queue_push 4 (\<lambda>_. None, Queue_init), cv_co = \<lambda>_. 9, cv_posts = [],
       cv_mtx = \<lparr>m_lockcore = (Some 1, [2]), m_posted = [], m_resumed = []\<rparr>\<rparr>) [4]"
    using Queue_push_rep [OF Queue_init_rep, of 4] by simp
qed simp_all

end
