(* ===== verification/TicketLock.thy ===== *)
theory TicketLock
  imports Prelude
begin

text \<open>
  Two pieces of shared-memory code of \<open>libs/tinyasync/include/tinyasync/basics.h\<close> as interleavings of
  atomic steps: \<open>TicketSpinLock\<close> and the double-checked \<open>initialize_once\<close>. The
  interleaving is sequentially consistent; the weaker orders the code asks for (acquire,
  release, relaxed) are not modelled.
\<close>

section \<open>TicketSpinLock\<close>

text \<open>
  Where a thread is: outside, in the loop of \<open>lock\<close> with its ticket, after \<open>lock\<close> returned, in \<open>unlock\<close>
  between the load and the store of the head.
\<close>

datatype tpc = Out | Spin "64 word" | Crit | Unl "64 word"

record ticket_lock =
  head_no :: "64 word"    \<comment> \<open>m_head_ticket_no\<close>
  tail_no :: "64 word"    \<comment> \<open>m_tail_ticket_no\<close>
  tpcs :: "nat \<Rightarrow> tpc"

definition ticket_init :: ticket_lock where
  "ticket_init = \<lparr>head_no = 0, tail_no = 0, tpcs = \<lambda>_. Out\<rparr>"

text \<open>The step a thread can take from where it is; a failing test of the loop changes nothing.\<close>

definition ticket_step :: "nat \<Rightarrow> ticket_lock \<Rightarrow> ticket_lock" where
  "ticket_step t s =
     (case tpcs s t of
        Out \<Rightarrow> s\<lparr>tail_no := tail_no s + 1, tpcs := (tpcs s)(t := Spin (tail_no s))\<rparr>
      | Spin k \<Rightarrow> if head_no s \<noteq> k then s else s\<lparr>tpcs := (tpcs s)(t := Crit)\<rparr>
      | Crit \<Rightarrow> s\<lparr>tpcs := (tpcs s)(t := Unl (head_no s + 1))\<rparr>
      | Unl k \<Rightarrow> s\<lparr>head_no := k, tpcs := (tpcs s)(t := Out)\<rparr>)"

inductive ticket_reach :: "nat \<Rightarrow> ticket_lock \<Rightarrow> bool" for N where
  init: "ticket_reach N ticket_init"
| step: "ticket_reach N s \<Longrightarrow> t < N \<Longrightarrow> ticket_reach N (ticket_step t s)"

text \<open>
  The threads that have a ticket, in the order of their tickets: only the first may be inside.
\<close>

definition line_inv :: "nat \<Rightarrow> nat list \<Rightarrow> ticket_lock \<Rightarrow> bool" where
  "line_inv N ws s \<longleftrightarrow> distinct ws \<and> set ws = {t. tpcs s t \<noteq> Out} \<and> set ws \<subseteq> {..<N} \<and>
     tail_no s = head_no s + of_nat (length ws) \<and>
     (\<forall>i<length ws. tpcs s (ws ! i) = Spin (head_no s + of_nat i) \<or>
        i = 0 \<and> (tpcs s (ws ! i) = Crit \<or> tpcs s (ws ! i) = Unl (head_no s + 1)))"

lemma line_length: "line_inv N ws s \<Longrightarrow> length ws \<le> N"
  by (metis card_lessThan card_mono distinct_card finite_lessThan line_inv_def)

text \<open>Tickets of waiting threads are distinct although they wrap around.\<close>

lemma ticket_unique:
  assumes "i < 2 ^ 64" "j < (2::nat) ^ 64" "(h :: 64 word) + of_nat i = h + of_nat j"
  shows "i = j"
proof -
  have "(of_nat i :: 64 word) = of_nat j" using assms(3) by simp
  then have "unat (of_nat i :: 64 word) = unat (of_nat j :: 64 word)" by (rule arg_cong)
  with assms(1,2) show ?thesis by (simp add: unsigned_of_nat take_bit_nat_eq_self)
qed

definition next_line :: "nat \<Rightarrow> ticket_lock \<Rightarrow> nat list \<Rightarrow> nat list" where
  "next_line t s ws = (case tpcs s t of Out \<Rightarrow> ws @ [t] | Unl _ \<Rightarrow> tl ws | _ \<Rightarrow> ws)"

lemma line_first:
  assumes "line_inv N ws s" "tpcs s t = Crit \<or> (\<exists>k. tpcs s t = Unl k)"
  shows "ws \<noteq> [] \<and> t = hd ws"
proof -
  from assms have "t \<in> set ws" by (auto simp: line_inv_def)
  then obtain i where i: "i < length ws" "ws ! i = t" by (auto simp: in_set_conv_nth)
  with assms have "i = 0" by (auto simp: line_inv_def)
  with i show ?thesis by (cases ws) auto
qed

lemma line_step:
  assumes inv: "line_inv N ws s" and t: "t < N" and N: "N < 2 ^ 64"
  shows "line_inv N (next_line t s ws) (ticket_step t s)"
proof (cases "tpcs s t")
  case Out
  then have "t \<notin> set ws" using inv by (auto simp: line_inv_def)
  with Out inv t show ?thesis
    by (auto simp: line_inv_def next_line_def ticket_step_def nth_append less_Suc_eq)
next
  case (Spin k)
  show ?thesis
  proof (cases "head_no s = k")
    case False
    with Spin inv show ?thesis by (simp add: next_line_def ticket_step_def)
  next
    case True
    have "t \<in> set ws" using inv Spin by (auto simp: line_inv_def)
    then obtain i where i: "i < length ws" "ws ! i = t" by (auto simp: in_set_conv_nth)
    with inv Spin have "k = head_no s + of_nat i" by (auto simp: line_inv_def)
    with True have "head_no s + of_nat 0 = head_no s + of_nat i" by simp
    moreover have "i < 2 ^ 64" using i(1) line_length [OF inv] N by linarith
    ultimately have "i = 0" using ticket_unique [of 0 i "head_no s"] by simp
    with i have t0: "ws ! 0 = t" "ws \<noteq> []" by auto
    have "\<forall>j<length ws. j \<noteq> 0 \<longrightarrow> ws ! j \<noteq> t"
      using inv t0 by (metis line_inv_def length_greater_0_conv nth_eq_iff_index_eq)
    with True Spin inv t0 show ?thesis
      by (auto simp: line_inv_def next_line_def ticket_step_def)
  qed
next
  case Crit
  from line_first [OF inv] Crit obtain ws' where ws: "ws = t # ws'" by (cases ws) auto
  with inv have "t \<notin> set ws'" by (simp add: line_inv_def)
  then have nt: "i < length ws' \<Longrightarrow> ws' ! i \<noteq> t" for i by auto
  show ?thesis unfolding line_inv_def
  proof (intro conjI)
    show "\<forall>i<length (next_line t s ws). tpcs (ticket_step t s) (next_line t s ws ! i) = Spin (head_no (ticket_step t s) + of_nat i) \<or>
       i = 0 \<and> (tpcs (ticket_step t s) (next_line t s ws ! i) = Crit \<or>
       tpcs (ticket_step t s) (next_line t s ws ! i) = Unl (head_no (ticket_step t s) + 1))"
      using inv Crit nt by (auto simp: ws line_inv_def next_line_def ticket_step_def nth_Cons split: nat.splits)
  qed (use inv Crit ws in \<open>auto simp: line_inv_def next_line_def ticket_step_def\<close>)
next
  case (Unl k)
  from line_first [OF inv] Unl obtain ws' where ws: "ws = t # ws'" by (cases ws) auto
  from inv Unl have k: "k = head_no s + 1" by (auto simp: ws line_inv_def)
  have nt: "t \<notin> set ws'" using inv ws by (simp add: line_inv_def)
  have tick: "tpcs s (ws' ! i) = Spin (head_no s + 1 + of_nat i)" if "i < length ws'" for i
  proof -
    have "\<forall>i<length ws. tpcs s (ws ! i) = Spin (head_no s + of_nat i) \<or>
        i = 0 \<and> (tpcs s (ws ! i) = Crit \<or> tpcs s (ws ! i) = Unl (head_no s + 1))"
      using inv by (simp add: line_inv_def)
    from this [rule_format, of "Suc i"] that ws show ?thesis by (simp add: add.assoc)
  qed
  have nt': "i < length ws' \<Longrightarrow> ws' ! i \<noteq> t" for i using nt by auto
  show ?thesis unfolding line_inv_def
  proof (intro conjI)
    show "\<forall>i<length (next_line t s ws). tpcs (ticket_step t s) (next_line t s ws ! i) = Spin (head_no (ticket_step t s) + of_nat i) \<or>
       i = 0 \<and> (tpcs (ticket_step t s) (next_line t s ws ! i) = Crit \<or>
       tpcs (ticket_step t s) (next_line t s ws ! i) = Unl (head_no (ticket_step t s) + 1))"
      using Unl tick nt' by (auto simp: ws k next_line_def ticket_step_def)
  qed (use inv Unl ws k in \<open>auto simp: line_inv_def next_line_def ticket_step_def\<close>)
qed

lemma reach_line:
  assumes "ticket_reach N s" "N < 2 ^ 64"
  shows "\<exists>ws. line_inv N ws s"
  using assms(1)
proof induction
  case init
  have "line_inv N [] ticket_init" by (simp add: line_inv_def ticket_init_def)
  then show ?case ..
next
  case (step s t)
  then show ?case using line_step [OF _ _ assms(2)] by blast
qed

text \<open>C12: mutual exclusion. With fewer than \<open>2^64\<close> threads, whatever the interleaving and however often the
  ticket counters wrap around, two threads are never between the return of \<open>lock\<close> and the end of
  \<open>unlock\<close> at once; and whenever threads wait and none is inside, one of them can enter.\<close>

theorem ticket_mutex:
  assumes "ticket_reach N s" "N < 2 ^ 64"
  shows "(\<forall>t u. (tpcs s t = Crit \<or> (\<exists>k. tpcs s t = Unl k)) \<and> (tpcs s u = Crit \<or> (\<exists>k. tpcs s u = Unl k)) \<longrightarrow> t = u) \<and>
    ((\<exists>t k. tpcs s t = Spin k) \<and> (\<forall>u. tpcs s u \<noteq> Crit \<and> (\<forall>k. tpcs s u \<noteq> Unl k)) \<longrightarrow>
      (\<exists>t. tpcs (ticket_step t s) t = Crit))"
proof -
  from reach_line [OF assms] obtain ws where inv: "line_inv N ws s" by blast
  show ?thesis
  proof (intro conjI allI impI)
    fix t u assume "(tpcs s t = Crit \<or> (\<exists>k. tpcs s t = Unl k)) \<and> (tpcs s u = Crit \<or> (\<exists>k. tpcs s u = Unl k))"
    then show "t = u" using line_first [OF inv, of t] line_first [OF inv, of u] by auto
  next
    assume *: "(\<exists>t k. tpcs s t = Spin k) \<and> (\<forall>u. tpcs s u \<noteq> Crit \<and> (\<forall>k. tpcs s u \<noteq> Unl k))"
    then have "ws \<noteq> []" using inv by (auto simp: line_inv_def)
    with inv * have "tpcs s (ws ! 0) = Spin (head_no s)" by (auto simp: line_inv_def)
    then have "tpcs (ticket_step (ws ! 0) s) (ws ! 0) = Crit" by (simp add: ticket_step_def)
    then show "\<exists>t. tpcs (ticket_step t s) t = Crit" ..
  qed
qed

lemma ticket_mutex_witness:
  "\<exists>t. tpcs (ticket_step t (ticket_step 4 (ticket_step 7 ticket_init))) t = Crit"
proof -
  let ?s = "ticket_step 4 (ticket_step 7 ticket_init)"
  have "ticket_reach 8 ?s" by (intro ticket_reach.intros) simp_all
  moreover have "tpcs ?s 7 = Spin 0" by (simp add: ticket_step_def ticket_init_def)
  moreover have "\<forall>u. tpcs ?s u \<noteq> Crit \<and> (\<forall>k. tpcs ?s u \<noteq> Unl k)" by (simp add: ticket_step_def ticket_init_def)
  ultimately show ?thesis using ticket_mutex [of 8 ?s] by auto
qed

text \<open>C13: first come, first served. There is a line of the threads that have asked for the lock, in the order in
  which they asked, and only its first thread can be inside: a thread that asks joins at the end, the
  end of \<open>unlock\<close> removes the first, and no other step changes it.\<close>

theorem ticket_fifo:
  assumes "ticket_reach N s" "N < 2 ^ 64"
  shows "\<exists>ws. line_inv N ws s \<and>
    (\<forall>t<N. line_inv N (next_line t s ws) (ticket_step t s)) \<and>
    (\<forall>t. tpcs s t = Crit \<longrightarrow> ws \<noteq> [] \<and> t = hd ws)"
proof -
  from reach_line [OF assms] obtain ws where inv: "line_inv N ws s" by blast
  with line_step [OF inv _ assms(2)] line_first [OF inv] show ?thesis by blast
qed

lemma ticket_fifo_witness:
  "\<exists>ws. line_inv 8 ws (ticket_step 7 ticket_init) \<and>
    (\<forall>t<8. line_inv 8 (next_line t (ticket_step 7 ticket_init) ws) (ticket_step t (ticket_step 7 ticket_init))) \<and>
    (\<forall>t. tpcs (ticket_step 7 ticket_init) t = Crit \<longrightarrow> ws \<noteq> [] \<and> t = hd ws)"
  by (rule ticket_fifo) (intro ticket_reach.intros, simp_all)

section \<open>initialize_once\<close>

text \<open>
  \<open>initialize_once\<close> and \<open>do_initialize_once\<close>: the atomic, the mutex, how often \<open>func\<close> was called.
  The result of the \<open>n\<close>-th call of \<open>func\<close> is \<open>f n\<close>.
\<close>

datatype 'a ipc =
    IStart                 \<comment> \<open>before the first load\<close>
  | ILock                  \<comment> \<open>read the flag, about to lock the mutex\<close>
  | ILoad                  \<comment> \<open>holds the mutex, before the second load\<close>
  | IFunc                  \<comment> \<open>holds the mutex, about to call func\<close>
  | IStore 'a              \<comment> \<open>holds the mutex, about to store func's result\<close>
  | IUnlock 'a             \<comment> \<open>holds the mutex, about to release it and return\<close>
  | IDone 'a               \<comment> \<open>returned\<close>

record 'a once =
  atom :: 'a
  mtx :: "nat option"
  calls :: nat
  ipcs :: "nat \<Rightarrow> 'a ipc"

definition once_init :: "'a \<Rightarrow> 'a once" where
  "once_init flag = \<lparr>atom = flag, mtx = None, calls = 0, ipcs = \<lambda>_. IStart\<rparr>"

definition once_step :: "'a \<Rightarrow> (nat \<Rightarrow> 'a) \<Rightarrow> nat \<Rightarrow> 'a once \<Rightarrow> 'a once" where
  "once_step flag f t s =
     (let goto = (\<lambda>p. (ipcs s)(t := p)) in
      case ipcs s t of
        IStart \<Rightarrow> s\<lparr>ipcs := goto (if atom s = flag then ILock else IDone (atom s))\<rparr>
      | ILock \<Rightarrow> if mtx s \<noteq> None then s else s\<lparr>mtx := Some t, ipcs := goto ILoad\<rparr>
      | ILoad \<Rightarrow> s\<lparr>ipcs := goto (if atom s = flag then IFunc else IUnlock (atom s))\<rparr>
      | IFunc \<Rightarrow> s\<lparr>calls := calls s + 1, ipcs := goto (IStore (f (calls s)))\<rparr>
      | IStore v \<Rightarrow> s\<lparr>atom := v, ipcs := goto (IUnlock v)\<rparr>
      | IUnlock v \<Rightarrow> s\<lparr>mtx := None, ipcs := goto (IDone v)\<rparr>
      | IDone v \<Rightarrow> s)"

inductive once_reach :: "'a \<Rightarrow> (nat \<Rightarrow> 'a) \<Rightarrow> 'a once \<Rightarrow> bool" for flag f where
  init: "once_reach flag f (once_init flag)"
| step: "once_reach flag f s \<Longrightarrow> once_reach flag f (once_step flag f t s)"

definition inside :: "'a ipc \<Rightarrow> bool" where
  "inside p \<longleftrightarrow> (case p of ILoad \<Rightarrow> True | IFunc \<Rightarrow> True | IStore _ \<Rightarrow> True | IUnlock _ \<Rightarrow> True | _ \<Rightarrow> False)"

definition pc_inv :: "'a \<Rightarrow> (nat \<Rightarrow> 'a) \<Rightarrow> 'a \<Rightarrow> nat \<Rightarrow> 'a ipc \<Rightarrow> bool" where
  "pc_inv flag f a c p \<longleftrightarrow>
     (case p of IFunc \<Rightarrow> a = flag \<and> c = 0 | IStore v \<Rightarrow> v = f 0 \<and> a = flag \<and> c = 1
      | IUnlock v \<Rightarrow> v = f 0 \<and> a = f 0 \<and> c = 1 | IDone v \<Rightarrow> v = f 0 \<and> a = f 0 \<and> c = 1 | _ \<Rightarrow> True)"

definition once_inv :: "'a \<Rightarrow> (nat \<Rightarrow> 'a) \<Rightarrow> 'a once \<Rightarrow> bool" where
  "once_inv flag f s \<longleftrightarrow>
     (\<forall>t. inside (ipcs s t) \<longleftrightarrow> mtx s = Some t) \<and>
     (\<forall>t. pc_inv flag f (atom s) (calls s) (ipcs s t)) \<and>
     (atom s = flag \<and> calls s = 0 \<or> atom s = flag \<and> calls s = 1 \<and> (\<exists>t. ipcs s t = IStore (f 0)) \<or>
      atom s = f 0 \<and> calls s = 1)"

lemma inside_simps [simp]: "\<not> inside IStart" "\<not> inside ILock" "inside ILoad" "inside IFunc" "inside (IStore v)"
  "inside (IUnlock v)" "\<not> inside (IDone v)"
  by (simp_all add: inside_def)

lemma once_inv_upd:
  assumes "\<And>u. u \<noteq> t \<Longrightarrow> inside (pc u) \<longleftrightarrow> m = Some u" "inside p \<longleftrightarrow> m = Some t"
    "\<And>u. u \<noteq> t \<Longrightarrow> pc_inv flag f a c (pc u)" "pc_inv flag f a c p"
    "a = flag \<and> c = 0 \<or> a = flag \<and> c = 1 \<and> p = IStore (f 0) \<or> a = f 0 \<and> c = 1"
  shows "once_inv flag f \<lparr>atom = a, mtx = m, calls = c, ipcs = pc(t := p)\<rparr>"
  unfolding once_inv_def
proof (intro conjI allI)
  show "inside (ipcs \<lparr>atom = a, mtx = m, calls = c, ipcs = pc(t := p)\<rparr> u) =
    (mtx \<lparr>atom = a, mtx = m, calls = c, ipcs = pc(t := p)\<rparr> = Some u)" for u
    using assms(1,2) by (cases "u = t") simp_all
  show "pc_inv flag f (atom \<lparr>atom = a, mtx = m, calls = c, ipcs = pc(t := p)\<rparr>)
     (calls \<lparr>atom = a, mtx = m, calls = c, ipcs = pc(t := p)\<rparr>)
     (ipcs \<lparr>atom = a, mtx = m, calls = c, ipcs = pc(t := p)\<rparr> u)" for u
    using assms(3,4) by (cases "u = t") simp_all
qed (use assms(5) in auto)

lemma once_step_inv:
  assumes inv: "once_inv flag f s" and f0: "f 0 \<noteq> flag"
  shows "once_inv flag f (once_step flag f t s)"
proof -
  have I: "\<And>u. inside (ipcs s u) \<longleftrightarrow> mtx s = Some u" and P: "\<And>u. pc_inv flag f (atom s) (calls s) (ipcs s u)"
    and S: "atom s = flag \<and> calls s = 0 \<or> atom s = flag \<and> calls s = 1 \<and> (\<exists>t. ipcs s t = IStore (f 0)) \<or>
      atom s = f 0 \<and> calls s = 1"
    using inv by (auto simp: once_inv_def)
  have other: "\<not> inside (ipcs s u)" if "inside (ipcs s t)" "u \<noteq> t" for u
    using I that by (metis option.inject)
  have same: "pc_inv flag f a c p" if "\<not> inside p" "pc_inv flag f (atom s) (calls s) p"
    "\<And>v. p = IDone v \<Longrightarrow> a = f 0 \<and> c = 1" for a c p
    using that by (cases p) (auto simp: pc_inv_def)
  have keep: "once_inv flag f (s\<lparr>ipcs := (ipcs s)(t := p)\<rparr>)"
    if "inside p = inside (ipcs s t)" "pc_inv flag f (atom s) (calls s) p" "\<And>v. ipcs s t \<noteq> IStore v" for p
    using that I P S by (simp add: once_inv_def) metis
  show ?thesis
  proof (cases "ipcs s t")
    case IStart
    let ?p = "if atom s = flag then ILock else IDone (atom s)"
    have "once_step flag f t s = s\<lparr>ipcs := (ipcs s)(t := ?p)\<rparr>"
      using IStart by (simp add: once_step_def Let_def)
    moreover have "pc_inv flag f (atom s) (calls s) ?p" using S by (auto simp: pc_inv_def)
    ultimately show ?thesis using keep [of ?p] IStart by simp
  next
    case ILock
    show ?thesis
    proof (cases "mtx s")
      case None
      then have "\<not> inside (ipcs s u)" for u using I by simp
      then have "ipcs s u \<noteq> IStore v" for u v by (metis inside_simps(5))
      with ILock None I P S show ?thesis
        by (simp add: once_inv_def once_step_def Let_def pc_inv_def)
    next
      case (Some u)
      with ILock inv show ?thesis by (simp add: once_step_def Let_def)
    qed
  next
    case ILoad
    then have "ipcs s u \<noteq> IStore v" for u v using other [of u] by (cases "u = t") auto
    then have S': "atom s = flag \<and> calls s = 0 \<or> atom s = f 0 \<and> calls s = 1" using S by blast
    let ?p = "if atom s = flag then IFunc else IUnlock (atom s)"
    have "once_step flag f t s = s\<lparr>ipcs := (ipcs s)(t := ?p)\<rparr>"
      using ILoad by (simp add: once_step_def Let_def)
    moreover have "pc_inv flag f (atom s) (calls s) ?p" using S' f0 by (auto simp: pc_inv_def)
    ultimately show ?thesis using keep [of ?p] ILoad by simp
  next
    case IFunc
    then have ac: "atom s = flag" "calls s = 0" using P [of t] by (auto simp: pc_inv_def)
    have o: "pc_inv flag f flag 1 (ipcs s u)" if "u \<noteq> t" for u
    proof (rule same)
      show "\<not> inside (ipcs s u)" using other [OF _ that] IFunc by simp
      show "flag = f 0 \<and> (1::nat) = 1" if "ipcs s u = IDone v" for v
        using P [of u] ac(2) unfolding that by (simp add: pc_inv_def)
    qed (rule P)
    have "once_step flag f t s = \<lparr>atom = flag, mtx = mtx s, calls = 1, ipcs = (ipcs s)(t := IStore (f 0))\<rparr>"
      using ac IFunc by (simp add: once_step_def Let_def)
    moreover have "pc_inv flag f flag 1 (IStore (f 0))" by (simp add: pc_inv_def)
    ultimately show ?thesis
      using I [of t] IFunc by (simp only:) (rule once_inv_upd, simp_all add: I o del: One_nat_def)
  next
    case (IStore v)
    then have v: "v = f 0" "calls s = 1" using P [of t] by (auto simp: pc_inv_def)
    have o: "pc_inv flag f (f 0) 1 (ipcs s u)" if "u \<noteq> t" for u
    proof (rule same)
      show "\<not> inside (ipcs s u)" using other [OF _ that] IStore by simp
    qed (simp_all add: P)
    have "once_step flag f t s = \<lparr>atom = f 0, mtx = mtx s, calls = 1, ipcs = (ipcs s)(t := IUnlock (f 0))\<rparr>"
      using v IStore by (simp add: once_step_def Let_def)
    moreover have "pc_inv flag f (f 0) 1 (IUnlock (f 0))" by (simp add: pc_inv_def)
    ultimately show ?thesis
      using I [of t] IStore by (simp only:) (rule once_inv_upd, simp_all add: I o del: One_nat_def)
  next
    case (IUnlock v)
    then have v: "v = f 0" "calls s = 1" "atom s = f 0" using P [of t] by (auto simp: pc_inv_def)
    have o: "\<not> inside (ipcs s u)" if "u \<noteq> t" for u using other [of u] IUnlock that by simp
    have "once_step flag f t s = \<lparr>atom = f 0, mtx = None, calls = 1, ipcs = (ipcs s)(t := IDone v)\<rparr>"
      using IUnlock v by (simp add: once_step_def Let_def)
    moreover have "pc_inv flag f (f 0) 1 (IDone v)" using v by (simp add: pc_inv_def)
    moreover have "pc_inv flag f (f 0) 1 (ipcs s u)" for u using P [of u] v by simp
    ultimately show ?thesis by (simp only:) (rule once_inv_upd, simp_all add: o del: One_nat_def)
  next
    case (IDone v)
    then show ?thesis using inv by (simp add: once_step_def Let_def)
  qed
qed

lemma once_reach_inv: "once_reach flag f s \<Longrightarrow> f 0 \<noteq> flag \<Longrightarrow> once_inv flag f s"
proof (induction rule: once_reach.induct)
  case init
  then show ?case by (simp add: once_inv_def once_init_def pc_inv_def)
next
  case (step s t)
  then show ?case by (simp add: once_step_inv)
qed

text \<open>Initialisation happens once. If \<open>func\<close> does not return the flag that means \<open>uninitialized\<close>, then in every
  interleaving of any number of threads \<open>func\<close> is called at most once, and every thread that
  returns returns what this call returned, which is then the value of the atomic.\<close>

theorem initialize_once_once:
  assumes "once_reach flag f s" "f 0 \<noteq> flag"
  shows "calls s \<le> 1 \<and> (\<forall>t v. ipcs s t = IDone v \<longrightarrow> v = f 0 \<and> atom s = f 0 \<and> calls s = 1)"
proof -
  from once_reach_inv [OF assms] have "calls s \<le> 1" and P: "\<And>t. pc_inv flag f (atom s) (calls s) (ipcs s t)"
    by (auto simp: once_inv_def)
  moreover have "v = f 0 \<and> atom s = f 0 \<and> calls s = 1" if "ipcs s t = IDone v" for t v
    using P [of t] that by (simp add: pc_inv_def)
  ultimately show ?thesis by blast
qed

text \<open>Two threads that interleave on the way to the mutex.\<close>

definition once_example :: "nat once" where
  "once_example = fold (once_step 0 (\<lambda>_. 5)) [1, 2, 1, 2, 1, 1, 1, 1, 2, 2, 2] (once_init 0)"

lemma initialize_once_once_witness:
  "ipcs once_example 1 = IDone 5 \<and> ipcs once_example 2 = IDone 5 \<and> calls once_example \<le> 1"
proof -
  have "once_reach 0 (\<lambda>_. 5) once_example"
    unfolding once_example_def fold_simps id_apply comp_def by (intro once_reach.intros)
  moreover have "ipcs once_example 1 = IDone 5 \<and> ipcs once_example 2 = IDone 5"
    by (simp add: once_example_def once_step_def once_init_def)
  ultimately show ?thesis using initialize_once_once [of 0 "\<lambda>_. 5" once_example] by simp
qed

end
