(* ===== verification/FixPool.thy ===== *)
theory FixPool
  imports TaQueue
begin

text \<open>
  The pool of fixed-size blocks of \<open>libs/tinyasync/include/tinyasync/memory_pool.h\<close> (\<open>Pool\<close>, and
  \<open>FixPoolResource\<close> on top of it). Addresses are numbers; the heap gives the \<open>m_next\<close> of the free
  blocks. \<open>malloc\<close> is not part of the code: its answer is an argument of the operation, and what is used of
  it is that a new area does not overlap those it has given out (\<open>fresh_area\<close>).
\<close>

record pool =
  m_block_size :: nat
  m_block_per_chunk :: nat
  m_head :: "node option"
  m_chunks :: "node list"

type_synonym pstate = "next_heap \<times> pool"

definition Pool_initialize :: "nat \<Rightarrow> nat \<Rightarrow> pool \<Rightarrow> pool" where
  "Pool_initialize block_size block_per_chunk p =
     p\<lparr>m_block_size := max 8 block_size, m_block_per_chunk := block_per_chunk, m_head := None\<rparr>"

definition Pool_new :: "nat \<Rightarrow> nat \<Rightarrow> pool" where
  "Pool_new block_size block_per_chunk =
     Pool_initialize block_size block_per_chunk \<lparr>m_block_size = 0, m_block_per_chunk = 0, m_head = None, m_chunks = []\<rparr>"

text \<open>The loop that links the blocks of a new chunk; \<open>i\<close> counts up to \<open>block_per_chunk - 1\<close>.\<close>

fun link_blocks :: "node \<Rightarrow> nat \<Rightarrow> nat \<Rightarrow> nat \<Rightarrow> next_heap \<Rightarrow> next_heap" where
  "link_blocks h bs i 0 hp = hp"
| "link_blocks h bs i (Suc n) hp = link_blocks h bs (Suc i) n (hp(h + bs * i := Some (h + bs * (i + 1))))"

definition Pool_add_chunk :: "node \<Rightarrow> pstate \<Rightarrow> pstate" where
  "Pool_add_chunk h s =
     (let p = snd s; bs = m_block_size p; n = m_block_per_chunk p;
          hp = link_blocks h bs 0 (n - 1) (fst s)
      in (hp(h + bs * (n - 1) := None), p\<lparr>m_chunks := m_chunks p @ [h], m_head := Some h\<rparr>))"

text \<open>\<open>malloc memsize\<close> is the answer of the system, \<open>None\<close> for \<open>nullptr\<close>.\<close>

definition Pool_alloc :: "(nat \<Rightarrow> node option) \<Rightarrow> pstate \<Rightarrow> node option \<times> pstate" where
  "Pool_alloc malloc s =
     (let take = (\<lambda>(hp, p). case m_head p of None \<Rightarrow> (None, (hp, p)) | Some n \<Rightarrow> (Some n, (hp, p\<lparr>m_head := hp n\<rparr>))) in
      case m_head (snd s) of
        Some n \<Rightarrow> take s
      | None \<Rightarrow>
          let memsize = m_block_size (snd s) * m_block_per_chunk (snd s) in
          if memsize = 0 then (None, s)
          else (case malloc memsize of None \<Rightarrow> (None, s) | Some h \<Rightarrow> take (Pool_add_chunk h s)))"

definition Pool_free :: "node \<Rightarrow> pstate \<Rightarrow> pstate" where
  "Pool_free n s = ((fst s)(n := m_head (snd s)), (snd s)\<lparr>m_head := Some n\<rparr>)"

text \<open>Moves. The second component is what is left in the source.\<close>

definition Pool_move :: "pool \<Rightarrow> pool \<times> pool" where
  "Pool_move r = (r, r\<lparr>m_block_size := 0, m_block_per_chunk := 0, m_head := None, m_chunks := []\<rparr>)"

definition Pool_swap :: "pool \<Rightarrow> pool \<Rightarrow> pool \<times> pool" where
  "Pool_swap a r = (r, a)"

text \<open>The destructor returns the areas it gives back to the system.\<close>

definition Pool_delete :: "pool \<Rightarrow> node list" where
  "Pool_delete p = m_chunks p"

text \<open>\<open>operator=(Pool &&)\<close>: a local pool is move-constructed from \<open>r\<close> and destroyed at the end of the
  function; \<open>*this\<close> is not assigned. The result: \<open>*this\<close>, \<open>r\<close>, the areas that were freed.\<close>

definition Pool_assign :: "pool \<Rightarrow> pool \<Rightarrow> pool \<times> pool \<times> node list" where
  "Pool_assign this r = (case Pool_move r of (local, r') \<Rightarrow> (this, r', Pool_delete local))"

text \<open>\<open>FixPoolResource\<close>: 100 blocks per chunk; size and alignment of a request are ignored.\<close>

definition FixPoolResource_new :: "nat \<Rightarrow> pool" where
  "FixPoolResource_new block_size = Pool_new block_size 100"

definition FixPoolResource_do_allocate :: "(nat \<Rightarrow> node option) \<Rightarrow> nat \<Rightarrow> nat \<Rightarrow> pstate \<Rightarrow> node option \<times> pstate" where
  "FixPoolResource_do_allocate malloc bytes alignment s = Pool_alloc malloc s"

definition FixPoolResource_do_deallocate :: "node \<Rightarrow> nat \<Rightarrow> nat \<Rightarrow> pstate \<Rightarrow> pstate" where
  "FixPoolResource_do_deallocate p bytes alignment s = Pool_free p s"

section \<open>The invariant\<close>

definition chunk_blocks :: "pool \<Rightarrow> node \<Rightarrow> node list" where
  "chunk_blocks p c = map (\<lambda>i. c + m_block_size p * i) [0..<m_block_per_chunk p]"

definition memsize :: "pool \<Rightarrow> nat" where
  "memsize p = m_block_size p * m_block_per_chunk p"

definition apart :: "nat \<Rightarrow> node \<Rightarrow> node \<Rightarrow> bool" where
  "apart n a b \<longleftrightarrow> a + n \<le> b \<or> b + n \<le> a"

text \<open>
  \<open>pool_rep s fs as\<close>: \<open>fs\<close> is the free list, \<open>as\<close> the set of blocks in use; together they are the blocks of the
  chunks, and chunks do not overlap.
\<close>

definition pool_rep :: "pstate \<Rightarrow> node list \<Rightarrow> node set \<Rightarrow> bool" where
  "pool_rep s fs us \<longleftrightarrow> (let p = snd s in
     0 < m_block_size p \<and> lseg (fst s) (m_head p) fs \<and> distinct fs \<and> set fs \<inter> us = {} \<and>
     set fs \<union> us = (\<Union>c\<in>set (m_chunks p). set (chunk_blocks p c)) \<and>
     (\<forall>i<length (m_chunks p). \<forall>j<i. apart (memsize p) (m_chunks p ! i) (m_chunks p ! j)))"

definition fresh_area :: "pool \<Rightarrow> node \<Rightarrow> bool" where
  "fresh_area p h \<longleftrightarrow> (\<forall>c\<in>set (m_chunks p). apart (memsize p) h c)"

lemma link_blocks_other:
  "(\<And>j. i \<le> j \<Longrightarrow> j < i + n \<Longrightarrow> x \<noteq> h + bs * j) \<Longrightarrow> link_blocks h bs i n hp x = hp x"
proof (induction n arbitrary: i hp)
  case (Suc n)
  have "link_blocks h bs (Suc i) n (hp(h + bs * i := Some (h + bs * (i + 1)))) x
      = (hp(h + bs * i := Some (h + bs * (i + 1)))) x"
    by (rule Suc.IH) (use Suc.prems in auto)
  moreover have "x \<noteq> h + bs * i" using Suc.prems by simp
  ultimately show ?case by simp
qed simp

lemma link_blocks_at:
  assumes "0 < bs" "i \<le> j" "j < i + n"
  shows "link_blocks h bs i n hp (h + bs * j) = Some (h + bs * Suc j)"
  using assms(2,3)
proof (induction n arbitrary: i hp)
  case (Suc n)
  show ?case
  proof (cases "j = i")
    case True
    with assms(1) have "link_blocks h bs (Suc i) n (hp(h + bs * i := Some (h + bs * (i + 1)))) (h + bs * j)
        = (hp(h + bs * i := Some (h + bs * (i + 1)))) (h + bs * j)"
      by (intro link_blocks_other) auto
    with True show ?thesis by simp
  next
    case False
    with Suc show ?thesis by simp
  qed
qed simp

lemma lseg_chunk:
  assumes "0 < bs" "i \<le> n"
    "\<And>j. i \<le> j \<Longrightarrow> j < n \<Longrightarrow> hp (h + bs * j) = (if Suc j = n then None else Some (h + bs * Suc j))"
  shows "lseg hp (if i = n then None else Some (h + bs * i)) (map (\<lambda>j. h + bs * j) [i..<n])"
  using assms(2,3)
proof (induction "n - i" arbitrary: i)
  case (Suc k)
  then have "i < n" by simp
  moreover have "lseg hp (if Suc i = n then None else Some (h + bs * Suc i)) (map (\<lambda>j. h + bs * j) [Suc i..<n])"
    using Suc by (intro Suc.hyps(1)) auto
  ultimately show ?case using Suc.prems by (simp add: upt_conv_Cons)
qed simp

lemma chunk_blocks_distinct: "0 < m_block_size p \<Longrightarrow> distinct (chunk_blocks p c)"
  by (auto simp: chunk_blocks_def distinct_map inj_on_def)

text \<open>Two different blocks do not overlap.\<close>

lemma same_chunk_apart:
  assumes "i \<noteq> j" shows "apart bs (c + bs * i) (c + bs * (j::nat))"
proof -
  consider "i + 1 \<le> j" | "j + 1 \<le> i" using assms by linarith
  then show ?thesis
  proof cases
    case 1
    then have "bs * (i + 1) \<le> bs * j" by (rule mult_le_mono2)
    then show ?thesis by (simp add: apart_def)
  next
    case 2
    then have "bs * (j + 1) \<le> bs * i" by (rule mult_le_mono2)
    then show ?thesis by (simp add: apart_def)
  qed
qed

lemma block_in_chunk: "b \<in> set (chunk_blocks p c) \<Longrightarrow> c \<le> b \<and> b + m_block_size p \<le> c + memsize p"
proof -
  assume "b \<in> set (chunk_blocks p c)"
  then obtain i where i: "i < m_block_per_chunk p" "b = c + m_block_size p * i" by (auto simp: chunk_blocks_def)
  then have "m_block_size p * (i + 1) \<le> m_block_size p * m_block_per_chunk p" by (intro mult_le_mono2) simp
  with i show ?thesis by (simp add: memsize_def)
qed

lemma blocks_apart:
  assumes "pool_rep s fs us" "a \<in> set fs \<union> us" "b \<in> set fs \<union> us" "a \<noteq> b"
  shows "apart (m_block_size (snd s)) a b"
proof -
  let ?p = "snd s"
  from assms(1-3) obtain c d where cd: "c \<in> set (m_chunks ?p)" "a \<in> set (chunk_blocks ?p c)"
    "d \<in> set (m_chunks ?p)" "b \<in> set (chunk_blocks ?p d)"
    by (auto simp: pool_rep_def Let_def)
  show ?thesis
  proof (cases "c = d")
    case True
    with cd obtain i j where "a = c + m_block_size ?p * i" "b = c + m_block_size ?p * j" by (auto simp: chunk_blocks_def)
    with assms(4) same_chunk_apart [of i j] show ?thesis by auto
  next
    case False
    from cd obtain i j where "i < length (m_chunks ?p)" "m_chunks ?p ! i = c" "j < length (m_chunks ?p)" "m_chunks ?p ! j = d"
      by (auto simp: in_set_conv_nth)
    with False assms(1) have "apart (memsize ?p) c d"
      by (cases i j rule: linorder_cases) (auto simp: pool_rep_def Let_def apart_def)
    with block_in_chunk [OF cd(2)] block_in_chunk [OF cd(4)] show ?thesis by (auto simp: apart_def)
  qed
qed

lemma add_chunk_rep:
  assumes rep: "pool_rep s [] us" and n: "0 < m_block_per_chunk (snd s)" and fr: "fresh_area (snd s) h"
  shows "pool_rep (Pool_add_chunk h s) (chunk_blocks (snd s) h) us"
proof -
  let ?p = "snd s" and ?bs = "m_block_size (snd s)" and ?n = "m_block_per_chunk (snd s)"
  let ?hp = "(link_blocks h ?bs 0 (?n - 1) (fst s))(h + ?bs * (?n - 1) := None)"
  have bs: "0 < ?bs" using rep by (simp add: pool_rep_def Let_def)
  have at: "?hp (h + ?bs * j) = (if Suc j = ?n then None else Some (h + ?bs * Suc j))" if "j < ?n" for j
    using link_blocks_at [OF bs, of 0 j "?n - 1" h "fst s"] that bs n by auto
  have seg: "lseg ?hp (Some h) (chunk_blocks ?p h)"
    using lseg_chunk [OF bs, of 0 ?n ?hp h] at n by (auto simp: chunk_blocks_def)
  have us: "us = (\<Union>c\<in>set (m_chunks ?p). set (chunk_blocks ?p c))" using rep by (simp add: pool_rep_def Let_def)
  have dis: "set (chunk_blocks ?p h) \<inter> us = {}"
  proof (rule ccontr)
    assume "set (chunk_blocks ?p h) \<inter> us \<noteq> {}"
    then obtain b c where "b \<in> set (chunk_blocks ?p h)" "c \<in> set (m_chunks ?p)" "b \<in> set (chunk_blocks ?p c)"
      by (auto simp: us)
    with block_in_chunk [of b ?p h] block_in_chunk [of b ?p c] fr bs show False
      by (auto simp: fresh_area_def apart_def)
  qed
  have cb: "chunk_blocks (?p\<lparr>m_chunks := m_chunks ?p @ [h], m_head := Some h\<rparr>) = chunk_blocks ?p"
    "memsize (?p\<lparr>m_chunks := m_chunks ?p @ [h], m_head := Some h\<rparr>) = memsize ?p"
    by (simp_all add: chunk_blocks_def memsize_def fun_eq_iff)
  have ap: "\<forall>i<length (m_chunks ?p @ [h]). \<forall>j<i. apart (memsize ?p) ((m_chunks ?p @ [h]) ! i) ((m_chunks ?p @ [h]) ! j)"
    using rep fr by (auto simp: pool_rep_def Let_def nth_append fresh_area_def less_Suc_eq)
  show ?thesis
    unfolding pool_rep_def Pool_add_chunk_def Let_def snd_conv fst_conv cb
    using bs seg dis us ap chunk_blocks_distinct [OF bs, of h] by auto
qed

lemma Pool_alloc_rep:
  assumes rep: "pool_rep s fs us" and mal: "\<And>h. malloc (memsize (snd s)) = Some h \<Longrightarrow> fresh_area (snd s) h"
  shows "(\<exists>b s' fs'. Pool_alloc malloc s = (Some b, s') \<and> b \<notin> us \<and> pool_rep s' fs' (insert b us) \<and>
            m_block_size (snd s') = m_block_size (snd s)) \<or>
    (Pool_alloc malloc s = (None, s) \<and> fs = [] \<and> (memsize (snd s) = 0 \<or> malloc (memsize (snd s)) = None))"
proof -
  have take: "\<exists>s'. (case t of (hp, p) \<Rightarrow> case m_head p of None \<Rightarrow> (None, (hp, p)) | Some n \<Rightarrow> (Some n, (hp, p\<lparr>m_head := hp n\<rparr>)))
       = (Some b, s') \<and> b \<notin> us \<and> pool_rep s' gs (insert b us) \<and> m_block_size (snd s') = m_block_size (snd t)"
    if "pool_rep t (b # gs) us" for t b gs
  proof -
    obtain hp p where t: "t = (hp, p)" by (cases t)
    have "chunk_blocks (p\<lparr>m_head := x\<rparr>) = chunk_blocks p" "memsize (p\<lparr>m_head := x\<rparr>) = memsize p" for x
      by (simp_all add: chunk_blocks_def memsize_def fun_eq_iff)
    with that t show ?thesis by (auto simp: pool_rep_def Let_def)
  qed
  show ?thesis
  proof (cases fs)
    case (Cons b gs)
    then have "m_head (snd s) = Some b" using rep by (simp add: pool_rep_def Let_def)
    with take [of s b gs] rep Cons show ?thesis
      by (auto simp: Pool_alloc_def Let_def split: prod.splits)
  next
    case Nil
    then have hd: "m_head (snd s) = None" using rep by (simp add: pool_rep_def Let_def)
    show ?thesis
    proof (cases "memsize (snd s) = 0 \<or> malloc (memsize (snd s)) = None")
      case True
      with hd Nil show ?thesis by (auto simp: Pool_alloc_def Let_def memsize_def)
    next
      case False
      then obtain h where h: "malloc (memsize (snd s)) = Some h" "0 < m_block_per_chunk (snd s)"
        by (auto simp: memsize_def)
      let ?t = "Pool_add_chunk h s"
      have rt: "pool_rep ?t (chunk_blocks (snd s) h) us"
        using rep Nil h mal by (intro add_chunk_rep) auto
      obtain b gs where bg: "chunk_blocks (snd s) h = b # gs"
        using h(2) by (cases "chunk_blocks (snd s) h") (auto simp: chunk_blocks_def)
      have "Pool_alloc malloc s = (case ?t of (hp, p) \<Rightarrow>
          case m_head p of None \<Rightarrow> (None, (hp, p)) | Some n \<Rightarrow> (Some n, (hp, p\<lparr>m_head := hp n\<rparr>)))"
        using hd False h(1) by (simp add: Pool_alloc_def Let_def memsize_def)
      moreover have "m_block_size (snd ?t) = m_block_size (snd s)" by (simp add: Pool_add_chunk_def Let_def)
      ultimately show ?thesis using take [OF rt [unfolded bg]] by auto
    qed
  qed
qed

lemma Pool_free_rep:
  assumes "pool_rep s fs us" "b \<in> us"
  shows "pool_rep (Pool_free b s) (b # fs) (us - {b})"
proof -
  have "chunk_blocks ((snd s)\<lparr>m_head := x\<rparr>) = chunk_blocks (snd s)" "memsize ((snd s)\<lparr>m_head := x\<rparr>) = memsize (snd s)" for x
    by (simp_all add: chunk_blocks_def memsize_def fun_eq_iff)
  moreover have "b \<notin> set fs" using assms by (auto simp: pool_rep_def Let_def)
  ultimately show ?thesis using assms by (auto simp: pool_rep_def Pool_free_def Let_def)
qed

section \<open>Properties\<close>

text \<open>Blocks in use never overlap. In every state whose free list and used blocks are the blocks of its chunks,
  with a \<open>malloc\<close> that returns fresh areas, \<open>alloc\<close> returns a block that is not in use and lies at least a block size
  away from every block in use, and keeps the invariant; it fails only if the system does or the chunks have no blocks.\<close>

theorem Pool_alloc_fresh:
  assumes "pool_rep s fs us" "\<And>h. malloc (memsize (snd s)) = Some h \<Longrightarrow> fresh_area (snd s) h"
  shows "(\<exists>b s' fs'. Pool_alloc malloc s = (Some b, s') \<and> b \<notin> us \<and> pool_rep s' fs' (insert b us) \<and>
            (\<forall>u\<in>us. apart (m_block_size (snd s)) b u)) \<or>
    (Pool_alloc malloc s = (None, s) \<and> fs = [] \<and> (memsize (snd s) = 0 \<or> malloc (memsize (snd s)) = None))"
proof -
  have "(\<exists>b s' fs'. Pool_alloc malloc s = (Some b, s') \<and> b \<notin> us \<and> pool_rep s' fs' (insert b us) \<and>
            m_block_size (snd s') = m_block_size (snd s)) \<or>
    (Pool_alloc malloc s = (None, s) \<and> fs = [] \<and> (memsize (snd s) = 0 \<or> malloc (memsize (snd s)) = None))"
    by (rule Pool_alloc_rep [OF assms(1)]) (rule assms(2))
  then show ?thesis
  proof (elim disjE exE conjE)
  fix b s' fs'
  assume *: "Pool_alloc malloc s = (Some b, s')" "b \<notin> us" "pool_rep s' fs' (insert b us)"
    "m_block_size (snd s') = m_block_size (snd s)"
  have "apart (m_block_size (snd s)) b u" if "u \<in> us" for u
    using blocks_apart [OF *(3), of b u] that *(2,4) by auto
  with * show ?thesis by blast
  qed auto
qed

lemma Pool_new_rep: "pool_rep (hp, Pool_new bs n) [] {}"
  by (simp add: pool_rep_def Pool_new_def Pool_initialize_def)

lemma Pool_alloc_fresh_witness:
  "\<exists>b s' fs'. Pool_alloc (\<lambda>_. Some 4096) ((\<lambda>_. None), Pool_new 24 3) = (Some b, s') \<and> pool_rep s' fs' {b}"
  using Pool_alloc_fresh [OF Pool_new_rep [of "\<lambda>_. None" 24 3], of "\<lambda>_. Some 4096"]
  by (auto simp: fresh_area_def memsize_def Pool_new_def Pool_initialize_def)

text \<open>A freed block is reused first. Freeing a block in use keeps the invariant, and the next \<open>alloc\<close> returns
  this block and restores the free list.\<close>

theorem Pool_free_alloc:
  assumes "pool_rep s fs us" "b \<in> us"
  shows "pool_rep (Pool_free b s) (b # fs) (us - {b}) \<and>
    (\<exists>s'. Pool_alloc malloc (Pool_free b s) = (Some b, s') \<and> pool_rep s' fs us)"
proof -
  have r: "pool_rep (Pool_free b s) (b # fs) (us - {b})" using assms by (rule Pool_free_rep)
  obtain hp p where s: "s = (hp, p)" by (cases s)
  have "Pool_alloc malloc (Pool_free b s) = (Some b, (hp(b := m_head p), p\<lparr>m_head := m_head p\<rparr>))"
    by (simp add: Pool_alloc_def Pool_free_def s Let_def)
  moreover have "pool_rep (hp(b := m_head p), p) fs us"
  proof -
    have "b \<notin> set fs" using assms by (auto simp: pool_rep_def Let_def)
    with assms(1) show ?thesis by (simp add: pool_rep_def s Let_def)
  qed
  moreover have "p\<lparr>m_head := m_head p\<rparr> = p" by simp
  ultimately show ?thesis using r by auto
qed

lemma Pool_free_alloc_witness:
  "\<exists>b s'. pool_rep (Pool_free b s') [b, 4120, 4144] {}"
proof -
  have "Pool_alloc (\<lambda>_. Some 4096) ((\<lambda>_. None), Pool_new 24 3) =
      (Some 4096, ((\<lambda>_. None)(4096 := Some 4120, 4120 := Some 4144, 4144 := None),
        (Pool_new 24 3)\<lparr>m_chunks := [4096], m_head := Some 4120\<rparr>))" (is "_ = (_, ?s)")
    by (simp add: Pool_alloc_def Pool_add_chunk_def Pool_new_def Pool_initialize_def Let_def numeral_2_eq_2)
  have "pool_rep ?s [4120, 4144] {4096}"
    by (auto simp: pool_rep_def Let_def chunk_blocks_def Pool_new_def Pool_initialize_def numeral_3_eq_3)
  from Pool_free_alloc [OF this, of 4096] show ?thesis by auto
qed

text \<open>Move assignment of \<open>Pool\<close> assigns nothing: the target keeps its members, and the areas of the source, with all
  blocks that are in use, go back to the system.\<close>

lemma Pool_assign_frees: "Pool_assign this r = (this, snd (Pool_move r), m_chunks r)"
  by (simp add: Pool_assign_def Pool_move_def Pool_delete_def)

end
