(* ===== verification/PoolImpl.thy ===== *)
theory PoolImpl
  imports Prelude
begin

text \<open>
  The general allocator of \<open>libs/tinyasync/include/tinyasync/memory_pool.h\<close>: \<open>FreeNode\<close>, \<open>PoolBlock\<close> and \<open>PoolImpl\<close>
  (\<open>PoolResource\<close> forwards to it). Boundary tags precede every block; free blocks are in 49 lists
  by size class, with a bit set of the lists that are not empty.
  Addresses and sizes are numbers; \<open>std::size_t\<close> wraps around at \<open>2^64\<close> where the code can make it.
\<close>

unbundle bit_operations_syntax

section \<open>FreeNode\<close>

text \<open>The heap of nodes: \<open>m_next\<close> and \<open>m_prev\<close>. A list is a ring through its head node.\<close>

type_synonym addr = nat
type_synonym ring_heap = "(addr \<Rightarrow> addr) \<times> (addr \<Rightarrow> addr)"

definition FreeNode_init :: "addr \<Rightarrow> ring_heap \<Rightarrow> ring_heap" where
  "FreeNode_init a h = ((fst h)(a := a), (snd h)(a := a))"

definition FreeNode_remove_self :: "addr \<Rightarrow> ring_heap \<Rightarrow> bool \<times> ring_heap" where
  "FreeNode_remove_self a h =
     (let prev = snd h a; next = fst h a in
      (prev = next, ((fst h)(prev := next), (snd h)(next := prev))))"

definition FreeNode_push :: "addr \<Rightarrow> addr \<Rightarrow> ring_heap \<Rightarrow> ring_heap" where
  "FreeNode_push a n h =
     (let next = fst h a in
      ((fst h)(n := next, a := n), (snd h)(n := a, next := n)))"

text \<open>\<open>chain h a xs b\<close>: from \<open>a\<close> through \<open>xs\<close> to \<open>b\<close>, linked both ways.\<close>

fun chain :: "ring_heap \<Rightarrow> addr \<Rightarrow> addr list \<Rightarrow> addr \<Rightarrow> bool" where
  "chain h a [] b = (fst h a = b \<and> snd h b = a)"
| "chain h a (x # xs) b = (fst h a = x \<and> snd h x = a \<and> chain h x xs b)"

definition ring :: "ring_heap \<Rightarrow> addr \<Rightarrow> addr list \<Rightarrow> bool" where
  "ring h a xs \<longleftrightarrow> chain h a xs a \<and> distinct (a # xs)"

lemma chain_append: "chain h a (xs @ y # ys) b \<longleftrightarrow> chain h a xs y \<and> chain h y ys b"
  by (induction xs arbitrary: a) auto

lemma chain_upd:
  "n \<notin> insert a (set xs) \<Longrightarrow> p \<notin> insert b (set xs) \<Longrightarrow> chain ((fst h)(n := v), (snd h)(p := w)) a xs b = chain h a xs b"
  by (induction xs arbitrary: a) auto

lemma chain_cong:
  "(\<And>x. x \<in> insert a (set xs) \<Longrightarrow> f x = fst h x) \<Longrightarrow> (\<And>x. x \<in> insert b (set xs) \<Longrightarrow> g x = snd h x) \<Longrightarrow>
   chain (f, g) a xs b = chain h a xs b"
  by (induction xs arbitrary: a) auto

lemma ring_init: "ring (FreeNode_init a h) a []"
  by (simp add: ring_def FreeNode_init_def)

lemma ring_push:
  assumes "ring h a xs" "n \<notin> insert a (set xs)"
  shows "ring (FreeNode_push a n h) a (n # xs)"
proof (cases xs)
  case Nil
  with assms show ?thesis by (auto simp: ring_def FreeNode_push_def Let_def)
next
  case (Cons x ys)
  have "chain ((fst h)(n := x, a := n), (snd h)(n := a, x := n)) x ys a = chain h x ys a"
    using assms Cons by (intro chain_cong) (auto simp: ring_def)
  with assms Cons show ?thesis by (auto simp: ring_def FreeNode_push_def Let_def)
qed

lemma ring_remove:
  assumes "ring h a (xs @ n # ys)"
  shows "fst (FreeNode_remove_self n h) = (xs @ ys = [])" "ring (snd (FreeNode_remove_self n h)) a (xs @ ys)"
proof -
  define p where "p = (if xs = [] then a else last xs)"
  define q where "q = (if ys = [] then a else hd ys)"
  have c: "chain h a xs n" "chain h n ys a" "distinct (a # xs @ n # ys)"
    using assms by (auto simp: ring_def chain_append)
  have last: "chain h b zs m \<Longrightarrow> snd h m = (if zs = [] then b else last zs)" for b zs m
    by (induction zs arbitrary: b) auto
  have p: "snd h n = p" using last [OF c(1)] by (simp add: p_def)
  have q: "fst h n = q" using c(2) by (cases ys) (auto simp: q_def)
  show "fst (FreeNode_remove_self n h) = (xs @ ys = [])"
  proof (cases "xs = [] \<or> ys = []")
    case True
    with c(3) p q last_in_set [of xs] hd_in_set [of ys] show ?thesis
      by (auto simp: FreeNode_remove_self_def Let_def p_def q_def)
  next
    case False
    then have "last xs \<in> set xs" "hd ys \<in> set ys" by simp_all
    with c(3) have "last xs \<noteq> hd ys" by auto
    with False p q show ?thesis by (simp add: FreeNode_remove_self_def Let_def p_def q_def)
  qed
  let ?h = "((fst h)(p := q), (snd h)(q := p))"
  have right: "chain ?h q (tl ys) a" if "ys \<noteq> []"
  proof -
    obtain y zs where ys: "ys = y # zs" using \<open>ys \<noteq> []\<close> by (cases ys) auto
    have "chain ?h y zs a = chain h y zs a"
    proof (intro chain_cong)
      have "p \<notin> set (y # zs)" 
      proof (cases "xs = []")
        case True
        with c(3) show ?thesis by (auto simp: ys p_def)
      next
        case False
        then have "last xs \<in> set xs" by simp
        moreover have "set xs \<inter> set (n # ys) = {}" using c(3) by auto
        ultimately have "last xs \<notin> set ys" by auto
        with False show ?thesis by (simp add: ys p_def)
      qed
      then show "((fst h)(p := q)) x = fst h x" if "x \<in> insert y (set zs)" for x using that by auto
      show "((snd h)(q := p)) x = snd h x" if "x \<in> insert a (set zs)" for x
        using that c(3) by (auto simp: ys q_def)
    qed
    with c(2) ys show ?thesis by (simp add: q_def)
  qed
  have mid: "chain ?h a xs q"
  proof (cases xs rule: rev_cases)
    case Nil
    then show ?thesis by (simp add: p_def)
  next
    case (snoc zs x)
    have "chain ?h a zs x = chain h a zs x"
      using c(3) hd_in_set [of ys] by (intro chain_cong) (auto simp: snoc p_def q_def split: if_splits)
    with c(1) show ?thesis by (simp add: snoc chain_append p_def)
  qed
  have "chain ?h a (xs @ ys) a"
    using mid right by (cases ys) (auto simp: q_def chain_append)
  with c(3) show "ring (snd (FreeNode_remove_self n h)) a (xs @ ys)"
    by (auto simp: FreeNode_remove_self_def Let_def p q ring_def)
qed

section \<open>PoolBlock\<close>

type_synonym tag = "32 word"

definition k_free_mask :: tag where "k_free_mask = 128"
definition k_order_mask :: tag where "k_order_mask = 127"

definition encode_size :: "nat \<Rightarrow> nat \<Rightarrow> bool \<Rightarrow> tag" where
  "encode_size sz order free =
     (push_bit 8 (of_nat sz) OR of_nat order) OR (if free then k_free_mask else 0)"

definition tag_size :: "tag \<Rightarrow> nat" where "tag_size t = unat (drop_bit 8 t)"
definition tag_free :: "tag \<Rightarrow> bool" where "tag_free t \<longleftrightarrow> t AND k_free_mask \<noteq> 0"
definition tag_order :: "tag \<Rightarrow> nat" where "tag_order t = unat (t AND k_order_mask)"

section \<open>Size classes\<close>

definition k_max_order :: nat where "k_max_order = 48"
definition k_malloc_order :: nat where "k_malloc_order = 44"

definition s1 :: "nat \<Rightarrow> nat" where "s1 s = (s + s div 4) mod 65536"
definition s2 :: "nat \<Rightarrow> nat" where "s2 s = (s + s div 2) mod 65536"
definition s3 :: "nat \<Rightarrow> nat" where "s3 s = (s + 3 * s div 4) mod 65536"

definition size_table :: "nat list" where
  "size_table = concat (map (\<lambda>s. [s, s1 s, s2 s, s3 s])
      [8, 16, 32, 64, 128, 256, 512, 1024, 2048, 4096, 8192, 16384]) @ [32768]"

definition block_size :: "nat \<Rightarrow> nat" where
  "block_size order = size_table ! order"

text \<open>The number of significant bits, and \<open>std::countl_zero\<close> of a 64-bit number.\<close>

fun bitlen :: "nat \<Rightarrow> nat" where
  "bitlen n = (if n = 0 then 0 else Suc (bitlen (n div 2)))"

declare bitlen.simps [simp del]

definition countl_zero :: "nat \<Rightarrow> nat" where "countl_zero n = 64 - bitlen n"

definition block_order :: "nat \<Rightarrow> nat" where
  "block_order n =
     (let shift = 64 - countl_zero n - 3;
          b = n div 2 ^ shift;
          b2 = b mod 4;
          b3 = (shift - 1) * 4 + b2
      in b3 + of_bool (n mod 2 ^ shift \<noteq> 0))"

text \<open>The other branch of the \<open>#if\<close> in \<open>block_order\<close>: \<open>std::lower_bound\<close> in the table.\<close>

definition block_order_table :: "nat \<Rightarrow> nat" where
  "block_order_table n = length (takeWhile (\<lambda>sz. sz < n) size_table)"

text \<open>\<open>std::countr_zero\<close> of a 64-bit number: 64 when it is 0.\<close>

definition ffs64 :: "64 word \<Rightarrow> nat" where
  "ffs64 v = length (takeWhile (\<lambda>i. \<not> bit v i) [0..<64])"

section \<open>PoolImpl\<close>

text \<open>
  The tags of the blocks by address, the free lists (the nodes after the head, as block addresses), the bit set,
  the areas obtained from the system. The lists stand for the rings of \<open>FreeNode\<close>: \<open>ring_push\<close> and
  \<open>ring_remove\<close> say that the ring operations are these list operations.
\<close>

record poolimpl =
  m_size :: "addr \<Rightarrow> tag"
  m_prev_size :: "addr \<Rightarrow> tag"
  m_free :: "nat \<Rightarrow> addr list"
  m_free_flags :: "64 word"
  m_chuncks :: "addr list"

definition PoolImpl_new :: poolimpl where
  "PoolImpl_new = \<lparr>m_size = \<lambda>_. 0, m_prev_size = \<lambda>_. 0, m_free = \<lambda>_. [], m_free_flags = 0, m_chuncks = []\<rparr>"

text \<open>\<open>sizeof(PoolBlock)\<close>, and the two tags before the memory of a block.\<close>

definition sizeof_PoolBlock :: nat where "sizeof_PoolBlock = 24"
definition hdr :: nat where "hdr = 8"

definition mem :: "addr \<Rightarrow> addr" where "mem b = b + hdr"
definition from_mem :: "addr \<Rightarrow> addr" where "from_mem p = p - hdr"
definition next_block :: "addr \<Rightarrow> nat \<Rightarrow> addr" where "next_block b n = b + n"
definition prev_block :: "addr \<Rightarrow> nat \<Rightarrow> addr" where "prev_block b n = b - n"

definition add_free_block :: "addr \<Rightarrow> nat \<Rightarrow> poolimpl \<Rightarrow> poolimpl" where
  "add_free_block b order s =
     s\<lparr>m_free := (m_free s)(order := b # m_free s order), m_free_flags := m_free_flags s OR push_bit order 1\<rparr>"

text \<open>\<open>remove_self\<close> unlinks the block from whatever list it is in; its result clears the bit of \<open>order\<close>.\<close>

definition remove_free_block :: "addr \<Rightarrow> nat \<Rightarrow> poolimpl \<Rightarrow> poolimpl" where
  "remove_free_block b order s =
     (let s' = s\<lparr>m_free := (m_free s)(order := remove1 b (m_free s order))\<rparr> in
      if m_free s' order = [] then s'\<lparr>m_free_flags := m_free_flags s AND (NOT (push_bit order 1))\<rparr> else s')"

definition set_tags :: "addr \<Rightarrow> addr \<Rightarrow> tag \<Rightarrow> poolimpl \<Rightarrow> poolimpl" where
  "set_tags b nxt t s = s\<lparr>m_size := (m_size s)(b := t), m_prev_size := (m_prev_size s)(nxt := t)\<rparr>"

definition change_block_size :: "addr \<Rightarrow> nat \<Rightarrow> addr \<Rightarrow> poolimpl \<Rightarrow> poolimpl" where
  "change_block_size b new_size nxt s =
     (let old_ord = tag_order (m_size s b); order = block_order new_size;
          s' = set_tags b nxt (encode_size new_size order True) s
      in if old_ord \<noteq> order then add_free_block b order (remove_free_block b old_ord s') else s')"

definition change_block_size_to :: "addr \<Rightarrow> nat \<Rightarrow> addr \<Rightarrow> addr \<Rightarrow> poolimpl \<Rightarrow> poolimpl" where
  "change_block_size_to b new_size nxt new_block s =
     (let old_ord = tag_order (m_size s b); order = block_order new_size;
          s' = set_tags new_block nxt (encode_size new_size order True) s
      in add_free_block new_block order (remove_free_block b old_ord s'))"

text \<open>\<open>ptr & ~(align-1)\<close>.\<close>

definition align_down :: "nat \<Rightarrow> nat \<Rightarrow> nat" where
  "align_down ptr align = nat (int ptr AND (NOT (int align - 1)))"

text \<open>
  \<open>break_\<close>: the block that is handed out is the end of the free block. \<open>None\<close> is a failing assertion. The difference
  \<open>new_size\<close> is a \<open>std::size_t\<close>.
\<close>

definition break_block :: "addr \<Rightarrow> nat \<Rightarrow> nat \<Rightarrow> poolimpl \<Rightarrow> (addr \<times> poolimpl) option" where
  "break_block b bsize align s =
     (let old_size = tag_size (m_size s b) in
      if \<not> bsize \<le> old_size then None
      else
        let ptr = b + old_size - bsize + hdr;
            block2 = align_down ptr align - hdr;
            new_size = nat ((int block2 - int b) mod 2 ^ 64)
        in if new_size < sizeof_PoolBlock then
             (let s' = remove_free_block b (tag_order (m_size s b)) s;
                  e = m_size s b AND (NOT k_free_mask)
              in Some (b, set_tags b (next_block b old_size) e s'))
           else
             (let s' = change_block_size b new_size block2 s;
                  block2_size = nat ((int old_size - int new_size) mod 2 ^ 64)
              in if \<not> block2_size \<ge> bsize then None
                 else Some (block2, set_tags block2 (next_block block2 block2_size)
                        (encode_size block2_size (block_order block2_size) False) s')))"

text \<open>The sums of sizes are \<open>std::size_t\<close>. What \<open>alloc\<close> does: forward to the system, return memory, dereference a null result of \<open>malloc\<close>, fail an assertion.\<close>

datatype alloc_res = ASystem | AMem addr poolimpl | ANull | AAssert

definition add_area :: "addr \<Rightarrow> poolimpl \<Rightarrow> addr \<times> poolimpl" where
  "add_area head s =
     (let sz = block_size k_max_order;
          tail = head + sz + sizeof_PoolBlock;
          b = head + sizeof_PoolBlock;
          s' = s\<lparr>m_prev_size := (m_prev_size s)(b := encode_size 0 0 False),
                 m_size := (m_size s)(b := encode_size sz k_max_order True, tail := encode_size 0 0 False),
                 m_chuncks := head # m_chuncks s\<rparr>
      in (b, add_free_block b k_max_order s'))"

definition req_size :: "nat \<Rightarrow> nat" where "req_size n = max n 16"
definition req_align :: "nat \<Rightarrow> nat" where "req_align a = max 8 a"

definition PoolImpl_alloc :: "(nat \<Rightarrow> addr option) \<Rightarrow> nat \<Rightarrow> nat \<Rightarrow> poolimpl \<Rightarrow> alloc_res" where
  "PoolImpl_alloc malloc n al s =
     (let align = req_align al; bsize = (hdr + req_size n) mod 2 ^ 64; bsize' = (req_size n + align) mod 2 ^ 64 in
      if bsize' \<ge> block_size k_malloc_order then ASystem
      else
        let idx = ffs64 (m_free_flags s AND (NOT (push_bit (block_order bsize') 1 - 1))) in
        let found = (if idx \<noteq> 64 then (case m_free s idx of [] \<Rightarrow> Inl AAssert | b # _ \<Rightarrow> Inr (b, s))
                     else (case malloc (block_size k_max_order + 2 * sizeof_PoolBlock) of
                             None \<Rightarrow> Inl ANull | Some head \<Rightarrow> Inr (add_area head s))) in
        (case found of Inl r \<Rightarrow> r
         | Inr (b, s') \<Rightarrow>
             (case break_block b bsize align s' of None \<Rightarrow> AAssert
              | Some (b', s'') \<Rightarrow> if tag_free (m_size s'' b') then AAssert else AMem (mem b') s'')))"

text \<open>\<open>None\<close> is a failing assertion; memory from the system goes back to it.\<close>

definition PoolImpl_free :: "addr \<Rightarrow> nat \<Rightarrow> nat \<Rightarrow> poolimpl \<Rightarrow> poolimpl option" where
  "PoolImpl_free p n al s =
     (let bsize' = (req_size n + req_align al) mod 2 ^ 64 in
      if bsize' \<ge> block_size k_malloc_order then Some s
      else
        let cur = from_mem p in
        if tag_free (m_size s cur) then None
        else
          let cur_size = tag_size (m_size s cur);
              prev_free = tag_free (m_prev_size s cur);
              nxt = next_block cur cur_size;
              next_free = tag_free (m_size s nxt);
              next_size = tag_size (m_size s nxt);
              prev_size = tag_size (m_prev_size s cur);
              prev = prev_block cur prev_size;
              nn = next_block nxt next_size
          in Some (if prev_free \<and> next_free then
                 change_block_size prev (prev_size + cur_size + next_size) nn
                   (remove_free_block nxt (tag_order (m_size s nxt)) s)
               else if prev_free then change_block_size prev (prev_size + cur_size) nxt s
               else if next_free then change_block_size_to nxt (cur_size + next_size) nn cur s
               else
                 add_free_block cur (tag_order (m_size s cur))
                   (set_tags cur nxt (m_size s cur OR k_free_mask) s)))"

text \<open>The sums do not wrap around for requests that are not forwarded because of their size.\<close>

lemma req_mod:
  assumes "req_size n + req_align al < 16384"
  shows "(req_size n + req_align al) mod 2 ^ 64 = req_size n + req_align al" "(hdr + req_size n) mod 2 ^ 64 = hdr + req_size n"
  using assms by (simp_all add: hdr_def)

text \<open>The destructor asserts that the lists below \<open>k_max_order\<close> are empty and frees the areas.\<close>

definition PoolImpl_delete :: "poolimpl \<Rightarrow> addr list option" where
  "PoolImpl_delete s =
     (if list_all (\<lambda>i. m_free s i = []) [0..<k_max_order] then Some (m_chuncks s) else None)"

definition PoolResource_do_allocate :: "(nat \<Rightarrow> addr option) \<Rightarrow> nat \<Rightarrow> nat \<Rightarrow> poolimpl \<Rightarrow> alloc_res" where
  "PoolResource_do_allocate malloc bytes alignment s = PoolImpl_alloc malloc bytes alignment s"

definition PoolResource_do_deallocate :: "addr \<Rightarrow> nat \<Rightarrow> nat \<Rightarrow> poolimpl \<Rightarrow> poolimpl option" where
  "PoolResource_do_deallocate p bytes alignment s = PoolImpl_free p bytes alignment s"

section \<open>Boundary tags and size classes\<close>

lemma bit_free_mask: "bit k_free_mask i \<longleftrightarrow> i = 7"
proof -
  have eq: "k_free_mask = 2 ^ 7" by (simp add: k_free_mask_def)
  show ?thesis unfolding eq bit_exp_iff by auto
qed

lemma bit_order_mask: "bit k_order_mask i \<longleftrightarrow> i < 7"
proof -
  have eq: "k_order_mask = mask 7" by (simp add: k_order_mask_def mask_eq_exp_minus_1)
  show ?thesis unfolding eq bit_mask_iff by auto
qed

lemma encode_tags:
  assumes "n < 2 ^ 24" "k < 128"
  shows "tag_size (encode_size n k f) = n" "tag_order (encode_size n k f) = k" "tag_free (encode_size n k f) = f"
proof -
  let ?t = "encode_size n k f"
  have k: "bit k i \<Longrightarrow> i < 7" for i using bit_lt [of k 7 i] assms(2) by simp
  have n: "bit n i \<Longrightarrow> i < 24" for i using bit_lt [of n 24 i] assms(1) by simp
  have "drop_bit 8 ?t = of_nat n"
    by (rule bit_eqI) (auto simp: encode_size_def bit_simps bit_free_mask dest: n k)
  with assms(1) show "tag_size ?t = n"
    by (simp add: tag_size_def unsigned_of_nat take_bit_nat_eq_self)
  have "?t AND k_order_mask = of_nat k"
    by (rule bit_eqI) (auto simp: encode_size_def bit_simps bit_free_mask bit_order_mask dest: n k)
  with assms(2) show "tag_order ?t = k"
    by (simp add: tag_order_def unsigned_of_nat take_bit_nat_eq_self)
  have "?t AND k_free_mask = (if f then k_free_mask else 0)"
    by (rule bit_eqI) (auto simp: encode_size_def bit_simps bit_free_mask dest: n k)
  then show "tag_free ?t = f" by (simp add: tag_free_def k_free_mask_def)
qed

lemma encode_size_free:
  assumes "k < 128"
  shows "encode_size n k f AND (NOT k_free_mask) = encode_size n k False" "encode_size n k f OR k_free_mask = encode_size n k True"
proof -
  have k: "bit k i \<Longrightarrow> i < 7" for i using bit_lt [of k 7 i] assms by simp
  show "encode_size n k f AND (NOT k_free_mask) = encode_size n k False"
    by (rule bit_eqI) (auto simp: encode_size_def bit_simps bit_free_mask dest: k)
  show "encode_size n k f OR k_free_mask = encode_size n k True"
    by (rule bit_eqI) (auto simp: encode_size_def bit_simps bit_free_mask dest: k)
qed

lemma bitlen_bounds: "n > 0 \<Longrightarrow> 2 ^ (bitlen n - 1) \<le> n \<and> n < 2 ^ bitlen n \<and> bitlen n > 0"
proof (induction n rule: bitlen.induct)
  case (1 n)
  show ?case
  proof (cases "n div 2 = 0")
    case True
    with "1.prems" show ?thesis by (simp add: bitlen.simps [of n] bitlen.simps [of 0])
  next
    case False
    with 1 have "2 ^ (bitlen (n div 2) - 1) \<le> n div 2" "n div 2 < 2 ^ bitlen (n div 2)" "bitlen (n div 2) > 0" by auto
    moreover from this have "2 ^ bitlen (n div 2) = 2 * (2::nat) ^ (bitlen (n div 2) - 1)" by (cases "bitlen (n div 2)") auto
    moreover have "n = 2 * (n div 2) + n mod 2" "n mod 2 < 2" by simp_all
    ultimately show ?thesis using "1.prems" by (simp add: bitlen.simps [of n]) linarith
  qed
qed

lemma bitlen_eq:
  assumes "2 ^ k \<le> n" "n < 2 ^ Suc k" shows "bitlen n = Suc k"
proof -
  have "n > 0" using assms(1) by (metis gr0I le_zero_eq power_not_zero zero_neq_numeral)
  from bitlen_bounds [OF this] have a: "2 ^ (bitlen n - 1) \<le> n" "n < 2 ^ bitlen n" "bitlen n > 0" by auto
  have "bitlen n - 1 < Suc k" using a(1) assms(2) by (meson le_less_trans one_less_numeral_iff power_less_imp_less_exp semiring_norm(76))
  moreover have "k < bitlen n" using a(2) assms(1) by (meson le_less_trans one_less_numeral_iff power_less_imp_less_exp semiring_norm(76))
  ultimately show ?thesis by simp
qed

lemma size_table_eq: "size_table = map (\<lambda>k. (4 + k mod 4) * 2 ^ (k div 4 + 1)) [0..<49]"
  by (simp add: size_table_def s1_def s2_def s3_def upt_rec)

lemma block_size_formula: "k \<le> 48 \<Longrightarrow> block_size k = (4 + k mod 4) * 2 ^ (k div 4 + 1)"
  by (simp add: block_size_def size_table_eq del: upt_Suc)

lemma block_size_strict: "j < k \<Longrightarrow> k \<le> 48 \<Longrightarrow> block_size j < block_size k"
proof -
  have "sorted_wrt (<) size_table" by (simp add: size_table_def s1_def s2_def s3_def)
  moreover have "length size_table = 49" by (simp add: size_table_def)
  ultimately show "j < k \<Longrightarrow> k \<le> 48 \<Longrightarrow> block_size j < block_size k"
    by (simp add: sorted_wrt_iff_nth_less block_size_def)
qed

lemma block_size_ends: "block_size 0 = 8" "block_size 44 = 16384" "block_size 48 = 32768"
  by (simp_all add: block_size_formula)

text \<open>The three leading bits of the size and the carry of the rest.\<close>

lemma block_order_parts:
  assumes "8 \<le> n" "n < 2 ^ 64"
  obtains e b r where "n = (4 + b) * 2 ^ Suc e + r" "b < 4" "r < 2 ^ Suc e" "block_order n = 4 * e + b + of_bool (r \<noteq> 0)" "e < 61"
proof -
  define L where "L = bitlen n"
  have L: "2 ^ (L - 1) \<le> n" "n < 2 ^ L" "L > 0" using bitlen_bounds [of n] assms(1) by (auto simp: L_def)
  have "(2::nat) ^ 3 < 2 ^ L" using L(2) assms(1) by simp
  then have L4: "L \<ge> 4" by (simp only: power_strict_increasing_iff)
  have "(2::nat) ^ (L - 1) < 2 ^ 64" using L(1) assms(2) by simp
  then have "L - 1 < 64" by (simp only: power_strict_increasing_iff)
  define e where "e = L - 4"
  have e: "L = e + 4" "L - 3 = Suc e" using L4 by (auto simp: e_def)
  let ?b = "n div 2 ^ Suc e" let ?r = "n mod 2 ^ Suc e"
  have n: "n = ?b * 2 ^ Suc e + ?r" by (simp only: div_mult_mod_eq)
  have b: "4 \<le> ?b" "?b < 8"
    using L(1,2) by (simp_all add: e less_eq_div_iff_mult_less_eq div_less_iff_less_mult power_add)
  have "64 - countl_zero n - 3 = Suc e"
    using \<open>L - 1 < 64\<close> e by (simp add: countl_zero_def L_def [symmetric])
  moreover have "?b mod 4 = ?b - 4" using b by (simp add: le_mod_geq)
  ultimately have "block_order n = 4 * e + (?b - 4) + of_bool (?r \<noteq> 0)"
    by (simp add: block_order_def Let_def)
  moreover have "n = (4 + (?b - 4)) * 2 ^ Suc e + ?r" using b n by simp
  ultimately show ?thesis using that [of "?b - 4" e ?r] b \<open>L - 1 < 64\<close> e by simp
qed

lemma block_order_sound:
  assumes "8 \<le> n" "n \<le> 32768"
  shows "block_order n \<le> 48" "n \<le> block_size (block_order n)" "j < block_order n \<Longrightarrow> block_size j < n"
proof -
  obtain e b r where p: "n = (4 + b) * 2 ^ Suc e + r" "b < 4" "r < 2 ^ Suc e" "block_order n = 4 * e + b + of_bool (r \<noteq> 0)"
    by (rule block_order_parts [of n]) (use assms in auto)
  have "(4::nat) * 2 ^ Suc e \<le> (4 + b) * 2 ^ Suc e" by simp
  also have "\<dots> \<le> 32768" using p(1) assms(2) by linarith
  finally have "(2::nat) ^ (e + 3) \<le> 2 ^ 15" by (simp add: power_add)
  then have e: "e \<le> 12" by (simp only: power_increasing_iff)
  have b0: "b = 0 \<and> r = 0" if "e = 12" using that p(1) assms(2) by simp
  then show o: "block_order n \<le> 48" using e p(2,4) by (cases "e = 12") auto
  have sz: "block_size (4 * e + b) = (4 + b) * 2 ^ Suc e"
    using e p(2) b0 by (subst block_size_formula) (cases "e = 12"; simp)+
  have sz1: "block_size (4 * e + b + 1) = (5 + b) * 2 ^ Suc e" if "r \<noteq> 0"
  proof (cases "b = 3")
    case True
    then have "4 * e + b + 1 = 4 * Suc e" by simp
    with True show ?thesis using e b0 that by (cases "e = 12") (auto simp: block_size_formula)
  next
    case False
    with p(2) have "(4 * e + b + 1) div 4 = e" "(4 * e + b + 1) mod 4 = b + 1" by auto
    with p(2) show ?thesis using e b0 that by (cases "e = 12") (auto simp: block_size_formula)
  qed
  show "n \<le> block_size (block_order n)"
    using p sz sz1 by (cases "r = 0") (auto simp: algebra_simps)
  have le: "block_size (4 * e + b) \<le> n" using sz p(1) by simp
  have lt: "block_size j < block_size (4 * e + b)" if "j < 4 * e + b"
    using block_size_strict [OF that] o p(4) by simp
  show "block_size j < n" if j: "j < block_order n"
  proof (cases "j < 4 * e + b")
    case True
    with le lt show ?thesis by (metis less_le_trans)
  next
    case False
    with j p(4) have "j = 4 * e + b" "r \<noteq> 0" by (auto split: if_splits simp: of_bool_def)
    then show ?thesis using sz p(1) by simp
  qed
qed

text \<open>For every size up to the largest class the computation of the class from the bits of the size agrees with the binary
search of the table that it replaced.\<close>

theorem PoolImpl_block_order_table:
  assumes "8 \<le> n" "n \<le> 32768"
  shows "block_order n = block_order_table n \<and> block_order n \<le> k_max_order"
proof -
  note b = block_order_sound [OF assms]
  have len: "length size_table = 49" by (simp add: size_table_def)
  have "takeWhile (\<lambda>sz. sz < n) size_table = take (block_order n) size_table"
  proof (rule takeWhile_eq_take_P_nth)
    show "size_table ! i < n" if "i < block_order n" for i using b(3) [OF that] by (simp add: block_size_def)
    show "\<not> size_table ! block_order n < n" using b(2) by (simp add: block_size_def)
  qed
  then show ?thesis using b(1) len by (simp add: block_order_table_def k_max_order_def)
qed

theorem PoolImpl_block_order_table_witness: "block_order 1000 = block_order_table 1000 \<and> block_order 1000 \<le> k_max_order"
  by (rule PoolImpl_block_order_table) simp_all

end
