(* ===== verification/PoolHeap.thy ===== *)
theory PoolHeap
  imports PoolImpl
begin

text \<open>
  The invariant of \<open>PoolImpl\<close>. Abstractly an area is cut into blocks, each handed out or free:
  \<open>A\<close> is the set of the first block addresses of the areas, \<open>B\<close> maps the address of a block to its size and
  whether it is free. \<open>tags_ok\<close> relates the boundary tags to it, \<open>lists_ok\<close> the free lists and the bit set.
\<close>

unbundle bit_operations_syntax

type_synonym blocks = "addr \<Rightarrow> (nat \<times> bool) option"

definition area_size :: nat where "area_size = 32768"

definition areas_ok :: "addr set \<Rightarrow> poolimpl \<Rightarrow> bool" where
  "areas_ok A s \<longleftrightarrow>
     (\<forall>a\<in>A. 8 dvd a \<and> 24 \<le> a \<and> m_size s (a + area_size) = encode_size 0 0 False) \<and>
     (\<forall>a\<in>A. \<forall>a'\<in>A. a < a' \<longrightarrow> a + area_size + 48 \<le> a')"

definition tag_ok :: "blocks \<Rightarrow> poolimpl \<Rightarrow> bool" where
  "tag_ok B s \<longleftrightarrow>
     (\<forall>b n f. B b = Some (n, f) \<longrightarrow> m_size s b = encode_size n (block_order n) f \<and> 24 \<le> n \<and> 8 dvd n \<and> 8 dvd b)"

definition in_areas :: "addr set \<Rightarrow> blocks \<Rightarrow> bool" where
  "in_areas A B \<longleftrightarrow> (\<forall>b n f. B b = Some (n, f) \<longrightarrow> (\<exists>a\<in>A. a \<le> b \<and> b + n \<le> a + area_size))"

definition blocks_apart :: "blocks \<Rightarrow> bool" where
  "blocks_apart B \<longleftrightarrow> (\<forall>b n f c m g. B b = Some (n, f) \<longrightarrow> B c = Some (m, g) \<longrightarrow> b < c \<longrightarrow> b + n \<le> c)"

definition ends :: "addr set \<Rightarrow> addr set" where "ends A = (\<lambda>a. a + area_size) ` A"

definition nexts_ok :: "addr set \<Rightarrow> blocks \<Rightarrow> poolimpl \<Rightarrow> bool" where
  "nexts_ok A B s \<longleftrightarrow>
     (\<forall>b n f. B b = Some (n, f) \<longrightarrow> b + n \<in> ends A \<or> (b + n \<in> dom B \<and> m_prev_size s (b + n) = m_size s b))"

definition prevs_ok :: "addr set \<Rightarrow> blocks \<Rightarrow> poolimpl \<Rightarrow> bool" where
  "prevs_ok A B s \<longleftrightarrow>
     (\<forall>b\<in>dom B. (b \<in> A \<and> m_prev_size s b = encode_size 0 0 False) \<or> (\<exists>c n f. B c = Some (n, f) \<and> c + n = b))"

definition tags_ok :: "addr set \<Rightarrow> blocks \<Rightarrow> poolimpl \<Rightarrow> bool" where
  "tags_ok A B s \<longleftrightarrow> areas_ok A s \<and> tag_ok B s \<and> in_areas A B \<and> blocks_apart B \<and> nexts_ok A B s \<and> prevs_ok A B s"

text \<open>Two neighbours are never both free.\<close>

definition coalesced :: "blocks \<Rightarrow> bool" where
  "coalesced B \<longleftrightarrow> (\<forall>b n m. B b = Some (n, True) \<longrightarrow> B (b + n) \<noteq> Some (m, True))"

definition free_set :: "blocks \<Rightarrow> (addr \<times> nat) set" where
  "free_set B = {(b, k). \<exists>n. B b = Some (n, True) \<and> k = block_order n}"

definition lists_ok :: "(addr \<times> nat) set \<Rightarrow> poolimpl \<Rightarrow> bool" where
  "lists_ok F s \<longleftrightarrow>
     (\<forall>k. distinct (m_free s k) \<and> (\<forall>b. b \<in> set (m_free s k) \<longleftrightarrow> (b, k) \<in> F)) \<and>
     (\<forall>k<64. bit (m_free_flags s) k \<longleftrightarrow> m_free s k \<noteq> [])"

definition heap_ok :: "addr set \<Rightarrow> blocks \<Rightarrow> poolimpl \<Rightarrow> bool" where
  "heap_ok A B s \<longleftrightarrow> tags_ok A B s \<and> coalesced B \<and> lists_ok (free_set B) s"

text \<open>The blocks that are handed out.\<close>

definition live :: "blocks \<Rightarrow> (addr \<times> nat) set" where
  "live B = {(b, n). B b = Some (n, False)}"

lemma heap_ok_new: "heap_ok {} (\<lambda>_. None) PoolImpl_new"
  by (simp add: heap_ok_def tags_ok_def areas_ok_def tag_ok_def in_areas_def blocks_apart_def nexts_ok_def prevs_ok_def
      coalesced_def lists_ok_def free_set_def PoolImpl_new_def)

section \<open>Free lists\<close>

lemma list_ops_sel [simp]:
  "m_size (add_free_block b k s) = m_size s" "m_prev_size (add_free_block b k s) = m_prev_size s"
  "m_size (remove_free_block b k s) = m_size s" "m_prev_size (remove_free_block b k s) = m_prev_size s"
  by (simp_all add: add_free_block_def remove_free_block_def Let_def)

lemma set_tags_sel [simp]:
  "m_size (set_tags b c t s) = (m_size s)(b := t)" "m_prev_size (set_tags b c t s) = (m_prev_size s)(c := t)"
  "m_free (set_tags b c t s) = m_free s" "m_free_flags (set_tags b c t s) = m_free_flags s"
  by (simp_all add: set_tags_def)

lemma lists_ok_cong: "m_free s' = m_free s \<Longrightarrow> m_free_flags s' = m_free_flags s \<Longrightarrow> lists_ok F s' = lists_ok F s"
  by (simp add: lists_ok_def)

lemma lists_ok_set_tags [simp]: "lists_ok F (set_tags b c t s) = lists_ok F s"
  by (rule lists_ok_cong) simp_all

lemma bit_exp64: "k < 64 \<Longrightarrow> bit ((2 :: 64 word) ^ k) i \<longleftrightarrow> i = k"
  by (auto simp: bit_exp_iff)

lemma lists_ok_add:
  assumes "lists_ok F s" "(b, k) \<notin> F" "k < 64"
  shows "lists_ok (insert (b, k) F) (add_free_block b k s)"
proof -
  have "bit (m_free_flags (add_free_block b k s)) i \<longleftrightarrow> m_free (add_free_block b k s) i \<noteq> []" if "i < 64" for i
    using assms(1,3) that by (auto simp: lists_ok_def add_free_block_def bit_or_iff bit_exp64)
  then show ?thesis using assms(1,2) by (auto simp: lists_ok_def add_free_block_def)
qed

lemma lists_ok_remove:
  assumes "lists_ok F s" "(b, k) \<in> F" "k < 64"
  shows "lists_ok (F - {(b, k)}) (remove_free_block b k s)"
proof -
  have "bit (m_free_flags (remove_free_block b k s)) i \<longleftrightarrow> m_free (remove_free_block b k s) i \<noteq> []" if "i < 64" for i
    using assms(1,3) that by (auto simp: lists_ok_def remove_free_block_def Let_def bit_and_iff bit_not_iff bit_exp64)
  moreover have "m_free (remove_free_block b k s) i = (if i = k then remove1 b (m_free s k) else m_free s i)" for i
    by (simp add: remove_free_block_def Let_def)
  ultimately show ?thesis using assms(1) by (auto simp: lists_ok_def)
qed


section \<open>Boundary tags\<close>

lemma block_size_le:
  assumes "tags_ok A B s" "B b = Some (n, f)"
  shows "24 \<le> n" "n \<le> 32768" "8 dvd n" "8 dvd b" "24 \<le> b"
proof -
  from assms show "24 \<le> n" "8 dvd n" "8 dvd b" by (auto simp: tags_ok_def tag_ok_def)
  from assms obtain a where "a \<in> A" "a \<le> b" "b + n \<le> a + area_size"
    by (fastforce simp: tags_ok_def in_areas_def)
  moreover from this assms have "24 \<le> a" by (auto simp: tags_ok_def areas_ok_def)
  ultimately show "n \<le> 32768" "24 \<le> b" by (auto simp: area_size_def)
qed

lemma block_tags:
  assumes "tags_ok A B s" "B b = Some (n, f)"
  shows "m_size s b = encode_size n (block_order n) f" "tag_size (m_size s b) = n" "tag_free (m_size s b) = f"
    "tag_order (m_size s b) = block_order n" "block_order n \<le> 48"
proof -
  have n: "24 \<le> n" "n \<le> 32768" by (rule block_size_le [OF assms])+
  then show o: "block_order n \<le> 48" using block_order_sound(1) [of n] by simp
  from assms show t: "m_size s b = encode_size n (block_order n) f" by (auto simp: tags_ok_def tag_ok_def)
  show "tag_size (m_size s b) = n" "tag_free (m_size s b) = f" "tag_order (m_size s b) = block_order n"
    using encode_tags [of n "block_order n" f] n o by (simp_all add: t)
qed

lemma end_not_block:
  assumes "tags_ok A B s" "e \<in> ends A" shows "B e = None"
proof (rule ccontr)
  assume "B e \<noteq> None"
  then obtain n f where b: "B e = Some (n, f)" by auto
  obtain a where a: "a \<in> A" "a \<le> e" "e + n \<le> a + area_size"
    using assms(1) b by (fastforce simp: tags_ok_def in_areas_def)
  obtain a' where a': "a' \<in> A" "e = a' + area_size" using assms(2) by (auto simp: ends_def)
  have "24 \<le> n" using block_size_le [OF assms(1) b] by simp
  with a a' have "a' < a" by auto
  then have "a' + area_size + 48 \<le> a" using assms(1) a a' by (simp add: tags_ok_def areas_ok_def)
  with a a' show False by simp
qed

lemma same_area:
  assumes "tags_ok A B s" "a \<in> A" "a' \<in> A" "a \<le> x" "x \<le> a + area_size" "a' \<le> x" "x \<le> a' + area_size"
  shows "a = a'"
proof (rule ccontr)
  assume "a \<noteq> a'"
  then have "a + area_size + 48 \<le> a' \<or> a' + area_size + 48 \<le> a"
    using assms(1-3) by (auto simp: tags_ok_def areas_ok_def neq_iff)
  with assms(4-7) show False by auto
qed

text \<open>The blocks from \<open>b\<close> to \<open>c\<close> become one block.\<close>

definition fuse :: "addr \<Rightarrow> addr \<Rightarrow> bool \<Rightarrow> blocks \<Rightarrow> blocks" where
  "fuse b c f B = (\<lambda>x. if x = b then Some (c - b, f) else if b < x \<and> x < c then None else B x)"

lemma boundary_apart:
  assumes ok: "tags_ok A B s" and x: "B x = Some (m, h)" and c: "c \<in> ends A \<or> c \<in> dom B" and lt: "x < c"
  shows "x + m \<le> c"
proof (cases "c \<in> dom B")
  case True
  with ok x lt show ?thesis unfolding tags_ok_def blocks_apart_def by (metis domD surj_pair)
next
  case False
  with c obtain a' where a': "a' \<in> A" "c = a' + area_size" by (auto simp: ends_def)
  obtain a where a: "a \<in> A" "a \<le> x" "x + m \<le> a + area_size"
    using ok x by (fastforce simp: tags_ok_def in_areas_def)
  have "a < a' \<Longrightarrow> a + area_size + 48 \<le> a'" "a' < a \<Longrightarrow> a' + area_size + 48 \<le> a"
    using ok a(1) a'(1) by (simp_all add: tags_ok_def areas_ok_def)
  with a a' lt show ?thesis by linarith
qed

lemma fuse_Some:
  "b < c \<Longrightarrow> fuse b c f B x = Some (m, h) \<longleftrightarrow>
     (x = b \<and> m = c - b \<and> h = f) \<or> ((x < b \<or> c \<le> x) \<and> B x = Some (m, h))"
  by (auto simp: fuse_def)

text \<open>The situation of a fusion: \<open>c\<close> is a boundary in the area of \<open>b\<close>.\<close>

definition fusable :: "addr set \<Rightarrow> blocks \<Rightarrow> addr \<Rightarrow> addr \<Rightarrow> bool" where
  "fusable A B b c \<longleftrightarrow>
     b \<in> dom B \<and> (c \<in> ends A \<or> c \<in> dom B) \<and> b < c \<and> (\<exists>a\<in>A. a \<le> b \<and> c \<le> a + area_size)"

lemma nexts_ok_fuse:
  assumes ok: "tags_ok A B s" and fu: "fusable A B b c"
  shows "nexts_ok A (fuse b c f B) (set_tags b c t s)"
  unfolding nexts_ok_def
proof (intro allI impI)
  fix x m h assume x: "fuse b c f B x = Some (m, h)"
  have lt: "b < c" and c: "c \<in> ends A \<or> c \<in> dom B" using fu by (auto simp: fusable_def)
  obtain n g where b: "B b = Some (n, g)" using fu by (auto simp: fusable_def)
  show "x + m \<in> ends A \<or> x + m \<in> dom (fuse b c f B) \<and> m_prev_size (set_tags b c t s) (x + m) = m_size (set_tags b c t s) x"
  proof (cases "x = b")
    case True
    with x c lt show ?thesis by (auto simp: fuse_Some fuse_def)
  next
    case False
    with x have x': "B x = Some (m, h)" "x < b \<or> c \<le> x" using lt by (auto simp: fuse_Some)
    have "24 \<le> m" using block_size_le [OF ok x'(1)] by simp
    moreover have "x < b \<Longrightarrow> x + m \<le> b" using boundary_apart [OF ok x'(1), of b] b by auto
    ultimately have ne: "x + m \<noteq> c" "\<not> (b < x + m \<and> x + m < c)" using x'(2) lt by auto
    from ok x'(1) have "x + m \<in> ends A \<or> x + m \<in> dom B \<and> m_prev_size s (x + m) = m_size s x"
      unfolding tags_ok_def nexts_ok_def by blast
    with ne False show ?thesis by (auto simp: fuse_def)
  qed
qed

lemma prevs_ok_fuse:
  assumes ok: "tags_ok A B s" and fu: "fusable A B b c"
  shows "prevs_ok A (fuse b c f B) (set_tags b c t s)"
  unfolding prevs_ok_def
proof
  fix y assume y: "y \<in> dom (fuse b c f B)"
  have lt: "b < c" and c: "c \<in> ends A \<or> c \<in> dom B" using fu by (auto simp: fusable_def)
  show "(y \<in> A \<and> m_prev_size (set_tags b c t s) y = encode_size 0 0 False) \<or>
        (\<exists>x m h. fuse b c f B x = Some (m, h) \<and> x + m = y)"
  proof (cases "y = c")
    case True
    have "fuse b c f B b = Some (c - b, f)" by (simp add: fuse_def)
    with True lt show ?thesis by (metis le_add_diff_inverse less_imp_le)
  next
    case False
    from y fu have "y \<in> dom B" "y \<le> b \<or> c \<le> y" by (auto simp: fuse_def fusable_def split: if_splits)
    with ok consider "y \<in> A \<and> m_prev_size s y = encode_size 0 0 False" | x m h where "B x = Some (m, h)" "x + m = y"
      unfolding tags_ok_def prevs_ok_def by blast
    then show ?thesis
    proof cases
      case 1
      with False show ?thesis by simp
    next
      case (2 x m h)
      have "24 \<le> m" using block_size_le [OF ok 2(1)] by simp
      moreover have "x < c \<Longrightarrow> y < c" using boundary_apart [OF ok 2(1) c] 2(2) False by simp
      ultimately have "x < b \<or> c \<le> x" using \<open>y \<le> b \<or> c \<le> y\<close> 2(2) by linarith
      with 2 have "fuse b c f B x = Some (m, h)" using lt by (auto simp: fuse_Some)
      with 2(2) show ?thesis by blast
    qed
  qed
qed

lemma tags_ok_fuse:
  assumes ok: "tags_ok A B s" and fu: "fusable A B b c"
  shows "tags_ok A (fuse b c f B) (set_tags b c (encode_size (c - b) (block_order (c - b)) f) s)"
proof -
  let ?t = "encode_size (c - b) (block_order (c - b)) f"
  have lt: "b < c" and c: "c \<in> ends A \<or> c \<in> dom B" using fu by (auto simp: fusable_def)
  obtain n g where b: "B b = Some (n, g)" using fu by (auto simp: fusable_def)
  have nc: "b + n \<le> c" using boundary_apart [OF ok b c lt] .
  have c8: "8 dvd c"
    using c block_size_le(4) [OF ok] ok by (auto simp: ends_def tags_ok_def areas_ok_def area_size_def)
  have n: "24 \<le> n" "8 dvd n" "8 dvd b" using block_size_le [OF ok b] by auto
  have ap: "blocks_apart (fuse b c f B)"
    unfolding blocks_apart_def
  proof (intro allI impI)
    fix x m h y m' h'
    assume x: "fuse b c f B x = Some (m, h)" and y: "fuse b c f B y = Some (m', h')" and xy: "x < y"
    have "y \<in> dom B" using y b by (auto simp: fuse_def split: if_splits)
    with x y xy show "x + m \<le> y" using boundary_apart [OF ok, of x m h y] lt by (auto simp: fuse_Some)
  qed
  show ?thesis
    unfolding tags_ok_def
  proof (intro conjI nexts_ok_fuse [OF ok fu] prevs_ok_fuse [OF ok fu] ap)
    show "areas_ok A (set_tags b c ?t s)"
      using ok end_not_block [OF ok] b by (auto simp: tags_ok_def areas_ok_def ends_def)
    show "tag_ok (fuse b c f B) (set_tags b c ?t s)"
      using ok n nc c8 unfolding tag_ok_def tags_ok_def by (auto simp: fuse_def dvd_diff_nat split: if_splits)
    show "in_areas A (fuse b c f B)"
      using ok fu lt unfolding in_areas_def tags_ok_def fusable_def by (fastforce simp: fuse_Some)
  qed
qed

text \<open>A block is cut in two.\<close>

definition cut :: "addr \<Rightarrow> nat \<Rightarrow> nat \<Rightarrow> bool \<Rightarrow> bool \<Rightarrow> blocks \<Rightarrow> blocks" where
  "cut b x y f g B = B(b \<mapsto> (x, f), b + x \<mapsto> (y, g))"

lemma cut_Some:
  "0 < x \<Longrightarrow> cut b x y f g B z = Some (m, h) \<longleftrightarrow>
     (z = b \<and> m = x \<and> h = f) \<or> (z = b + x \<and> m = y \<and> h = g) \<or> (z \<noteq> b \<and> z \<noteq> b + x \<and> B z = Some (m, h))"
  unfolding cut_def by (cases "z = b"; cases "z = b + x"; simp; blast)

lemma cut_bounds:
  assumes ok: "tags_ok A B s" and b: "B b = Some (n, h)" and x: "24 \<le> x" "x + 24 \<le> n"
  shows "b + x \<notin> ends A" "B (b + x) = None" "B z = Some (m, k) \<Longrightarrow> z < b \<Longrightarrow> z + m \<le> b"
    "B z = Some (m, k) \<Longrightarrow> b < z \<Longrightarrow> b + n \<le> z"
proof -
  have "\<not> (b + x \<in> ends A \<or> b + x \<in> dom B)" using boundary_apart [OF ok b, of "b + x"] x by auto
  then show "b + x \<notin> ends A" "B (b + x) = None" by auto
  show "B z = Some (m, k) \<Longrightarrow> z < b \<Longrightarrow> z + m \<le> b" using boundary_apart [OF ok, of z m k b] b by auto
  show "B z = Some (m, k) \<Longrightarrow> b < z \<Longrightarrow> b + n \<le> z" using boundary_apart [OF ok b, of z] by auto
qed

definition cut_tags :: "addr \<Rightarrow> nat \<Rightarrow> nat \<Rightarrow> bool \<Rightarrow> bool \<Rightarrow> poolimpl \<Rightarrow> poolimpl" where
  "cut_tags b x n f g s =
     set_tags (b + x) (b + n) (encode_size (n - x) (block_order (n - x)) g)
       (set_tags b (b + x) (encode_size x (block_order x) f) s)"

lemma nexts_ok_cut:
  assumes ok: "tags_ok A B s" and b: "B b = Some (n, h)" and x: "24 \<le> x" "x + 24 \<le> n"
  shows "nexts_ok A (cut b x (n - x) f g B) (cut_tags b x n f g s)"
  unfolding nexts_ok_def
proof (intro allI impI)
  fix z m k assume z: "cut b x (n - x) f g B z = Some (m, k)"
  have x0: "0 < x" using x by simp
  have old: "y + i \<in> ends A \<or> y + i \<in> dom B \<and> m_prev_size s (y + i) = m_size s y" if "B y = Some (i, j)" for y i j
    using ok that unfolding tags_ok_def nexts_ok_def by blast
  from z consider "z = b" "m = x" | "z = b + x" "m = n - x" | "z \<noteq> b" "z \<noteq> b + x" "B z = Some (m, k)"
    unfolding cut_Some [OF x0] by blast
  then show "z + m \<in> ends A \<or> z + m \<in> dom (cut b x (n - x) f g B) \<and>
      m_prev_size (cut_tags b x n f g s) (z + m) = m_size (cut_tags b x n f g s) z"
  proof cases
    case 1
    then show ?thesis using x by (auto simp: cut_def cut_tags_def)
  next
    case 2
    then show ?thesis using x old [OF b] by (auto simp: cut_def cut_tags_def)
  next
    case 3
    have "z + m \<noteq> b + n \<and> z + m \<noteq> b + x"
      using cut_bounds(3,4) [OF ok b x 3(3)] 3 x block_size_le(1) [OF ok 3(3)] by linarith
    with 3 old [OF 3(3)] show ?thesis by (auto simp: cut_def cut_tags_def)
  qed
qed

lemma prevs_ok_cut:
  assumes ok: "tags_ok A B s" and b: "B b = Some (n, h)" and x: "24 \<le> x" "x + 24 \<le> n"
  shows "prevs_ok A (cut b x (n - x) f g B) (cut_tags b x n f g s)" (is "prevs_ok A ?B ?s")
  unfolding prevs_ok_def
proof
  fix y assume y: "y \<in> dom ?B"
  have fb: "?B b = Some (x, f)" "?B (b + x) = Some (n - x, g)" using x by (auto simp: cut_def)
  have sm: "y \<noteq> b + x \<Longrightarrow> y \<noteq> b + n \<Longrightarrow> m_prev_size ?s y = m_prev_size s y" by (simp add: cut_tags_def)
  show "(y \<in> A \<and> m_prev_size ?s y = encode_size 0 0 False) \<or> (\<exists>z m k. ?B z = Some (m, k) \<and> z + m = y)"
  proof (cases "y = b + x \<or> y = b + n")
    case True
    moreover have "b + n = (b + x) + (n - x)" using x by simp
    ultimately show ?thesis using fb by metis
  next
    case False
    with y b have "y \<in> dom B" by (auto simp: cut_def split: if_splits)
    with ok consider "y \<in> A \<and> m_prev_size s y = encode_size 0 0 False" | z m k where "B z = Some (m, k)" "z + m = y"
      unfolding tags_ok_def prevs_ok_def by blast
    then show ?thesis
    proof cases
      case 1
      with False sm show ?thesis by simp
    next
      case (2 z m k)
      with b False cut_bounds(2) [OF ok b x] have "?B z = Some (m, k)" by (auto simp: cut_def)
      with 2 show ?thesis by blast
    qed
  qed
qed

lemma tags_ok_cut:
  assumes ok: "tags_ok A B s" and b: "B b = Some (n, h)" and x: "24 \<le> x" "x + 24 \<le> n" "8 dvd x"
  shows "tags_ok A (cut b x (n - x) f g B) (cut_tags b x n f g s)"
  unfolding tags_ok_def
proof (intro conjI nexts_ok_cut [OF ok b x(1,2)] prevs_ok_cut [OF ok b x(1,2)])
  have n: "24 \<le> n" "8 dvd n" "8 dvd b" using block_size_le [OF ok b] by auto
  have x0: "0 < x" using x by simp
  have "a + area_size \<noteq> b \<and> a + area_size \<noteq> b + x" if "a \<in> A" for a
  proof -
    have "a + area_size \<in> ends A" using that by (simp add: ends_def)
    with end_not_block [OF ok this] cut_bounds(1) [OF ok b x(1,2)] b show ?thesis by auto
  qed
  then show "areas_ok A (cut_tags b x n f g s)" using ok by (auto simp: tags_ok_def areas_ok_def cut_tags_def)
  show "tag_ok (cut b x (n - x) f g B) (cut_tags b x n f g s)"
    using ok n x unfolding tag_ok_def tags_ok_def by (auto simp: cut_Some [OF x0] cut_tags_def dvd_diff_nat)
  have in_areas: "\<exists>a\<in>A. a \<le> z \<and> z + m \<le> a + area_size" if "B z = Some (m, k)" for z m k
    using ok that unfolding tags_ok_def in_areas_def by blast
  show "in_areas A (cut b x (n - x) f g B)"
    unfolding in_areas_def cut_Some [OF x0] using in_areas in_areas [OF b] x by fastforce
  show "blocks_apart (cut b x (n - x) f g B)"
    unfolding blocks_apart_def
  proof (intro allI impI)
    fix z m k y m' k'
    assume z: "cut b x (n - x) f g B z = Some (m, k)" and y: "cut b x (n - x) f g B y = Some (m', k')" and zy: "z < y"
    have "B z = Some (m, k) \<Longrightarrow> B y = Some (m', k') \<Longrightarrow> z + m \<le> y"
      using boundary_apart [OF ok, of z m k y] zy by auto
    with z y zy cut_bounds(3,4) [OF ok b x(1,2), of z m k] cut_bounds(4) [OF ok b x(1,2), of y m' k'] x show "z + m \<le> y"
      unfolding cut_Some [OF x0] by (cases "z < b"; cases "b < z"; auto)
  qed
qed

section \<open>Breaking a free block\<close>

lemma tags_ok_cong: "m_size s' = m_size s \<Longrightarrow> m_prev_size s' = m_prev_size s \<Longrightarrow> tags_ok A B s' = tags_ok A B s"
  by (simp add: tags_ok_def areas_ok_def tag_ok_def nexts_ok_def prevs_ok_def)

lemma change_block_size_sel [simp]:
  "m_size (change_block_size b n nxt s) = (m_size s)(b := encode_size n (block_order n) True)"
  "m_prev_size (change_block_size b n nxt s) = (m_prev_size s)(nxt := encode_size n (block_order n) True)"
  "m_size (change_block_size_to b n nxt c s) = (m_size s)(c := encode_size n (block_order n) True)"
  "m_prev_size (change_block_size_to b n nxt c s) = (m_prev_size s)(nxt := encode_size n (block_order n) True)"
  by (simp_all add: change_block_size_def change_block_size_to_def Let_def)

lemma lists_ok_change:
  assumes "lists_ok F s" "(b, tag_order (m_size s b)) \<in> F" "\<And>k. (b, k) \<in> F \<Longrightarrow> k = tag_order (m_size s b)"
    "tag_order (m_size s b) < 64" "block_order n < 64"
  shows "lists_ok (insert (b, block_order n) (F - {(b, tag_order (m_size s b))})) (change_block_size b n nxt s)"
proof (cases "tag_order (m_size s b) = block_order n")
  case True
  then have "insert (b, block_order n) (F - {(b, tag_order (m_size s b))}) = F" using assms(2) by auto
  with True assms(1) show ?thesis by (simp add: change_block_size_def Let_def)
next
  case False
  let ?s = "set_tags b nxt (encode_size n (block_order n) True) s"
  have "lists_ok (F - {(b, tag_order (m_size s b))}) (remove_free_block b (tag_order (m_size s b)) ?s)"
    by (rule lists_ok_remove) (use assms(1,2,4) in simp_all)
  then have "lists_ok (insert (b, block_order n) (F - {(b, tag_order (m_size s b))}))
      (add_free_block b (block_order n) (remove_free_block b (tag_order (m_size s b)) ?s))"
    by (rule lists_ok_add) (use assms(3) [of "block_order n"] assms(5) False in auto)
  with False show ?thesis by (simp add: change_block_size_def Let_def)
qed

lemma lists_ok_change_to:
  assumes "lists_ok F s" "(b, tag_order (m_size s b)) \<in> F" "\<And>k. (c, k) \<notin> F" "tag_order (m_size s b) < 64" "block_order n < 64"
  shows "lists_ok (insert (c, block_order n) (F - {(b, tag_order (m_size s b))})) (change_block_size_to b n nxt c s)"
proof -
  let ?s = "set_tags c nxt (encode_size n (block_order n) True) s"
  have "lists_ok (F - {(b, tag_order (m_size s b))}) (remove_free_block b (tag_order (m_size s b)) ?s)"
    by (rule lists_ok_remove) (use assms in simp_all)
  then have "lists_ok (insert (c, block_order n) (F - {(b, tag_order (m_size s b))}))
      (add_free_block c (block_order n) (remove_free_block b (tag_order (m_size s b)) ?s))"
    by (rule lists_ok_add) (use assms in auto)
  then show ?thesis by (simp add: change_block_size_to_def Let_def)
qed

lemma align_down_pow: "align_down p (2 ^ j) = p - p mod 2 ^ j"
proof -
  have "int p AND (NOT (int (2 ^ j) - 1)) = push_bit j (drop_bit j (int p))"
  proof -
    have "int (2 ^ j) - 1 = mask j" by (simp add: mask_eq_exp_minus_1)
    then show ?thesis by (auto intro!: bit_eqI simp: bit_simps)
  qed
  also have "\<dots> = int (p div 2 ^ j * 2 ^ j)" by (simp add: push_bit_eq_mult drop_bit_eq_div zdiv_int)
  finally show ?thesis by (simp only: align_down_def minus_mod_eq_div_mult nat_int)
qed

text \<open>The block of \<open>break_\<close> begins inside the free block when that holds the request with its alignment.\<close>

lemma align_down_mem:
  assumes j: "3 \<le> j" and b: "8 dvd b" and n: "8 dvd n" and le: "req + 2 ^ j \<le> n"
  defines "p \<equiv> align_down (b + n - (8 + req) + 8) (2 ^ j)"
  shows "2 ^ j dvd p" "b + 8 \<le> p" "p - 8 + (8 + req) \<le> b + n" "8 dvd p"
proof -
  let ?q = "b + n - (8 + req) + 8"
  have "(2::nat) ^ 3 \<le> 2 ^ j" using j by (simp only: power_increasing_iff)
  then have q: "?q = b + n - req" using le by simp
  have p: "p = ?q - ?q mod 2 ^ j" by (simp add: p_def align_down_pow)
  then show d: "2 ^ j dvd p" by (simp add: minus_mod_eq_mult_div)
  have "(2::nat) ^ 3 dvd 2 ^ j" using j by (rule le_imp_power_dvd)
  with d show d8: "8 dvd p" using dvd_trans by auto
  have m: "?q mod 2 ^ j < 2 ^ j" "?q mod 2 ^ j \<le> ?q" by simp_all
  have "b < p" using p q m le by linarith
  with d8 b show "b + 8 \<le> p" by (metis add.commute dvd_imp_le dvd_diff_nat less_imp_le zero_less_diff le_diff_conv2)
  show "p - 8 + (8 + req) \<le> b + n" using p q le \<open>b + 8 \<le> p\<close> by linarith
qed

lemma free_setD: "(b, k) \<in> free_set B \<Longrightarrow> \<exists>n. B b = Some (n, True) \<and> k = block_order n"
  by (simp add: free_set_def)

lemma coalesced_cut:
  assumes ok: "tags_ok A B s" and co: "coalesced B" and b: "B b = Some (n, True)" and x: "24 \<le> x" "x + 24 \<le> n"
  shows "coalesced (cut b x (n - x) True False B)"
proof -
  have x0: "0 < x" using x by simp
  have co': "B z = Some (m, True) \<Longrightarrow> B (z + m) = Some (k, True) \<Longrightarrow> False" for z m k
    using co by (auto simp: coalesced_def)
  show ?thesis
    unfolding coalesced_def
  proof (intro allI impI notI)
    fix z m k
    assume z: "cut b x (n - x) True False B z = Some (m, True)" and zm: "cut b x (n - x) True False B (z + m) = Some (k, True)"
    show False
    proof (cases "z = b")
      case True
      with z zm show False using x0 by (auto simp: cut_def)
    next
      case F: False
      with z have zB: "B z = Some (m, True)" unfolding cut_Some [OF x0] by blast
      from zm have "z + m = b \<or> B (z + m) = Some (k, True)" unfolding cut_Some [OF x0] by blast
      with co' [OF zB] b show False by auto
    qed
  qed
qed

lemma free_set_cut:
  assumes "B b = Some (n, True)" "B (b + x) = None" "0 < x"
  shows "free_set (cut b x (n - x) True False B) = insert (b, block_order x) (free_set B - {(b, block_order n)})"
  unfolding free_set_def cut_Some [OF assms(3)] using assms by auto

lemma live_cut:
  assumes "B b = Some (n, True)" "B (b + x) = None" "0 < x"
  shows "live (cut b x (n - x) True False B) = insert (b + x, n - x) (live B)"
  unfolding live_def cut_Some [OF assms(3)] using assms by auto

lemma heap_order:
  assumes "heap_ok A B s" "B b = Some (n, f)"
  shows "tag_order (m_size s b) = block_order n" "tag_order (m_size s b) < 64"
    "(b, k) \<in> free_set B \<Longrightarrow> k = tag_order (m_size s b)" "f \<Longrightarrow> (b, tag_order (m_size s b)) \<in> free_set B"
    "\<not> f \<Longrightarrow> (b, k) \<notin> free_set B"
proof -
  have t: "tags_ok A B s" using assms(1) by (simp add: heap_ok_def)
  from block_tags(4,5) [OF t assms(2)] show o: "tag_order (m_size s b) = block_order n" "tag_order (m_size s b) < 64" by simp_all
  show "(b, k) \<in> free_set B \<Longrightarrow> k = tag_order (m_size s b)" "f \<Longrightarrow> (b, tag_order (m_size s b)) \<in> free_set B"
    "\<not> f \<Longrightarrow> (b, k) \<notin> free_set B"
    unfolding o using assms(2) by (auto simp: free_set_def)
qed

lemma break_split:
  assumes ok: "heap_ok A B s" and b: "B b = Some (n, True)" and x: "24 \<le> x" "x + 24 \<le> n" "8 dvd x"
  defines "s' \<equiv> set_tags (b + x) (b + n) (encode_size (n - x) (block_order (n - x)) False) (change_block_size b x (b + x) s)"
  shows "heap_ok A (cut b x (n - x) True False B) s'"
proof -
  have t: "tags_ok A B s" "coalesced B" "lists_ok (free_set B) s" using ok by (auto simp: heap_ok_def)
  have n: "n \<le> 32768" by (rule block_size_le [OF t(1) b])
  have bx: "B (b + x) = None" by (rule cut_bounds(2) [OF t(1) b x(1,2)])
  have "tags_ok A (cut b x (n - x) True False B) s'"
    using tags_ok_cut [OF t(1) b x, of True False] by (rule iffD2 [OF tags_ok_cong, rotated -1]) (simp_all add: s'_def cut_tags_def)
  moreover have "coalesced (cut b x (n - x) True False B)" by (rule coalesced_cut [OF t(1,2) b x(1,2)])
  moreover have "lists_ok (free_set (cut b x (n - x) True False B)) s'"
  proof -
    have "block_order x < 64" using block_order_sound(1) [of x] x n by simp
    then have "lists_ok (insert (b, block_order x) (free_set B - {(b, tag_order (m_size s b))})) (change_block_size b x (b + x) s)"
      by (intro lists_ok_change t(3) heap_order(2) [OF ok b] heap_order(4) [OF ok b]) (auto dest: heap_order(3) [OF ok b])
    then show ?thesis using x(1) by (simp add: s'_def free_set_cut [OF b bx] heap_order(1) [OF ok b])
  qed
  ultimately show ?thesis by (simp add: heap_ok_def)
qed

lemma fuse_self:
  assumes "tags_ok A B s" "B b = Some (n, g)"
  shows "fuse b (b + n) f B = B(b \<mapsto> (n, f))" "fusable A B b (b + n)"
proof -
  have "B x = None" if "b < x" "x < b + n" for x
    using boundary_apart [OF assms, of x] that by (cases "B x") auto
  then show "fuse b (b + n) f B = B(b \<mapsto> (n, f))" by (auto simp: fuse_def)
  have "b + n \<in> ends A \<or> b + n \<in> dom B" using assms unfolding tags_ok_def nexts_ok_def by blast
  moreover have "\<exists>a\<in>A. a \<le> b \<and> b + n \<le> a + area_size" using assms unfolding tags_ok_def in_areas_def by blast
  ultimately show "fusable A B b (b + n)" using assms block_size_le(1) [OF assms] by (auto simp: fusable_def)
qed

lemma break_whole:
  assumes ok: "heap_ok A B s" and b: "B b = Some (n, True)"
  defines "s' \<equiv> set_tags b (b + n) (encode_size n (block_order n) False) (remove_free_block b (block_order n) s)"
  shows "heap_ok A (B(b \<mapsto> (n, False))) s'" "live (B(b \<mapsto> (n, False))) = insert (b, n) (live B)"
proof -
  have t: "tags_ok A B s" "coalesced B" "lists_ok (free_set B) s" using ok by (auto simp: heap_ok_def)
  have "tags_ok A (B(b \<mapsto> (n, False))) s'"
    using tags_ok_fuse [OF t(1) fuse_self(2) [OF t(1) b], of False] fuse_self(1) [OF t(1) b]
    by (simp add: s'_def) (erule iffD2 [OF tags_ok_cong, rotated -1]; simp)
  moreover have "coalesced (B(b \<mapsto> (n, False)))" using t(2) by (simp add: coalesced_def)
  moreover have "free_set (B(b \<mapsto> (n, False))) = free_set B - {(b, block_order n)}" using b by (auto simp: free_set_def split: if_splits)
  moreover have "lists_ok (free_set B - {(b, block_order n)}) (remove_free_block b (block_order n) s)"
    using heap_order(4) [OF ok b] heap_order(2) [OF ok b] unfolding heap_order(1) [OF ok b] by (intro lists_ok_remove t(3)) auto
  ultimately show "heap_ok A (B(b \<mapsto> (n, False))) s'" by (simp add: heap_ok_def s'_def)
  show "live (B(b \<mapsto> (n, False))) = insert (b, n) (live B)" using b by (auto simp: live_def split: if_splits)
qed
end
