(* ===== verification/PoolAlloc.thy ===== *)
theory PoolAlloc
  imports PoolHeap
begin

text \<open>
  \<open>alloc\<close> and \<open>free\<close> of \<open>PoolImpl\<close> on a well-formed heap: what they hand out and take back, that they keep the heap
  well-formed, and the run on which \<open>alloc\<close> fails its assertion because a free block is filed under the class above its size.
\<close>

unbundle bit_operations_syntax

section \<open>Breaking a free block\<close>

lemma break_block_ok:
  assumes ok: "heap_ok A B s" and b: "B b = Some (n, True)" and j: "3 \<le> j" and req: "16 \<le> req" "req + 2 ^ j \<le> n"
  obtains b' m B' s' where "break_block b (hdr + req) (2 ^ j) s = Some (b', s')" "heap_ok A B' s'"
    "(b', m) \<notin> live B" "live B' = insert (b', m) (live B)" "hdr + req \<le> m" "B' b' = Some (m, False)"
    "b' = b \<or> 2 ^ j dvd mem b'"
proof -
  have t: "tags_ok A B s" using ok by (simp add: heap_ok_def)
  have n: "24 \<le> n" "n \<le> 32768" "8 dvd n" "8 dvd b" "24 \<le> b" by (rule block_size_le [OF t b])+
  define p where "p = align_down (b + n - (8 + req) + 8) (2 ^ j)"
  have p: "2 ^ j dvd p" "b + 8 \<le> p" "p - 8 + (8 + req) \<le> b + n" "8 dvd p"
    unfolding p_def by (rule align_down_mem [OF j n(4) n(3) req(2)])+
  define x where "x = p - 8 - b"
  have x: "p - 8 = b + x" "x + (8 + req) \<le> n" "8 dvd x" using p n by (auto simp: x_def dvd_diff_nat)
  have size: "tag_size (m_size s b) = n" "tag_order (m_size s b) = block_order n" "m_size s b = encode_size n (block_order n) True"
    using block_tags [OF t b] by simp_all
  have wrap: "nat (int k mod 2 ^ 64) = k" if "k \<le> n" for k
  proof -
    have "int k < 2 ^ 64" using that n(2) by simp
    then show ?thesis by simp
  qed
  have new: "nat ((int (b + x) - int b) mod 2 ^ 64) = x" using wrap [of x] x(2) by simp
  have nx: "nat ((int n - int x) mod 2 ^ 64) = n - x" using wrap [of "n - x"] x(2) by (simp add: of_nat_diff)
  have req8: "8 + req \<le> n" "8 + req \<le> n - x" using x(2) by simp_all
  define s1' where "s1' = set_tags b (b + n) (encode_size n (block_order n) False) (remove_free_block b (block_order n) s)"
  define s2' where
    "s2' = set_tags (b + x) (b + n) (encode_size (n - x) (block_order (n - x)) False) (change_block_size b x (b + x) s)"
  have bn: "b + x + (n - x) = b + n" using x(2) by simp
  have e: "m_size s b AND (NOT k_free_mask) = encode_size n (block_order n) False"
    unfolding size(3) using block_tags(5) [OF t b] by (simp only: encode_size_free)
  have brk: "break_block b (hdr + req) (2 ^ j) s = (if x < 24 then Some (b, s1') else Some (b + x, s2'))"
    unfolding break_block_def Let_def size(1,2) hdr_def p_def [symmetric] x(1) new sizeof_PoolBlock_def next_block_def nx e bn
      s1'_def [symmetric] s2'_def [symmetric] using req8 by simp
  show ?thesis
  proof (cases "x < 24")
    case True
    then have "break_block b (hdr + req) (2 ^ j) s = Some (b, s1')" by (simp add: brk)
    moreover note break_whole [OF ok b, folded s1'_def]
    moreover have "(b, n) \<notin> live B" using b by (simp add: live_def)
    ultimately show ?thesis using that [of b s1' "B(b \<mapsto> (n, False))" n] req8(1) by (simp add: hdr_def)
  next
    case False
    then have xx: "24 \<le> x" "x + 24 \<le> n" using x(2) req by simp_all
    have bx: "B (b + x) = None" using cut_bounds(2) [OF t b xx] .
    show ?thesis
    proof (rule that)
      show "break_block b (hdr + req) (2 ^ j) s = Some (b + x, s2')" using False by (simp add: brk)
      show "heap_ok A (cut b x (n - x) True False B) s2'" unfolding s2'_def by (rule break_split [OF ok b xx x(3)])
      show "live (cut b x (n - x) True False B) = insert (b + x, n - x) (live B)"
        by (rule live_cut [OF b bx]) (use xx in simp)
      show "(b + x, n - x) \<notin> live B" using bx by (simp add: live_def)
      show "cut b x (n - x) True False B (b + x) = Some (n - x, False)" by (simp add: cut_def)
      show "hdr + req \<le> n - x" using req8(2) by (simp add: hdr_def)
      have "mem (b + x) = p" using x(1) p(2) by (simp add: mem_def hdr_def)
      with p(1) show "b + x = b \<or> 2 ^ j dvd mem (b + x)" by simp
    qed
  qed
qed

definition fresh_chunk :: "addr \<Rightarrow> addr set \<Rightarrow> bool" where
  "fresh_chunk h A \<longleftrightarrow> 8 dvd h \<and> (\<forall>a\<in>A. h + 24 + area_size + 48 \<le> a \<or> a + area_size + 48 \<le> h + 24)"

lemma block_order_max: "block_order 32768 = 48"
  using block_order_sound(1,2) [of 32768] block_size_strict [of "block_order 32768" 48] block_size_ends(3)
  by (cases "block_order 32768 = 48") auto

lemma tags_ok_lists [simp]:
  "tags_ok A B (add_free_block b k s) = tags_ok A B s" "tags_ok A B (remove_free_block b k s) = tags_ok A B s"
  by (rule tags_ok_cong; simp)+

text \<open>The tags that \<open>alloc\<close> writes into a new area, and the area as one free block.\<close>

definition area_state :: "addr \<Rightarrow> poolimpl \<Rightarrow> poolimpl" where
  "area_state h s =
     s\<lparr>m_prev_size := (m_prev_size s)(h + 24 := encode_size 0 0 False),
       m_size := (m_size s)(h + 24 := encode_size 32768 48 True, h + 24 + area_size := encode_size 0 0 False),
       m_chuncks := h # m_chuncks s\<rparr>"

definition area_blocks :: "addr \<Rightarrow> blocks \<Rightarrow> blocks" where
  "area_blocks h B = B(h + 24 \<mapsto> (32768, True))"

lemma add_area_eq: "add_area h s = (h + 24, add_free_block (h + 24) 48 (area_state h s))"
  by (simp add: add_area_def Let_def k_max_order_def block_size_ends sizeof_PoolBlock_def area_size_def area_state_def)

lemma area_apart:
  assumes t: "tags_ok A B s" and h: "fresh_chunk h A"
  shows "B y = Some (n, f) \<Longrightarrow> y + n + 24 \<le> h + 24 \<or> h + 24 + area_size + 48 \<le> y"
    "B (h + 24) = None" "B (h + 24 + area_size) = None"
proof -
  have *: "y + n + 24 \<le> h + 24 \<or> h + 24 + area_size + 48 \<le> y" if y: "B y = Some (n, f)" for y n f
  proof -
    obtain a where "a \<in> A" "a \<le> y" "y + n \<le> a + area_size" using t y
      unfolding tags_ok_def in_areas_def by blast
    moreover from this(1) h have "h + 24 + area_size + 48 \<le> a \<or> a + area_size + 48 \<le> h + 24" by (auto simp: fresh_chunk_def)
    ultimately show ?thesis by linarith
  qed
  then show "B y = Some (n, f) \<Longrightarrow> y + n + 24 \<le> h + 24 \<or> h + 24 + area_size + 48 \<le> y" .
  show "B (h + 24) = None"
    using * [of "h + 24" "fst (the (B (h + 24)))" "snd (the (B (h + 24)))"]
    by (cases "B (h + 24)"; simp add: area_size_def)
  show "B (h + 24 + area_size) = None"
    using * [of "h + 24 + area_size" "fst (the (B (h + 24 + area_size)))" "snd (the (B (h + 24 + area_size)))"]
    by (cases "B (h + 24 + area_size)"; simp add: area_size_def)
qed

lemma areas_ok_area:
  assumes t: "tags_ok A B s" and h: "fresh_chunk h A"
  shows "areas_ok (insert (h + 24) A) (area_state h s)"
proof -
  have far: "h + 24 + area_size + 48 \<le> a \<or> a + area_size + 48 \<le> h + 24" if "a \<in> A" for a
    using h that by (simp add: fresh_chunk_def)
  then have "a + area_size \<noteq> h + 24" "a + area_size \<noteq> h + 24 + area_size" if "a \<in> A" for a
    using that by fastforce+
  moreover have "8 dvd a \<and> 24 \<le> a \<and> m_size s (a + area_size) = encode_size 0 0 False" if "a \<in> A" for a
    using t that by (simp add: tags_ok_def areas_ok_def)
  ultimately have 1: "\<forall>a\<in>insert (h + 24) A. 8 dvd a \<and> 24 \<le> a \<and> m_size (area_state h s) (a + area_size) = encode_size 0 0 False"
    using h by (simp add: area_state_def fresh_chunk_def)
  have pair: "a + area_size + 48 \<le> a'" if "a \<in> A" "a' \<in> A" "a < a'" for a a'
    using t that by (simp add: tags_ok_def areas_ok_def)
  have "\<forall>a\<in>insert (h + 24) A. \<forall>a'\<in>insert (h + 24) A. a < a' \<longrightarrow> a + area_size + 48 \<le> a'"
    using pair far by fastforce
  with 1 show ?thesis by (simp add: areas_ok_def)
qed

lemma nexts_ok_area:
  assumes t: "tags_ok A B s" and h: "fresh_chunk h A"
  shows "nexts_ok (insert (h + 24) A) (area_blocks h B) (area_state h s)"
  unfolding nexts_ok_def
proof (intro allI impI)
  fix x n f assume x: "area_blocks h B x = Some (n, f)"
  have "B x = Some (n, f) \<Longrightarrow> x + n \<in> ends A \<or> x + n \<in> dom B \<and> m_prev_size s (x + n) = m_size s x"
    using t unfolding tags_ok_def nexts_ok_def by blast
  moreover have "B x = Some (n, f) \<Longrightarrow> x + n \<noteq> h + 24 \<and> x \<noteq> h + 24 + area_size \<and> x \<noteq> h + 24"
    using area_apart(1) [OF t h, of x n f] area_apart(2,3) [OF t h] by auto
  ultimately show "x + n \<in> ends (insert (h + 24) A) \<or>
      x + n \<in> dom (area_blocks h B) \<and> m_prev_size (area_state h s) (x + n) = m_size (area_state h s) x"
    using x by (cases "x = h + 24") (auto simp: ends_def area_size_def area_blocks_def area_state_def)
qed

lemma prevs_ok_area:
  assumes t: "tags_ok A B s" and h: "fresh_chunk h A"
  shows "prevs_ok (insert (h + 24) A) (area_blocks h B) (area_state h s)"
  unfolding prevs_ok_def
proof
  fix y assume y: "y \<in> dom (area_blocks h B)"
  show "(y \<in> insert (h + 24) A \<and> m_prev_size (area_state h s) y = encode_size 0 0 False) \<or>
        (\<exists>c n f. area_blocks h B c = Some (n, f) \<and> c + n = y)"
  proof (cases "y = h + 24")
    case True
    then show ?thesis by (simp add: area_state_def)
  next
    case False
    with y have "y \<in> dom B" by (auto simp: area_blocks_def)
    then consider "y \<in> A \<and> m_prev_size s y = encode_size 0 0 False" | c n f where "B c = Some (n, f)" "c + n = y"
      using t unfolding tags_ok_def prevs_ok_def by blast
    then show ?thesis
    proof cases
      case 1
      with False show ?thesis by (simp add: area_state_def)
    next
      case (2 c n f)
      with area_apart(2) [OF t h] have "area_blocks h B c = Some (n, f)" by (auto simp: area_blocks_def)
      with 2(2) show ?thesis by blast
    qed
  qed
qed

lemma tags_ok_area:
  assumes t: "tags_ok A B s" and h: "fresh_chunk h A"
  shows "tags_ok (insert (h + 24) A) (area_blocks h B) (area_state h s)"
  unfolding tags_ok_def
proof (intro conjI areas_ok_area [OF t h] nexts_ok_area [OF t h] prevs_ok_area [OF t h])
  have o: "block_order 32768 = 48" by (rule block_order_max)
  show "tag_ok (area_blocks h B) (area_state h s)"
    using t o area_apart(3) [OF t h] h unfolding tags_ok_def tag_ok_def fresh_chunk_def area_blocks_def area_state_def
    by (auto simp: area_size_def)
  show "in_areas (insert (h + 24) A) (area_blocks h B)"
    using t unfolding tags_ok_def in_areas_def by (auto simp: area_size_def area_blocks_def)
  show "blocks_apart (area_blocks h B)"
    unfolding blocks_apart_def
  proof (intro allI impI)
    fix x n f c m g
    assume a: "area_blocks h B x = Some (n, f)" "area_blocks h B c = Some (m, g)" "x < c"
    have "B x = Some (n, f) \<Longrightarrow> B c = Some (m, g) \<Longrightarrow> x + n \<le> c"
      using t a(3) unfolding tags_ok_def blocks_apart_def by blast
    with a area_apart(1) [OF t h, of x n f] area_apart(1) [OF t h, of c m g] show "x + n \<le> c"
      by (auto simp: area_size_def area_blocks_def split: if_splits)
  qed
qed

lemma heap_ok_area:
  assumes ok: "heap_ok A B s" and h: "fresh_chunk h A"
  shows "heap_ok (insert (h + 24) A) (area_blocks h B) (snd (add_area h s))"
proof -
  have t: "tags_ok A B s" "coalesced B" "lists_ok (free_set B) s" using ok by (auto simp: heap_ok_def)
  note ap = area_apart [OF t(1) h]
  have co: "B z = Some (m, True) \<Longrightarrow> B (z + m) = Some (k, True) \<Longrightarrow> False" for z m k
    using t(2) by (auto simp: coalesced_def)
  have "coalesced (area_blocks h B)"
    unfolding coalesced_def
  proof (intro allI impI notI)
    fix z m k
    assume z: "area_blocks h B z = Some (m, True)" and zm: "area_blocks h B (z + m) = Some (k, True)"
    show False
    proof (cases "z = h + 24")
      case True
      with z zm ap(3) show False by (auto simp: area_blocks_def area_size_def split: if_splits)
    next
      case False
      with z have zB: "B z = Some (m, True)" by (simp add: area_blocks_def)
      with ap(1) [OF zB] have "z + m \<noteq> h + 24" by auto
      with zm co [OF zB] show False by (auto simp: area_blocks_def)
    qed
  qed
  moreover have "free_set (area_blocks h B) = insert (h + 24, 48) (free_set B)"
    using ap(2) by (auto simp: free_set_def area_blocks_def block_order_max split: if_splits)
  moreover have "lists_ok (insert (h + 24, 48) (free_set B)) (add_free_block (h + 24) 48 (area_state h s))"
  proof (rule lists_ok_add)
    show "lists_ok (free_set B) (area_state h s)" using t(3) by (simp add: lists_ok_def area_state_def)
    show "(h + 24, 48) \<notin> free_set B" using ap(2) by (auto simp: free_set_def)
  qed simp
  ultimately show ?thesis using tags_ok_area [OF t(1) h] by (simp add: heap_ok_def add_area_eq)
qed

lemma live_area: "tags_ok A B s \<Longrightarrow> fresh_chunk h A \<Longrightarrow> live (area_blocks h B) = live B"
  using area_apart(2) [of A B s h] by (auto simp: live_def area_blocks_def split: if_splits)

section \<open>Allocation\<close>

lemma takeWhile_upt:
  fixes P :: "nat \<Rightarrow> bool" and n :: nat
  defines "i \<equiv> length (takeWhile P [0..<n])"
  shows "i \<le> n" "i < n \<Longrightarrow> \<not> P i" "k < i \<Longrightarrow> P k"
proof -
  show le: "i \<le> n" using length_takeWhile_le [of P "[0..<n]"] by (simp add: i_def)
  show "i < n \<Longrightarrow> \<not> P i" using nth_length_takeWhile [of P "[0..<n]"] by (simp add: i_def)
  assume k: "k < i"
  then have "takeWhile P [0..<n] ! k = k" using le takeWhile_nth [of k P "[0..<n]"] by (simp add: i_def)
  moreover have "takeWhile P [0..<n] ! k \<in> set (takeWhile P [0..<n])" using k unfolding i_def by (rule nth_mem)
  ultimately show "P k" by (metis set_takeWhileD)
qed

lemma ffs64_spec: "ffs64 v \<le> 64" "ffs64 v < 64 \<Longrightarrow> bit v (ffs64 v)" "k < ffs64 v \<Longrightarrow> \<not> bit v k"
  using takeWhile_upt(1) [of "\<lambda>i. \<not> bit v i" 64] takeWhile_upt(2) [of "\<lambda>i. \<not> bit v i" 64]
    takeWhile_upt(3) [of k "\<lambda>i. \<not> bit v i" 64] unfolding ffs64_def by blast+

lemma bit_above: "k < 64 \<Longrightarrow> i < 64 \<Longrightarrow> bit (NOT ((2 :: 64 word) ^ k - 1)) i \<longleftrightarrow> k \<le> i"
proof -
  have "(2 :: 64 word) ^ k - 1 = mask k" by (simp add: mask_eq_exp_minus_1)
  then show "k < 64 \<Longrightarrow> i < 64 \<Longrightarrow> bit (NOT ((2 :: 64 word) ^ k - 1)) i \<longleftrightarrow> k \<le> i"
    by (auto simp: bit_simps)
qed

text \<open>The class that \<open>alloc\<close> takes a block from (64: none), and that the block holds the request with its alignment.\<close>

definition alloc_idx :: "nat \<Rightarrow> nat \<Rightarrow> poolimpl \<Rightarrow> nat" where
  "alloc_idx n al s = ffs64 (m_free_flags s AND (NOT (push_bit (block_order (req_size n + req_align al)) 1 - 1)))"

definition PoolImpl_fits :: "nat \<Rightarrow> nat \<Rightarrow> poolimpl \<Rightarrow> bool" where
  "PoolImpl_fits n al s \<longleftrightarrow>
     (alloc_idx n al s \<noteq> 64 \<longrightarrow> req_size n + req_align al \<le> tag_size (m_size s (hd (m_free s (alloc_idx n al s)))))"

lemma req_bounds: "16 \<le> req_size n" "8 \<le> req_align al" by (simp_all add: req_size_def req_align_def)

lemma req_ge: "n \<le> req_size n" by (simp add: req_size_def)

lemma alloc_idx_pick:
  assumes ok: "heap_ok A B s" and le: "req_size n + req_align al \<le> 32768" and i: "alloc_idx n al s \<noteq> 64"
  obtains b bs k where "m_free s (alloc_idx n al s) = b # bs" "B b = Some (k, True)" "block_order k = alloc_idx n al s"
    "block_order (req_size n + req_align al) \<le> alloc_idx n al s"
proof -
  let ?i = "alloc_idx n al s" let ?o = "block_order (req_size n + req_align al)"
  have o: "?o < 64" using block_order_sound(1) [of "req_size n + req_align al"] le req_bounds(1) [of n] by simp
  have i64: "?i < 64" using ffs64_spec(1) i unfolding alloc_idx_def by (metis le_neq_implies_less)
  have bb: "bit (m_free_flags s AND (NOT (push_bit ?o 1 - 1))) ?i"
    using ffs64_spec(2) [of "m_free_flags s AND (NOT (push_bit ?o 1 - 1))"] i64 by (simp only: alloc_idx_def)
  then have oi: "?o \<le> ?i" "bit (m_free_flags s) ?i" using bit_above [OF o i64] by (simp_all add: bit_and_iff)
  have "m_free s ?i \<noteq> []" using ok i64 oi(2) by (simp add: heap_ok_def lists_ok_def)
  then obtain b bs where bs: "m_free s ?i = b # bs" by (cases "m_free s ?i") auto
  then have "b \<in> set (m_free s ?i)" by simp
  then have "(b, ?i) \<in> free_set B" using ok unfolding heap_ok_def lists_ok_def by blast
  then show ?thesis using that bs oi by (auto simp: free_set_def)
qed

text \<open>What a successful \<open>alloc\<close> means: memory of the requested size, apart from all memory that is handed out.\<close>

definition alloc_done :: "addr set \<Rightarrow> blocks \<Rightarrow> nat \<Rightarrow> addr \<Rightarrow> poolimpl \<Rightarrow> bool" where
  "alloc_done A B n p s' \<longleftrightarrow>
     (\<exists>A' B' m. heap_ok A' B' s' \<and> A \<subseteq> A' \<and> (from_mem p, m) \<notin> live B \<and> live B' = insert (from_mem p, m) (live B) \<and>
        hdr + n \<le> m \<and> 8 dvd p \<and> (\<forall>(c, k)\<in>live B. c + k \<le> from_mem p \<or> p + n \<le> c))"

lemma PoolImpl_alloc_break:
  assumes ok: "heap_ok A0 B0 s0" and A: "A \<subseteq> A0" "live B0 = live B" and b: "B0 b = Some (k, True)"
    and al: "req_align al = 2 ^ j" and n: "n \<le> req_size n'" "req_size n' + req_align al \<le> k"
  shows "\<exists>b' s'. break_block b (hdr + req_size n') (req_align al) s0 = Some (b', s') \<and> \<not> tag_free (m_size s' b') \<and>
     alloc_done A B n (mem b') s'"
proof -
  have j: "3 \<le> j"
  proof (rule ccontr)
    assume "\<not> 3 \<le> j"
    then have "(2::nat) ^ j < 2 ^ 3" by (simp only: power_strict_increasing_iff)
    with al req_bounds(2) [of al] show False by simp
  qed
  obtain b' m B' s' where br: "break_block b (hdr + req_size n') (2 ^ j) s0 = Some (b', s')" "heap_ok A0 B' s'"
    "(b', m) \<notin> live B0" "live B' = insert (b', m) (live B0)" "hdr + req_size n' \<le> m" "B' b' = Some (m, False)"
    by (rule break_block_ok [OF ok b j req_bounds(1) [of n']]) (use n(2) al in auto)
  have t: "tags_ok A0 B' s'" using br(2) by (simp add: heap_ok_def)
  have "\<not> tag_free (m_size s' b')" using block_tags(3) [OF t br(6)] by simp
  moreover have "alloc_done A B n (mem b') s'"
    unfolding alloc_done_def
  proof (intro exI conjI)
    show "heap_ok A0 B' s'" "A \<subseteq> A0" by (fact br(2), fact A(1))
    have fm: "from_mem (mem b') = b'" by (simp add: from_mem_def mem_def)
    show "(from_mem (mem b'), m) \<notin> live B" "live B' = insert (from_mem (mem b'), m) (live B)"
      using br(3,4) A(2) by (simp_all add: fm)
    show "hdr + n \<le> m" using br(5) n(1) by simp
    show "8 dvd mem b'" using block_size_le(4) [OF t br(6)] by (simp add: mem_def hdr_def)
    show "\<forall>(c, i)\<in>live B. c + i \<le> from_mem (mem b') \<or> mem b' + n \<le> c"
    proof (clarify)
      fix c i assume c: "(c, i) \<in> live B" "\<not> mem b' + n \<le> c"
      then have "(c, i) \<in> live B'" "c \<noteq> b' \<or> i \<noteq> m" using br(3,4) A(2) by auto
      then have cB: "B' c = Some (i, False)" "c \<noteq> b'" using br(6) by (auto simp: live_def)
      have "\<not> b' < c" using boundary_apart [OF t br(6), of c] cB(1) c(2) br(5) n(1) by (auto simp: mem_def hdr_def)
      then have "c < b'" using cB(2) by simp
      then show "c + i \<le> from_mem (mem b')" using boundary_apart [OF t cB(1), of b'] br(6) by (auto simp: fm)
    qed
  qed
  ultimately show ?thesis using br(1) al by auto
qed

lemma PoolImpl_alloc_cases:
  assumes ok: "heap_ok A B s" and n: "req_size n + req_align al < 16384"
    and h: "malloc (area_size + 48) = Some h" "fresh_chunk h A"
  obtains (listed) b k where "alloc_idx n al s \<noteq> 64" "hd (m_free s (alloc_idx n al s)) = b" "B b = Some (k, True)"
      "tag_size (m_size s b) = k"
      "PoolImpl_alloc malloc n al s = (case break_block b (hdr + req_size n) (req_align al) s of None \<Rightarrow> AAssert
        | Some (b', s'') \<Rightarrow> if tag_free (m_size s'' b') then AAssert else AMem (mem b') s'')"
    | (area) "alloc_idx n al s = 64"
      "PoolImpl_alloc malloc n al s = (case break_block (h + 24) (hdr + req_size n) (req_align al) (snd (add_area h s)) of None \<Rightarrow> AAssert
        | Some (b', s'') \<Rightarrow> if tag_free (m_size s'' b') then AAssert else AMem (mem b') s'')"
proof -
  have cls: "\<not> block_size k_malloc_order \<le> req_size n + req_align al"
    using n by (simp add: k_malloc_order_def block_size_ends)
  have sz: "block_size k_max_order + 2 * sizeof_PoolBlock = area_size + 48"
    by (simp add: k_max_order_def block_size_ends sizeof_PoolBlock_def area_size_def)
  have t: "tags_ok A B s" using ok by (simp add: heap_ok_def)
  show ?thesis
  proof (cases "alloc_idx n al s = 64")
    case True
    show ?thesis
      by (rule area [OF True]) (use True cls h(1) in \<open>simp add: PoolImpl_alloc_def [of malloc n al s, unfolded Let_def req_mod [OF n]] alloc_idx_def sz add_area_eq\<close>)
  next
    case False
    obtain b bs k where b: "m_free s (alloc_idx n al s) = b # bs" "B b = Some (k, True)"
      by (rule alloc_idx_pick [OF ok _ False]) (use n in auto)
    have k: "tag_size (m_size s b) = k" by (rule block_tags(2) [OF t b(2)])
    show ?thesis
      by (rule listed [OF False _ b(2) k])
        (use b(1) cls False in \<open>simp_all add: PoolImpl_alloc_def [of malloc n al s, unfolded Let_def req_mod [OF n]] alloc_idx_def\<close>)
  qed
qed

text \<open>C9: Let the heap be well-formed, the request below the class of the system, its alignment a power of two, and let \<open>malloc\<close> give a new area;
and let the alignment be at most 8, or the block that \<open>alloc\<close> picks hold the request together with its alignment. Then \<open>alloc\<close> either gives
memory of the requested size that overlaps nothing handed out, at a multiple of 8, and keeps the heap well-formed, which it does exactly when
the block holds the request with its alignment; or it fails its assertion. (Without the last condition the memory can overlap other memory:
\<open>PoolImpl_overlap\<close> below.)\<close>

theorem PoolImpl_alloc_ok:
  assumes ok: "heap_ok A B s" and n: "req_size n + req_align al < 16384" and al: "req_align al = 2 ^ j"
    and h: "malloc (area_size + 48) = Some h" "fresh_chunk h A"
    and fit: "PoolImpl_fits n al s \<or> al \<le> 8"
  shows "case PoolImpl_alloc malloc n al s of AMem p s' \<Rightarrow> PoolImpl_fits n al s \<and> alloc_done A B n p s'
           | AAssert \<Rightarrow> \<not> PoolImpl_fits n al s | _ \<Rightarrow> False"
proof (cases rule: PoolImpl_alloc_cases [where malloc = malloc, OF ok n h])
  case (1 b k)
  show ?thesis
  proof (cases "req_size n + req_align al \<le> k")
    case True
    obtain b' s' where "break_block b (hdr + req_size n) (req_align al) s = Some (b', s')" "\<not> tag_free (m_size s' b')"
      "alloc_done A B n (mem b') s'"
      using PoolImpl_alloc_break [OF ok subset_refl refl 1(3) al req_ge True] by blast
    with 1 True show ?thesis by (simp add: PoolImpl_fits_def)
  next
    case False
    with fit 1 have "al \<le> 8" "\<not> PoolImpl_fits n al s" by (auto simp: PoolImpl_fits_def)
    with False have "\<not> hdr + req_size n \<le> tag_size (m_size s b)" using 1(4) by (simp add: hdr_def req_align_def)
    then have "break_block b (hdr + req_size n) (req_align al) s = None" by (simp add: break_block_def Let_def)
    with 1 \<open>\<not> PoolImpl_fits n al s\<close> show ?thesis by simp
  qed
next
  case 2
  have ok': "heap_ok (insert (h + 24) A) (area_blocks h B) (snd (add_area h s))" by (rule heap_ok_area [OF ok h(2)])
  have "tags_ok A B s" using ok by (simp add: heap_ok_def)
  then have lv: "live (area_blocks h B) = live B" by (rule live_area [OF _ h(2)])
  have b: "area_blocks h B (h + 24) = Some (32768, True)" by (simp add: area_blocks_def)
  have le: "req_size n + req_align al \<le> 32768" using n by simp
  obtain b' s' where "break_block (h + 24) (hdr + req_size n) (req_align al) (snd (add_area h s)) = Some (b', s')"
    "\<not> tag_free (m_size s' b')" "alloc_done A B n (mem b') s'"
    using PoolImpl_alloc_break [OF ok' subset_insertI lv b al req_ge le] by blast
  with 2 show ?thesis by (simp add: PoolImpl_fits_def)
qed

section \<open>Deallocation\<close>

lemma prev_cases:
  assumes t: "tags_ok A B s" and b: "B b = Some (m, g)"
  obtains (none) "\<not> tag_free (m_prev_size s b)" "\<And>c k. B c = Some (k, True) \<Longrightarrow> c + k \<noteq> b"
    | (free) c k where "B c = Some (k, True)" "c + k = b" "tag_free (m_prev_size s b)" "tag_size (m_prev_size s b) = k"
proof -
  have nx: "m_prev_size s b = m_size s c" if "B c = Some (k, f)" "c + k = b" for c k f
    using t that b end_not_block [OF t, of b] unfolding tags_ok_def nexts_ok_def by (metis option.distinct(1))
  show ?thesis
  proof (cases "\<exists>c k. B c = Some (k, True) \<and> c + k = b")
    case True
    then obtain c k where c: "B c = Some (k, True)" "c + k = b" by blast
    then show ?thesis using free [OF c] nx [OF c] block_tags(2,3) [OF t c(1)] by simp
  next
    case False
    have "\<not> tag_free (m_prev_size s b)"
    proof -
      have "b \<in> dom B" using b by auto
      with t consider "m_prev_size s b = encode_size 0 0 False" | c k f where "B c = Some (k, f)" "c + k = b"
        unfolding tags_ok_def prevs_ok_def by blast
      then show ?thesis
      proof cases
        case 1
        then show ?thesis by (simp add: encode_tags)
      next
        case (2 c k f)
        with False have "\<not> f" by (cases f) auto
        then show ?thesis using nx [OF 2] block_tags(3) [OF t 2(1)] by simp
      qed
    qed
    then show ?thesis using False none by blast
  qed
qed

lemma next_cases:
  assumes t: "tags_ok A B s" and b: "B b = Some (m, g)"
  obtains (none) "\<not> tag_free (m_size s (b + m))" "\<And>k. B (b + m) \<noteq> Some (k, True)"
    | (free) k where "B (b + m) = Some (k, True)" "tag_free (m_size s (b + m))" "tag_size (m_size s (b + m)) = k"
proof (cases "B (b + m)")
  case None
  with t b have "b + m \<in> ends A" unfolding tags_ok_def nexts_ok_def by blast
  with t have "m_size s (b + m) = encode_size 0 0 False" by (auto simp: ends_def tags_ok_def areas_ok_def)
  then show ?thesis using none None by (simp add: encode_tags)
next
  case (Some p)
  then obtain k f where k: "B (b + m) = Some (k, f)" by (cases p) auto
  show ?thesis using none free block_tags(2,3) [OF t k] k by (cases f) simp_all
qed

lemma fusable_step:
  assumes t: "tags_ok A B s" and fu: "fusable A B b c" and c: "B c = Some (k, f)"
  shows "fusable A B b (c + k)"
proof -
  obtain a where a: "a \<in> A" "a \<le> b" "c \<le> a + area_size" using fu by (auto simp: fusable_def)
  obtain a' where a': "a' \<in> A" "a' \<le> c" "c + k \<le> a' + area_size" using t c unfolding tags_ok_def in_areas_def by blast
  have "a = a'" using same_area [OF t a(1) a'(1), of c] a a' fu by (simp add: fusable_def)
  moreover have "c + k \<in> ends A \<or> c + k \<in> dom B" using t c unfolding tags_ok_def nexts_ok_def by blast
  ultimately show ?thesis using fu a a' by (auto simp: fusable_def)
qed

lemma coalesced_fuse:
  assumes t: "tags_ok A B s" and co: "coalesced B" and fu: "fusable A B b c"
    and nx: "\<And>k. B c \<noteq> Some (k, True)" and pv: "\<And>z k. B z = Some (k, True) \<Longrightarrow> z + k \<noteq> b"
  shows "coalesced (fuse b c True B)"
  unfolding coalesced_def
proof (intro allI impI notI)
  fix z m k
  have lt: "b < c" using fu by (simp add: fusable_def)
  have co': "B z = Some (m, True) \<Longrightarrow> B (z + m) = Some (k, True) \<Longrightarrow> False" for z m k
    using co by (auto simp: coalesced_def)
  assume z: "fuse b c True B z = Some (m, True)" and zm: "fuse b c True B (z + m) = Some (k, True)"
  then consider "z = b" "m = c - b" | "B z = Some (m, True)" unfolding fuse_Some [OF lt] by blast
  then show False
  proof cases
    case 1
    then have "z + m = c" using lt by simp
    with zm nx lt show False by (auto simp: fuse_Some [OF lt])
  next
    case 2
    with pv have "z + m \<noteq> b" by blast
    with zm have "B (z + m) = Some (k, True)" unfolding fuse_Some [OF lt] by blast
    with co' [OF 2] show False .
  qed
qed

lemma fuse_sets:
  assumes "b < c"
  shows "live (fuse b c True B) = {(x, m) \<in> live B. x < b \<or> c \<le> x}"
    "free_set (fuse b c True B) = insert (b, block_order (c - b)) {(x, k) \<in> free_set B. x < b \<or> c \<le> x}"
  unfolding live_def free_set_def fuse_Some [OF assms] by auto

lemma in_block:
  assumes "tags_ok A B s" "B b = Some (m, g)" "B x = Some p" "b \<le> x" "x < b + m"
  shows "x = b"
  using boundary_apart [OF assms(1,2), of x] assms(3-5) by (cases "b = x") auto

lemma heap_ok_fuse:
  assumes ok: "heap_ok A B s" and fu: "fusable A B b c"
    and nx: "\<And>k. B c \<noteq> Some (k, True)" and pv: "\<And>z k. B z = Some (k, True) \<Longrightarrow> z + k \<noteq> b"
    and tags: "m_size s' = (m_size s)(b := encode_size (c - b) (block_order (c - b)) True)"
      "m_prev_size s' = (m_prev_size s)(c := encode_size (c - b) (block_order (c - b)) True)"
    and lists: "block_order (c - b) < 64 \<Longrightarrow>
      lists_ok (free_set (fuse b c True B)) s'"
  shows "heap_ok A (fuse b c True B) s'"
proof -
  have t: "tags_ok A B s" "coalesced B" using ok by (auto simp: heap_ok_def)
  have lt: "b < c" using fu by (simp add: fusable_def)
  have t': "tags_ok A (fuse b c True B) s'"
    using tags_ok_fuse [OF t(1) fu, of True] tags_ok_cong [of s' "set_tags b c (encode_size (c - b) (block_order (c - b)) True) s"]
    by (simp add: tags)
  have "fuse b c True B b = Some (c - b, True)" by (simp add: fuse_def)
  from block_tags(5) [OF t' this] have "block_order (c - b) < 64" by simp
  with t' coalesced_fuse [OF t fu nx pv] lists show ?thesis by (simp add: heap_ok_def)
qed

lemma fuse_run:
  assumes "b < c" "\<forall>x p. B x = Some p \<longrightarrow> (x < b \<or> c \<le> x) = (x \<notin> R)"
  shows "live (fuse b c True B) = live B - R \<times> UNIV"
    "free_set (fuse b c True B) = insert (b, block_order (c - b)) (free_set B - R \<times> UNIV)"
proof -
  have "(x < b \<or> c \<le> x) = (x \<notin> R)" if "(x, m) \<in> live B" for x m using assms(2) that by (auto simp: live_def)
  then show "live (fuse b c True B) = live B - R \<times> UNIV" by (auto simp: fuse_sets(1) [OF assms(1)])
  have "(x < b \<or> c \<le> x) = (x \<notin> R)" if "(x, m) \<in> free_set B" for x m using assms(2) that by (auto simp: free_set_def)
  then show "free_set (fuse b c True B) = insert (b, block_order (c - b)) (free_set B - R \<times> UNIV)"
    by (auto simp: fuse_sets(2) [OF assms(1)])
qed

lemma block_range:
  assumes "tags_ok A B s" "B b = Some (m, g)" "B x = Some p"
  shows "(x < b \<or> b + m \<le> x) = (x \<noteq> b)"
  using in_block [OF assms] block_size_le(1) [OF assms(1,2)] by fastforce

lemma live_remove: "B b = Some (m, False) \<Longrightarrow> live B - {b} \<times> UNIV = live B - {(b, m)}"
  by (auto simp: live_def)

lemma free_alone:
  assumes ok: "heap_ok A B s" and b: "B b = Some (m, False)"
    and nx: "\<And>k. B (b + m) \<noteq> Some (k, True)" and pv: "\<And>z k. B z = Some (k, True) \<Longrightarrow> z + k \<noteq> b"
  defines "s' \<equiv> add_free_block b (tag_order (m_size s b)) (set_tags b (b + m) (m_size s b OR k_free_mask) s)"
  shows "heap_ok A (fuse b (b + m) True B) s'" "live (fuse b (b + m) True B) = live B - {(b, m)}"
proof -
  have t: "tags_ok A B s" "lists_ok (free_set B) s" using ok by (auto simp: heap_ok_def)
  have m: "b < b + m" using block_size_le(1) [OF t(1) b] by simp
  have e: "m_size s b OR k_free_mask = encode_size m (block_order m) True" "tag_order (m_size s b) = block_order m"
    using block_tags(1,4,5) [OF t(1) b] by (simp_all add: encode_size_free)
  have run: "\<forall>x p. B x = Some p \<longrightarrow> (x < b \<or> b + m \<le> x) = (x \<notin> {b})" using block_range [OF t(1) b] by simp
  note run' = fuse_run [OF m run]
  have bF: "(b, k) \<notin> free_set B" for k using b by (simp add: free_set_def)
  show "heap_ok A (fuse b (b + m) True B) s'"
  proof (rule heap_ok_fuse [OF ok fuse_self(2) [OF t(1) b] nx pv])
    show "m_size s' = (m_size s)(b := encode_size (b + m - b) (block_order (b + m - b)) True)"
      "m_prev_size s' = (m_prev_size s)(b + m := encode_size (b + m - b) (block_order (b + m - b)) True)"
      by (simp_all add: s'_def e)
    assume "block_order (b + m - b) < 64"
    then have "lists_ok (insert (b, block_order m) (free_set B)) s'"
      unfolding s'_def e using bF by (intro lists_ok_add) (simp_all add: t(2))
    moreover have "free_set B - {b} \<times> UNIV = free_set B" using bF by auto
    ultimately show "lists_ok (free_set (fuse b (b + m) True B)) s'"
      unfolding run'(2) by simp
  qed auto
  show "live (fuse b (b + m) True B) = live B - {(b, m)}" unfolding run'(1) using live_remove [of B b m] b by simp
qed

lemma free_prev:
  assumes ok: "heap_ok A B s" and b: "B b = Some (m, False)" and c: "B c = Some (k, True)" "c + k = b"
    and nx: "\<And>i. B (b + m) \<noteq> Some (i, True)"
  defines "s' \<equiv> change_block_size c (k + m) (b + m) s"
  shows "heap_ok A (fuse c (b + m) True B) s'" "live (fuse c (b + m) True B) = live B - {(b, m)}"
proof -
  have t: "tags_ok A B s" "coalesced B" "lists_ok (free_set B) s" using ok by (auto simp: heap_ok_def)
  have sz: "24 \<le> m" "24 \<le> k" using block_size_le(1) [OF t(1) b] block_size_le(1) [OF t(1) c(1)] by auto
  have cm: "c < b + m" "b + m - c = k + m" using sz c(2) by auto
  have "(x < c \<or> b + m \<le> x) = (x \<notin> {b, c})" if "B x = Some p" for x p
    using block_range [OF t(1) b that] block_range [OF t(1) c(1) that] c(2) sz by auto
  then have "\<forall>x p. B x = Some p \<longrightarrow> (x < c \<or> b + m \<le> x) = (x \<notin> {b, c})" by blast
  note run = fuse_run [OF cm(1) this]
  have fu: "fusable A B c (b + m)"
    using fusable_step [OF t(1) fuse_self(2) [OF t(1) c(1)], of m False] b c(2) by simp
  have pv: "B z = Some (i, True) \<Longrightarrow> z + i \<noteq> c" for z i using t(2) c(1) by (auto simp: coalesced_def)
  have bF: "(b, i) \<notin> free_set B" for i using b by (simp add: free_set_def)
  show "heap_ok A (fuse c (b + m) True B) s'"
  proof (rule heap_ok_fuse [OF ok fu nx pv])
    show "m_size s' = (m_size s)(c := encode_size (b + m - c) (block_order (b + m - c)) True)"
      "m_prev_size s' = (m_prev_size s)(b + m := encode_size (b + m - c) (block_order (b + m - c)) True)"
      by (simp_all add: s'_def cm(2))
    assume o: "block_order (b + m - c) < 64"
    have "lists_ok (insert (c, block_order (k + m)) (free_set B - {(c, tag_order (m_size s c))})) s'"
      unfolding s'_def
      by (rule lists_ok_change [OF t(3) heap_order(4) [OF ok c(1)] heap_order(3) [OF ok c(1)] heap_order(2) [OF ok c(1)]])
        (use o cm(2) in simp_all)
    moreover have "free_set B - {b, c} \<times> UNIV = free_set B - {(c, tag_order (m_size s c))}"
      using bF heap_order(3) [OF ok c(1)] by auto
    ultimately show "lists_ok (free_set (fuse c (b + m) True B)) s'"
      unfolding run(2) cm(2) by simp
  qed auto
  have "live B - {b, c} \<times> UNIV = live B - {(b, m)}" using b c(1) by (auto simp: live_def)
  then show "live (fuse c (b + m) True B) = live B - {(b, m)}" unfolding run(1) .
qed

lemma free_next:
  assumes ok: "heap_ok A B s" and b: "B b = Some (m, False)" and d: "B (b + m) = Some (k, True)"
    and pv: "\<And>z i. B z = Some (i, True) \<Longrightarrow> z + i \<noteq> b"
  defines "s' \<equiv> change_block_size_to (b + m) (m + k) (b + m + k) b s"
  shows "heap_ok A (fuse b (b + m + k) True B) s'" "live (fuse b (b + m + k) True B) = live B - {(b, m)}"
proof -
  have t: "tags_ok A B s" "coalesced B" "lists_ok (free_set B) s" using ok by (auto simp: heap_ok_def)
  have sz: "24 \<le> m" "24 \<le> k" using block_size_le(1) [OF t(1) b] block_size_le(1) [OF t(1) d] by auto
  have cm: "b < b + m + k" "b + m + k - b = m + k" using sz by auto
  have "(x < b \<or> b + m + k \<le> x) = (x \<notin> {b, b + m})" if "B x = Some p" for x p
    using block_range [OF t(1) b that] block_range [OF t(1) d that] sz by auto
  then have "\<forall>x p. B x = Some p \<longrightarrow> (x < b \<or> b + m + k \<le> x) = (x \<notin> {b, b + m})" by blast
  note run = fuse_run [OF cm(1) this]
  have fu: "fusable A B b (b + m + k)" by (rule fusable_step [OF t(1) fuse_self(2) [OF t(1) b] d])
  have nx: "B (b + m + k) \<noteq> Some (i, True)" for i using t(2) d by (auto simp: coalesced_def)
  have bF: "(b, i) \<notin> free_set B" for i using b by (simp add: free_set_def)
  show "heap_ok A (fuse b (b + m + k) True B) s'"
  proof (rule heap_ok_fuse [OF ok fu nx pv])
    show "m_size s' = (m_size s)(b := encode_size (b + m + k - b) (block_order (b + m + k - b)) True)"
      "m_prev_size s' = (m_prev_size s)(b + m + k := encode_size (b + m + k - b) (block_order (b + m + k - b)) True)"
      by (simp_all add: s'_def cm(2))
    assume o: "block_order (b + m + k - b) < 64"
    have "lists_ok (insert (b, block_order (m + k)) (free_set B - {(b + m, tag_order (m_size s (b + m)))})) s'"
      unfolding s'_def
      by (rule lists_ok_change_to [OF t(3) heap_order(4) [OF ok d] bF heap_order(2) [OF ok d]]) (use o cm(2) in simp_all)
    moreover have "free_set B - {b, b + m} \<times> UNIV = free_set B - {(b + m, tag_order (m_size s (b + m)))}"
      using bF heap_order(3) [OF ok d] by auto
    ultimately show "lists_ok (free_set (fuse b (b + m + k) True B)) s'" unfolding run(2) cm(2) by simp
  qed auto
  have "live B - {b, b + m} \<times> UNIV = live B - {(b, m)}" using b d by (auto simp: live_def)
  then show "live (fuse b (b + m + k) True B) = live B - {(b, m)}" unfolding run(1) .
qed

lemma free_both:
  assumes ok: "heap_ok A B s" and b: "B b = Some (m, False)" and c: "B c = Some (k, True)" "c + k = b"
    and d: "B (b + m) = Some (i, True)"
  defines "s' \<equiv> change_block_size c (k + m + i) (b + m + i) (remove_free_block (b + m) (tag_order (m_size s (b + m))) s)"
  shows "heap_ok A (fuse c (b + m + i) True B) s'" "live (fuse c (b + m + i) True B) = live B - {(b, m)}"
proof -
  have t: "tags_ok A B s" "coalesced B" "lists_ok (free_set B) s" using ok by (auto simp: heap_ok_def)
  have sz: "24 \<le> m" "24 \<le> k" "24 \<le> i"
    using block_size_le(1) [OF t(1) b] block_size_le(1) [OF t(1) c(1)] block_size_le(1) [OF t(1) d] by auto
  have cm: "c < b + m + i" "b + m + i - c = k + m + i" using sz c(2) by auto
  have "(x < c \<or> b + m + i \<le> x) = (x \<notin> {b, c, b + m})" if "B x = Some p" for x p
    using block_range [OF t(1) b that] block_range [OF t(1) c(1) that] block_range [OF t(1) d that] c(2) sz by auto
  then have "\<forall>x p. B x = Some p \<longrightarrow> (x < c \<or> b + m + i \<le> x) = (x \<notin> {b, c, b + m})" by blast
  note run = fuse_run [OF cm(1) this]
  have fu: "fusable A B c (b + m + i)"
    using fusable_step [OF t(1) fusable_step [OF t(1) fuse_self(2) [OF t(1) c(1)], of m False], of i True] b c(2) d by simp
  have pv: "B z = Some (j, True) \<Longrightarrow> z + j \<noteq> c" for z j using t(2) c(1) by (auto simp: coalesced_def)
  have nx: "B (b + m + i) \<noteq> Some (j, True)" for j using t(2) d by (auto simp: coalesced_def)
  have bF: "(b, j) \<notin> free_set B" for j using b by (simp add: free_set_def)
  define s1' where "s1' = remove_free_block (b + m) (tag_order (m_size s (b + m))) s"
  have s1: "lists_ok (free_set B - {(b + m, tag_order (m_size s (b + m)))}) s1'"
    unfolding s1'_def by (rule lists_ok_remove [OF t(3)]) (use heap_order(2,4) [OF ok d] in simp_all)
  have ms: "m_size s1' = m_size s" "m_prev_size s1' = m_prev_size s" by (simp_all add: s1'_def)
  have ne: "c \<noteq> b + m" using c(2) sz by auto
  show "heap_ok A (fuse c (b + m + i) True B) s'"
  proof (rule heap_ok_fuse [OF ok fu nx pv])
    show "m_size s' = (m_size s)(c := encode_size (b + m + i - c) (block_order (b + m + i - c)) True)"
      "m_prev_size s' = (m_prev_size s)(b + m + i := encode_size (b + m + i - c) (block_order (b + m + i - c)) True)"
      by (simp_all add: s'_def cm(2))
    assume o: "block_order (b + m + i - c) < 64"
    let ?F = "free_set B - {(b + m, tag_order (m_size s (b + m)))}"
    have "lists_ok (insert (c, block_order (k + m + i)) (?F - {(c, tag_order (m_size s1' c))})) (change_block_size c (k + m + i) (b + m + i) s1')"
      by (rule lists_ok_change [OF s1]) (use o cm(2) ne heap_order(2,4) [OF ok c(1)] in \<open>auto simp: ms dest: heap_order(3) [OF ok c(1)]\<close>)
    moreover have "free_set B - {b, c, b + m} \<times> UNIV = ?F - {(c, tag_order (m_size s1' c))}"
      using bF heap_order(3) [OF ok c(1)] heap_order(3) [OF ok d] by (auto simp: ms)
    ultimately show "lists_ok (free_set (fuse c (b + m + i) True B)) s'" unfolding run(2) cm(2) by (simp add: s'_def s1'_def)
  qed auto
  have "live B - {b, c, b + m} \<times> UNIV = live B - {(b, m)}" using b c(1) d by (auto simp: live_def)
  then show "live (fuse c (b + m + i) True B) = live B - {(b, m)}" unfolding run(1) .
qed

text \<open>C10: \<open>free\<close> of memory that was handed out never fails its assertion; it takes exactly that memory back, joins it with the
free neighbours, and keeps the heap well-formed.\<close>

theorem PoolImpl_free_ok:
  assumes ok: "heap_ok A B s" and b: "(b, m) \<in> live B" and n: "req_size n + req_align al < 16384"
  shows "\<exists>s' B'. PoolImpl_free (mem b) n al s = Some s' \<and> heap_ok A B' s' \<and> live B' = live B - {(b, m)}"
proof -
  have t: "tags_ok A B s" using ok by (simp add: heap_ok_def)
  have b: "B b = Some (m, False)" using b by (simp add: live_def)
  have cls: "\<not> block_size k_malloc_order \<le> req_size n + req_align al"
    using n by (simp add: k_malloc_order_def block_size_ends)
  have fm: "from_mem (mem b) = b" by (simp add: from_mem_def mem_def)
  have bt: "\<not> tag_free (m_size s b)" "tag_size (m_size s b) = m" using block_tags(2,3) [OF t b] by simp_all
  note fdefs = PoolImpl_free_def [of "mem b" n al s, unfolded Let_def req_mod [OF n]] cls fm bt Let_def next_block_def prev_block_def
  show ?thesis
  proof (cases rule: prev_cases [OF t b])
    case pn: 1
    show ?thesis
    proof (cases rule: next_cases [OF t b])
      case nn: 1
      have "PoolImpl_free (mem b) n al s =
          Some (add_free_block b (tag_order (m_size s b)) (set_tags b (b + m) (m_size s b OR k_free_mask) s))"
        by (simp add: fdefs pn(1) nn(1))
      with free_alone [OF ok b nn(2) pn(2)] show ?thesis by blast
    next
      case nf: (2 k)
      have "PoolImpl_free (mem b) n al s = Some (change_block_size_to (b + m) (m + k) (b + m + k) b s)"
        by (simp add: fdefs pn(1) nf(2,3))
      with free_next [OF ok b nf(1) pn(2)] show ?thesis by blast
    qed
  next
    case pf: (2 c k)
    have bc: "b - k = c" using pf(2) by simp
    show ?thesis
    proof (cases rule: next_cases [OF t b])
      case nn: 1
      have "PoolImpl_free (mem b) n al s = Some (change_block_size c (k + m) (b + m) s)"
        by (simp add: fdefs pf(3,4) nn(1) bc)
      with free_prev [OF ok b pf(1,2) nn(2)] show ?thesis by blast
    next
      case nf: (2 i)
      have "PoolImpl_free (mem b) n al s = Some (change_block_size c (k + m + i) (b + m + i)
          (remove_free_block (b + m) (tag_order (m_size s (b + m))) s))"
        by (simp add: fdefs pf(3,4) nf(2,3) bc)
      with free_both [OF ok b pf(1,2) nf(1)] show ?thesis by blast
    qed
  qed
qed

section \<open>A free block smaller than its class\<close>

lemma bitlen_num [simp]: "bitlen (numeral k) = Suc (bitlen (numeral k div 2))" "bitlen 0 = 0" "bitlen (Suc 0) = 1"
  by (simp_all add: bitlen.simps [of "numeral k"] bitlen.simps [of 0] bitlen.simps [of "Suc 0"])

lemma align_down_16: "align_down p 16 = p - p mod 16" using align_down_pow [of p 4] by simp

lemma ffs64_pow:
  assumes "k \<le> i" "i < 64"
  shows "ffs64 (push_bit i 1 AND (NOT (push_bit k 1 - 1))) = i"
proof -
  have b: "bit (push_bit i 1 AND (NOT (push_bit k (1 :: 64 word) - 1))) j \<longleftrightarrow> j = i" if "j < 64" for j
    using assms that bit_above [of k j] by (auto simp: bit_and_iff bit_exp64)
  show ?thesis
  proof (rule ccontr)
    let ?v = "push_bit i 1 AND (NOT (push_bit k (1 :: 64 word) - 1))"
    assume "ffs64 ?v \<noteq> i"
    moreover have "\<not> i < ffs64 ?v" using ffs64_spec(3) [of i ?v] b [of i] assms by auto
    moreover have "\<not> ffs64 ?v < i" using ffs64_spec(2) [of ?v] b [of "ffs64 ?v"] assms by auto
    ultimately show False by simp
  qed
qed

lemma alloc_idx_single:
  assumes "m_free_flags s = push_bit i 1" "block_order (req_size n + req_align al) \<le> i" "i < 64"
  shows "alloc_idx n al s = i"
  unfolding alloc_idx_def assms(1) by (rule ffs64_pow [OF assms(2,3)])

lemma PoolImpl_alloc_single:
  assumes "m_free_flags s = push_bit i 1" "block_order (req_size n + req_align al) \<le> i" "i < 64" "m_free s i = [b]"
    "req_size n + req_align al < 16384"
  shows "PoolImpl_alloc malloc n al s = (case break_block b (hdr + req_size n) (req_align al) s of None \<Rightarrow> AAssert
        | Some (b', s'') \<Rightarrow> if tag_free (m_size s'' b') then AAssert else AMem (mem b') s'')"
proof -
  have "\<not> block_size k_malloc_order \<le> req_size n + req_align al" using assms(5) by (simp add: k_malloc_order_def block_size_ends)
  then show ?thesis using alloc_idx_single [OF assms(1-3)] assms(3,4)
    unfolding PoolImpl_alloc_def Let_def req_mod [OF assms(5)] alloc_idx_def by simp
qed

lemmas runs = Let_def req_size_def req_align_def hdr_def sizeof_PoolBlock_def add_free_block_def break_block_def encode_tags align_down_16
  change_block_size_def set_tags_def mem_def block_order_def countl_zero_def remove_free_block_def next_block_def

text \<open>A run of \<open>alloc\<close>: the states after two requests.\<close>

definition run_state1 :: poolimpl where
  "run_state1 =
     \<lparr>m_size = (\<lambda>_. 0)(36888 := encode_size 0 0 False, 4120 := encode_size 17760 45 True, 21880 := encode_size 15008 44 False),
      m_prev_size = (\<lambda>_. 0)(4120 := encode_size 0 0 False, 21880 := encode_size 17760 45 True, 36888 := encode_size 15008 44 False),
      m_free = (\<lambda>_. [])(45 := [4120]), m_free_flags = push_bit 45 1, m_chuncks = [4096]\<rparr>"

definition run_state2 :: poolimpl where
  "run_state2 = run_state1\<lparr>
      m_size := (m_size run_state1)(4120 := encode_size 10752 42 True, 14872 := encode_size 7008 39 False),
      m_prev_size := (m_prev_size run_state1)(14872 := encode_size 10752 42 True, 21880 := encode_size 7008 39 False),
      m_free := (\<lambda>_. [])(42 := [4120]), m_free_flags := push_bit 42 1\<rparr>"

lemma empty_upd: "(\<lambda>_. [])(i := [], j := x) = (\<lambda>_. [])(j := x)" by auto

lemma run_alloc1: "PoolImpl_alloc (\<lambda>_. Some 4096) 15000 16 PoolImpl_new = AMem 21888 run_state1"
proof -
  have z: "ffs64 0 = 64" using ffs64_spec(1)[of 0] ffs64_spec(2)[of 0] by (metis bit_0_eq bot_apply bot_bool_def le_neq_implies_less)
  have "PoolImpl_alloc (\<lambda>_. Some 4096) 15000 16 PoolImpl_new =
      (case break_block 4120 15008 16 (snd (add_area 4096 PoolImpl_new)) of None \<Rightarrow> AAssert
        | Some (b', s'') \<Rightarrow> if tag_free (m_size s'' b') then AAssert else AMem (mem b') s'')"
    by (simp add: z PoolImpl_alloc_def PoolImpl_new_def runs k_malloc_order_def block_size_ends add_area_def k_max_order_def split del: if_split)
  moreover have "break_block 4120 15008 16 (snd (add_area 4096 PoolImpl_new)) = Some (21880, run_state1)"
    by (simp add: runs add_area_eq area_state_def area_size_def PoolImpl_new_def push_bit_eq_mult run_state1_def fun_upd_twist empty_upd)
  ultimately show ?thesis by (simp add: run_state1_def encode_tags mem_def hdr_def)
qed

lemma run_alloc2: "PoolImpl_alloc malloc 7000 16 run_state1 = AMem 14880 run_state2"
proof -
  have "block_order (req_size 7000 + req_align 16) \<le> 45" by (simp add: runs)
  then have "PoolImpl_alloc malloc 7000 16 run_state1 = (case break_block 4120 (hdr + req_size 7000) (req_align 16) run_state1 of
      None \<Rightarrow> AAssert | Some (b', s'') \<Rightarrow> if tag_free (m_size s'' b') then AAssert else AMem (mem b') s'')"
    by (intro PoolImpl_alloc_single) (simp_all add: run_state1_def req_size_def req_align_def)
  moreover have "break_block 4120 (hdr + req_size 7000) (req_align 16) run_state1 = Some (14872, run_state2)"
    by (simp add: runs push_bit_eq_mult run_state1_def run_state2_def fun_upd_twist empty_upd)
  ultimately show ?thesis by (simp add: run_state2_def encode_tags mem_def hdr_def)
qed

lemma run_alloc3: "PoolImpl_alloc malloc 12000 16 run_state2 = AAssert"
proof -
  have "block_order (req_size 12000 + req_align 16) \<le> 42" by (simp add: runs)
  then have "PoolImpl_alloc malloc 12000 16 run_state2 = (case break_block 4120 (hdr + req_size 12000) (req_align 16) run_state2 of
      None \<Rightarrow> AAssert | Some (b', s'') \<Rightarrow> if tag_free (m_size s'' b') then AAssert else AMem (mem b') s'')"
    by (intro PoolImpl_alloc_single) (simp_all add: run_state2_def req_size_def req_align_def)
  moreover have "break_block 4120 (hdr + req_size 12000) (req_align 16) run_state2 = None"
    by (simp add: break_block_def hdr_def req_size_def run_state2_def encode_tags)
  ultimately show ?thesis by simp
qed

text \<open>Two successful requests of 15000 and 7000 bytes leave a free block of 10752 bytes in the class of 12288 bytes, which
\<open>alloc\<close> picks for a request of 12000 bytes: the assertion of \<open>break_\<close> fails instead of a new area being used.\<close>

theorem PoolImpl_class_too_high:
  "\<exists>p t q u. PoolImpl_alloc (\<lambda>_. Some 4096) 15000 16 PoolImpl_new = AMem p t \<and> PoolImpl_alloc (\<lambda>_. Some 4096) 7000 16 t = AMem q u \<and>
     block_size (tag_order (m_size u (hd (m_free u 42)))) = 12288 \<and> tag_size (m_size u (hd (m_free u 42))) = 10752 \<and>
     PoolImpl_alloc (\<lambda>_. Some 4096) 12000 16 u = AAssert"
proof (intro exI conjI)
  show "PoolImpl_alloc (\<lambda>_. Some 4096) 15000 16 PoolImpl_new = AMem 21888 run_state1" by (rule run_alloc1)
  show "PoolImpl_alloc (\<lambda>_. Some 4096) 7000 16 run_state1 = AMem 14880 run_state2" by (rule run_alloc2)
  show "PoolImpl_alloc (\<lambda>_. Some 4096) 12000 16 run_state2 = AAssert" by (rule run_alloc3)
  show "block_size (tag_order (m_size run_state2 (hd (m_free run_state2 42)))) = 12288"
    "tag_size (m_size run_state2 (hd (m_free run_state2 42))) = 10752"
    by (simp_all add: run_state2_def encode_tags block_size_formula)
qed

text \<open>With an alignment above 8 a free block that holds the request, but not its alignment, can be picked: the new block then begins before
it. After two requests of 128 bytes, of which the first is freed, a third gets memory whose tags lie in the last bytes of the second.\<close>

lemma align_down_8: "align_down p 8 = p - p mod 8" using align_down_pow [of p 3] by simp

lemma ffs64_least:
  assumes "bit v i" "i < 64" "\<And>j. j < i \<Longrightarrow> \<not> bit v j"
  shows "ffs64 v = i"
  using ffs64_spec(2) [of v] ffs64_spec(3) [of i v] assms by (metis linorder_neqE_nat order_less_trans)

lemma PoolImpl_alloc_least:
  assumes "bit (m_free_flags s) i" "i = block_order (req_size n + req_align al)" "i < 64" "m_free s i = [b]"
    "req_size n + req_align al < 16384"
  shows "PoolImpl_alloc malloc n al s = (case break_block b (hdr + req_size n) (req_align al) s of None \<Rightarrow> AAssert
        | Some (b', s'') \<Rightarrow> if tag_free (m_size s'' b') then AAssert else AMem (mem b') s'')"
proof -
  have "\<not> block_size k_malloc_order \<le> req_size n + req_align al" using assms(5) by (simp add: k_malloc_order_def block_size_ends)
  moreover have "ffs64 (m_free_flags s AND (NOT (push_bit i 1 - 1))) = i"
    by (rule ffs64_least) (use assms(1,3) bit_above [of i] in \<open>auto simp: bit_and_iff\<close>)
  ultimately show ?thesis using assms(2-4)
    unfolding PoolImpl_alloc_def Let_def req_mod [OF assms(5)] by simp
qed

definition run_state3 :: poolimpl where
  "run_state3 =
     \<lparr>m_size = (\<lambda>_. 0)(36888 := encode_size 0 0 False, 4120 := encode_size 32632 48 True, 36752 := encode_size 136 17 False),
      m_prev_size = (\<lambda>_. 0)(4120 := encode_size 0 0 False, 36752 := encode_size 32632 48 True, 36888 := encode_size 136 17 False),
      m_free = (\<lambda>_. [])(48 := [4120]), m_free_flags = push_bit 48 1, m_chuncks = [4096]\<rparr>"

definition run_state4 :: poolimpl where
  "run_state4 = run_state3\<lparr>
      m_size := (m_size run_state3)(4120 := encode_size 32496 48 True, 36616 := encode_size 136 17 False),
      m_prev_size := (m_prev_size run_state3)(36616 := encode_size 32496 48 True, 36752 := encode_size 136 17 False)\<rparr>"

definition run_state5 :: poolimpl where
  "run_state5 = run_state4\<lparr>
      m_size := (m_size run_state4)(36752 := encode_size 136 17 False OR k_free_mask),
      m_prev_size := (m_prev_size run_state4)(36888 := encode_size 136 17 False OR k_free_mask),
      m_free := (m_free run_state4)(17 := [36752]), m_free_flags := push_bit 48 1 OR push_bit 17 1\<rparr>"

lemma run_alloc3': "PoolImpl_alloc (\<lambda>_. Some 4096) 128 8 PoolImpl_new = AMem 36760 run_state3"
proof -
  have z: "ffs64 0 = 64" using ffs64_spec(1)[of 0] ffs64_spec(2)[of 0] by (metis bit_0_eq bot_apply bot_bool_def le_neq_implies_less)
  have "PoolImpl_alloc (\<lambda>_. Some 4096) 128 8 PoolImpl_new =
      (case break_block 4120 136 8 (snd (add_area 4096 PoolImpl_new)) of None \<Rightarrow> AAssert
        | Some (b', s'') \<Rightarrow> if tag_free (m_size s'' b') then AAssert else AMem (mem b') s'')"
    by (simp add: z PoolImpl_alloc_def PoolImpl_new_def Let_def req_size_def req_align_def hdr_def k_malloc_order_def block_size_ends
        add_area_def k_max_order_def sizeof_PoolBlock_def split del: if_split)
  moreover have "break_block 4120 136 8 (snd (add_area 4096 PoolImpl_new)) = Some (36752, run_state3)"
    by (simp add: runs align_down_8 add_area_eq area_state_def area_size_def PoolImpl_new_def push_bit_eq_mult run_state3_def fun_upd_twist empty_upd)
  ultimately show ?thesis by (simp add: run_state3_def encode_tags mem_def hdr_def)
qed

lemma run_alloc4: "PoolImpl_alloc malloc 128 8 run_state3 = AMem 36624 run_state4"
proof -
  have "block_order (req_size 128 + req_align 8) \<le> 48" by (simp add: runs)
  then have "PoolImpl_alloc malloc 128 8 run_state3 = (case break_block 4120 (hdr + req_size 128) (req_align 8) run_state3 of
      None \<Rightarrow> AAssert | Some (b', s'') \<Rightarrow> if tag_free (m_size s'' b') then AAssert else AMem (mem b') s'')"
    by (intro PoolImpl_alloc_single) (simp_all add: run_state3_def req_size_def req_align_def)
  moreover have "break_block 4120 (hdr + req_size 128) (req_align 8) run_state3 = Some (36616, run_state4)"
    by (simp add: runs align_down_8 push_bit_eq_mult run_state3_def run_state4_def fun_upd_twist)
  ultimately show ?thesis by (simp add: run_state4_def encode_tags mem_def hdr_def)
qed

lemma run_free: "PoolImpl_free 36760 128 8 run_state4 = Some run_state5"
  by (simp add: PoolImpl_free_def runs k_malloc_order_def block_size_ends from_mem_def prev_block_def run_state3_def run_state4_def run_state5_def
      fun_upd_twist)

lemma run_alloc5: "\<exists>w. PoolImpl_alloc malloc 128 16 run_state5 = AMem 36752 w \<and> m_size w 36744 = encode_size 144 17 False"
proof -
  have "17 = block_order (req_size 128 + req_align 16)" by (simp add: runs)
  moreover have "bit (m_free_flags run_state5) 17" by (simp add: run_state5_def bit_or_iff bit_push_bit_iff)
  ultimately have "PoolImpl_alloc malloc 128 16 run_state5 = (case break_block 36752 (hdr + req_size 128) (req_align 16) run_state5 of
      None \<Rightarrow> AAssert | Some (b', s'') \<Rightarrow> if tag_free (m_size s'' b') then AAssert else AMem (mem b') s'')"
    by (intro PoolImpl_alloc_least) (simp_all add: run_state5_def run_state4_def run_state3_def req_size_def req_align_def)
  moreover have "tag_size (encode_size 136 17 False OR k_free_mask) = 136" by (simp add: encode_size_free encode_tags)
  then have "\<exists>w. break_block 36752 (hdr + req_size 128) (req_align 16) run_state5 = Some (36744, w) \<and> m_size w 36744 = encode_size 144 17 False"
    by (simp add: break_block_def Let_def align_down_16 req_size_def req_align_def hdr_def sizeof_PoolBlock_def set_tags_def next_block_def
        block_order_def countl_zero_def run_state5_def)
  ultimately show ?thesis by (auto simp: encode_tags mem_def hdr_def)
qed

lemma PoolImpl_overlap:
  "\<exists>p q t u v w. PoolImpl_alloc (\<lambda>_. Some 4096) 128 8 PoolImpl_new = AMem p t \<and> PoolImpl_alloc (\<lambda>_. Some 4096) 128 8 t = AMem q u \<and>
     PoolImpl_free p 128 8 u = Some v \<and> PoolImpl_alloc (\<lambda>_. Some 4096) 128 16 v = AMem (q + 128) w \<and>
     m_size w (from_mem (q + 128)) = encode_size 144 17 False \<and> q < from_mem (q + 128) \<and> from_mem (q + 128) < q + 128"
  using run_alloc3' run_alloc4 [of "\<lambda>_. Some 4096"] run_free run_alloc5 [of "\<lambda>_. Some 4096"]
  by (intro exI [of _ 36760] exI [of _ 36624]) (auto simp: from_mem_def hdr_def)

text \<open>Witnesses: the first request of a new pool, and the release of a block of a new area.\<close>

lemma alloc_idx_new: "alloc_idx n al PoolImpl_new = 64"
proof -
  have "ffs64 0 = 64" using ffs64_spec(1)[of 0] ffs64_spec(2)[of 0] by (metis bit_0_eq bot_apply bot_bool_def le_neq_implies_less)
  then show ?thesis by (simp add: alloc_idx_def PoolImpl_new_def)
qed

lemma fresh_new: "fresh_chunk 4096 {}"
  by (simp add: fresh_chunk_def)

theorem PoolImpl_alloc_ok_witness:
  "heap_ok {} (\<lambda>_. None) PoolImpl_new \<and> fresh_chunk 4096 {} \<and> PoolImpl_fits 100 16 PoolImpl_new \<and>
   (case PoolImpl_alloc (\<lambda>_. Some 4096) 100 16 PoolImpl_new of AMem p s' \<Rightarrow> PoolImpl_fits 100 16 PoolImpl_new \<and> alloc_done {} (\<lambda>_. None) 100 p s'
      | AAssert \<Rightarrow> \<not> PoolImpl_fits 100 16 PoolImpl_new | _ \<Rightarrow> False)"
proof (intro conjI)
  show fits: "PoolImpl_fits 100 16 PoolImpl_new" unfolding PoolImpl_fits_def alloc_idx_new by blast
  show "case PoolImpl_alloc (\<lambda>_. Some 4096) 100 16 PoolImpl_new of AMem p s' \<Rightarrow> PoolImpl_fits 100 16 PoolImpl_new \<and> alloc_done {} (\<lambda>_. None) 100 p s'
      | AAssert \<Rightarrow> \<not> PoolImpl_fits 100 16 PoolImpl_new | _ \<Rightarrow> False"
  proof (rule PoolImpl_alloc_ok [where j = 4 and h = 4096, OF heap_ok_new])
    show "req_size 100 + req_align 16 < 16384" "req_align 16 = 2 ^ 4" by (simp_all add: req_size_def req_align_def)
    show "PoolImpl_fits 100 16 PoolImpl_new \<or> 16 \<le> (8::nat)" using fits by (rule disjI1)
  qed (rule refl fresh_new)+
qed (rule heap_ok_new fresh_new)+

theorem PoolImpl_free_ok_witness:
  "\<exists>A B s b m s' B'. heap_ok A B s \<and> (b, m) \<in> live B \<and> PoolImpl_free (mem b) 100 16 s = Some s' \<and> heap_ok A B' s' \<and>
     live B' = live B - {(b, m)}"
proof -
  let ?A = "{4096 + 24 :: addr}" and ?B = "area_blocks 4096 (\<lambda>_. None)" and ?s = "snd (add_area 4096 PoolImpl_new)"
  have ok: "heap_ok ?A ?B ?s" using heap_ok_area [OF heap_ok_new fresh_new] by simp
  have b: "?B (4096 + 24) = Some (32768, True)" by (simp add: area_blocks_def)
  obtain b' m B' s' where n: "heap_ok ?A B' s'" "live B' = insert (b', m) (live ?B)"
    by (rule break_block_ok [OF ok b, of 4 100]) simp_all
  have lv: "(b', m) \<in> live B'" using n(2) by simp
  have sz: "req_size 100 + req_align 16 < 16384" by (simp add: req_size_def req_align_def)
  obtain t C where f: "PoolImpl_free (mem b') 100 16 s' = Some t" "heap_ok ?A C t" "live C = live B' - {(b', m)}"
    using PoolImpl_free_ok [OF n(1) lv sz] by (elim exE conjE)
  show ?thesis by (rule exI)+ (intro conjI, rule n(1), rule lv, rule f(1), rule f(2), rule f(3))
qed

end
