(* ===== verification/StrUtils.thy ===== *)
theory StrUtils
  imports Prelude "HOL-Library.Code_Target_Nat"
begin

text \<open>
  The string helpers of \<open>include/tools/utils.hpp\<close>: comparison without case, trimming, splitting, cookies, host and URL
  splitting, the HTTP method names. A \<open>std::string_view\<close> is the list of its bytes; positions are \<open>std::size_t\<close>, with
  \<open>npos = 2^64 - 1\<close> and the unsigned subtraction of the code written out. \<open>None\<close> is undefined behaviour or an
  exception.
\<close>

section \<open>Decimal numbers\<close>

fun decimal :: "nat \<Rightarrow> string" where
  "decimal n = (if n < 10 then [char_of (48 + n)] else decimal (n div 10) @ [char_of (48 + n mod 10)])"

declare decimal.simps [simp del]

lemma decimal_ne [simp]: "decimal n \<noteq> []" "[] \<noteq> decimal n"
  by (subst decimal.simps, simp)+

lemma decimal_digits: "c \<in> set (decimal n) \<Longrightarrow> \<exists>d::nat. d < 10 \<and> c = char_of (48 + d)"
proof (induction n rule: decimal.induct)
  case (1 n)
  show ?case
  proof (cases "n < 10")
    case True
    then show ?thesis using "1.prems" by (subst (asm) decimal.simps) auto
  next
    case False
    then have "decimal n = decimal (n div 10) @ [char_of (48 + n mod 10)]" by (subst decimal.simps) simp
    then consider "c \<in> set (decimal (n div 10))" | "c = char_of (48 + n mod 10)" using "1.prems" by auto
    then show ?thesis
    proof cases
      case 1
      then show ?thesis by (rule "1.IH" [OF False])
    next
      case 2
      then show ?thesis by (intro exI [of _ "n mod 10"]) simp
    qed
  qed
qed

definition ccode :: "char \<Rightarrow> nat" where "ccode c = of_char c"

text \<open>The number that digits denote, as far as there are digits.\<close>

definition is_digit :: "char \<Rightarrow> bool" where
  "is_digit c \<longleftrightarrow> 48 \<le> ccode c \<and> ccode c \<le> 57"

fun digits_value :: "nat \<Rightarrow> string \<Rightarrow> nat" where
  "digits_value acc [] = acc"
| "digits_value acc (c # cs) = (if 48 \<le> ccode c \<and> ccode c \<le> 57 then digits_value (10 * acc + (ccode c - 48)) cs else acc)"

lemma ccode_digit [simp]: "d < (10::nat) \<Longrightarrow> ccode (char_of (48 + d)) = 48 + d"
  by (simp add: ccode_def)

lemma digits_value_decimal: "digits_value acc (decimal n @ s) = digits_value (acc * 10 ^ length (decimal n) + n) s"
proof (induction n arbitrary: acc s rule: decimal.induct)
  case (1 n)
  show ?case
  proof (cases "n < 10")
    case True
    then show ?thesis by (subst (1 2) decimal.simps) (simp add: mult.commute)
  next
    case False
    let ?d = "char_of (48 + n mod 10)"
    have "digits_value acc (decimal n @ s) = digits_value acc (decimal (n div 10) @ ?d # s)"
      using False by (subst decimal.simps) simp
    also have "\<dots> = digits_value (acc * 10 ^ length (decimal (n div 10)) + n div 10) (?d # s)"
      by (rule "1.IH" [OF False])
    also have "\<dots> = digits_value (10 * (acc * 10 ^ length (decimal (n div 10)) + n div 10) + n mod 10) s"
    proof -
      have c: "ccode ?d = 48 + n mod 10" by (rule ccode_digit) simp
      have "n mod 10 \<le> 9" by linarith
      then show ?thesis unfolding digits_value.simps(2) c by simp
    qed
    also have "10 * (acc * 10 ^ length (decimal (n div 10)) + n div 10) + n mod 10 = acc * 10 ^ length (decimal n) + n"
    proof -
      have "decimal n = decimal (n div 10) @ [?d]" using False by (subst decimal.simps) simp
      then have "length (decimal n) = Suc (length (decimal (n div 10)))" by simp
      then show ?thesis by (simp add: algebra_simps)
    qed
    finally show ?thesis .
  qed
qed

text \<open>\<open>std::to_string\<close> of a number with a sign.\<close>

definition int_to_string :: "int \<Rightarrow> string" where
  "int_to_string n = (if n < 0 then CHR ''-'' # decimal (nat (- n)) else decimal (nat n))"

section \<open>Positions in a string view\<close>

definition npos :: nat where "npos = 2 ^ 64 - 1"

definition usub :: "nat \<Rightarrow> nat \<Rightarrow> nat" where
  "usub a b = nat ((int a - int b) mod 2 ^ 64)"

definition find_if :: "(char \<Rightarrow> bool) \<Rightarrow> string \<Rightarrow> nat \<Rightarrow> nat" where
  "find_if p v from =
     (let n = length (takeWhile (\<lambda>c. \<not> p c) (drop from v))
      in if from + n < length v then from + n else npos)"

definition rfind_if :: "(char \<Rightarrow> bool) \<Rightarrow> string \<Rightarrow> nat" where
  "rfind_if p v =
     (let n = length (takeWhile (\<lambda>c. \<not> p c) (rev v))
      in if n < length v then length v - 1 - n else npos)"

definition find_first_not_of_blank :: "string \<Rightarrow> nat" where
  "find_first_not_of_blank v = find_if (\<lambda>c. c \<noteq> CHR '' '') v 0"

definition find_last_not_of_blank :: "string \<Rightarrow> nat" where
  "find_last_not_of_blank v = rfind_if (\<lambda>c. c \<noteq> CHR '' '') v"

text \<open>\<open>find\<close> of a substring.\<close>

fun find_sub :: "string \<Rightarrow> string \<Rightarrow> nat \<Rightarrow> nat" where
  "find_sub pat [] i = (if pat = [] then i else npos)"
| "find_sub pat (c # cs) i = (if take (length pat) (c # cs) = pat then i else find_sub pat cs (Suc i))"

definition contains :: "string \<Rightarrow> string \<Rightarrow> bool" where
  "contains v pat \<longleftrightarrow> find_sub pat v 0 \<noteq> npos"

text \<open>\<open>substr\<close> throws \<open>std::out_of_range\<close>.\<close>

definition substr :: "string \<Rightarrow> nat \<Rightarrow> nat \<Rightarrow> string option" where
  "substr v pos n = (if pos \<le> length v then Some (take n (drop pos v)) else None)"

section \<open>Comparison without case\<close>

definition lower_char :: "char \<Rightarrow> char" where
  "lower_char c = (if 65 \<le> ccode c \<and> ccode c \<le> 90 then char_of (ccode c + 32) else c)"

definition upper_char :: "char \<Rightarrow> char" where
  "upper_char c = (if 97 \<le> ccode c \<and> ccode c \<le> 122 then char_of (ccode c - 32) else c)"

definition nocase_compare :: "char \<Rightarrow> char \<Rightarrow> bool" where
  "nocase_compare c d \<longleftrightarrow> ccode (lower_char c) < ccode (lower_char d)"

fun ci_less :: "string \<Rightarrow> string \<Rightarrow> bool" where
  "ci_less xs [] = False"
| "ci_less [] (y # ys) = True"
| "ci_less (x # xs) (y # ys) =
     (if nocase_compare x y then True else if nocase_compare y x then False else ci_less xs ys)"

definition iequal :: "string \<Rightarrow> string \<Rightarrow> bool" where
  "iequal s t \<longleftrightarrow> length s = length t \<and> list_all (\<lambda>i. lower_char (s ! i) = lower_char (t ! i)) [0..<length s]"

fun find_strIC :: "string \<Rightarrow> string \<Rightarrow> bool" where
  "find_strIC [] d = (d = [])"
| "find_strIC (c # cs) d =
     (map upper_char (take (length d) (c # cs)) = map upper_char d \<or> find_strIC cs d)"

section \<open>Trimming and splitting\<close>

definition trim_left :: "string \<Rightarrow> string" where
  "trim_left v = drop (min (find_first_not_of_blank v) (length v)) v"

definition trim_right :: "string \<Rightarrow> string" where
  "trim_right v = take (length v - min (usub (usub (length v) (find_last_not_of_blank v)) 1) (length v)) v"

definition trim :: "string \<Rightarrow> string" where
  "trim v = (let v = drop (min (find_first_not_of_blank v) (length v)) v
             in take (length v - min (usub (usub (length v) (find_last_not_of_blank v)) 1) (length v)) v)"

text \<open>\<open>start\<close>, \<open>end\<close> and the output of the loop; the loop condition \<open>end <= npos\<close> always holds.\<close>

function split_loop :: "string \<Rightarrow> string \<Rightarrow> nat \<Rightarrow> nat \<Rightarrow> string list \<Rightarrow> string list" where
  "split_loop s d start end out =
     (if start \<le> length s then
        (let out = out @ [take (usub end start) (drop start s)] in
         if end = npos then out
         else if end < start \<or> length s \<le> end then out
         else split_loop s d (Suc end) (find_if (\<lambda>c. c \<in> set d) s (Suc end)) out)
      else out)"
  by pat_completeness auto
termination
  by (relation "measure (\<lambda>(s, d, start, end, out). Suc (length s) - start)") auto

definition split_view :: "string \<Rightarrow> string \<Rightarrow> string list" where
  "split_view s d = split_loop s d 0 (find_if (\<lambda>c. c \<in> set d) s 0) []"

definition remove_char :: "string \<Rightarrow> char \<Rightarrow> string" where
  "remove_char s ch = filter (\<lambda>c. c \<noteq> ch) s"

definition get_cookies_map :: "string \<Rightarrow> (string \<Rightarrow> string option)" where
  "get_cookies_map cookies_str =
     fold (\<lambda>it m. let kv = split_view it ''='' in if length kv = 2 then m(kv ! 0 \<mapsto> kv ! 1) else m)
       (split_view cookies_str ''; '') (\<lambda>_. None)"

section \<open>Hosts, URLs, names\<close>

text \<open>The loop of \<open>get_domain_url\<close> from position \<open>i\<close>, the rest of the view as a list; a slash that is followed by a second one and
by more is skipped with it.\<close>

fun domain_pos :: "nat \<Rightarrow> string \<Rightarrow> nat option" where
  "domain_pos i [] = None"
| "domain_pos i [c] = (if c = CHR ''/'' then Some i else None)"
| "domain_pos i [c, d] = (if c = CHR ''/'' then Some i else domain_pos (Suc i) [d])"
| "domain_pos i (c # d # e # cs) =
     (if c = CHR ''/'' then (if d = CHR ''/'' then domain_pos (i + 2) (e # cs) else Some i)
      else domain_pos (Suc i) (d # e # cs))"

definition get_domain_url :: "string \<Rightarrow> string \<times> string" where
  "get_domain_url path =
     (case domain_pos 0 path of None \<Rightarrow> (path, ''/'')
      | Some pos \<Rightarrow>
          let host = take pos path; url = drop pos path
          in (host, if length url > 1 \<and> last url = CHR ''/'' then take (length url - 1) url else url))"

text \<open>\<open>path.back()\<close> of an empty view is undefined.\<close>

definition remove_www :: "string \<Rightarrow> string option" where
  "remove_www path =
     (if path = [] then None
      else let path = (if last path = CHR ''/'' then take (length path - 1) path else path)
           in if contains path ''www.'' then substr path 4 (length path) else Some path)"

text \<open>\<open>old_path[pos - 1]\<close> with \<open>pos = 0\<close> is undefined.\<close>

definition get_host_port :: "string \<Rightarrow> bool \<Rightarrow> (string \<times> string) option" where
  "get_host_port path is_ssl =
     (let old_path = path; pos = rfind_if (\<lambda>c. c = CHR '':'') path in
      if pos = npos then
        map_option (\<lambda>h. (h, if contains path ''https'' then ''https'' else if is_ssl then ''https'' else ''http'')) (remove_www path)
      else if pos > usub (length path) 1 then Some ([], [])
      else
        let pos1 = find_if (\<lambda>c. c = CHR '':'') path 0 in
        if contains path ''http'' \<and> pos1 + 3 > usub (length path) 1 then Some ([], [])
        else
          let (path, pos) = (if contains path ''http'' then (drop (pos1 + 3) path, if pos \<ge> pos1 + 3 then pos - (pos1 + 3) else pos) else (path, pos))
          in if pos = 0 then None
             else if old_path ! (pos - 1) = CHR ''p'' then map_option (\<lambda>h. (h, ''http'')) (remove_www path)
             else if old_path ! (pos - 1) = CHR ''s'' then map_option (\<lambda>h. (h, ''https'')) (remove_www path)
             else Option.bind (substr path 0 pos) (\<lambda>h. map_option (\<lambda>p. (h, p)) (substr path (pos + 1) (length path))))"

datatype http_method = UNKNOW | DEL | GET | HEAD | POST | PUT | CONNECT | OPTIONS | TRACE

definition method_name :: "http_method \<Rightarrow> string" where
  "method_name mthd =
     (case mthd of DEL \<Rightarrow> ''DELETE'' | GET \<Rightarrow> ''GET'' | HEAD \<Rightarrow> ''HEAD'' | POST \<Rightarrow> ''POST'' | PUT \<Rightarrow> ''PUT''
      | CONNECT \<Rightarrow> ''CONNECT'' | OPTIONS \<Rightarrow> ''OPTIONS'' | TRACE \<Rightarrow> ''TRACE'' | UNKNOW \<Rightarrow> ''UNKONWN'')"

text \<open>There is no overload for \<open>UNKNOW\<close>.\<close>

fun type_to_name :: "http_method \<Rightarrow> string option" where
  "type_to_name DEL = Some ''DELETE''"
| "type_to_name GET = Some ''GET''"
| "type_to_name HEAD = Some ''HEAD''"
| "type_to_name POST = Some ''POST''"
| "type_to_name PUT = Some ''PUT''"
| "type_to_name CONNECT = Some ''CONNECT''"
| "type_to_name OPTIONS = Some ''OPTIONS''"
| "type_to_name TRACE = Some ''TRACE''"
| "type_to_name UNKNOW = None"

text \<open>26 characters, one for each first letter; the methods are template arguments, so that an unknown one does not compile.\<close>

definition get_method_arr :: "http_method list \<Rightarrow> char list option" where
  "get_method_arr ms =
     fold (\<lambda>m arr. Option.bind arr (\<lambda>a. map_option (\<lambda>s. a[ccode (s ! 0) - 65 := s ! 0]) (type_to_name m))) ms
       (Some (replicate 26 (CHR 0x00)))"

definition get_str :: "http_method \<Rightarrow> string \<Rightarrow> string option" where
  "get_str m name = map_option (\<lambda>s. s @ name) (type_to_name m)"

definition get_extension :: "string \<Rightarrow> string" where
  "get_extension name =
     (let pos = rfind_if (\<lambda>c. c = CHR ''.'') name in if pos = npos then [] else drop pos name)"

definition is_status_ok :: "int \<Rightarrow> bool" where
  "is_status_ok status \<longleftrightarrow> status = 200 \<or> (status \<ge> 301 \<and> status \<le> 307 \<and> status \<noteq> 306)"

definition is_form_url_encode :: "string \<Rightarrow> bool" where
  "is_form_url_encode str \<longleftrightarrow> contains str ''%'' \<or> contains str ''+''"

definition sv_join :: "string list \<Rightarrow> string" where "sv_join strs = concat strs"

section \<open>Trimming\<close>

lemma usub_le: "b \<le> a \<Longrightarrow> a < 2 ^ 64 \<Longrightarrow> usub a b = a - b"
  by (simp add: usub_def of_nat_diff [symmetric] del: of_nat_diff)

lemma usub_wrap: "a < b \<Longrightarrow> b \<le> 2 ^ 64 \<Longrightarrow> usub a b = 2 ^ 64 + a - b"
proof -
  assume a: "a < b" "b \<le> 2 ^ 64"
  have "(int a - int b) mod 2 ^ 64 = (int a - int b + 2 ^ 64) mod 2 ^ 64" by simp
  also have "\<dots> = int a - int b + 2 ^ 64" using a by (intro mod_pos_pos_trivial) simp_all
  also have "\<dots> = int (2 ^ 64 + a - b)" using a by simp
  finally show ?thesis by (simp add: usub_def)
qed

definition strip_left :: "string \<Rightarrow> string" where "strip_left v = dropWhile (\<lambda>c. c = CHR '' '') v"
definition strip_right :: "string \<Rightarrow> string" where "strip_right v = rev (strip_left (rev v))"

lemma trim_left_strip: "length v < npos \<Longrightarrow> drop (min (find_first_not_of_blank v) (length v)) v = strip_left v"
proof -
  assume n: "length v < npos"
  let ?n = "length (takeWhile (\<lambda>c. c = CHR '' '') v)"
  have "?n \<le> length v" by (rule length_takeWhile_le)
  then have "min (find_first_not_of_blank v) (length v) = ?n"
    using n by (simp add: find_first_not_of_blank_def find_if_def Let_def)
  then show ?thesis by (simp add: strip_left_def dropWhile_eq_drop)
qed

lemma trim_right_strip:
  "length v < npos \<Longrightarrow> take (length v - min (usub (usub (length v) (find_last_not_of_blank v)) 1) (length v)) v = strip_right v"
proof -
  assume n: "length v < npos"
  let ?n = "length (takeWhile (\<lambda>c. c = CHR '' '') (rev v))"
  have le: "?n \<le> length v" using length_takeWhile_le [of _ "rev v"] by simp
  have r: "strip_right v = take (length v - ?n) v"
    by (simp add: strip_right_def strip_left_def dropWhile_eq_drop rev_drop)
  show ?thesis
  proof (cases "?n < length v")
    case True
    then have "find_last_not_of_blank v = length v - 1 - ?n"
      by (simp add: find_last_not_of_blank_def rfind_if_def Let_def)
    moreover have "usub (length v) (length v - 1 - ?n) = ?n + 1"
      using True n by (subst usub_le) (auto simp: npos_def)
    moreover have "usub (?n + 1) 1 = ?n" using True n by (subst usub_le) (auto simp: npos_def)
    ultimately show ?thesis using le r by simp
  next
    case False
    then have "find_last_not_of_blank v = npos" by (simp add: find_last_not_of_blank_def rfind_if_def Let_def)
    moreover have "usub (length v) npos = length v + 1"
      using n by (subst usub_wrap) (auto simp: npos_def)
    moreover have "usub (length v + 1) 1 = length v" using n by (subst usub_le) (auto simp: npos_def)
    ultimately show ?thesis using le r False by simp
  qed
qed

lemma trim_strip:
  assumes "length v < npos"
  shows "trim_left v = strip_left v" "trim_right v = strip_right v" "trim v = strip_right (strip_left v)"
proof -
  show "trim_left v = strip_left v" using trim_left_strip [OF assms] by (simp add: trim_left_def)
  show "trim_right v = strip_right v" using trim_right_strip [OF assms] by (simp add: trim_right_def)
  have "length (strip_left v) < npos" using length_dropWhile_le [of _ v] assms unfolding strip_left_def by (rule le_less_trans)
  with trim_left_strip [OF assms] trim_right_strip show "trim v = strip_right (strip_left v)"
    by (simp add: trim_def Let_def)
qed

section \<open>Splitting\<close>

fun split_spec :: "char set \<Rightarrow> string \<Rightarrow> string list" where
  "split_spec D [] = [[]]"
| "split_spec D (c # cs) =
     (if c \<in> D then [] # split_spec D cs else (c # hd (split_spec D cs)) # tl (split_spec D cs))"

lemma split_spec_ne [simp]: "split_spec D s \<noteq> []"
  by (cases s) auto

lemma split_spec_takeWhile:
  "split_spec D s = takeWhile (\<lambda>c. c \<notin> D) s #
     (case dropWhile (\<lambda>c. c \<notin> D) s of [] \<Rightarrow> [] | _ # r \<Rightarrow> split_spec D r)"
  by (induction s) auto

declare split_loop.simps [simp del]

lemma split_loop_spec:
  assumes "length s < npos" "start \<le> length s"
  shows "split_loop s d start (find_if (\<lambda>c. c \<in> set d) s start) out = out @ split_spec (set d) (drop start s)"
  using assms(2)
proof (induction "length s - start" arbitrary: start out rule: less_induct)
  case less
  let ?n = "length (takeWhile (\<lambda>c. c \<notin> set d) (drop start s))"
  let ?e = "find_if (\<lambda>c. c \<in> set d) s start"
  have le: "?n \<le> length s - start" using length_takeWhile_le [of _ "drop start s"] by simp
  show ?case
  proof (cases "start + ?n < length s")
    case True
    then have e: "?e = start + ?n" by (simp add: find_if_def Let_def)
    have sub: "usub ?e start = ?n" using True assms(1) by (subst usub_le) (auto simp: e npos_def)
    have ne: "?e \<noteq> npos" "\<not> (?e < start \<or> length s \<le> ?e)" using True assms(1) by (auto simp: e)
    have piece: "take ?n (drop start s) = takeWhile (\<lambda>c. c \<notin> set d) (drop start s)"
      by (metis append_eq_conv_conj takeWhile_dropWhile_id)
    have rest: "dropWhile (\<lambda>c. c \<notin> set d) (drop start s) = s ! (start + ?n) # drop (Suc (start + ?n)) s"
      using True by (simp add: dropWhile_eq_drop Cons_nth_drop_Suc add.commute)
    have "split_loop s d start ?e out = split_loop s d (Suc ?e) (find_if (\<lambda>c. c \<in> set d) s (Suc ?e)) (out @ [take ?n (drop start s)])"
      using less.prems ne by (subst split_loop.simps) (simp add: Let_def sub)
    also have "\<dots> = (out @ [take ?n (drop start s)]) @ split_spec (set d) (drop (Suc ?e) s)"
      using True less.prems by (intro less.hyps) (auto simp: e)
    also have "\<dots> = out @ split_spec (set d) (drop start s)"
      by (subst (2) split_spec_takeWhile) (simp add: piece rest e)
    finally show ?thesis .
  next
    case False
    then have n: "?n = length s - start" using le by simp
    have e: "?e = npos" using False by (simp add: find_if_def Let_def)
    have big: "length s - start \<le> usub npos start"
      using assms(1) less.prems by (subst usub_le) (auto simp: npos_def)
    have tw: "takeWhile (\<lambda>c. c \<notin> set d) (drop start s) = drop start s"
      using n by (subst takeWhile_eq_take) simp
    have "split_loop s d start ?e out = out @ [drop start s]"
      using less.prems big by (subst split_loop.simps) (simp add: Let_def e)
    moreover have "split_spec (set d) (drop start s) = [drop start s]"
    proof -
      have dw: "dropWhile (\<lambda>c. c \<notin> set d) (drop start s) = []" using tw by (metis append_self_conv takeWhile_dropWhile_id)
      show ?thesis by (subst split_spec_takeWhile) (simp only: tw dw list.case)
    qed
    ultimately show ?thesis by simp
  qed
qed

lemma split_view_spec: "length s < npos \<Longrightarrow> split_view s d = split_spec (set d) s"
  by (simp add: split_view_def split_loop_spec)

lemma split_spec_append: "D \<inter> set s = {} \<Longrightarrow> c \<in> D \<Longrightarrow> split_spec D (s @ c # t) = s # split_spec D t"
  by (induction s) auto

lemma split_spec_none: "D \<inter> set s = {} \<Longrightarrow> split_spec D s = [s]"
  by (induction s) auto

section \<open>The order without case\<close>

definition lower_str :: "string \<Rightarrow> nat list" where "lower_str s = map (\<lambda>c. ccode (lower_char c)) s"

lemma ci_less_lexord: "ci_less s t \<longleftrightarrow> (lower_str s, lower_str t) \<in> lexord {(x, y). x < y}"
  by (induction s t rule: ci_less.induct) (auto simp: lower_str_def nocase_compare_def)

lemma ccode_inj [simp]: "ccode c = ccode d \<longleftrightarrow> c = d"
  by (simp add: ccode_def)

lemma iequal_lower: "iequal s t \<longleftrightarrow> lower_str s = lower_str t"
  unfolding iequal_def lower_str_def list_eq_iff_nth_eq by (auto simp: list_all_iff)

text \<open>The order of the MIME table is a strict weak order, and two keys are equivalent in it exactly when they are equal
without case: it compares the lower-case forms in dictionary order.\<close>

theorem ci_less_order:
  "irreflp ci_less \<and> transp ci_less \<and> iequal s t = (\<not> ci_less s t \<and> \<not> ci_less t s)"
proof -
  let ?r = "{(x, y). x < (y::nat)}"
  have tr: "trans (lexord ?r)" by (rule lexord_transI) (auto intro: transI)
  have ir: "(x, x) \<notin> lexord ?r" for x by (rule lexord_irreflexive) auto
  have lin: "(x, y) \<in> lexord ?r \<or> x = y \<or> (y, x) \<in> lexord ?r" for x y
    by (rule lexord_linear) auto
  have "irreflp ci_less" unfolding irreflp_def ci_less_lexord using ir by blast
  moreover have "transp ci_less" unfolding transp_def ci_less_lexord using tr by (meson transD)
  moreover have "iequal s t = (\<not> ci_less s t \<and> \<not> ci_less t s)"
    unfolding ci_less_lexord iequal_lower using ir lin by metis
  ultimately show ?thesis by blast
qed

section \<open>Cookies\<close>

fun print_cookies :: "(string \<times> string) list \<Rightarrow> string" where
  "print_cookies [] = []"
| "print_cookies [(k, v)] = k @ ''='' @ v"
| "print_cookies ((k, v) # kv # kvs) = k @ ''='' @ v @ ''; '' @ print_cookies (kv # kvs)"

definition cookie_text :: "string \<Rightarrow> bool" where
  "cookie_text s \<longleftrightarrow> set s \<inter> {CHR '';'', CHR '' '', CHR ''=''} = {}"

definition cookie_step :: "string \<Rightarrow> (string \<Rightarrow> string option) \<Rightarrow> (string \<Rightarrow> string option)" where
  "cookie_step it m = (let kv = split_view it ''='' in if length kv = 2 then m(kv ! 0 \<mapsto> kv ! 1) else m)"

lemma get_cookies_fold: "get_cookies_map s = fold cookie_step (split_view s ''; '') (\<lambda>_. None)"
proof -
  have "cookie_step = (\<lambda>it m. let kv = split_view it ''='' in if length kv = 2 then m(kv ! 0 \<mapsto> kv ! 1) else m)"
    by (intro ext) (simp add: cookie_step_def)
  then show ?thesis by (simp only: get_cookies_map_def)
qed

lemma cookie_pieces:
  assumes "list_all (\<lambda>(k, v). cookie_text k \<and> cookie_text v) kvs" "kvs \<noteq> []"
  shows "split_spec (set ''; '') (print_cookies kvs) =
    (fst (hd kvs) @ ''='' @ snd (hd kvs)) # concat (map (\<lambda>(k, v). [[], k @ ''='' @ v]) (tl kvs))"
  using assms
proof (induction kvs rule: print_cookies.induct)
  case (2 k v)
  then show ?case by (auto simp: cookie_text_def intro!: split_spec_none)
next
  case (3 k v kv kvs)
  have "split_spec (set ''; '') (print_cookies ((k, v) # kv # kvs)) =
      (k @ ''='' @ v) # split_spec (set ''; '') (CHR '' '' # print_cookies (kv # kvs))"
    using 3(2) split_spec_append [of "set ''; ''" "k @ ''='' @ v" "CHR '';''" "CHR '' '' # print_cookies (kv # kvs)"]
    by (auto simp: cookie_text_def)
  with 3 show ?case by (cases kv) auto
qed simp

lemma cookie_step_piece:
  assumes "cookie_text k" "cookie_text v" "length k + length v + 1 < npos"
  shows "cookie_step (k @ CHR ''='' # v) m = m(k \<mapsto> v)"
proof -
  have "split_view (k @ CHR ''='' # v) ''='' = [k, v]"
    using assms split_spec_append [of "set ''=''" k "CHR ''=''" v] split_spec_none [of "set ''=''" v]
    by (auto simp: split_view_spec cookie_text_def)
  then show ?thesis by (simp add: cookie_step_def)
qed

lemma cookie_step_Nil: "cookie_step [] m = m"
proof -
  have "split_view [] ''='' = [[]]" by (subst split_view_spec) (simp_all add: npos_def)
  then show ?thesis by (simp add: cookie_step_def)
qed

lemma cookie_fold:
  assumes "list_all (\<lambda>(k, v). cookie_text k \<and> cookie_text v) kvs" "\<forall>(k, v)\<in>set kvs. length k + length v + 1 < npos"
  shows "fold cookie_step (concat (map (\<lambda>(k, v). [[], k @ ''='' @ v]) kvs)) m = fold (\<lambda>(k, v) m. m(k \<mapsto> v)) kvs m"
  using assms
proof (induction kvs arbitrary: m)
  case (Cons kv kvs)
  then show ?case by (cases kv) (simp add: cookie_step_Nil cookie_step_piece del: fun_upd_apply)
qed simp

lemma print_cookies_length: "(k, v) \<in> set kvs \<Longrightarrow> length k + length v + 1 \<le> length (print_cookies kvs)"
  by (induction kvs rule: print_cookies.induct) auto

text \<open>A cookie header made of names and values without semicolon, blank and equals sign is read back as the map of its
pairs, the last of equal names winning.\<close>

theorem get_cookies_map_roundtrip:
  assumes "list_all (\<lambda>(k, v). cookie_text k \<and> cookie_text v) kvs" "kvs \<noteq> []" "length (print_cookies kvs) < npos"
  shows "get_cookies_map (print_cookies kvs) = fold (\<lambda>(k, v) m. m(k \<mapsto> v)) kvs (\<lambda>_. None)"
proof -
  obtain k v kvs' where kvs: "kvs = (k, v) # kvs'" using assms(2) by (cases kvs) auto
  have len: "\<forall>(k, v)\<in>set kvs. length k + length v + 1 < npos"
    using print_cookies_length assms(3) by (fastforce intro: le_less_trans)
  have "get_cookies_map (print_cookies kvs) =
      fold cookie_step ((k @ ''='' @ v) # concat (map (\<lambda>(k, v). [[], k @ ''='' @ v]) kvs')) (\<lambda>_. None)"
    unfolding get_cookies_fold split_view_spec [OF assms(3)] cookie_pieces [OF assms(1,2)] by (simp add: kvs)
  also have "\<dots> = fold (\<lambda>(k, v) m. m(k \<mapsto> v)) kvs (\<lambda>_. None)"
  proof -
    have "fold cookie_step (concat (map (\<lambda>(k, v). [[], k @ ''='' @ v]) kvs')) m = fold (\<lambda>(k, v) m. m(k \<mapsto> v)) kvs' m" for m
      by (rule cookie_fold) (use assms(1) len in \<open>auto simp: kvs\<close>)
    then show ?thesis using assms(1) len by (simp add: kvs cookie_step_piece del: fun_upd_apply)
  qed
  finally show ?thesis .
qed

theorem get_cookies_map_roundtrip_witness:
  "get_cookies_map (print_cookies [(''a'', ''1''), (''CSESSIONID'', ''77''), (''a'', ''2'')]) =
     (\<lambda>_. None)(''CSESSIONID'' \<mapsto> ''77'', ''a'' \<mapsto> ''2'')"
  using get_cookies_map_roundtrip [of "[(''a'', ''1''), (''CSESSIONID'', ''77''), (''a'', ''2'')]"]
  by (simp add: cookie_text_def npos_def fun_upd_twist)

text \<open>A value with an equals sign, as base64 has it, is dropped.\<close>

lemma get_cookies_map_equals: "get_cookies_map ''id=YQ=='' = (\<lambda>_. None)"
proof -
  have "split_view ''id=YQ=='' ''; '' = [''id=YQ=='']" "split_view ''id=YQ=='' ''='' = [''id'', ''YQ'', [], []]"
    by (subst split_view_spec; simp add: npos_def)+
  then show ?thesis by (simp add: get_cookies_fold cookie_step_def)
qed

text \<open>The position of the last colon is moved to the shortened path, but used in the old one: for a host of four letters it points
after \<open>http\<close>, and the port is left in the host name.\<close>

lemma get_host_port_lost:
  "get_host_port ''http://host:8080'' False = Some (''host:8080'', ''http'') \<and>
   get_host_port ''http://localhost:8080'' False = Some (''localhost'', ''8080'')"
  by (intro conjI; code_simp)

end
