(* ===== verification/UrlCode.thy ===== *)
theory UrlCode
  imports StrUtils
begin

text \<open>
  Percent encoding: \<open>quote\<close>, \<open>quote_plus\<close> and \<open>form_urldecode\<close> of \<open>include/tools/utils.hpp\<close>, \<open>url_encode\<close> and \<open>url_decode\<close> of
  \<open>include/tools/url_encode_decode.hpp\<close>, with the conversions of the standard library that they use.
\<close>

section \<open>Hexadecimal digits\<close>

definition hex_chars :: string where "hex_chars = ''0123456789ABCDEF''"

definition hex_digit :: "char \<Rightarrow> nat option" where
  "hex_digit c =
     (let n = ccode c in
      if 48 \<le> n \<and> n \<le> 57 then Some (n - 48)
      else if 65 \<le> n \<and> n \<le> 70 then Some (n - 55)
      else if 97 \<le> n \<and> n \<le> 102 then Some (n - 87) else None)"

definition is_space_c :: "char \<Rightarrow> bool" where
  "is_space_c c \<longleftrightarrow> ccode c = 32 \<or> (9 \<le> ccode c \<and> ccode c \<le> 13)"

fun hex_value :: "nat \<Rightarrow> string \<Rightarrow> nat" where
  "hex_value acc [] = acc"
| "hex_value acc (c # cs) = (case hex_digit c of None \<Rightarrow> acc | Some d \<Rightarrow> hex_value (16 * acc + d) cs)"

text \<open>A number in base 16 as \<open>strtol\<close> and \<open>sscanf\<close> read it: blanks, a sign, a prefix \<open>0x\<close>, digits. \<open>None\<close>: no number.
\<open>strict\<close> is \<open>sscanf\<close>, which fails on a prefix without digits, where \<open>strtol\<close> reads the 0.\<close>

definition scan_hex :: "bool \<Rightarrow> string \<Rightarrow> int option" where
  "scan_hex strict s =
     (let s = dropWhile is_space_c s;
          neg = (s \<noteq> [] \<and> hd s = CHR ''-'');
          s = (if s \<noteq> [] \<and> hd s \<in> {CHR ''-'', CHR ''+''} then tl s else s);
          prefixed = (length s \<ge> 2 \<and> s ! 0 = CHR ''0'' \<and> lower_char (s ! 1) = CHR ''x'');
          digits = (\<lambda>t. t \<noteq> [] \<and> hex_digit (hd t) \<noteq> None);
          v = (if prefixed then (if digits (drop 2 s) then Some (hex_value 0 (drop 2 s)) else if strict then None else Some 0)
               else if digits s then Some (hex_value 0 s) else None)
      in map_option (\<lambda>n. if neg then - int n else int n) v)"

text \<open>The conversion of an \<open>int\<close> or \<open>long\<close> to a \<open>char\<close>.\<close>

definition char_of_int :: "int \<Rightarrow> char" where "char_of_int n = char_of (nat (n mod 256))"

section \<open>Encoding\<close>

definition valid_chr :: "bool list" where
  "valid_chr =
    [False, False, False, False, False, False, False, False, False, False, False, False, False, False, False, False,
     False, False, False, False, False, False, False, False, False, False, False, False, False, False, False, False,
     False, False, False, False, False, False, False, False, False, False, False, False, False, True, True, False,
     True, True, True, True, True, True, True, True, True, True, False, False, False, False, False, False,
     False, True, True, True, True, True, True, True, True, True, True, True, True, True, True, True,
     True, True, True, True, True, True, True, True, True, True, True, False, False, False, False, True,
     False, True, True, True, True, True, True, True, True, True, True, True, True, True, True, True,
     True, True, True, True, True, True, True, True, True, True, True, False, False, False, False, False]"

text \<open>\<open>setw(2)\<close> with \<open>setfill('0')\<close>, \<open>hex\<close>, \<open>uppercase\<close>: two digits for a byte.\<close>

definition percent_hex :: "char \<Rightarrow> string" where
  "percent_hex c = [CHR ''%'', hex_chars ! (ccode c div 16), hex_chars ! (ccode c mod 16)]"

definition quote_impl :: "string \<Rightarrow> string \<Rightarrow> string" where
  "quote_impl str safe =
     concat (map (\<lambda>c. if (ccode c > 127 \<or> \<not> valid_chr ! ccode c) \<and> c \<notin> set safe then percent_hex c else [c]) str)"

definition quote_str :: "string \<Rightarrow> string" where "quote_str str = quote_impl str ''/''"

definition quote_plus :: "string \<Rightarrow> string" where
  "quote_plus str =
     (if CHR '' '' \<notin> set str then quote_str str
      else map (\<lambda>c. if c = CHR '' '' then CHR ''+'' else c) (quote_impl str '' ''))"

definition url_plain :: "char \<Rightarrow> bool" where
  "url_plain c \<longleftrightarrow>
     (48 \<le> ccode c \<and> ccode c \<le> 57) \<or> (65 \<le> ccode c \<and> ccode c \<le> 90) \<or> (97 \<le> ccode c \<and> ccode c \<le> 122) \<or>
     c = CHR ''-'' \<or> c = CHR ''.'' \<or> c = CHR ''_'' \<or> c = CHR ''~''"

definition url_encode :: "string \<Rightarrow> string" where
  "url_encode value =
     concat (map (\<lambda>c. if \<not> url_plain c then [CHR ''%'', hex_chars ! (ccode c div 16), hex_chars ! (ccode c mod 16)] else [c]) value)"

section \<open>Decoding\<close>

text \<open>The rest of the value from position \<open>i\<close>; \<open>i + 2 < value.size()\<close> is that two characters follow.\<close>

fun url_decode :: "string \<Rightarrow> string" where
  "url_decode [] = []"
| "url_decode [c] = (if c = CHR ''+'' then '' '' else [c])"
| "url_decode [c, d] = (if c = CHR ''+'' then CHR '' '' else c) # url_decode [d]"
| "url_decode (c # d # e # cs) =
     (if c = CHR ''%'' then char_of_int (case scan_hex False [d, e] of None \<Rightarrow> 0 | Some n \<Rightarrow> n) # url_decode cs
      else (if c = CHR ''+'' then CHR '' '' else c) # url_decode (d # e # cs))"

text \<open>\<open>ii\<close> is not initialised: \<open>None\<close> until a conversion has succeeded, and reading it then is undefined.\<close>

function form_urldecode_loop :: "int option \<Rightarrow> string \<Rightarrow> string option" where
  "form_urldecode_loop ii [] = Some []"
| "form_urldecode_loop ii (c # cs) =
     (if ccode c = 37 then
        (let ii = (case scan_hex True (take 2 cs) of None \<Rightarrow> ii | Some n \<Rightarrow> Some n) in
         Option.bind ii (\<lambda>n. map_option ((#) (char_of_int n)) (form_urldecode_loop ii (drop 2 cs))))
      else map_option ((#) c) (form_urldecode_loop ii cs))"
  by pat_completeness auto
termination
  by (relation "measure (\<lambda>(ii, s). length s)") auto

definition form_urldecode :: "string \<Rightarrow> string option" where
  "form_urldecode src = form_urldecode_loop None src"

definition get_string_by_urldecode :: "string \<Rightarrow> string" where
  "get_string_by_urldecode content = url_decode content"

definition is_url_encode :: "string \<Rightarrow> bool" where
  "is_url_encode str \<longleftrightarrow> contains str ''%'' \<or> contains str ''+''"

section \<open>Round trips\<close>

lemma ccode_lt: "ccode c < 256"
  by (simp add: ccode_def)

lemma char_of_ccode [simp]: "char_of (ccode c) = c"
  by (simp add: ccode_def)

lemma hex_char_code: "a < 16 \<Longrightarrow> ccode (hex_chars ! a) = (if a < 10 then 48 + a else 55 + a)"
proof -
  have eq: "map ccode hex_chars = map (\<lambda>a. if a < 10 then 48 + a else 55 + a) [0..<16]"
    by (simp add: hex_chars_def ccode_def upt_rec)
  have len: "length hex_chars = 16" by (simp add: hex_chars_def)
  assume a: "a < 16"
  then have "ccode (hex_chars ! a) = map ccode hex_chars ! a" by (simp add: len)
  with a show ?thesis by (simp add: eq)
qed

lemma char_eq_ccode: "c = d \<longleftrightarrow> ccode c = ccode d"
  by simp

lemma ccode_char_of [simp]: "n < 256 \<Longrightarrow> ccode (char_of n) = n"
  by (simp add: ccode_def)

lemma hex_char_not_x: "a < 16 \<Longrightarrow> lower_char (hex_chars ! a) \<noteq> CHR ''x''"
proof -
  assume a: "a < 16"
  have "ccode (lower_char (hex_chars ! a)) \<noteq> 120" using a by (auto simp: lower_char_def hex_char_code)
  then show ?thesis by (auto simp: ccode_def)
qed

lemma hex_digit_char: "a < 16 \<Longrightarrow> hex_digit (hex_chars ! a) = Some a"
  by (simp add: hex_digit_def Let_def hex_char_code)

lemma hex_char_props:
  assumes "a < 16"
  shows "\<not> is_space_c (hex_chars ! a)" "hex_chars ! a \<noteq> CHR ''-''" "hex_chars ! a \<noteq> CHR ''+''"
  using assms by (auto simp: is_space_c_def hex_char_code char_eq_ccode [of "hex_chars ! a"] ccode_def [of "CHR ''-''"] ccode_def [of "CHR ''+''"]
      simp del: ccode_inj)

lemma scan_hex_digits: "a < 16 \<Longrightarrow> b < 16 \<Longrightarrow> scan_hex st [hex_chars ! a, hex_chars ! b] = Some (int (16 * a + b))"
  by (simp add: scan_hex_def Let_def hex_char_props hex_char_not_x hex_digit_char)

lemma scan_hex_byte: "scan_hex st [hex_chars ! (ccode c div 16), hex_chars ! (ccode c mod 16)] = Some (int (ccode c))"
proof -
  have "ccode c div 16 < 16" using ccode_lt [of c] by (simp add: div_less_iff_less_mult)
  then show ?thesis using scan_hex_digits [of "ccode c div 16" "ccode c mod 16" st] by simp
qed

lemma char_of_int_byte [simp]: "char_of_int (int (ccode c)) = c"
  using ccode_lt [of c] by (simp add: char_of_int_def)

lemma url_decode_plain: "c \<noteq> CHR ''%'' \<Longrightarrow> c \<noteq> CHR ''+'' \<Longrightarrow> url_decode (c # s) = c # url_decode s"
  by (cases s rule: url_decode.cases) auto

lemma url_decode_hex:
  "url_decode (CHR ''%'' # hex_chars ! (ccode c div 16) # hex_chars ! (ccode c mod 16) # s) = c # url_decode s"
  by (simp add: scan_hex_byte)

text \<open>\<open>url_decode\<close> inverts \<open>url_encode\<close> on every byte string, and what \<open>url_encode\<close> writes consists of letters, digits, the
marks \<open>-._~\<close> and percent signs.\<close>

theorem url_encode_decode:
  "url_decode (url_encode s) = s \<and> list_all (\<lambda>c. url_plain c \<or> c = CHR ''%'') (url_encode s)"
proof (intro conjI)
  show "url_decode (url_encode s) = s"
  proof (induction s)
    case (Cons c s)
    have "c \<noteq> CHR ''%'' \<and> c \<noteq> CHR ''+''" if "url_plain c" using that by (auto simp: url_plain_def ccode_def)
    with Cons show ?case
      by (cases "url_plain c") (simp_all add: url_encode_def url_decode_plain url_decode_hex del: url_decode.simps)
  qed (simp add: url_encode_def)
  have h: "i < 16 \<Longrightarrow> url_plain (hex_chars ! i)" for i by (auto simp: url_plain_def hex_char_code)
  have "ccode c div 16 < 16" for c using ccode_lt [of c] by (simp add: div_less_iff_less_mult)
  with h show "list_all (\<lambda>c. url_plain c \<or> c = CHR ''%'') (url_encode s)" by (auto simp: url_encode_def list_all_iff)
qed

lemma form_urldecode_hex:
  "form_urldecode_loop ii (percent_hex c @ s) = map_option ((#) c) (form_urldecode_loop (Some (int (ccode c))) s)"
  by (simp add: percent_hex_def scan_hex_byte ccode_def [of "CHR ''%''"])

lemma valid_chr_table:
  "n < 128 \<Longrightarrow> valid_chr ! n \<longleftrightarrow> (48 \<le> n \<and> n \<le> 57) \<or> (65 \<le> n \<and> n \<le> 90) \<or> (97 \<le> n \<and> n \<le> 122) \<or> n \<in> {45, 46, 95}"
proof -
  have eq: "valid_chr = map (\<lambda>n. (48 \<le> n \<and> n \<le> 57) \<or> (65 \<le> n \<and> n \<le> 90) \<or> (97 \<le> n \<and> n \<le> 122) \<or> n \<in> {45, 46, 95}) [0..<128]"
    by (simp add: valid_chr_def upt_rec)
  assume "n < 128"
  then show ?thesis by (subst eq) (simp del: upt_Suc)
qed

lemma form_urldecode_quote:
  assumes "CHR ''%'' \<notin> set safe"
  shows "form_urldecode_loop ii (quote_impl s safe) = Some s"
proof (induction s arbitrary: ii)
  case (Cons c s)
  show ?case
  proof (cases "(ccode c > 127 \<or> \<not> valid_chr ! ccode c) \<and> c \<notin> set safe")
    case True
    then have "quote_impl (c # s) safe = percent_hex c @ quote_impl s safe" by (simp add: quote_impl_def)
    then show ?thesis by (simp add: form_urldecode_hex Cons)
  next
    case False
    then have q: "quote_impl (c # s) safe = c # quote_impl s safe" by (auto simp: quote_impl_def)
    have "c \<noteq> CHR ''%''" using False assms by (auto simp: ccode_def valid_chr_table)
    then have "ccode c \<noteq> 37" using ccode_inj [of c "CHR ''%''"] by (simp add: ccode_def del: ccode_inj)
    with q Cons show ?thesis by simp
  qed
qed (simp add: quote_impl_def)

text \<open>\<open>form_urldecode\<close> inverts \<open>quote\<close> on every byte string, without ever reading its uninitialised variable.\<close>

theorem quote_form_urldecode: "form_urldecode (quote_str s) = Some s"
  unfolding form_urldecode_def quote_str_def by (rule form_urldecode_quote) simp

text \<open>The slash is quoted by \<open>quote_plus\<close> only if there is a blank, and a percent sign without digits makes
\<open>form_urldecode\<close> use a variable that nothing has set.\<close>

lemma quote_plus_slash: "quote_plus ''a/b'' = ''a/b'' \<and> quote_plus ''a/b c'' = ''a%2Fb+c''"
  by code_simp

lemma form_urldecode_undefined: "form_urldecode ''100% sure'' = None"
  by code_simp

end
