(* ===== verification/Base64.thy ===== *)
theory Base64
  imports UrlCode
begin

text \<open>
  \<open>base64_encode\<close> and \<open>is_valid_utf8\<close> of \<open>include/tools/utils.hpp\<close>, on \<open>uint8_t\<close> bytes with the 32-bit arithmetic of the code, and
  the theorems that the first is inverted by a decoder and that the second accepts exactly the encodings of Unicode
  scalar values.
\<close>

unbundle bit_operations_syntax

type_synonym byte = "8 word"

section \<open>Base64\<close>

definition MAP_STD :: string where
  "MAP_STD = ''ABCDEFGHIJKLMNOPQRSTUVWXYZabcdefghijklmnopqrstuvwxyz0123456789+/''"

definition MAP_URL_ENCODED :: string where
  "MAP_URL_ENCODED = ''ABCDEFGHIJKLMNOPQRSTUVWXYZabcdefghijklmnopqrstuvwxyz0123456789-_''"

definition widen :: "byte \<Rightarrow> 32 word" where "widen b = ucast b"

definition map_at :: "string \<Rightarrow> 32 word \<Rightarrow> char" where "map_at m i = m ! unat i"

fun base64_loop :: "string \<Rightarrow> bool \<Rightarrow> byte list \<Rightarrow> string" where
  "base64_loop m url (a # b # c # s) =
     (let quad = (push_bit 16 (widen a) OR push_bit 8 (widen b)) OR widen c in
      [map_at m (drop_bit 18 quad), map_at m (drop_bit 12 quad AND 63), map_at m (drop_bit 6 quad AND 63), map_at m (quad AND 63)]
      @ base64_loop m url s)"
| "base64_loop m url [a, b] =
     (let quad = push_bit 16 (widen a) OR push_bit 8 (widen b) in
      [map_at m (drop_bit 18 quad), map_at m (drop_bit 12 quad AND 63), map_at m (drop_bit 6 quad AND 63)]
      @ (if url then [] else ''=''))"
| "base64_loop m url [a] =
     (let quad = push_bit 16 (widen a) in
      [map_at m (drop_bit 18 quad), map_at m (drop_bit 12 quad AND 63)] @ (if url then [] else ''==''))"
| "base64_loop m url [] = []"

text \<open>The characters written before the terminating zero; the function returns their number.\<close>

definition base64_encode :: "byte list \<Rightarrow> bool \<Rightarrow> string" where
  "base64_encode src url = base64_loop (if url then MAP_URL_ENCODED else MAP_STD) url src"

definition base64_encode_len :: "byte list \<Rightarrow> bool \<Rightarrow> nat" where
  "base64_encode_len src url = length (base64_encode src url)"

text \<open>A decoder as reference: six bits from each character.\<close>

definition map_index :: "string \<Rightarrow> char \<Rightarrow> nat" where
  "map_index m c = length (takeWhile (\<lambda>d. d \<noteq> c) m)"

fun base64_decode :: "string \<Rightarrow> string \<Rightarrow> byte list" where
  "base64_decode m (p # q # r # t # s) =
     (let p = map_index m p; q = map_index m q in
      if r = CHR ''='' then [of_nat (p * 4 + q div 16)]
      else let r = map_index m r in
        if t = CHR ''='' then [of_nat (p * 4 + q div 16), of_nat (q mod 16 * 16 + r div 4)]
        else [of_nat (p * 4 + q div 16), of_nat (q mod 16 * 16 + r div 4), of_nat (r mod 4 * 64 + map_index m t)]
             @ base64_decode m s)"
| "base64_decode m [p, q, r] =
     [of_nat (map_index m p * 4 + map_index m q div 16), of_nat (map_index m q mod 16 * 16 + map_index m r div 4)]"
| "base64_decode m [p, q] = [of_nat (map_index m p * 4 + map_index m q div 16)]"
| "base64_decode m _ = []"

lemma unat_quad:
  "unat ((push_bit 16 (widen a) OR push_bit 8 (widen b)) OR widen c) = unat a * 65536 + unat b * 256 + unat c"
proof -
  have lt: "unat x < 2 ^ 8" for x :: byte using unsigned_less [of x] by simp
  have s: "take_bit 32 (push_bit 16 (unat a)) = push_bit 16 (unat a)" "take_bit 32 (push_bit 8 (unat b)) = push_bit 8 (unat b)"
    using lt [of a] lt [of b] by (simp_all add: push_bit_eq_mult take_bit_nat_eq_self)
  have "unat ((push_bit 16 (widen a) OR push_bit 8 (widen b)) OR widen c) = (push_bit 16 (unat a) OR push_bit 8 (unat b)) OR unat c"
    by (simp add: unsigned_or_eq unsigned_push_bit_eq widen_def unsigned_ucast_eq s take_bit_nat_eq_self lt
        less_trans [OF lt])
  also have "push_bit 16 (unat a) OR push_bit 8 (unat b) = push_bit 16 (unat a) + push_bit 8 (unat b)"
    by (rule disjunctive_add_eq_or [symmetric]) (rule bit_eqI, auto simp: bit_simps dest!: bit_imp_le_length)
  also have "\<dots> = push_bit 8 (unat a * 256 + unat b)"
    by (simp add: push_bit_eq_mult algebra_simps)
  also have "push_bit 8 (unat a * 256 + unat b) OR unat c = push_bit 8 (unat a * 256 + unat b) + unat c"
    by (rule disjunctive_add_eq_or [symmetric]) (rule bit_eqI, auto simp: bit_simps dest!: bit_imp_le_length)
  finally show ?thesis by (simp add: push_bit_eq_mult algebra_simps)
qed


lemma unat_lt [simp]: "unat (x :: byte) < 256"
  using unsigned_less [of x] by simp

lemma unat_sextets:
  assumes "unat q = n"
  shows "unat (drop_bit 18 (q :: 32 word)) = n div 262144" "unat (drop_bit 12 q AND 63) = n div 4096 mod 64"
    "unat (drop_bit 6 q AND 63) = n div 64 mod 64" "unat (q AND 63) = n mod 64"
proof -
  have m: "(63 :: 32 word) = mask 6" by (simp add: mask_eq_exp_minus_1)
  have m': "unat (x AND (63 :: 32 word)) = unat x mod 64" for x :: "32 word"
    unfolding m by (simp add: take_bit_eq_mask [symmetric] unsigned_take_bit_eq take_bit_eq_mod unat_mod)
  show "unat (drop_bit 18 q) = n div 262144" "unat (drop_bit 12 q AND 63) = n div 4096 mod 64"
    "unat (drop_bit 6 q AND 63) = n div 64 mod 64" "unat (q AND 63) = n mod 64"
    unfolding m' unat_drop_bit_eq unfolding drop_bit_eq_div assms by simp_all
qed

definition map_ok :: "string \<Rightarrow> bool" where
  "map_ok m \<longleftrightarrow> length m = 64 \<and> distinct m \<and> CHR ''='' \<notin> set m"

lemma map_index_at: "map_ok m \<Longrightarrow> i < 64 \<Longrightarrow> map_index m (m ! i) = i"
proof -
  assume m: "map_ok m" "i < 64"
  have "takeWhile (\<lambda>d. d \<noteq> m ! i) m = take i m"
    by (rule takeWhile_eq_take_P_nth) (use m in \<open>auto simp: map_ok_def nth_eq_iff_index_eq\<close>)
  with m show ?thesis by (simp add: map_index_def map_ok_def)
qed

lemma map_no_pad: "map_ok m \<Longrightarrow> i < 64 \<Longrightarrow> m ! i \<noteq> CHR ''=''"
  by (auto simp: map_ok_def) (metis nth_mem)

lemma maps_ok: "map_ok MAP_STD" "map_ok MAP_URL_ENCODED"
  by (simp_all add: map_ok_def MAP_STD_def MAP_URL_ENCODED_def)

lemma mult_add_div: "(y :: nat) < k \<Longrightarrow> (x * k + y) div k = x" "(y :: nat) < k \<Longrightarrow> (x * k + y) mod k = y"
  by simp_all

text \<open>The four sextets of three bytes, as numbers.\<close>

lemma sextet_arith:
  fixes x y u v p r :: nat
  assumes "y < 4" "u < 16" "v < 16" "p < 4" "r < 64"
  defines "n \<equiv> (x * 4 + y) * 65536 + (u * 16 + v) * 256 + (p * 64 + r)"
  shows "n div 262144 = x" "n div 4096 mod 64 = y * 16 + u" "n div 64 mod 64 = v * 4 + p" "n mod 64 = r"
proof -
  have "n = x * 262144 + (y * 65536 + (u * 16 + v) * 256 + (p * 64 + r))" "y * 65536 + (u * 16 + v) * 256 + (p * 64 + r) < 262144"
    using assms(1-5) by (simp_all add: n_def)
  then show "n div 262144 = x" using mult_add_div(1) by metis
  have "n = (x * 64 + (y * 16 + u)) * 4096 + (v * 256 + (p * 64 + r))" "v * 256 + (p * 64 + r) < 4096" "y * 16 + u < 64"
    using assms(1-5) by (simp_all add: n_def)
  then show "n div 4096 mod 64 = y * 16 + u" using mult_add_div by metis
  have m: "n = (((x * 4 + y) * 16 + u) * 64 + (v * 4 + p)) * 64 + r" "v * 4 + p < 64"
    using assms(1-5) by (simp_all add: n_def)
  then show "n div 64 mod 64 = v * 4 + p" using mult_add_div assms(5) by metis
  show "n mod 64 = r" unfolding m(1) by (rule mult_add_div(2) [OF assms(5)])
qed

lemma sextet_bounds:
  fixes a b c :: nat
  assumes "a < 256" "b < 256" "c < 256"
  defines "n \<equiv> a * 65536 + b * 256 + c"
  shows "n div 262144 = a div 4" "n div 4096 mod 64 = a mod 4 * 16 + b div 16" "n div 64 mod 64 = b mod 16 * 4 + c div 64"
    "n mod 64 = c mod 64"
proof -
  have "a mod 4 < 4" "b div 16 < 16" "b mod 16 < 16" "c div 64 < 4" "c mod 64 < 64"
    using assms(2,3) by (simp_all add: div_less_iff_less_mult)
  note s = sextet_arith [OF this, of "a div 4"]
  show "n div 262144 = a div 4" "n div 4096 mod 64 = a mod 4 * 16 + b div 16" "n div 64 mod 64 = b mod 16 * 4 + c div 64"
    "n mod 64 = c mod 64"
    using s unfolding div_mult_mod_eq n_def by simp_all
qed

lemma quad_sextets:
  fixes a b c :: byte
  defines "q \<equiv> (push_bit 16 (widen a) OR push_bit 8 (widen b)) OR widen c"
  shows "unat (drop_bit 18 q) = unat a div 4" "unat (drop_bit 12 q AND 63) = unat a mod 4 * 16 + unat b div 16"
    "unat (drop_bit 6 q AND 63) = unat b mod 16 * 4 + unat c div 64" "unat (q AND 63) = unat c mod 64"
proof -
  have "unat q = unat a * 65536 + unat b * 256 + unat c" unfolding q_def by (rule unat_quad)
  note s = unat_sextets [OF this]
  note n = sextet_bounds [OF unat_lt [of a] unat_lt [of b] unat_lt [of c]]
  show "unat (drop_bit 18 q) = unat a div 4" "unat (drop_bit 12 q AND 63) = unat a mod 4 * 16 + unat b div 16"
    "unat (drop_bit 6 q AND 63) = unat b mod 16 * 4 + unat c div 64" "unat (q AND 63) = unat c mod 64"
    unfolding s n by (rule refl)+
qed

lemma widen_0: "widen 0 = 0" by (simp add: widen_def)

lemma quad_sextets2:
  "unat (drop_bit 18 (push_bit 16 (widen a) OR push_bit 8 (widen b))) = unat a div 4"
  "unat (drop_bit 12 (push_bit 16 (widen a) OR push_bit 8 (widen b)) AND 63) = unat a mod 4 * 16 + unat b div 16"
  "unat (drop_bit 6 (push_bit 16 (widen a) OR push_bit 8 (widen b)) AND 63) = unat b mod 16 * 4"
  using quad_sextets [of a b 0] by (simp_all add: widen_0)

lemma quad_sextets1:
  "unat (drop_bit 18 (push_bit 16 (widen a))) = unat a div 4"
  "unat (drop_bit 12 (push_bit 16 (widen a)) AND 63) = unat a mod 4 * 16"
  using quad_sextets2 [of a 0] by (simp_all add: widen_0)

lemma nibbles:
  fixes a :: byte
  shows "unat a div 4 < 64" "unat a div 16 < 16" "unat a div 64 < 4" "unat a mod 4 < 4" "unat a mod 16 < 16" "unat a mod 64 < 64"
  using unat_lt [of a] by (simp_all add: div_less_iff_less_mult)

lemma sextets_lt:
  fixes a b c :: byte
  shows "unat a div 4 < 64" "unat a mod 4 * 16 + unat b div 16 < 64" "unat b mod 16 * 4 + unat c div 64 < 64"
    "unat c mod 64 < 64" "unat a mod 4 * 16 < 64" "unat b mod 16 * 4 < 64"
proof -
  have *: "(x :: nat) < 4 \<Longrightarrow> y < 16 \<Longrightarrow> x * 16 + y < 64" "x < 16 \<Longrightarrow> y < 4 \<Longrightarrow> x * 4 + y < 64" for x y by simp_all
  show "unat a div 4 < 64" "unat a mod 4 * 16 + unat b div 16 < 64" "unat b mod 16 * 4 + unat c div 64 < 64"
    "unat c mod 64 < 64" "unat a mod 4 * 16 < 64" "unat b mod 16 * 4 < 64"
    using *(1) [OF nibbles(4) nibbles(2), of a b] *(2) [OF nibbles(5) nibbles(3), of b c] nibbles(1) [of a] by simp_all
qed

lemma bytes_back:
  fixes a b c :: byte
  shows "of_nat (unat a div 4 * 4 + (unat a mod 4 * 16 + unat b div 16) div 16) = a"
    "of_nat ((unat a mod 4 * 16 + unat b div 16) mod 16 * 16 + (unat b mod 16 * 4 + unat c div 64) div 4) = b"
    "of_nat ((unat b mod 16 * 4 + unat c div 64) mod 4 * 64 + unat c mod 64) = c"
  unfolding mult_add_div(1) [OF nibbles(2)] mult_add_div(2) [OF nibbles(2)] mult_add_div(1) [OF nibbles(3)] mult_add_div(2) [OF nibbles(3)]
    div_mult_mod_eq by simp_all

lemma map_at_props:
  assumes "map_ok m" "unat w < 64"
  shows "map_index m (map_at m w) = unat w" "map_at m w \<noteq> CHR ''=''"
  using map_index_at [OF assms] map_no_pad [OF assms] by (simp_all add: map_at_def)

lemma base64_loop_decode: "map_ok m \<Longrightarrow> base64_decode m (base64_loop m url s) = s"
proof (induction m url s rule: base64_loop.induct)
  case (1 m url a b c s)
  let ?q = "(push_bit 16 (widen a) OR push_bit 8 (widen b)) OR widen c"
  note x = quad_sextets [of a b c]
  have lt: "unat (drop_bit 18 ?q) < 64" "unat (drop_bit 12 ?q AND 63) < 64" "unat (drop_bit 6 ?q AND 63) < 64" "unat (?q AND 63) < 64"
    unfolding x by (rule sextets_lt)+
  note p = map_at_props [OF 1(2) lt(1)] map_at_props [OF 1(2) lt(2)] map_at_props [OF 1(2) lt(3)] map_at_props [OF 1(2) lt(4)]
  have "base64_decode m (base64_loop m url (a # b # c # s)) =
      [of_nat (unat a div 4 * 4 + (unat a mod 4 * 16 + unat b div 16) div 16),
       of_nat ((unat a mod 4 * 16 + unat b div 16) mod 16 * 16 + (unat b mod 16 * 4 + unat c div 64) div 4),
       of_nat ((unat b mod 16 * 4 + unat c div 64) mod 4 * 64 + unat c mod 64)] @ base64_decode m (base64_loop m url s)"
    unfolding base64_loop.simps Let_def append_Cons append_Nil base64_decode.simps p x using p by simp
  then show ?case unfolding bytes_back using 1 by simp
next
  case (2 m url a b)
  let ?q = "push_bit 16 (widen a) OR push_bit 8 (widen b)"
  note x = quad_sextets2 [of a b]
  have lt: "unat (drop_bit 18 ?q) < 64" "unat (drop_bit 12 ?q AND 63) < 64" "unat (drop_bit 6 ?q AND 63) < 64"
    unfolding x by (rule sextets_lt)+
  note p = map_at_props [OF 2 lt(1)] map_at_props [OF 2 lt(2)] map_at_props [OF 2 lt(3)]
  have "base64_decode m (base64_loop m url [a, b]) =
      [of_nat (unat a div 4 * 4 + (unat a mod 4 * 16 + unat b div 16) div 16),
       of_nat ((unat a mod 4 * 16 + unat b div 16) mod 16 * 16 + (unat b mod 16 * 4) div 4)]"
    unfolding base64_loop.simps Let_def append_Cons append_Nil using p
    by (cases url) (simp_all only: base64_decode.simps Let_def p x if_True if_False append_Cons append_Nil refl simp_thms)
  then show ?case using bytes_back(1) [of a b] bytes_back(2) [of a b 0] by simp
next
  case (3 m url a)
  let ?q = "push_bit 16 (widen a)"
  note x = quad_sextets1 [of a]
  have lt: "unat (drop_bit 18 ?q) < 64" "unat (drop_bit 12 ?q AND 63) < 64"
    unfolding x by (rule sextets_lt)+
  note p = map_at_props [OF 3 lt(1)] map_at_props [OF 3 lt(2)]
  have "base64_decode m (base64_loop m url [a]) = [of_nat (unat a div 4 * 4 + (unat a mod 4 * 16) div 16)]"
    unfolding base64_loop.simps Let_def append_Cons append_Nil using p
    by (cases url) (simp_all only: base64_decode.simps Let_def p x if_True if_False append_Cons append_Nil refl simp_thms)
  then show ?case using bytes_back(1) [of a 0] by simp
qed simp

lemma base64_loop_length:
  "length (base64_loop m url s) =
     (if url then 4 * (length s div 3) + (case length s mod 3 of 0 \<Rightarrow> 0 | Suc n \<Rightarrow> n + 2) else 4 * ((length s + 2) div 3))"
proof (induction m url s rule: base64_loop.induct)
  case (1 m url a b c s)
  have "Suc (Suc (Suc (length s))) div 3 = Suc (length s div 3)" "Suc (Suc (Suc (length s))) mod 3 = length s mod 3"
    "Suc (Suc (Suc (Suc (Suc (length s))))) div 3 = Suc (Suc (Suc (length s)) div 3)"
    by presburger+
  with 1 show ?case by (simp add: Let_def)
qed (simp_all add: Let_def)

text \<open>Decoding what \<open>base64_encode\<close> writes gives the bytes back, in both alphabets, with and without padding; the function
returns the number of characters that RFC 4648 prescribes.\<close>

theorem base64_roundtrip:
  "base64_decode (if url then MAP_URL_ENCODED else MAP_STD) (base64_encode src url) = src \<and>
   base64_encode_len src url =
     (if url then 4 * (length src div 3) + (case length src mod 3 of 0 \<Rightarrow> 0 | Suc n \<Rightarrow> n + 2) else 4 * ((length src + 2) div 3))"
  using maps_ok by (simp add: base64_encode_def base64_encode_len_def base64_loop_decode base64_loop_length)

end
