(* ===== verification/Utf8.thy ===== *)
theory Utf8
  imports Prelude "HOL-Library.Code_Target_Nat"
begin

text \<open>
  \<open>is_valid_utf8\<close> of \<open>include/tools/utils.hpp\<close>: it accepts exactly the concatenations of the UTF-8 encodings of Unicode scalar values.
  The pointer \<open>s\<close> is the list of the bytes up to \<open>e\<close>.
\<close>

unbundle bit_operations_syntax

section \<open>The function\<close>

definition hibit :: "8 word \<Rightarrow> bool" where "hibit b \<longleftrightarrow> b AND 0x80 \<noteq> 0"

definition is_cont :: "8 word \<Rightarrow> bool" where "is_cont b \<longleftrightarrow> b AND 0xc0 = 0x80"

text \<open>The first four bytes as one \<open>uint32_t\<close> have no high bit, or the loop over the bytes without it.\<close>

function is_valid_utf8 :: "8 word list \<Rightarrow> bool" where
  "is_valid_utf8 s =
     (if s = [] then True
      else if 4 \<le> length s \<and> list_all (\<lambda>b. \<not> hibit b) (take 4 s) then is_valid_utf8 (drop 4 s)
      else
        (case dropWhile (\<lambda>b. \<not> hibit b) s of
           [] \<Rightarrow> True
         | s0 # r \<Rightarrow>
             if s0 AND 0x60 = 0x40 then
               (if length r < 1 \<or> \<not> is_cont (r ! 0) \<or> s0 AND 0xfe = 0xc0 then False else is_valid_utf8 (drop 1 r))
             else if s0 AND 0xf0 = 0xe0 then
               (if length r < 2 \<or> \<not> is_cont (r ! 0) \<or> \<not> is_cont (r ! 1) \<or> (s0 = 0xe0 \<and> r ! 0 AND 0xe0 = 0x80) \<or>
                   (s0 = 0xed \<and> r ! 0 AND 0xe0 = 0xa0)
                then False else is_valid_utf8 (drop 2 r))
             else if s0 AND 0xf8 = 0xf0 then
               (if length r < 3 \<or> \<not> is_cont (r ! 0) \<or> \<not> is_cont (r ! 1) \<or> \<not> is_cont (r ! 2) \<or>
                   (s0 = 0xf0 \<and> r ! 0 AND 0xf0 = 0x80) \<or> (s0 = 0xf4 \<and> r ! 0 > 0x8f) \<or> s0 > 0xf4
                then False else is_valid_utf8 (drop 3 r))
             else False))"
  by pat_completeness auto
termination
proof (relation "measure length", goal_cases)
  case (3 s s0 r)
  have "length (s0 # r) \<le> length s" using length_dropWhile_le [of "\<lambda>b. \<not> hibit b" s] 3 by simp
  then show ?case by simp
next
  case (4 s s0 r)
  have "length (s0 # r) \<le> length s" using length_dropWhile_le [of "\<lambda>b. \<not> hibit b" s] 4 by simp
  then show ?case by simp
next
  case (5 s s0 r)
  have "length (s0 # r) \<le> length s" using length_dropWhile_le [of "\<lambda>b. \<not> hibit b" s] 5 by simp
  then show ?case by simp
qed auto

declare is_valid_utf8.simps [simp del]

section \<open>Unicode scalar values\<close>

definition scalar :: "nat \<Rightarrow> bool" where
  "scalar n \<longleftrightarrow> n < 0xD800 \<or> (0xE000 \<le> n \<and> n \<le> 0x10FFFF)"

definition utf8_encode :: "nat \<Rightarrow> nat list" where
  "utf8_encode n =
     (if n < 0x80 then [n]
      else if n < 0x800 then [0xC0 + n div 64, 0x80 + n mod 64]
      else if n < 0x10000 then [0xE0 + n div 4096, 0x80 + n div 64 mod 64, 0x80 + n mod 64]
      else [0xF0 + n div 262144, 0x80 + n div 4096 mod 64, 0x80 + n div 64 mod 64, 0x80 + n mod 64])"

text \<open>The well-formed byte sequences by ranges of bytes.\<close>

definition cont :: "nat \<Rightarrow> bool" where "cont b \<longleftrightarrow> 128 \<le> b \<and> b < 192"

fun utf8_ranges :: "nat list \<Rightarrow> bool" where
  "utf8_ranges [] = True"
| "utf8_ranges (a # s) =
     (if a < 128 then utf8_ranges s
      else if 194 \<le> a \<and> a \<le> 223 then (case s of b # r \<Rightarrow> cont b \<and> utf8_ranges r | _ \<Rightarrow> False)
      else if 224 \<le> a \<and> a \<le> 239 then
        (case s of b # c # r \<Rightarrow> cont b \<and> cont c \<and> (a = 224 \<longrightarrow> 160 \<le> b) \<and> (a = 237 \<longrightarrow> b < 160) \<and> utf8_ranges r | _ \<Rightarrow> False)
      else if 240 \<le> a \<and> a \<le> 244 then
        (case s of b # c # d # r \<Rightarrow>
           cont b \<and> cont c \<and> cont d \<and> (a = 240 \<longrightarrow> 144 \<le> b) \<and> (a = 244 \<longrightarrow> b < 144) \<and> utf8_ranges r | _ \<Rightarrow> False)
      else False)"

lemma and_field: "(n::nat) AND push_bit k (mask m) = n div 2 ^ k mod 2 ^ m * 2 ^ k"
proof -
  have "n AND push_bit k (mask m) = push_bit k (take_bit m (drop_bit k n))"
    by (rule bit_eqI) (auto simp: bit_simps)
  then show ?thesis by (simp add: push_bit_eq_mult take_bit_eq_mod drop_bit_eq_div)
qed

lemma fields: "128 = push_bit 7 (mask 1 :: nat)" "192 = push_bit 6 (mask 2 :: nat)" "96 = push_bit 5 (mask 2 :: nat)"
  "254 = push_bit 1 (mask 7 :: nat)" "240 = push_bit 4 (mask 4 :: nat)" "224 = push_bit 5 (mask 3 :: nat)" "248 = push_bit 3 (mask 5 :: nat)"
  by (simp_all add: push_bit_eq_mult mask_eq_exp_minus_1)

lemma and_fields:
  "n AND 128 = n div 128 mod 2 * 128" "n AND 192 = n div 64 mod 4 * 64" "n AND 96 = n div 32 mod 4 * 32"
  "n AND 254 = n div 2 mod 128 * 2" "n AND 240 = n div 16 mod 16 * 16" "n AND 224 = n div 32 mod 8 * 32"
  "n AND 248 = n div 8 mod 32 * 8" for n :: nat
  using and_field [of n 7 1, folded fields(1)] and_field [of n 6 2, folded fields(2)] and_field [of n 5 2, folded fields(3)]
    and_field [of n 1 7, folded fields(4)] and_field [of n 4 4, folded fields(5)]
    and_field [of n 5 3, folded fields(6)] and_field [of n 3 5, folded fields(7)]
  by simp_all

lemma mask_table:
  assumes "n < (256::nat)"
  shows "(n AND 128 \<noteq> 0) = (128 \<le> n)" "(n AND 192 = 128) = (128 \<le> n \<and> n < 192)" "128 \<le> n \<Longrightarrow> (n AND 96 = 64) = (192 \<le> n \<and> n < 224)"
    "(n AND 254 = 192) = (n = 192 \<or> n = 193)" "(n AND 240 = 224) = (224 \<le> n \<and> n < 240)"
    "(n AND 224 = 128) = (128 \<le> n \<and> n < 160)" "(n AND 224 = 160) = (160 \<le> n \<and> n < 192)"
    "(n AND 248 = 240) = (240 \<le> n \<and> n < 248)" "(n AND 240 = 128) = (128 \<le> n \<and> n < 144)"
proof -
  have d: "n div 128 < 2" "n div 64 < 4" "n div 32 < 8" "n div 2 < 128" "n div 16 < 16" "n div 8 < 32"
    using assms by (simp_all add: div_less_iff_less_mult)
  show "(n AND 128 \<noteq> 0) = (128 \<le> n)" unfolding and_fields using d(1) by (simp add: div_eq_0_iff not_less)
  have "(n div 64 = 2) = (128 \<le> n \<and> n < 192)" by arith
  then show "(n AND 192 = 128) = (128 \<le> n \<and> n < 192)" unfolding and_fields using d(2) by simp
  have "(n div 32 = 6) = (192 \<le> n \<and> n < 224)" by arith
  moreover have "128 \<le> n \<Longrightarrow> 4 \<le> n div 32" by arith
  moreover have "4 \<le> x \<Longrightarrow> x < 8 \<Longrightarrow> (x mod 4 = 2) = (x = 6)" for x :: nat by arith
  ultimately show "128 \<le> n \<Longrightarrow> (n AND 96 = 64) = (192 \<le> n \<and> n < 224)" unfolding and_fields using d(3) by simp
  have "(n div 2 = 96) = (n = 192 \<or> n = 193)" by arith
  then show "(n AND 254 = 192) = (n = 192 \<or> n = 193)" unfolding and_fields using d(4) by simp
  have "(n div 16 = 14) = (224 \<le> n \<and> n < 240)" by arith
  then show "(n AND 240 = 224) = (224 \<le> n \<and> n < 240)" unfolding and_fields using d(5) by simp
  have "(n div 32 = 4) = (128 \<le> n \<and> n < 160)" by arith
  then show "(n AND 224 = 128) = (128 \<le> n \<and> n < 160)" unfolding and_fields using d(3) by simp
  have "(n div 32 = 5) = (160 \<le> n \<and> n < 192)" by arith
  then show "(n AND 224 = 160) = (160 \<le> n \<and> n < 192)" unfolding and_fields using d(3) by simp
  have "(n div 8 = 30) = (240 \<le> n \<and> n < 248)" by arith
  then show "(n AND 248 = 240) = (240 \<le> n \<and> n < 248)" unfolding and_fields using d(6) by simp
  have "(n div 16 = 8) = (128 \<le> n \<and> n < 144)" by arith
  then show "(n AND 240 = 128) = (128 \<le> n \<and> n < 144)" unfolding and_fields using d(5) by simp
qed

lemma word_masks:
  fixes b :: "8 word"
  shows "hibit b = (128 \<le> unat b)" "is_cont b = cont (unat b)" "128 \<le> unat b \<Longrightarrow> (b AND 0x60 = 0x40) = (192 \<le> unat b \<and> unat b < 224)"
    "(b AND 0xfe = 0xc0) = (unat b = 192 \<or> unat b = 193)" "(b AND 0xf0 = 0xe0) = (224 \<le> unat b \<and> unat b < 240)"
    "(b AND 0xe0 = 0x80) = (128 \<le> unat b \<and> unat b < 160)" "(b AND 0xe0 = 0xa0) = (160 \<le> unat b \<and> unat b < 192)"
    "(b AND 0xf8 = 0xf0) = (240 \<le> unat b \<and> unat b < 248)" "(b AND 0xf0 = 0x80) = (128 \<le> unat b \<and> unat b < 144)"
    "b = 0xe0 \<longleftrightarrow> unat b = 224" "b = 0xed \<longleftrightarrow> unat b = 237" "b = 0xf0 \<longleftrightarrow> unat b = 240" "b = 0xf4 \<longleftrightarrow> unat b = 244"
    "b > 0x8f \<longleftrightarrow> unat b \<ge> 144" "b > 0xf4 \<longleftrightarrow> unat b \<ge> 245"
proof -
  have lt: "unat b < 256" using unsigned_less [of b] by simp
  note t = mask_table [OF lt]
  have eq: "x = y \<longleftrightarrow> unat x = unat y" for x y :: "8 word" by (rule word_eq_iff_unsigned)
  show "hibit b = (128 \<le> unat b)" "is_cont b = cont (unat b)" "128 \<le> unat b \<Longrightarrow> (b AND 0x60 = 0x40) = (192 \<le> unat b \<and> unat b < 224)"
    "(b AND 0xfe = 0xc0) = (unat b = 192 \<or> unat b = 193)" "(b AND 0xf0 = 0xe0) = (224 \<le> unat b \<and> unat b < 240)"
    "(b AND 0xe0 = 0x80) = (128 \<le> unat b \<and> unat b < 160)" "(b AND 0xe0 = 0xa0) = (160 \<le> unat b \<and> unat b < 192)"
    "(b AND 0xf8 = 0xf0) = (240 \<le> unat b \<and> unat b < 248)" "(b AND 0xf0 = 0x80) = (128 \<le> unat b \<and> unat b < 144)"
    "b = 0xe0 \<longleftrightarrow> unat b = 224" "b = 0xed \<longleftrightarrow> unat b = 237" "b = 0xf0 \<longleftrightarrow> unat b = 240" "b = 0xf4 \<longleftrightarrow> unat b = 244"
    using t by (simp_all add: hibit_def is_cont_def cont_def eq word_less_nat_alt unsigned_and_eq)
  show "b > 0x8f \<longleftrightarrow> unat b \<ge> 144" "b > 0xf4 \<longleftrightarrow> unat b \<ge> 245"
    by (simp add: word_less_nat_alt, linarith)+
qed

section \<open>The function checks the ranges\<close>

lemma utf8_ranges_ascii: "\<forall>a\<in>set xs. a < 128 \<Longrightarrow> utf8_ranges (xs @ s) = utf8_ranges s"
  by (induction xs) auto

lemma is_valid_utf8_ranges: "is_valid_utf8 s = utf8_ranges (map unat s)"
proof (induction s rule: is_valid_utf8.induct)
  case (1 s)
  show ?case
  proof (cases "s = [] \<or> (4 \<le> length s \<and> list_all (\<lambda>b. \<not> hibit b) (take 4 s))")
    case True
    then consider "s = []" | "s \<noteq> []" "4 \<le> length s" "list_all (\<lambda>b. \<not> hibit b) (take 4 s)" by blast
    then show ?thesis
    proof cases
      case 1
      then show ?thesis by (simp add: is_valid_utf8.simps)
    next
      case 2
      have "utf8_ranges (map unat (take 4 s) @ map unat (drop 4 s)) = utf8_ranges (map unat (drop 4 s))"
        using 2(3) by (intro utf8_ranges_ascii) (auto simp: list_all_iff word_masks(1))
      then have "utf8_ranges (map unat s) = utf8_ranges (map unat (drop 4 s))"
        by (simp flip: map_append)
      then show ?thesis using "1.IH"(1) 2 by (subst is_valid_utf8.simps) simp
    qed
  next
    case False
    let ?p = "takeWhile (\<lambda>b. \<not> hibit b) s"
    have sp: "utf8_ranges (map unat s) = utf8_ranges (map unat (dropWhile (\<lambda>b. \<not> hibit b) s))"
    proof -
      have "\<forall>a\<in>set (map unat ?p). a < 128"
        using set_takeWhileD [of _ "\<lambda>b. \<not> hibit b" s] by (auto simp: word_masks(1) not_le)
      from utf8_ranges_ascii [OF this] show ?thesis by (metis map_append takeWhile_dropWhile_id)
    qed
    show ?thesis
    proof (cases "dropWhile (\<lambda>b. \<not> hibit b) s")
      case Nil
      have "is_valid_utf8 s" using False by (subst is_valid_utf8.simps) (simp only: Nil if_False list.case, auto)
      then show ?thesis using sp Nil by simp
    next
      case (Cons s0 r)
      then have s0: "128 \<le> unat s0" using hd_dropWhile [of "\<lambda>b. \<not> hibit b" s] by (simp add: word_masks(1))
      note IH = "1.IH"(2-4) [OF _ _ Cons]
      have unf: "is_valid_utf8 s =
        (if s0 AND 0x60 = 0x40 then
           (if length r < 1 \<or> \<not> is_cont (r ! 0) \<or> s0 AND 0xfe = 0xc0 then False else is_valid_utf8 (drop 1 r))
         else if s0 AND 0xf0 = 0xe0 then
           (if length r < 2 \<or> \<not> is_cont (r ! 0) \<or> \<not> is_cont (r ! 1) \<or> (s0 = 0xe0 \<and> r ! 0 AND 0xe0 = 0x80) \<or>
               (s0 = 0xed \<and> r ! 0 AND 0xe0 = 0xa0)
            then False else is_valid_utf8 (drop 2 r))
         else if s0 AND 0xf8 = 0xf0 then
           (if length r < 3 \<or> \<not> is_cont (r ! 0) \<or> \<not> is_cont (r ! 1) \<or> \<not> is_cont (r ! 2) \<or>
               (s0 = 0xf0 \<and> r ! 0 AND 0xf0 = 0x80) \<or> (s0 = 0xf4 \<and> r ! 0 > 0x8f) \<or> s0 > 0xf4
            then False else is_valid_utf8 (drop 3 r))
         else False)"
        using False by (subst is_valid_utf8.simps) (simp only: Cons if_False list.case de_Morgan_disj simp_thms)
      have "is_valid_utf8 s = utf8_ranges (map unat (s0 # r))"
      proof -
        consider "192 \<le> unat s0" "unat s0 < 224" | "224 \<le> unat s0" "unat s0 < 240" | "240 \<le> unat s0" "unat s0 < 248"
          | "unat s0 < 192 \<or> 248 \<le> unat s0" by linarith
        then show ?thesis
        proof cases
          case 1
          note c = word_masks(3) [OF s0] 1
          show ?thesis
          proof (cases "length r < 1 \<or> \<not> is_cont (r ! 0) \<or> s0 AND 0xfe = 0xc0")
            case True
            then show ?thesis using c unf by (cases r) (auto simp: word_masks(2,4))
          next
            case ok: False
            then have "is_valid_utf8 s = is_valid_utf8 (drop 1 r)" using unf c by simp
            also have "\<dots> = utf8_ranges (map unat (drop 1 r))" using IH(1) ok c False by blast
            finally show ?thesis using ok c by (cases r) (auto simp: word_masks(2,4))
          qed
        next
          case 2
          note c = word_masks(3,5) [of s0] s0 2
          show ?thesis
          proof (cases "length r < 2 \<or> \<not> is_cont (r ! 0) \<or> \<not> is_cont (r ! 1) \<or> (s0 = 0xe0 \<and> r ! 0 AND 0xe0 = 0x80) \<or>
               (s0 = 0xed \<and> r ! 0 AND 0xe0 = 0xa0)")
            case True
            then show ?thesis using c unf by (cases r; cases "tl r") (auto simp: word_masks(2,6,7,10,11) cont_def)
          next
            case ok: False
            have n: "s0 AND 0x60 \<noteq> 0x40" "s0 AND 0xf0 = 0xe0" using c by simp_all
            then have "is_valid_utf8 s = is_valid_utf8 (drop 2 r)" by (simp only: unf ok n if_False if_True simp_thms)
            also have "\<dots> = utf8_ranges (map unat (drop 2 r))" using IH(2) ok n False by blast
            finally show ?thesis using ok c by (cases r; cases "tl r") (auto simp: word_masks(2,6,7,10,11) cont_def)
          qed
        next
          case 3
          note c = word_masks(3,5,8) [of s0] s0 3
          have n: "s0 AND 0x60 \<noteq> 0x40" "s0 AND 0xf0 \<noteq> 0xe0" "s0 AND 0xf8 = 0xf0" using c by simp_all
          show ?thesis
          proof (cases "length r < 3 \<or> \<not> is_cont (r ! 0) \<or> \<not> is_cont (r ! 1) \<or> \<not> is_cont (r ! 2) \<or>
               (s0 = 0xf0 \<and> r ! 0 AND 0xf0 = 0x80) \<or> (s0 = 0xf4 \<and> r ! 0 > 0x8f) \<or> s0 > 0xf4")
            case True
            then have "\<not> is_valid_utf8 s" using unf n by simp
            then show ?thesis using True c(4-6)
              by (cases r; cases "tl r"; cases "tl (tl r)") (auto simp: word_masks(2,9,12-15) cont_def)
          next
            case ok: False
            then have "is_valid_utf8 s = is_valid_utf8 (drop 3 r)" by (simp only: unf ok n if_False if_True simp_thms)
            also have "\<dots> = utf8_ranges (map unat (drop 3 r))" using IH(3) ok n False by blast
            finally have v: "is_valid_utf8 s = utf8_ranges (map unat (drop 3 r))" .
            from ok obtain b c d t where r: "r = b # c # d # t"
              by (cases r; cases "tl r"; cases "tl (tl r)") auto
            show ?thesis using v ok c(4-6) unfolding r by (auto simp: word_masks(2,9,12-15) cont_def)
          qed
        next
          case 4
          then have "\<not> s0 AND 0x60 = 0x40" "\<not> s0 AND 0xf0 = 0xe0" "\<not> s0 AND 0xf8 = 0xf0"
            using word_masks(3,5,8) [of s0] s0 by auto
          then have "\<not> is_valid_utf8 s" unfolding unf by simp
          moreover have "\<not> utf8_ranges (map unat (s0 # r))" using 4 s0 by auto
          ultimately show ?thesis by blast
        qed
      qed
      then show ?thesis using sp Cons by simp
    qed
  qed
qed

section \<open>The ranges are the encodings of the scalar values\<close>

lemma utf8_encode_ranges: "scalar n \<Longrightarrow> utf8_ranges (utf8_encode n @ s) = utf8_ranges s"
proof -
  assume sc: "scalar n"
  have m: "128 + x mod 64 < 192" for x :: nat using mod_less_divisor [of 64 x] by linarith
  consider "n < 128" | "128 \<le> n" "n < 2048" | "2048 \<le> n" "n < 65536" | "65536 \<le> n" "n \<le> 1114111"
    using sc unfolding scalar_def by linarith
  then show ?thesis
  proof cases
    case 1
    then show ?thesis by (simp add: utf8_encode_def)
  next
    case 2
    then have "2 \<le> n div 64" "n div 64 < 32" by auto
    then show ?thesis using 2 m by (simp add: utf8_encode_def cont_def)
  next
    case 3
    have q: "n div 4096 = n div 64 div 64" "32 \<le> n div 64" "n div 64 < 1024" "n div 64 < 864 \<or> 896 \<le> n div 64"
      using 3 sc unfolding scalar_def by (auto simp flip: div_mult2_eq)
    have "q div 64 = 0 \<Longrightarrow> 32 \<le> q mod 64" "q div 64 = 13 \<Longrightarrow> q mod 64 < 32" "q div 64 < 16"
      if "32 \<le> q" "q < 1024" "q < 864 \<or> 896 \<le> q" for q :: nat
      using that mult_div_mod_eq [of 64 q] mod_less_divisor [of 64 q] by linarith+
    from this [OF q(2-4)] show ?thesis using 3 m unfolding utf8_encode_def q(1) by (simp add: cont_def)
  next
    case 4
    have q: "n div 262144 = n div 4096 div 64" "16 \<le> n div 4096" "n div 4096 \<le> 271"
      using 4 by (auto simp flip: div_mult2_eq)
    have "q div 64 = 0 \<Longrightarrow> 16 \<le> q mod 64" "q div 64 = 4 \<Longrightarrow> q mod 64 < 16" "q div 64 \<le> 4"
      if "16 \<le> q" "q \<le> 271" for q :: nat
      using that mult_div_mod_eq [of 64 q] mod_less_divisor [of 64 q] by linarith+
    from this [OF q(2-3)] show ?thesis using 4 m unfolding utf8_encode_def q(1) by (simp add: cont_def)
  qed
qed

lemma utf8_decode1: "s \<noteq> [] \<Longrightarrow> utf8_ranges s \<Longrightarrow> \<exists>n r. scalar n \<and> s = utf8_encode n @ r \<and> utf8_ranges r"
proof -
  assume s: "s \<noteq> []" "utf8_ranges s"
  then obtain a t where st: "s = a # t" by (cases s) auto
  consider "a < 128" | "194 \<le> a" "a \<le> 223" | "224 \<le> a" "a \<le> 239" | "240 \<le> a" "a \<le> 244"
    using s st by (auto split: if_splits)
  then show ?thesis
  proof cases
    case 1
    then show ?thesis using s st by (intro exI [of _ a] exI [of _ t]) (auto simp: utf8_encode_def scalar_def)
  next
    case 2
    then obtain b r where t: "t = b # r" "cont b" "utf8_ranges r" using s st by (auto split: list.splits)
    obtain a' b' where ab: "a = 192 + a'" "b = 128 + b'" "b' < 64" "2 \<le> a'" "a' < 32"
      using 2 t that [of "a - 192" "b - 128"] unfolding cont_def by linarith
    define n where "n = a' * 64 + b'"
    have "n div 64 = a'" "n mod 64 = b'" "128 \<le> n" "n < 2048" using ab unfolding n_def by simp_all
    then have "scalar n \<and> s = utf8_encode n @ r" using st t(1) ab by (simp add: utf8_encode_def scalar_def)
    then show ?thesis using t(3) by blast
  next
    case 3
    then obtain b c r where t: "t = b # c # r" "cont b" "cont c" "a = 224 \<longrightarrow> 160 \<le> b" "a = 237 \<longrightarrow> b < 160" "utf8_ranges r"
      using s st by (auto split: list.splits)
    obtain a' b' c' where ab: "a = 224 + a'" "b = 128 + b'" "c = 128 + c'" "b' < 64" "c' < 64" "a' < 16"
      "a' = 0 \<longrightarrow> 32 \<le> b'" "a' = 13 \<longrightarrow> b' < 32"
      using 3 t that [of "a - 224" "b - 128" "c - 128"] unfolding cont_def by linarith
    define m where "m = a' * 64 + b'"
    define n where "n = m * 64 + c'"
    have d: "m div 64 = a'" "m mod 64 = b'" "n div 64 = m" "n mod 64 = c'" using ab(4-6) by (simp add: m_def, simp add: m_def, simp add: n_def, simp add: n_def)
    have "n div 4096 = a'" using d div_mult2_eq [of n 64 64] by simp
    moreover have "32 \<le> m" "m < 1024" "m < 864 \<or> 896 \<le> m" using ab unfolding m_def by (cases "a' = 0"; cases "a' = 13"; linarith)+
    then have "2048 \<le> n" "n < 65536" "n < 55296 \<or> 57344 \<le> n" using ab unfolding n_def by linarith+
    ultimately have "scalar n \<and> s = utf8_encode n @ r" using st t(1) ab(1-3) d by (simp add: utf8_encode_def scalar_def)
    then show ?thesis using t(6) by blast
  next
    case 4
    then obtain b c d r where t: "t = b # c # d # r" "cont b" "cont c" "cont d" "a = 240 \<longrightarrow> 144 \<le> b" "a = 244 \<longrightarrow> b < 144" "utf8_ranges r"
      using s st by (auto split: list.splits)
    obtain a' b' c' d' where ab: "a = 240 + a'" "b = 128 + b'" "c = 128 + c'" "d = 128 + d'" "b' < 64" "c' < 64" "d' < 64" "a' < 5"
      "a' = 0 \<longrightarrow> 16 \<le> b'" "a' = 4 \<longrightarrow> b' < 16"
      using 4 t that [of "a - 240" "b - 128" "c - 128" "d - 128"] unfolding cont_def by linarith
    define l where "l = a' * 64 + b'"
    define m where "m = l * 64 + c'"
    define n where "n = m * 64 + d'"
    have d: "l div 64 = a'" "l mod 64 = b'" "m div 64 = l" "m mod 64 = c'" "n div 64 = m" "n mod 64 = d'"
      using ab(5-7)
      by (simp add: l_def, simp add: l_def, simp add: m_def, simp add: m_def, simp add: n_def, simp add: n_def)
    have e: "n div 4096 = l" "n div 262144 = a'" using d div_mult2_eq [of n 64 64] div_mult2_eq [of n 64 4096] div_mult2_eq [of m 64 64] by simp_all
    have "16 \<le> l" "l \<le> 271" using ab unfolding l_def by (cases "a' = 0"; cases "a' = 4"; linarith)+
    then have "1024 \<le> m" "m \<le> 17407" using ab(6) unfolding m_def by linarith+
    then have "65536 \<le> n" "n \<le> 1114111" using ab(7) unfolding n_def by linarith+
    then have "scalar n \<and> s = utf8_encode n @ r" using st t(1) ab(1-4) d e by (simp add: utf8_encode_def scalar_def)
    then show ?thesis using t(7) by blast
  qed
qed

lemma utf8_encode_nonempty [simp]: "utf8_encode n \<noteq> []"
  by (simp add: utf8_encode_def)

lemma utf8_ranges_iff: "utf8_ranges s \<longleftrightarrow> (\<exists>cps. list_all scalar cps \<and> s = concat (map utf8_encode cps))"
proof
  show "utf8_ranges s \<Longrightarrow> \<exists>cps. list_all scalar cps \<and> s = concat (map utf8_encode cps)"
  proof (induction s rule: length_induct)
    case (1 s)
    show ?case
    proof (cases "s = []")
      case True
      then show ?thesis by (intro exI [of _ "[]"]) simp
    next
      case False
      then obtain n r where n: "scalar n" "s = utf8_encode n @ r" "utf8_ranges r" using utf8_decode1 "1.prems" by blast
      then have "length r < length s" by simp
      then obtain cps where "list_all scalar cps" "r = concat (map utf8_encode cps)" using "1.IH" n(3) by blast
      then show ?thesis using n by (intro exI [of _ "n # cps"]) simp
    qed
  qed
  have "list_all scalar cps \<Longrightarrow> utf8_ranges (concat (map utf8_encode cps))" for cps
    by (induction cps) (auto simp: utf8_encode_ranges)
  then show "\<exists>cps. list_all scalar cps \<and> s = concat (map utf8_encode cps) \<Longrightarrow> utf8_ranges s" by blast
qed

text \<open>C15: \<open>is_valid_utf8\<close> accepts exactly the byte strings that are the concatenation of the shortest encodings of Unicode scalar
  values: no overlong form, no surrogate, nothing above U+10FFFF, no stray or missing continuation byte.\<close>

theorem is_valid_utf8_exact:
  "is_valid_utf8 bs \<longleftrightarrow> (\<exists>cps. list_all scalar cps \<and> map unat bs = concat (map utf8_encode cps))"
  unfolding is_valid_utf8_ranges utf8_ranges_iff ..

end
