(* ===== verification/HttpBuffer.thy ===== *)
theory HttpBuffer
  imports StrUtils
begin

text \<open>
  \<open>rojcpp::Buffer\<close> of \<open>include/tools/buffers.h\<close> and the operations of its clients that fill it: \<open>response::append_buff\<close>
  (\<open>src/http_responese.cpp\<close>) and \<open>request::feed_read_datas\<close> (\<open>src/http_request.cpp\<close>). The memory is the list of its cells,
  \<open>None\<close> in a cell that was never written; a null pointer is no list. The memory resource grants blocks of up to \<open>lim\<close>
  bytes, and never more than \<open>2^62\<close>, which no address space has; otherwise it throws. Sizes are \<open>std::size_t\<close>.
\<close>

section \<open>Buffer\<close>

record hbuf =
  m_tot_mem :: nat
  used_mem :: nat
  m_raw_mem :: "char option list option"

definition Buffer_new :: hbuf where
  "Buffer_new = \<lparr>m_tot_mem = 0, used_mem = 0, m_raw_mem = None\<rparr>"

definition allocate :: "nat \<Rightarrow> nat \<Rightarrow> char option list res" where
  "allocate lim n = (if n \<le> min lim (2 ^ 62) then Val (replicate n None) else Throw ''bad_alloc'')"

definition expand_size :: "nat \<Rightarrow> nat \<Rightarrow> hbuf \<Rightarrow> hbuf res" where
  "expand_size lim siz b =
     rbind (allocate lim ((m_tot_mem b + siz) mod 2 ^ 64)) (\<lambda>tmp_mem.
       case m_raw_mem b of
         None \<Rightarrow> Val (b\<lparr>m_tot_mem := siz, m_raw_mem := Some tmp_mem\<rparr>)
       | Some raw \<Rightarrow>
           if m_tot_mem b \<le> length tmp_mem \<and> m_tot_mem b \<le> length raw then
             Val (b\<lparr>m_tot_mem := (m_tot_mem b + siz) mod 2 ^ 64,
                    m_raw_mem := Some (take (m_tot_mem b) raw @ drop (m_tot_mem b) tmp_mem)\<rparr>)
           else UB)"

definition expand_twice_size :: "nat \<Rightarrow> hbuf \<Rightarrow> hbuf res" where
  "expand_twice_size lim b = expand_size lim (if m_tot_mem b = 0 then 1 else m_tot_mem b * 2 mod 2 ^ 64) b"

definition Buffer_empty :: "hbuf \<Rightarrow> bool" where
  "Buffer_empty b \<longleftrightarrow> m_raw_mem b = None \<or> m_tot_mem b = 0"

definition left_size :: "hbuf \<Rightarrow> nat" where
  "left_size b = (if usub (m_tot_mem b) (used_mem b) > 0 then usub (m_tot_mem b) (used_mem b) else 0)"

definition used_size :: "hbuf \<Rightarrow> nat" where "used_size b = used_mem b"

definition tot_size :: "hbuf \<Rightarrow> nat" where "tot_size b = m_tot_mem b"

definition update_used_sized :: "nat \<Rightarrow> hbuf \<Rightarrow> hbuf" where
  "update_used_sized siz b = b\<lparr>used_mem := (used_mem b + siz) mod 2 ^ 64\<rparr>"

definition Buffer_clear :: "hbuf \<Rightarrow> hbuf" where
  "Buffer_clear b = b\<lparr>used_mem := 0\<rparr>"

text \<open>\<open>memcpy(write_data(), src, n)\<close>, or a read into the memory from \<open>write_data()\<close> on.\<close>

definition write_data :: "string \<Rightarrow> hbuf \<Rightarrow> hbuf res" where
  "write_data src b =
     (case m_raw_mem b of
        None \<Rightarrow> if src = [] then Val b else UB
      | Some raw \<Rightarrow>
          if used_mem b + length src \<le> length raw then
            Val (b\<lparr>m_raw_mem := Some (take (used_mem b) raw @ map Some src @ drop (used_mem b + length src) raw)\<rparr>)
          else UB)"

text \<open>Reading \<open>n\<close> bytes from offset \<open>i\<close> of the memory.\<close>

definition read_data :: "nat \<Rightarrow> nat \<Rightarrow> hbuf \<Rightarrow> string res" where
  "read_data i n b =
     (case m_raw_mem b of
        None \<Rightarrow> if n = 0 then Val [] else UB
      | Some raw \<Rightarrow>
          if i + n \<le> length raw \<and> list_all (\<lambda>c. c \<noteq> None) (take n (drop i raw)) then Val (map the (take n (drop i raw))) else UB)"

section \<open>Clients\<close>

lemma expand_twice_grows:
  assumes "expand_twice_size lim b = Val b'"
  shows "m_raw_mem b' \<noteq> None \<and>
    (m_raw_mem b \<noteq> None \<longrightarrow> m_tot_mem b < m_tot_mem b' \<and> m_tot_mem b' \<le> 2 ^ 62 \<or> 2 ^ 62 < m_tot_mem b \<and> m_tot_mem b' \<le> 2 ^ 62)"
proof (cases "m_raw_mem b")
  case None
  then show ?thesis using assms by (auto simp: expand_twice_size_def expand_size_def rbind_eq_Val)
next
  case (Some raw)
  let ?s = "if m_tot_mem b = 0 then 1 else m_tot_mem b * 2 mod 2 ^ 64"
  have a: "m_tot_mem b' = (m_tot_mem b + ?s) mod 2 ^ 64" "m_tot_mem b' \<le> 2 ^ 62" "m_tot_mem b \<le> m_tot_mem b'" "m_raw_mem b' \<noteq> None"
  proof -
    define new where "new = (m_tot_mem b + ?s) mod 2 ^ 64"
    have "rbind (allocate lim new) (\<lambda>tmp_mem.
        if m_tot_mem b \<le> length tmp_mem \<and> m_tot_mem b \<le> length raw
        then Val (b\<lparr>m_tot_mem := new, m_raw_mem := Some (take (m_tot_mem b) raw @ drop (m_tot_mem b) tmp_mem)\<rparr>) else UB) = Val b'"
      using assms Some by (simp only: expand_twice_size_def expand_size_def new_def option.case)
    then show "m_tot_mem b' = (m_tot_mem b + ?s) mod 2 ^ 64" "m_tot_mem b' \<le> 2 ^ 62" "m_tot_mem b \<le> m_tot_mem b'" "m_raw_mem b' \<noteq> None"
      unfolding new_def [symmetric] by (auto simp: rbind_eq_Val allocate_def split: if_splits)
  qed
  have "m_tot_mem b \<le> 2 ^ 62" using a(2,3) by (rule order_trans [rotated])
  then have "?s = (if m_tot_mem b = 0 then 1 else m_tot_mem b * 2)" by auto
  moreover from this have "m_tot_mem b' = m_tot_mem b + ?s"
    unfolding a(1) using \<open>m_tot_mem b \<le> 2 ^ 62\<close> by (intro mod_less) auto
  ultimately have "m_tot_mem b < m_tot_mem b'" by auto
  then show ?thesis using a(2,4) by blast
qed

text \<open>\<open>while (m_buff.left_size() < n) m_buff.expand_twice_size();\<close>\<close>

function expand_until :: "nat \<Rightarrow> nat \<Rightarrow> hbuf \<Rightarrow> hbuf res" where
  "expand_until lim n b =
     (if left_size b < n then rbind (expand_twice_size lim b) (\<lambda>b. expand_until lim n b) else Val b)"
  by pat_completeness auto

termination
proof (relation "measure (\<lambda>(lim, n, b). if m_raw_mem b = None then 2 ^ 62 + 2 else if m_tot_mem b \<le> 2 ^ 62 then 2 ^ 62 - m_tot_mem b else 2 ^ 62 + 1)", goal_cases)
  case (2 lim n b b')
  then show ?case using expand_twice_grows [of lim b b'] by auto
qed simp

declare expand_until.simps [simp del]

definition append_buff :: "nat \<Rightarrow> string \<Rightarrow> hbuf \<Rightarrow> hbuf res" where
  "append_buff lim buff b =
     rbind (if Buffer_empty b then expand_size lim (32 * 1024) b else Val b) (\<lambda>b.
     rbind (expand_until lim (length buff) b) (\<lambda>b.
     rbind (write_data buff b) (\<lambda>b.
       Val (update_used_sized (length buff) b))))"

definition feed_read_datas :: "nat \<Rightarrow> string \<Rightarrow> hbuf \<Rightarrow> hbuf res" where
  "feed_read_datas lim src b =
     rbind (if left_size b < length src
            then let new_size = (tot_size b + 7) mod 2 ^ 64 div 8 * 8 in expand_size lim new_size b
            else Val b) (\<lambda>b.
     rbind (write_data src b) (\<lambda>b.
       Val (update_used_sized (length src) b)))"

section \<open>The buffer is a growing byte string\<close>

definition contents :: "hbuf \<Rightarrow> string" where
  "contents b = (case m_raw_mem b of None \<Rightarrow> [] | Some raw \<Rightarrow> map the (take (used_mem b) raw))"

definition hbuf_ok :: "hbuf \<Rightarrow> bool" where
  "hbuf_ok b \<longleftrightarrow> used_mem b \<le> m_tot_mem b \<and> m_tot_mem b \<le> 2 ^ 62 \<and>
     (case m_raw_mem b of None \<Rightarrow> m_tot_mem b = 0
      | Some raw \<Rightarrow> length raw = m_tot_mem b \<and> list_all (\<lambda>c. c \<noteq> None) (take (used_mem b) raw))"

lemma hbuf_ok_new [simp]: "hbuf_ok Buffer_new"
  by (simp add: hbuf_ok_def Buffer_new_def)

lemma hbuf_ok_clear [simp]: "hbuf_ok b \<Longrightarrow> hbuf_ok (Buffer_clear b) \<and> contents (Buffer_clear b) = []"
  by (auto simp: hbuf_ok_def Buffer_clear_def contents_def split: option.splits)

lemma left_size_ok: "hbuf_ok b \<Longrightarrow> left_size b = m_tot_mem b - used_mem b"
  unfolding left_size_def hbuf_ok_def by (subst (1 2) usub_le) auto

lemma length_contents: "hbuf_ok b \<Longrightarrow> length (contents b) = used_mem b"
  by (auto simp: contents_def hbuf_ok_def split: option.splits)

lemma expand_size_ok:
  assumes "hbuf_ok b" "siz \<le> 2 ^ 63"
  shows "expand_size lim siz b =
    (if m_tot_mem b + siz \<le> min lim (2 ^ 62)
     then Val (b\<lparr>m_tot_mem := m_tot_mem b + siz,
       m_raw_mem := Some (case m_raw_mem b of None \<Rightarrow> replicate siz None | Some raw \<Rightarrow> raw @ replicate siz None)\<rparr>)
     else Throw ''bad_alloc'')"
proof -
  have m: "(m_tot_mem b + siz) mod 2 ^ 64 = m_tot_mem b + siz"
    using assms by (intro mod_less) (auto simp: hbuf_ok_def)
  show ?thesis
    using assms(1) unfolding expand_size_def m allocate_def by (auto simp: hbuf_ok_def split: option.splits)
qed

lemma expand_size_keeps:
  assumes "hbuf_ok b" "siz \<le> 2 ^ 63" "expand_size lim siz b = Val b'"
  shows "hbuf_ok b' \<and> contents b' = contents b \<and> m_tot_mem b' = m_tot_mem b + siz \<and> used_mem b' = used_mem b \<and> m_raw_mem b' \<noteq> None"
  using assms by (auto simp: expand_size_ok hbuf_ok_def contents_def split: if_splits option.splits)

lemma expand_twice_ok:
  assumes "hbuf_ok b"
  shows "expand_twice_size lim b = expand_size lim (if m_tot_mem b = 0 then 1 else 2 * m_tot_mem b) b"
proof -
  have "m_tot_mem b * 2 mod 2 ^ 64 = 2 * m_tot_mem b" using assms by (subst mod_less) (auto simp: hbuf_ok_def)
  then show ?thesis by (simp only: expand_twice_size_def)
qed

lemma expand_twice_keeps:
  assumes "hbuf_ok b" "expand_twice_size lim b = Val b'"
  shows "hbuf_ok b' \<and> contents b' = contents b \<and> m_tot_mem b' = (if m_tot_mem b = 0 then 1 else 3 * m_tot_mem b) \<and>
    used_mem b' = used_mem b \<and> m_raw_mem b' \<noteq> None"
proof -
  have "(if m_tot_mem b = 0 then 1 else 2 * m_tot_mem b) \<le> 2 ^ 63" using assms(1) by (simp add: hbuf_ok_def)
  from expand_size_keeps [OF assms(1) this assms(2) [unfolded expand_twice_ok [OF assms(1)]]] show ?thesis by simp
qed

text \<open>Growing keeps the contents; it throws only when the block asked for, less than three times what is needed, is not granted.\<close>

lemma expand_until_spec:
  assumes "hbuf_ok b" "m_raw_mem b \<noteq> None"
  shows "case expand_until lim n b of
      Val b' \<Rightarrow> hbuf_ok b' \<and> contents b' = contents b \<and> used_mem b' = used_mem b \<and> m_raw_mem b' \<noteq> None \<and> n \<le> m_tot_mem b' - used_mem b'
    | Throw e \<Rightarrow> e = ''bad_alloc'' \<and> min lim (2 ^ 62) < 3 * (used_mem b + n)
    | UB \<Rightarrow> False"
  using assms
proof (induction lim n b rule: expand_until.induct)
  case (1 lim n b)
  show ?case
  proof (cases "left_size b < n")
    case True
    then have need: "m_tot_mem b < used_mem b + n" using "1.prems"(1) left_size_ok by force
    have sz: "(if m_tot_mem b = 0 then 1 else 2 * m_tot_mem b) \<le> 2 ^ 63" using "1.prems"(1) by (simp add: hbuf_ok_def)
    show ?thesis
    proof (cases "expand_twice_size lim b")
      case (Val b')
      have k: "hbuf_ok b'" "contents b' = contents b" "used_mem b' = used_mem b" "m_raw_mem b' \<noteq> None"
        using expand_twice_keeps [OF "1.prems"(1) Val] by auto
      have "expand_until lim n b = expand_until lim n b'" using True Val by (subst expand_until.simps) simp
      with "1.IH" [OF True Val k(1,4)] show ?thesis by (simp only: k)
    next
      case (Throw e)
      then have "e = ''bad_alloc'' \<and> min lim (2 ^ 62) < 3 * (used_mem b + n)"
        using need unfolding expand_twice_ok [OF "1.prems"(1)] expand_size_ok [OF "1.prems"(1) sz] by (auto split: if_splits)
      then show ?thesis using Throw True by (subst expand_until.simps) simp
    next
      case UB
      then have False unfolding expand_twice_ok [OF "1.prems"(1)] expand_size_ok [OF "1.prems"(1) sz] by (auto split: if_splits)
      then show ?thesis ..
    qed
  next
    case False
    then show ?thesis using 1 by (subst expand_until.simps) (simp add: left_size_ok not_less)
  qed
qed

lemma write_keeps:
  assumes "hbuf_ok b" "length src \<le> m_tot_mem b - used_mem b"
  shows "\<exists>b'. write_data src b = Val b' \<and> hbuf_ok (update_used_sized (length src) b') \<and>
    contents (update_used_sized (length src) b') = contents b @ src \<and> m_tot_mem b' = m_tot_mem b"
proof -
  have m: "(used_mem b + length src) mod 2 ^ 64 = used_mem b + length src"
    using assms by (intro mod_less) (auto simp: hbuf_ok_def)
  show ?thesis
  proof (cases "m_raw_mem b")
    case None
    then show ?thesis using assms m by (auto simp: write_data_def update_used_sized_def hbuf_ok_def contents_def)
  next
    case (Some raw)
    then have "length raw = m_tot_mem b" "used_mem b \<le> m_tot_mem b" "m_tot_mem b \<le> 2 ^ 62" "list_all (\<lambda>c. c \<noteq> None) (take (used_mem b) raw)"
      using assms(1) by (auto simp: hbuf_ok_def)
    then show ?thesis using assms(2) m Some
      by (auto simp: write_data_def update_used_sized_def hbuf_ok_def contents_def list_all_iff min_def)
  qed
qed

lemma append_buff_ok:
  assumes "hbuf_ok b"
  shows "case append_buff lim buff b of
      Val b' \<Rightarrow> hbuf_ok b' \<and> contents b' = contents b @ buff
    | Throw e \<Rightarrow> e = ''bad_alloc'' \<and> min lim (2 ^ 62) < max 32768 (3 * (length (contents b) + length buff))
    | UB \<Rightarrow> False"
proof -
  let ?b = "if Buffer_empty b then expand_size lim (32 * 1024) b else Val b"
  have tot: "Buffer_empty b \<Longrightarrow> m_tot_mem b = 0" using assms by (auto simp: Buffer_empty_def hbuf_ok_def)
  show ?thesis
  proof (cases ?b)
    case (Val b1)
    then have b1: "hbuf_ok b1" "contents b1 = contents b" "used_mem b1 = used_mem b" "m_raw_mem b1 \<noteq> None"
      using assms expand_size_keeps [of b "32 * 1024" lim b1] by (auto simp: Buffer_empty_def split: if_splits)
    show ?thesis
    proof (cases "expand_until lim (length buff) b1")
      case (Val b2)
      then have b2: "hbuf_ok b2" "contents b2 = contents b" "length buff \<le> m_tot_mem b2 - used_mem b2"
        using expand_until_spec [OF b1(1,4), where lim = lim and n = "length buff"] b1 by auto
      from write_keeps [OF b2(1,3)] show ?thesis using Val \<open>?b = Val b1\<close> b2 by (auto simp: append_buff_def)
    next
      case (Throw e)
      then show ?thesis using expand_until_spec [OF b1(1,4), where lim = lim and n = "length buff"] b1 \<open>?b = Val b1\<close> length_contents [OF assms]
        by (auto simp: append_buff_def)
    next
      case UB
      then show ?thesis using expand_until_spec [OF b1(1,4), where lim = lim and n = "length buff"] by simp
    qed
  next
    case (Throw e)
    then show ?thesis using assms tot by (auto simp: append_buff_def expand_size_ok split: if_splits)
  next
    case UB
    then show ?thesis using assms by (auto simp: expand_size_ok split: if_splits)
  qed
qed

text \<open>\<open>append_buff\<close> appends the bytes to the contents and keeps the buffer well formed; it never writes outside the memory, and
  throws only when the resource refuses a block of less than three times the size needed (or the first 32 KiB).\<close>

theorem append_buff_spec:
  assumes "hbuf_ok b"
  shows "case append_buff lim buff b of
      Val b' \<Rightarrow> hbuf_ok b' \<and> contents b' = contents b @ buff
    | Throw e \<Rightarrow> e = ''bad_alloc'' \<and> min lim (2 ^ 62) < max 32768 (3 * (length (contents b) + length buff))
    | UB \<Rightarrow> False"
  by (rule append_buff_ok [OF assms])

theorem append_buff_spec_witness:
  "case append_buff 100000 ''ok'' Buffer_new of
      Val b' \<Rightarrow> hbuf_ok b' \<and> contents b' = contents Buffer_new @ ''ok''
    | Throw e \<Rightarrow> e = ''bad_alloc'' \<and> min 100000 (2 ^ 62) < max 32768 (3 * (length (contents Buffer_new) + length ''ok''))
    | UB \<Rightarrow> False"
  by (rule append_buff_spec [OF hbuf_ok_new])

text \<open>\<open>feed_read_datas\<close> makes room for the rounded-up size of the buffer, not for the bytes that arrive: on a new buffer every
  feed writes outside the memory, and on any buffer one of more than the room left plus that size does.\<close>

theorem feed_read_datas_overflow:
  assumes "hbuf_ok b" "left_size b + (m_tot_mem b + 7) div 8 * 8 < length src" "2 * m_tot_mem b + 7 \<le> min lim (2 ^ 62)"
  shows "feed_read_datas lim src b = UB"
proof -
  have m: "(m_tot_mem b + 7) mod 2 ^ 64 = m_tot_mem b + 7" using assms(3) by (intro mod_less) simp
  let ?n = "(m_tot_mem b + 7) div 8 * 8"
  have n: "?n \<le> m_tot_mem b + 7" by (rule div_times_less_eq_dividend)
  have lim: "2 * m_tot_mem b + 7 \<le> lim" "2 * m_tot_mem b + 7 \<le> 2 ^ 62" using assms(3) by simp_all
  have "(2::nat) ^ 62 \<le> 2 ^ 63" by simp
  then have sz: "?n \<le> 2 ^ 63" using lim n by linarith
  have sz2: "m_tot_mem b + ?n \<le> min lim (2 ^ 62)" by (rule min.boundedI) (use lim n in linarith)+
  have l: "left_size b < length src" using assms(2) by linarith
  obtain b1 where b1: "expand_size lim ?n b = Val b1" using expand_size_ok [OF assms(1) sz, of lim] sz2 by auto
  note k = expand_size_keeps [OF assms(1) sz b1]
  then have "m_tot_mem b1 < used_mem b1 + length src" using assms(1,2) by (simp add: left_size_ok)
  then have "write_data src b1 = UB" using k by (auto simp: write_data_def hbuf_ok_def split: option.splits)
  then show ?thesis using l b1 by (simp only: feed_read_datas_def tot_size_def Let_def m if_True rbind.simps)
qed

theorem feed_read_datas_overflow_witness:
  "feed_read_datas 100000 ''G'' Buffer_new = UB"
  using feed_read_datas_overflow [of Buffer_new "''G''" 100000] left_size_ok [of Buffer_new] by (simp add: Buffer_new_def hbuf_ok_def)

end
