(* ===== verification/HttpRequest.thy ===== *)
theory HttpRequest
  imports HttpBuffer PicoParse UrlCode
begin

text \<open>
  \<open>rojcpp::request\<close> (\<open>include/http_request.h\<close>, \<open>src/http_request.cpp\<close>): the head of a request parsed out of the buffer by
  \<open>phr_parse_request\<close>, the header lookup, the query map, the body. Views into the buffer are the strings they show; a member that
  the class leaves uninitialised is \<open>None\<close> until it is written.
\<close>

section \<open>State\<close>

datatype content_type =
  ct_string | ct_html | ct_json | ct_multipart | ct_urlencoded | ct_chunked | ct_octet_stream | ct_websocket | ct_unknown | ct_none

record request =
  m_phr_headers :: "phr_header list"
  m_method :: "string option"
  m_url :: "string option"
  m_path :: string
  m_minor_version :: nat
  m_header_len :: "nat option"
  m_body_len :: "nat option"
  m_cur_size :: nat
  m_content_type :: content_type
  m_query_map :: "string \<Rightarrow> string option"
  m_req_buff :: hbuf

definition request_new :: request where
  "request_new = \<lparr>m_phr_headers = [], m_method = None, m_url = None, m_path = [], m_minor_version = 0, m_header_len = None,
     m_body_len = None, m_cur_size = 0, m_content_type = ct_unknown, m_query_map = (\<lambda>_. None), m_req_buff = Buffer_new\<rparr>"

section \<open>Operations\<close>

text \<open>A continuation line has a null name of length 0.\<close>

definition name_matches :: "string \<Rightarrow> phr_header \<Rightarrow> bool" where
  "name_matches key h = iequal (case hd_name h of None \<Rightarrow> [] | Some nm \<Rightarrow> take (hd_name_len h) nm) key"

definition get_header_value :: "string \<Rightarrow> request \<Rightarrow> string" where
  "get_header_value key q =
     (case find (name_matches key) (m_phr_headers q) of None \<Rightarrow> [] | Some h \<Rightarrow> take (hd_value_len h) (hd_value h))"

text \<open>The loop of \<open>parse_query\<close> over the positions \<open>i\<close> of \<open>str\<close>, with \<open>pos\<close>, \<open>key\<close> and the map; \<open>emplace\<close> keeps the value of a key
that is there. The length is an \<open>int\<close>.\<close>

definition emplace :: "string \<Rightarrow> string \<Rightarrow> (string \<Rightarrow> string option) \<Rightarrow> (string \<Rightarrow> string option)" where
  "emplace k v m = (if m k = None then m(k \<mapsto> v) else m)"

fun query_loop :: "string \<Rightarrow> nat list \<Rightarrow> nat \<Rightarrow> string \<Rightarrow> (string \<Rightarrow> string option) \<Rightarrow> nat \<times> string \<times> (string \<Rightarrow> string option)" where
  "query_loop str [] pos key m = (pos, key, m)"
| "query_loop str (i # is) pos key m =
     (if str ! i = CHR ''='' then query_loop str is (i + 1) (trim (take (i - pos) (drop pos str))) m
      else if str ! i = CHR ''&'' then query_loop str is (i + 1) key (emplace key (trim (take (i - pos) (drop pos str))) m)
      else query_loop str is pos key m)"

definition parse_query :: "string \<Rightarrow> (string \<Rightarrow> string option)" where
  "parse_query str =
     (let len = length str; (pos, key, m) = query_loop str [0..<len] 0 [] (\<lambda>_. None) in
      if pos = 0 then (\<lambda>_. None)
      else if len - pos > 0 then emplace key (trim (take (len - pos) (drop pos str))) m
      else emplace key [] m)"

text \<open>As a map: the first value of a key counts.\<close>

lemma fold_emplace: "fold (\<lambda>(k, v). emplace k v) kvs m = map_of kvs ++ m"
proof (induction kvs arbitrary: m)
  case (Cons kv kvs)
  obtain k v where "kv = (k, v)" by fastforce
  then show ?case using Cons [of "emplace k v m"] by (auto simp: emplace_def map_add_def fun_eq_iff split: option.splits)
qed simp

text \<open>\<open>atoll\<close>: blanks, a sign, digits; a value out of the range of \<open>long long\<close> is undefined.\<close>

definition atoll :: "string \<Rightarrow> int res" where
  "atoll s =
     (let s = dropWhile (\<lambda>c. ccode c = 32 \<or> 9 \<le> ccode c \<and> ccode c \<le> 13) s;
          neg = (s \<noteq> [] \<and> hd s = CHR ''-'');
          t = (if s \<noteq> [] \<and> hd s \<in> {CHR ''-'', CHR ''+''} then tl s else s);
          n = (if neg then - int (digits_value 0 t) else int (digits_value 0 t))
      in if - (2 ^ 63) \<le> n \<and> n < 2 ^ 63 then Val n else UB)"

text \<open>\<open>set_body_len( atoll(...) )\<close> converts to \<open>std::size_t\<close>.\<close>

definition content_length :: "request \<Rightarrow> nat res" where
  "content_length q =
     (let v = get_header_value ''content-length'' q in
      if v = [] then Val 0 else rbind (atoll v) (\<lambda>n. Val (nat (n mod 2 ^ 64))))"

definition parse_url :: "request \<Rightarrow> string \<Rightarrow> request option" where
  "parse_url q raw_url =
     (if find_if (\<lambda>c. c = CHR ''/'') raw_url 0 = npos then None
      else
        let p = find_if (\<lambda>c. c = CHR ''?'') raw_url 0 in
        if p \<noteq> npos then
          Some (q\<lparr>m_path := take p raw_url, m_query_map := parse_query (take (length raw_url - p - 1) (drop (p + 1) raw_url))\<rparr>)
        else Some (q\<lparr>m_path := raw_url\<rparr>))"

text \<open>The header array has 32 elements. After an error of the parser the pointers of the method and the URL are unspecified; the headers and
the minor version then hold what the parser had read before the error, which the model does not keep: nothing reads them before the next
parse, which overwrites them.\<close>

definition parse_header :: "bool \<Rightarrow> request \<Rightarrow> (request \<times> int) res" where
  "parse_header sse q =
     (case phr_parse_request sse (contents (m_req_buff q)) 32 0 of
        Oob \<Rightarrow> UB
      | Ret e \<Rightarrow> Val (q\<lparr>m_method := None, m_url := None\<rparr>, e)
      | Ok (r, header_len) \<Rightarrow>
          let q = q\<lparr>m_phr_headers := rq_headers r, m_method := Some (view_str (rq_method r)), m_url := Some (view_str (rq_path r)),
                    m_minor_version := rq_minor_version r\<rparr> in
          if header_len < 0 then Val (q, header_len)
          else
            let q = q\<lparr>m_header_len := Some (nat header_len)\<rparr> in
            rbind (content_length q) (\<lambda>n.
              let q = q\<lparr>m_body_len := Some n\<rparr> in
              case parse_url q (view_str (rq_path r)) of
                None \<Rightarrow> Val (q, -1)
              | Some q \<Rightarrow> Val (q, header_len)))"

definition has_body :: "request \<Rightarrow> bool res" where
  "has_body q = (case m_body_len q of None \<Rightarrow> UB | Some n \<Rightarrow> Val (n \<noteq> 0))"

definition total_len :: "request \<Rightarrow> nat res" where
  "total_len q = (case (m_header_len q, m_body_len q) of (Some h, Some n) \<Rightarrow> Val ((h + n) mod 2 ^ 64) | _ \<Rightarrow> UB)"

definition has_recived_all :: "request \<Rightarrow> bool res" where
  "has_recived_all q =
     (case (m_header_len q, m_body_len q) of (Some h, Some n) \<Rightarrow> Val (n = usub (m_cur_size q) h) | _ \<Rightarrow> UB)"

text \<open>What reading the view that \<open>body()\<close> returns gives.\<close>

definition body :: "request \<Rightarrow> string res" where
  "body q =
     (case (m_header_len q, m_body_len q) of
        (Some h, Some n) \<Rightarrow> read_data h n (m_req_buff q)
      | _ \<Rightarrow> UB)"

definition get_content_type :: "request \<Rightarrow> content_type" where
  "get_content_type q =
     (if m_content_type q \<noteq> ct_unknown then m_content_type q
      else
        let header_value = get_header_value ''content-type'' q in
        if header_value = [] then m_content_type q
        else if contains header_value ''application/x-www-form-url_encoded'' then ct_urlencoded
        else if contains header_value ''multipart/form-data'' then ct_multipart
        else if contains header_value ''application/octet-stream'' then ct_octet_stream
        else if contains header_value ''application/json'' then ct_json
        else ct_unknown)"

definition set_content_type :: "content_type \<Rightarrow> request \<Rightarrow> request" where
  "set_content_type t q = q\<lparr>m_content_type := t\<rparr>"

definition get_method :: "request \<Rightarrow> string res" where
  "get_method q = (case m_method q of None \<Rightarrow> UB | Some s \<Rightarrow> Val s)"

section \<open>Queries\<close>

fun print_query :: "(string \<times> string) list \<Rightarrow> string" where
  "print_query [] = []"
| "print_query [(k, v)] = k @ ''='' @ v"
| "print_query ((k, v) # kv # kvs) = k @ ''='' @ v @ ''&'' @ print_query (kv # kvs)"

definition query_text :: "string \<Rightarrow> bool" where
  "query_text s \<longleftrightarrow> CHR ''='' \<notin> set s \<and> CHR ''&'' \<notin> set s \<and> s \<noteq> CHR '' '' # tl s \<and> (s = [] \<or> last s \<noteq> CHR '' '')"

lemma trim_query_text: "query_text s \<Longrightarrow> length s < npos \<Longrightarrow> trim s = s"
proof -
  assume s: "query_text s" "length s < npos"
  have l: "strip_left s = s" using s(1) by (cases s) (auto simp: strip_left_def query_text_def)
  have "strip_left (rev s) = rev s"
    using s(1) by (cases s rule: rev_cases) (auto simp: strip_left_def query_text_def)
  then show ?thesis using trim_strip(3) [OF s(2)] l by (simp add: strip_right_def)
qed

text \<open>The loop over a stretch without separators, and over one that ends in a separator.\<close>

lemma query_loop_append: "query_loop str (is @ js) pos key m =
    (case query_loop str is pos key m of (pos', key', m') \<Rightarrow> query_loop str js pos' key' m')"
  by (induction "is" arbitrary: pos key m) auto

lemma query_loop_plain:
  "(\<forall>i\<in>set is. str ! i \<noteq> CHR ''='' \<and> str ! i \<noteq> CHR ''&'') \<Longrightarrow> query_loop str is pos key m = (pos, key, m)"
  by (induction "is") auto

lemma query_loop_word:
  assumes "CHR ''='' \<notin> set w" "CHR ''&'' \<notin> set w"
  shows "query_loop (pre @ w @ c # post) [length pre..<length pre + length w + 1] (length pre) key m =
    (if c = CHR ''='' then (length pre + length w + 1, trim w, m)
     else if c = CHR ''&'' then (length pre + length w + 1, key, emplace key (trim w) m)
     else (length pre, key, m))"
proof -
  have "[length pre..<length pre + length w + 1] = [length pre..<length pre + length w] @ [length pre + length w]" by (simp add: add.assoc)
  moreover have "query_loop (pre @ w @ c # post) [length pre..<length pre + length w] (length pre) key m = (length pre, key, m)"
    by (rule query_loop_plain) (use assms in \<open>auto simp: nth_append in_set_conv_nth\<close>)
  ultimately show ?thesis by (simp add: query_loop_append nth_append)
qed

lemma upt_app: "i \<le> j \<Longrightarrow> j \<le> k \<Longrightarrow> [i..<k] = [i..<j] @ [j..<k]"
  by (metis le_Suc_ex upt_add_eq_append)

lemma query_loop_tail:
  assumes "query_text w"
  shows "query_loop (pre @ w) [length pre..<length pre + length w] (length pre) key m = (length pre, key, m)"
  by (rule query_loop_plain) (use assms in \<open>auto simp: nth_append query_text_def in_set_conv_nth\<close>)

lemma query_loop_pairs:
  assumes "kvs \<noteq> []" "list_all (\<lambda>(k, v). query_text k \<and> query_text v) kvs" "length pre + length (print_query kvs) < npos"
  shows "\<exists>pos key v m'. query_loop (pre @ print_query kvs) [length pre..<length pre + length (print_query kvs)] (length pre) key0 m = (pos, key, m')
    \<and> 0 < pos \<and> pos \<le> length pre + length (print_query kvs) \<and> drop pos (pre @ print_query kvs) = v
    \<and> query_text v \<and> emplace key v m' = fold (\<lambda>(k, v). emplace k v) kvs m"
  using assms
proof (induction kvs arbitrary: pre key0 m rule: print_query.induct)
  case (2 k v)
  then have kv: "query_text k" "query_text v" "length pre + (length k + (length v + 1)) < npos" by auto
  have up: "[length pre..<length pre + length (print_query [(k, v)])] =
      [length pre..<length pre + length k + 1] @ [length pre + length k + 1..<length pre + length k + 1 + length v]"
    by (subst upt_add_eq_append [symmetric]) (auto simp: add.assoc)
  have l1: "query_loop (pre @ k @ CHR ''='' # v) [length pre..<length pre + length k + 1] (length pre) key0 m =
      (length pre + length k + 1, trim k, m)"
    using kv(1) by (subst query_loop_word) (auto simp: query_text_def)
  have l2: "query_loop (pre @ k @ CHR ''='' # v) [length pre + length k + 1..<length pre + length k + 1 + length v]
      (length pre + length k + 1) (trim k) m = (length pre + length k + 1, trim k, m)"
    using query_loop_tail [OF kv(2), of "pre @ k @ ''=''"] by simp
  have str: "pre @ print_query [(k, v)] = pre @ k @ CHR ''='' # v" by simp
  have "trim k = k" using kv by (intro trim_query_text) auto
  with l2 have "query_loop (pre @ print_query [(k, v)]) [length pre..<length pre + length (print_query [(k, v)])] (length pre) key0 m =
      (length pre + length k + 1, k, m)"
    unfolding up str query_loop_append l1 by simp
  then show ?case using kv(2)
    by (intro exI [of _ "length pre + length k + 1"] exI [of _ k] exI [of _ v] exI [of _ m]) simp
next
  case (3 k v kv kvs)
  let ?rest = "print_query (kv # kvs)"
  let ?s = "pre @ k @ CHR ''='' # v @ CHR ''&'' # ?rest"
  have kv: "query_text k" "query_text v" using 3 by auto
  have len: "length pre + (length k + (length v + (2 + length ?rest))) < npos" using "3.prems"(3) by simp
  have up: "[length pre..<length pre + length (print_query ((k, v) # kv # kvs))] =
      [length pre..<length pre + length k + 1] @ [length pre + length k + 1..<length pre + length k + 1 + length v + 1] @
      [length pre + length k + 1 + length v + 1..<length pre + length k + 1 + length v + 1 + length ?rest]"
    by (subst upt_app [symmetric], simp, simp)+ (simp add: add_ac)
  have l1: "query_loop ?s [length pre..<length pre + length k + 1] (length pre) key0 m = (length pre + length k + 1, trim k, m)"
    using kv(1) by (subst query_loop_word) (auto simp: query_text_def)
  have l2: "query_loop ?s [length pre + length k + 1..<length pre + length k + 1 + length v + 1] (length pre + length k + 1) (trim k) m =
      (length pre + length k + 1 + length v + 1, trim k, emplace (trim k) (trim v) m)"
    using query_loop_word [of v "pre @ k @ ''=''" "CHR ''&''" ?rest "trim k" m] kv(2) by (simp add: query_text_def add_ac)
  let ?pre = "pre @ k @ ''='' @ v @ ''&''"
  have "trim k = k" "trim v = v" using kv len by (auto intro!: trim_query_text)
  with "3.IH" [of ?pre k "emplace k v m"] "3.prems" len
  obtain pos key v' m' where
    "query_loop ?s [length ?pre..<length ?pre + length ?rest] (length ?pre) k (emplace k v m) = (pos, key, m')"
    "0 < pos" "pos \<le> length ?pre + length ?rest" "drop pos ?s = v'" "query_text v'"
    "emplace key v' m' = fold (\<lambda>(k, v). emplace k v) (kv # kvs) (emplace k v m)"
    by auto
  note r = this
  have str: "pre @ print_query ((k, v) # kv # kvs) = ?s" by simp
  have pos: "length ?pre = length pre + length k + 1 + length v + 1" by simp
  have "query_loop (pre @ print_query ((k, v) # kv # kvs)) [length pre..<length pre + length (print_query ((k, v) # kv # kvs))] (length pre) key0 m =
      (pos, key, m')"
    unfolding up str query_loop_append l1 prod.case l2 using r(1) unfolding pos \<open>trim k = k\<close> \<open>trim v = v\<close> .
  then show ?case using r(2-) str
    by (intro exI [of _ pos] exI [of _ key] exI [of _ v'] exI [of _ m']) simp
qed simp

lemma parse_query_print:
  assumes "kvs \<noteq> []" "list_all (\<lambda>(k, v). query_text k \<and> query_text v) kvs" "length (print_query kvs) < npos"
  shows "parse_query (print_query kvs) = fold (\<lambda>(k, v). emplace k v) kvs (\<lambda>_. None)"
proof -
  from query_loop_pairs [of kvs "[]" "[]" "\<lambda>_. None"] assms obtain pos key v m' where
    q: "query_loop (print_query kvs) [0..<length (print_query kvs)] 0 [] (\<lambda>_. None) = (pos, key, m')" "0 < pos"
       "pos \<le> length (print_query kvs)" "drop pos (print_query kvs) = v" "query_text v"
       "emplace key v m' = fold (\<lambda>(k, v). emplace k v) kvs (\<lambda>_. None)"
    by auto
  have "trim v = v" using q(4,5) assms(3) by (intro trim_query_text) auto
  then show ?thesis using q by (cases "pos < length (print_query kvs)") (auto simp: parse_query_def Let_def)
qed

section \<open>Decimal numbers\<close>

lemma atoll_decimal: "n < 2 ^ 63 \<Longrightarrow> atoll (decimal n) = Val (int n)"
proof -
  assume n: "n < 2 ^ 63"
  obtain c s where s: "decimal n = c # s" by (cases "decimal n") auto
  then obtain d :: nat where d: "d < 10" "c = char_of (48 + d)" using decimal_digits [of c n] by auto
  then have c: "ccode c = 48 + d" "c \<noteq> CHR ''-''" "c \<noteq> CHR ''+''" by (auto simp: ccode_def char_eq_ccode)
  have "dropWhile (\<lambda>c. ccode c = 32 \<or> 9 \<le> ccode c \<and> ccode c \<le> 13) (decimal n) = decimal n"
    using s c(1) by simp
  moreover have "digits_value 0 (decimal n) = n" using digits_value_decimal [of 0 n "[]"] by simp
  ultimately show ?thesis using n s c by (simp add: atoll_def Let_def)
qed

section \<open>The head of a request\<close>

definition hlookup :: "string \<Rightarrow> (string option \<times> string) list \<Rightarrow> string" where
  "hlookup key hs = (case find (\<lambda>(n, v). iequal (case n of None \<Rightarrow> [] | Some s \<Rightarrow> s) key) hs of None \<Rightarrow> [] | Some (_, v) \<Rightarrow> v)"

lemma get_header_value_hlookup: "get_header_value key q = hlookup key (map hdr_str (m_phr_headers q))"
proof -
  have nm: "name_matches key h = (case hdr_str h of (n, v) \<Rightarrow> iequal (case n of None \<Rightarrow> [] | Some s \<Rightarrow> s) key)" for h
    by (simp add: name_matches_def hdr_str_def split: option.splits)
  have "find P (map hdr_str hs) = map_option hdr_str (find (P \<circ> hdr_str) hs)" for P hs
    by (induction hs) auto
  moreover have "name_matches key = (\<lambda>(n, v). iequal (case n of None \<Rightarrow> [] | Some s \<Rightarrow> s) key) \<circ> hdr_str"
    by (intro ext) (simp add: nm)
  ultimately show ?thesis
    by (auto simp: get_header_value_def hlookup_def hdr_str_def split: option.splits)
qed

lemma find_if_0: "length v < npos \<Longrightarrow> find_if P v 0 = (if \<exists>c\<in>set v. P c then length (takeWhile (\<lambda>c. \<not> P c) v) else npos)"
proof -
  have "length (takeWhile (\<lambda>c. \<not> P c) v) < length v \<longleftrightarrow> (\<exists>c\<in>set v. P c)"
    by (induction v) auto
  then show ?thesis by (simp add: find_if_def Let_def)
qed

definition body_length :: "(string option \<times> string) list \<Rightarrow> nat \<Rightarrow> bool" where
  "body_length hs n \<longleftrightarrow> n < 2 ^ 63 \<and> (hlookup ''content-length'' hs = decimal n \<or> hlookup ''content-length'' hs = [] \<and> n = 0)"

lemma parse_header_reqblock:
  assumes "reqblock m p v hs q" "length hs \<le> 32" "length q < 2 ^ 31" "contents (m_req_buff rq) = q @ x" "length p < npos"
    "body_length hs n"
  shows "\<exists>hl. map hdr_str hl = hs \<and> parse_header sse rq =
    (let rq' = rq\<lparr>m_phr_headers := hl, m_method := Some m, m_url := Some p, m_minor_version := v, m_header_len := Some (length q),
         m_body_len := Some n\<rparr>
     in if CHR ''/'' \<in> set p then
          Val (rq'\<lparr>m_path := takeWhile (\<lambda>c. c \<noteq> CHR ''?'') p,
                 m_query_map := if CHR ''?'' \<in> set p then parse_query (tl (dropWhile (\<lambda>c. c \<noteq> CHR ''?'') p)) else m_query_map rq\<rparr>,
               int (length q))
        else Val (rq', -1))"
proof -
  from parse_request_complete [OF assms(1,2), of sse x] obtain r where
    r: "parse_request sse 32 (q @ x) = Ok (r, x)" "req_str r = (m, p, v, hs)" by auto
  then have pr: "phr_parse_request sse (q @ x) 32 0 = Ok (r, int (length q))"
    using assms(3) by (simp add: phr_parse_request_def check_complete_def to_int_id)
  have str: "view_str (rq_method r) = m" "view_str (rq_path r) = p" "rq_minor_version r = v" "map hdr_str (rq_headers r) = hs"
    using r(2) by (auto simp: req_str_def)
  define rq1 where "rq1 = rq\<lparr>m_phr_headers := rq_headers r, m_method := Some m, m_url := Some p, m_minor_version := v,
    m_header_len := Some (length q)\<rparr>"
  have "hlookup ''content-length'' hs = get_header_value ''content-length'' rq1"
    by (simp add: get_header_value_hlookup rq1_def str)
  then have cl: "content_length rq1 = Val n"
    using assms(6) atoll_decimal [of n] by (auto simp: content_length_def Let_def body_length_def)
  have url: "parse_url rq2 p = (if CHR ''/'' \<in> set p then Some (rq2\<lparr>m_path := takeWhile (\<lambda>c. c \<noteq> CHR ''?'') p,
      m_query_map := if CHR ''?'' \<in> set p then parse_query (tl (dropWhile (\<lambda>c. c \<noteq> CHR ''?'') p)) else m_query_map rq2\<rparr>) else None)" for rq2
  proof -
    let ?n = "length (takeWhile (\<lambda>c. c \<noteq> CHR ''?'') p)"
    have tk: "take ?n p = takeWhile (\<lambda>c. c \<noteq> CHR ''?'') p" by (metis append_eq_conv_conj takeWhile_dropWhile_id)
    have dr: "tl (dropWhile (\<lambda>c. c \<noteq> CHR ''?'') p) = drop (Suc ?n) p" by (simp add: dropWhile_eq_drop drop_Suc tl_drop)
    have le: "?n \<le> length p" by (rule length_takeWhile_le)
    have no: "CHR ''?'' \<notin> set p \<Longrightarrow> takeWhile (\<lambda>c. c \<noteq> CHR ''?'') p = p" by (auto simp: takeWhile_eq_all_conv)
    have f: "find_if (\<lambda>c. c = CHR ''?'') p 0 = (if CHR ''?'' \<in> set p then ?n else npos)"
      "find_if (\<lambda>c. c = CHR ''/'') p 0 = npos \<longleftrightarrow> CHR ''/'' \<notin> set p"
    proof -
      show "find_if (\<lambda>c. c = CHR ''?'') p 0 = (if CHR ''?'' \<in> set p then ?n else npos)"
        using find_if_0 [OF assms(5), of "\<lambda>c. c = CHR ''?''"] by auto
      have "length (takeWhile (\<lambda>c. c \<noteq> CHR ''/'') p) < npos" by (rule le_less_trans [OF length_takeWhile_le assms(5)])
      then show "find_if (\<lambda>c. c = CHR ''/'') p 0 = npos \<longleftrightarrow> CHR ''/'' \<notin> set p"
        using find_if_0 [OF assms(5), of "\<lambda>c. c = CHR ''/''"] by auto
    qed
    have "?n \<noteq> npos" using le assms(5) by linarith
    then show ?thesis using no by (cases "CHR ''?'' \<in> set p") (simp_all add: parse_url_def Let_def tk dr f del: takeWhile_eq_all_conv)
  qed
  have "parse_header sse rq = rbind (content_length rq1) (\<lambda>n. let q' = rq1\<lparr>m_body_len := Some n\<rparr> in
      case parse_url q' p of None \<Rightarrow> Val (q', -1) | Some q' \<Rightarrow> Val (q', int (length q)))"
    by (simp add: parse_header_def assms(4) pr str rq1_def Let_def)
  then show ?thesis unfolding cl rbind.simps url Let_def
    by (intro exI [of _ "rq_headers r"]) (simp add: str(4) rq1_def)
qed

text \<open>C16: a buffer that begins with a request of the grammar, its URL \<open>path?query\<close>, is parsed into its method, path and headers, with the
  length of the head and of the body, and the map of its query, where of several values of a key the first one counts; what follows the
  head does not matter. The keys and values of the query are texts without \<open>=\<close> and \<open>&\<close>, and without blanks at their ends; they are not decoded.\<close>

theorem parse_header_query:
  assumes "reqblock m (path @ ''?'' @ print_query kvs) v hs q" "length hs \<le> 32" "length q < 2 ^ 31"
    "contents (m_req_buff rq) = q @ x" "CHR ''/'' \<in> set path" "CHR ''?'' \<notin> set path" "body_length hs n"
    "kvs \<noteq> []" "list_all (\<lambda>(k, v). query_text k \<and> query_text v) kvs" "length path + length (print_query kvs) + 1 < npos"
  shows "\<exists>rq'. parse_header sse rq = Val (rq', int (length q)) \<and> m_method rq' = Some m \<and> m_path rq' = path \<and>
    m_query_map rq' = map_of kvs \<and> get_header_value key rq' = hlookup key hs \<and>
    m_header_len rq' = Some (length q) \<and> m_body_len rq' = Some n \<and> m_req_buff rq' = m_req_buff rq"
proof -
  let ?p = "path @ ''?'' @ print_query kvs"
  have "length ?p < npos" using assms(10) by simp
  from parse_header_reqblock [OF assms(1-4) this assms(7), of sse] obtain hl where hl: "map hdr_str hl = hs" and
    ph: "parse_header sse rq =
    (let rq' = rq\<lparr>m_phr_headers := hl, m_method := Some m, m_url := Some ?p, m_minor_version := v, m_header_len := Some (length q),
         m_body_len := Some n\<rparr>
     in if CHR ''/'' \<in> set ?p then
          Val (rq'\<lparr>m_path := takeWhile (\<lambda>c. c \<noteq> CHR ''?'') ?p,
                 m_query_map := if CHR ''?'' \<in> set ?p then parse_query (tl (dropWhile (\<lambda>c. c \<noteq> CHR ''?'') ?p)) else m_query_map rq\<rparr>,
               int (length q))
        else Val (rq', -1))" by blast
  have tw: "takeWhile (\<lambda>c. c \<noteq> CHR ''?'') ?p = path" "dropWhile (\<lambda>c. c \<noteq> CHR ''?'') ?p = CHR ''?'' # print_query kvs"
    using assms(6) by (subst takeWhile_append2 dropWhile_append2; auto)+
  have pq: "parse_query (print_query kvs) = map_of kvs"
    using assms(8-10) parse_query_print [of kvs] by (simp add: fold_emplace)
  show ?thesis unfolding ph Let_def tw using assms(5) hl pq by (simp add: get_header_value_hlookup)
qed

definition query_text_example :: string where
  "query_text_example = ''GET /a?x=1&x=2&y= HTTP/1.1'' @ [CR, LF] @ ''Host: h'' @ [CR, LF, CR, LF]"

definition query_example :: request where
  "query_example = request_new\<lparr>m_req_buff := \<lparr>m_tot_mem = 40, used_mem = 40, m_raw_mem = Some (map Some (query_text_example @ ''x''))\<rparr>\<rparr>"

lemma query_reqblock: "reqblock ''GET'' (''/a'' @ ''?'' @ print_query [(''x'', ''1''), (''x'', ''2''), (''y'', '''')]) 1
  [(Some ''Host'', ''h'')] query_text_example"
proof -
  have e: "is_eol [CR, LF]" by (simp add: is_eol_def)
  have "reqblock ''GET'' ''/a?x=1&x=2&y='' 1 [(Some ''Host'', ''h'')]
     ([] @ ''GET'' @ [SP] @ ''/a?x=1&x=2&y='' @ [SP] @ ''HTTP/1.'' @ char_of (48 + 1 :: nat) # [CR, LF] @ ''Host: h'' @ [CR, LF, CR, LF])"
    by (rule reqblock.intros)
      (simp_all add: e is_token_char_def token_char_map_def is_spaces_def is_path_char_def SP_def
        hblock_example [simplified SP_def append.simps append_Nil])
  moreover have "char_of (48 + 1 :: nat) = CHR ''1''" by (simp add: char_of_def bit_iff_odd)
  ultimately show ?thesis by (simp add: SP_def query_text_example_def)
qed

lemma query_example_contents: "contents (m_req_buff query_example) = query_text_example @ ''x''"
  by (simp add: query_example_def contents_def query_text_example_def)

lemma query_example_body: "body_length [(Some ''Host'', ''h'')] 0"
  by (simp add: body_length_def hlookup_def iequal_def)

theorem parse_header_query_witness:
  "\<exists>rq'. parse_header False query_example = Val (rq', int (length query_text_example)) \<and> m_method rq' = Some ''GET'' \<and> m_path rq' = ''/a'' \<and>
    m_query_map rq' = map_of [(''x'', ''1''), (''x'', ''2''), (''y'', '''')] \<and>
    get_header_value ''hOST'' rq' = hlookup ''hOST'' [(Some ''Host'', ''h'')] \<and>
    m_header_len rq' = Some (length query_text_example) \<and> m_body_len rq' = Some 0 \<and> m_req_buff rq' = m_req_buff query_example"
  by (rule parse_header_query [OF query_reqblock _ _ query_example_contents _ _ query_example_body])
    (simp_all add: query_text_example_def query_text_def npos_def)

lemma parse_url_keeps: "parse_url q s = Some q' \<Longrightarrow> m_header_len q' = m_header_len q \<and> m_cur_size q' = m_cur_size q"
  by (auto simp: parse_url_def Let_def split: if_splits)

text \<open>\<open>has_recived_all\<close> is false after every successful parse: the size it compares with is never written.\<close>

theorem has_recived_all_never:
  assumes "parse_header sse rq = Val (rq', n)" "0 < n" "n < 2 ^ 31" "m_cur_size rq = 0" "m_body_len rq' = Some l" "l < 2 ^ 63"
  shows "has_recived_all rq' = Val False"
proof -
  have e: "e < 0" if "phr_parse_request sse b 32 0 = Ret e" for b e
    using that fine_parse_request [of sse 32 b]
    by (auto simp: phr_parse_request_def check_complete_def pbind_eqs fine_def split: presult.splits)
  have "m_header_len rq' = Some (nat n) \<and> m_cur_size rq' = 0"
    using assms(1,2,4)
    by (auto simp: parse_header_def Let_def rbind_eq_Val split: presult.split_asm prod.split_asm if_split_asm option.split_asm dest!: e)
      (use parse_url_keeps in fastforce)+
  moreover have "usub 0 (nat n) = 2 ^ 64 - nat n" using assms(2,3) by (subst usub_wrap) auto
  ultimately show ?thesis using assms(2,3,5,6) by (auto simp: has_recived_all_def)
qed

theorem has_recived_all_never_witness:
  "\<exists>rq' n. parse_header False query_example = Val (rq', n) \<and> 0 < n \<and> has_recived_all rq' = Val False"
proof -
  have pl: "length (''/a'' @ ''?'' @ print_query [(''x'', ''1''), (''x'', ''2''), (''y'', '''')]) < npos" by (simp add: npos_def)
  have ln: "length query_text_example < 2 ^ 31" "0 < length query_text_example" by (simp_all add: query_text_example_def)
  from parse_header_reqblock [OF query_reqblock _ ln(1) query_example_contents pl query_example_body, of False] obtain rq' where
    r: "parse_header False query_example = Val (rq', int (length query_text_example))" "m_body_len rq' = Some 0"
    by (auto simp: Let_def)
  then have "has_recived_all rq' = Val False"
    using has_recived_all_never [OF r(1) _ _ _ r(2)] ln by (simp add: query_example_def request_new_def)
  then show ?thesis using r ln by auto
qed

text \<open>C17: reading the body succeeds exactly when the bytes that the client announced lie within the part of the buffer that was
  written; nothing compares the two.\<close>

theorem body_exact:
  assumes "hbuf_ok (m_req_buff rq)" "m_header_len rq = Some h" "m_body_len rq = Some n" "m_raw_mem (m_req_buff rq) = Some raw"
    "list_all (\<lambda>c. c = None) (drop (used_mem (m_req_buff rq)) raw)" "0 < n"
  shows "body rq = (if h + n \<le> length (contents (m_req_buff rq)) then Val (take n (drop h (contents (m_req_buff rq)))) else UB)"
proof -
  let ?b = "m_req_buff rq"
  have b: "used_mem ?b \<le> length raw" "list_all (\<lambda>c. c \<noteq> None) (take (used_mem ?b) raw)" "contents ?b = map the (take (used_mem ?b) raw)"
    using assms(1,4) by (auto simp: hbuf_ok_def contents_def)
  show ?thesis
  proof (cases "h + n \<le> used_mem ?b")
    case True
    have "take n (drop h raw) = take n (drop h (take (used_mem ?b) raw))" using True by (simp add: drop_take min_def)
    then have "list_all (\<lambda>c. c \<noteq> None) (take n (drop h raw))" using b(2)
      by (metis in_set_dropD in_set_takeD list_all_iff)
    then show ?thesis using True b assms by (simp add: body_def read_data_def drop_map take_map drop_take min_def)
  next
    case False
    have "\<not> list_all (\<lambda>c. c \<noteq> None) (take n (drop h raw))" if "h + n \<le> length raw"
    proof -
      have "take n (drop h raw) ! (n - 1) = raw ! (h + (n - 1))" using that assms(6) by simp
      moreover have "raw ! (h + (n - 1)) = drop (used_mem ?b) raw ! (h + (n - 1) - used_mem ?b)" using that False assms(6) b(1) by simp
      moreover have "drop (used_mem ?b) raw ! (h + (n - 1) - used_mem ?b) = None"
      proof -
        have "h + (n - 1) - used_mem ?b < length (drop (used_mem ?b) raw)" using assms(6) that False by simp
        then show ?thesis using assms(5) unfolding list_all_length by blast
      qed
      ultimately show ?thesis using that assms(6) unfolding list_all_length by (auto intro!: exI [of _ "n - 1"])
    qed
    then show ?thesis using False b assms by (auto simp: body_def read_data_def min_def)
  qed
qed

theorem body_exact_witness:
  "body (query_example\<lparr>m_header_len := Some 39, m_body_len := Some 1000\<rparr>) = UB"
  using body_exact [of "query_example\<lparr>m_header_len := Some 39, m_body_len := Some 1000\<rparr>" 39 1000 "map Some (query_text_example @ ''x'')"]
  by (simp add: query_example_def hbuf_ok_def query_text_example_def contents_def)

end
