(* ===== verification/ResponseTables.thy ===== *)
theory ResponseTables
  imports HttpRequest
begin

text \<open>
  The tables of \<open>include/tools/response_cv.hpp\<close>: status lines, standard bodies, content types, and the compile-time
  printing of a \<open>Content-Length\<close> header. A line ends in the two characters \<open>CR\<close>, \<open>LF\<close>.
\<close>

section \<open>Tables\<close>

datatype status_type =
  st_init | st_switching_protocols | st_ok | st_created | st_accepted | st_no_content | st_partial_content | st_multiple_choices |
  st_moved_permanently | st_moved_temporarily | st_not_modified | st_temporary_redirect | st_bad_request | st_unauthorized |
  st_forbidden | st_not_found | st_internal_server_error | st_not_implemented | st_bad_gateway | st_service_unavailable

fun status_value :: "status_type \<Rightarrow> nat" where
  "status_value st_init = 0"
| "status_value st_switching_protocols = 101"
| "status_value st_ok = 200"
| "status_value st_created = 201"
| "status_value st_accepted = 202"
| "status_value st_no_content = 204"
| "status_value st_partial_content = 206"
| "status_value st_multiple_choices = 300"
| "status_value st_moved_permanently = 301"
| "status_value st_moved_temporarily = 302"
| "status_value st_not_modified = 304"
| "status_value st_temporary_redirect = 307"
| "status_value st_bad_request = 400"
| "status_value st_unauthorized = 401"
| "status_value st_forbidden = 403"
| "status_value st_not_found = 404"
| "status_value st_internal_server_error = 500"
| "status_value st_not_implemented = 501"
| "status_value st_bad_gateway = 502"
| "status_value st_service_unavailable = 503"

text \<open>The status lines; there is none for \<open>init\<close>.\<close>

fun rep_line :: "status_type \<Rightarrow> string" where
  "rep_line st_init = []"
| "rep_line st_switching_protocols = ''HTTP/1.1 101 Switching Protocals'' @ [CR, LF]"
| "rep_line st_ok = ''HTTP/1.1 200 OK'' @ [CR, LF]"
| "rep_line st_created = ''HTTP/1.1 201 Created'' @ [CR, LF]"
| "rep_line st_accepted = ''HTTP/1.1 202 Accepted'' @ [CR, LF]"
| "rep_line st_no_content = ''HTTP/1.1 204 No Content'' @ [CR, LF]"
| "rep_line st_partial_content = ''HTTP/1.1 206 Partial Content'' @ [CR, LF]"
| "rep_line st_multiple_choices = ''HTTP/1.1 300 Multiple Choices'' @ [CR, LF]"
| "rep_line st_moved_permanently = ''HTTP/1.1 301 Moved Permanently'' @ [CR, LF]"
| "rep_line st_moved_temporarily = ''HTTP/1.1 302 Moved Temporarily'' @ [CR, LF]"
| "rep_line st_not_modified = ''HTTP/1.1 304 Not Modified'' @ [CR, LF]"
| "rep_line st_temporary_redirect = ''HTTP/1.1 307 Temporary Redirect'' @ [CR, LF]"
| "rep_line st_bad_request = ''HTTP/1.1 400 Bad Request'' @ [CR, LF]"
| "rep_line st_unauthorized = ''HTTP/1.1 401 Unauthorized'' @ [CR, LF]"
| "rep_line st_forbidden = ''HTTP/1.1 403 Forbidden'' @ [CR, LF]"
| "rep_line st_not_found = ''HTTP/1.1 404 Not Found'' @ [CR, LF]"
| "rep_line st_internal_server_error = ''HTTP/1.1 500 Internal Server Error'' @ [CR, LF]"
| "rep_line st_not_implemented = ''HTTP/1.1 501 Not Implemented'' @ [CR, LF]"
| "rep_line st_bad_gateway = ''HTTP/1.1 502 Bad Gateway'' @ [CR, LF]"
| "rep_line st_service_unavailable = ''HTTP/1.1 503 Service Unavailable'' @ [CR, LF]"

text \<open>The default of the switch is 501.\<close>

definition to_rep_string :: "status_type \<Rightarrow> string" where
  "to_rep_string status =
     (case status of
        st_switching_protocols \<Rightarrow> rep_line st_switching_protocols
      | st_ok \<Rightarrow> rep_line st_ok
      | st_created \<Rightarrow> rep_line st_created
      | st_accepted \<Rightarrow> rep_line st_accepted
      | st_no_content \<Rightarrow> rep_line st_no_content
      | st_partial_content \<Rightarrow> rep_line st_partial_content
      | st_multiple_choices \<Rightarrow> rep_line st_multiple_choices
      | st_moved_permanently \<Rightarrow> rep_line st_moved_permanently
      | st_moved_temporarily \<Rightarrow> rep_line st_moved_temporarily
      | st_not_modified \<Rightarrow> rep_line st_not_modified
      | st_temporary_redirect \<Rightarrow> rep_line st_temporary_redirect
      | st_bad_request \<Rightarrow> rep_line st_bad_request
      | st_unauthorized \<Rightarrow> rep_line st_unauthorized
      | st_forbidden \<Rightarrow> rep_line st_forbidden
      | st_not_found \<Rightarrow> rep_line st_not_found
      | st_internal_server_error \<Rightarrow> rep_line st_internal_server_error
      | st_not_implemented \<Rightarrow> rep_line st_not_implemented
      | st_bad_gateway \<Rightarrow> rep_line st_bad_gateway
      | st_service_unavailable \<Rightarrow> rep_line st_service_unavailable
      | _ \<Rightarrow> rep_line st_not_implemented)"

text \<open>The bodies for errors; \<open>switching_protocols\<close>, \<open>partial_content\<close> and \<open>init\<close> have none.\<close>

fun rep_body :: "status_type \<Rightarrow> string" where
  "rep_body st_ok = ''OK''"
| "rep_body st_created = ''<html><head><title>Created</title></head><body><h1>201 Created</h1></body></html>''"
| "rep_body st_accepted = ''<html><head><title>Accepted</title></head><body><h1>202 Accepted</h1></body></html>''"
| "rep_body st_no_content = ''<html><head><title>No Content</title></head><body><h1>204 Content</h1></body></html>''"
| "rep_body st_multiple_choices = ''<html><head><title>Multiple Choices</title></head><body><h1>300 Multiple Choices</h1></body></html>''"
| "rep_body st_moved_permanently = ''<html><head><title>Moved Permanently</title></head><body><h1>301 Moved Permanently</h1></body></html>''"
| "rep_body st_moved_temporarily = ''<html><head><title>Moved Temporarily</title></head><body><h1>302 Moved Temporarily</h1></body></html>''"
| "rep_body st_not_modified = ''<html><head><title>Not Modified</title></head><body><h1>304 Not Modified</h1></body></html>''"
| "rep_body st_temporary_redirect = ''<html><head><title>Temporary Redirect</title></head><body><h1>307 Temporary Redirect</h1></body></html>''"
| "rep_body st_bad_request = ''<html><head><title>Bad Request</title></head><body><h1>400 Bad Request</h1></body></html>''"
| "rep_body st_unauthorized = ''<html><head><title>Unauthorized</title></head><body><h1>401 Unauthorized</h1></body></html>''"
| "rep_body st_forbidden = ''<html><head><title>Forbidden</title></head><body><h1>403 Forbidden</h1></body></html>''"
| "rep_body st_not_found = ''<html><head><title>Not Found</title></head><body><h1>404 Not Found</h1></body></html>''"
| "rep_body st_internal_server_error = ''<html><head><title>Internal Server Error</title></head><body><h1>500 Internal Server Error</h1></body></html>''"
| "rep_body st_not_implemented = ''<html><head><title>Not Implemented</title></head><body><h1>501 Not Implemented</h1></body></html>''"
| "rep_body st_bad_gateway = ''<html><head><title>Bad Gateway</title></head><body><h1>502 Bad Gateway</h1></body></html>''"
| "rep_body st_service_unavailable = ''<html><head><title>Service Unavailable</title></head><body><h1>503 Service Unavailable</h1></body></html>''"
| "rep_body st_init = []"
| "rep_body st_switching_protocols = []"
| "rep_body st_partial_content = []"

definition status_to_string :: "status_type \<Rightarrow> string" where
  "status_to_string status =
     (case status of
        st_ok \<Rightarrow> rep_body st_ok
      | st_created \<Rightarrow> rep_body st_created
      | st_accepted \<Rightarrow> rep_body st_accepted
      | st_no_content \<Rightarrow> rep_body st_no_content
      | st_multiple_choices \<Rightarrow> rep_body st_multiple_choices
      | st_moved_permanently \<Rightarrow> rep_body st_moved_permanently
      | st_moved_temporarily \<Rightarrow> rep_body st_moved_temporarily
      | st_not_modified \<Rightarrow> rep_body st_not_modified
      | st_temporary_redirect \<Rightarrow> rep_body st_temporary_redirect
      | st_bad_request \<Rightarrow> rep_body st_bad_request
      | st_unauthorized \<Rightarrow> rep_body st_unauthorized
      | st_forbidden \<Rightarrow> rep_body st_forbidden
      | st_not_found \<Rightarrow> rep_body st_not_found
      | st_internal_server_error \<Rightarrow> rep_body st_internal_server_error
      | st_not_implemented \<Rightarrow> rep_body st_not_implemented
      | st_bad_gateway \<Rightarrow> rep_body st_bad_gateway
      | st_service_unavailable \<Rightarrow> rep_body st_service_unavailable
      | _ \<Rightarrow> rep_body st_internal_server_error)"

definition rep_html :: string where "rep_html = ''Content-Type: text/html; charset=UTF-8'' @ [CR, LF]"
definition rep_json :: string where "rep_json = ''Content-Type: application/json; charset=UTF-8'' @ [CR, LF]"
definition rep_string :: string where "rep_string = ''Content-Type: text/plain; charset=UTF-8'' @ [CR, LF]"
definition rep_multipart :: string where "rep_multipart = ''Content-Type: multipart/form-data; boundary=''"
definition rep_server :: string where "rep_server = ''Server: rojcpp'' @ [CR, LF]"
definition header_end_sv :: string where "header_end_sv = [CR, LF]"

definition to_content_type_str :: "content_type \<Rightarrow> string" where
  "to_content_type_str type =
     (case type of ct_html \<Rightarrow> rep_html | ct_json \<Rightarrow> rep_json | ct_string \<Rightarrow> rep_string | ct_multipart \<Rightarrow> rep_multipart | _ \<Rightarrow> [])"

text \<open>\<open>get_content_type_str\<close> of \<open>utils.hpp\<close>, another table of the same types.\<close>

definition get_content_type_str :: "content_type \<Rightarrow> string" where
  "get_content_type_str type =
     (case type of ct_html \<Rightarrow> ''text/html; charset=UTF-8'' | ct_json \<Rightarrow> ''application/json; charset=UTF-8''
      | ct_string \<Rightarrow> ''text/html; charset=UTF-8'' | ct_multipart \<Rightarrow> ''multipart/form-data; boundary='' | _ \<Rightarrow> [])"

section \<open>num_to_string\<close>

definition to_chars :: "nat list \<Rightarrow> string" where
  "to_chars digits = ''Content-Length: '' @ map (\<lambda>d. char_of (48 + d)) digits @ [CR, LF]"

fun explode :: "nat \<Rightarrow> nat list \<Rightarrow> string" where
  "explode rem digits = (if rem = 0 then to_chars digits else explode (rem div 10) (rem mod 10 # digits))"

declare explode.simps [simp del]

definition num_to_string :: "nat \<Rightarrow> string" where
  "num_to_string num = explode (num div 10) [num mod 10]"

lemma explode_decimal: "0 < n \<Longrightarrow> explode n ds = ''Content-Length: '' @ decimal n @ map (\<lambda>d. char_of (48 + d)) ds @ [CR, LF]"
proof (induction n ds rule: explode.induct)
  case (1 n ds)
  show ?case
  proof (cases "n < 10")
    case True
    then have "explode (n div 10) (n mod 10 # ds) = to_chars (n # ds)" by (subst explode.simps) simp
    then have "explode n ds = to_chars (n # ds)" using 1(2) by (subst explode.simps) simp
    moreover have "decimal n = [char_of (48 + n)]" using True by (subst decimal.simps) simp
    ultimately show ?thesis by (simp add: to_chars_def)
  next
    case False
    then have "decimal n = decimal (n div 10) @ [char_of (48 + n mod 10)]" by (subst decimal.simps) simp
    moreover have "explode n ds = explode (n div 10) (n mod 10 # ds)" using 1(2) by (subst explode.simps) simp
    moreover have "0 < n div 10" using False by (simp add: div_greater_zero_iff)
    ultimately show ?thesis using 1 by simp
  qed
qed

lemma num_to_string_decimal: "num_to_string n = ''Content-Length: '' @ decimal n @ [CR, LF]"
proof (cases "n < 10")
  case True
  then have "explode (n div 10) [n mod 10] = to_chars [n]" by (subst explode.simps) simp
  moreover have "decimal n = [char_of (48 + n)]" using True by (subst decimal.simps) simp
  ultimately show ?thesis by (simp add: num_to_string_def to_chars_def)
next
  case False
  then have "decimal n = decimal (n div 10) @ [char_of (48 + n mod 10)]" by (subst decimal.simps) simp
  moreover have "0 < n div 10" using False by (simp add: div_greater_zero_iff)
  ultimately show ?thesis by (simp add: num_to_string_def explode_decimal)
qed

section \<open>The status lines are status lines\<close>

lemma PARSE_INT_3_digits:
  "a < 10 \<Longrightarrow> b < 10 \<Longrightarrow> c < 10 \<Longrightarrow>
   PARSE_INT_3 (char_of (48 + a) # char_of (48 + b) # char_of (48 + c) # r) = Ok (100 * a + 10 * b + c, r)"
  by (simp add: PARSE_INT_3_def PARSE_INT_def)

lemma decimal_3:
  assumes "100 \<le> n" "n < 1000"
  shows "decimal n = [char_of (48 + n div 100), char_of (48 + n div 10 mod 10), char_of (48 + n mod 10)]"
proof -
  have "n div 10 div 10 = n div 100" by (simp flip: div_mult2_eq)
  moreover have "n div 100 < 10" "10 \<le> n div 10" using assms by (simp_all add: div_less_iff_less_mult less_eq_div_iff_mult_less_eq)
  moreover have "decimal (n div 100) = [char_of (48 + n div 100)]" using calculation by (subst decimal.simps) simp
  moreover have "decimal (n div 10) = decimal (n div 100) @ [char_of (48 + n div 10 mod 10)]"
    using calculation by (subst decimal.simps) simp
  moreover have "decimal n = decimal (n div 10) @ [char_of (48 + n mod 10)]" using assms by (subst decimal.simps) simp
  ultimately show ?thesis by simp
qed

lemma parse_response_front:
  assumes "100 \<le> n" "n < 1000" "msg \<noteq> []" "hd msg \<noteq> SP" "\<forall>c\<in>set msg. \<not> is_ctl c" "is_eol e" "v \<le> 9"
  shows "parse_response sse mx (''HTTP/1.'' @ [char_of (48 + v), SP] @ decimal n @ [SP] @ msg @ e @ p) =
    pbind (parse_headers sse mx [] p) (\<lambda>(hs, b).
      Ok (\<lparr>rs_minor_version = v, rs_status = n, rs_msg = (msg @ e @ p, length msg), rs_headers = hs\<rparr>, b))"
proof -
  let ?b4 = "[SP] @ msg @ e @ p"
  let ?b3 = "decimal n @ ?b4"
  note d3 = decimal_3 [OF assms(1,2)]
  have ver: "parse_http_version (''HTTP/1.'' @ [char_of (48 + v), SP] @ ?b3) = Ok (v, SP # ?b3)"
    using assms(7) by (subst parse_http_version_eq_Ok) auto
  have hdb3: "hd ?b3 \<noteq> SP"
  proof -
    have "byte (char_of (48 + n div 100)) = 48 + n div 100" using assms(2) by (simp add: div_less_iff_less_mult)
    then show ?thesis unfolding d3 by (auto simp: byte_eq_iff simp del: of_char_eq_iff of_char_of)
  qed
  have "skip_spaces ([SP] @ ?b3) = Ok ?b3"
    using hdb3 by (intro skip_spaces_complete) (auto simp: is_spaces_def)
  then have sp: "skip_spaces (SP # ?b3) = Ok ?b3" by simp
  have st: "PARSE_INT_3 ?b3 = Ok (n, ?b4)"
  proof -
    have "n div 100 < 10" "n div 10 mod 10 < 10" "n mod 10 < 10" using assms(2) by (simp_all add: div_less_iff_less_mult)
    moreover have "100 * (n div 100) + 10 * (n div 10 mod 10) + n mod 10 = n"
    proof -
      have "n div 10 div 10 = n div 100" by (simp flip: div_mult2_eq)
      then show ?thesis using mult_div_mod_eq [of 10 "n div 10"] mult_div_mod_eq [of 10 n] by linarith
    qed
    ultimately show ?thesis unfolding d3 append_Cons append_Nil by (subst PARSE_INT_3_digits) simp_all
  qed
  have ctl: "\<forall>c\<in>set ([SP] @ msg). \<not> is_ctl c" using assms(5) is_ws_not_ctl [of SP] by (auto simp: is_ws_def)
  have tok: "get_token_to_eol sse ?b4 = Ok ((?b4, Suc (length msg)), p)"
    using get_token_to_eol_complete [OF ctl assms(6), of sse p] by simp
  have msg: "response_msg (?b4, Suc (length msg)) = Ok (msg @ e @ p, length msg)"
    using assms(3,4) by (cases msg) (auto simp: response_msg_def)
  have len: "\<not> length ?b3 < 4" unfolding d3 by simp
  show ?thesis
    unfolding parse_response_def ver pbind.simps prod.case list.case sp st tok msg using len by simp
qed

lemma parse_response_complete:
  assumes "100 \<le> n" "n < 1000" "msg \<noteq> []" "hd msg \<noteq> SP" "\<forall>c\<in>set msg. \<not> is_ctl c" "is_eol e" "hblock True hs h" "length hs \<le> mx" "v \<le> 9"
  shows "\<exists>rs. parse_response sse mx (''HTTP/1.'' @ [char_of (48 + v), SP] @ decimal n @ [SP] @ msg @ e @ h @ r) = Ok (rs, r) \<and>
    rs_minor_version rs = v \<and> rs_status rs = n \<and> view_str (rs_msg rs) = msg \<and> map hdr_str (rs_headers rs) = hs"
proof -
  from parse_headers_complete [OF assms(7), of "[]" mx sse r] assms(8) obtain hl where
    hd: "parse_headers sse mx [] (h @ r) = Ok (hl, r)" "map hdr_str hl = hs" by auto
  show ?thesis unfolding parse_response_front [OF assms(1-6,9)] hd(1) using hd(2) by simp
qed

lemma rep_line_shape:
  assumes "status \<noteq> st_init"
  shows "\<exists>msg. rep_line status = ''HTTP/1.1 '' @ decimal (status_value status) @ [SP] @ msg @ [CR, LF] \<and>
    msg \<noteq> [] \<and> hd msg \<noteq> SP \<and> (\<forall>c\<in>set msg. \<not> is_ctl c) \<and> 100 \<le> status_value status \<and> status_value status < 1000"
proof -
  have "100 \<le> status_value status \<and> status_value status < 1000" using assms by (cases status) simp_all
  moreover from this have "decimal (status_value status) = [char_of (48 + status_value status div 100),
      char_of (48 + status_value status div 10 mod 10), char_of (48 + status_value status mod 10)]" by (intro decimal_3) auto
  moreover have "\<exists>msg. rep_line status = ''HTTP/1.1 '' @ [char_of (48 + status_value status div 100),
      char_of (48 + status_value status div 10 mod 10), char_of (48 + status_value status mod 10)] @ [SP] @ msg @ [CR, LF] \<and>
      msg \<noteq> [] \<and> hd msg \<noteq> SP \<and> (\<forall>c\<in>set msg. \<not> is_ctl c)"
    using assms
    by (cases status) (auto simp: SP_def CR_def LF_def is_ctl_iff char_of_def bit_iff_odd intro: exI [of _ "drop 13 (butlast (butlast (rep_line status)))"])
  ultimately show ?thesis by simp
qed

end
