(* ===== verification/Cookie.thy ===== *)
theory Cookie
  imports HttpRequest
begin

text \<open>
  \<open>rojcpp::cookie\<close> (\<open>include/tools/cookie.h\<close>) and the printing of times of \<open>get_gmt_time_str\<close> (\<open>include/tools/utils.hpp\<close>), with what
  \<open>gmtime\<close> and \<open>strftime\<close> of the C library do. A time outside the years 1000 to 9999 is not modelled (\<open>None\<close>).
\<close>

section \<open>Times\<close>

definition leap_year :: "int \<Rightarrow> bool" where
  "leap_year y \<longleftrightarrow> y mod 4 = 0 \<and> (y mod 100 \<noteq> 0 \<or> y mod 400 = 0)"

definition year_days :: "int \<Rightarrow> int" where "year_days y = (if leap_year y then 366 else 365)"

text \<open>The year and the day of the year, from a year and a number of days after its beginning.\<close>

function civil_year :: "int \<Rightarrow> int \<Rightarrow> int \<times> int" where
  "civil_year y d =
     (if d < 0 then civil_year (y - 1) (d + year_days (y - 1))
      else if d < year_days y then (y, d)
      else civil_year (y + 1) (d - year_days y))"
  by pat_completeness auto
termination
  by (relation "measure (\<lambda>(y, d). nat (if d < 0 then 1000 - d else d))") (auto simp: year_days_def split: if_splits)

declare civil_year.simps [simp del]

fun civil_month :: "int list \<Rightarrow> nat \<Rightarrow> int \<Rightarrow> nat \<times> int" where
  "civil_month [] m d = (m, d)"
| "civil_month (l # ls) m d = (if d < l then (m, d) else civil_month ls (Suc m) (d - l))"

definition month_days :: "int \<Rightarrow> int list" where
  "month_days y = [31, if leap_year y then 29 else 28, 31, 30, 31, 30, 31, 31, 30, 31, 30, 31]"

definition day_names :: "string list" where
  "day_names = [''Sun'', ''Mon'', ''Tue'', ''Wed'', ''Thu'', ''Fri'', ''Sat'']"

definition month_names :: "string list" where
  "month_names = [''Jan'', ''Feb'', ''Mar'', ''Apr'', ''May'', ''Jun'', ''Jul'', ''Aug'', ''Sep'', ''Oct'', ''Nov'', ''Dec'']"

definition two_digits :: "int \<Rightarrow> string" where
  "two_digits n = [char_of (nat (48 + n div 10 mod 10)), char_of (nat (48 + n mod 10))]"

definition get_gmt_time_str :: "int \<Rightarrow> string option" where
  "get_gmt_time_str t =
     (let days = t div 86400; s = t mod 86400; (y, yd) = civil_year 1970 days; (m, d) = civil_month (month_days y) 0 yd in
      if 1000 \<le> y \<and> y \<le> 9999 then
        Some (day_names ! nat ((days + 4) mod 7) @ '', '' @ two_digits (d + 1) @ '' '' @ month_names ! m @ '' '' @ decimal (nat y) @ '' '' @
          two_digits (s div 3600) @ '':'' @ two_digits (s div 60 mod 60) @ '':'' @ two_digits (s mod 60) @ '' GMT'')
      else None)"

section \<open>Cookies\<close>

record cookie =
  ck_version :: int
  ck_name :: string
  ck_value :: string
  ck_comment :: string
  ck_domain :: string
  ck_path :: string
  ck_priority :: string
  ck_secure :: bool
  ck_max_age :: int
  ck_http_only :: bool

definition cookie_new :: "string \<Rightarrow> string \<Rightarrow> cookie" where
  "cookie_new name value =
     \<lparr>ck_version = 0, ck_name = name, ck_value = value, ck_comment = [], ck_domain = [], ck_path = [], ck_priority = [], ck_secure = False,
      ck_max_age = -1, ck_http_only = False\<rparr>"

definition set_version :: "int \<Rightarrow> cookie \<Rightarrow> cookie" where "set_version v c = c\<lparr>ck_version := v\<rparr>"
definition set_comment :: "string \<Rightarrow> cookie \<Rightarrow> cookie" where "set_comment v c = c\<lparr>ck_comment := v\<rparr>"
definition set_domain :: "string \<Rightarrow> cookie \<Rightarrow> cookie" where "set_domain v c = c\<lparr>ck_domain := v\<rparr>"
definition set_path :: "string \<Rightarrow> cookie \<Rightarrow> cookie" where "set_path v c = c\<lparr>ck_path := v\<rparr>"
definition set_priority :: "string \<Rightarrow> cookie \<Rightarrow> cookie" where "set_priority v c = c\<lparr>ck_priority := v\<rparr>"
definition set_secure :: "bool \<Rightarrow> cookie \<Rightarrow> cookie" where "set_secure v c = c\<lparr>ck_secure := v\<rparr>"
definition set_max_age :: "int \<Rightarrow> cookie \<Rightarrow> cookie" where "set_max_age v c = c\<lparr>ck_max_age := v\<rparr>"
definition set_http_only :: "bool \<Rightarrow> cookie \<Rightarrow> cookie" where "set_http_only v c = c\<lparr>ck_http_only := v\<rparr>"

definition DQ :: char where "DQ = CHR 0x22"

definition cookie_to_string :: "cookie \<Rightarrow> string option" where
  "cookie_to_string c =
     (if ck_version c = 0 then
        map_option (\<lambda>expires.
          ck_name c @ ''='' @ ck_value c @
          (if ck_path c \<noteq> [] then ''; path='' @ ck_path c else []) @
          (if ck_priority c \<noteq> [] then ''; Priority='' @ ck_priority c else []) @
          expires @
          (if ck_secure c then ''; secure'' else []) @
          (if ck_http_only c then ''; HttpOnly'' else []))
          (if ck_max_age c \<noteq> -1 then map_option ((@) ''; expires='') (get_gmt_time_str (ck_max_age c)) else Some [])
      else
        Some (ck_name c @ ''='' @ [DQ] @ ck_value c @ [DQ] @
          (if ck_comment c \<noteq> [] then ''; Comment='' @ [DQ] @ ck_comment c @ [DQ] else []) @
          (if ck_path c \<noteq> [] then ''; Path='' @ [DQ] @ ck_path c @ [DQ] else []) @
          (if ck_priority c \<noteq> [] then ''; Priority='' @ [DQ] @ ck_priority c @ [DQ] else []) @
          (if ck_max_age c \<noteq> -1 then ''; Max-Age='' @ [DQ] @ int_to_string (ck_max_age c) @ [DQ] else []) @
          (if ck_secure c then ''; secure'' else []) @
          (if ck_http_only c then ''; HttpOnly'' else []) @
          ''; Version='' @ [DQ] @ ''1'' @ [DQ]))"

section \<open>The days of the calendar\<close>

text \<open>The days before a year, by the rule of the Gregorian calendar.\<close>

definition days_before :: "int \<Rightarrow> int" where
  "days_before y = 365 * y + (y - 1) div 4 - (y - 1) div 100 + (y - 1) div 400"

lemma div_step: "0 < n \<Longrightarrow> y div n = (y - 1) div n + (if y mod n = 0 then 1 else 0)" for y n :: int
proof -
  assume n: "0 < n"
  have y: "y = n * (y div n) + y mod n" "0 \<le> y mod n" "y mod n < n" using n by simp_all
  show ?thesis
  proof (cases "y mod n = 0")
    case True
    have "(y - 1) div n = y div n - 1" by (rule int_div_pos_eq [where r = "n - 1"]) (use y True n in \<open>auto simp: algebra_simps\<close>)
    then show ?thesis using True by simp
  next
    case False
    have "(y - 1) div n = y div n" by (rule int_div_pos_eq [where r = "y mod n - 1"]) (use y False in auto)
    then show ?thesis using False by simp
  qed
qed

lemma leap_count:
  fixes a a' b b' c c' y :: int
  assumes "a = a' + (if P then 1 else 0)" "b = b' + (if Q then 1 else 0)" "c = c' + (if R then 1 else 0)" "Q \<longrightarrow> P" "R \<longrightarrow> Q"
  shows "365 * (y + 1) + a - b + c = 365 * y + a' - b' + c' + (if P \<and> (\<not> Q \<or> R) then 366 else 365)"
  unfolding assms(1-3) using assms(4,5) by (cases P; cases Q; cases R) simp_all

lemma days_before_next: "days_before (y + 1) = days_before y + year_days y"
proof -
  have "y mod 100 = 0 \<longrightarrow> y mod 4 = 0" "y mod 400 = 0 \<longrightarrow> y mod 100 = 0"
  proof -
    have "y mod m = 0" if h: "y mod n = 0" and d: "m dvd n" for m n :: int
    proof -
      have "y mod m = y mod n mod m" by (rule mod_mod_cancel [OF d, symmetric])
      then show ?thesis unfolding h by simp
    qed
    note t = this
    show "y mod 100 = 0 \<longrightarrow> y mod 4 = 0" by (rule impI, erule t) simp
    show "y mod 400 = 0 \<longrightarrow> y mod 100 = 0" by (rule impI, erule t) simp
  qed
  note d = leap_count [OF div_step [of 4 y] div_step [of 100 y] div_step [of 400 y] this]
  show ?thesis unfolding days_before_def year_days_def leap_year_def add_diff_cancel_right' by (rule d) simp_all
qed

lemma civil_year_days:
  "case civil_year y d of (y', d') \<Rightarrow> 0 \<le> d' \<and> d' < year_days y' \<and> days_before y' + d' = days_before y + d"
proof (induction y d rule: civil_year.induct)
  case (1 y d)
  consider "d < 0" | "0 \<le> d" "d < year_days y" | "0 \<le> d" "\<not> d < year_days y" by linarith
  then show ?case
  proof cases
    case 1
    with "1.IH"(1) days_before_next [of "y - 1"] show ?thesis by (subst civil_year.simps) auto
  next
    case 2
    then show ?thesis by (subst civil_year.simps) simp
  next
    case 3
    with "1.IH"(2) days_before_next [of y] show ?thesis by (subst civil_year.simps) auto
  qed
qed

section \<open>Reading a cookie back\<close>

lemma split_spec_app: "c \<in> D \<Longrightarrow> split_spec D (s @ c # t) = split_spec D s @ split_spec D t"
  by (induction s) (auto simp: hd_append)

lemma split_spec_pieces: "it \<in> set (split_spec D s) \<Longrightarrow> set it \<subseteq> set s"
proof (induction s arbitrary: it)
  case (Cons c s)
  obtain p ps where p: "split_spec D s = p # ps" by (cases "split_spec D s") auto
  have IH: "set q \<subseteq> set s" if "q \<in> set (p # ps)" for q using Cons.IH p that by simp
  show ?case
  proof (cases "it = c # p \<or> it = []")
    case True
    then show ?thesis using IH [of p] by auto
  next
    case False
    then have "it \<in> set (p # ps)" using Cons.prems p by (auto split: if_splits)
    from IH [OF this] show ?thesis by auto
  qed
qed simp

definition no_key :: "string \<Rightarrow> string \<Rightarrow> bool" where
  "no_key name s \<longleftrightarrow> list_all (\<lambda>it. length (split_spec {CHR ''=''} it) = 2 \<longrightarrow> hd (split_spec {CHR ''=''} it) \<noteq> name) (split_spec (set ''; '') s)"

lemma no_key_app: "no_key name s \<Longrightarrow> no_key name t \<Longrightarrow> no_key name (s @ ''; '' @ t)"
proof -
  have "split_spec (set ''; '') (s @ ''; '' @ t) = split_spec (set ''; '') s @ [] # split_spec (set ''; '') t"
    using split_spec_app [of "CHR '';''" "set ''; ''" s "CHR '' '' # t"] by simp
  then show "no_key name s \<Longrightarrow> no_key name t \<Longrightarrow> no_key name (s @ ''; '' @ t)" by (simp add: no_key_def)
qed

lemma no_key_plain: "CHR ''='' \<notin> set s \<Longrightarrow> no_key name s"
proof -
  assume s: "CHR ''='' \<notin> set s"
  have "split_spec {CHR ''=''} it = [it]" if "it \<in> set (split_spec (set ''; '') s)" for it
    using split_spec_pieces [OF that] s by (intro split_spec_none) auto
  then show ?thesis by (auto simp: no_key_def list_all_iff)
qed

lemma no_key_attr:
  assumes "set k \<inter> {CHR '';'', CHR '' '', CHR ''=''} = {}" "k \<noteq> name" "CHR ''='' \<notin> set v"
  shows "no_key name (k @ ''='' @ v)"
proof -
  have 1: "split_spec (set ''; '') (w @ u) = (w @ hd (split_spec (set ''; '') u)) # tl (split_spec (set ''; '') u)"
    if "set w \<inter> {CHR '';'', CHR '' ''} = {}" for w u
    using that by (induction w) auto
  obtain p ps where p: "split_spec (set ''; '') v = p # ps" by (cases "split_spec (set ''; '') v") auto
  have pe: "CHR ''='' \<notin> set it" if "it \<in> set (p # ps)" for it
    using split_spec_pieces [of it "set ''; ''" v] that assms(3) p by auto
  have "split_spec (set ''; '') (k @ ''='' @ v) = (k @ CHR ''='' # p) # ps"
    using 1 [of "k @ ''=''" v] assms(1) p by auto
  moreover have "split_spec {CHR ''=''} (k @ CHR ''='' # p) = [k, p]"
    using split_spec_append [of "{CHR ''=''}" k "CHR ''=''" p] split_spec_none [of "{CHR ''=''}" p] assms(1) pe by auto
  moreover have "split_spec {CHR ''=''} it = [it]" if "it \<in> set ps" for it
    using pe that by (intro split_spec_none) auto
  ultimately show ?thesis using assms(2) by (auto simp: no_key_def list_all_iff)
qed

lemma cookie_fold_no_key:
  assumes "list_all (\<lambda>it. length (split_spec {CHR ''=''} it) = 2 \<longrightarrow> hd (split_spec {CHR ''=''} it) \<noteq> name) its"
    "\<forall>it\<in>set its. length it < npos"
  shows "fold cookie_step its m name = m name"
  using assms
proof (induction its arbitrary: m)
  case (Cons it its)
  have "cookie_step it m name = m name"
    using Cons.prems by (cases "split_spec {CHR ''=''} it") (auto simp: cookie_step_def split_view_spec Let_def)
  with Cons show ?case by simp
qed simp

lemma split_spec_length: "it \<in> set (split_spec D s) \<Longrightarrow> length it \<le> length s"
proof (induction s arbitrary: it)
  case (Cons c s)
  obtain p ps where p: "split_spec D s = p # ps" by (cases "split_spec D s") auto
  have "length p \<le> length s" using Cons.IH p by auto
  with Cons p show ?case by (force split: if_splits)
qed simp

lemma cookie_first:
  assumes "cookie_text name" "cookie_text value" "rest = [] \<or> (\<exists>t. rest = ''; '' @ t \<and> no_key name t)"
    "length (name @ ''='' @ value @ rest) < npos"
  shows "get_cookies_map (name @ ''='' @ value @ rest) name = Some value"
proof -
  let ?D = "set ''; ''"
  have first: "split_spec ?D (name @ ''='' @ value) = [name @ CHR ''='' # value]"
    using split_spec_none [of ?D "name @ ''='' @ value"] assms(1,2) by (auto simp: cookie_text_def)
  obtain its where its: "split_spec ?D (name @ ''='' @ value @ rest) = (name @ CHR ''='' # value) # its"
    "list_all (\<lambda>it. length (split_spec {CHR ''=''} it) = 2 \<longrightarrow> hd (split_spec {CHR ''=''} it) \<noteq> name) its"
  proof (cases "rest = []")
    case True
    then show ?thesis using first that [of "[]"] by simp
  next
    case False
    then obtain t where t: "rest = ''; '' @ t" "no_key name t" using assms(3) by auto
    have "split_spec ?D (name @ ''='' @ value @ rest) = (name @ CHR ''='' # value) # [] # split_spec ?D t"
      using split_spec_app [of "CHR '';''" ?D "name @ ''='' @ value" "CHR '' '' # t"] first t by simp
    then show ?thesis using that [of "[] # split_spec ?D t"] t(2) by (simp add: no_key_def)
  qed
  have len: "\<forall>it\<in>set its. length it < npos"
  proof
    fix it assume "it \<in> set its"
    then have "it \<in> set (split_spec ?D (name @ ''='' @ value @ rest))" unfolding its(1) by simp
    from split_spec_length [OF this] assms(4) show "length it < npos" by linarith
  qed
  have "cookie_step (name @ CHR ''='' # value) (\<lambda>_. None) name = Some value"
    using assms by (subst cookie_step_piece) auto
  then show ?thesis
    unfolding get_cookies_fold split_view_spec [OF assms(4)] its(1) using cookie_fold_no_key [OF its(2) len] by simp
qed


lemma civil_month_less: "0 \<le> d \<Longrightarrow> d < sum_list ls \<Longrightarrow> fst (civil_month ls m d) < m + length ls"
proof (induction ls m d rule: civil_month.induct)
  case (2 l ls m d)
  show ?case
  proof (cases "d < l")
    case False
    with "2.IH" [OF False] "2.prems" show ?thesis by simp
  qed simp
qed simp

lemma year_days_sum: "sum_list (month_days y) = year_days y"
  by (simp add: month_days_def year_days_def)

lemma digit_not_eq: "0 \<le> d \<Longrightarrow> d < 10 \<Longrightarrow> char_of (nat (48 + d)) \<noteq> CHR ''=''" for d :: int
  by (simp add: char_eq_ccode ccode_def)

lemma two_digits_plain: "CHR ''='' \<notin> set (two_digits n)"
  using digit_not_eq [of "n div 10 mod 10"] digit_not_eq [of "n mod 10"] by (auto simp: two_digits_def)

lemma decimal_plain: "CHR ''='' \<notin> set (decimal n)"
proof
  assume "CHR ''='' \<in> set (decimal n)"
  then obtain d :: nat where "d < 10" "CHR ''='' = char_of (48 + d)" using decimal_digits by blast
  then show False by (simp add: char_eq_ccode ccode_def)
qed

lemma gmt_plain: "get_gmt_time_str t = Some s \<Longrightarrow> CHR ''='' \<notin> set s"
proof -
  assume s: "get_gmt_time_str t = Some s"
  obtain y yd where y: "civil_year 1970 (t div 86400) = (y, yd)" by fastforce
  obtain m d where m: "civil_month (month_days y) 0 yd = (m, d)" by fastforce
  have "0 \<le> yd" "yd < year_days y" using civil_year_days [of 1970 "t div 86400"] y by simp_all
  then have "m < 12" using civil_month_less [of yd "month_days y" 0] m year_days_sum [of y] by (simp add: month_days_def del: sum_list.Cons)
  then have mn: "month_names ! m \<in> set month_names" by (intro nth_mem) (simp add: month_names_def)
  have "nat ((t div 86400 + 4) mod 7) < 7" by (simp add: nat_less_iff)
  then have dn: "day_names ! nat ((t div 86400 + 4) mod 7) \<in> set day_names" by (intro nth_mem) (simp add: day_names_def)
  have pl: "\<forall>w\<in>set month_names. CHR ''='' \<notin> set w" "\<forall>w\<in>set day_names. CHR ''='' \<notin> set w"
    by (simp_all add: month_names_def day_names_def)
  show ?thesis using s mn dn pl two_digits_plain decimal_plain
    by (auto simp: get_gmt_time_str_def y m Let_def split: if_splits)
qed

text \<open>A Netscape cookie whose name and value are cookie text is read back from its printed form by \<open>get_cookies_map\<close>, whatever
  its other attributes are.\<close>

theorem cookie_roundtrip:
  assumes "ck_version c = 0" "cookie_text (ck_name c)" "cookie_text (ck_value c)" "CHR ''='' \<notin> set (ck_path c)" "CHR ''='' \<notin> set (ck_priority c)"
    "ck_name c \<notin> {''path'', ''Priority'', ''expires''}" "cookie_to_string c = Some s" "length s < npos"
  shows "get_cookies_map s (ck_name c) = Some (ck_value c)"
proof -
  let ?n = "ck_name c"
  obtain ex where ex: "ex = [] \<or> (\<exists>g. ex = ''; '' @ ''expires'' @ ''='' @ g \<and> CHR ''='' \<notin> set g)" and
    s: "s = ?n @ ''='' @ ck_value c @ (if ck_path c \<noteq> [] then ''; path='' @ ck_path c else []) @
      (if ck_priority c \<noteq> [] then ''; Priority='' @ ck_priority c else []) @ ex @
      (if ck_secure c then ''; secure'' else []) @ (if ck_http_only c then ''; HttpOnly'' else [])"
    using assms(1,7) gmt_plain by (fastforce simp: cookie_to_string_def split: if_splits)
  define ok where "ok r \<longleftrightarrow> r = [] \<or> (\<exists>t. r = ''; '' @ t \<and> no_key ?n t)" for r
  have add: "ok (''; '' @ a @ r)" if a: "no_key ?n a" and r: "ok r" for a r
  proof (cases "r = []")
    case True
    then show ?thesis using a by (auto simp: ok_def)
  next
    case False
    then obtain t where "r = ''; '' @ t" "no_key ?n t" using r by (auto simp: ok_def)
    then show ?thesis using no_key_app [OF a] by (auto simp: ok_def)
  qed
  have o1: "ok (if ck_http_only c then ''; HttpOnly'' else [])"
    using add [OF no_key_plain [of "''HttpOnly''"], of "[]"] by (simp add: ok_def)
  have o2: "ok ((if ck_secure c then ''; secure'' else []) @ (if ck_http_only c then ''; HttpOnly'' else []))" (is "ok ?r2")
    using add [OF no_key_plain [of "''secure''"] o1] o1 by (cases "ck_secure c") simp_all
  have o3: "ok (ex @ ?r2)" (is "ok ?r3")
  proof (cases "ex = []")
    case False
    then obtain g where g: "ex = ''; '' @ ''expires'' @ ''='' @ g" "CHR ''='' \<notin> set g" using ex by auto
    have "no_key ?n (''expires'' @ ''='' @ g)" using assms(6) g(2) by (intro no_key_attr) auto
    from add [OF this o2] show ?thesis using g by simp
  qed (use o2 in simp)
  have "no_key ?n (''Priority'' @ ''='' @ ck_priority c)" using assms(5,6) by (intro no_key_attr) auto
  from add [OF this o3] o3 have o4: "ok ((if ck_priority c \<noteq> [] then ''; Priority='' @ ck_priority c else []) @ ?r3)" (is "ok ?r4")
    by (cases "ck_priority c = []") simp_all
  have "no_key ?n (''path'' @ ''='' @ ck_path c)" using assms(4,6) by (intro no_key_attr) auto
  from add [OF this o4] o4 have o5: "ok ((if ck_path c \<noteq> [] then ''; path='' @ ck_path c else []) @ ?r4)" (is "ok ?r5")
    by (cases "ck_path c = []") simp_all
  have s': "s = ?n @ ''='' @ ck_value c @ ?r5" using s by simp
  show ?thesis unfolding s' using assms(2,3,8) o5 unfolding ok_def s' by (intro cookie_first) auto
qed

theorem cookie_roundtrip_witness:
  "get_cookies_map ''CSESSIONID=77; path=/; expires=Thu, 01 Jan 1970 00:01:40 GMT; HttpOnly'' ''CSESSIONID'' = Some ''77''"
proof -
  let ?c = "(cookie_new ''CSESSIONID'' ''77'')\<lparr>ck_path := ''/'', ck_max_age := 100, ck_http_only := True\<rparr>"
  have y: "civil_year 1970 0 = (1970, 0)" by (subst civil_year.simps) (simp add: year_days_def)
  have d: "decimal 1970 = ''1970''" by (simp add: decimal.simps char_of_def bit_iff_odd)
  have "get_gmt_time_str 100 = Some ''Thu, 01 Jan 1970 00:01:40 GMT''"
    by (simp add: get_gmt_time_str_def y d month_days_def day_names_def month_names_def two_digits_def Let_def char_of_def bit_iff_odd)
  then have "cookie_to_string ?c = Some ''CSESSIONID=77; path=/; expires=Thu, 01 Jan 1970 00:01:40 GMT; HttpOnly''"
    by (simp add: cookie_to_string_def cookie_new_def)
  from cookie_roundtrip [OF _ _ _ _ _ _ this] show ?thesis
    by (simp add: cookie_new_def cookie_text_def npos_def)
qed

end
