(* ===== verification/HttpResponse.thy ===== *)
theory HttpResponse
  imports ResponseTables Cookie
begin

text \<open>
  \<open>rojcpp::response\<close> (\<open>include/http_response.h\<close>, \<open>src/http_responese.cpp\<close>): the buffer of the response, filled by
  \<open>set_status_and_content\<close>, or the constant response of \<open>send_not_found\<close>.
\<close>

section \<open>State and operations\<close>

record response =
  m_headers :: "(string \<times> string) list"
  m_content :: string
  m_body_type :: content_type
  m_status :: status_type
  m_rep_str :: string
  cookie_sh_ptr :: "cookie option"
  m_res_buff :: hbuf
  m_const_respone :: string

definition response_new :: response where
  "response_new = \<lparr>m_headers = [], m_content = [], m_body_type = ct_unknown, m_status = st_init, m_rep_str = [], cookie_sh_ptr = None,
     m_res_buff = Buffer_new, m_const_respone = []\<rparr>"

definition add_header :: "string \<Rightarrow> string \<Rightarrow> response \<Rightarrow> response" where
  "add_header key value r = r\<lparr>m_headers := m_headers r @ [(key, value)]\<rparr>"

definition clear_headers :: "response \<Rightarrow> response" where "clear_headers r = r\<lparr>m_headers := []\<rparr>"

definition set_status :: "status_type \<Rightarrow> response \<Rightarrow> response" where "set_status st r = r\<lparr>m_status := st\<rparr>"

definition response_content_type :: "response \<Rightarrow> string" where
  "response_content_type r = to_content_type_str (m_body_type r)"

text \<open>\<open>__config__::session_expire\<close>, and the time of the call.\<close>

definition session_expire :: int where "session_expire = 15 * 24 * 60 * 70"

definition create_cookie :: "int \<Rightarrow> string \<Rightarrow> response \<Rightarrow> response" where
  "create_cookie now uuid r =
     (let c = set_domain ''/'' (cookie_new ''CSESSIONID'' uuid);
          c = set_max_age (if session_expire = -1 then -1 else session_expire + now) c;
          c = set_version 0 (set_path ''/'' (set_domain [] c))
      in r\<lparr>cookie_sh_ptr := Some c\<rparr>)"

definition response_reset :: "response \<Rightarrow> response" where
  "response_reset r = r\<lparr>m_headers := [], m_content := [], m_rep_str := []\<rparr>"

definition send_not_found :: "response \<Rightarrow> response" where
  "send_not_found r = r\<lparr>m_const_respone := sv_join [rep_line st_not_found, rep_server, header_end_sv]\<rparr>"

fun append_buffs :: "nat \<Rightarrow> string list \<Rightarrow> hbuf \<Rightarrow> hbuf res" where
  "append_buffs lim [] b = Val b"
| "append_buffs lim (s # ss) b = rbind (append_buff lim s b) (append_buffs lim ss)"

text \<open>A character array as a view: up to its first null character.\<close>

definition cstr_view :: "string \<Rightarrow> string" where "cstr_view s = takeWhile (\<lambda>c. c \<noteq> CHR 0x00) s"

text \<open>\<open>content\<close> is the literal without the null character that ends it, so of length \<open>N - 1\<close>.\<close>

definition set_status_and_content :: "nat \<Rightarrow> status_type \<Rightarrow> content_type \<Rightarrow> string \<Rightarrow> response \<Rightarrow> response res" where
  "set_status_and_content lim status type content r =
     rbind (append_buffs lim
         [to_rep_string status, to_content_type_str type, rep_server, num_to_string (length content), [CR, LF], cstr_view content]
         (Buffer_clear (m_res_buff r)))
       (\<lambda>b. Val (r\<lparr>m_res_buff := b\<rparr>))"

text \<open>\<open>append_buff_number\<close>: the remainders themselves are the characters, reversed.\<close>

fun number_loop :: "nat \<Rightarrow> string \<Rightarrow> string" where
  "number_loop num buf =
     (let buf = buf @ [char_of (num mod 10)] in
      if num div 10 \<noteq> 0 then number_loop (num div 10) buf else buf)"

declare number_loop.simps [simp del]

definition append_buff_number :: "nat \<Rightarrow> nat \<Rightarrow> hbuf \<Rightarrow> hbuf res" where
  "append_buff_number lim num b = append_buff lim (rev (number_loop num [])) b"

text \<open>The overload for \<open>std::string\<close>; \<open>len_str\<close> is an \<open>int\<close> that is converted back to \<open>std::size_t\<close>.\<close>

definition set_status_and_content_str :: "nat \<Rightarrow> status_type \<Rightarrow> content_type \<Rightarrow> string \<Rightarrow> response \<Rightarrow> response res" where
  "set_status_and_content_str lim status type str r =
     (let len_str = nat (to_int (length str) mod 2 ^ 64) in
      rbind (append_buffs lim [to_rep_string status, to_content_type_str type, rep_server, ''content_length: ''] (Buffer_clear (m_res_buff r))) (\<lambda>b.
      rbind (append_buff_number lim len_str b) (\<lambda>b.
      rbind (append_buff lim [CR, LF, CR, LF] b) (\<lambda>b.
      if len_str \<le> length str then
        rbind (append_buff lim (take len_str str) b) (\<lambda>b. Val (r\<lparr>m_res_buff := b\<rparr>))
      else UB))))"

text \<open>\<open>http_session::res_buff\<close>: the bytes that are sent.\<close>

definition res_buff :: "response \<Rightarrow> string" where
  "res_buff r = (if length (m_const_respone r) \<noteq> 0 then m_const_respone r else contents (m_res_buff r))"

section \<open>What is in the buffer\<close>

lemma append_buffs_spec:
  assumes "hbuf_ok b"
  shows "case append_buffs lim ss b of Val b' \<Rightarrow> hbuf_ok b' \<and> contents b' = contents b @ concat ss
    | Throw e \<Rightarrow> e = ''bad_alloc'' \<and> min lim (2 ^ 62) < max 32768 (3 * (length (contents b) + length (concat ss))) | UB \<Rightarrow> False"
  using assms
proof (induction ss arbitrary: b)
  case (Cons s ss)
  show ?case
  proof (cases "append_buff lim s b")
    case (Val b1)
    then have b1: "hbuf_ok b1" "contents b1 = contents b @ s" using append_buff_ok [OF Cons.prems, where lim = lim and buff = s] by simp_all
    from Cons.IH [OF b1(1)] Val b1(2) show ?thesis by (cases "append_buffs lim ss b1") (simp_all add: add_ac)
  next
    case (Throw e)
    then show ?thesis using append_buff_ok [OF Cons.prems, where lim = lim and buff = s] by auto
  next
    case UB
    then show ?thesis using append_buff_ok [OF Cons.prems, where lim = lim and buff = s] by simp
  qed
qed simp

lemma append_buffs_Val:
  assumes "hbuf_ok b" "contents b = []" "max 32768 (3 * length (concat ss)) \<le> min lim (2 ^ 62)"
  shows "\<exists>b'. append_buffs lim ss b = Val b' \<and> hbuf_ok b' \<and> contents b' = concat ss"
  using append_buffs_spec [OF assms(1), where lim = lim and ss = ss] assms(2,3) by (cases "append_buffs lim ss b") auto

definition response_head :: "status_type \<Rightarrow> content_type \<Rightarrow> nat \<Rightarrow> string" where
  "response_head status type n = to_rep_string status @ to_content_type_str type @ rep_server @ num_to_string n @ [CR, LF]"

definition type_header :: "content_type \<Rightarrow> (string option \<times> string) list" where
  "type_header type =
     (case type of ct_html \<Rightarrow> [(Some ''Content-Type'', ''text/html; charset=UTF-8'')]
      | ct_json \<Rightarrow> [(Some ''Content-Type'', ''application/json; charset=UTF-8'')]
      | ct_string \<Rightarrow> [(Some ''Content-Type'', ''text/plain; charset=UTF-8'')] | _ \<Rightarrow> [])"

section \<open>The header block is a header block\<close>

lemma eol: "is_eol [CR, LF]" by (simp add: is_eol_def)

lemma header_line:
  assumes "n \<noteq> []" "\<forall>c\<in>set n. is_token_char c" "v \<noteq> []" "\<forall>c\<in>set v. \<not> is_ctl c" "\<not> is_ws (hd v)" "\<not> is_ws (last v)" "hblock False hs p"
  shows "hblock first ((Some n, v) # hs) (n @ '': '' @ v @ [CR, LF] @ p)"
proof -
  have "hblock first ((Some n, v) # hs) (n @ CHR '':'' # [SP] @ v @ [] @ [CR, LF] @ p)"
    using assms by (intro hb_named eol) (auto simp: trimmed_def is_ws_def)
  then show ?thesis by (simp add: SP_def)
qed

lemma decimal_header: "\<forall>c\<in>set (decimal n). \<not> is_ctl c \<and> \<not> is_ws c"
proof
  fix c assume "c \<in> set (decimal n)"
  then obtain d :: nat where d: "d < 10" "c = char_of (48 + d)" using decimal_digits by blast
  then have "byte c = 48 + d" by simp
  then show "\<not> is_ctl c \<and> \<not> is_ws c" using d(1) by (auto simp: is_ctl_iff is_ws_def byte_eq_iff simp del: of_char_eq_iff)
qed

lemma server_block:
  assumes "hblock False hs p"
  shows "hblock first ((Some ''Server'', ''rojcpp'') # hs) (rep_server @ p)"
  using header_line [of "''Server''" "''rojcpp''" hs p first] assms
  by (simp add: rep_server_def is_token_char_def token_char_map_def is_ctl_iff is_ws_def SP_def HT_def)

lemma length_block: "hblock first [(Some ''Content-Length'', decimal n)] (num_to_string n @ [CR, LF])"
proof -
  have t: "\<forall>c\<in>set ''Content-Length''. is_token_char c" by (simp add: is_token_char_def token_char_map_def)
  have "hblock first [(Some ''Content-Length'', decimal n)] (''Content-Length'' @ '': '' @ decimal n @ [CR, LF] @ [CR, LF])"
    by (rule header_line [OF _ t]) (use decimal_header [of n] in \<open>auto intro!: hb_end eol\<close>)
  then show ?thesis by (simp add: num_to_string_decimal)
qed

lemma type_line:
  assumes "type \<noteq> ct_multipart" "to_content_type_str type \<noteq> []"
  shows "\<exists>v. to_content_type_str type = ''Content-Type'' @ '': '' @ v @ [CR, LF] \<and> v \<noteq> [] \<and> (\<forall>c\<in>set v. \<not> is_ctl c) \<and> \<not> is_ws (hd v) \<and>
    \<not> is_ws (last v) \<and> type_header type = [(Some ''Content-Type'', v)]"
  using assms
  by (cases type) (simp_all add: type_header_def to_content_type_str_def rep_html_def rep_json_def rep_string_def is_ctl_iff is_ws_def SP_def HT_def)

lemma type_block:
  assumes "type \<noteq> ct_multipart" "hblock False hs p"
  shows "hblock True (type_header type @ hs) (to_content_type_str type @ p) \<or> type_header type = [] \<and> to_content_type_str type = []"
proof -
  have t: "\<forall>c\<in>set ''Content-Type''. is_token_char c" by (simp add: is_token_char_def token_char_map_def)
  show ?thesis
  proof (cases "to_content_type_str type = []")
    case True
    then show ?thesis using assms(1) by (cases type) (simp_all add: type_header_def to_content_type_str_def rep_html_def rep_json_def rep_string_def)
  next
    case False
    then obtain v where v: "to_content_type_str type = ''Content-Type'' @ '': '' @ v @ [CR, LF]" "v \<noteq> []" "\<forall>c\<in>set v. \<not> is_ctl c"
      "\<not> is_ws (hd v)" "\<not> is_ws (last v)" "type_header type = [(Some ''Content-Type'', v)]" using type_line [OF assms(1)] by blast
    from header_line [OF _ t v(2-5) assms(2)] show ?thesis by (simp add: v(1,6))
  qed
qed

lemma head_block:
  assumes "type \<noteq> ct_multipart"
  shows "hblock True (type_header type @ [(Some ''Server'', ''rojcpp''), (Some ''Content-Length'', decimal n)])
    (to_content_type_str type @ rep_server @ num_to_string n @ [CR, LF])"
  using type_block [OF assms server_block [OF length_block [of False n]]] server_block [OF length_block [of False n], of True] by auto

definition sent_status :: "status_type \<Rightarrow> nat" where
  "sent_status status = (if status = st_init then 501 else status_value status)"

lemma to_rep_string_line:
  obtains st where "to_rep_string status = rep_line st" "st \<noteq> st_init" "sent_status status = status_value st"
proof -
  have "to_rep_string status = rep_line (if status = st_init then st_not_implemented else status)"
    by (cases status) (simp_all add: to_rep_string_def)
  then show ?thesis
    using that [of "if status = st_init then st_not_implemented else status"] by (simp add: sent_status_def split: if_splits)
qed

lemma response_head_parses:
  assumes "type \<noteq> ct_multipart" "3 \<le> mx"
  shows "\<exists>rs. parse_response sse mx (response_head status type n @ r) = Ok (rs, r) \<and> rs_status rs = sent_status status \<and>
    map hdr_str (rs_headers rs) = type_header type @ [(Some ''Server'', ''rojcpp''), (Some ''Content-Length'', decimal n)]"
proof -
  obtain st where st: "to_rep_string status = rep_line st" "st \<noteq> st_init" "sent_status status = status_value st"
    by (rule to_rep_string_line)
  obtain msg where m: "rep_line st = ''HTTP/1.1 '' @ decimal (status_value st) @ [SP] @ msg @ [CR, LF]"
    "msg \<noteq> []" "hd msg \<noteq> SP" "\<forall>c\<in>set msg. \<not> is_ctl c" "100 \<le> status_value st" "status_value st < 1000"
    using rep_line_shape [OF st(2)] by blast
  have "length (type_header type @ [(Some ''Server'', ''rojcpp''), (Some ''Content-Length'', decimal n)]) \<le> mx"
    using assms(2) by (cases type) (simp_all add: type_header_def)
  from parse_response_complete [OF m(5,6,2,3,4) eol head_block [OF assms(1), of n] this, of 1 sse r]
  have "\<exists>rs. parse_response sse mx (''HTTP/1.'' @ [char_of (48 + 1 :: nat), SP] @ decimal (status_value st) @ [SP] @ msg @ [CR, LF] @
      (to_content_type_str type @ rep_server @ num_to_string n @ [CR, LF]) @ r) = Ok (rs, r) \<and> rs_status rs = status_value st \<and>
    map hdr_str (rs_headers rs) = type_header type @ [(Some ''Server'', ''rojcpp''), (Some ''Content-Length'', decimal n)]" by auto
  moreover have "''HTTP/1.'' @ [char_of (48 + 1 :: nat), SP] = ''HTTP/1.1 ''" by (simp add: SP_def char_of_def bit_iff_odd)
  ultimately show ?thesis by (simp add: response_head_def st m(1))
qed

lemma set_status_and_content_Val:
  assumes "hbuf_ok (m_res_buff r)" "CHR 0x00 \<notin> set content"
    "max 32768 (3 * (length (response_head status type (length content)) + length content)) \<le> min lim (2 ^ 62)"
  shows "\<exists>b. set_status_and_content lim status type content r = Val (r\<lparr>m_res_buff := b\<rparr>) \<and>
    contents b = response_head status type (length content) @ content"
proof -
  let ?ss = "[to_rep_string status, to_content_type_str type, rep_server, num_to_string (length content), [CR, LF], cstr_view content]"
  have c: "cstr_view content = content" using assms(2) by (auto simp: cstr_view_def takeWhile_eq_all_conv)
  have cc: "concat ?ss = response_head status type (length content) @ content" by (simp add: response_head_def c)
  have "max 32768 (3 * length (concat ?ss)) \<le> min lim (2 ^ 62)" unfolding cc length_append by (rule assms(3))
  from append_buffs_Val [OF _ _ this, of "Buffer_clear (m_res_buff r)"] hbuf_ok_clear [OF assms(1)] obtain b where
    b: "append_buffs lim ?ss (Buffer_clear (m_res_buff r)) = Val b" "contents b = concat ?ss" by blast
  then show ?thesis using cc by (intro exI [of _ b]) (simp add: set_status_and_content_def)
qed

lemma phr_parse_response_head:
  assumes "type \<noteq> ct_multipart" "3 \<le> mx" "length (response_head status type n) < 2 ^ 31"
  shows "\<exists>rs. phr_parse_response sse (response_head status type n @ content) mx 0 = Ok (rs, int (length (response_head status type n))) \<and>
    rs_status rs = sent_status status \<and>
    map hdr_str (rs_headers rs) = type_header type @ [(Some ''Server'', ''rojcpp''), (Some ''Content-Length'', decimal n)]"
  using response_head_parses [OF assms(1,2), of sse status n content] assms(3)
  by (auto simp: phr_parse_response_def check_complete_def to_int_id)

text \<open>C18: the response that \<open>set_status_and_content\<close> builds from a literal is read back by \<open>phr_parse_response\<close>: the status, the
  three headers with the length of the content, and then the content itself.\<close>

theorem set_status_and_content_parses:
  assumes "hbuf_ok (m_res_buff r)" "type \<noteq> ct_multipart" "CHR 0x00 \<notin> set content" "3 \<le> mx"
    "max 32768 (3 * (length (response_head status type (length content)) + length content)) \<le> min lim (2 ^ 62)"
    "length (response_head status type (length content)) < 2 ^ 31"
  shows "\<exists>r' rs. set_status_and_content lim status type content r = Val r' \<and>
    contents (m_res_buff r') = response_head status type (length content) @ content \<and>
    phr_parse_response sse (contents (m_res_buff r')) mx 0 = Ok (rs, int (length (response_head status type (length content)))) \<and>
    rs_status rs = sent_status status \<and>
    map hdr_str (rs_headers rs) = type_header type @ [(Some ''Server'', ''rojcpp''), (Some ''Content-Length'', decimal (length content))]"
  using set_status_and_content_Val [OF assms(1,3,5)] phr_parse_response_head [OF assms(2,4,6), of sse content] by auto

theorem set_status_and_content_parses_witness:
  "\<exists>r' rs. set_status_and_content 40000 st_created ct_json ''{}'' response_new = Val r' \<and>
    contents (m_res_buff r') = response_head st_created ct_json 2 @ ''{}'' \<and>
    phr_parse_response True (contents (m_res_buff r')) 32 0 = Ok (rs, int (length (response_head st_created ct_json 2))) \<and>
    rs_status rs = 201 \<and>
    map hdr_str (rs_headers rs) = [(Some ''Content-Type'', ''application/json; charset=UTF-8''), (Some ''Server'', ''rojcpp''),
      (Some ''Content-Length'', decimal 2)]"
proof -
  have "decimal 2 = [char_of (48 + 2 :: nat)]" by (subst decimal.simps) simp
  then have "length (response_head st_created ct_json 2) < 200"
    by (simp add: response_head_def to_rep_string_def to_content_type_str_def rep_json_def rep_server_def num_to_string_decimal)
  moreover have l: "length ''{}'' = 2" by simp
  ultimately show ?thesis
    using set_status_and_content_parses [of response_new ct_json "''{}''" 32 st_created 40000 True, unfolded l]
    by (simp add: response_new_def sent_status_def type_header_def)
qed

section \<open>The overload for strings\<close>

definition raw_digit :: "char \<Rightarrow> char" where "raw_digit c = char_of (ccode c - 48)"

lemma raw_digit [simp]: "d < 10 \<Longrightarrow> raw_digit (char_of (48 + d)) = char_of d" for d :: nat
  by (simp add: raw_digit_def)

lemma number_loop_decimal: "number_loop n acc = acc @ rev (map raw_digit (decimal n))"
proof (induction n acc rule: number_loop.induct)
  case (1 n acc)
  show ?case
  proof (cases "n < 10")
    case True
    then have "decimal n = [char_of (48 + n)]" by (subst decimal.simps) simp
    moreover have "number_loop n acc = acc @ [char_of (n mod 10)]" using True by (subst number_loop.simps) (simp add: Let_def)
    ultimately show ?thesis using True by simp
  next
    case False
    then have "decimal n = decimal (n div 10) @ [char_of (48 + n mod 10)]" by (subst decimal.simps) simp
    moreover have "n div 10 \<noteq> 0" using False by simp
    moreover have "number_loop n acc = number_loop (n div 10) (acc @ [char_of (n mod 10)])"
      using \<open>n div 10 \<noteq> 0\<close> by (subst number_loop.simps) (simp add: Let_def)
    moreover have "raw_digit (char_of (48 + n mod 10)) = char_of (n mod 10)" by (rule raw_digit) simp
    ultimately show ?thesis using "1.IH" [OF refl] by simp
  qed
qed

lemma parse_headers_line:
  assumes "n \<noteq> []" "\<forall>c\<in>set n. is_token_char c" "v \<noteq> []" "\<forall>c\<in>set v. \<not> is_ctl c" "\<not> is_ws (hd v)" "\<not> is_ws (last v)" "length acc \<noteq> mx"
  shows "\<exists>h. parse_headers sse mx acc (n @ '': '' @ v @ [CR, LF] @ p) = parse_headers sse mx (acc @ [h]) p"
proof -
  let ?d = "v @ [CR, LF] @ p"
  let ?b = "n @ CHR '':'' # [SP] @ ?d"
  obtain c n' where n: "n = c # n'" using assms(1) by (cases n) auto
  then have c: "\<not> is_ws c" "c \<noteq> CR" "c \<noteq> LF" using assms(2) is_token_not_ws by auto
  have d: "?d \<noteq> []" "\<not> is_ws (hd ?d)" using assms(3,5) by (cases v; auto)+
  have "parse_token sse (CHR '':'') ?b = Ok ((?b, length n), CHR '':'' # [SP] @ ?d)"
    using assms(2) by (intro parse_token_complete) auto
  moreover have "skip_hspace ([SP] @ ?d) = Ok ?d" using d by (intro skip_hspace_complete) (auto simp: is_ws_def)
  ultimately have hn: "parse_header_name sse (length acc) ?b = Ok (Some ?b, length n, ?d)"
    using c n by (simp add: parse_header_name_def is_ws_def)
  have gt: "get_token_to_eol sse ?d = Ok ((?d, length v), p)"
    using get_token_to_eol_complete [OF assms(4) eol, of sse p] by simp
  have tl: "trim_len ?d (length v) = Ok (length v)"
    using trim_len_exact [of "[]" v "[CR, LF] @ p"] assms(6) by (simp add: trimmed_def)
  have "parse_headers sse mx acc ?b =
      parse_headers sse mx (acc @ [\<lparr>hd_name = Some ?b, hd_name_len = length n, hd_value = ?d, hd_value_len = length v\<rparr>]) p"
    using c hn gt tl n assms(7) by (subst parse_headers.simps) simp
  then show ?thesis by (auto simp: SP_def)
qed

lemma parse_headers_bad_line:
  assumes "n \<noteq> []" "\<forall>c\<in>set n. is_token_char c" "\<forall>c\<in>set t. c = HT" "is_ctl c" "c \<noteq> CR" "c \<noteq> LF" "length acc \<noteq> mx"
  shows "parse_headers sse mx acc (n @ '': '' @ t @ c # p) = Ret (-1)"
proof -
  let ?d = "c # p"
  let ?b = "n @ CHR '':'' # (SP # t) @ ?d"
  obtain a n' where n: "n = a # n'" using assms(1) by (cases n) auto
  then have a: "\<not> is_ws a" "a \<noteq> CR" "a \<noteq> LF" using assms(2) is_token_not_ws by auto
  have cw: "\<not> is_ws c" using assms(4) is_ws_not_ctl by blast
  have "parse_token sse (CHR '':'') ?b = Ok ((?b, length n), CHR '':'' # (SP # t) @ ?d)"
    using assms(2) by (intro parse_token_complete) auto
  moreover have "skip_hspace ((SP # t) @ ?d) = Ok ?d" using assms(3) cw by (intro skip_hspace_complete) (auto simp: is_ws_def)
  ultimately have hn: "parse_header_name sse (length acc) ?b = Ok (Some ?b, length n, ?d)"
    using a n by (simp add: parse_header_name_def is_ws_def)
  have "scan is_ctl (\<lambda>_. False) ?d = Ok ?d" using assms(4) by simp
  then have gt: "get_token_to_eol sse ?d = Ret (-1)"
    using assms(5,6) by (simp add: get_token_to_eol_scan found_ctl_def)
  have "parse_headers sse mx acc ?b = Ret (-1)" using a hn gt n assms(7) by (subst parse_headers.simps) simp
  then show ?thesis by (simp add: SP_def)
qed

lemma raw_tail:
  assumes "set (decimal n) \<noteq> {CHR ''9''}"
  shows "\<exists>t c p. map raw_digit (decimal n) = t @ c # p \<and> (\<forall>c\<in>set t. c = HT) \<and> is_ctl c \<and> c \<noteq> CR \<and> c \<noteq> LF"
proof -
  let ?w = "map raw_digit (decimal n)"
  have "\<exists>c\<in>set (decimal n). c \<noteq> CHR ''9''" using assms decimal_ne(1) [of n] by (cases "decimal n") auto
  then obtain c where c: "c \<in> set (decimal n)" "c \<noteq> CHR ''9''" by blast
  then obtain d :: nat where d: "d < 10" "c = char_of (48 + d)" using decimal_digits by blast
  have "d \<noteq> 9" using c(2) d by (auto simp: char_of_def bit_iff_odd)
  moreover have "raw_digit c = char_of d" unfolding d(2) by (rule raw_digit [OF d(1)])
  ultimately have "raw_digit c \<noteq> HT" using d(1) by (auto simp: byte_eq_iff simp del: of_char_eq_iff)
  then have ne: "dropWhile (\<lambda>c. c = HT) ?w \<noteq> []" using c(1) by (auto simp: dropWhile_eq_Nil_conv)
  then obtain e p where e: "dropWhile (\<lambda>c. c = HT) ?w = e # p" by (cases "dropWhile (\<lambda>c. c = HT) ?w") auto
  then have w: "?w = takeWhile (\<lambda>c. c = HT) ?w @ e # p" by (metis takeWhile_dropWhile_id)
  then have "e \<in> set ?w" by (metis in_set_conv_decomp)
  then obtain c' where "c' \<in> set (decimal n)" "e = raw_digit c'" by auto
  then obtain d' :: nat where d': "d' < 10" "e = char_of d'" using decimal_digits by fastforce
  have "e \<noteq> HT" using hd_dropWhile [OF ne] e by simp
  then have "d' \<noteq> 9" using d' by (auto simp: byte_eq_iff simp del: of_char_eq_iff)
  then have "is_ctl e \<and> e \<noteq> CR \<and> e \<noteq> LF" using d' by (auto simp: is_ctl_iff byte_eq_iff simp del: of_char_eq_iff)
  then show ?thesis using w by (intro exI [of _ "takeWhile (\<lambda>c. c = HT) ?w"] exI [of _ e] exI [of _ p]) (auto dest: set_takeWhileD)
qed

definition bad_head :: "status_type \<Rightarrow> content_type \<Rightarrow> nat \<Rightarrow> string" where
  "bad_head status type n =
     to_rep_string status @ to_content_type_str type @ rep_server @ ''content_length: '' @ map raw_digit (decimal n) @ [CR, LF, CR, LF]"

lemma parse_response_error:
  assumes "100 \<le> n" "n < 1000" "msg \<noteq> []" "hd msg \<noteq> SP" "\<forall>c\<in>set msg. \<not> is_ctl c" "is_eol e" "parse_headers sse mx [] p = Ret x"
  shows "parse_response sse mx (''HTTP/1.1 '' @ decimal n @ [SP] @ msg @ e @ p) = Ret x"
proof -
  have "''HTTP/1.1 '' = ''HTTP/1.'' @ [char_of (48 + 1 :: nat), SP]" by (simp add: SP_def char_of_def bit_iff_odd)
  with parse_response_front [OF assms(1-6), of 1 sse mx p] assms(7) show ?thesis by simp
qed

lemma bad_head_rejected:
  assumes "type \<noteq> ct_multipart" "3 \<le> mx" "set (decimal n) \<noteq> {CHR ''9''}"
  shows "parse_response sse mx (bad_head status type n @ r) = Ret (-1)"
proof -
  obtain st where st: "to_rep_string status = rep_line st" "st \<noteq> st_init" by (rule to_rep_string_line)
  obtain msg where m: "rep_line st = ''HTTP/1.1 '' @ decimal (status_value st) @ [SP] @ msg @ [CR, LF]"
    "msg \<noteq> []" "hd msg \<noteq> SP" "\<forall>c\<in>set msg. \<not> is_ctl c" "100 \<le> status_value st" "status_value st < 1000"
    using rep_line_shape [OF st(2)] by blast
  obtain t c p where w: "map raw_digit (decimal n) = t @ c # p" "\<forall>c\<in>set t. c = HT" "is_ctl c" "c \<noteq> CR" "c \<noteq> LF"
    using raw_tail [OF assms(3)] by blast
  let ?bad = "''content_length'' @ '': '' @ t @ c # (p @ [CR, LF, CR, LF] @ r)"
  have tk: "\<forall>c\<in>set ''content_length''. is_token_char c" "\<forall>c\<in>set ''Server''. is_token_char c" "\<forall>c\<in>set ''Content-Type''. is_token_char c"
    by (simp_all add: is_token_char_def token_char_map_def)
  have bad: "parse_headers sse mx acc ?bad = Ret (-1)" if "length acc < mx" for acc
    by (rule parse_headers_bad_line [OF _ tk(1) w(2-5)]) (use that in simp_all)
  have srv: "parse_headers sse mx acc (rep_server @ ?bad) = Ret (-1)" if "length acc < 2" for acc
  proof -
    have v: "\<forall>c\<in>set ''rojcpp''. \<not> is_ctl c" "\<not> is_ws (hd ''rojcpp'')" "\<not> is_ws (last ''rojcpp'')"
      by (simp_all add: is_ctl_iff is_ws_def SP_def HT_def)
    have "length acc \<noteq> mx" "length acc + 1 < mx" using that assms(2) by linarith+
    from parse_headers_line [OF _ tk(2) _ v(1,2,3) this(1), of sse ?bad] bad this(2)
    show ?thesis by (auto simp: rep_server_def)
  qed
  have ty: "parse_headers sse mx [] (to_content_type_str type @ rep_server @ ?bad) = Ret (-1)"
  proof (cases "to_content_type_str type = []")
    case True
    then show ?thesis using srv [of "[]"] by simp
  next
    case False
    then obtain v where v: "to_content_type_str type = ''Content-Type'' @ '': '' @ v @ [CR, LF]" "v \<noteq> []" "\<forall>c\<in>set v. \<not> is_ctl c"
      "\<not> is_ws (hd v)" "\<not> is_ws (last v)" using type_line [OF assms(1)] by blast
    have "length ([] :: phr_header list) \<noteq> mx" using assms(2) by simp
    from parse_headers_line [OF _ tk(3) v(2-5) this, of sse "rep_server @ ?bad"] srv show ?thesis by (auto simp: v(1))
  qed
  have "bad_head status type n @ r = ''HTTP/1.1 '' @ decimal (status_value st) @ [SP] @ msg @ [CR, LF] @ (to_content_type_str type @ rep_server @ ?bad)"
    by (simp add: bad_head_def st(1) m(1) w(1))
  with parse_response_error [OF m(5,6,2,3,4) eol ty] show ?thesis by simp
qed

lemma set_status_and_content_str_Val:
  assumes "hbuf_ok (m_res_buff r)" "length str < 2 ^ 31"
    "max 32768 (3 * (length (bad_head status type (length str)) + length str)) \<le> min lim (2 ^ 62)"
  shows "\<exists>b. set_status_and_content_str lim status type str r = Val (r\<lparr>m_res_buff := b\<rparr>) \<and>
    contents b = bad_head status type (length str) @ str"
proof -
  let ?n = "nat (to_int (length str) mod 2 ^ 64)"
  have n: "?n = length str" using assms(2) by (simp add: to_int_id)
  let ?num = "rev (number_loop (length str) [])"
  let ?ss = "[to_rep_string status, to_content_type_str type, rep_server, ''content_length: '', ?num, [CR, LF, CR, LF], str]"
  have cc: "concat ?ss = bad_head status type (length str) @ str" by (simp add: bad_head_def number_loop_decimal)
  have "max 32768 (3 * length (concat ?ss)) \<le> min lim (2 ^ 62)" unfolding cc length_append by (rule assms(3))
  from append_buffs_Val [OF _ _ this, of "Buffer_clear (m_res_buff r)"] hbuf_ok_clear [OF assms(1)] obtain b where
    b: "append_buffs lim ?ss (Buffer_clear (m_res_buff r)) = Val b" "contents b = concat ?ss" by blast
  have assoc: "rbind (rbind m f) g = rbind m (\<lambda>x. rbind (f x) g)" for m :: "hbuf res" and f and g :: "hbuf \<Rightarrow> response res" by (cases m) auto
  have "set_status_and_content_str lim status type str r =
      rbind (append_buffs lim ?ss (Buffer_clear (m_res_buff r))) (\<lambda>b. Val (r\<lparr>m_res_buff := b\<rparr>))"
    unfolding set_status_and_content_str_def n Let_def append_buff_number_def append_buffs.simps assoc by (simp add: assoc)
  then show ?thesis using b(1) b(2)[unfolded cc] by auto
qed

text \<open>The overload for strings writes the digits of the length as the control characters 0 to 9, under the name
  \<open>content_length\<close>: the parser of the same library rejects the response, unless every digit is a nine, which becomes a tab.\<close>

theorem set_status_and_content_str_rejected:
  assumes "hbuf_ok (m_res_buff r)" "type \<noteq> ct_multipart" "3 \<le> mx" "length str < 2 ^ 31" "set (decimal (length str)) \<noteq> {CHR ''9''}"
    "max 32768 (3 * (length (bad_head status type (length str)) + length str)) \<le> min lim (2 ^ 62)"
  shows "\<exists>r'. set_status_and_content_str lim status type str r = Val r' \<and>
    contents (m_res_buff r') = bad_head status type (length str) @ str \<and>
    phr_parse_response sse (contents (m_res_buff r')) mx 0 = Ret (-1)"
  using set_status_and_content_str_Val [OF assms(1,4,6)] bad_head_rejected [OF assms(2,3,5), of sse status str]
  by (auto simp: phr_parse_response_def check_complete_def)

theorem set_status_and_content_str_rejected_witness:
  "\<exists>r'. set_status_and_content_str 40000 st_ok ct_json ''{}'' response_new = Val r' \<and>
    contents (m_res_buff r') = bad_head st_ok ct_json 2 @ ''{}'' \<and>
    phr_parse_response False (contents (m_res_buff r')) 32 0 = Ret (-1)"
proof -
  have d: "decimal 2 = [char_of (48 + 2 :: nat)]" by (subst decimal.simps) simp
  then have "length (bad_head st_ok ct_json 2) < 200"
    by (simp add: bad_head_def to_rep_string_def to_content_type_str_def rep_json_def rep_server_def)
  moreover have l: "length ''{}'' = 2" by simp
  moreover have "set (decimal 2) \<noteq> {CHR ''9''}" unfolding d by (simp add: char_of_def bit_iff_odd)
  ultimately show ?thesis
    using set_status_and_content_str_rejected [of response_new ct_json 32 "''{}''" st_ok 40000 False, unfolded l]
    by (simp add: response_new_def)
qed

section \<open>The constant response and the cookie\<close>

lemma not_found_response: "m_const_respone (send_not_found r) = ''HTTP/1.1 404 Not Found'' @ [CR, LF] @ ''Server: rojcpp'' @ [CR, LF, CR, LF]"
  by (simp add: send_not_found_def sv_join_def rep_server_def header_end_sv_def)

end
