(* ===== verification/HttpRoute.thy ===== *)
theory HttpRoute
  imports StrUtils
begin

text \<open>
  \<open>http_router\<close> of \<open>include/http_route.h\<close>: the table of routes, registration, dispatch by URL and by the first letter of the method,
  and the invocation of a handler between its access points. A handler works on a state of any type (in the server the request and the
  response); it returns, throws an exception, or is undefined.
\<close>

section \<open>Handlers\<close>

text \<open>\<open>Std what\<close> is a \<open>std::exception\<close>, \<open>Other\<close> any other thrown value; the changes made to the state before the throw remain.\<close>

datatype exn = Std string | Other

datatype ('a, 's) run = Done 'a 's | Raise exn 's | Undef

fun run_bind :: "('a, 's) run \<Rightarrow> ('a \<Rightarrow> 's \<Rightarrow> ('b, 's) run) \<Rightarrow> ('b, 's) run" where
  "run_bind (Done a s) f = f a s"
| "run_bind (Raise e s) f = Raise e s"
| "run_bind Undef f = Undef"

type_synonym 's handler = "'s \<Rightarrow> (unit, 's) run"

text \<open>An access point may lack either member function.\<close>

record 's ap =
  before :: "('s \<Rightarrow> (bool, 's) run) option"
  after :: "('s \<Rightarrow> (bool, 's) run) option"

text \<open>\<open>for_each_l\<close> with the lambda of \<open>do_ap_before\<close>, which does nothing once \<open>r\<close> is false; \<open>for_each_r\<close> takes the items from the
last to the first.\<close>

fun for_each_before :: "bool \<Rightarrow> 's ap list \<Rightarrow> 's \<Rightarrow> (bool, 's) run" where
  "for_each_before r [] s = Done r s"
| "for_each_before r (item # tp) s =
     (if \<not> r then for_each_before r tp s
      else case before item of None \<Rightarrow> for_each_before r tp s
        | Some f \<Rightarrow> run_bind (f s) (\<lambda>r s. for_each_before r tp s))"

definition do_ap_before :: "'s ap list \<Rightarrow> 's \<Rightarrow> (bool, 's) run" where
  "do_ap_before tp s = for_each_before True tp s"

fun for_each_after :: "bool \<Rightarrow> 's ap list \<Rightarrow> 's \<Rightarrow> (bool, 's) run" where
  "for_each_after r [] s = Done r s"
| "for_each_after r (item # tp) s =
     (if \<not> r then for_each_after r tp s
      else case after item of None \<Rightarrow> for_each_after r tp s
        | Some f \<Rightarrow> run_bind (f s) (\<lambda>r s. for_each_after r tp s))"

definition do_after :: "'s ap list \<Rightarrow> 's \<Rightarrow> (unit, 's) run" where
  "do_after tp s = run_bind (for_each_after True (rev tp) s) (\<lambda>_ s. Done () s)"

definition invoke :: "'s handler \<Rightarrow> 's ap list \<Rightarrow> 's handler" where
  "invoke f aps s =
     run_bind (do_ap_before aps s) (\<lambda>ok s.
       if \<not> ok then Done () s
       else run_bind (f s) (\<lambda>_ s. do_after aps s))"

section \<open>The table\<close>

type_synonym 's router = "string \<Rightarrow> (char list \<times> 's handler) option"

definition register_nonmember_func :: "string \<Rightarrow> char list \<Rightarrow> 's handler \<Rightarrow> 's ap list \<Rightarrow> 's router \<Rightarrow> 's router" where
  "register_nonmember_func raw_name arr f aps rt = rt(raw_name \<mapsto> (arr, invoke f aps))"

text \<open>\<open>None\<close>: an unknown method, which does not compile.\<close>

definition register_handler :: "http_method list \<Rightarrow> string \<Rightarrow> 's handler \<Rightarrow> 's ap list \<Rightarrow> 's router \<Rightarrow> 's router option" where
  "register_handler methods raw_name f aps rt =
     (if methods \<noteq> [] then map_option (\<lambda>arr. register_nonmember_func raw_name arr f aps rt) (get_method_arr methods)
      else Some (register_nonmember_func raw_name (replicate 26 (CHR 0x00)) f aps rt))"

definition route :: "string \<Rightarrow> string \<Rightarrow> 's router \<Rightarrow> 's \<Rightarrow> (bool, 's) run" where
  "route mthd url rt s =
     (case rt url of
        None \<Rightarrow> Done False s
      | Some (arr, h) \<Rightarrow>
          if mthd = [] then Undef
          else if ccode (mthd ! 0) < 65 \<or> ccode (mthd ! 0) > 90 then Done False s
          else if arr ! (ccode (mthd ! 0) - 65) \<noteq> CHR 0x00 then run_bind (h s) (\<lambda>_ s. Done True s)
          else Done False s)"

section \<open>Dispatch\<close>

lemma type_to_name_upper: "type_to_name m = Some n \<Longrightarrow> n \<noteq> [] \<and> 65 \<le> ccode (n ! 0) \<and> ccode (n ! 0) \<le> 90"
  by (cases m) (auto simp: ccode_def)

definition first_letters :: "http_method list \<Rightarrow> char set" where
  "first_letters ms = {n ! 0 | m n. m \<in> set ms \<and> type_to_name m = Some n}"

lemma get_method_arr_letters:
  assumes "get_method_arr ms = Some arr" "65 \<le> ccode c" "ccode c \<le> 90"
  shows "length arr = 26 \<and> (arr ! (ccode c - 65) \<noteq> CHR 0x00 \<longleftrightarrow> c \<in> first_letters ms)"
  using assms(1)
proof (induction ms arbitrary: arr rule: rev_induct)
  case Nil
  then show ?case using assms(2,3) by (auto simp: get_method_arr_def first_letters_def)
next
  case (snoc m ms)
  from snoc.prems obtain a n where a: "get_method_arr ms = Some a" "type_to_name m = Some n" "arr = a[ccode (n ! 0) - 65 := n ! 0]"
    by (auto simp: get_method_arr_def bind_eq_Some_conv)
  from snoc.IH [OF a(1)] have IH: "length a = 26" "a ! (ccode c - 65) \<noteq> CHR 0x00 \<longleftrightarrow> c \<in> first_letters ms" by auto
  have n: "65 \<le> ccode (n ! 0)" "ccode (n ! 0) \<le> 90" using type_to_name_upper [OF a(2)] by auto
  have fl: "c \<in> first_letters (ms @ [m]) \<longleftrightarrow> c \<in> first_letters ms \<or> c = n ! 0" using a(2) by (auto simp: first_letters_def)
  have "n ! 0 \<noteq> CHR 0x00" using n by (auto simp: ccode_def)
  show ?case
  proof (cases "c = n ! 0")
    case True
    then show ?thesis using IH n fl a(3) \<open>n ! 0 \<noteq> CHR 0x00\<close> by simp
  next
    case False
    then have "ccode c - 65 \<noteq> ccode (n ! 0) - 65" using n assms(2) ccode_inj [of c "n ! 0"] by linarith
    then show ?thesis using IH fl a(3) False by simp
  qed
qed

lemma register_route_eq:
  assumes "register_handler ms name f aps rt = Some rt'" "mthd \<noteq> []"
  shows "route mthd url rt' s =
    (if url \<noteq> name then route mthd url rt s
     else if mthd ! 0 \<in> first_letters ms then run_bind (invoke f aps s) (\<lambda>_ s. Done True s) else Done False s)"
proof -
  obtain arr where arr: "get_method_arr ms = Some arr" "rt' = register_nonmember_func name arr f aps rt"
    using assms(1) by (auto simp: register_handler_def get_method_arr_def split: if_splits)
  have up: "c \<in> first_letters ms \<Longrightarrow> 65 \<le> ccode c \<and> ccode c \<le> 90" for c
    using type_to_name_upper by (auto simp: first_letters_def)
  show ?thesis
    using get_method_arr_letters [OF arr(1), of "mthd ! 0"] up [of "mthd ! 0"] assms(2)
    by (auto simp: route_def arr(2) register_nonmember_func_def)
qed

text \<open>A registered handler is invoked for its URL exactly for the methods whose name begins with the letter of one of the methods it
  was registered for; the routes of other URLs are untouched.\<close>

theorem register_route:
  assumes "register_handler ms name f aps rt = Some rt'" "mthd \<noteq> []"
  shows "route mthd url rt' s =
    (if url \<noteq> name then route mthd url rt s
     else if mthd ! 0 \<in> first_letters ms then run_bind (invoke f aps s) (\<lambda>_ s. Done True s) else Done False s)"
  by (rule register_route_eq [OF assms])

theorem register_route_witness:
  "\<exists>rt'. register_handler [GET, POST] ''/login'' (\<lambda>n. Done () (Suc n)) [] (\<lambda>_. None) = Some rt' \<and>
     route ''POST'' ''/login'' rt' (0::nat) = Done True 1 \<and> route ''PUT'' ''/login'' rt' 0 = Done True 1 \<and>
     route ''HEAD'' ''/login'' rt' 0 = Done False 0 \<and> route ''GET'' ''/'' rt' 0 = Done False 0"
proof -
  obtain rt' :: "nat router" where r: "register_handler [GET, POST] ''/login'' (\<lambda>n. Done () (Suc n)) [] (\<lambda>_. None) = Some rt'"
    by (auto simp: register_handler_def get_method_arr_def)
  have fl: "first_letters [GET, POST] = {CHR ''G'', CHR ''P''}"
    by (auto simp: first_letters_def) (metis nth_Cons_0 type_to_name.simps(2,4))+
  have i: "invoke (\<lambda>n. Done () (Suc n)) [] 0 = Done () 1" by (simp add: invoke_def do_ap_before_def do_after_def)
  show ?thesis using r register_route [OF r] by (simp add: fl i route_def)
qed

section \<open>The order of the access points\<close>

datatype event = Before nat | Handler | After nat

text \<open>Access points and a handler that write what happens into a trace; \<open>b i\<close> and \<open>a i\<close> are what the members of the \<open>i\<close>-th return.\<close>

definition tracing :: "(nat \<Rightarrow> bool) \<Rightarrow> (nat \<Rightarrow> bool) \<Rightarrow> nat \<Rightarrow> event list ap" where
  "tracing b a i = \<lparr>before = Some (\<lambda>t. Done (b i) (t @ [Before i])), after = Some (\<lambda>t. Done (a i) (t @ [After i]))\<rparr>"

text \<open>Up to the first that returns false, that one included.\<close>

fun upto_first :: "(nat \<Rightarrow> bool) \<Rightarrow> nat list \<Rightarrow> nat list" where
  "upto_first p [] = []"
| "upto_first p (i # is) = i # (if p i then upto_first p is else [])"

lemma for_each_before_False: "for_each_before False tp s = Done False s"
  by (induction tp) auto

lemma for_each_after_False: "for_each_after False tp s = Done False s"
  by (induction tp) auto

lemma before_trace:
  "for_each_before True (map (tracing b a) is) t = Done (list_all b is) (t @ map Before (upto_first b is))"
  by (induction "is" arbitrary: t) (auto simp: tracing_def for_each_before_False)

lemma after_trace:
  "for_each_after True (map (tracing b a) is) t = Done (list_all a is) (t @ map After (upto_first a is))"
  by (induction "is" arbitrary: t) (auto simp: tracing_def for_each_after_False)

text \<open>The members \<open>before\<close> run in order until one returns false; then nothing else runs. Otherwise the handler runs, and then
  the members \<open>after\<close> in the opposite order until one returns false.\<close>

theorem invoke_order:
  "invoke (\<lambda>t. Done () (t @ [Handler])) (map (tracing b a) is) [] =
     Done () (map Before (upto_first b is) @
       (if list_all b is then Handler # map After (upto_first a (rev is)) else []))"
  by (simp add: invoke_def do_ap_before_def do_after_def before_trace after_trace rev_map)

end
