(* ===== verification/HttpServer.thy ===== *)
theory HttpServer
  imports HttpResponse HttpRoute
begin

text \<open>
  \<open>http_session\<close> (\<open>include/http_session.h\<close>, \<open>src/http_session.cpp\<close>) and the handling of a connection by \<open>server::deal\<close>
  (\<open>include/server.h\<close>): the read loop, the routing with its exception handlers, and the send loop. What the socket does is a list of
  events; a value that the connection waits for after the last event is \<open>Waiting\<close>.
\<close>

section \<open>Reading\<close>

definition req_buff :: "nat \<Rightarrow> request \<Rightarrow> request res" where
  "req_buff lim q =
     rbind (if Buffer_empty (m_req_buff q) then expand_size lim (1024 * 1024) (m_req_buff q) else Val (m_req_buff q)) (\<lambda>b.
     rbind (if left_size b \<le> 0 then expand_twice_size lim b else Val b) (\<lambda>b.
       Val (q\<lparr>m_req_buff := b\<rparr>)))"

definition update_req_buff_used_size :: "nat \<Rightarrow> request \<Rightarrow> request" where
  "update_req_buff_used_size siz q = q\<lparr>m_req_buff := update_used_sized siz (m_req_buff q)\<rparr>"

text \<open>The outcome of \<open>async_read\<close>: bytes, at most as many as the buffer has room for, or an exception.\<close>

datatype read = Data string | Read_fails

text \<open>The body of \<open>try\<close>; every \<open>std::exception\<close> is caught, and \<open>nread\<close> then keeps its value. More bytes than there is room for are
no outcome of a read, and the case is \<open>UB\<close>.\<close>

definition read_step :: "nat \<Rightarrow> read \<Rightarrow> nat \<Rightarrow> request \<Rightarrow> (nat \<times> request) res" where
  "read_step lim ev nread q =
     (case req_buff lim q of
        UB \<Rightarrow> UB
      | Throw e \<Rightarrow> Val (nread, q)
      | Val q \<Rightarrow>
          (case ev of
             Read_fails \<Rightarrow> Val (nread, q)
           | Data s \<Rightarrow>
               if length s \<le> left_size (m_req_buff q)
               then rbind (write_data s (m_req_buff q)) (\<lambda>b. Val (length s, q\<lparr>m_req_buff := b\<rparr>))
               else UB))"

datatype deal_state = Waiting request | Broke request | Aborted | Crash

text \<open>The loop. The parser reads the bytes up to the used size; when \<open>nread\<close> was counted a second time after an exception, some of
them were never written, or lie outside the memory. (So the loop does not go on after an exception with \<open>nread > 0\<close>, and an event is
used up in every iteration that is followed by another.)\<close>

fun deal_loop :: "nat \<Rightarrow> bool \<Rightarrow> nat \<Rightarrow> read list \<Rightarrow> request \<Rightarrow> deal_state" where
  "deal_loop lim sse nread [] q = Waiting q"
| "deal_loop lim sse nread (ev # evs) q =
     (case read_step lim ev nread q of
        Val (nread, q) \<Rightarrow>
          if nread = 0 then Broke q
          else
            let q = update_req_buff_used_size nread q in
            (case rbind (read_data 0 (used_mem (m_req_buff q)) (m_req_buff q)) (\<lambda>_. parse_header sse q) of
               Val (q, parse_ret) \<Rightarrow>
                 if parse_ret = -2 then deal_loop lim sse nread evs q
                 else if parse_ret = -1 then Aborted
                 else Broke q
             | _ \<Rightarrow> Crash)
      | _ \<Rightarrow> Crash)"

section \<open>Routing\<close>

type_synonym rstate = "request \<times> response"

definition lift_response :: "rstate \<Rightarrow> response res \<Rightarrow> (bool, rstate) run" where
  "lift_response s x = (case x of Val r \<Rightarrow> Done False (fst s, r) | Throw e \<Rightarrow> Raise (Std e) s | UB \<Rightarrow> Undef)"

text \<open>\<open>http_handle_check_\<close>. A method that was never parsed is a null view, read only when the URL is found.\<close>

definition http_handle_check :: "nat \<Rightarrow> rstate router \<Rightarrow> rstate \<Rightarrow> (bool, rstate) run" where
  "http_handle_check lim rt s =
     (case (case m_method (fst s) of
              None \<Rightarrow> if rt (m_path (fst s)) = None then Done False s else Undef
            | Some mthd \<Rightarrow> route mthd (m_path (fst s)) rt s) of
        Done find_route s \<Rightarrow>
          if find_route = False then Done False (fst s, set_status st_not_found (snd s)) else Done True s
      | Raise (Std what) s \<Rightarrow>
          lift_response s (set_status_and_content_str lim st_internal_server_error ct_string (what @ '' exception in business function'') (snd s))
      | Raise Other s \<Rightarrow>
          lift_response s (set_status_and_content lim st_internal_server_error ct_string ''unknown exception business function'' (snd s))
      | Undef \<Rightarrow> Undef)"

definition session_route :: "nat \<Rightarrow> rstate router \<Rightarrow> rstate \<Rightarrow> (unit, rstate) run" where
  "session_route lim rt s =
     run_bind (http_handle_check lim rt s) (\<lambda>ok s. if ok = False then Done () (fst s, send_not_found (snd s)) else Done () s)"

definition handle_read :: "nat \<Rightarrow> rstate router \<Rightarrow> rstate \<Rightarrow> (unit, rstate) run" where
  "handle_read lim rt s =
     (case has_body (fst s) of
        Val True \<Rightarrow>
          let type = get_content_type (fst s); s = (set_content_type type (fst s), snd s) in
          if type = ct_string \<or> type = ct_json \<or> type = ct_unknown then session_route lim rt s
          else Raise (Std ''not support content-type'') s
      | Val False \<Rightarrow> session_route lim rt s
      | _ \<Rightarrow> Undef)"

definition process :: "nat \<Rightarrow> rstate router \<Rightarrow> rstate \<Rightarrow> (unit, rstate) run" where
  "process lim rt s = handle_read lim rt s"

section \<open>Sending\<close>

text \<open>The bytes sent, by the results of the calls of \<open>async_send\<close>, each at most the number of bytes that remain.\<close>

fun send_loop :: "nat list \<Rightarrow> string \<Rightarrow> string" where
  "send_loop [] buf = []"
| "send_loop (sent # ns) buf =
     (if sent = 0 then []
      else take sent buf @ (if drop sent buf = [] then [] else send_loop ns (drop sent buf)))"

definition deal :: "nat \<Rightarrow> bool \<Rightarrow> rstate router \<Rightarrow> read list \<Rightarrow> nat list \<Rightarrow> string option" where
  "deal lim sse rt evs sends =
     (case deal_loop lim sse 0 evs request_new of
        Broke q \<Rightarrow>
          (case process lim rt (q, response_new) of
             Done _ s \<Rightarrow> Some (send_loop sends (res_buff (snd s)))
           | _ \<Rightarrow> None)
      | _ \<Rightarrow> None)"

section \<open>The read loop collects the bytes\<close>

definition buff_state :: "request \<Rightarrow> string \<Rightarrow> bool" where
  "buff_state q acc \<longleftrightarrow> hbuf_ok (m_req_buff q) \<and> contents (m_req_buff q) = acc \<and>
     (m_req_buff q = Buffer_new \<or> m_raw_mem (m_req_buff q) \<noteq> None \<and> m_tot_mem (m_req_buff q) = 2 ^ 20)"

lemma req_buff_state:
  assumes "buff_state q acc" "length acc < 2 ^ 20" "2 ^ 20 \<le> lim"
  shows "\<exists>b. req_buff lim q = Val (q\<lparr>m_req_buff := b\<rparr>) \<and> hbuf_ok b \<and> contents b = acc \<and> m_raw_mem b \<noteq> None \<and> m_tot_mem b = 2 ^ 20 \<and>
    used_mem b = length acc"
proof -
  let ?b = "m_req_buff q"
  obtain b where b: "(if Buffer_empty ?b then expand_size lim (1024 * 1024) ?b else Val ?b) = Val b" "hbuf_ok b" "contents b = acc"
    "m_raw_mem b \<noteq> None" "m_tot_mem b = 2 ^ 20"
  proof (cases "?b = Buffer_new")
    case True
    have le: "m_tot_mem Buffer_new + 1024 * 1024 \<le> min lim (2 ^ 62)" using assms(3) by (simp add: Buffer_new_def)
    have sz: "(1024 * 1024 :: nat) \<le> 2 ^ 63" by simp
    obtain b where b: "expand_size lim (1024 * 1024) Buffer_new = Val b"
      using expand_size_ok [OF hbuf_ok_new sz, of lim] le by (simp only: if_True)
    from expand_size_keeps [OF hbuf_ok_new sz b] show ?thesis
      using that [of b] True b assms(1) by (simp add: buff_state_def Buffer_empty_def Buffer_new_def)
  next
    case False
    then have "m_raw_mem ?b \<noteq> None" "m_tot_mem ?b = 2 ^ 20" using assms(1) by (auto simp: buff_state_def)
    then show ?thesis using that [of ?b] assms(1) by (simp add: buff_state_def Buffer_empty_def)
  qed
  have u: "used_mem b = length acc" using length_contents [OF b(2)] b(3) by simp
  then have l: "\<not> left_size b \<le> 0" using b(2,5) assms(2) by (simp add: left_size_ok)
  show ?thesis using b u by (intro exI [of _ b]) (simp only: req_buff_def b(1) rbind.simps l if_False simp_thms)
qed

lemma read_step_state:
  assumes "buff_state q acc" "length (acc @ s) < 2 ^ 20" "2 ^ 20 \<le> lim"
  shows "\<exists>q1 b. read_step lim (Data s) nread q = Val (length s, q1) \<and>
    update_req_buff_used_size (length s) q1 = q\<lparr>m_req_buff := b\<rparr> \<and> buff_state (q\<lparr>m_req_buff := b\<rparr>) (acc @ s) \<and>
    read_data 0 (used_mem b) b = Val (acc @ s)"
proof -
  have a: "length acc < 2 ^ 20" using assms(2) by simp
  from req_buff_state [OF assms(1) a assms(3)] obtain b where
    b: "req_buff lim q = Val (q\<lparr>m_req_buff := b\<rparr>)" "hbuf_ok b" "contents b = acc" "m_raw_mem b \<noteq> None" "m_tot_mem b = 2 ^ 20"
      "used_mem b = length acc" by blast
  have le: "length s \<le> m_tot_mem b - used_mem b" using b(5,6) assms(2) by simp
  from write_keeps [OF b(2) le] obtain b' where b': "write_data s b = Val b'" "hbuf_ok (update_used_sized (length s) b')"
    "contents (update_used_sized (length s) b') = acc @ s" "m_tot_mem b' = m_tot_mem b" using b(3) by auto
  let ?b = "update_used_sized (length s) b'"
  have raw: "m_raw_mem b' \<noteq> None" using b'(1) b(4) by (auto simp: write_data_def split: option.splits if_splits)
  have "read_step lim (Data s) nread q = Val (length s, q\<lparr>m_req_buff := b'\<rparr>)"
    using b(1) le b'(1) left_size_ok [OF b(2)] by (simp add: read_step_def)
  moreover have "update_req_buff_used_size (length s) (q\<lparr>m_req_buff := b'\<rparr>) = q\<lparr>m_req_buff := ?b\<rparr>"
    by (simp add: update_req_buff_used_size_def)
  moreover have "buff_state (q\<lparr>m_req_buff := ?b\<rparr>) (acc @ s)"
    using b' b(5) raw by (simp add: buff_state_def update_used_sized_def)
  moreover have "read_data 0 (used_mem ?b) ?b = Val (acc @ s)"
    using b'(2,3) raw by (auto simp: read_data_def hbuf_ok_def contents_def update_used_sized_def)
  ultimately show ?thesis by blast
qed

lemma prefix_incomplete:
  assumes "reqblock m p v hs q" "length hs \<le> 32" "q = acc @ y" "y \<noteq> []"
  shows "phr_parse_request sse acc 32 0 = Ret (-2)"
proof -
  from parse_request_complete [OF assms(1,2), of sse "[]"] obtain r where r: "parse_request sse 32 q = Ok (r, [])" by auto
  have ext: "extends (\<lambda>(q, r). (ext_request y q, r @ y)) (parse_request sse 32 acc) (parse_request sse 32 (acc @ y))"
    by (rule extends_parse_request)
  have "parse_request sse 32 acc = Ret (-2)"
  proof (cases "parse_request sse 32 acc")
    case (Ok a)
    then show ?thesis using ext r assms(3,4) by (cases a) auto
  next
    case (Ret e)
    then show ?thesis using ext r assms(3) fine_parse_request [of sse 32 acc] by auto
  next
    case Oob
    then show ?thesis using fine_parse_request [of sse 32 acc] by simp
  qed
  then show ?thesis by (simp add: phr_parse_request_def check_complete_def)
qed

definition parsed :: "string \<Rightarrow> string \<Rightarrow> (string option \<times> string) list \<Rightarrow> string \<Rightarrow> nat \<Rightarrow> request \<Rightarrow> bool" where
  "parsed m p hs q n rq \<longleftrightarrow> m_method rq = Some m \<and> m_url rq = Some p \<and> m_path rq = takeWhile (\<lambda>c. c \<noteq> CHR ''?'') p \<and>
     m_query_map rq = (if CHR ''?'' \<in> set p then parse_query (tl (dropWhile (\<lambda>c. c \<noteq> CHR ''?'') p)) else (\<lambda>_. None)) \<and>
     map hdr_str (m_phr_headers rq) = hs \<and> m_header_len rq = Some (length q) \<and> m_body_len rq = Some n \<and> m_content_type rq = ct_unknown"

lemma deal_loop_chunks:
  assumes "reqblock m p v hs q" "length hs \<le> 32" "length p < npos" "body_length hs n" "CHR ''/'' \<in> set p" "2 ^ 20 \<le> lim"
    "buff_state rq acc" "acc @ concat cs = q @ x" "length acc < length q" "length (acc @ concat cs) < 2 ^ 20" "\<forall>c\<in>set cs. c \<noteq> []"
    "m_query_map rq = (\<lambda>_. None)" "m_content_type rq = ct_unknown"
  shows "\<exists>rq' k. deal_loop lim sse nread (map Data cs) rq = Broke rq' \<and> parsed m p hs q n rq' \<and> hbuf_ok (m_req_buff rq') \<and>
    contents (m_req_buff rq') = acc @ concat (take k cs)"
  using assms(7-)
proof (induction cs arbitrary: acc rq nread)
  case Nil
  then have "length (acc @ concat []) = length (q @ x)" by metis
  then show ?case using Nil by simp
next
  case (Cons c cs)
  have "length (acc @ c) \<le> length (acc @ concat (c # cs))" by simp
  then have len: "length (acc @ c) < 2 ^ 20" using Cons.prems(4) by (rule le_less_trans)
  from read_step_state [OF Cons.prems(1) len assms(6), of nread] obtain q1 b where
    b: "read_step lim (Data c) nread rq = Val (length c, q1)" "update_req_buff_used_size (length c) q1 = rq\<lparr>m_req_buff := b\<rparr>"
      "buff_state (rq\<lparr>m_req_buff := b\<rparr>) (acc @ c)" "read_data 0 (used_mem b) b = Val (acc @ c)" by blast
  let ?rq = "rq\<lparr>m_req_buff := b\<rparr>"
  have c: "length c \<noteq> 0" using Cons.prems(5) by simp
  have step: "deal_loop lim sse nread (map Data (c # cs)) rq =
      (case parse_header sse ?rq of
         Val (q, parse_ret) \<Rightarrow>
           if parse_ret = -2 then deal_loop lim sse (length c) (map Data cs) q else if parse_ret = -1 then Aborted else Broke q
       | _ \<Rightarrow> Crash)"
    using b(1,2,4) c by (simp add: Let_def)
  have con: "contents (m_req_buff ?rq) = acc @ c" using b(3) by (simp add: buff_state_def)
  show ?case
  proof (cases "length q \<le> length (acc @ c)")
    case True
    have "q @ x = (acc @ c) @ concat cs" using Cons.prems(2) by simp
    then obtain x' where x': "acc @ c = q @ x'" using True append_eq_append_conv_if [of q x "acc @ c" "concat cs"] by (metis append_take_drop_id append_eq_append_conv2 append_eq_conv_conj length_append not_less le_antisym append.right_neutral)
    have ql: "length q < 2 ^ 31" using True len by simp
    from parse_header_reqblock [OF assms(1,2) ql con [unfolded x'] assms(3,4), of sse] assms(5) obtain hl where
      hl: "map hdr_str hl = hs" "parse_header sse ?rq = Val
        (?rq\<lparr>m_phr_headers := hl, m_method := Some m, m_url := Some p, m_minor_version := v, m_header_len := Some (length q),
           m_body_len := Some n, m_path := takeWhile (\<lambda>c. c \<noteq> CHR ''?'') p,
           m_query_map := if CHR ''?'' \<in> set p then parse_query (tl (dropWhile (\<lambda>c. c \<noteq> CHR ''?'') p)) else m_query_map rq\<rparr>, int (length q))"
      by (auto simp: Let_def)
    let ?r = "?rq\<lparr>m_phr_headers := hl, m_method := Some m, m_url := Some p, m_minor_version := v, m_header_len := Some (length q),
           m_body_len := Some n, m_path := takeWhile (\<lambda>c. c \<noteq> CHR ''?'') p,
           m_query_map := if CHR ''?'' \<in> set p then parse_query (tl (dropWhile (\<lambda>c. c \<noteq> CHR ''?'') p)) else m_query_map rq\<rparr>"
    have "deal_loop lim sse nread (map Data (c # cs)) rq = Broke ?r" unfolding step hl(2) by simp
    moreover have "parsed m p hs q n ?r" using hl(1) Cons.prems(6,7) by (simp add: parsed_def)
    moreover have "hbuf_ok (m_req_buff ?r)" "contents (m_req_buff ?r) = acc @ concat (take 1 (c # cs))"
      using b(3) by (simp_all add: buff_state_def)
    ultimately show ?thesis by blast
  next
    case False
    have "acc @ c = take (length (acc @ c)) (q @ x)" using Cons.prems(2) by (metis append_assoc append_eq_conv_conj concat.simps(2))
    then have pre: "q = (acc @ c) @ drop (length (acc @ c)) q" using False by (metis append_take_drop_id le_cases take_le_append)
    have "drop (length (acc @ c)) q \<noteq> []" using False by simp
    from prefix_incomplete [OF assms(1,2) pre this, of sse] have
      ph: "parse_header sse ?rq = Val (?rq\<lparr>m_method := None, m_url := None\<rparr>, -2)" using con by (simp add: parse_header_def)
    let ?rq' = "?rq\<lparr>m_method := None, m_url := None\<rparr>"
    have "buff_state ?rq' (acc @ c)" using b(3) by (simp add: buff_state_def)
    from Cons.IH [OF this, of "length c"] False Cons.prems obtain rq' k where
      "deal_loop lim sse (length c) (map Data cs) ?rq' = Broke rq'" "parsed m p hs q n rq'" "hbuf_ok (m_req_buff rq')"
      "contents (m_req_buff rq') = acc @ c @ concat (take k cs)" by auto
    then show ?thesis unfolding step ph by (intro exI [of _ rq'] exI [of _ "Suc k"]) simp
  qed
qed

lemma reqblock_path_length: "reqblock m p v hs q \<Longrightarrow> length p \<le> length q"
  by (induction rule: reqblock.induct) simp

lemma deal_loop_new:
  assumes "reqblock m p v hs q" "length hs \<le> 32" "body_length hs n" "CHR ''/'' \<in> set p" "2 ^ 20 \<le> lim"
    "concat cs = q @ x" "length (q @ x) < 2 ^ 20" "[] \<notin> set cs"
  shows "\<exists>rq k. deal_loop lim sse 0 (map Data cs) request_new = Broke rq \<and> parsed m p hs q n rq \<and> hbuf_ok (m_req_buff rq) \<and>
    contents (m_req_buff rq) = concat (take k cs)"
proof -
  have "length p < npos" using reqblock_path_length [OF assms(1)] assms(7) by (simp add: npos_def)
  moreover have "buff_state request_new []" by (simp add: buff_state_def request_new_def Buffer_new_def contents_def hbuf_ok_def)
  moreover have "0 < length q" using assms(1) by (cases rule: reqblock.cases) auto
  ultimately show ?thesis
    using deal_loop_chunks [OF assms(1,2) _ assms(3,4,5), of request_new "[]" cs x sse 0] assms(6-8)
    by (auto simp: request_new_def)
qed

text \<open>C19: however the network cuts the bytes of a connection into reads, the read loop ends with the same parsed head: method, path,
  query, headers and lengths are those of the request at the beginning of the stream. How much of the body is there depends on the cuts.\<close>

theorem deal_loop_any_chunking:
  assumes "reqblock m p v hs q" "length hs \<le> 32" "body_length hs n" "CHR ''/'' \<in> set p" "2 ^ 20 \<le> lim"
    "concat cs = q @ x" "length (q @ x) < 2 ^ 20" "[] \<notin> set cs"
  shows "\<exists>rq k. deal_loop lim sse 0 (map Data cs) request_new = Broke rq \<and> parsed m p hs q n rq \<and> hbuf_ok (m_req_buff rq) \<and>
    contents (m_req_buff rq) = concat (take k cs)"
  by (rule deal_loop_new [OF assms])

abbreviation hello_request :: string where
  "hello_request \<equiv> ''GET /a HTTP/1.1'' @ [CR, LF] @ ''Host: h'' @ [CR, LF, CR, LF]"

lemma hello_body: "body_length [(Some ''Host'', ''h'')] 0"
  by (simp add: body_length_def hlookup_def iequal_def)

theorem deal_loop_any_chunking_witness:
  "\<exists>rq k. deal_loop 2000000 False 0 (map Data [''GE'', drop 2 (hello_request @ ''next'')]) request_new = Broke rq \<and>
     parsed ''GET'' ''/a'' [(Some ''Host'', ''h'')] hello_request 0 rq \<and> hbuf_ok (m_req_buff rq) \<and>
     contents (m_req_buff rq) = concat (take k [''GE'', drop 2 (hello_request @ ''next'')])"
  by (rule deal_loop_any_chunking [OF reqblock_example _ hello_body, where x = "''next''"]) simp_all

section \<open>Routing and exceptions\<close>

lemma not_found_sent: "res_buff (send_not_found r) = ''HTTP/1.1 404 Not Found'' @ [CR, LF] @ ''Server: rojcpp'' @ [CR, LF, CR, LF]"
  by (simp add: res_buff_def not_found_response)

lemma throw_becomes_404:
  assumes "m_method q = Some mthd" "route mthd (m_path q) rt (q, r) = Raise (Std what) (q', r')" "hbuf_ok (m_res_buff r')"
    "length what < 2 ^ 30"
    "max 32768 (3 * (length (bad_head st_internal_server_error ct_string (length what + 31)) + (length what + 31))) \<le> min lim (2 ^ 62)"
  shows "\<exists>r''. session_route lim rt (q, r) = Done () (q', r'') \<and>
    contents (m_res_buff r'') = bad_head st_internal_server_error ct_string (length what + 31) @ what @ '' exception in business function'' \<and>
    res_buff r'' = ''HTTP/1.1 404 Not Found'' @ [CR, LF] @ ''Server: rojcpp'' @ [CR, LF, CR, LF]"
proof -
  let ?s = "what @ '' exception in business function''"
  have l: "length ?s = length what + 31" by simp
  have "length ?s < 2 ^ 31" using assms(4) unfolding l by simp
  from set_status_and_content_str_Val [OF assms(3) this assms(5) [folded l]] obtain b where
    b: "set_status_and_content_str lim st_internal_server_error ct_string ?s r' = Val (r'\<lparr>m_res_buff := b\<rparr>)"
       "contents b = bad_head st_internal_server_error ct_string (length what + 31) @ ?s" unfolding l by blast
  have "http_handle_check lim rt (q, r) = Done False (q', r'\<lparr>m_res_buff := b\<rparr>)"
    using assms(1,2) b(1) by (simp add: http_handle_check_def lift_response_def)
  then have "session_route lim rt (q, r) = Done () (q', send_not_found (r'\<lparr>m_res_buff := b\<rparr>))"
    by (simp add: session_route_def)
  then show ?thesis using b(2) not_found_sent by (intro exI [of _ "send_not_found (r'\<lparr>m_res_buff := b\<rparr>)"]) (simp add: send_not_found_def)
qed

text \<open>When a handler throws a \<open>std::exception\<close>, the server builds a response 500 and then sends the constant response 404
  instead of it.\<close>

theorem exception_becomes_404:
  assumes "m_method q = Some mthd" "route mthd (m_path q) rt (q, r) = Raise (Std what) (q', r')" "hbuf_ok (m_res_buff r')"
    "length what < 2 ^ 30"
    "max 32768 (3 * (length (bad_head st_internal_server_error ct_string (length what + 31)) + (length what + 31))) \<le> min lim (2 ^ 62)"
  shows "\<exists>r''. session_route lim rt (q, r) = Done () (q', r'') \<and>
    contents (m_res_buff r'') = bad_head st_internal_server_error ct_string (length what + 31) @ what @ '' exception in business function'' \<and>
    res_buff r'' = ''HTTP/1.1 404 Not Found'' @ [CR, LF] @ ''Server: rojcpp'' @ [CR, LF, CR, LF]"
  by (rule throw_becomes_404 [OF assms])

theorem exception_becomes_404_witness:
  "\<exists>r''. session_route 100000 [''/a'' \<mapsto> (replicate 26 (CHR ''x''), \<lambda>s. Raise (Std ''no'') s)]
      (request_new\<lparr>m_method := Some ''GET'', m_path := ''/a''\<rparr>, response_new) =
        Done () (request_new\<lparr>m_method := Some ''GET'', m_path := ''/a''\<rparr>, r'') \<and>
    contents (m_res_buff r'') = bad_head st_internal_server_error ct_string 33 @ ''no exception in business function'' \<and>
    res_buff r'' = ''HTTP/1.1 404 Not Found'' @ [CR, LF] @ ''Server: rojcpp'' @ [CR, LF, CR, LF]"
proof -
  let ?q = "request_new\<lparr>m_method := Some ''GET'', m_path := ''/a''\<rparr>"
  let ?rt = "[''/a'' \<mapsto> (replicate 26 (CHR ''x''), \<lambda>s :: rstate. Raise (Std ''no'') s)] :: rstate router"
  have a: "ccode (CHR ''G'') = 71" by (simp add: ccode_def)
  have r: "route ''GET'' (m_path ?q) ?rt (?q, response_new) = Raise (Std ''no'') (?q, response_new)"
    by (simp add: route_def a)
  have l: "length ''no'' + 31 = 33" by simp
  have "length (decimal 33) = 2" by (subst decimal.simps) (subst decimal.simps, simp)
  then have "length (bad_head st_internal_server_error ct_string 33) < 200"
    by (simp add: bad_head_def to_rep_string_def to_content_type_str_def rep_string_def rep_server_def)
  then have m: "max 32768 (3 * (length (bad_head st_internal_server_error ct_string (length ''no'' + 31)) + (length ''no'' + 31))) \<le> min 100000 (2 ^ 62)"
    unfolding l by simp
  show ?thesis
    using exception_becomes_404 [OF _ r _ _ m] unfolding l by (simp add: response_new_def)
qed

section \<open>From the bytes received to the bytes sent\<close>

lemma send_loop_take: "\<forall>n\<in>set ns. 0 < n \<Longrightarrow> send_loop ns buf = take (sum_list ns) buf"
proof (induction ns arbitrary: buf)
  case (Cons n ns)
  then show ?case by (cases "drop n buf = []") (auto simp: take_add)
qed simp

text \<open>The request a handler gets, and whether it gets it at all: of a request with a body the content type is looked at.\<close>

definition handled_request :: "nat \<Rightarrow> request \<Rightarrow> request" where
  "handled_request n rq = (if n = 0 then rq else set_content_type (get_content_type rq) rq)"

definition body_accepted :: "nat \<Rightarrow> request \<Rightarrow> bool" where
  "body_accepted n rq \<longleftrightarrow> n = 0 \<or> get_content_type rq \<in> {ct_string, ct_json, ct_unknown}"

lemma handle_read_parsed:
  assumes "m_body_len rq = Some n"
  shows "handle_read lim rt (rq, r) =
    (if body_accepted n rq then session_route lim rt (handled_request n rq, r)
     else Raise (Std ''not support content-type'') (handled_request n rq, r))"
  using assms by (auto simp: handle_read_def has_body_def body_accepted_def handled_request_def Let_def)

lemma set_content_type_keeps: "m_method (set_content_type t q) = m_method q \<and> m_path (set_content_type t q) = m_path q"
  by (simp add: set_content_type_def)

lemma handled_request_keeps: "m_method (handled_request n rq) = m_method rq \<and> m_path (handled_request n rq) = m_path rq"
  by (simp add: handled_request_def set_content_type_keeps)

lemma session_route_registered:
  assumes "register_handler ms url f aps rt = Some rt'" "m_method q = Some mthd" "mthd \<noteq> []" "mthd ! 0 \<in> first_letters ms" "m_path q = url"
    "invoke f aps (q, r) = Done () s"
  shows "session_route lim rt' (q, r) = Done () s"
  using register_route_eq [OF assms(1,3)] assms(2,4-6) by (simp add: session_route_def http_handle_check_def)

abbreviation not_found_bytes :: string where
  "not_found_bytes \<equiv> ''HTTP/1.1 404 Not Found'' @ [CR, LF] @ ''Server: rojcpp'' @ [CR, LF, CR, LF]"

text \<open>C20: A request for a URL that is registered with any handler and access points, with or without a body, cut into reads in any way: the
  handler and its access points are run on the parsed request and a new response. When they return, the bytes sent are those of the
  response they built, as far as the portions that \<open>send\<close> takes reach; when they throw a \<open>std::exception\<close> whose message fits into the
  memory, the constant response 404 is sent; and when the request has a body of a content type that is not taken, nothing is sent, for
  the coroutine ends with an exception.\<close>

theorem deal_answers:
  assumes "reqblock m p v hs q" "length hs \<le> 32" "body_length hs n" "CHR ''/'' \<in> set p" "2 ^ 20 \<le> lim"
    "concat cs = q @ x" "length (q @ x) < 2 ^ 20" "[] \<notin> set cs"
    "register_handler ms (takeWhile (\<lambda>c. c \<noteq> CHR ''?'') p) f aps rt = Some rt'" "m ! 0 \<in> first_letters ms" "\<forall>n\<in>set ns. 0 < n"
  shows "\<exists>rq k. parsed m p hs q n rq \<and> hbuf_ok (m_req_buff rq) \<and> contents (m_req_buff rq) = concat (take k cs) \<and>
    (\<not> body_accepted n rq \<longrightarrow> deal lim sse rt' (map Data cs) ns = None) \<and>
    (\<forall>rq' r. body_accepted n rq \<and> invoke f aps (handled_request n rq, response_new) = Done () (rq', r) \<longrightarrow>
       deal lim sse rt' (map Data cs) ns = Some (take (sum_list ns) (res_buff r))) \<and>
    (\<forall>what rq' r. body_accepted n rq \<and> invoke f aps (handled_request n rq, response_new) = Raise (Std what) (rq', r) \<and>
       hbuf_ok (m_res_buff r) \<and> length what < 2 ^ 30 \<and>
       max 32768 (3 * (length (bad_head st_internal_server_error ct_string (length what + 31)) + (length what + 31))) \<le> min lim (2 ^ 62) \<longrightarrow>
       deal lim sse rt' (map Data cs) ns = Some (take (sum_list ns) not_found_bytes))"
proof -
  let ?url = "takeWhile (\<lambda>c. c \<noteq> CHR ''?'') p"
  from deal_loop_new [OF assms(1-8), of sse] obtain rq k where
    rq: "deal_loop lim sse 0 (map Data cs) request_new = Broke rq" "parsed m p hs q n rq" "hbuf_ok (m_req_buff rq)"
      "contents (m_req_buff rq) = concat (take k cs)" by blast
  let ?h = "handled_request n rq"
  have m: "m_method ?h = Some m" "m_path ?h = ?url" "m_body_len rq = Some n"
    using rq(2) by (simp_all add: parsed_def handled_request_keeps)
  have ne: "m \<noteq> []" using assms(1) by (cases rule: reqblock.cases) auto
  have d: "deal lim sse rt' (map Data cs) ns =
      (if body_accepted n rq
       then case session_route lim rt' (?h, response_new) of Done _ s \<Rightarrow> Some (take (sum_list ns) (res_buff (snd s))) | _ \<Rightarrow> None
       else None)"
    using rq(1) handle_read_parsed [OF m(3)] send_loop_take [OF assms(11)] by (simp add: deal_def process_def split: run.split)
  have "deal lim sse rt' (map Data cs) ns = Some (take (sum_list ns) (res_buff r))"
    if "body_accepted n rq \<and> invoke f aps (?h, response_new) = Done () (rq', r)" for rq' r
    using that session_route_registered [OF assms(9) m(1) ne assms(10) m(2)] by (simp add: d)
  moreover have "deal lim sse rt' (map Data cs) ns = Some (take (sum_list ns) not_found_bytes)"
    if "body_accepted n rq \<and> invoke f aps (?h, response_new) = Raise (Std what) (rq', r) \<and>
       hbuf_ok (m_res_buff r) \<and> length what < 2 ^ 30 \<and>
       max 32768 (3 * (length (bad_head st_internal_server_error ct_string (length what + 31)) + (length what + 31))) \<le> min lim (2 ^ 62)" for what rq' r
  proof -
    have "route m (m_path ?h) rt' (?h, response_new) = Raise (Std what) (rq', r)"
      using that register_route_eq [OF assms(9) ne] assms(10) m(2) by simp
    from throw_becomes_404 [OF m(1) this] that obtain r'' where
      "session_route lim rt' (?h, response_new) = Done () (rq', r'')" "res_buff r'' = not_found_bytes" by blast
    then show ?thesis using that by (simp add: d)
  qed
  moreover have "deal lim sse rt' (map Data cs) ns = None" if "\<not> body_accepted n rq" using that by (simp add: d)
  ultimately show ?thesis using rq(2-4) by blast
qed

theorem deal_answers_witness:
  "\<exists>rt' r. register_handler [GET] ''/a''
       (\<lambda>s. case set_status_and_content 2000000 st_ok ct_json ''{}'' (snd s) of Val r \<Rightarrow> Done () (fst s, r) | _ \<Rightarrow> Undef) [] (\<lambda>_. None) = Some rt' \<and>
     set_status_and_content 2000000 st_ok ct_json ''{}'' response_new = Val r \<and>
     deal 2000000 True rt' (map Data [''GE'', drop 2 (hello_request @ ''next'')]) [10, 1000] = Some (take 1010 (res_buff r))"
proof -
  let ?f = "\<lambda>s :: rstate. case set_status_and_content 2000000 st_ok ct_json ''{}'' (snd s) of Val r \<Rightarrow> Done () (fst s, r) | _ \<Rightarrow> Undef"
  let ?cs = "[''GE'', drop 2 (hello_request @ ''next'')]"
  obtain rt' where r: "register_handler [GET] ''/a'' ?f [] (\<lambda>_. None) = Some rt'"
    by (auto simp: register_handler_def get_method_arr_def)
  then have r': "register_handler [GET] (takeWhile (\<lambda>c. c \<noteq> CHR ''?'') ''/a'') ?f [] (\<lambda>_. None) = Some rt'" by simp
  have fl: "''GET'' ! 0 \<in> first_letters [GET]" by (auto simp: first_letters_def intro!: exI [of _ GET])
  have "decimal 2 = [char_of (48 + 2 :: nat)]" by (subst decimal.simps) simp
  then have len: "length (response_head st_ok ct_json 2) < 200"
    by (simp add: response_head_def to_rep_string_def to_content_type_str_def rep_json_def rep_server_def num_to_string_decimal)
  have l: "length ''{}'' = 2" by simp
  have "max 32768 (3 * (length (response_head st_ok ct_json (length ''{}'')) + length ''{}'')) \<le> min 2000000 (2 ^ 62)"
    unfolding l using len by simp
  moreover have "hbuf_ok (m_res_buff response_new)" by (simp add: response_new_def)
  ultimately obtain b where b: "set_status_and_content 2000000 st_ok ct_json ''{}'' response_new = Val (response_new\<lparr>m_res_buff := b\<rparr>)"
    using set_status_and_content_Val [of response_new "''{}''" st_ok ct_json 2000000] by (auto simp del: One_nat_def)
  have "\<exists>rq k. parsed ''GET'' ''/a'' [(Some ''Host'', ''h'')] hello_request 0 rq \<and> hbuf_ok (m_req_buff rq) \<and> contents (m_req_buff rq) = concat (take k ?cs) \<and>
    (\<not> body_accepted 0 rq \<longrightarrow> deal 2000000 True rt' (map Data ?cs) [10, 1000] = None) \<and>
    (\<forall>rq' r. body_accepted 0 rq \<and> invoke ?f [] (handled_request 0 rq, response_new) = Done () (rq', r) \<longrightarrow>
       deal 2000000 True rt' (map Data ?cs) [10, 1000] = Some (take (sum_list [10, 1000]) (res_buff r))) \<and>
    (\<forall>what rq' r. body_accepted 0 rq \<and> invoke ?f [] (handled_request 0 rq, response_new) = Raise (Std what) (rq', r) \<and>
       hbuf_ok (m_res_buff r) \<and> length what < 2 ^ 30 \<and>
       max 32768 (3 * (length (bad_head st_internal_server_error ct_string (length what + 31)) + (length what + 31))) \<le> min 2000000 (2 ^ 62) \<longrightarrow>
       deal 2000000 True rt' (map Data ?cs) [10, 1000] = Some (take (sum_list [10, 1000]) not_found_bytes))"
    by (rule deal_answers [OF reqblock_example _ hello_body _ _ _ _ _ r' fl, where x = "''next''"]) simp_all
  then have "deal 2000000 True rt' (map Data ?cs) [10, 1000] = Some (take 1010 (res_buff (response_new\<lparr>m_res_buff := b\<rparr>)))"
    using b by (auto simp: body_accepted_def handled_request_def invoke_def do_ap_before_def do_after_def)
  then show ?thesis using r b by blast
qed

end
