(* ===== verification/Multipart.thy ===== *)
theory Multipart
  imports HttpBuffer PicoScan
begin

text \<open>
  \<open>netcore::multipart_parser\<close> of \<open>include/multipart_parser.hpp\<close>: a push parser of multipart bodies. The record holds the members of
  the class, \<open>loc\<close> the local variables of \<open>feed\<close>, which shadow some of them. A call of a callback is recorded with its arguments in
  \<open>calls\<close>; callbacks that are null are not called. The memory of \<open>new char[]\<close> has arbitrary contents, a null pointer is the empty
  block. Differences of sizes are unsigned (\<open>usub\<close>); a buffer has less than \<open>2^62\<close> bytes, which no address space has.
\<close>

unbundle bit_operations_syntax

section \<open>Data\<close>

datatype mp_state = PARSE_ERROR | START | START_BOUNDARY | HEADER_FIELD_START | HEADER_FIELD | HEADER_VALUE_START
  | HEADER_VALUE | HEADER_VALUE_ALMOST_DONE | HEADERS_ALMOST_DONE | PART_DATA_START | PART_DATA | PART_END | END

datatype mp_cb = onHeaderField | onHeaderValue | onHeaderEnd | onHeadersEnd | onPartBegin | onPartData | onPartEnd | onEnd

datatype mp_call = Call mp_cb "string option" nat nat

definition HYPHEN :: char where "HYPHEN = CHR ''-''"
definition COLON :: char where "COLON = CHR '':''"
definition SPACE :: char where "SPACE = CHR '' ''"
definition UNMARKED :: nat where "UNMARKED = 2 ^ 64 - 1"
definition PART_BOUNDARY :: "32 word" where "PART_BOUNDARY = 1"
definition LAST_BOUNDARY :: "32 word" where "LAST_BOUNDARY = 2"

record multipart_parser =
  mp_cbs :: "mp_cb \<Rightarrow> bool"
  boundary :: string
  boundarySize :: nat
  boundaryIndex :: "char \<Rightarrow> bool"
  lookbehind :: string
  lookbehindSize :: nat
  mp_state :: mp_state
  mp_flags :: "32 word"
  mp_index :: nat
  headerFieldMark :: nat
  headerValueMark :: nat
  partDataMark :: nat
  errorReason :: string
  calls :: "mp_call list"

record loc =
  l_state :: mp_state
  l_flags :: "32 word"
  l_prev :: nat
  l_index :: nat
  l_i :: nat

section \<open>Construction\<close>

definition mp_reset :: "multipart_parser \<Rightarrow> multipart_parser" where
  "mp_reset m = m\<lparr>mp_state := PARSE_ERROR, boundary := [], boundarySize := 0, lookbehind := [], lookbehindSize := 0,
     mp_flags := 0, mp_index := 0, headerFieldMark := UNMARKED, headerValueMark := UNMARKED, partDataMark := UNMARKED,
     errorReason := ''Parser uninitialized.''\<rparr>"

definition resetCallbacks :: "multipart_parser \<Rightarrow> multipart_parser" where
  "resetCallbacks m = m\<lparr>mp_cbs := (\<lambda>_. False)\<rparr>"

text \<open>The constructors; the memory of the object has arbitrary contents but for the null pointer that they write first.\<close>

definition multipart_parser_new :: "multipart_parser \<Rightarrow> multipart_parser" where
  "multipart_parser_new raw = mp_reset (resetCallbacks (raw\<lparr>lookbehind := []\<rparr>))"

definition indexBoundary :: "multipart_parser \<Rightarrow> multipart_parser" where
  "indexBoundary m = m\<lparr>boundaryIndex := fold (\<lambda>c f. f(c := True)) (boundary m) (\<lambda>_. False)\<rparr>"

definition set_boundary :: "(nat \<Rightarrow> char) \<Rightarrow> string \<Rightarrow> multipart_parser \<Rightarrow> multipart_parser" where
  "set_boundary junk b m =
     (let m = mp_reset m;
          m = m\<lparr>boundary := b, boundarySize := length b\<rparr>;
          m = indexBoundary m
      in m\<lparr>lookbehind := map junk [0..<length b + 8], lookbehindSize := length b + 8, mp_state := START,
           errorReason := ''No error.''\<rparr>)"

definition multipart_parser_of :: "(nat \<Rightarrow> char) \<Rightarrow> string \<Rightarrow> multipart_parser \<Rightarrow> multipart_parser" where
  "multipart_parser_of junk b raw = set_boundary junk b (resetCallbacks (raw\<lparr>lookbehind := []\<rparr>))"

definition succeeded :: "multipart_parser \<Rightarrow> bool" where "succeeded m \<longleftrightarrow> mp_state m = END"
definition has_error :: "multipart_parser \<Rightarrow> bool" where "has_error m \<longleftrightarrow> mp_state m = PARSE_ERROR"
definition stopped :: "multipart_parser \<Rightarrow> bool" where "stopped m \<longleftrightarrow> mp_state m = PARSE_ERROR \<or> mp_state m = END"
definition get_error_message :: "multipart_parser \<Rightarrow> string" where "get_error_message m = errorReason m"

section \<open>Callbacks\<close>

definition mp_callback :: "mp_cb \<Rightarrow> string option \<Rightarrow> nat \<Rightarrow> nat \<Rightarrow> bool \<Rightarrow> multipart_parser \<Rightarrow> multipart_parser" where
  "mp_callback cb buf start stop allowEmpty m =
     (if start \<noteq> UNMARKED \<and> start = stop \<and> \<not> allowEmpty then m
      else if mp_cbs m cb then m\<lparr>calls := calls m @ [Call cb buf start stop]\<rparr> else m)"

abbreviation notify :: "mp_cb \<Rightarrow> multipart_parser \<Rightarrow> multipart_parser" where
  "notify cb \<equiv> mp_callback cb None UNMARKED UNMARKED False"

text \<open>The mark is passed by reference: its new value is returned.\<close>

definition dataCallback ::
  "mp_cb \<Rightarrow> nat \<Rightarrow> string \<Rightarrow> nat \<Rightarrow> nat \<Rightarrow> bool \<Rightarrow> bool \<Rightarrow> multipart_parser \<Rightarrow> nat \<times> multipart_parser" where
  "dataCallback cb mark buf i bufferLen clr allowEmpty m =
     (if mark = UNMARKED then (mark, m)
      else if \<not> clr then (0, mp_callback cb (Some buf) mark bufferLen allowEmpty m)
      else (UNMARKED, mp_callback cb (Some buf) mark i allowEmpty m))"

text \<open>The type \<open>char\<close> is signed.\<close>

definition schar :: "char \<Rightarrow> int" where "schar c = sint (of_char c :: 8 word)"

definition lower :: "char \<Rightarrow> 8 word" where "lower c = of_char c OR 0x20"

definition isHeaderFieldCharacter :: "char \<Rightarrow> bool" where
  "isHeaderFieldCharacter c \<longleftrightarrow>
     97 \<le> schar c \<and> schar c \<le> 122 \<or> 65 \<le> schar c \<and> schar c \<le> 90 \<or> c = HYPHEN"

definition mp_setError :: "string \<Rightarrow> multipart_parser \<Rightarrow> multipart_parser" where
  "mp_setError msg m = m\<lparr>mp_state := PARSE_ERROR, errorReason := msg\<rparr>"

text \<open>\<open>s[k]\<close> of a \<open>std::string\<close>: the element behind the last one is a zero byte.\<close>

definition str_at :: "string \<Rightarrow> nat \<Rightarrow> char res" where
  "str_at s k = (if k < length s then Val (s ! k) else if k = length s then Val (CHR 0x00) else UB)"

section \<open>Part data\<close>

text \<open>The skipping loop; with an empty boundary it does not end (or reads outside the buffer).\<close>

function skip_data :: "multipart_parser \<Rightarrow> string \<Rightarrow> nat \<Rightarrow> nat \<Rightarrow> nat res" where
  "skip_data m buf boundaryEnd i =
     (if boundarySize m = 0 then UB
      else if i + boundarySize m \<le> length buf then
        if boundaryIndex m (buf ! (i + boundaryEnd)) then Val i else skip_data m buf boundaryEnd (i + boundarySize m)
      else Val i)"
  by pat_completeness auto
termination by (relation "measure (\<lambda>(m, buf, boundaryEnd, i). length buf - i)") auto

declare skip_data.simps [simp del]

text \<open>The chain of comparisons of \<open>processPartData\<close>; \<open>True\<close> stands for its returns.\<close>

definition match_boundary :: "string \<Rightarrow> char \<Rightarrow> loc \<Rightarrow> multipart_parser \<Rightarrow> (loc \<times> multipart_parser \<times> bool) res" where
  "match_boundary buf c l m =
     (let ix = l_index l; n = boundarySize m in
      if ix < n then
        rbind (str_at (boundary m) ix) (\<lambda>b.
          if b = c then
            (let (k, m) = if ix = 0 then dataCallback onPartData (partDataMark m) buf (l_i l) (length buf) True False m
                          else (partDataMark m, m)
             in Val (l\<lparr>l_index := ix + 1\<rparr>, m\<lparr>partDataMark := k\<rparr>, False))
          else Val (l\<lparr>l_index := 0\<rparr>, m, False))
      else if ix = n then
        (if c = CR then Val (l\<lparr>l_index := ix + 1, l_flags := l_flags l OR PART_BOUNDARY\<rparr>, m, False)
         else if c = HYPHEN then Val (l\<lparr>l_index := ix + 1, l_flags := l_flags l OR LAST_BOUNDARY\<rparr>, m, False)
         else Val (l\<lparr>l_index := 0\<rparr>, m, False))
      else if usub ix 1 = n then
        (if l_flags l AND PART_BOUNDARY \<noteq> 0 then
           if c = LF then
             Val (l\<lparr>l_index := 0, l_flags := l_flags l AND NOT PART_BOUNDARY, l_state := HEADER_FIELD_START\<rparr>,
                  notify onPartBegin (notify onPartEnd m), True)
           else Val (l\<lparr>l_index := 0\<rparr>, m, False)
         else if l_flags l AND LAST_BOUNDARY \<noteq> 0 then
           if c = HYPHEN then Val (l\<lparr>l_state := END\<rparr>, notify onEnd (notify onPartEnd m), False)
           else Val (l\<lparr>l_index := 0\<rparr>, m, False)
         else Val (l\<lparr>l_index := 0\<rparr>, m, False))
      else if usub ix 2 = n then
        (if c = CR then Val (l\<lparr>l_index := ix + 1\<rparr>, m, False) else Val (l\<lparr>l_index := 0\<rparr>, m, False))
      else if usub ix n = 3 then
        (if c = LF then Val (l\<lparr>l_index := 0, l_state := END\<rparr>, notify onEnd (notify onPartEnd m), True)
         else Val (l\<lparr>l_index := 0\<rparr>, m, False))
      else Val (l, m, False))"

text \<open>The end of \<open>processPartData\<close>: keeping the byte, or giving the false lead to the client.\<close>

definition keep_lookbehind :: "char \<Rightarrow> loc \<Rightarrow> multipart_parser \<Rightarrow> (loc \<times> multipart_parser) res" where
  "keep_lookbehind c l m =
     (if l_index l > 0 then
        if usub (l_index l) 1 \<ge> lookbehindSize m then Throw ''index overflows lookbehind buffer''
        else if usub (l_index l) 1 < 0 then Throw ''index underflows lookbehind buffer''
        else if usub (l_index l) 1 < length (lookbehind m) then
          Val (l, m\<lparr>lookbehind := (lookbehind m)[usub (l_index l) 1 := c]\<rparr>)
        else UB
      else if l_prev l > 0 then
        Val (l\<lparr>l_prev := 0, l_i := usub (l_i l) 1\<rparr>,
             (mp_callback onPartData (Some (lookbehind m)) 0 (l_prev l) False m)\<lparr>partDataMark := l_i l\<rparr>)
      else Val (l, m))"

definition processPartData :: "string \<Rightarrow> nat \<Rightarrow> char \<Rightarrow> loc \<Rightarrow> multipart_parser \<Rightarrow> (loc \<times> multipart_parser) res" where
  "processPartData buf boundaryEnd c l m =
     (let l = l\<lparr>l_prev := l_index l\<rparr> in
      rbind (if l_index l = 0 then skip_data m buf boundaryEnd (l_i l) else Val (l_i l)) (\<lambda>i.
      let l = l\<lparr>l_i := i\<rparr> in
      if l_index l = 0 \<and> i = length buf then Val (l, m)
      else
        let c = (if l_index l = 0 then buf ! i else c) in
        rbind (match_boundary buf c l m) (\<lambda>(l, m, returned).
          if returned then Val (l, m) else keep_lookbehind c l m)))"

section \<open>The state machine\<close>

type_synonym mp_step = "((loc \<times> multipart_parser) + (nat \<times> multipart_parser)) res"

text \<open>\<open>Inl\<close> leaves the switch for the next byte, \<open>Inr\<close> returns from \<open>feed\<close>.\<close>

abbreviation go :: "loc \<Rightarrow> multipart_parser \<Rightarrow> mp_step" where "go l m \<equiv> Val (Inl (l, m))"
abbreviation fail :: "string \<Rightarrow> loc \<Rightarrow> multipart_parser \<Rightarrow> mp_step" where
  "fail msg l m \<equiv> Val (Inr (l_i l, mp_setError msg m))"

definition case_START_BOUNDARY :: "char \<Rightarrow> loc \<Rightarrow> multipart_parser \<Rightarrow> mp_step" where
  "case_START_BOUNDARY c l m =
     (if l_index l = usub (boundarySize m) 2 then
        if c \<noteq> CR then fail ''Malformed. Expected CR after boundary.'' l m
        else go (l\<lparr>l_index := l_index l + 1\<rparr>) m
      else if usub (l_index l) 1 = usub (boundarySize m) 2 then
        if c \<noteq> LF then fail ''Malformed. Expected LF after boundary CR.'' l m
        else go (l\<lparr>l_index := 0, l_state := HEADER_FIELD_START\<rparr>) (notify onPartBegin m)
      else rbind (str_at (boundary m) (l_index l + 2)) (\<lambda>b.
        if c \<noteq> b then fail ''Malformed. Found different boundary data than the given one.'' l m
        else go (l\<lparr>l_index := l_index l + 1\<rparr>) m))"

definition case_HEADER_FIELD :: "string \<Rightarrow> char \<Rightarrow> loc \<Rightarrow> multipart_parser \<Rightarrow> mp_step" where
  "case_HEADER_FIELD buf c l m =
     (if c = CR then go (l\<lparr>l_state := HEADERS_ALMOST_DONE\<rparr>) (m\<lparr>headerFieldMark := UNMARKED\<rparr>)
      else
        let l = l\<lparr>l_index := l_index l + 1\<rparr> in
        if c = HYPHEN then go l m
        else if c = COLON then
          if l_index l = 1 then fail ''Malformed first header name character.'' l m
          else (let (k, m) = dataCallback onHeaderField (headerFieldMark m) buf (l_i l) (length buf) True False m
                in go (l\<lparr>l_state := HEADER_VALUE_START\<rparr>) (m\<lparr>headerFieldMark := k\<rparr>))
        else if sint (lower c) < 97 \<or> sint (lower c) > 122 then fail ''Malformed header name.'' l m
        else go l m)"

definition case_HEADER_VALUE :: "string \<Rightarrow> char \<Rightarrow> loc \<Rightarrow> multipart_parser \<Rightarrow> mp_step" where
  "case_HEADER_VALUE buf c l m =
     (if c = CR then
        let (k, m) = dataCallback onHeaderValue (headerValueMark m) buf (l_i l) (length buf) True True m
        in go (l\<lparr>l_state := HEADER_VALUE_ALMOST_DONE\<rparr>) (notify onHeaderEnd (m\<lparr>headerValueMark := k\<rparr>))
      else go l m)"

definition case_PART_DATA :: "string \<Rightarrow> nat \<Rightarrow> char \<Rightarrow> loc \<Rightarrow> multipart_parser \<Rightarrow> mp_step" where
  "case_PART_DATA buf boundaryEnd c l m =
     rbind (processPartData buf boundaryEnd c l m) (\<lambda>(l, m). go l m)"

definition feed_switch :: "string \<Rightarrow> nat \<Rightarrow> char \<Rightarrow> loc \<Rightarrow> multipart_parser \<Rightarrow> mp_step" where
  "feed_switch buf boundaryEnd c l m =
     (case l_state l of
        PARSE_ERROR \<Rightarrow> Val (Inr (l_i l, m))
      | START \<Rightarrow> case_START_BOUNDARY c (l\<lparr>l_index := 0, l_state := START_BOUNDARY\<rparr>) m
      | START_BOUNDARY \<Rightarrow> case_START_BOUNDARY c l m
      | HEADER_FIELD_START \<Rightarrow>
          case_HEADER_FIELD buf c (l\<lparr>l_state := HEADER_FIELD, l_index := 0\<rparr>) (m\<lparr>headerFieldMark := l_i l\<rparr>)
      | HEADER_FIELD \<Rightarrow> case_HEADER_FIELD buf c l m
      | HEADER_VALUE_START \<Rightarrow>
          if c = SPACE then go l m
          else case_HEADER_VALUE buf c (l\<lparr>l_state := HEADER_VALUE\<rparr>) (m\<lparr>headerValueMark := l_i l\<rparr>)
      | HEADER_VALUE \<Rightarrow> case_HEADER_VALUE buf c l m
      | HEADER_VALUE_ALMOST_DONE \<Rightarrow>
          if c \<noteq> LF then fail ''Malformed header value: LF expected after CR'' l m
          else go (l\<lparr>l_state := HEADER_FIELD_START\<rparr>) m
      | HEADERS_ALMOST_DONE \<Rightarrow>
          if c \<noteq> LF then fail ''Malformed header ending: LF expected after CR'' l m
          else go (l\<lparr>l_state := PART_DATA_START\<rparr>) (notify onHeadersEnd m)
      | PART_DATA_START \<Rightarrow>
          case_PART_DATA buf boundaryEnd c (l\<lparr>l_state := PART_DATA\<rparr>) (m\<lparr>partDataMark := l_i l\<rparr>)
      | PART_DATA \<Rightarrow> case_PART_DATA buf boundaryEnd c l m
      | END \<Rightarrow> go l m
      | PART_END \<Rightarrow> Val (Inr (l_i l, m)))"

subsection \<open>Progress\<close>

text \<open>A byte is consumed, or the index falls to zero and the same byte is looked at again.\<close>

definition progress :: "string \<Rightarrow> loc \<Rightarrow> loc \<Rightarrow> bool" where
  "progress buf l l' \<longleftrightarrow> l_i l \<le> l_i l' \<and> l_i l' \<le> length buf \<or> l_index l > 0 \<and> l_index l' = 0 \<and> l_i l' = usub (l_i l) 1"

lemma usub_less: "b \<le> a \<Longrightarrow> a < 2 ^ 64 \<Longrightarrow> usub a b = a - b"
  by (simp add: usub_def nat_mod_distrib flip: of_nat_diff)

lemma skip_data_bounds: "skip_data m buf e i = Val j \<Longrightarrow> i \<le> length buf \<Longrightarrow> i \<le> j \<and> j \<le> length buf"
proof (induction m buf e i rule: skip_data.induct)
  case (1 m buf e i)
  show ?case
  proof (cases "boundarySize m \<noteq> 0 \<and> i + boundarySize m \<le> length buf \<and> \<not> boundaryIndex m (buf ! (i + e))")
    case True
    then show ?thesis using 1(2) 1(1) [of] by (subst (asm) skip_data.simps) (auto split: if_splits)
  next
    case False
    then show ?thesis using 1(2,3) by (subst (asm) skip_data.simps) (auto split: if_splits)
  qed
qed

lemma match_boundary_i: "match_boundary buf c l m = Val (l', m', r) \<Longrightarrow> l_i l' = l_i l \<and> l_prev l' = l_prev l"
  by (auto simp: match_boundary_def Let_def rbind_eq_Val split: if_splits prod.splits)

lemma keep_lookbehind_i:
  "keep_lookbehind c l m = Val (l', m') \<Longrightarrow> l_i l' = l_i l \<or> l_prev l > 0 \<and> l_index l' = 0 \<and> l_i l' = usub (l_i l) 1"
  by (auto simp: keep_lookbehind_def split: if_splits)

lemma processPartData_progress:
  assumes "processPartData buf e c l m = Val (l', m')" "l_i l < length buf"
  shows "progress buf l l'"
proof -
  define l0 where "l0 = l\<lparr>l_prev := l_index l\<rparr>"
  obtain i where i: "l_i l \<le> i" "i \<le> length buf" "l_index l > 0 \<longrightarrow> i = l_i l"
    and rest: "(if l_index l = 0 \<and> i = length buf then Val (l0\<lparr>l_i := i\<rparr>, m)
      else rbind (match_boundary buf (if l_index l = 0 then buf ! i else c) (l0\<lparr>l_i := i\<rparr>) m) (\<lambda>(l, m, returned).
          if returned then Val (l, m) else keep_lookbehind (if l_index l0 = 0 then buf ! i else c) l m)) = Val (l', m')"
  proof (cases "l_index l = 0")
    case True
    then obtain i where "skip_data m buf e (l_i l) = Val i" "i \<ge> l_i l" "i \<le> length buf"
      using assms skip_data_bounds [of m buf e "l_i l"]
      by (auto simp: processPartData_def Let_def rbind_eq_Val)
    then show ?thesis using assms True
      by (intro that [of i]) (auto simp: processPartData_def Let_def l0_def)
  next
    case False
    then show ?thesis using assms
      by (intro that [of "l_i l"]) (auto simp: processPartData_def Let_def l0_def)
  qed
  show ?thesis
  proof (cases "l_index l = 0 \<and> i = length buf")
    case True
    then show ?thesis using rest i by (auto simp: progress_def)
  next
    case False
    obtain l1 m1 r where 1: "match_boundary buf (if l_index l = 0 then buf ! i else c) (l0\<lparr>l_i := i\<rparr>) m = Val (l1, m1, r)"
      "(if r then Val (l1, m1) else keep_lookbehind (if l_index l0 = 0 then buf ! i else c) l1 m1) = Val (l', m')"
      using rest False unfolding if_not_P [OF False] rbind_eq_Val by (auto simp only: prod.case split_paired_Ex)
    have 2: "l_i l1 = i" "l_prev l1 = l_index l" using match_boundary_i [OF 1(1)] by (simp_all add: l0_def)
    have "l_i l' = i \<or> l_index l > 0 \<and> l_index l' = 0 \<and> l_i l' = usub i 1"
    proof (cases r)
      case False
      then show ?thesis using 1(2) keep_lookbehind_i [of _ l1 m1 l' m'] by (simp only: 2 if_False)
    qed (use 1(2) 2 in simp)
    then show ?thesis using i by (auto simp: progress_def)
  qed
qed

lemma feed_switch_progress:
  assumes "feed_switch buf e c l m = Val (Inl (l', m'))" "l_i l < length buf"
  shows "progress buf l l'"
proof -
  have p: "case_PART_DATA buf e c k n = Val (Inl (l', m')) \<Longrightarrow> l_i k = l_i l \<Longrightarrow> l_index k = l_index l \<Longrightarrow> progress buf l l'" for k n
    using processPartData_progress [of buf e c k n l' m'] assms(2)
    by (auto simp: case_PART_DATA_def rbind_eq_Val progress_def split: prod.splits)
  have "l_i l' = l_i l" if "l_state l \<noteq> PART_DATA" "l_state l \<noteq> PART_DATA_START"
    using assms(1) that
    by (cases "l_state l")
      (auto simp: feed_switch_def case_START_BOUNDARY_def case_HEADER_FIELD_def case_HEADER_VALUE_def Let_def rbind_eq_Val
        split: if_splits prod.splits)
  then show ?thesis using assms p [of l m] p [of "l\<lparr>l_state := PART_DATA\<rparr>" "m\<lparr>partDataMark := l_i l\<rparr>"]
    by (cases "l_state l = PART_DATA \<or> l_state l = PART_DATA_START") (auto simp: feed_switch_def progress_def)
qed

definition size_inc :: "nat \<Rightarrow> nat" where "size_inc i = (i + 1) mod 2 ^ 64"

lemma size_inc_less: "i < 2 ^ 63 \<Longrightarrow> size_inc i = i + 1"
  by (simp add: size_inc_def)

lemma size_inc_dec: "i < 2 ^ 64 \<Longrightarrow> size_inc (usub i 1) = i"
  by (cases "i = 0") (simp_all add: size_inc_def usub_less, simp add: usub_def)

lemma progress_measure:
  assumes "progress buf l l'" "l_i l < length buf" "length buf < 2 ^ 62"
  shows "2 * (length buf - size_inc (l_i l')) + (if l_index l' > 0 then 1 else 0) <
         2 * (length buf - l_i l) + (if l_index l > 0 then 1 else (0::nat))"
  using assms unfolding progress_def
proof (elim disjE conjE)
  assume "l_i l \<le> l_i l'" "l_i l' \<le> length buf"
  moreover from this have "size_inc (l_i l') = l_i l' + 1" using assms(3) by (intro size_inc_less) simp
  ultimately show ?thesis using assms(2) by auto
next
  assume "0 < l_index l" "l_index l' = 0" "l_i l' = usub (l_i l) 1"
  moreover have "size_inc (usub (l_i l) 1) = l_i l" using assms by (intro size_inc_dec) simp
  ultimately show ?thesis by simp
qed

text \<open>The loop of \<open>feed\<close>, from the byte \<open>l_i\<close> on.\<close>

function feed_loop :: "string \<Rightarrow> nat \<Rightarrow> loc \<Rightarrow> multipart_parser \<Rightarrow> mp_step" where
  "feed_loop buf boundaryEnd l m =
     (if l_i l < length buf \<and> length buf < 2 ^ 62 then
        rbind (feed_switch buf boundaryEnd (buf ! l_i l) l m) (\<lambda>r.
          case r of Inr x \<Rightarrow> Val (Inr x) | Inl (l, m) \<Rightarrow> feed_loop buf boundaryEnd (l\<lparr>l_i := size_inc (l_i l)\<rparr>) m)
      else go l m)"
  by pat_completeness auto
termination
proof (relation "measure (\<lambda>(buf, e, l, m). 2 * (length buf - l_i l) + (if l_index l > 0 then 1 else 0))", goal_cases)
  case (2 buf e l m r x l' m')
  then have "progress buf l l'" using feed_switch_progress [of buf e _ l m l' m'] by simp
  then show ?case using 2 progress_measure [of buf l l'] by simp
qed simp

declare feed_loop.simps [simp del]

text \<open>The bytes that a mark still covers go to the client when the buffer ends.\<close>

definition flush_marks :: "string \<Rightarrow> nat \<Rightarrow> multipart_parser \<Rightarrow> multipart_parser" where
  "flush_marks buf i m =
     (let (k, m) = dataCallback onHeaderField (headerFieldMark m) buf i (length buf) False False m;
          m = m\<lparr>headerFieldMark := k\<rparr>;
          (k, m) = dataCallback onHeaderValue (headerValueMark m) buf i (length buf) False False m;
          m = m\<lparr>headerValueMark := k\<rparr>;
          (k, m) = dataCallback onPartData (partDataMark m) buf i (length buf) False False m
      in m\<lparr>partDataMark := k\<rparr>)"

definition mp_feed :: "string \<Rightarrow> multipart_parser \<Rightarrow> (nat \<times> multipart_parser) res" where
  "mp_feed buf m =
     (if mp_state m = PARSE_ERROR \<or> buf = [] then Val (0, m)
      else rbind (feed_loop buf (usub (boundarySize m) 1)
          \<lparr>l_state = mp_state m, l_flags = mp_flags m, l_prev = mp_index m, l_index = mp_index m, l_i = 0\<rparr> m) (\<lambda>r.
        case r of
          Inr x \<Rightarrow> Val x
        | Inl (l, m) \<Rightarrow>
            Val (length buf, (flush_marks buf (l_i l) m)\<lparr>mp_index := l_index l, mp_state := l_state l, mp_flags := l_flags l\<rparr>)))"

end
