(* ===== verification/MultipartRun.thy ===== *)
theory MultipartRun
  imports Multipart
begin

text \<open>
  \<open>feed\<close> against an automaton that takes one byte at a time and knows neither marks nor skipping: the calls of the callbacks, cut
  into bytes, are the tokens of the automaton. So the cuts of the stream do not matter. A header line without a colon is outside the
  automaton: there the index of the parser is left at the length of the line and the part is misread.
\<close>

unbundle bit_operations_syntax

section \<open>The automaton\<close>

datatype tok = Byte mp_cb char | Mark mp_cb

fun tok_cb :: "tok \<Rightarrow> mp_cb" where
  "tok_cb (Byte cb c) = cb"
| "tok_cb (Mark cb) = cb"

fun call_toks :: "mp_call \<Rightarrow> tok list" where
  "call_toks (Call cb (Some b) i j) = map (Byte cb) (take (j - i) (drop i b))"
| "call_toks (Call cb None i j) = [Mark cb]"

definition events :: "multipart_parser \<Rightarrow> tok list" where
  "events m = concat (map call_toks (calls m))"

definition heard :: "(mp_cb \<Rightarrow> bool) \<Rightarrow> tok list \<Rightarrow> tok list" where
  "heard on ts = filter (\<lambda>t. on (tok_cb t)) ts"

lemma heard_simps [simp]:
  "heard on [] = []" "heard on (s @ t) = heard on s @ heard on t"
  "heard on (x # t) = (if on (tok_cb x) then x # heard on t else heard on t)"
  by (simp_all add: heard_def)

lemma heard_bytes: "heard on (map (Byte cb) s) = (if on cb then map (Byte cb) s else [])"
  by (induction s) simp_all

record mpa =
  a_state :: mp_state
  a_flags :: "32 word"
  a_index :: nat
  a_pend :: string

definition a_err :: "mpa \<Rightarrow> (mpa \<times> tok list) option" where "a_err a = Some (a\<lparr>a_state := PARSE_ERROR\<rparr>, [])"

definition a_boundary :: "string \<Rightarrow> mpa \<Rightarrow> char \<Rightarrow> (mpa \<times> tok list) option" where
  "a_boundary b a c =
     (if a_index a = length b - 2 then if c = CR then Some (a\<lparr>a_index := a_index a + 1\<rparr>, []) else a_err a
      else if a_index a = length b - 1 then
        if c = LF then Some (a\<lparr>a_index := 0, a_state := HEADER_FIELD_START\<rparr>, [Mark onPartBegin]) else a_err a
      else if c = b ! (a_index a + 2) then Some (a\<lparr>a_index := a_index a + 1\<rparr>, []) else a_err a)"

definition is_letter :: "char \<Rightarrow> bool" where
  "is_letter c \<longleftrightarrow> \<not> (sint (lower c) < 97 \<or> sint (lower c) > 122)"

definition a_field :: "mpa \<Rightarrow> char \<Rightarrow> (mpa \<times> tok list) option" where
  "a_field a c =
     (if c = CR then if a_index a = 0 then Some (a\<lparr>a_state := HEADERS_ALMOST_DONE\<rparr>, []) else None
      else if c = COLON then if a_index a = 0 then a_err a else Some (a\<lparr>a_state := HEADER_VALUE_START, a_index := a_index a + 1\<rparr>, [])
      else if c = HYPHEN \<or> is_letter c then Some (a\<lparr>a_index := a_index a + 1\<rparr>, [Byte onHeaderField c])
      else a_err a)"

definition a_value :: "mpa \<Rightarrow> char \<Rightarrow> (mpa \<times> tok list) option" where
  "a_value a c =
     (if c = CR then Some (a\<lparr>a_state := HEADER_VALUE_ALMOST_DONE\<rparr>, [Mark onHeaderEnd]) else Some (a, [Byte onHeaderValue c]))"

definition a_match :: "string \<Rightarrow> mpa \<Rightarrow> char \<Rightarrow> (mpa \<times> tok list) option" where
  "a_match b a c =
     (let ix = a_index a; a1 = a\<lparr>a_index := ix + 1, a_pend := a_pend a @ [c]\<rparr> in
      if ix < length b then if b ! ix = c then Some (a1, []) else None
      else if ix = length b then
        if c = CR then Some (a1\<lparr>a_flags := a_flags a OR PART_BOUNDARY\<rparr>, [])
        else if c = HYPHEN then Some (a1\<lparr>a_flags := a_flags a OR LAST_BOUNDARY\<rparr>, []) else None
      else if a_flags a AND PART_BOUNDARY \<noteq> 0 then
        if c = LF then
          Some (a\<lparr>a_state := HEADER_FIELD_START, a_flags := a_flags a AND NOT PART_BOUNDARY, a_index := 0, a_pend := []\<rparr>,
                [Mark onPartEnd, Mark onPartBegin])
        else None
      else if a_flags a AND LAST_BOUNDARY \<noteq> 0 \<and> c = HYPHEN then
        Some (a\<lparr>a_state := END, a_pend := []\<rparr>, [Mark onPartEnd, Mark onEnd])
      else None)"

text \<open>A byte that breaks a match is looked at once more, after the bytes matched so far have been given back.\<close>

definition a_data :: "string \<Rightarrow> mpa \<Rightarrow> char \<Rightarrow> mpa \<times> tok list" where
  "a_data b a c =
     (case a_match b a c of
        Some r \<Rightarrow> r
      | None \<Rightarrow>
          let a0 = a\<lparr>a_index := 0, a_pend := []\<rparr>; t = map (Byte onPartData) (a_pend a) in
          if a_index a = 0 then (a, [Byte onPartData c])
          else case a_match b a0 c of Some (a1, t1) \<Rightarrow> (a1, t @ t1) | None \<Rightarrow> (a0, t @ [Byte onPartData c]))"

definition a_step :: "string \<Rightarrow> mpa \<Rightarrow> char \<Rightarrow> (mpa \<times> tok list) option" where
  "a_step b a c =
     (case a_state a of
        START \<Rightarrow> a_boundary b (a\<lparr>a_index := 0, a_state := START_BOUNDARY\<rparr>) c
      | START_BOUNDARY \<Rightarrow> a_boundary b a c
      | HEADER_FIELD_START \<Rightarrow> a_field (a\<lparr>a_state := HEADER_FIELD, a_index := 0\<rparr>) c
      | HEADER_FIELD \<Rightarrow> a_field a c
      | HEADER_VALUE_START \<Rightarrow> if c = SPACE then Some (a, []) else a_value (a\<lparr>a_state := HEADER_VALUE\<rparr>) c
      | HEADER_VALUE \<Rightarrow> a_value a c
      | HEADER_VALUE_ALMOST_DONE \<Rightarrow> if c = LF then Some (a\<lparr>a_state := HEADER_FIELD_START\<rparr>, []) else a_err a
      | HEADERS_ALMOST_DONE \<Rightarrow> if c = LF then Some (a\<lparr>a_state := PART_DATA_START\<rparr>, [Mark onHeadersEnd]) else a_err a
      | PART_DATA_START \<Rightarrow> Some (a_data b (a\<lparr>a_state := PART_DATA\<rparr>) c)
      | PART_DATA \<Rightarrow> Some (a_data b a c)
      | _ \<Rightarrow> Some (a, []))"

text \<open>The state after a stream, its tokens, and the number of bytes before the first malformed one.\<close>

fun a_run :: "string \<Rightarrow> mpa \<Rightarrow> string \<Rightarrow> (mpa \<times> tok list \<times> nat) option" where
  "a_run b a [] = Some (a, [], 0)"
| "a_run b a (c # s) =
     (case a_step b a c of
        None \<Rightarrow> None
      | Some (a1, t1) \<Rightarrow>
          if a_state a1 = PARSE_ERROR then Some (a1, t1, 0)
          else case a_run b a1 s of None \<Rightarrow> None | Some (a2, t2, k) \<Rightarrow> Some (a2, t1 @ t2, k + 1))"

lemma a_run_append:
  assumes "a_run b a s = Some (a1, t1, k1)" "a_state a1 \<noteq> PARSE_ERROR"
  shows "k1 = length s \<and> a_run b a (s @ r) = (case a_run b a1 r of None \<Rightarrow> None | Some (a2, t2, k) \<Rightarrow> Some (a2, t1 @ t2, length s + k))"
  using assms by (induction s arbitrary: a t1 k1) (auto split: option.splits if_splits prod.splits)

lemma a_run_append_Val:
  "a_run b a s = Some (a1, t1, k1) \<Longrightarrow> a_state a1 \<noteq> PARSE_ERROR \<Longrightarrow> a_run b a1 r = Some (a2, t2, k2) \<Longrightarrow>
   a_run b a (s @ r) = Some (a2, t1 @ t2, length s + k2)"
  using a_run_append [of b a s a1 t1 k1 r] by simp

lemma a_run_append_error:
  assumes "a_run b a s = Some (a1, t1, k1)" "a_state a1 = PARSE_ERROR" "a_state a \<noteq> PARSE_ERROR"
  shows "a_run b a (s @ r) = Some (a1, t1, k1)"
  using assms by (induction s arbitrary: a t1 k1) (auto split: option.splits if_splits prod.splits)

subsection \<open>Skipping\<close>

abbreviation data_at :: "32 word \<Rightarrow> string \<Rightarrow> mpa" where
  "data_at f p \<equiv> \<lparr>a_state = PART_DATA, a_flags = f, a_index = length p, a_pend = p\<rparr>"

text \<open>As long as the boundary does not occur, every byte is given back in order, but for a proper prefix of the boundary.\<close>

lemma a_data_scan:
  assumes "\<nexists>x y. p0 @ s = x @ b @ y" "p0 = take (length p0) b" "length p0 < length b"
  shows "\<exists>p t. a_run b (data_at f p0) s = Some (data_at f p, t, length s) \<and>
    t @ map (Byte onPartData) p = map (Byte onPartData) (p0 @ s) \<and> p = take (length p) b \<and> length p < length b"
  using assms(1)
proof (induction s rule: rev_induct)
  case Nil
  then show ?case using assms by auto
next
  case (snoc c s)
  let ?a = "data_at f"
  have "\<nexists>x y. p0 @ s = x @ b @ y" using snoc(2) by (metis append_assoc)
  then obtain p t where p: "a_run b (?a p0) s = Some (?a p, t, length s)" "t @ map (Byte onPartData) p = map (Byte onPartData) (p0 @ s)"
    "p = take (length p) b" "length p < length b"
    using snoc.IH by auto
  have l: "0 < length b" using p(4) by auto
  have m: "a_match b (?a q) c = (if b ! length q = c then Some (?a (q @ [c]), []) else None)" if "length q < length b" for q
    using that by (simp add: a_match_def)
  have tk: "q @ [c] = take (length (q @ [c])) b" if "q = take (length q) b" "length q < length b" "b ! length q = c" for q
    using that by (simp add: take_Suc_conv_app_nth)
  obtain p' t' where p': "a_data b (?a p) c = (?a p', t')" "t' @ map (Byte onPartData) p' = map (Byte onPartData) (p @ [c])"
    "p' = take (length p') b" "length p' \<le> length b"
  proof (cases "b ! length p = c")
    case True
    then show ?thesis using m [OF p(4)] tk [of p] p(3,4) by (intro that [of "p @ [c]" "[]"]) (simp_all add: a_data_def)
  next
    case False
    consider (a) "p = []" | (b) "p \<noteq> []" "b ! 0 = c" | (c) "p \<noteq> []" "b ! 0 \<noteq> c" by blast
    then show ?thesis
    proof cases
      case a
      then show ?thesis using m [OF p(4)] False by (intro that [of "[]" "[Byte onPartData c]"]) (simp_all add: a_data_def)
    next
      case b
      have "a_data b (?a p) c = (?a [c], map (Byte onPartData) p)"
        using b m [OF p(4)] m [of "[]"] l False by (simp add: a_data_def)
      moreover have "[c] = take (length [c]) b" using b(2) l by (cases b) auto
      moreover have "map (Byte onPartData) p @ map (Byte onPartData) [c] = map (Byte onPartData) (p @ [c])" "length [c] \<le> length b"
        using l by (auto simp: Suc_le_eq)
      ultimately show ?thesis by (intro that [of "[c]" "map (Byte onPartData) p"]) assumption+
    next
      case c
      then show ?thesis using m [OF p(4)] m [of "[]"] l False
        by (intro that [of "[]" "map (Byte onPartData) (p @ [c])"]) (simp_all add: a_data_def)
    qed
  qed
  have t: "map (Byte onPartData) (p0 @ s @ [c]) = (t @ t') @ map (Byte onPartData) p'" using p(2) p'(2) by simp
  then have "length p' \<le> length (p0 @ s @ [c])" by (metis length_append length_map le_add2)
  moreover have "map (Byte onPartData) (drop (length (t @ t')) (p0 @ s @ [c])) = map (Byte onPartData) p'"
    unfolding drop_map [symmetric] t by simp
  then have "drop (length (t @ t')) (p0 @ s @ [c]) = p'" by (rule map_injective) (simp add: inj_def)
  ultimately have "length p' \<noteq> length b" using snoc(2) p'(3)
    by (metis append_Nil2 append_take_drop_id take_all_iff order_refl)
  then have "length p' < length b" using p'(4) by simp
  then show ?case using a_run_append_Val [OF p(1), where r = "[c]"] p'(1,3) t
    by (intro exI [of _ p'] exI [of _ "t @ t'"]) (auto simp: a_step_def)
qed

lemma a_data_short:
  assumes "length s < length b"
  shows "\<exists>p t. a_run b (data_at f []) s = Some (data_at f p, t, length s) \<and>
    t @ map (Byte onPartData) p = map (Byte onPartData) s \<and> length p < length b"
proof -
  have "\<nexists>x y. [] @ s = x @ b @ y" using assms by auto
  then obtain p t where "a_run b (data_at f []) s = Some (data_at f p, t, length s)"
    "t @ map (Byte onPartData) p = map (Byte onPartData) ([] @ s)" "length p < length b"
    using a_data_scan [of "[]" s b f] assms by fastforce
  then show ?thesis by (intro exI conjI) simp_all
qed

lemma a_data_window:
  assumes "length s + 1 = length b" "c \<notin> set b"
  shows "a_run b (data_at f []) (s @ [c]) = Some (data_at f [], map (Byte onPartData) (s @ [c]), length b)"
proof -
  let ?a = "data_at f"
  obtain p t where p: "a_run b (?a []) s = Some (?a p, t, length s)" "t @ map (Byte onPartData) p = map (Byte onPartData) s"
    "length p < length b"
    using a_data_short [of s b f] assms(1) by auto
  have m: "a_match b (?a q) c = None" if "length q < length b" for q
    using that assms(2) by (auto simp: a_match_def Let_def)
  have "a_data b (?a p) c = (?a [], map (Byte onPartData) (p @ [c]))"
  proof -
    have "b \<noteq> []" using assms(1) by auto
    then have "a_match b (?a []) c = None" "a_match b (?a p) c = None"
      using m [of p] m [of "[]"] p(3) by (simp_all add: m)
    then show ?thesis by (cases p) (simp_all add: a_data_def)
  qed
  then show ?thesis using a_run_append_Val [OF p(1), where r = "[c]" and ?a2.0 = "?a []"] p(2) assms(1)
    by (simp add: a_step_def flip: append_assoc)
qed

section \<open>The simulation\<close>

text \<open>The members that do not change, and what they are after \<open>set_boundary\<close>.\<close>

definition mp_static :: "string \<Rightarrow> (mp_cb \<Rightarrow> bool) \<Rightarrow> multipart_parser \<Rightarrow> bool" where
  "mp_static b on m \<longleftrightarrow> boundary m = b \<and> boundarySize m = length b \<and> boundaryIndex m = (\<lambda>c. c \<in> set b) \<and>
     length (lookbehind m) = length b + 8 \<and> lookbehindSize m = length b + 8 \<and> mp_cbs m = on \<and>
     2 \<le> length b \<and> length b < 2 ^ 62"

definition a_ok :: "string \<Rightarrow> mpa \<Rightarrow> bool" where
  "a_ok b a \<longleftrightarrow>
     (case a_state a of
        PARSE_ERROR \<Rightarrow> False
      | PART_END \<Rightarrow> False
      | START_BOUNDARY \<Rightarrow> a_index a < length b \<and> a_pend a = []
      | HEADERS_ALMOST_DONE \<Rightarrow> a_index a = 0 \<and> a_pend a = []
      | PART_DATA_START \<Rightarrow> a_index a = 0 \<and> a_pend a = []
      | PART_DATA \<Rightarrow> a_index a = length (a_pend a) \<and> a_index a \<le> length b + 1
      | _ \<Rightarrow> a_pend a = [])"

text \<open>The bytes of the buffer between a mark and the position, which the client has not seen yet.\<close>

definition since :: "mp_cb \<Rightarrow> nat \<Rightarrow> nat \<Rightarrow> string \<Rightarrow> tok list" where
  "since cb mark i buf = map (Byte cb) (take (i - mark) (drop mark buf))"

definition pending :: "string \<Rightarrow> loc \<Rightarrow> multipart_parser \<Rightarrow> tok list" where
  "pending buf l m =
     (if l_state l = HEADER_FIELD then since onHeaderField (headerFieldMark m) (l_i l) buf
      else if l_state l = HEADER_VALUE then since onHeaderValue (headerValueMark m) (l_i l) buf
      else if l_state l = PART_DATA \<and> l_index l = 0 then since onPartData (partDataMark m) (l_i l) buf
      else [])"

definition marks_ok :: "loc \<Rightarrow> multipart_parser \<Rightarrow> bool" where
  "marks_ok l m \<longleftrightarrow>
     (if l_state l = HEADER_FIELD then headerFieldMark m \<le> l_i l \<and> (l_index l = 0 \<longrightarrow> headerFieldMark m = l_i l) else headerFieldMark m = UNMARKED) \<and>
     (if l_state l = HEADER_VALUE then headerValueMark m \<le> l_i l else headerValueMark m = UNMARKED) \<and>
     (if l_state l = PART_DATA \<and> l_index l = 0 then partDataMark m \<le> l_i l else partDataMark m = UNMARKED)"

definition mp_rel ::
  "string \<Rightarrow> (mp_cb \<Rightarrow> bool) \<Rightarrow> tok list \<Rightarrow> string \<Rightarrow> loc \<Rightarrow> multipart_parser \<Rightarrow> mpa \<Rightarrow> tok list \<Rightarrow> bool" where
  "mp_rel b on es buf l m a ts \<longleftrightarrow> mp_static b on m \<and> a_ok b a \<and> marks_ok l m \<and>
     l_state l = a_state a \<and> l_flags l = a_flags a \<and> l_index l = a_index a \<and>
     (a_state a = PART_DATA \<longrightarrow> take (a_index a) (lookbehind m) = a_pend a) \<and>
     events m @ heard on (pending buf l m) = es @ heard on ts"

text \<open>One turn of the loop does what the automaton does on the bytes it consumes.\<close>

definition turn_sim :: "string \<Rightarrow> (mp_cb \<Rightarrow> bool) \<Rightarrow> tok list \<Rightarrow> string \<Rightarrow> nat \<Rightarrow> mpa \<Rightarrow> tok list \<Rightarrow> mp_step \<Rightarrow> bool" where
  "turn_sim b on es buf i a ts r \<longleftrightarrow> (\<forall>a2 t2 k. a_run b a (drop i buf) = Some (a2, t2, k) \<longrightarrow>
     (case r of
        Val (Inl (l1, m1)) \<Rightarrow>
          \<exists>a1 ts1 t3 k1. let j = size_inc (l_i l1) in
            mp_rel b on es buf (l1\<lparr>l_i := j\<rparr>) m1 a1 ts1 \<and> a_run b a1 (drop j buf) = Some (a2, t3, k1) \<and>
            ts @ t2 = ts1 @ t3 \<and> i + k = min j (length buf) + k1
      | Val (Inr (n, m1)) \<Rightarrow>
          mp_static b on m1 \<and> mp_state m1 = PARSE_ERROR \<and> a_state a2 = PARSE_ERROR \<and> n = i + k \<and>
          (\<exists>x. es @ heard on (ts @ t2) = events m1 @ x)
      | _ \<Rightarrow> False))"

lemma sim_go:
  assumes "i < length buf" "length buf < 2 ^ 62" "a_step b a (buf ! i) = Some (a1, t1)" "l_i l1 = i"
    "mp_rel b on es buf (l1\<lparr>l_i := i + 1\<rparr>) m1 a1 (ts @ t1)"
  shows "turn_sim b on es buf i a ts (go l1 m1)"
proof -
  have i: "size_inc i = i + 1" using assms(1,2) by (intro size_inc_less) simp
  have ne: "a_state a1 \<noteq> PARSE_ERROR" using assms(5) by (auto simp: mp_rel_def a_ok_def)
  have d: "drop i buf = buf ! i # drop (i + 1) buf" using assms(1) by (simp add: Cons_nth_drop_Suc)
  show ?thesis unfolding turn_sim_def
  proof (intro allI impI)
    fix a2 t2 k
    assume r: "a_run b a (drop i buf) = Some (a2, t2, k)"
    then obtain t3 k1 where "a_run b a1 (drop (i + 1) buf) = Some (a2, t3, k1)" "t2 = t1 @ t3" "k = k1 + 1"
      using assms(3) ne unfolding d by (auto split: option.splits)
    then show "case go l1 m1 of Val (Inl (l1, m1)) \<Rightarrow>
          \<exists>a1 ts1 t3 k1. let j = size_inc (l_i l1) in
            mp_rel b on es buf (l1\<lparr>l_i := j\<rparr>) m1 a1 ts1 \<and> a_run b a1 (drop j buf) = Some (a2, t3, k1) \<and>
            ts @ t2 = ts1 @ t3 \<and> i + k = min j (length buf) + k1
      | Val (Inr (n, m1)) \<Rightarrow>
          mp_static b on m1 \<and> mp_state m1 = PARSE_ERROR \<and> a_state a2 = PARSE_ERROR \<and> n = i + k \<and>
          (\<exists>x. es @ heard on (ts @ t2) = events m1 @ x)
      | _ \<Rightarrow> False"
      using assms(1,4,5) i unfolding Let_def
      by simp (rule exI [of _ a1], rule exI [of _ "ts @ t1"], simp)
  qed
qed

lemma events_setError [simp]: "events (mp_setError msg m) = events m"
  by (simp add: events_def mp_setError_def)

lemma state_setError [simp]: "mp_state (mp_setError msg m) = PARSE_ERROR"
  by (simp add: mp_setError_def)

lemma sim_fail:
  assumes "i < length buf" "a_step b a (buf ! i) = Some (a1, t1)" "a_state a1 = PARSE_ERROR"
    "l_i l = i" "mp_static b on m" "es @ heard on ts = events m @ x"
  shows "turn_sim b on es buf i a ts (fail msg l m)"
proof -
  have d: "drop i buf = buf ! i # drop (i + 1) buf" using assms(1) by (simp add: Cons_nth_drop_Suc)
  have "mp_static b on (mp_setError msg m)" using assms(5) by (simp add: mp_static_def mp_setError_def)
  moreover from assms(6) have "es @ heard on (ts @ t1) = events m @ (x @ heard on t1)" using assms(6) by (simp flip: append_assoc)
  then have "\<exists>y. es @ heard on ts @ heard on t1 = events m @ y" by (intro exI [of _ "x @ heard on t1"]) simp
  ultimately show ?thesis using assms(2,3,4) unfolding turn_sim_def d by auto
qed

lemma mp_rel_error_prefix: "mp_rel b on es buf l m a ts \<Longrightarrow> es @ heard on ts = events m @ heard on (pending buf l m)"
  by (simp add: mp_rel_def)

lemma sim_impossible: "a_step b a (buf ! i) = None \<Longrightarrow> i < length buf \<Longrightarrow> turn_sim b on es buf i a ts r"
  unfolding turn_sim_def by (subst Cons_nth_drop_Suc [symmetric]) auto

lemma events_notify: "events (notify cb m) = events m @ heard (mp_cbs m) [Mark cb]"
  by (simp add: events_def mp_callback_def heard_def)

lemma since_Suc: "mark \<le> i \<Longrightarrow> i < length buf \<Longrightarrow> since cb mark (Suc i) buf = since cb mark i buf @ [Byte cb (buf ! i)]"
  by (simp add: since_def Suc_diff_le take_Suc_conv_app_nth)

lemma since_refl [simp]: "since cb i i buf = []"
  by (simp add: since_def)

lemma mp_callback_fields [simp]:
  "mp_static b on (mp_callback cb s i j e m) = mp_static b on m"
  "lookbehind (mp_callback cb s i j e m) = lookbehind m"
  "headerFieldMark (mp_callback cb s i j e m) = headerFieldMark m"
  "headerValueMark (mp_callback cb s i j e m) = headerValueMark m"
  "partDataMark (mp_callback cb s i j e m) = partDataMark m"
  "mp_cbs (mp_callback cb s i j e m) = mp_cbs m"
  by (simp_all add: mp_callback_def mp_static_def)

lemma mp_static_upd [simp]:
  "mp_static b on (m\<lparr>headerFieldMark := k\<rparr>) = mp_static b on m"
  "mp_static b on (m\<lparr>headerValueMark := k\<rparr>) = mp_static b on m"
  "mp_static b on (m\<lparr>partDataMark := k\<rparr>) = mp_static b on m"
  by (simp_all add: mp_static_def)

lemma events_upd [simp]:
  "events (m\<lparr>headerFieldMark := k\<rparr>) = events m"
  "events (m\<lparr>headerValueMark := k\<rparr>) = events m"
  "events (m\<lparr>partDataMark := k\<rparr>) = events m"
  "events (m\<lparr>lookbehind := s\<rparr>) = events m"
  by (simp_all add: events_def)

lemma events_callback:
  "j \<le> length s \<Longrightarrow> start \<noteq> UNMARKED \<Longrightarrow>
   events (mp_callback cb (Some s) start j e m) = events m @ heard (mp_cbs m) (since cb start j s)"
  by (auto simp: mp_callback_def events_def since_def heard_bytes)

end
