(* ===== verification/MultipartSim.thy ===== *)
theory MultipartSim
  imports MultipartRun
begin

lemma mp_static_cbs: "mp_static b on m \<Longrightarrow> mp_cbs m = on"
  by (simp add: mp_static_def)

lemma sim_cong: "a_step b a (buf ! i) = a_step b a' (buf ! i) \<Longrightarrow> i < length buf \<Longrightarrow> turn_sim b on es buf i a ts r = turn_sim b on es buf i a' ts r"
  unfolding turn_sim_def by (subst (1 2) Cons_nth_drop_Suc [symmetric]) auto

lemma sim_START_BOUNDARY:
  assumes "mp_rel b on es buf l m a ts" "l_i l < length buf" "length buf < 2 ^ 62" "l_state l = START_BOUNDARY"
  shows "turn_sim b on es buf (l_i l) a ts (case_START_BOUNDARY (buf ! l_i l) l m)"
proof -
  let ?c = "buf ! l_i l"
  have st: "mp_static b on m" "mp_cbs m = on" and ix: "l_index l = a_index a" "a_index a < length b" "a_state a = START_BOUNDARY" "a_pend a = []"
    and s: "a_step b a ?c = a_boundary b a ?c" and p: "pending buf l m = []"
    and ev: "es @ heard on ts = events m @ []"
    using assms(1,4) by (auto simp: mp_rel_def a_ok_def a_step_def pending_def mp_static_cbs)
  have n: "usub (length b) 2 = length b - 2" "2 \<le> length b" "boundary m = b" "boundarySize m = length b"
    using st by (auto simp: mp_static_def usub_less)
  have fail: "turn_sim b on es buf (l_i l) a ts (fail msg l m)" if "a_boundary b a ?c = a_err a" for msg
    using that s by (intro sim_fail [where ?a1.0 = "a\<lparr>a_state := PARSE_ERROR\<rparr>" and ?t1.0 = "[]" and x = "[]"])
      (use assms st ev in \<open>simp_all add: a_err_def\<close>)
  have go: "turn_sim b on es buf (l_i l) a ts (go (l\<lparr>l_index := a_index a + 1\<rparr>) m)"
    if "a_boundary b a ?c = Some (a\<lparr>a_index := a_index a + 1\<rparr>, [])" "a_index a + 1 < length b"
    using assms that s ix p st
    by (intro sim_go [where ?a1.0 = "a\<lparr>a_index := a_index a + 1\<rparr>" and ?t1.0 = "[]"])
      (simp_all add: mp_rel_def a_ok_def marks_ok_def pending_def)
  have last: "turn_sim b on es buf (l_i l) a ts (go (l\<lparr>l_index := 0, l_state := HEADER_FIELD_START\<rparr>) (notify onPartBegin m))"
    if "a_boundary b a ?c = Some (a\<lparr>a_index := 0, a_state := HEADER_FIELD_START\<rparr>, [Mark onPartBegin])"
    using assms that s ix p st
    by (intro sim_go [where ?a1.0 = "a\<lparr>a_index := 0, a_state := HEADER_FIELD_START\<rparr>" and ?t1.0 = "[Mark onPartBegin]"])
      (simp_all add: mp_rel_def a_ok_def marks_ok_def pending_def events_notify)
  consider (a) "a_index a = length b - 2" | (b) "a_index a = length b - 1" | (c) "a_index a + 2 < length b"
    using ix(2) n(2) by linarith
  then show ?thesis
  proof cases
    case a
    then show ?thesis using fail go n ix by (auto simp: case_START_BOUNDARY_def a_boundary_def)
  next
    case b
    moreover have "usub (length b - 1) 1 = length b - 2" using st by (auto simp: mp_static_def usub_less)
    ultimately show ?thesis using fail last n ix by (auto simp: case_START_BOUNDARY_def a_boundary_def)
  next
    case c
    moreover have "a_index a \<noteq> length b - 2" "a_index a \<noteq> length b - 1" using c by linarith+
    moreover have "usub (a_index a) 1 \<noteq> length b - 2"
      using c st by (cases "a_index a = 0") (auto simp: mp_static_def usub_less, simp add: usub_def)
    ultimately have e: "case_START_BOUNDARY ?c l m = (if ?c \<noteq> b ! (a_index a + 2)
        then fail ''Malformed. Found different boundary data than the given one.'' l m else go (l\<lparr>l_index := a_index a + 1\<rparr>) m)"
      "a_boundary b a ?c = (if ?c = b ! (a_index a + 2) then Some (a\<lparr>a_index := a_index a + 1\<rparr>, []) else a_err a)"
      using n ix(1) c by (simp_all add: case_START_BOUNDARY_def a_boundary_def str_at_def)
    show ?thesis
    proof (cases "?c = b ! (a_index a + 2)")
      case True
      then show ?thesis unfolding e(1) using go e(2) c by simp
    next
      case False
      then show ?thesis unfolding e(1) using fail e(2) by simp
    qed
  qed
qed

lemma mark_unmarked: "mark \<le> i \<Longrightarrow> i < length buf \<Longrightarrow> length buf < 2 ^ 62 \<Longrightarrow> mark \<noteq> UNMARKED"
  by (auto simp: UNMARKED_def)

lemma dataCallback_here:
  assumes "mark \<le> i" "i < length buf" "length buf < 2 ^ 62"
  shows "dataCallback cb mark buf i n True e m = (UNMARKED, mp_callback cb (Some buf) mark i e m)"
  using mark_unmarked [OF assms] by (simp add: dataCallback_def)

lemma sim_HEADER_FIELD:
  assumes "mp_rel b on es buf l m a ts" "l_i l < length buf" "length buf < 2 ^ 62" "l_state l = HEADER_FIELD"
  shows "turn_sim b on es buf (l_i l) a ts (case_HEADER_FIELD buf (buf ! l_i l) l m)"
proof -
  let ?c = "buf ! l_i l" and ?p = "heard on (since onHeaderField (headerFieldMark m) (l_i l) buf)"
  have st: "mp_static b on m" "mp_cbs m = on" and ix: "l_index l = a_index a" "a_state a = HEADER_FIELD" "a_pend a = []"
    and s: "a_step b a ?c = a_field a ?c" and p: "heard on (pending buf l m) = ?p"
    and mk: "headerFieldMark m \<le> l_i l" and ev: "es @ heard on ts = events m @ ?p"
    using assms(1,4) by (auto simp: mp_rel_def a_ok_def a_step_def pending_def marks_ok_def mp_static_cbs)
  have fail: "turn_sim b on es buf (l_i l) a ts (fail msg k m)" if "a_field a ?c = a_err a" "l_i k = l_i l" for msg k
    using that s by (intro sim_fail [where ?a1.0 = "a\<lparr>a_state := PARSE_ERROR\<rparr>" and ?t1.0 = "[]" and x = ?p])
      (use assms st ev in \<open>simp_all add: a_err_def\<close>)
  have next1: "turn_sim b on es buf (l_i l) a ts (go (l\<lparr>l_index := a_index a + 1\<rparr>) m)"
    if "a_field a ?c = Some (a\<lparr>a_index := a_index a + 1\<rparr>, [Byte onHeaderField ?c])"
    using assms that s ix p st
    by (intro sim_go [where ?a1.0 = "a\<lparr>a_index := a_index a + 1\<rparr>" and ?t1.0 = "[Byte onHeaderField ?c]"])
      (auto simp: mp_rel_def a_ok_def marks_ok_def pending_def since_Suc simp flip: append_assoc)
  consider (cr) "?c = CR" "a_index a = 0" | (bad) "?c = CR" "a_index a \<noteq> 0" | (colon0) "?c = COLON" "a_index a = 0"
    | (colon) "?c = COLON" "a_index a \<noteq> 0" | (name) "?c \<noteq> CR" "?c \<noteq> COLON" "?c = HYPHEN \<or> is_letter ?c"
    | (other) "?c \<noteq> CR" "?c \<noteq> COLON" "?c \<noteq> HYPHEN" "\<not> is_letter ?c" by blast
  then show ?thesis
  proof cases
    case cr
    have "turn_sim b on es buf (l_i l) a ts (go (l\<lparr>l_state := HEADERS_ALMOST_DONE\<rparr>) (m\<lparr>headerFieldMark := UNMARKED\<rparr>))"
    proof (rule sim_go [where ?a1.0 = "a\<lparr>a_state := HEADERS_ALMOST_DONE\<rparr>" and ?t1.0 = "[]"])
    qed (use cr assms s ix st in \<open>auto simp: a_field_def mp_rel_def a_ok_def marks_ok_def pending_def\<close>)
    then show ?thesis using cr by (simp add: case_HEADER_FIELD_def)
  next
    case bad
    then show ?thesis using s assms(2) by (intro sim_impossible) (simp_all add: a_field_def)
  next
    case colon0
    then show ?thesis using fail ix by (simp add: case_HEADER_FIELD_def a_field_def COLON_def CR_def HYPHEN_def)
  next
    case colon
    let ?m = "mp_callback onHeaderField (Some buf) (headerFieldMark m) (l_i l) False m"
    have e: "events ?m = es @ heard on ts"
      using assms(2) st ev mark_unmarked [OF mk assms(2,3)] by (subst events_callback) auto
    have "turn_sim b on es buf (l_i l) a ts
        (go (l\<lparr>l_index := a_index a + 1, l_state := HEADER_VALUE_START\<rparr>) (?m\<lparr>headerFieldMark := UNMARKED\<rparr>))"
    proof (rule sim_go [where ?a1.0 = "a\<lparr>a_state := HEADER_VALUE_START, a_index := a_index a + 1\<rparr>" and ?t1.0 = "[]"])
    qed (use colon assms s ix st e in \<open>auto simp: a_field_def mp_rel_def a_ok_def marks_ok_def pending_def COLON_def CR_def\<close>)
    then show ?thesis using colon ix dataCallback_here [OF mk assms(2,3)]
      by (simp add: case_HEADER_FIELD_def COLON_def CR_def HYPHEN_def)
  next
    case name
    then show ?thesis using next1 ix by (auto simp: case_HEADER_FIELD_def a_field_def is_letter_def Let_def)
  next
    case other
    then show ?thesis using fail ix by (auto simp: case_HEADER_FIELD_def a_field_def is_letter_def Let_def)
  qed
qed

lemma sim_HEADER_VALUE:
  assumes "mp_rel b on es buf l m a ts" "l_i l < length buf" "length buf < 2 ^ 62" "l_state l = HEADER_VALUE"
  shows "turn_sim b on es buf (l_i l) a ts (case_HEADER_VALUE buf (buf ! l_i l) l m)"
proof -
  let ?c = "buf ! l_i l" and ?p = "heard on (since onHeaderValue (headerValueMark m) (l_i l) buf)"
  have st: "mp_static b on m" "mp_cbs m = on" and ix: "l_index l = a_index a" "a_state a = HEADER_VALUE" "a_pend a = []"
    and s: "a_step b a ?c = a_value a ?c" and p: "heard on (pending buf l m) = ?p"
    and mk: "headerValueMark m \<le> l_i l" and ev: "es @ heard on ts = events m @ ?p"
    using assms(1,4) by (auto simp: mp_rel_def a_ok_def a_step_def pending_def marks_ok_def mp_static_cbs)
  show ?thesis
  proof (cases "?c = CR")
    case True
    let ?m = "mp_callback onHeaderValue (Some buf) (headerValueMark m) (l_i l) True m"
    have "events ?m = events m @ ?p"
      using assms(2,3) st mark_unmarked [OF mk assms(2,3)] by (subst events_callback) (auto simp: mp_static_def)
    then show ?thesis using True dataCallback_here [OF mk assms(2,3)] assms s ix st ev
      by (simp add: case_HEADER_VALUE_def,
          intro sim_go [where ?a1.0 = "a\<lparr>a_state := HEADER_VALUE_ALMOST_DONE\<rparr>" and ?t1.0 = "[Mark onHeaderEnd]"])
        (auto simp: mp_rel_def a_ok_def marks_ok_def pending_def events_notify a_value_def simp flip: append_assoc)
  next
    case False
    then show ?thesis using assms s ix p st
      by (simp add: case_HEADER_VALUE_def, intro sim_go [where ?a1.0 = a and ?t1.0 = "[Byte onHeaderValue ?c]"])
        (auto simp: mp_rel_def a_ok_def marks_ok_def pending_def since_Suc a_value_def simp flip: append_assoc)
  qed
qed

subsection \<open>Part data\<close>

lemma skip_data_run:
  assumes "mp_static b on m" "i \<le> length buf"
  shows "\<exists>j. skip_data m buf (length b - 1) i = Val j \<and> i \<le> j \<and> j \<le> length buf \<and>
    a_run b (data_at f []) (take (j - i) (drop i buf)) = Some (data_at f [], map (Byte onPartData) (take (j - i) (drop i buf)), j - i)"
  using assms(2)
proof (induction "length buf - i" arbitrary: i rule: less_induct)
  case less
  have n: "boundarySize m = length b" "2 \<le> length b" "boundaryIndex m = (\<lambda>c. c \<in> set b)" using assms by (auto simp: mp_static_def)
  show ?case
  proof (cases "i + length b \<le> length buf \<and> buf ! (i + (length b - 1)) \<notin> set b")
    case False
    moreover have "b \<noteq> []" using n by auto
    ultimately have "skip_data m buf (length b - 1) i = Val i" using n by (subst skip_data.simps) auto
    then show ?thesis using less.prems by auto
  next
    case True
    let ?w = "take (length b) (drop i buf)" and ?k = "i + length b"
    obtain j where j: "skip_data m buf (length b - 1) ?k = Val j" "?k \<le> j" "j \<le> length buf"
      "a_run b (data_at f []) (take (j - ?k) (drop ?k buf)) = Some (data_at f [], map (Byte onPartData) (take (j - ?k) (drop ?k buf)), j - ?k)"
      using less.hyps [of ?k] True n(2) by fastforce
    have "?w = take (length b - 1) ?w @ [buf ! (i + (length b - 1))]"
    proof -
      have "Suc (length b - 1) = length b" "length b - 1 < length (drop i buf)" using n(2) True by auto
      then show ?thesis using take_Suc_conv_app_nth [of "length b - 1" "drop i buf"] True by simp
    qed
    moreover have "length (take (length b - 1) ?w) + 1 = length b" using True n(2) by (auto simp: min_def)
    ultimately have w: "a_run b (data_at f []) ?w = Some (data_at f [], map (Byte onPartData) ?w, length b)"
      using a_data_window [of "take (length b - 1) ?w" b "buf ! (i + (length b - 1))" f] True by metis
    have t: "take (j - i) (drop i buf) = ?w @ take (j - ?k) (drop ?k buf)"
    proof -
      have "j - i = length b + (j - ?k)" using j(2) by simp
      then show ?thesis by (simp add: take_add add.commute)
    qed
    have "skip_data m buf (length b - 1) i = Val j" using True n j(1) by (subst skip_data.simps) (auto intro: gr0I)
    moreover have "a_run b (data_at f []) (take (j - i) (drop i buf)) =
        Some (data_at f [], map (Byte onPartData) (take (j - i) (drop i buf)), j - i)"
    proof -
      have "min (length buf - i) (length b) = length b" using True by (auto simp: min_def)
      then show ?thesis unfolding t using a_run_append_Val [OF w _ j(4)] j(2) by simp
    qed
    ultimately show ?thesis using j(2,3) by auto
  qed
qed

lemma sim_advance:
  assumes "a_run b a (take (j - i) (drop i buf)) = Some (a1, t, j - i)" "a_state a1 \<noteq> PARSE_ERROR" "i \<le> j" "j \<le> length buf"
    "turn_sim b on es buf j a1 (ts @ t) r"
  shows "turn_sim b on es buf i a ts r"
proof -
  have d: "drop i buf = take (j - i) (drop i buf) @ drop j buf"
    using assms(3) by (metis append_take_drop_id drop_drop le_add_diff_inverse2)
  have l: "length (take (j - i) (drop i buf)) = j - i" using assms(3,4) by simp
  show ?thesis unfolding turn_sim_def
  proof (intro allI impI)
    fix a2 t2 k
    assume "a_run b a (drop i buf) = Some (a2, t2, k)"
    then obtain t3 k3 where 3: "a_run b a1 (drop j buf) = Some (a2, t3, k3)" "t2 = t @ t3" "k = j - i + k3"
      using a_run_append [OF assms(1,2), of "drop j buf"] l unfolding d [symmetric]
      by (auto split: option.splits)
    have "i + k = j + k3" using 3(3) assms(3) by simp
    then show "case r of
        Val (Inl (l1, m1)) \<Rightarrow>
          \<exists>a1 ts1 t3 k1. let j = size_inc (l_i l1) in
            mp_rel b on es buf (l1\<lparr>l_i := j\<rparr>) m1 a1 ts1 \<and> a_run b a1 (drop j buf) = Some (a2, t3, k1) \<and>
            ts @ t2 = ts1 @ t3 \<and> i + k = min j (length buf) + k1
      | Val (Inr (n, m1)) \<Rightarrow>
          mp_static b on m1 \<and> mp_state m1 = PARSE_ERROR \<and> a_state a2 = PARSE_ERROR \<and> n = i + k \<and>
          (\<exists>x. es @ heard on (ts @ t2) = events m1 @ x)
      | _ \<Rightarrow> False"
      using assms(5) [unfolded turn_sim_def, rule_format, OF 3(1)] by (simp only: 3(2) append_assoc \<open>i + k = j + k3\<close>)
  qed
qed

lemma match_boundary_None:
  assumes "mp_static b on m" "l_index l = a_index a" "l_flags l = a_flags a" "a_index a \<le> length b + 1" "a_match b a c = None"
  shows "match_boundary buf c l m = Val (l\<lparr>l_index := 0\<rparr>, m, False)"
proof -
  have b: "boundary m = b" "boundarySize m = length b" "length b < 2 ^ 62" using assms(1) by (auto simp: mp_static_def)
  consider "a_index a < length b" | "a_index a = length b" | "a_index a = length b + 1" using assms(4) by linarith
  then show ?thesis
  proof cases
    case 1
    then show ?thesis using assms b by (auto simp: match_boundary_def a_match_def Let_def str_at_def split: if_splits)
  next
    case 2
    then show ?thesis using assms b by (auto simp: match_boundary_def a_match_def Let_def split: if_splits)
  next
    case 3
    then show ?thesis using assms b by (auto simp: match_boundary_def a_match_def Let_def usub_less split: if_splits)
  qed
qed

lemma match_boundary_Some:
  assumes "mp_static b on m" "l_index l = a_index a" "l_flags l = a_flags a" "l_state l = a_state a" "a_state a = PART_DATA"
    "a_index a \<le> length b + 1" "a_match b a c = Some (a1, t)" "length buf < 2 ^ 62" "l_i l < length buf"
    "if l_index l = 0 then partDataMark m \<le> l_i l else partDataMark m = UNMARKED"
  shows "\<exists>m1. match_boundary buf c l m =
      Val (l\<lparr>l_index := a_index a1, l_flags := a_flags a1, l_state := a_state a1\<rparr>, m1, a_state a1 = HEADER_FIELD_START) \<and>
    mp_static b on m1 \<and> lookbehind m1 = lookbehind m \<and> headerFieldMark m1 = headerFieldMark m \<and>
    headerValueMark m1 = headerValueMark m \<and> partDataMark m1 = UNMARKED \<and>
    events m1 = events m @ heard on (pending buf l m) @ heard on t \<and>
    (a_state a1 \<noteq> HEADER_FIELD_START \<longrightarrow> 0 < a_index a1 \<and> a_index a1 \<le> length b + 1)"
proof -
  have b: "boundary m = b" "boundarySize m = length b" "length b < 2 ^ 62" "2 \<le> length b" "mp_cbs m = on"
    using assms(1) by (auto simp: mp_static_def)
  have p: "pending buf l m = (if a_index a = 0 then since onPartData (partDataMark m) (l_i l) buf else [])"
    using assms by (auto simp: pending_def)
  have l0: "l\<lparr>l_state := PART_DATA, l_flags := a_flags a\<rparr> = l" using assms by simp
  consider (start) "a_index a = 0" | (mid) "0 < a_index a" "a_index a < length b" | (full) "a_index a = length b"
    | (more) "a_index a = length b + 1" using assms(6) by linarith
  then show ?thesis
  proof cases
    case start
    let ?m = "mp_callback onPartData (Some buf) (partDataMark m) (l_i l) False m"
    have mk: "partDataMark m \<le> l_i l" using start assms by simp
    have "events ?m = events m @ heard on (since onPartData (partDataMark m) (l_i l) buf)"
      using assms(9) b(5) mark_unmarked [OF mk assms(9,8)] by (subst events_callback) auto
    moreover have "b \<noteq> []" using b(4) by auto
    ultimately show ?thesis using start assms b p dataCallback_here [OF mk assms(9,8)]
      by (auto simp: match_boundary_def a_match_def Let_def str_at_def split: if_splits)
  next
    case mid
    then show ?thesis using assms b p
      by (auto simp: match_boundary_def a_match_def Let_def str_at_def split: if_splits)
  next
    case full
    then show ?thesis using assms b p
      by (auto simp: match_boundary_def a_match_def Let_def split: if_splits)
  next
    case more
    then have "usub (a_index a) 1 = length b" using b by (simp add: usub_less)
    then show ?thesis using more assms b p
      by (auto simp: match_boundary_def a_match_def Let_def events_notify split: if_splits)
  qed
qed

lemma keep_lookbehind_kept:
  assumes "mp_static b on m" "0 < l_index l" "l_index l \<le> length b + 1"
  shows "keep_lookbehind c l m = Val (l, m\<lparr>lookbehind := (lookbehind m)[l_index l - 1 := c]\<rparr>)"
  using assms by (auto simp: keep_lookbehind_def mp_static_def usub_less)

lemma a_data_reconsider:
  "a_match b a c = None \<Longrightarrow> a_index a > 0 \<Longrightarrow>
   a_data b a c = (case a_data b (a\<lparr>a_index := 0, a_pend := []\<rparr>) c of (a1, t) \<Rightarrow> (a1, map (Byte onPartData) (a_pend a) @ t))"
  by (auto simp: a_data_def Let_def split: option.splits)

lemma a_data_state: "a_state a = PART_DATA \<Longrightarrow> a_state (fst (a_data b a c)) \<noteq> PARSE_ERROR"
  by (auto simp: a_data_def a_match_def Let_def split: option.splits)

lemma sim_match:
  assumes "mp_rel b on es buf l m a ts" "l_i l < length buf" "length buf < 2 ^ 62" "l_state l = PART_DATA"
    "a_match b a (buf ! l_i l) = Some (a1, t)"
  shows "turn_sim b on es buf (l_i l) a ts
    (rbind (match_boundary buf (buf ! l_i l) l m) (\<lambda>(l1, m1, returned).
       rbind (if returned then Val (l1, m1) else keep_lookbehind (buf ! l_i l) l1 m1) (\<lambda>(l, m). go l m)))"
proof -
  let ?c = "buf ! l_i l"
  have st: "mp_static b on m" and ix: "l_index l = a_index a" "l_flags l = a_flags a" "a_state a = PART_DATA"
      "a_index a = length (a_pend a)" "a_index a \<le> length b + 1" "l_state l = a_state a"
    and mk: "if l_index l = 0 then partDataMark m \<le> l_i l else partDataMark m = UNMARKED"
    and hm: "headerFieldMark m = UNMARKED" "headerValueMark m = UNMARKED"
    and ev: "events m @ heard on (pending buf l m) = es @ heard on ts" and lb: "take (a_index a) (lookbehind m) = a_pend a"
    using assms(1,4) by (auto simp: mp_rel_def a_ok_def marks_ok_def split: if_splits)
  let ?l = "l\<lparr>l_index := a_index a1, l_flags := a_flags a1, l_state := a_state a1\<rparr>"
  obtain m1 where m1: "match_boundary buf ?c l m = Val (?l, m1, a_state a1 = HEADER_FIELD_START)" "mp_static b on m1"
    "lookbehind m1 = lookbehind m" "headerFieldMark m1 = UNMARKED" "headerValueMark m1 = UNMARKED" "partDataMark m1 = UNMARKED"
    "events m1 = es @ heard on (ts @ t)"
    "a_state a1 \<noteq> HEADER_FIELD_START \<longrightarrow> 0 < a_index a1 \<and> a_index a1 \<le> length b + 1"
    using match_boundary_Some [OF st ix(1,2,6,3,5) assms(5,3,2) mk] hm ev by (auto simp flip: append_assoc)
  have len: "length (lookbehind m) = length b + 8" using st by (simp add: mp_static_def)
  have s: "a_step b a ?c = Some (a1, t)" using assms(5) ix by (simp add: a_step_def a_data_def)
  consider (part) "a_state a1 = HEADER_FIELD_START" "a_pend a1 = []"
    | (fin) "a_state a1 = END" "a_pend a1 = []" | (on) "a_state a1 = PART_DATA" "a_index a1 = a_index a + 1" "a_pend a1 = a_pend a @ [?c]"
    using assms(5) ix(3) by (auto simp: a_match_def Let_def split: if_splits)
  then show ?thesis
  proof cases
    case part
    have "turn_sim b on es buf (l_i l) a ts (go ?l m1)"
      by (rule sim_go [OF assms(2,3) s]) (use part m1 in \<open>auto simp: mp_rel_def a_ok_def marks_ok_def pending_def\<close>)
    then show ?thesis using part m1(1) by simp
  next
    case fin
    have "turn_sim b on es buf (l_i l) a ts (go ?l (m1\<lparr>lookbehind := (lookbehind m1)[l_index ?l - 1 := ?c]\<rparr>))"
      by (rule sim_go [OF assms(2,3) s])
        (use fin m1 len in \<open>auto simp: mp_rel_def a_ok_def marks_ok_def pending_def mp_static_def\<close>)
    then show ?thesis using fin m1(1,8) keep_lookbehind_kept [OF m1(2), of ?l] by simp
  next
    case on
    have i: "a_index a < length (lookbehind m)" using m1(8) on len by simp
    then have "take (a_index a1) ((lookbehind m)[a_index a := ?c]) = a_pend a1"
      using lb on by (simp add: take_Suc_conv_app_nth)
    then have "turn_sim b on es buf (l_i l) a ts (go ?l (m1\<lparr>lookbehind := (lookbehind m1)[l_index ?l - 1 := ?c]\<rparr>))"
      by (intro sim_go [OF assms(2,3) s])
        (use on m1 len ix in \<open>auto simp: mp_rel_def a_ok_def marks_ok_def pending_def mp_static_def\<close>)
    then show ?thesis using on m1(1,8) keep_lookbehind_kept [OF m1(2), of ?l] by simp
  qed
qed

lemma sim_mismatch:
  assumes "mp_rel b on es buf l m a ts" "l_i l < length buf" "length buf < 2 ^ 62" "l_state l = PART_DATA" "l_prev l = l_index l"
    "a_match b a (buf ! l_i l) = None"
  shows "turn_sim b on es buf (l_i l) a ts
    (rbind (match_boundary buf (buf ! l_i l) l m) (\<lambda>(l1, m1, returned).
       rbind (if returned then Val (l1, m1) else keep_lookbehind (buf ! l_i l) l1 m1) (\<lambda>(l, m). go l m)))"
proof -
  let ?c = "buf ! l_i l"
  have st: "mp_static b on m" "mp_cbs m = on" and ix: "l_index l = a_index a" "l_flags l = a_flags a" "a_state a = PART_DATA"
      "a_index a = length (a_pend a)" "a_index a \<le> length b + 1" "l_state l = a_state a"
    and mk: "if l_index l = 0 then partDataMark m \<le> l_i l else partDataMark m = UNMARKED"
    and hm: "headerFieldMark m = UNMARKED" "headerValueMark m = UNMARKED"
    and ev: "events m @ heard on (pending buf l m) = es @ heard on ts" and lb: "take (a_index a) (lookbehind m) = a_pend a"
    using assms(1,4) by (auto simp: mp_rel_def a_ok_def marks_ok_def mp_static_cbs split: if_splits)
  have len: "length (lookbehind m) = length b + 8" using st by (simp add: mp_static_def)
  have mb: "match_boundary buf ?c l m = Val (l\<lparr>l_index := 0\<rparr>, m, False)"
    by (rule match_boundary_None [OF st(1) ix(1,2,5) assms(6)])
  show ?thesis
  proof (cases "a_index a = 0")
    case True
    have "a_step b a ?c = Some (a, [Byte onPartData ?c])" using True assms(6) ix by (simp add: a_step_def a_data_def)
    then have "turn_sim b on es buf (l_i l) a ts (go (l\<lparr>l_index := 0\<rparr>) m)"
      by (rule sim_go [OF assms(2,3)])
        (use True assms ix st mk hm ev in \<open>auto simp: mp_rel_def a_ok_def marks_ok_def pending_def since_Suc simp flip: append_assoc\<close>)
    then show ?thesis using True ix assms(5) by (simp add: mb keep_lookbehind_def)
  next
    case False
    let ?a0 = "a\<lparr>a_index := 0, a_pend := []\<rparr>" and ?d = "map (Byte onPartData) (a_pend a)"
    let ?m = "(mp_callback onPartData (Some (lookbehind m)) 0 (a_index a) False m)\<lparr>partDataMark := l_i l\<rparr>"
    let ?l = "l\<lparr>l_index := 0, l_prev := 0, l_i := usub (l_i l) 1\<rparr>"
    have k: "keep_lookbehind ?c (l\<lparr>l_index := 0\<rparr>) m = Val (?l, ?m)" using False ix assms(5) by (simp add: keep_lookbehind_def)
    have e: "events ?m = es @ heard on (ts @ ?d)"
      using ev False ix lb len st by (simp add: events_callback pending_def since_def UNMARKED_def)
    have j: "size_inc (usub (l_i l) 1) = l_i l" using assms(2,3) by (intro size_inc_dec) simp
    have r: "mp_rel b on es buf (?l\<lparr>l_i := l_i l\<rparr>) ?m ?a0 (ts @ ?d)"
      using False assms(4) ix st hm e by (simp add: mp_rel_def a_ok_def marks_ok_def pending_def)
    have run: "\<exists>t3. a_run b ?a0 (drop (l_i l) buf) = Some (a2, t3, k) \<and> t2 = ?d @ t3"
      if "a_run b a (drop (l_i l) buf) = Some (a2, t2, k)" for a2 t2 k
    proof -
      obtain a1 t1 where 0: "a_data b ?a0 ?c = (a1, t1)" by fastforce
      then have 1: "a_step b a ?c = Some (a1, ?d @ t1)" "a_step b ?a0 ?c = Some (a1, t1)"
        using a_data_reconsider [OF assms(6)] False ix by (simp_all add: a_step_def)
      have "a_state a1 \<noteq> PARSE_ERROR" using a_data_state [of ?a0 b ?c] 0 ix by simp
      then show ?thesis using that 1 assms(2)
        by (subst (asm) Cons_nth_drop_Suc [symmetric], simp, subst Cons_nth_drop_Suc [symmetric])
          (auto split: option.splits if_splits prod.splits)
    qed
    have "turn_sim b on es buf (l_i l) a ts (go ?l ?m)"
      unfolding turn_sim_def
    proof (intro allI impI)
      fix a2 t2 k
      assume "a_run b a (drop (l_i l) buf) = Some (a2, t2, k)"
      then obtain t3 where t3: "a_run b ?a0 (drop (l_i l) buf) = Some (a2, t3, k)" "t2 = ?d @ t3" using run by blast
      have "let j = size_inc (l_i ?l) in
            mp_rel b on es buf (?l\<lparr>l_i := j\<rparr>) ?m ?a0 (ts @ ?d) \<and> a_run b ?a0 (drop j buf) = Some (a2, t3, k) \<and>
            ts @ t2 = (ts @ ?d) @ t3 \<and> l_i l + k = min j (length buf) + k"
        using r t3 assms(2) unfolding Let_def by (simp add: j [unfolded One_nat_def])
      then show "case go ?l ?m of
        Val (Inl (l1, m1)) \<Rightarrow>
          \<exists>a1 ts1 t3 k1. let j = size_inc (l_i l1) in
            mp_rel b on es buf (l1\<lparr>l_i := j\<rparr>) m1 a1 ts1 \<and> a_run b a1 (drop j buf) = Some (a2, t3, k1) \<and>
            ts @ t2 = ts1 @ t3 \<and> l_i l + k = min j (length buf) + k1
      | Val (Inr (n, m1)) \<Rightarrow>
          mp_static b on m1 \<and> mp_state m1 = PARSE_ERROR \<and> a_state a2 = PARSE_ERROR \<and> n = l_i l + k \<and>
          (\<exists>x. es @ heard on (ts @ t2) = events m1 @ x)
      | _ \<Rightarrow> False" by (simp only: res.case sum.case prod.case) blast
    qed
    then show ?thesis by (simp add: mb k)
  qed
qed

lemma mp_rel_prev [simp]: "mp_rel b on es buf (l\<lparr>l_prev := p\<rparr>) m a ts = mp_rel b on es buf l m a ts"
  by (simp add: mp_rel_def marks_ok_def pending_def)

lemma sim_PART_DATA:
  assumes "mp_rel b on es buf l m a ts" "l_i l < length buf" "length buf < 2 ^ 62" "l_state l = PART_DATA"
  shows "turn_sim b on es buf (l_i l) a ts (case_PART_DATA buf (usub (length b) 1) (buf ! l_i l) l m)"
proof -
  have st: "mp_static b on m" and ix: "l_index l = a_index a" "a_state a = PART_DATA" "a_index a = length (a_pend a)"
    using assms(1,4) by (auto simp: mp_rel_def a_ok_def)
  have u: "usub (length b) 1 = length b - 1" using st by (simp add: mp_static_def usub_less)
  let ?l = "l\<lparr>l_prev := l_index l\<rparr>"
  let ?body = "\<lambda>k. rbind (match_boundary buf (buf ! l_i k) k m) (\<lambda>(l, m, returned).
       rbind (if returned then Val (l, m) else keep_lookbehind (buf ! l_i k) l m) (\<lambda>(l, m). go l m))"
  have body: "turn_sim b on es buf (l_i k) a t (?body k)"
    if "mp_rel b on es buf k m a t" "l_i k < length buf" "l_state k = PART_DATA" "l_prev k = l_index k" for k t
    using sim_match [OF that(1,2) assms(3) that(3)] sim_mismatch [OF that(1,2) assms(3) that(3,4)]
    by (cases "a_match b a (buf ! l_i k)") auto
  have assoc: "rbind (rbind x f) g = rbind x (\<lambda>y. rbind (f y) g)" for x :: "'x res" and f :: "'x \<Rightarrow> 'y res" and g :: "'y \<Rightarrow> 'z res"
    by (cases x) simp_all
  have split: "(\<lambda>y. rbind (case y of (l, m, r) \<Rightarrow> F l m r) g) = (\<lambda>(l, m, r). rbind (F l m r) g)"
    for F :: "'p \<Rightarrow> 'q \<Rightarrow> 'r \<Rightarrow> 'y res" and g :: "'y \<Rightarrow> 'z res"
    by auto
  show ?thesis
  proof (cases "a_index a = 0")
    case False
    have "mp_rel b on es buf ?l m a ts" using assms(1) by simp
    then have "turn_sim b on es buf (l_i ?l) a ts (?body ?l)" using assms by (intro body) simp_all
    moreover have "case_PART_DATA buf (length b - 1) (buf ! l_i l) l m = ?body ?l"
      using False ix by (simp add: case_PART_DATA_def processPartData_def Let_def assoc split cong: if_cong)
    ultimately show ?thesis unfolding u by simp
  next
    case True
    have a: "a = data_at (a_flags a) []" using ix True by simp
    obtain j where j: "skip_data m buf (length b - 1) (l_i l) = Val j" "l_i l \<le> j" "j \<le> length buf"
      "a_run b a (take (j - l_i l) (drop (l_i l) buf)) =
        Some (a, map (Byte onPartData) (take (j - l_i l) (drop (l_i l) buf)), j - l_i l)"
      using skip_data_run [OF st, of "l_i l" buf "a_flags a"] assms(2) a by (metis less_imp_le)
    let ?t = "map (Byte onPartData) (take (j - l_i l) (drop (l_i l) buf))"
    let ?k = "?l\<lparr>l_i := j\<rparr>"
    have ext: "since onPartData mk j buf = since onPartData mk (l_i l) buf @ ?t" if "mk \<le> l_i l" for mk
    proof -
      have e: "j - mk = (l_i l - mk) + (j - l_i l)" "(l_i l - mk) + mk = l_i l" using that j(2) by auto
      show ?thesis unfolding since_def e(1) take_add map_append drop_drop e(2) by (rule refl)
    qed
    have rel: "mp_rel b on es buf ?k m a (ts @ ?t)"
      using assms(1,4) True ix j(2) ext [of "partDataMark m"]
      by (auto simp: mp_rel_def marks_ok_def pending_def a_ok_def simp flip: append_assoc)
    have cp: "case_PART_DATA buf (length b - 1) (buf ! l_i l) l m = (if j = length buf then go ?k m else ?body ?k)"
      using True ix j(1) by (simp add: case_PART_DATA_def processPartData_def Let_def assoc split cong: if_cong)
    have "turn_sim b on es buf j a (ts @ ?t) (if j = length buf then go ?k m else ?body ?k)"
    proof (cases "j = length buf")
      case False
      then show ?thesis using body [OF rel] assms(4) j(3) by simp
    next
      case True
      have i: "size_inc j = j + 1" using True assms(3) by (intro size_inc_less) simp
      have "since onPartData mk (j + 1) buf = since onPartData mk j buf" for mk
        using True by (simp add: since_def)
      then have "mp_rel b on es buf (?k\<lparr>l_i := j + 1\<rparr>) m a (ts @ ?t)"
        using rel assms(4) \<open>a_index a = 0\<close> ix by (simp add: mp_rel_def marks_ok_def pending_def)
      then show ?thesis using True i
        unfolding turn_sim_def Let_def
        by simp
    qed
    then show ?thesis using sim_advance [OF j(4) _ j(2,3)] ix u unfolding cp u by simp
  qed
qed

lemma sim_feed_switch:
  assumes "mp_rel b on es buf l m a ts" "l_i l < length buf" "length buf < 2 ^ 62"
  shows "turn_sim b on es buf (l_i l) a ts (feed_switch buf (usub (length b) 1) (buf ! l_i l) l m)"
proof -
  let ?c = "buf ! l_i l"
  note rel = mp_rel_def a_ok_def marks_ok_def pending_def
  have s: "l_state l = a_state a" using assms(1) by (simp add: mp_rel_def)
  have cbs: "mp_cbs m = on" "mp_static b on m" using assms(1) by (auto simp: mp_rel_def mp_static_def)
  show ?thesis
  proof (cases "l_state l")
    case PARSE_ERROR
    then have "a_state a = PARSE_ERROR" using s by simp
    then show ?thesis using assms(1) by (simp add: rel)
  next
    case START
    have "mp_rel b on es buf (l\<lparr>l_index := 0, l_state := START_BOUNDARY\<rparr>) m (a\<lparr>a_index := 0, a_state := START_BOUNDARY\<rparr>) ts"
      using assms(1) START by (auto simp: rel mp_static_def)
    from sim_START_BOUNDARY [OF this] assms(2,3)
    have "turn_sim b on es buf (l_i l) (a\<lparr>a_index := 0, a_state := START_BOUNDARY\<rparr>) ts
        (case_START_BOUNDARY ?c (l\<lparr>l_index := 0, l_state := START_BOUNDARY\<rparr>) m)" by simp
    then show ?thesis using START s assms(2)
      by (subst sim_cong [where a' = "a\<lparr>a_index := 0, a_state := START_BOUNDARY\<rparr>"]) (simp_all add: a_step_def feed_switch_def)
  next
    case START_BOUNDARY
    then show ?thesis using sim_START_BOUNDARY [OF assms] by (simp add: feed_switch_def)
  next
    case HEADER_FIELD_START
    have "mp_rel b on es buf (l\<lparr>l_state := HEADER_FIELD, l_index := 0\<rparr>) (m\<lparr>headerFieldMark := l_i l\<rparr>)
        (a\<lparr>a_state := HEADER_FIELD, a_index := 0\<rparr>) ts"
      using assms(1) HEADER_FIELD_START by (auto simp: rel)
    from sim_HEADER_FIELD [OF this] assms(2,3)
    have "turn_sim b on es buf (l_i l) (a\<lparr>a_state := HEADER_FIELD, a_index := 0\<rparr>) ts
        (case_HEADER_FIELD buf ?c (l\<lparr>l_state := HEADER_FIELD, l_index := 0\<rparr>) (m\<lparr>headerFieldMark := l_i l\<rparr>))" by simp
    then show ?thesis using HEADER_FIELD_START s assms(2)
      by (subst sim_cong [where a' = "a\<lparr>a_state := HEADER_FIELD, a_index := 0\<rparr>"]) (simp_all add: a_step_def feed_switch_def)
  next
    case HEADER_FIELD
    then show ?thesis using sim_HEADER_FIELD [OF assms] by (simp add: feed_switch_def)
  next
    case HEADER_VALUE_START
    show ?thesis
    proof (cases "?c = SPACE")
      case True
      have "turn_sim b on es buf (l_i l) a ts (go l m)"
        by (rule sim_go [OF assms(2,3), where ?t1.0 = "[]"])
          (use True HEADER_VALUE_START s assms(1) in \<open>auto simp: a_step_def rel\<close>)
      then show ?thesis using True HEADER_VALUE_START by (simp add: feed_switch_def)
    next
      case False
      have "mp_rel b on es buf (l\<lparr>l_state := HEADER_VALUE\<rparr>) (m\<lparr>headerValueMark := l_i l\<rparr>) (a\<lparr>a_state := HEADER_VALUE\<rparr>) ts"
        using assms(1) HEADER_VALUE_START by (auto simp: rel)
      from sim_HEADER_VALUE [OF this] assms(2,3)
      have "turn_sim b on es buf (l_i l) (a\<lparr>a_state := HEADER_VALUE\<rparr>) ts
        (case_HEADER_VALUE buf ?c (l\<lparr>l_state := HEADER_VALUE\<rparr>) (m\<lparr>headerValueMark := l_i l\<rparr>))" by simp
      then show ?thesis using HEADER_VALUE_START s assms(2) False
        by (subst sim_cong [where a' = "a\<lparr>a_state := HEADER_VALUE\<rparr>"]) (simp_all add: a_step_def feed_switch_def)
    qed
  next
    case HEADER_VALUE
    then show ?thesis using sim_HEADER_VALUE [OF assms] by (simp add: feed_switch_def)
  next
    case HEADER_VALUE_ALMOST_DONE
    show ?thesis
    proof (cases "?c = LF")
      case True
      have "turn_sim b on es buf (l_i l) a ts (go (l\<lparr>l_state := HEADER_FIELD_START\<rparr>) m)"
        by (rule sim_go [OF assms(2,3), where ?t1.0 = "[]"])
          (use True HEADER_VALUE_ALMOST_DONE s assms(1) in \<open>auto simp: a_step_def rel\<close>)
      then show ?thesis using True HEADER_VALUE_ALMOST_DONE by (simp add: feed_switch_def)
    next
      case False
      have "turn_sim b on es buf (l_i l) a ts (fail msg l m)" for msg
        by (rule sim_fail [OF assms(2), where x = "[]"])
          (use False HEADER_VALUE_ALMOST_DONE s assms(1) in \<open>auto simp: a_step_def a_err_def rel\<close>)
      then show ?thesis using False HEADER_VALUE_ALMOST_DONE by (simp add: feed_switch_def)
    qed
  next
    case HEADERS_ALMOST_DONE
    show ?thesis
    proof (cases "?c = LF")
      case True
      have "turn_sim b on es buf (l_i l) a ts (go (l\<lparr>l_state := PART_DATA_START\<rparr>) (notify onHeadersEnd m))"
        by (rule sim_go [OF assms(2,3), where ?t1.0 = "[Mark onHeadersEnd]"])
          (use True HEADERS_ALMOST_DONE s assms(1) cbs in \<open>auto simp: a_step_def rel events_notify\<close>)
      then show ?thesis using True HEADERS_ALMOST_DONE by (simp add: feed_switch_def)
    next
      case False
      have "turn_sim b on es buf (l_i l) a ts (fail msg l m)" for msg
        by (rule sim_fail [OF assms(2), where x = "[]"])
          (use False HEADERS_ALMOST_DONE s assms(1) in \<open>auto simp: a_step_def a_err_def rel\<close>)
      then show ?thesis using False HEADERS_ALMOST_DONE by (simp add: feed_switch_def)
    qed
  next
    case PART_DATA_START
    have "mp_rel b on es buf (l\<lparr>l_state := PART_DATA\<rparr>) (m\<lparr>partDataMark := l_i l\<rparr>) (a\<lparr>a_state := PART_DATA\<rparr>) ts"
      using assms(1) PART_DATA_START by (auto simp: rel)
    from sim_PART_DATA [OF this] assms(2,3)
    have "turn_sim b on es buf (l_i l) (a\<lparr>a_state := PART_DATA\<rparr>) ts
        (case_PART_DATA buf (usub (length b) 1) ?c (l\<lparr>l_state := PART_DATA\<rparr>) (m\<lparr>partDataMark := l_i l\<rparr>))" by simp
    then show ?thesis using PART_DATA_START s assms(2)
      by (subst sim_cong [where a' = "a\<lparr>a_state := PART_DATA\<rparr>"]) (simp_all add: a_step_def feed_switch_def)
  next
    case PART_DATA
    then show ?thesis using sim_PART_DATA [OF assms] by (simp add: feed_switch_def)
  next
    case PART_END
    then have "a_state a = PART_END" using s by simp
    then show ?thesis using assms(1) by (simp add: rel)
  next
    case END
    have "turn_sim b on es buf (l_i l) a ts (go l m)"
      by (rule sim_go [OF assms(2,3), where ?t1.0 = "[]"])
        (use END s assms(1) in \<open>auto simp: a_step_def rel\<close>)
    then show ?thesis using END by (simp add: feed_switch_def)
  qed
qed

end
