(* ===== verification/FormRun.thy ===== *)
theory FormRun
  imports MultipartRun
begin

text \<open>Printing a form, and the run of the automaton over a printed form.\<close>

unbundle bit_operations_syntax

section \<open>Printing\<close>

type_synonym part = "(string \<times> string) list \<times> string"

definition print_header :: "string \<times> string \<Rightarrow> string" where
  "print_header h = fst h @ [COLON, SPACE] @ snd h @ [CR, LF]"

definition print_part :: "part \<Rightarrow> string" where
  "print_part p = concat (map print_header (fst p)) @ [CR, LF] @ snd p"

text \<open>The first delimiter stands at the beginning of the body, without the line break that opens the boundary.\<close>

definition print_form :: "string \<Rightarrow> part list \<Rightarrow> string" where
  "print_form b ps = drop 2 b @ concat (map (\<lambda>p. [CR, LF] @ print_part p @ b) ps) @ [HYPHEN, HYPHEN]"

definition header_ok :: "string \<times> string \<Rightarrow> bool" where
  "header_ok h \<longleftrightarrow> fst h \<noteq> [] \<and> list_all isHeaderFieldCharacter (fst h) \<and> CR \<notin> set (snd h) \<and> (snd h = [] \<or> hd (snd h) \<noteq> SPACE)"

definition boundary_ok :: "string \<Rightarrow> bool" where
  "boundary_ok b \<longleftrightarrow> 2 \<le> length b \<and> length b < 2 ^ 62 \<and> hd b = CR \<and> CR \<notin> set (tl b)"

definition occurs :: "string \<Rightarrow> string \<Rightarrow> bool" where
  "occurs b s \<longleftrightarrow> (\<exists>x y. s = x @ b @ y)"

definition header_toks :: "string \<times> string \<Rightarrow> tok list" where
  "header_toks h = map (Byte onHeaderField) (fst h) @ map (Byte onHeaderValue) (snd h) @ [Mark onHeaderEnd]"

definition body_toks :: "part \<Rightarrow> tok list" where
  "body_toks p = concat (map header_toks (fst p)) @ [Mark onHeadersEnd] @ map (Byte onPartData) (snd p)"

definition form_toks :: "part list \<Rightarrow> tok list" where
  "form_toks ps = concat (map (\<lambda>p. [Mark onPartBegin] @ body_toks p @ [Mark onPartEnd]) ps) @ [Mark onEnd]"

subsection \<open>Letters\<close>

lemma or_32: "w OR 32 = (if odd (uint w div 32) then w else w + 32)" for w :: "8 word"
proof -
  have "w OR 32 = set_bit 5 w" by (simp add: set_bit_eq_or)
  also have "\<dots> = w + of_bool (\<not> bit w 5) * 32" by (simp add: set_bit_eq)
  also have "bit w 5 = bit (uint w) 5" by (simp add: bit_uint_iff)
  also have "bit (uint w) 5 = odd (uint w div 32)" by (simp add: bit_iff_odd [of "uint w" 5])
  finally show ?thesis by simp
qed

lemma sint_uint8: "sint w = (if uint w < 128 then uint w else uint w - 256)" for w :: "8 word"
proof -
  define u where "u = uint w"
  have u: "0 \<le> u" "u < 256" using uint_lt2p [of w] by (simp_all add: u_def)
  have "sint w = (u + 128) mod 256 - 128"
    by (simp add: sint_uint signed_take_bit_eq_take_bit_shift take_bit_eq_mod u_def)
  moreover have "(u + 128) mod 256 = (if u < 128 then u + 128 else u - 128)"
  proof (cases "u < 128")
    case False
    then have "(u - 128 + 256) mod 256 = u - 128" using u unfolding mod_add_self2 by (intro mod_pos_pos_trivial) auto
    then show ?thesis using False by (simp add: add.commute)
  qed (use u in \<open>simp add: mod_pos_pos_trivial\<close>)
  ultimately show ?thesis by (simp add: u_def [symmetric])
qed

lemma letters: "(97 \<le> sint (w OR 32) \<and> sint (w OR 32) \<le> 122) = (97 \<le> sint w \<and> sint w \<le> 122 \<or> 65 \<le> sint w \<and> sint w \<le> 90)" for w :: "8 word"
proof -
  define q where "q = uint w div 32"
  have u: "0 \<le> uint w" "uint w < 256" using uint_lt2p [of w] by simp_all
  have e: "uint (w + 32) = (uint w + 32) mod 256" by (simp add: uint_word_ariths)
  have q: "32 * q \<le> uint w" "uint w < 32 * q + 32" "0 \<le> q" "q < 8"
    using u div_mult_mod_eq [of "uint w" 32] pos_mod_sign [of 32 "uint w"] pos_mod_bound [of 32 "uint w"]
    unfolding q_def by linarith+
  then consider "q = 0" | "q = 1" | "q = 2" | "q = 3" | "q = 4" | "q = 5" | "q = 6" | "q = 7" by linarith
  then show ?thesis
    unfolding or_32 sint_uint8 q_def [symmetric] using q(1,2) by cases (simp_all add: e)
qed

lemma is_letter_exact: "(c = HYPHEN \<or> is_letter c) = isHeaderFieldCharacter c"
  using letters [of "of_char c"] by (auto simp: is_letter_def isHeaderFieldCharacter_def lower_def schar_def)

lemma field_char_not: "isHeaderFieldCharacter c \<Longrightarrow> c \<noteq> CR \<and> c \<noteq> COLON"
  by (auto simp: isHeaderFieldCharacter_def CR_def COLON_def HYPHEN_def schar_def)

section \<open>Runs without error\<close>

definition runs :: "string \<Rightarrow> mpa \<Rightarrow> string \<Rightarrow> mpa \<Rightarrow> tok list \<Rightarrow> bool" where
  "runs b a s a' t \<longleftrightarrow> a_run b a s = Some (a', t, length s) \<and> a_state a' \<noteq> PARSE_ERROR"

lemma runs_append: "runs b a s a1 t1 \<Longrightarrow> runs b a1 r a2 t2 \<Longrightarrow> runs b a (s @ r) a2 (t1 @ t2)"
  by (simp add: runs_def a_run_append_Val)

lemma runs_Nil: "a_state a \<noteq> PARSE_ERROR \<Longrightarrow> runs b a [] a []"
  by (simp add: runs_def)

lemma runs_Cons: "a_step b a c = Some (a1, t1) \<Longrightarrow> a_state a1 \<noteq> PARSE_ERROR \<Longrightarrow> runs b a1 s a2 t2 \<Longrightarrow> runs b a (c # s) a2 (t1 @ t2)"
  by (simp add: runs_def)

lemma runs_cong: "(\<And>c. a_step b a c = a_step b a' c) \<Longrightarrow> s \<noteq> [] \<Longrightarrow> runs b a s = runs b a' s"
  by (cases s) (auto simp: runs_def fun_eq_iff)

abbreviation at_state :: "mp_state \<Rightarrow> 32 word \<Rightarrow> nat \<Rightarrow> mpa" where
  "at_state s f i \<equiv> \<lparr>a_state = s, a_flags = f, a_index = i, a_pend = []\<rparr>"

lemma runs_boundary:
  "i + 2 \<le> length b \<Longrightarrow> runs b (at_state START_BOUNDARY f i) (drop (i + 2) b @ [CR, LF]) (at_state HEADER_FIELD_START f 0) [Mark onPartBegin]"
proof (induction "length b - i" arbitrary: i)
  case 0
  then show ?case by simp
next
  case (Suc n)
  show ?case
  proof (cases "i + 2 = length b")
    case True
    then show ?thesis by (auto simp: runs_def a_step_def a_boundary_def)
  next
    case False
    then have "i + 2 < length b" using Suc(3) by simp
    then have d: "drop (i + 2) b = b ! (i + 2) # drop (Suc i + 2) b" by (simp add: Cons_nth_drop_Suc)
    have s: "a_step b (at_state START_BOUNDARY f i) (b ! (i + 2)) = Some (at_state START_BOUNDARY f (Suc i), [])"
      using \<open>i + 2 < length b\<close> by (auto simp: a_step_def a_boundary_def)
    show ?thesis unfolding d append_Cons
      using runs_Cons [OF s, of "drop (Suc i + 2) b @ [CR, LF]"] Suc(1) [of "Suc i"] Suc(2) \<open>i + 2 < length b\<close> by simp
  qed
qed

lemma runs_start:
  assumes "2 \<le> length b"
  shows "runs b (at_state START f i) (drop 2 b @ [CR, LF]) (at_state HEADER_FIELD_START f 0) [Mark onPartBegin]"
proof -
  have "runs b (at_state START f i) (drop 2 b @ [CR, LF]) = runs b (at_state START_BOUNDARY f 0) (drop 2 b @ [CR, LF])"
    by (rule runs_cong) (simp_all add: a_step_def)
  then show ?thesis using runs_boundary [of 0 b f, unfolded add_0] assms by (simp only:)
qed

lemma runs_name:
  "list_all isHeaderFieldCharacter k \<Longrightarrow>
   runs b (at_state HEADER_FIELD f n) k (at_state HEADER_FIELD f (n + length k)) (map (Byte onHeaderField) k)"
proof (induction k arbitrary: n)
  case (Cons c k)
  then have c: "c = HYPHEN \<or> is_letter c" "c \<noteq> CR" "c \<noteq> COLON" using field_char_not [of c] by (auto simp: is_letter_exact)
  then have "a_step b (at_state HEADER_FIELD f n) c = Some (at_state HEADER_FIELD f (Suc n), [Byte onHeaderField c])"
    by (simp add: a_step_def a_field_def)
  from runs_Cons [OF this] Cons.IH [of "Suc n"] Cons.prems show ?case by simp
qed (simp add: runs_Nil)

lemma runs_value:
  "CR \<notin> set v \<Longrightarrow> runs b (at_state HEADER_VALUE f n) v (at_state HEADER_VALUE f n) (map (Byte onHeaderValue) v)"
proof (induction v)
  case (Cons c v)
  then have "a_step b (at_state HEADER_VALUE f n) c = Some (at_state HEADER_VALUE f n, [Byte onHeaderValue c])"
    by (auto simp: a_step_def a_value_def)
  from runs_Cons [OF this] Cons show ?case by simp
qed (simp add: runs_Nil)

lemma runs_header:
  assumes "header_ok h"
  shows "\<exists>j. runs b (at_state HEADER_FIELD_START f i) (print_header h) (at_state HEADER_FIELD_START f j) (header_toks h)"
proof -
  let ?n = "length (fst h)" and ?v = "snd h @ [CR, LF]"
  have k: "fst h \<noteq> []" "list_all isHeaderFieldCharacter (fst h)" "CR \<notin> set (snd h)" "snd h = [] \<or> hd (snd h) \<noteq> SPACE"
    using assms by (auto simp: header_ok_def)
  have "runs b (at_state HEADER_FIELD_START f i) (fst h) = runs b (at_state HEADER_FIELD f 0) (fst h)"
    by (rule runs_cong) (use k in \<open>simp_all add: a_step_def\<close>)
  then have 1: "runs b (at_state HEADER_FIELD_START f i) (fst h) (at_state HEADER_FIELD f ?n) (map (Byte onHeaderField) (fst h))"
    using runs_name [OF k(2), of b f 0] by simp
  have 2: "runs b (at_state HEADER_FIELD f ?n) [COLON, SPACE] (at_state HEADER_VALUE_START f (?n + 1)) []"
    using k(1) by (simp add: runs_def a_step_def a_field_def COLON_def CR_def)
  have "CR \<noteq> SPACE" by (simp add: CR_def SPACE_def)
  then obtain c r where v: "?v = c # r" "c \<noteq> SPACE" using k(4) by (cases "snd h") auto
  have 3: "runs b (at_state HEADER_VALUE f (?n + 1)) ?v (at_state HEADER_FIELD_START f (?n + 1))
      (map (Byte onHeaderValue) (snd h) @ [Mark onHeaderEnd])"
    by (rule runs_append [OF runs_value [OF k(3)]]) (simp add: runs_def a_step_def a_value_def)
  moreover have "runs b (at_state HEADER_VALUE_START f (?n + 1)) ?v = runs b (at_state HEADER_VALUE f (?n + 1)) ?v"
    unfolding v(1) using v(2) by (simp add: runs_def a_step_def fun_eq_iff)
  ultimately have 4: "runs b (at_state HEADER_VALUE_START f (?n + 1)) ?v (at_state HEADER_FIELD_START f (?n + 1))
      (map (Byte onHeaderValue) (snd h) @ [Mark onHeaderEnd])" by simp
  show ?thesis using runs_append [OF 1 runs_append [OF 2 4]]
    by (intro exI [of _ "?n + 1"]) (simp add: print_header_def header_toks_def)
qed

lemma runs_headers:
  "list_all header_ok hs \<Longrightarrow>
   \<exists>j. runs b (at_state HEADER_FIELD_START f i) (concat (map print_header hs)) (at_state HEADER_FIELD_START f j) (concat (map header_toks hs))"
proof (induction hs arbitrary: i)
  case (Cons h hs)
  then obtain j where j: "runs b (at_state HEADER_FIELD_START f i) (print_header h) (at_state HEADER_FIELD_START f j) (header_toks h)"
    using runs_header [of h b f i] by auto
  obtain j' where "runs b (at_state HEADER_FIELD_START f j) (concat (map print_header hs)) (at_state HEADER_FIELD_START f j') (concat (map header_toks hs))"
    using Cons by auto
  from runs_append [OF j this] show ?case by auto
qed (auto intro!: exI runs_Nil)

section \<open>Delimiters\<close>

lemma runs_match: "i \<le> length b \<Longrightarrow> runs b (data_at f (take i b)) (drop i b) (data_at f b) []"
proof (induction "length b - i" arbitrary: i)
  case 0
  then show ?case by (simp add: runs_Nil)
next
  case (Suc n)
  then have i: "i < length b" by simp
  then have d: "drop i b = b ! i # drop (Suc i) b" by (simp add: Cons_nth_drop_Suc)
  have "a_step b (data_at f (take i b)) (b ! i) = Some (data_at f (take (Suc i) b), [])"
    using i by (simp add: a_step_def a_data_def a_match_def take_Suc_conv_app_nth)
  from runs_Cons [OF this, of "drop (Suc i) b"] Suc(1) [of "Suc i"] Suc(2) i show ?case unfolding d by simp
qed

lemma runs_delimiter:
  assumes "boundary_ok b" "p = take (length p) b" "length p < length b"
  shows "runs b (data_at f p) b (data_at f b) (map (Byte onPartData) p)"
proof (cases "p = []")
  case True
  then show ?thesis using runs_match [of 0 b f] by simp
next
  case False
  have b: "b = CR # tl b" "CR \<notin> set (tl b)" using assms(1) by (cases b; auto simp: boundary_ok_def)+
  obtain n where n: "length p = Suc n" using False by (cases "length p") auto
  have "b ! length p = tl b ! n" using n b(1) by (metis nth_Cons_Suc)
  moreover have "n < length (tl b)" using assms(3) n by simp
  ultimately have "b ! length p \<noteq> CR" using b(2) by (metis nth_mem)
  moreover have "b ! 0 = CR" by (subst b(1)) simp
  moreover have "b \<noteq> []" using assms(3) by auto
  ultimately have s: "a_step b (data_at f p) CR = Some (data_at f [CR], map (Byte onPartData) p)"
    using False assms(3) by (simp add: a_step_def a_data_def a_match_def Let_def)
  have "take 1 b = [CR]" "drop 1 b = tl b" by (subst b(1), simp)+
  moreover have "1 \<le> length b" using \<open>b \<noteq> []\<close> by (cases b) auto
  ultimately have "runs b (data_at f [CR]) (tl b) (data_at f b) []" using runs_match [of 1 b f] by simp
  from runs_Cons [OF s _ this] have "runs b (data_at f p) (CR # tl b) (data_at f b) (map (Byte onPartData) p)" by simp
  then show ?thesis using b(1) by simp
qed


section \<open>Parts\<close>

lemma runs_scan:
  assumes "\<not> occurs b (p0 @ s)" "p0 = take (length p0) b" "length p0 < length b"
  shows "\<exists>p t. runs b (data_at f p0) s (data_at f p) t \<and> t @ map (Byte onPartData) p = map (Byte onPartData) (p0 @ s) \<and>
    p = take (length p) b \<and> length p < length b"
  using a_data_scan [of p0 s b f] assms by (auto simp: occurs_def runs_def)

lemma runs_until:
  assumes "boundary_ok b" "\<not> occurs b (p0 @ d)" "p0 = take (length p0) b" "length p0 < length b"
  shows "runs b (data_at f p0) (d @ b) (data_at f b) (map (Byte onPartData) (p0 @ d))"
proof -
  obtain p t where p: "runs b (data_at f p0) d (data_at f p) t" "t @ map (Byte onPartData) p = map (Byte onPartData) (p0 @ d)"
    "p = take (length p) b" "length p < length b"
    using runs_scan [OF assms(2-4)] by blast
  show ?thesis using runs_append [OF p(1) runs_delimiter [OF assms(1) p(3,4)]] unfolding p(2) .
qed

lemma boundary_ok_len: "boundary_ok b \<Longrightarrow> 2 \<le> length b \<and> length b < 2 ^ 62 \<and> b \<noteq> []"
  by (auto simp: boundary_ok_def)

lemma runs_head:
  assumes "list_all header_ok hs"
  shows "runs b (at_state HEADER_FIELD_START f i) (concat (map print_header hs) @ [CR, LF]) (at_state PART_DATA_START f 0)
    (concat (map header_toks hs) @ [Mark onHeadersEnd])"
proof -
  obtain j where j: "runs b (at_state HEADER_FIELD_START f i) (concat (map print_header hs)) (at_state HEADER_FIELD_START f j) (concat (map header_toks hs))"
    using runs_headers [OF assms] by blast
  have "runs b (at_state HEADER_FIELD_START f j) [CR, LF] (at_state PART_DATA_START f 0) [Mark onHeadersEnd]"
    by (simp add: runs_def a_step_def a_field_def)
  from runs_append [OF j this] show ?thesis by simp
qed

lemma runs_data_start: "s \<noteq> [] \<Longrightarrow> runs b (at_state PART_DATA_START f 0) s = runs b (data_at f []) s"
  by (rule runs_cong) (simp_all add: a_step_def)

lemma runs_part:
  assumes "boundary_ok b" "list_all header_ok (fst p)" "\<not> occurs b (snd p)"
  shows "runs b (at_state HEADER_FIELD_START f i) (print_part p @ b) (data_at f b) (body_toks p)"
proof -
  have "runs b (data_at f []) (snd p @ b) (data_at f b) (map (Byte onPartData) ([] @ snd p))"
    by (rule runs_until) (use assms boundary_ok_len [of b] in auto)
  then have "runs b (at_state PART_DATA_START f 0) (snd p @ b) (data_at f b) (map (Byte onPartData) (snd p))"
    using runs_data_start [of "snd p @ b" b f] boundary_ok_len [OF assms(1)] by simp
  from runs_append [OF runs_head [OF assms(2)] this] show ?thesis by (simp add: print_part_def body_toks_def)
qed

lemma runs_next: "runs b (data_at 0 b) [CR, LF] (at_state HEADER_FIELD_START 0 0) [Mark onPartEnd, Mark onPartBegin]"
  by (simp add: runs_def a_step_def a_data_def a_match_def PART_BOUNDARY_def)

definition after_form :: "string \<Rightarrow> mpa" where
  "after_form b = at_state END 2 (length b + 1)"

lemma runs_close: "runs b (data_at 0 b) [HYPHEN, HYPHEN] (after_form b) [Mark onPartEnd, Mark onEnd]"
  by (simp add: runs_def a_step_def a_data_def a_match_def PART_BOUNDARY_def LAST_BOUNDARY_def HYPHEN_def CR_def after_form_def)

lemma runs_epilogue: "runs b (after_form b) s (after_form b) []"
proof (induction s)
  case (Cons c s)
  have "a_step b (after_form b) c = Some (after_form b, [])" by (simp add: a_step_def after_form_def)
  from runs_Cons [OF this _ Cons] show ?case by (simp add: after_form_def)
qed (simp add: runs_Nil after_form_def)

definition part_ok :: "string \<Rightarrow> part \<Rightarrow> bool" where
  "part_ok b p \<longleftrightarrow> list_all header_ok (fst p) \<and> \<not> occurs b (snd p)"

lemma runs_parts:
  assumes "boundary_ok b" "list_all (part_ok b) ps"
  shows "runs b (data_at 0 b) (concat (map (\<lambda>p. [CR, LF] @ print_part p @ b) ps)) (data_at 0 b)
    (concat (map (\<lambda>p. [Mark onPartEnd, Mark onPartBegin] @ body_toks p) ps))"
  using assms(2)
proof (induction ps)
  case (Cons p ps)
  have "runs b (at_state HEADER_FIELD_START 0 0) (print_part p @ b) (data_at 0 b) (body_toks p)"
    by (rule runs_part) (use assms(1) Cons.prems in \<open>simp_all add: part_ok_def\<close>)
  from runs_append [OF runs_append [OF runs_next this] Cons.IH] Cons.prems show ?case by simp
qed (simp add: runs_Nil)

lemma toks_regroup:
  "[Mark onPartBegin] @ body_toks p @ concat (map (\<lambda>p. [Mark onPartEnd, Mark onPartBegin] @ body_toks p) ps) @ [Mark onPartEnd, Mark onEnd] =
   form_toks (p # ps)"
  by (induction ps arbitrary: p) (simp_all add: form_toks_def)

lemma runs_form:
  assumes "boundary_ok b" "list_all (part_ok b) ps" "ps \<noteq> []"
  shows "runs b (at_state START 0 0) (print_form b ps @ s) (after_form b) (form_toks ps)"
proof -
  obtain p qs where ps: "ps = p # qs" using assms(3) by (cases ps) auto
  have p: "runs b (at_state HEADER_FIELD_START 0 0) (print_part p @ b) (data_at 0 b) (body_toks p)"
    by (rule runs_part) (use assms ps in \<open>simp_all add: part_ok_def\<close>)
  have start: "runs b (at_state START 0 0) (drop 2 b @ [CR, LF]) (at_state HEADER_FIELD_START 0 0) [Mark onPartBegin]"
    by (rule runs_start) (use boundary_ok_len [OF assms(1)] in simp)
  have qs: "list_all (part_ok b) qs" using assms(2) ps by simp
  note r = runs_append [OF start runs_append [OF p runs_append [OF runs_parts [OF assms(1) qs]
    runs_append [OF runs_close runs_epilogue [where s = s]]]]]
  show ?thesis using r toks_regroup [of p qs] by (simp add: print_form_def ps)
qed

section \<open>A stale flag\<close>

text \<open>After a delimiter that is followed by CR and something else, the flag of the false lead stays set and hides the last delimiter.\<close>

lemma runs_false_lead:
  assumes "boundary_ok b" "\<not> occurs b d1" "c \<noteq> LF" "\<not> occurs b (c # d2)"
  shows "runs b (data_at 0 []) (d1 @ b @ [CR, c] @ d2 @ b @ [HYPHEN, HYPHEN]) (data_at 3 [])
    (map (Byte onPartData) (d1 @ b @ [CR, c] @ d2 @ b @ [HYPHEN, HYPHEN]))"
proof -
  have len: "2 \<le> length b" "b \<noteq> []" "hd b = CR" using assms(1) by (auto simp: boundary_ok_def)
  have b0: "b ! 0 = CR" using len by (simp add: hd_conv_nth)
  have 1: "runs b (data_at 0 []) (d1 @ b) (data_at 0 b) (map (Byte onPartData) ([] @ d1))"
    by (rule runs_until) (use assms len in auto)
  have 2: "runs b (data_at 0 b) [CR] (data_at 1 (b @ [CR])) []"
    by (simp add: runs_def a_step_def a_data_def a_match_def PART_BOUNDARY_def)
  let ?p = "if c = CR then [CR] else []" and ?t = "if c = CR then b @ [CR] else b @ [CR, c]"
  have none: "a_match b (data_at 1 (b @ [CR])) c = None" using assms(3) by (simp add: a_match_def PART_BOUNDARY_def)
  have "a_match b (data_at 1 []) c = (if c = CR then Some (data_at 1 [CR], []) else None)"
    using len b0 by (simp add: a_match_def)
  then have "a_data b (data_at 1 (b @ [CR])) c = (data_at 1 ?p, map (Byte onPartData) ?t)"
    using none by (simp add: a_data_def)
  then have 3: "runs b (data_at 1 (b @ [CR])) [c] (data_at 1 ?p) (map (Byte onPartData) ?t)"
    by (simp add: runs_def a_step_def)
  have nd: "\<not> occurs b d2" using assms(4) unfolding occurs_def by (metis append_Cons)
  have "take 1 b = [CR]" using len b0 by (cases b) auto
  then have p: "?p = take (length ?p) b" "length ?p < length b" "\<not> occurs b (?p @ d2)" using len assms(4) nd by auto
  have 4: "runs b (data_at 1 ?p) (d2 @ b) (data_at 1 b) (map (Byte onPartData) (?p @ d2))"
    by (rule runs_until [OF assms(1) p(3,1,2)])
  have 5: "runs b (data_at 1 b) [HYPHEN, HYPHEN] (data_at 3 []) (map (Byte onPartData) (b @ [HYPHEN, HYPHEN]))"
    using b0 len by (simp add: runs_def a_step_def a_data_def a_match_def PART_BOUNDARY_def LAST_BOUNDARY_def HYPHEN_def CR_def LF_def)
  show ?thesis
    using runs_append [OF 1 runs_append [OF 2 runs_append [OF 3 runs_append [OF 4 5]]]] by (cases "c = CR") simp_all
qed

lemma runs_stale_form:
  assumes "boundary_ok b" "list_all header_ok hs" "\<not> occurs b d1" "c \<noteq> LF" "\<not> occurs b (c # d2)"
  shows "runs b (at_state START 0 0) (print_form b [(hs, d1 @ b @ [CR, c] @ d2)]) (data_at 3 [])
    ([Mark onPartBegin] @ concat (map header_toks hs) @ [Mark onHeadersEnd] @
     map (Byte onPartData) (d1 @ b @ [CR, c] @ d2 @ b @ [HYPHEN, HYPHEN]))"
proof -
  have "runs b (at_state PART_DATA_START 0 0) (d1 @ b @ [CR, c] @ d2 @ b @ [HYPHEN, HYPHEN]) (data_at 3 [])
      (map (Byte onPartData) (d1 @ b @ [CR, c] @ d2 @ b @ [HYPHEN, HYPHEN]))"
    using runs_false_lead [OF assms(1,3,4,5)] by (subst runs_data_start) simp_all
  from runs_append [OF runs_start runs_append [OF runs_head [OF assms(2)] this]] boundary_ok_len [OF assms(1)]
  show ?thesis by (simp add: print_form_def print_part_def)
qed

end
