(* ===== verification/MultipartSafe.thy ===== *)
theory MultipartSafe
  imports MultipartRun
begin

text \<open>
  Whatever the bytes are, header lines without a colon included: \<open>feed\<close> reads and writes inside its blocks, and every range that
  it gives to a callback lies inside the block that it gives with it. It may throw.
\<close>

unbundle bit_operations_syntax

fun call_ok :: "mp_call \<Rightarrow> bool" where
  "call_ok (Call cb (Some s) i j) \<longleftrightarrow> i \<le> j \<and> j \<le> length s"
| "call_ok (Call cb None i j) \<longleftrightarrow> True"

definition mark_ok :: "nat \<Rightarrow> string \<Rightarrow> nat \<Rightarrow> bool" where
  "mark_ok i buf mark \<longleftrightarrow> mark = UNMARKED \<or> mark \<le> i \<and> mark \<le> length buf"

definition calls_ok :: "string \<Rightarrow> (mp_cb \<Rightarrow> bool) \<Rightarrow> multipart_parser \<Rightarrow> bool" where
  "calls_ok b on m \<longleftrightarrow> mp_static b on m \<and> list_all call_ok (calls m)"

definition marks_in :: "nat \<Rightarrow> string \<Rightarrow> multipart_parser \<Rightarrow> bool" where
  "marks_in i buf m \<longleftrightarrow> mark_ok i buf (headerFieldMark m) \<and> mark_ok i buf (headerValueMark m) \<and> mark_ok i buf (partDataMark m)"

definition mp_live :: "string \<Rightarrow> mp_state \<Rightarrow> nat \<Rightarrow> bool" where
  "mp_live b s ix \<longleftrightarrow> s \<noteq> PARSE_ERROR \<and> s \<noteq> PART_END \<and> (s = START_BOUNDARY \<longrightarrow> ix < length b)"

text \<open>The invariant at the head of the loop; \<open>K\<close> is the index before the call.\<close>

definition loop_inv :: "string \<Rightarrow> (mp_cb \<Rightarrow> bool) \<Rightarrow> nat \<Rightarrow> string \<Rightarrow> nat \<Rightarrow> loc \<Rightarrow> multipart_parser \<Rightarrow> bool" where
  "loop_inv b on K buf i l m \<longleftrightarrow> calls_ok b on m \<and> mp_live b (l_state l) (l_index l) \<and> l_index l \<le> K + min i (length buf) \<and>
     marks_in i buf m"

definition step_safe :: "string \<Rightarrow> (mp_cb \<Rightarrow> bool) \<Rightarrow> nat \<Rightarrow> string \<Rightarrow> mp_step \<Rightarrow> bool" where
  "step_safe b on K buf r \<longleftrightarrow>
     (case r of
        Val (Inl (l, m)) \<Rightarrow> loop_inv b on K buf (size_inc (l_i l)) l m
      | Val (Inr (n, m)) \<Rightarrow> n < length buf \<and> calls_ok b on m \<and> mp_state m = PARSE_ERROR
      | Throw e \<Rightarrow> True
      | UB \<Rightarrow> False)"

lemma step_safe_simps [simp]:
  "step_safe b on K buf (go l m) \<longleftrightarrow> loop_inv b on K buf (size_inc (l_i l)) l m"
  "step_safe b on K buf (Val (Inr (n, m))) \<longleftrightarrow> n < length buf \<and> calls_ok b on m \<and> mp_state m = PARSE_ERROR"
  "step_safe b on K buf (Throw e)" "\<not> step_safe b on K buf UB"
  by (simp_all add: step_safe_def)

lemma calls_ok_upd [simp]:
  "calls_ok b on (m\<lparr>headerFieldMark := k\<rparr>) = calls_ok b on m"
  "calls_ok b on (m\<lparr>headerValueMark := k\<rparr>) = calls_ok b on m"
  "calls_ok b on (m\<lparr>partDataMark := k\<rparr>) = calls_ok b on m"
  "calls_ok b on (mp_setError msg m) = calls_ok b on m"
  "calls_ok b on (notify cb m) = calls_ok b on m"
  by (auto simp: calls_ok_def mp_static_def mp_setError_def mp_callback_def)

lemma calls_ok_callback: "i \<le> j \<Longrightarrow> j \<le> length s \<Longrightarrow> calls_ok b on m \<Longrightarrow> calls_ok b on (mp_callback cb (Some s) i j e m)"
  by (simp add: calls_ok_def) (simp add: mp_callback_def)

lemma dataCallback_safe:
  assumes "mark_ok i buf mark" "i \<le> length buf" "calls_ok b on m"
  shows "\<exists>m1. dataCallback cb mark buf i n True e m = (UNMARKED, m1) \<and> calls_ok b on m1 \<and> headerFieldMark m1 = headerFieldMark m \<and>
    headerValueMark m1 = headerValueMark m \<and> partDataMark m1 = partDataMark m \<and> lookbehind m1 = lookbehind m"
  using assms calls_ok_callback [of mark i buf b on m cb e] by (auto simp: dataCallback_def mark_ok_def)

lemma mark_ok_mono: "mark_ok i buf k \<Longrightarrow> i \<le> j \<Longrightarrow> mark_ok j buf k"
  by (auto simp: mark_ok_def)

lemma marks_in_mono: "marks_in i buf m \<Longrightarrow> i \<le> j \<Longrightarrow> marks_in j buf m"
  by (auto simp: marks_in_def mark_ok_mono)

lemma mark_ok_simps [simp]: "mark_ok i buf UNMARKED" "i \<le> length buf \<Longrightarrow> i \<le> j \<Longrightarrow> mark_ok j buf i"
  by (auto simp: mark_ok_def)

lemma marks_in_callback [simp]: "marks_in i buf (mp_callback cb s k j e m) = marks_in i buf m"
  by (simp add: marks_in_def)

lemma marks_in_upd:
  "marks_in i buf m \<Longrightarrow> mark_ok i buf k \<Longrightarrow> marks_in i buf (m\<lparr>headerFieldMark := k\<rparr>)"
  "marks_in i buf m \<Longrightarrow> mark_ok i buf k \<Longrightarrow> marks_in i buf (m\<lparr>headerValueMark := k\<rparr>)"
  "marks_in i buf m \<Longrightarrow> mark_ok i buf k \<Longrightarrow> marks_in i buf (m\<lparr>partDataMark := k\<rparr>)"
  by (auto simp: marks_in_def)

lemma safe_START_BOUNDARY:
  assumes "loop_inv b on K buf (l_i l) l m" "l_i l < length buf" "length buf < 2 ^ 62" "l_state l = START_BOUNDARY"
  shows "step_safe b on K buf (case_START_BOUNDARY c l m)"
proof -
  have st: "boundary m = b" "boundarySize m = length b" "2 \<le> length b" "length b < 2 ^ 62" and
    ok: "calls_ok b on m" and ix: "l_index l < length b" "l_index l \<le> K + l_i l" and mk: "marks_in (Suc (l_i l)) buf m"
    using assms marks_in_mono [of "l_i l" buf m "Suc (l_i l)"] by (auto simp: loop_inv_def mp_live_def calls_ok_def mp_static_def)
  have u: "usub (length b) 2 = length b - 2" using st by (simp add: usub_less)
  have i: "size_inc (l_i l) = Suc (l_i l)" using assms(2,3) by (simp add: size_inc_less)
  have n: "loop_inv b on K buf (Suc (l_i l)) (l\<lparr>l_index := Suc (l_index l)\<rparr>) m" if "Suc (l_index l) < length b"
    using that ok ix mk assms by (simp add: loop_inv_def mp_live_def)
  have e: "step_safe b on K buf (fail msg l m)" for msg using ok assms(2) by simp
  consider "l_index l = length b - 2" | "l_index l = length b - 1" | "l_index l + 2 < length b" using ix(1) by linarith
  then show ?thesis
  proof cases
    case 1
    then show ?thesis using n e u st i by (auto simp: case_START_BOUNDARY_def)
  next
    case 2
    then have "usub (l_index l) 1 = length b - 2" "l_index l \<noteq> length b - 2" using st by (simp_all add: usub_less)
    then show ?thesis using e u st i ok mk by (auto simp: case_START_BOUNDARY_def loop_inv_def mp_live_def)
  next
    case 3
    have s: "str_at b (l_index l + 2) = Val (b ! (l_index l + 2))" using 3 by (simp add: str_at_def)
    have ne: "l_index l \<noteq> length b - 2" using 3 by linarith
    show ?thesis
    proof (cases "usub (l_index l) 1 = length b - 2")
      case True
      then show ?thesis using e u st i ok mk ne by (auto simp: case_START_BOUNDARY_def loop_inv_def mp_live_def)
    next
      case False
      then have "case_START_BOUNDARY c l m = (if c \<noteq> b ! (l_index l + 2)
          then fail ''Malformed. Found different boundary data than the given one.'' l m else go (l\<lparr>l_index := l_index l + 1\<rparr>) m)"
        unfolding case_START_BOUNDARY_def st(1,2) u using ne s by simp
      then show ?thesis using e n i 3 by simp
    qed
  qed
qed

lemma safe_HEADER_FIELD:
  assumes "loop_inv b on K buf (l_i l) l m" "l_i l < length buf" "length buf < 2 ^ 62" "l_state l = HEADER_FIELD"
  shows "step_safe b on K buf (case_HEADER_FIELD buf c l m)"
proof -
  have ok: "calls_ok b on m" and ix: "l_index l \<le> K + l_i l" and mk: "marks_in (Suc (l_i l)) buf m" "mark_ok (l_i l) buf (headerFieldMark m)"
    using assms marks_in_mono [of "l_i l" buf m "Suc (l_i l)"] by (auto simp: loop_inv_def mp_live_def marks_in_def)
  have i: "size_inc (l_i l) = Suc (l_i l)" using assms(2,3) by (simp add: size_inc_less)
  obtain m1 where m1: "dataCallback onHeaderField (headerFieldMark m) buf (l_i l) (length buf) True False m = (UNMARKED, m1)" "calls_ok b on m1"
    "headerFieldMark m1 = headerFieldMark m" "headerValueMark m1 = headerValueMark m" "partDataMark m1 = partDataMark m"
    using dataCallback_safe [OF mk(2) _ ok] assms(2) by (meson less_imp_le)
  have "marks_in (Suc (l_i l)) buf (m1\<lparr>headerFieldMark := UNMARKED\<rparr>)" "marks_in (Suc (l_i l)) buf (m\<lparr>headerFieldMark := UNMARKED\<rparr>)"
    using mk(1) m1(3-5) by (auto simp: marks_in_def)
  then show ?thesis using ok ix mk m1 i assms
    by (simp add: case_HEADER_FIELD_def Let_def loop_inv_def mp_live_def)
qed

lemma safe_HEADER_VALUE:
  assumes "loop_inv b on K buf (l_i l) l m" "l_i l < length buf" "length buf < 2 ^ 62" "l_state l = HEADER_VALUE"
  shows "step_safe b on K buf (case_HEADER_VALUE buf c l m)"
proof -
  have ok: "calls_ok b on m" and ix: "l_index l \<le> K + l_i l" and mk: "marks_in (Suc (l_i l)) buf m" "mark_ok (l_i l) buf (headerValueMark m)"
    using assms marks_in_mono [of "l_i l" buf m "Suc (l_i l)"] by (auto simp: loop_inv_def mp_live_def marks_in_def)
  have i: "size_inc (l_i l) = Suc (l_i l)" using assms(2,3) by (simp add: size_inc_less)
  obtain m1 where m1: "dataCallback onHeaderValue (headerValueMark m) buf (l_i l) (length buf) True True m = (UNMARKED, m1)" "calls_ok b on m1"
    "headerFieldMark m1 = headerFieldMark m" "headerValueMark m1 = headerValueMark m" "partDataMark m1 = partDataMark m"
    using dataCallback_safe [OF mk(2) _ ok] assms(2) by (meson less_imp_le)
  have "marks_in (Suc (l_i l)) buf (m1\<lparr>headerValueMark := UNMARKED\<rparr>)"
    using mk(1) m1(3-5) by (auto simp: marks_in_def)
  then show ?thesis using ok ix mk m1 i assms
    by (simp add: case_HEADER_VALUE_def Let_def loop_inv_def mp_live_def)
qed

subsection \<open>Part data\<close>

lemma match_boundary_safe:
  assumes "calls_ok b on m" "marks_in i buf m" "i < length buf" "l_i l = i" "l_state l = PART_DATA" "l_index l < 2 ^ 63"
  shows "\<exists>l1 m1 r. match_boundary buf c l m = Val (l1, m1, r) \<and> calls_ok b on m1 \<and> marks_in i buf m1 \<and>
    l_state l1 \<in> {PART_DATA, HEADER_FIELD_START, END} \<and> l_index l1 \<le> l_index l + 1 \<and> l_i l1 = i \<and> l_prev l1 = l_prev l \<and>
    (l_index l1 = 0 \<longrightarrow> l_index l \<le> length b + 8)"
proof -
  have st: "boundary m = b" "boundarySize m = length b" "2 \<le> length b" "length b < 2 ^ 62"
    using assms(1) by (auto simp: calls_ok_def mp_static_def)
  have same: "m\<lparr>partDataMark := partDataMark m\<rparr> = m" by simp
  consider (a) "l_index l < length b" | (b) "l_index l = length b" | (c) "l_index l > length b" by linarith
  then show ?thesis
  proof cases
    case a
    have "mark_ok i buf (partDataMark m)" using assms(2) by (simp add: marks_in_def)
    then obtain m1 where m1: "dataCallback onPartData (partDataMark m) buf (l_i l) (length buf) True False m = (UNMARKED, m1)" "calls_ok b on m1"
      "headerFieldMark m1 = headerFieldMark m" "headerValueMark m1 = headerValueMark m" "partDataMark m1 = partDataMark m"
      using dataCallback_safe [OF _ _ assms(1)] assms(3,4) by (metis less_imp_le)
    show ?thesis using a st assms m1
      by (cases "b ! l_index l = c"; cases "l_index l = 0") (auto simp: match_boundary_def str_at_def marks_in_def Let_def)
  next
    case b
    then show ?thesis using st assms by (auto simp: match_boundary_def Let_def)
  next
    case c
    have u: "usub (l_index l) 1 = l_index l - 1" "usub (l_index l) 2 = l_index l - 2" "usub (l_index l) (length b) = l_index l - length b"
      using c assms(6) st by (simp_all add: usub_less)
    show ?thesis unfolding match_boundary_def Let_def st u
      using c assms by (cases "l_index l - 1 = length b"; cases "l_index l - 2 = length b"; cases "l_index l - length b = 3") auto
  qed
qed

lemma keep_lookbehind_safe:
  assumes "calls_ok b on m" "marks_in i buf m" "i < length buf" "l_i l = i" "length buf < 2 ^ 62" "l_index l \<le> K + Suc i"
    "l_index l = 0 \<longrightarrow> l_prev l \<le> length b + 8" "l_state l \<in> {PART_DATA, HEADER_FIELD_START, END}"
  shows "step_safe b on K buf (rbind (keep_lookbehind c l m) (\<lambda>(l, m). go l m))"
proof -
  have st: "length (lookbehind m) = length b + 8" "lookbehindSize m = length b + 8"
    using assms(1) by (auto simp: calls_ok_def mp_static_def)
  have i: "size_inc i = Suc i" "size_inc (usub i 1) = i" using assms(3,5) by (simp add: size_inc_less, intro size_inc_dec) simp
  have mp_live: "mp_live b (l_state l) 0" using assms(8) by (auto simp: mp_live_def)
  consider (a) "l_index l > 0" | (b) "l_index l = 0" "l_prev l > 0" | (c) "l_index l = 0" "l_prev l = 0" by blast
  then show ?thesis
  proof cases
    case a
    have "calls_ok b on (m\<lparr>lookbehind := (lookbehind m)[k := c]\<rparr>)" for k
      using assms(1) by (auto simp: calls_ok_def mp_static_def)
    moreover have "marks_in (Suc i) buf (m\<lparr>lookbehind := s\<rparr>)" for s
      using marks_in_mono [OF assms(2), of "Suc i"] by (simp add: marks_in_def)
    ultimately show ?thesis using a st assms i mp_live
      by (auto simp: keep_lookbehind_def loop_inv_def mp_live_def)
  next
    case b
    have "calls_ok b on (mp_callback onPartData (Some (lookbehind m)) 0 (l_prev l) False m)"
      by (rule calls_ok_callback) (use assms(1,7) b st in auto)
    moreover have "marks_in i buf ((mp_callback onPartData (Some (lookbehind m)) 0 (l_prev l) False m)\<lparr>partDataMark := i\<rparr>)"
      by (rule marks_in_upd) (use assms in auto)
    ultimately show ?thesis using b assms i mp_live
      by (simp add: keep_lookbehind_def loop_inv_def mp_live_def del: One_nat_def)
  next
    case c
    then show ?thesis using assms i mp_live marks_in_mono [OF assms(2), of "Suc i"]
      by (simp add: keep_lookbehind_def loop_inv_def mp_live_def)
  qed
qed


lemma skip_data_total: "boundarySize m \<noteq> 0 \<Longrightarrow> \<exists>j. skip_data m buf e i = Val j"
  by (induction m buf e i rule: skip_data.induct) (subst skip_data.simps, auto)

lemma safe_PART_DATA:
  assumes "loop_inv b on K buf (l_i l) l m" "l_i l < length buf" "length buf < 2 ^ 62" "l_state l = PART_DATA" "K + length buf < 2 ^ 62"
  shows "step_safe b on K buf (case_PART_DATA buf e c l m)"
proof -
  have ok: "calls_ok b on m" and ix: "l_index l \<le> K + l_i l" and mk: "marks_in (l_i l) buf m"
    using assms by (auto simp: loop_inv_def)
  let ?l = "l\<lparr>l_prev := l_index l\<rparr>"
  have n0: "boundarySize m \<noteq> 0" using ok by (auto simp: calls_ok_def mp_static_def)
  have body: "step_safe b on K buf (rbind (rbind (match_boundary buf x k m) (\<lambda>(l, m, returned).
          if returned then Val (l, m) else keep_lookbehind x l m)) (\<lambda>(l, m). go l m))"
    if k: "l_i k < length buf" "l_index k \<le> K + l_i k" "marks_in (l_i k) buf m" "l_state k = PART_DATA" "l_prev k = l_index k" for k x
  proof -
    obtain l1 m1 r where 1: "match_boundary buf x k m = Val (l1, m1, r)" "calls_ok b on m1" "marks_in (l_i k) buf m1"
      "l_state l1 \<in> {PART_DATA, HEADER_FIELD_START, END}" "l_index l1 \<le> l_index k + 1" "l_i l1 = l_i k" "l_prev l1 = l_prev k"
      "l_index l1 = 0 \<longrightarrow> l_index k \<le> length b + 8"
      using match_boundary_safe [OF ok k(3,1) refl k(4), of x] k(1,2) assms(5) by auto
    show ?thesis
    proof (cases r)
      case True
      have "size_inc (l_i k) = Suc (l_i k)" using k(1) assms(3) by (simp add: size_inc_less)
      then show ?thesis using 1 True k marks_in_mono [OF 1(3), of "Suc (l_i k)"] by (auto simp: loop_inv_def mp_live_def)
    next
      case False
      have "step_safe b on K buf (rbind (keep_lookbehind x l1 m1) (\<lambda>(l, m). go l m))"
        by (rule keep_lookbehind_safe [OF 1(2,3) k(1) 1(6) assms(3)]) (use 1 k in auto)
      then show ?thesis using 1(1) False by simp
    qed
  qed
  show ?thesis
  proof (cases "l_index l = 0")
    case False
    have "step_safe b on K buf (rbind (rbind (match_boundary buf c ?l m) (\<lambda>(l, m, returned).
          if returned then Val (l, m) else keep_lookbehind c l m)) (\<lambda>(l, m). go l m))"
      by (rule body) (use assms ix mk in auto)
    then show ?thesis using False by (simp add: case_PART_DATA_def processPartData_def)
  next
    case True
    obtain j where j: "skip_data m buf e (l_i l) = Val j" "l_i l \<le> j" "j \<le> length buf"
      using skip_data_total [OF n0] skip_data_bounds assms(2) by (metis less_imp_le)
    show ?thesis
    proof (cases "j = length buf")
      case full: True
      have "size_inc j = Suc j" using j(3) assms(3) by (simp add: size_inc_less)
      then show ?thesis using True full j ok mk assms(4) marks_in_mono [OF mk, of "Suc j"]
        by (simp add: case_PART_DATA_def processPartData_def loop_inv_def mp_live_def)
    next
      case False
      have "step_safe b on K buf (rbind (rbind (match_boundary buf (buf ! j) (?l\<lparr>l_i := j\<rparr>) m) (\<lambda>(l, m, returned).
          if returned then Val (l, m) else keep_lookbehind (buf ! j) l m)) (\<lambda>(l, m). go l m))"
        by (rule body) (use assms True mk marks_in_mono [OF mk j(2)] j(2,3) False in auto)
      then show ?thesis using True False j(1) by (simp add: case_PART_DATA_def processPartData_def Let_def)
    qed
  qed
qed

lemma safe_switch:
  assumes "loop_inv b on K buf (l_i l) l m" "l_i l < length buf" "length buf < 2 ^ 62" "K + length buf < 2 ^ 62"
  shows "step_safe b on K buf (feed_switch buf e c l m)"
proof -
  have ok: "calls_ok b on m" and ix: "l_index l \<le> K + l_i l" and mk: "marks_in (l_i l) buf m" "marks_in (Suc (l_i l)) buf m"
    and mp_live: "mp_live b (l_state l) (l_index l)" and b: "2 \<le> length b"
    using assms marks_in_mono [of "l_i l" buf m "Suc (l_i l)"] by (auto simp: loop_inv_def calls_ok_def mp_static_def)
  have i: "size_inc (l_i l) = Suc (l_i l)" using assms(2,3) by (simp add: size_inc_less)
  have mark: "mark_ok (l_i l) buf (l_i l)" using assms(2) by simp
  show ?thesis
  proof (cases "l_state l")
    case START
    have "loop_inv b on K buf (l_i l) (l\<lparr>l_index := 0, l_state := START_BOUNDARY\<rparr>) m"
      using assms b by (auto simp: loop_inv_def mp_live_def)
    then show ?thesis using safe_START_BOUNDARY [of b on K buf "l\<lparr>l_index := 0, l_state := START_BOUNDARY\<rparr>" m c] assms START
      by (simp add: feed_switch_def)
  next
    case START_BOUNDARY
    then show ?thesis using safe_START_BOUNDARY [OF assms(1-3)] by (simp add: feed_switch_def)
  next
    case HEADER_FIELD_START
    have "loop_inv b on K buf (l_i l) (l\<lparr>l_state := HEADER_FIELD, l_index := 0\<rparr>) (m\<lparr>headerFieldMark := l_i l\<rparr>)"
      using assms mark by (auto simp: loop_inv_def mp_live_def marks_in_def)
    then show ?thesis
      using safe_HEADER_FIELD [of b on K buf "l\<lparr>l_state := HEADER_FIELD, l_index := 0\<rparr>" "m\<lparr>headerFieldMark := l_i l\<rparr>" c] assms HEADER_FIELD_START
      by (simp add: feed_switch_def)
  next
    case HEADER_FIELD
    then show ?thesis using safe_HEADER_FIELD [OF assms(1-3)] by (simp add: feed_switch_def)
  next
    case HEADER_VALUE_START
    have "loop_inv b on K buf (l_i l) (l\<lparr>l_state := HEADER_VALUE\<rparr>) (m\<lparr>headerValueMark := l_i l\<rparr>)"
      using assms mark by (auto simp: loop_inv_def mp_live_def marks_in_def)
    then show ?thesis
      using safe_HEADER_VALUE [of b on K buf "l\<lparr>l_state := HEADER_VALUE\<rparr>" "m\<lparr>headerValueMark := l_i l\<rparr>" c] assms HEADER_VALUE_START
        ok ix mk i mp_live
      by (simp add: feed_switch_def loop_inv_def)
  next
    case HEADER_VALUE
    then show ?thesis using safe_HEADER_VALUE [OF assms(1-3)] by (simp add: feed_switch_def)
  next
    case PART_DATA_START
    have "loop_inv b on K buf (l_i l) (l\<lparr>l_state := PART_DATA\<rparr>) (m\<lparr>partDataMark := l_i l\<rparr>)"
      using assms mark by (auto simp: loop_inv_def mp_live_def marks_in_def)
    then show ?thesis
      using safe_PART_DATA [of b on K buf "l\<lparr>l_state := PART_DATA\<rparr>" "m\<lparr>partDataMark := l_i l\<rparr>" e c] assms PART_DATA_START
      by (simp add: feed_switch_def)
  next
    case PART_DATA
    then show ?thesis using safe_PART_DATA [OF assms(1-3) PART_DATA assms(4)] by (simp add: feed_switch_def)
  qed (use mp_live ok ix mk i assms in \<open>auto simp: feed_switch_def loop_inv_def mp_live_def\<close>)
qed

lemma loop_safe:
  assumes "loop_inv b on K buf (l_i l) l m" "length buf < 2 ^ 62" "K + length buf < 2 ^ 62"
  shows "case feed_loop buf e l m of
      Val (Inl (l1, m1)) \<Rightarrow> loop_inv b on K buf (l_i l1) l1 m1
    | Val (Inr (n, m1)) \<Rightarrow> n < length buf \<and> calls_ok b on m1 \<and> mp_state m1 = PARSE_ERROR
    | Throw x \<Rightarrow> True
    | UB \<Rightarrow> False"
  using assms
proof (induction buf e l m rule: feed_loop.induct)
  case (1 buf e l m)
  show ?case
  proof (cases "l_i l < length buf")
    case False
    then show ?thesis using 1(2) by (subst feed_loop.simps) simp
  next
    case True
    have loop: "feed_loop buf e l m = rbind (feed_switch buf e (buf ! l_i l) l m) (\<lambda>r. case r of Inr x \<Rightarrow> Val (Inr x)
        | Inl (l, m) \<Rightarrow> feed_loop buf e (l\<lparr>l_i := size_inc (l_i l)\<rparr>) m)"
      using True 1(3) by (subst feed_loop.simps) simp
    have s: "step_safe b on K buf (feed_switch buf e (buf ! l_i l) l m)" by (rule safe_switch [OF 1(2) True 1(3,4)])
    show ?thesis
    proof (cases "feed_switch buf e (buf ! l_i l) l m")
      case (Val r)
      show ?thesis
      proof (cases r)
        case (Inl x)
        obtain l1 m1 where x: "x = (l1, m1)" by (cases x)
        have "loop_inv b on K buf (size_inc (l_i l1)) l1 m1" using s Val Inl x by simp
        then have "loop_inv b on K buf (l_i (l1\<lparr>l_i := size_inc (l_i l1)\<rparr>)) (l1\<lparr>l_i := size_inc (l_i l1)\<rparr>) m1"
          by (simp add: loop_inv_def)
        from 1(1) [OF conjI [OF True 1(3)] Val Inl x [symmetric] this 1(3,4)] show ?thesis unfolding loop Val Inl x by simp
      next
        case (Inr x)
        then show ?thesis using s Val by (cases x) (simp add: loop)
      qed
    qed (use s loop in simp_all)
  qed
qed

section \<open>feed\<close>

text \<open>What holds between two calls.\<close>

definition mp_inv :: "string \<Rightarrow> (mp_cb \<Rightarrow> bool) \<Rightarrow> multipart_parser \<Rightarrow> bool" where
  "mp_inv b on m \<longleftrightarrow> calls_ok b on m \<and>
     (mp_state m = PARSE_ERROR \<or> mp_live b (mp_state m) (mp_index m) \<and>
       headerFieldMark m \<in> {0, UNMARKED} \<and> headerValueMark m \<in> {0, UNMARKED} \<and> partDataMark m \<in> {0, UNMARKED})"

lemma dataCallback_flush:
  assumes "mark_ok i buf mark" "calls_ok b on m"
  shows "\<exists>k m1. dataCallback cb mark buf i (length buf) False e m = (k, m1) \<and> k \<in> {0, UNMARKED} \<and> calls_ok b on m1 \<and>
    headerFieldMark m1 = headerFieldMark m \<and> headerValueMark m1 = headerValueMark m \<and> partDataMark m1 = partDataMark m"
  using assms calls_ok_callback [of mark "length buf" buf b on m cb e] by (auto simp: dataCallback_def mark_ok_def)

lemma flush_marks_safe:
  assumes "marks_in i buf m" "calls_ok b on m"
  shows "calls_ok b on (flush_marks buf i m) \<and> headerFieldMark (flush_marks buf i m) \<in> {0, UNMARKED} \<and>
    headerValueMark (flush_marks buf i m) \<in> {0, UNMARKED} \<and> partDataMark (flush_marks buf i m) \<in> {0, UNMARKED}"
proof -
  have mk: "mark_ok i buf (headerFieldMark m)" "mark_ok i buf (headerValueMark m)" "mark_ok i buf (partDataMark m)"
    using assms(1) by (auto simp: marks_in_def)
  obtain k1 m1 where 1: "dataCallback onHeaderField (headerFieldMark m) buf i (length buf) False False m = (k1, m1)" "k1 \<in> {0, UNMARKED}"
    "calls_ok b on m1" "headerValueMark m1 = headerValueMark m" "partDataMark m1 = partDataMark m"
    using dataCallback_flush [OF mk(1) assms(2)] by blast
  obtain k2 m2 where 2: "dataCallback onHeaderValue (headerValueMark m) buf i (length buf) False False (m1\<lparr>headerFieldMark := k1\<rparr>) = (k2, m2)"
    "k2 \<in> {0, UNMARKED}" "calls_ok b on m2" "headerFieldMark m2 = k1" "partDataMark m2 = partDataMark m"
    using dataCallback_flush [OF mk(2), of b on "m1\<lparr>headerFieldMark := k1\<rparr>"] 1(3,5) by fastforce
  obtain k3 m3 where 3: "dataCallback onPartData (partDataMark m) buf i (length buf) False False (m2\<lparr>headerValueMark := k2\<rparr>) = (k3, m3)"
    "k3 \<in> {0, UNMARKED}" "calls_ok b on m3" "headerFieldMark m3 = k1" "headerValueMark m3 = k2"
    using dataCallback_flush [OF mk(3), of b on "m2\<lparr>headerValueMark := k2\<rparr>"] 2(3,4) by fastforce
  have "flush_marks buf i m = m3\<lparr>partDataMark := k3\<rparr>"
    unfolding flush_marks_def Let_def by (simp add: 1(1,4,5) 2(1,5) 3(1))
  then show ?thesis using 1 2 3 by simp
qed

lemma calls_ok_rest [simp]: "calls_ok b on (m\<lparr>mp_index := i, mp_state := s, mp_flags := f\<rparr>) = calls_ok b on m"
  by (simp add: calls_ok_def mp_static_def)

text \<open>C22: for any bytes, and any index below \<open>2^62\<close>, \<open>feed\<close> returns or throws; it never touches memory out of bounds, and the
  invariant holds again, with every call of a callback so far inside its block.\<close>

theorem feed_safe:
  assumes "mp_inv b on m" "mp_index m + length buf < 2 ^ 62"
  shows "case mp_feed buf m of
      Val (n, m') \<Rightarrow> n \<le> length buf \<and> mp_inv b on m' \<and> (\<not> has_error m' \<longrightarrow> mp_index m' \<le> mp_index m + length buf)
    | Throw e \<Rightarrow> True | UB \<Rightarrow> False"
proof (cases "mp_state m = PARSE_ERROR \<or> buf = []")
  case True
  then show ?thesis using assms by (auto simp: mp_feed_def)
next
  case False
  let ?l = "\<lparr>l_state = mp_state m, l_flags = mp_flags m, l_prev = mp_index m, l_index = mp_index m, l_i = 0\<rparr>"
  let ?e = "usub (boundarySize m) 1"
  have "marks_in 0 buf m" using assms(1) False by (auto simp: mp_inv_def marks_in_def mark_ok_def)
  then have inv: "loop_inv b on (mp_index m) buf (l_i ?l) ?l m"
    using assms(1) False by (auto simp: mp_inv_def loop_inv_def)
  have len: "length buf < 2 ^ 62" using assms(2) by simp
  note safe = loop_safe [OF inv len assms(2), of ?e]
  have feed: "mp_feed buf m = rbind (feed_loop buf ?e ?l m) (\<lambda>r. case r of Inr x \<Rightarrow> Val x | Inl (l, m) \<Rightarrow>
      Val (length buf, (flush_marks buf (l_i l) m)\<lparr>mp_index := l_index l, mp_state := l_state l, mp_flags := l_flags l\<rparr>))"
    using False by (simp add: mp_feed_def)
  show ?thesis
  proof (cases "feed_loop buf ?e ?l m")
    case (Val r)
    show ?thesis
    proof (cases r)
      case (Inl x)
      obtain l1 m1 where x: "x = (l1, m1)" by (cases x)
      have i1: "loop_inv b on (mp_index m) buf (l_i l1) l1 m1" using safe Val Inl x by simp
      then show ?thesis using flush_marks_safe [of "l_i l1" buf m1 b on] feed Val Inl x
        by (auto simp: mp_inv_def loop_inv_def)
    next
      case (Inr x)
      then show ?thesis using safe Val feed by (cases x) (auto simp: mp_inv_def has_error_def)
    qed
  qed (use safe feed in simp_all)
qed


text \<open>An example: a parser after \<open>set_boundary\<close>, with every callback set.\<close>

definition demo_boundary :: string where "demo_boundary = [CR, LF] @ ''--x''"

definition demo_parser :: multipart_parser where
  "demo_parser = set_boundary (\<lambda>_. CHR ''?'') demo_boundary
     \<lparr>mp_cbs = (\<lambda>_. True), boundary = [], boundarySize = 0, boundaryIndex = (\<lambda>_. False), lookbehind = [], lookbehindSize = 0,
      mp_state = PARSE_ERROR, mp_flags = 0, mp_index = 0, headerFieldMark = UNMARKED, headerValueMark = UNMARKED,
      partDataMark = UNMARKED, errorReason = [], calls = []\<rparr>"

lemma demo_fields: "mp_index demo_parser = 0" "mp_state demo_parser = START" "calls demo_parser = []"
  "lookbehind demo_parser = replicate 13 (CHR ''?'')"
  by (simp_all add: demo_parser_def set_boundary_def mp_reset_def indexBoundary_def demo_boundary_def map_replicate_const)

lemma demo_inv: "mp_inv demo_boundary (\<lambda>_. True) demo_parser"
  by (simp add: demo_parser_def set_boundary_def mp_reset_def indexBoundary_def demo_boundary_def mp_inv_def calls_ok_def
      mp_static_def mp_live_def fun_eq_iff)

lemma feed_safe_witness:
  "case mp_feed ''--xy'' demo_parser of
      Val (n, m') \<Rightarrow> n \<le> length ''--xy'' \<and> mp_inv demo_boundary (\<lambda>_. True) m' \<and>
        (\<not> has_error m' \<longrightarrow> mp_index m' \<le> mp_index demo_parser + length ''--xy'')
    | Throw e \<Rightarrow> True | UB \<Rightarrow> False"
  by (rule feed_safe [OF demo_inv]) (simp add: demo_fields)

end
