(* ===== verification/MultipartForm.thy ===== *)
theory MultipartForm
  imports MultipartSim FormRun MultipartSafe
begin

text \<open>
  The properties of \<open>feed\<close>: it does what the automaton does, however the stream is cut; a printed form is read back; no input makes
  it touch memory out of bounds. And what goes wrong: a header line without a colon, and a delimiter that is followed by CR alone.
\<close>

unbundle bit_operations_syntax

section \<open>Refinement\<close>

text \<open>The parser between two calls of \<open>feed\<close>, and the state of the automaton it stands for.\<close>

definition mp_abs :: "multipart_parser \<Rightarrow> mpa" where
  "mp_abs m = \<lparr>a_state = mp_state m, a_flags = mp_flags m, a_index = mp_index m,
     a_pend = (if mp_state m = PART_DATA then take (mp_index m) (lookbehind m) else [])\<rparr>"

definition mp_wf :: "string \<Rightarrow> (mp_cb \<Rightarrow> bool) \<Rightarrow> multipart_parser \<Rightarrow> bool" where
  "mp_wf b on m \<longleftrightarrow> mp_static b on m \<and> a_ok b (mp_abs m) \<and>
     headerFieldMark m = (if mp_state m = HEADER_FIELD then 0 else UNMARKED) \<and>
     headerValueMark m = (if mp_state m = HEADER_VALUE then 0 else UNMARKED) \<and>
     partDataMark m = (if mp_state m = PART_DATA \<and> mp_index m = 0 then 0 else UNMARKED)"

lemma a_ok_pend: "a_ok b a \<Longrightarrow> a_state a \<noteq> PART_DATA \<Longrightarrow> a_pend a = []"
  by (cases "a_state a") (simp_all add: a_ok_def)

lemma fold_index: "fold (\<lambda>c f. f(c := True)) s f = (\<lambda>c. c \<in> set s \<or> f c)"
  by (induction s arbitrary: f) (auto simp: fun_eq_iff)

lemma set_boundary_wf:
  assumes "2 \<le> length b" "length b < 2 ^ 62"
  shows "mp_wf b (mp_cbs m) (set_boundary junk b m)"
    "mp_abs (set_boundary junk b m) = \<lparr>a_state = START, a_flags = 0, a_index = 0, a_pend = []\<rparr>"
    "calls (set_boundary junk b m) = calls m"
  using assms
  by (simp_all add: set_boundary_def mp_reset_def indexBoundary_def mp_wf_def mp_static_def mp_abs_def a_ok_def fold_index)

lemma feed_loop_sim:
  assumes "mp_rel b on es buf l m a ts" "length buf < 2 ^ 62" "a_run b a (drop (l_i l) buf) = Some (a2, t2, k)"
    "l_i l \<le> length buf + 1"
  shows "if a_state a2 = PARSE_ERROR then
       \<exists>m1 x. feed_loop buf (usub (length b) 1) l m = Val (Inr (min (l_i l) (length buf) + k, m1)) \<and> has_error m1 \<and>
         es @ heard on (ts @ t2) = events m1 @ x
     else \<exists>l1 m1. feed_loop buf (usub (length b) 1) l m = go l1 m1 \<and> mp_rel b on es buf l1 m1 a2 (ts @ t2) \<and>
       length buf \<le> l_i l1 \<and> l_i l1 \<le> length buf + 1"
  using assms
proof (induction buf "usub (length b) 1" l m arbitrary: a ts t2 k rule: feed_loop.induct)
  case (1 buf l m)
  let ?e = "usub (length b) 1"
  show ?case
  proof (cases "l_i l < length buf")
    case False
    then have "feed_loop buf ?e l m = go l m" by (subst feed_loop.simps) simp
    moreover have "a2 = a" "t2 = []" using False 1(4) by auto
    moreover have "a_state a \<noteq> PARSE_ERROR" using 1(2) by (auto simp: mp_rel_def a_ok_def)
    ultimately show ?thesis using 1(2,5) False by auto
  next
    case True
    let ?s = "feed_switch buf ?e (buf ! l_i l) l m"
    have turn_sim: "turn_sim b on es buf (l_i l) a ts ?s" by (rule sim_feed_switch [OF 1(2) True 1(3)])
    note turn_sim = turn_sim [unfolded turn_sim_def, rule_format, OF 1(4)]
    have loop: "feed_loop buf ?e l m = rbind ?s (\<lambda>r. case r of Inr x \<Rightarrow> Val (Inr x)
        | Inl (l, m) \<Rightarrow> feed_loop buf ?e (l\<lparr>l_i := size_inc (l_i l)\<rparr>) m)"
      using True 1(3) by (subst feed_loop.simps) simp
    consider (next1) l1 m1 where "?s = go l1 m1" | (ret) n m1 where "?s = Val (Inr (n, m1))"
      using turn_sim by (cases ?s) (auto split: sum.splits)
    then show ?thesis
    proof cases
      case next1
      let ?j = "size_inc (l_i l1)"
      obtain a1 ts1 t3 k1 where h: "mp_rel b on es buf (l1\<lparr>l_i := ?j\<rparr>) m1 a1 ts1"
        "a_run b a1 (drop ?j buf) = Some (a2, t3, k1)" "ts @ t2 = ts1 @ t3" "l_i l + k = min ?j (length buf) + k1"
        using turn_sim unfolding next1 Let_def by auto
      have j: "?j \<le> length buf + 1"
      proof -
        have "progress buf l l1" by (rule feed_switch_progress [OF next1 True])
        then show ?thesis unfolding progress_def
        proof (elim disjE conjE)
          assume "l_i l1 \<le> length buf"
          then show ?thesis using 1(3) size_inc_less [of "l_i l1"] by simp
        next
          assume "l_i l1 = usub (l_i l) 1"
          then show ?thesis using 1(3) True size_inc_dec [of "l_i l"] by simp
        qed
      qed
      note IH = 1(1) [OF conjI [OF True 1(3)] next1 refl refl h(1) 1(3)]
      show ?thesis using IH [of t3 k1] h True j unfolding loop next1 by (cases "a_state a2 = PARSE_ERROR") simp_all
    next
      case ret
      then show ?thesis using turn_sim True unfolding loop ret by (auto simp: has_error_def)
    qed
  qed
qed

lemma dataCallback_end:
  assumes "if P then mark \<le> j else mark = UNMARKED" "length buf \<le> j" "j \<le> length buf + 1" "length buf < 2 ^ 62"
  shows "\<exists>cs. dataCallback cb mark buf j (length buf) False False m = ((if P then 0 else UNMARKED), m\<lparr>calls := calls m @ cs\<rparr>) \<and>
    concat (map call_toks cs) = heard (mp_cbs m) (if P then since cb mark j buf else [])"
proof -
  have n: "P \<Longrightarrow> mark \<noteq> UNMARKED" using assms by (auto simp: UNMARKED_def split: if_splits)
  have s: "since cb mark j buf = map (Byte cb) (take (length buf - mark) (drop mark buf))" using assms(2) by (simp add: since_def)
  show ?thesis
  proof (cases P)
    case False
    then have "dataCallback cb mark buf j (length buf) False False m = (UNMARKED, m)" using assms(1) by (simp add: dataCallback_def)
    then show ?thesis using False by (intro exI [of _ "[]"]) simp
  next
    case True
    then have d: "dataCallback cb mark buf j (length buf) False False m = (0, mp_callback cb (Some buf) mark (length buf) False m)"
      using n by (simp add: dataCallback_def)
    show ?thesis
    proof (cases "mark = length buf \<or> \<not> mp_cbs m cb")
      case True
      then have "mp_callback cb (Some buf) mark (length buf) False m = m" using n \<open>P\<close> by (auto simp: mp_callback_def)
      moreover have "heard (mp_cbs m) (since cb mark j buf) = []" unfolding s heard_bytes using True by auto
      ultimately show ?thesis using d \<open>P\<close> by (intro exI [of _ "[]"]) simp
    next
      case False
      then have "mp_callback cb (Some buf) mark (length buf) False m = m\<lparr>calls := calls m @ [Call cb (Some buf) mark (length buf)]\<rparr>"
        by (simp add: mp_callback_def)
      moreover have "heard (mp_cbs m) (since cb mark j buf) = since cb mark j buf" unfolding s heard_bytes using False by simp
      ultimately show ?thesis using d \<open>P\<close> by (intro exI [of _ "[Call cb (Some buf) mark (length buf)]"]) (simp add: s)
    qed
  qed
qed

lemma flush_marks_rel:
  assumes "marks_ok l m" "length buf \<le> l_i l" "l_i l \<le> length buf + 1" "length buf < 2 ^ 62"
  shows "\<exists>cs. flush_marks buf (l_i l) m = m\<lparr>calls := calls m @ cs,
      headerFieldMark := (if l_state l = HEADER_FIELD then 0 else UNMARKED),
      headerValueMark := (if l_state l = HEADER_VALUE then 0 else UNMARKED),
      partDataMark := (if l_state l = PART_DATA \<and> l_index l = 0 then 0 else UNMARKED)\<rparr> \<and>
    concat (map call_toks cs) = heard (mp_cbs m) (pending buf l m)"
proof -
  have mk: "if l_state l = HEADER_FIELD then headerFieldMark m \<le> l_i l else headerFieldMark m = UNMARKED"
    "if l_state l = HEADER_VALUE then headerValueMark m \<le> l_i l else headerValueMark m = UNMARKED"
    "if l_state l = PART_DATA \<and> l_index l = 0 then partDataMark m \<le> l_i l else partDataMark m = UNMARKED"
    using assms(1) by (auto simp: marks_ok_def split: if_splits)
  note d1 = dataCallback_end [OF mk(1) assms(2-4)] and d2 = dataCallback_end [OF mk(2) assms(2-4)]
    and d3 = dataCallback_end [OF mk(3) assms(2-4)]
  let ?m1 = "\<lambda>cs. m\<lparr>calls := calls m @ cs, headerFieldMark := (if l_state l = HEADER_FIELD then 0 else UNMARKED)\<rparr>"
  obtain c1 where c1: "dataCallback onHeaderField (headerFieldMark m) buf (l_i l) (length buf) False False m =
      ((if l_state l = HEADER_FIELD then 0 else UNMARKED), m\<lparr>calls := calls m @ c1\<rparr>)"
    "concat (map call_toks c1) = heard (mp_cbs m) (if l_state l = HEADER_FIELD then since onHeaderField (headerFieldMark m) (l_i l) buf else [])"
    using d1 by blast
  obtain c2 where c2: "dataCallback onHeaderValue (headerValueMark m) buf (l_i l) (length buf) False False (?m1 c1) =
      ((if l_state l = HEADER_VALUE then 0 else UNMARKED), (?m1 c1)\<lparr>calls := calls (?m1 c1) @ c2\<rparr>)"
    "concat (map call_toks c2) = heard (mp_cbs (?m1 c1)) (if l_state l = HEADER_VALUE then since onHeaderValue (headerValueMark m) (l_i l) buf else [])"
    using d2 by blast
  let ?m2 = "(?m1 c1)\<lparr>calls := calls (?m1 c1) @ c2, headerValueMark := (if l_state l = HEADER_VALUE then 0 else UNMARKED)\<rparr>"
  obtain c3 where c3: "dataCallback onPartData (partDataMark m) buf (l_i l) (length buf) False False ?m2 =
      ((if l_state l = PART_DATA \<and> l_index l = 0 then 0 else UNMARKED), ?m2\<lparr>calls := calls ?m2 @ c3\<rparr>)"
    "concat (map call_toks c3) = heard (mp_cbs ?m2) (if l_state l = PART_DATA \<and> l_index l = 0 then since onPartData (partDataMark m) (l_i l) buf else [])"
    using d3 by blast
  have "flush_marks buf (l_i l) m = ?m2\<lparr>calls := calls ?m2 @ c3, partDataMark := (if l_state l = PART_DATA \<and> l_index l = 0 then 0 else UNMARKED)\<rparr>"
    using c2(1) c3(1) by (simp add: flush_marks_def c1(1))
  moreover have "concat (map call_toks (c1 @ c2 @ c3)) = heard (mp_cbs m) (pending buf l m)"
    using c1(2) c2(2) c3(2) by (auto simp: pending_def)
  ultimately show ?thesis by (intro exI [of _ "c1 @ c2 @ c3"]) simp
qed

text \<open>The end of \<open>feed\<close>, from any turn of its loop on.\<close>

lemma feed_from:
  assumes "buf \<noteq> []" "mp_state m \<noteq> PARSE_ERROR" "boundarySize m = length b" "length buf < 2 ^ 62"
    "feed_loop buf (usub (length b) 1)
       \<lparr>l_state = mp_state m, l_flags = mp_flags m, l_prev = mp_index m, l_index = mp_index m, l_i = 0\<rparr> m =
     feed_loop buf (usub (length b) 1) l0 m0"
    "mp_rel b on es buf l0 m0 a0 []" "l_i l0 \<le> length buf + 1" "a_run b a0 (drop (l_i l0) buf) = Some (a, t, k)" "a_state a \<noteq> PARSE_ERROR"
  shows "\<exists>m'. mp_feed buf m = Val (length buf, m') \<and> mp_wf b on m' \<and> mp_abs m' = a \<and> events m' = es @ heard on t"
proof -
  from feed_loop_sim [OF assms(6,4,8,7)] assms(9) obtain l1 m1 where
    loop: "feed_loop buf (usub (length b) 1) l0 m0 = go l1 m1" and
    rel: "mp_rel b on es buf l1 m1 a t" and i: "length buf \<le> l_i l1" "l_i l1 \<le> length buf + 1" by auto
  have mk: "marks_ok l1 m1" and cb: "mp_cbs m1 = on" using rel by (simp_all add: mp_rel_def mp_static_def)
  obtain cs where cs: "flush_marks buf (l_i l1) m1 = m1\<lparr>calls := calls m1 @ cs,
      headerFieldMark := (if l_state l1 = HEADER_FIELD then 0 else UNMARKED),
      headerValueMark := (if l_state l1 = HEADER_VALUE then 0 else UNMARKED),
      partDataMark := (if l_state l1 = PART_DATA \<and> l_index l1 = 0 then 0 else UNMARKED)\<rparr>"
    "concat (map call_toks cs) = heard on (pending buf l1 m1)"
    using flush_marks_rel [OF mk i assms(4)] cb by auto
  let ?m = "(flush_marks buf (l_i l1) m1)\<lparr>mp_index := l_index l1, mp_state := l_state l1, mp_flags := l_flags l1\<rparr>"
  have "mp_feed buf m = Val (length buf, ?m)"
    unfolding mp_feed_def assms(3,5) loop using assms(1,2) by simp
  moreover have ma: "mp_abs ?m = a"
    using rel a_ok_pend [of b a] unfolding cs(1) by (cases a) (auto simp: mp_rel_def mp_abs_def)
  moreover have "mp_wf b on ?m"
    unfolding mp_wf_def ma using rel unfolding cs(1) by (simp add: mp_rel_def mp_static_def)
  moreover have "events ?m = es @ heard on t"
    using rel cs(2) unfolding cs(1) by (simp add: mp_rel_def events_def)
  ultimately show ?thesis by blast
qed

lemma feed_abs:
  assumes "mp_wf b on m" "length buf < 2 ^ 62" "a_run b (mp_abs m) buf = Some (a, t, k)" "a_state a \<noteq> PARSE_ERROR"
  shows "\<exists>m'. mp_feed buf m = Val (length buf, m') \<and> mp_wf b on m' \<and> mp_abs m' = a \<and> events m' = events m @ heard on t"
proof (cases "buf = []")
  case True
  then show ?thesis using assms by (auto simp: mp_feed_def)
next
  case False
  let ?l = "\<lparr>l_state = mp_state m, l_flags = mp_flags m, l_prev = mp_index m, l_index = mp_index m, l_i = 0\<rparr>"
  have st: "boundarySize m = length b" "mp_state m \<noteq> PARSE_ERROR"
    using assms(1) by (auto simp: mp_wf_def mp_static_def a_ok_def mp_abs_def)
  have "mp_rel b on (events m) buf ?l m (mp_abs m) []"
    using assms(1) by (auto simp: mp_wf_def mp_rel_def marks_ok_def pending_def mp_abs_def)
  from feed_from [OF False st(2,1) assms(2) refl this] assms(3,4) show ?thesis by simp
qed

lemma feed_abs_error:
  assumes "mp_wf b on m" "length buf < 2 ^ 62" "a_run b (mp_abs m) buf = Some (a, t, k)" "a_state a = PARSE_ERROR"
  shows "\<exists>m' x. mp_feed buf m = Val (k, m') \<and> has_error m' \<and> events m @ heard on t = events m' @ x"
proof -
  let ?l = "\<lparr>l_state = mp_state m, l_flags = mp_flags m, l_prev = mp_index m, l_index = mp_index m, l_i = 0\<rparr>"
  have st: "mp_static b on m" "boundarySize m = length b" using assms(1) by (auto simp: mp_wf_def mp_static_def)
  have ne: "mp_state m \<noteq> PARSE_ERROR" using assms(1) by (auto simp: mp_wf_def a_ok_def mp_abs_def)
  then have "buf \<noteq> []" using assms(3,4) by (auto simp: mp_abs_def)
  have "mp_rel b on (events m) buf ?l m (mp_abs m) []"
    using assms(1) by (auto simp: mp_wf_def mp_rel_def marks_ok_def pending_def mp_abs_def)
  from feed_loop_sim [OF this assms(2), of a t k] assms(3,4) obtain m1 x where
    "feed_loop buf (usub (length b) 1) ?l m = Val (Inr (k, m1))" "has_error m1" "events m @ heard on t = events m1 @ x" by auto
  then show ?thesis using ne \<open>buf \<noteq> []\<close> st(2) by (simp add: mp_feed_def)
qed


section \<open>Any cut of the stream\<close>

text \<open>A client that gives the parser one buffer after the other.\<close>

fun mp_feeds :: "string list \<Rightarrow> multipart_parser \<Rightarrow> multipart_parser res" where
  "mp_feeds [] m = Val m"
| "mp_feeds (s # ss) m = rbind (mp_feed s m) (\<lambda>(n, m). mp_feeds ss m)"

lemma feeds_error: "has_error m \<Longrightarrow> mp_feeds ss m = Val m"
  by (induction ss) (simp_all add: mp_feed_def has_error_def)

lemma a_run_prefix: "a_run b a s = None \<Longrightarrow> a_run b a (s @ r) = None"
  by (induction s arbitrary: a) (auto split: option.splits if_splits)

lemma wf_live: "mp_wf b on m \<Longrightarrow> a_state (mp_abs m) \<noteq> PARSE_ERROR"
  by (auto simp: mp_wf_def a_ok_def mp_abs_def)

lemma feeds_abs:
  assumes "mp_wf b on m" "length (concat ss) < 2 ^ 62" "a_run b (mp_abs m) (concat ss) = Some (a, t, k)"
  shows "\<exists>m'. mp_feeds ss m = Val m' \<and>
    (if a_state a = PARSE_ERROR then has_error m'
     else mp_wf b on m' \<and> mp_abs m' = a \<and> events m' = events m @ heard on t)"
  using assms
proof (induction ss arbitrary: m t k)
  case Nil
  then show ?case using wf_live [OF Nil(1)] by auto
next
  case (Cons s ss)
  have len: "length s < 2 ^ 62" "length (concat ss) < 2 ^ 62" using Cons.prems(2) by auto
  obtain a1 t1 k1 where 1: "a_run b (mp_abs m) s = Some (a1, t1, k1)"
    using a_run_prefix [of b "mp_abs m" s "concat ss"] Cons.prems(3) by (cases "a_run b (mp_abs m) s") auto
  show ?case
  proof (cases "a_state a1 = PARSE_ERROR")
    case True
    obtain m' where m': "mp_feed s m = Val (k1, m')" "has_error m'"
      using feed_abs_error [OF Cons.prems(1) len(1) 1 True] by blast
    have "a = a1" using a_run_append_error [OF 1 True wf_live [OF Cons.prems(1)], of "concat ss"] Cons.prems(3) by simp
    then show ?thesis using m' True feeds_error [OF m'(2)] by simp
  next
    case False
    obtain m' where m': "mp_feed s m = Val (length s, m')" "mp_wf b on m'" "mp_abs m' = a1" "events m' = events m @ heard on t1"
      using feed_abs [OF Cons.prems(1) len(1) 1 False] by blast
    obtain t2 k2 where 2: "a_run b (mp_abs m') (concat ss) = Some (a, t2, k2)" "t = t1 @ t2"
      using a_run_append [OF 1 False, of "concat ss"] Cons.prems(3) m'(3) by (auto split: option.splits)
    show ?thesis using Cons.IH [OF m'(2) len(2) 2(1)] m' 2(2) by (cases "a_state a = PARSE_ERROR") simp_all
  qed
qed

text \<open>C21: however a stream is cut into buffers, the parser reaches the state of the automaton that takes one byte at a time, and
  the client has seen exactly its tokens; a malformed stream is an error for every cut. (The automaton has no run when a header line
  ends before a colon.)\<close>

theorem feed_refines:
  assumes "mp_wf b on m" "length (concat ss) < 2 ^ 62" "a_run b (mp_abs m) (concat ss) = Some (a, t, k)"
  shows "\<exists>m'. mp_feeds ss m = Val m' \<and>
    (if a_state a = PARSE_ERROR then has_error m' else \<not> has_error m' \<and> mp_abs m' = a \<and> events m' = events m @ heard on t)"
proof -
  obtain m' where m': "mp_feeds ss m = Val m'"
    "if a_state a = PARSE_ERROR then has_error m' else mp_wf b on m' \<and> mp_abs m' = a \<and> events m' = events m @ heard on t"
    using feeds_abs [OF assms] by blast
  then show ?thesis using wf_live [of b on m'] by (auto simp: has_error_def mp_abs_def)
qed

lemma demo_len: "2 \<le> length demo_boundary" "length demo_boundary < 2 ^ 62" "length demo_boundary = 5"
  by (simp_all add: demo_boundary_def)

lemma demo_wf: "mp_wf demo_boundary (\<lambda>_. True) demo_parser" "mp_abs demo_parser = at_state START 0 0"
  unfolding demo_parser_def using set_boundary_wf(1,2) [OF demo_len(1,2)] by (metis multipart_parser.select_convs(1), simp)

lemma feed_refines_witness:
  "\<exists>m'. mp_feeds [''-'', ''-x'' @ [CR], [LF]] demo_parser = Val m' \<and> \<not> has_error m' \<and> mp_abs m' = at_state HEADER_FIELD_START 0 0 \<and>
     events m' = events demo_parser @ [Mark onPartBegin]"
proof -
  have "concat [''-'', ''-x'' @ [CR], [LF]] = drop 2 demo_boundary @ [CR, LF]" by (simp add: demo_boundary_def)
  then have "a_run demo_boundary (mp_abs demo_parser) (concat [''-'', ''-x'' @ [CR], [LF]]) =
      Some (at_state HEADER_FIELD_START 0 0, [Mark onPartBegin], 5)"
    using runs_start [OF demo_len(1), of 0 0] by (simp add: runs_def demo_wf(2) demo_boundary_def)
  from feed_refines [OF demo_wf(1) _ this] show ?thesis by simp
qed

lemma start_run:
  assumes "boundary_ok b" "runs b (at_state START 0 0) (concat ss) a t" "length (concat ss) < 2 ^ 62"
  shows "\<exists>m'. mp_feeds ss (set_boundary junk b m) = Val m' \<and> mp_state m' = a_state a \<and> events m' = events m @ heard (mp_cbs m) t"
proof -
  note wf = set_boundary_wf [where b = b and m = m and junk = junk]
  have b: "2 \<le> length b" "length b < 2 ^ 62" using boundary_ok_len [OF assms(1)] by simp_all
  have r: "a_run b (mp_abs (set_boundary junk b m)) (concat ss) = Some (a, t, length (concat ss))" "a_state a \<noteq> PARSE_ERROR"
    using assms(2) wf(2) [OF b] by (simp_all add: runs_def)
  obtain m' where m': "mp_feeds ss (set_boundary junk b m) = Val m'" "mp_abs m' = a"
    "events m' = events (set_boundary junk b m) @ heard (mp_cbs m) t"
    using feeds_abs [OF wf(1) [OF b] assms(3) r(1)] r(2) by auto
  have "mp_state m' = a_state a" by (simp add: m'(2) [symmetric] mp_abs_def)
  then show ?thesis using m' wf(3) [OF b] by (simp add: events_def)
qed

text \<open>C23: a printed form is read back: in whatever pieces it arrives, and whatever follows it, the client sees its parts, their
  headers and their data, and the parser ends.\<close>

theorem form_roundtrip:
  assumes "boundary_ok b" "ps \<noteq> []" "list_all (part_ok b) ps" "concat ss = print_form b ps @ rest" "length (concat ss) < 2 ^ 62"
  shows "\<exists>m'. mp_feeds ss (set_boundary junk b m) = Val m' \<and> succeeded m' \<and> events m' = events m @ heard (mp_cbs m) (form_toks ps)"
  using start_run [OF assms(1) _ assms(5), of "after_form b" "form_toks ps" junk m] runs_form [OF assms(1,3,2), of rest] assms(4)
  by (auto simp: succeeded_def after_form_def)

lemma demo_boundary_ok: "boundary_ok demo_boundary"
  by (simp add: boundary_ok_def demo_boundary_def CR_def LF_def)

lemma occurs_length: "occurs b s \<Longrightarrow> length b \<le> length s"
  by (auto simp: occurs_def)

lemma form_roundtrip_witness:
  "\<exists>m'. mp_feeds [print_form demo_boundary [([(''a'', ''b'')], ''hi'')]] (set_boundary (\<lambda>_. CHR ''?'') demo_boundary demo_parser) = Val m' \<and>
     succeeded m' \<and> events m' = events demo_parser @ heard (mp_cbs demo_parser) (form_toks [([(''a'', ''b'')], ''hi'')])"
proof (rule form_roundtrip [where rest = "[]"])
  show "list_all (part_ok demo_boundary) [([(''a'', ''b'')], ''hi'')]"
    using occurs_length [of demo_boundary "''hi''"]
    by (auto simp: part_ok_def header_ok_def demo_len isHeaderFieldCharacter_def schar_def CR_def SPACE_def)
qed (simp_all add: demo_boundary_ok print_form_def print_part_def print_header_def demo_len)

text \<open>When the data of a part contains the boundary followed by CR and then not LF, which is no delimiter, the delimiter that
  ends the form is taken for data and the parser waits for more.\<close>

theorem stale_flag_hides_end:
  assumes "boundary_ok b" "list_all header_ok hs" "\<not> occurs b d1" "c \<noteq> LF" "\<not> occurs b (c # d2)"
    "concat ss = print_form b [(hs, d1 @ b @ [CR, c] @ d2)]" "length (concat ss) < 2 ^ 62"
  shows "\<exists>m'. mp_feeds ss (set_boundary junk b m) = Val m' \<and> \<not> stopped m' \<and>
    events m' = events m @ heard (mp_cbs m) ([Mark onPartBegin] @ concat (map header_toks hs) @ [Mark onHeadersEnd] @
      map (Byte onPartData) (d1 @ b @ [CR, c] @ d2 @ b @ [HYPHEN, HYPHEN]))"
proof -
  have "runs b (at_state START 0 0) (concat ss) (data_at 3 []) ([Mark onPartBegin] @ concat (map header_toks hs) @ [Mark onHeadersEnd] @
      map (Byte onPartData) (d1 @ b @ [CR, c] @ d2 @ b @ [HYPHEN, HYPHEN]))"
    unfolding assms(6) by (rule runs_stale_form [OF assms(1-5)])
  from start_run [OF assms(1) this assms(7), of junk m] show ?thesis
    by (elim exE conjE) (simp add: stopped_def)
qed


lemma stale_flag_hides_end_witness:
  "\<exists>m'. mp_feeds [print_form demo_boundary [([], [] @ demo_boundary @ [CR, CHR ''x''] @ [])]]
       (set_boundary (\<lambda>_. CHR ''?'') demo_boundary demo_parser) = Val m' \<and> \<not> stopped m' \<and>
     events m' = events demo_parser @ heard (mp_cbs demo_parser) ([Mark onPartBegin] @ concat (map header_toks []) @ [Mark onHeadersEnd] @
       map (Byte onPartData) ([] @ demo_boundary @ [CR, CHR ''x''] @ [] @ demo_boundary @ [HYPHEN, HYPHEN]))"
proof (rule stale_flag_hides_end)
  show "\<not> occurs demo_boundary []" "\<not> occurs demo_boundary [CHR ''x'']"
    using occurs_length [of demo_boundary "[]"] occurs_length [of demo_boundary "''x''"] by (auto simp: demo_len)
qed (simp_all add: demo_boundary_ok print_form_def print_part_def demo_len LF_def)

section \<open>Header lines without a colon\<close>

lemma loop_step:
  assumes "feed_switch buf e (buf ! l_i l) l m = go l1 m1" "l_i l < length buf" "length buf < 2 ^ 62"
  shows "feed_loop buf e l m = feed_loop buf e (l1\<lparr>l_i := size_inc (l_i l1)\<rparr>) m1"
  using assms by (subst feed_loop.simps) simp

lemma loop_name:
  assumes "list_all isHeaderFieldCharacter k" "drop (l_i l) buf = k @ r" "l_state l = HEADER_FIELD" "length buf < 2 ^ 62"
  shows "feed_loop buf e l m = feed_loop buf e (l\<lparr>l_index := l_index l + length k, l_i := l_i l + length k\<rparr>) m"
  using assms
proof (induction k arbitrary: l)
  case (Cons c k)
  have i: "l_i l < length buf" using Cons.prems(2) by (cases "l_i l < length buf") auto
  have d: "buf ! l_i l = c" "drop (Suc (l_i l)) buf = k @ r"
    using Cons.prems(2) i by (simp_all add: Cons_nth_drop_Suc [symmetric])
  have c: "c = HYPHEN \<or> is_letter c" "c \<noteq> CR" "c \<noteq> COLON"
    using Cons.prems(1) is_letter_exact [of c] field_char_not [of c] by auto
  have "feed_switch buf e (buf ! l_i l) l m = go (l\<lparr>l_index := l_index l + 1\<rparr>) m"
    unfolding d using c Cons.prems(3) by (auto simp: feed_switch_def case_HEADER_FIELD_def Let_def is_letter_def)
  from loop_step [OF this i Cons.prems(4)]
  have "feed_loop buf e l m = feed_loop buf e (l\<lparr>l_index := l_index l + 1, l_i := l_i l + 1\<rparr>) m"
    using size_inc_less [of "l_i l"] i Cons.prems(4) by simp
  also have "\<dots> = feed_loop buf e (l\<lparr>l_index := l_index l + 1, l_i := l_i l + 1,
      l_index := l_index l + 1 + length k, l_i := l_i l + 1 + length k\<rparr>) m"
    using Cons.IH [of "l\<lparr>l_index := l_index l + 1, l_i := l_i l + 1\<rparr>"] Cons.prems d by simp
  finally show ?case by (simp add: add.commute)
qed simp

text \<open>After the line break the index is the length of the line, as if so many bytes of the boundary had been matched.\<close>

lemma loop_colonless:
  assumes "k \<noteq> []" "list_all isHeaderFieldCharacter k" "buf = k @ [CR, LF] @ c # r" "length buf < 2 ^ 62"
    "l_state l = HEADER_FIELD_START" "l_i l = 0"
  shows "feed_loop buf e l m = feed_loop buf e
    (l\<lparr>l_state := PART_DATA_START, l_index := length k, l_i := length k + 2\<rparr>) (notify onHeadersEnd (m\<lparr>headerFieldMark := UNMARKED\<rparr>))"
proof -
  let ?n = "length k"
  let ?l = "l\<lparr>l_state := HEADER_FIELD, l_index := 0\<rparr>" and ?m = "m\<lparr>headerFieldMark := 0\<rparr>"
  have i: "l_i l < length buf" "?n < length buf" "?n + 1 < length buf" using assms(3,6) by simp_all
  have nth: "buf ! ?n = CR" "buf ! (?n + 1) = LF" using assms(3) by (simp_all add: nth_append)
  have inc: "size_inc j = j + 1" if "j < length buf" for j using that assms(4) by (intro size_inc_less) simp
  have "feed_loop buf e l m = feed_loop buf e ?l ?m"
    using i(1) assms(4,5,6) by (subst (1 2) feed_loop.simps) (simp add: feed_switch_def)
  also have "\<dots> = feed_loop buf e (l\<lparr>l_state := HEADER_FIELD, l_index := ?n, l_i := ?n\<rparr>) ?m"
    using loop_name [of k ?l buf "[CR, LF] @ c # r" e ?m] assms by simp
  also have "\<dots> = feed_loop buf e (l\<lparr>l_state := HEADERS_ALMOST_DONE, l_index := ?n, l_i := ?n + 1\<rparr>) (m\<lparr>headerFieldMark := UNMARKED\<rparr>)"
    using i nth assms(4) inc [OF i(2)]
    by (subst loop_step [where ?l1.0 = "l\<lparr>l_state := HEADERS_ALMOST_DONE, l_index := ?n, l_i := ?n\<rparr>" and
          ?m1.0 = "m\<lparr>headerFieldMark := UNMARKED\<rparr>"]) (simp_all add: feed_switch_def case_HEADER_FIELD_def)
  also have "\<dots> = feed_loop buf e (l\<lparr>l_state := PART_DATA_START, l_index := ?n, l_i := ?n + 2\<rparr>) (notify onHeadersEnd (m\<lparr>headerFieldMark := UNMARKED\<rparr>))"
    using i nth assms(4) inc [OF i(3)]
    by (subst loop_step [where ?l1.0 = "l\<lparr>l_state := PART_DATA_START, l_index := ?n, l_i := ?n + 1\<rparr>" and
          ?m1.0 = "notify onHeadersEnd (m\<lparr>headerFieldMark := UNMARKED\<rparr>)"]) (simp_all add: feed_switch_def)
  finally show ?thesis .
qed

text \<open>A header line of letters without a colon that is longer than the lookbehind block makes \<open>feed\<close> throw at the first byte
  after it.\<close>

theorem colonless_header_throws:
  assumes "mp_wf b on m" "mp_state m = HEADER_FIELD_START" "list_all isHeaderFieldCharacter k" "length b + 8 < length k"
    "length (k @ [CR, LF] @ c # r) < 2 ^ 62"
  shows "mp_feed (k @ [CR, LF] @ c # r) m = Throw ''index overflows lookbehind buffer''"
proof -
  let ?buf = "k @ [CR, LF] @ c # r" and ?n = "length k"
  let ?l = "\<lparr>l_state = mp_state m, l_flags = mp_flags m, l_prev = mp_index m, l_index = mp_index m, l_i = 0\<rparr>"
  let ?l1 = "?l\<lparr>l_state := PART_DATA_START, l_index := length k, l_i := length k + 2\<rparr>"
  let ?m1 = "notify onHeadersEnd (m\<lparr>headerFieldMark := UNMARKED\<rparr>)"
  have st: "mp_static b on ?m1" using assms(1) by (simp add: mp_wf_def)
  have b: "boundarySize ?m1 = length b" "lookbehindSize ?m1 = length b + 8" "2 \<le> length b" "length b < 2 ^ 62"
    using st by (auto simp: mp_static_def)
  have u: "usub ?n 1 = ?n - 1" "usub ?n 2 = ?n - 2" "usub ?n (length b) = ?n - length b" using assms(4,5) b by (simp_all add: usub_less)
  have "k \<noteq> []" using assms(4) by auto
  then have "feed_loop ?buf e ?l m = feed_loop ?buf e ?l1 ?m1" for e
    by (rule loop_colonless [OF _ assms(3) refl assms(5)]) (use assms(2) in simp_all)
  moreover have "feed_switch ?buf e (?buf ! l_i ?l1) ?l1 ?m1 = Throw ''index overflows lookbehind buffer''" for e
  proof -
    let ?l2 = "?l1\<lparr>l_state := PART_DATA, l_prev := ?n\<rparr>" and ?m2 = "?m1\<lparr>partDataMark := ?n + 2\<rparr>"
    have "match_boundary ?buf x ?l2 ?m2 = Val (?l2, ?m2, False)" for x
    proof -
      have "\<not> ?n < length b" "?n \<noteq> length b" "?n - 1 \<noteq> length b" "?n - 2 \<noteq> length b" "?n - length b \<noteq> 3"
        using assms(4) by linarith+
      then show ?thesis unfolding match_boundary_def Let_def using b(1) u by simp
    qed
    moreover have "keep_lookbehind x ?l2 ?m2 = Throw ''index overflows lookbehind buffer''" for x
    proof -
      have "0 < ?n" "length b + 8 \<le> ?n - 1" using assms(4) by linarith+
      then show ?thesis unfolding keep_lookbehind_def using b(2) u(1) by simp
    qed
    ultimately show ?thesis using \<open>k \<noteq> []\<close>
      by (simp add: feed_switch_def case_PART_DATA_def processPartData_def Let_def)
  qed
  ultimately show ?thesis using assms(2,5) by (simp add: mp_feed_def) (subst feed_loop.simps, simp)
qed


lemma demo_header_wf: "mp_wf demo_boundary (\<lambda>_. True) (demo_parser\<lparr>mp_state := HEADER_FIELD_START\<rparr>)"
  using demo_wf(1) by (simp add: mp_wf_def mp_static_def mp_abs_def a_ok_def demo_fields)

lemma colonless_header_throws_witness:
  "mp_feed (replicate 14 (CHR ''a'') @ [CR, LF] @ CHR ''z'' # []) (demo_parser\<lparr>mp_state := HEADER_FIELD_START\<rparr>) =
     Throw ''index overflows lookbehind buffer''"
  by (rule colonless_header_throws [OF demo_header_wf])
    (simp_all add: demo_len list_all_iff isHeaderFieldCharacter_def schar_def)

text \<open>After a shorter line of that kind the first bytes of the lookbehind block, memory that was never written, are given to
  the client as the beginning of the part's data.\<close>

theorem colonless_header_leaks:
  assumes "mp_wf b on m" "mp_state m = HEADER_FIELD_START" "list_all isHeaderFieldCharacter k" "k \<noteq> []" "length k < length b"
    "c \<noteq> b ! length k" "\<not> occurs b (c # r)" "length (k @ [CR, LF] @ c # r) < 2 ^ 62"
  shows "\<exists>m' t p. mp_feed (k @ [CR, LF] @ c # r) m = Val (length (k @ [CR, LF] @ c # r), m') \<and> c # r = t @ p \<and> length p < length b \<and>
    events m' = events m @ heard on (Mark onHeadersEnd # map (Byte onPartData) (take (length k) (lookbehind m) @ t))"
proof -
  let ?buf = "k @ [CR, LF] @ c # r" and ?n = "length k" and ?e = "usub (length b) 1"
  let ?l = "\<lparr>l_state = mp_state m, l_flags = mp_flags m, l_prev = mp_index m, l_index = mp_index m, l_i = 0\<rparr>"
  let ?l1 = "?l\<lparr>l_state := PART_DATA_START, l_index := ?n, l_i := ?n + 2\<rparr>"
  let ?m1 = "notify onHeadersEnd (m\<lparr>headerFieldMark := UNMARKED\<rparr>)"
  let ?l2 = "?l1\<lparr>l_state := PART_DATA, l_prev := 0, l_index := 0\<rparr>"
  let ?m2 = "(mp_callback onPartData (Some (lookbehind m)) 0 ?n False (?m1\<lparr>partDataMark := ?n + 2\<rparr>))\<lparr>partDataMark := ?n + 2\<rparr>"
  have wf: "mp_static b on m" "boundarySize m = length b" "boundary m = b" "mp_cbs m = on" "length (lookbehind m) = length b + 8"
    "length b < 2 ^ 62" "headerFieldMark m = UNMARKED" "headerValueMark m = UNMARKED" "partDataMark m = UNMARKED"
    using assms(1,2) by (auto simp: mp_wf_def mp_static_def)
  have m1: "boundary ?m1 = b" "boundarySize ?m1 = length b" "lookbehind ?m1 = lookbehind m" "mp_static b on ?m1"
  proof -
    show st: "mp_static b on ?m1" using wf by simp
    then show "boundary ?m1 = b" "boundarySize ?m1 = length b" by (auto simp: mp_static_def)
  qed simp
  have nth: "?buf ! (?n + 2) = c" by (simp add: nth_append)
  have 1: "feed_loop ?buf ?e ?l m = feed_loop ?buf ?e ?l1 ?m1"
    by (rule loop_colonless [OF assms(4,3) refl assms(8)]) (use assms(2) in simp_all)
  have "match_boundary ?buf c (?l2\<lparr>l_index := ?n, l_prev := ?n\<rparr>) (?m1\<lparr>partDataMark := ?n + 2\<rparr>) =
      Val (?l2\<lparr>l_prev := ?n\<rparr>, ?m1\<lparr>partDataMark := ?n + 2\<rparr>, False)"
    using assms(5,6) m1 by (simp add: match_boundary_def str_at_def Let_def)
  moreover have "keep_lookbehind c (?l2\<lparr>l_prev := ?n\<rparr>) (?m1\<lparr>partDataMark := ?n + 2\<rparr>) = Val (?l2\<lparr>l_i := usub (?n + 2) 1\<rparr>, ?m2)"
    using assms(4) m1(3) by (simp add: keep_lookbehind_def)
  ultimately have sw: "feed_switch ?buf ?e (?buf ! l_i ?l1) ?l1 ?m1 = go (?l2\<lparr>l_i := usub (?n + 2) 1\<rparr>) ?m2"
    using nth assms(4) by (simp add: feed_switch_def case_PART_DATA_def processPartData_def Let_def)
  have inc: "size_inc (usub (?n + 2) 1) = ?n + 2" using assms(8) by (intro size_inc_dec) simp
  have 2: "feed_loop ?buf ?e ?l m = feed_loop ?buf ?e ?l2 ?m2"
    unfolding 1 using loop_step [OF sw _ assms(8)] inc by simp
  have ev: "events ?m2 = events m @ heard on (Mark onHeadersEnd # map (Byte onPartData) (take ?n (lookbehind m)))"
  proof -
    have "0 \<noteq> UNMARKED" by (simp add: UNMARKED_def)
    then show ?thesis using assms(5) wf by (simp add: events_callback events_notify since_def)
  qed
  have rel: "mp_rel b on (events ?m2) ?buf ?l2 ?m2 (data_at (mp_flags m) []) []"
    using wf m1(4) by (simp add: mp_rel_def a_ok_def marks_ok_def pending_def)
  have "b \<noteq> []" using assms(5) by auto
  then obtain p t where p: "runs b (data_at (mp_flags m) []) (c # r) (data_at (mp_flags m) p) t"
    "t @ map (Byte onPartData) p = map (Byte onPartData) (c # r)" "length p < length b"
    using runs_scan [of b "[]" "c # r" "mp_flags m"] assms(7) by auto
  then have run: "a_run b (data_at (mp_flags m) []) (drop (l_i ?l2) ?buf) = Some (data_at (mp_flags m) p, t, length (c # r))"
    by (simp add: runs_def)
  obtain m' where m': "mp_feed ?buf m = Val (length ?buf, m')" "events m' = events ?m2 @ heard on t"
    using feed_from [OF _ _ wf(2) assms(8) 2 rel _ run] assms(2) by auto
  obtain t' where t': "t = map (Byte onPartData) t'" "c # r = t' @ p"
  proof -
    have "t = take (length t) (t @ map (Byte onPartData) p)" by simp
    then have "t = map (Byte onPartData) (take (length t) (c # r))" unfolding p(2) take_map .
    moreover have "map (Byte onPartData) p = map (Byte onPartData) (drop (length t) (c # r))"
      using p(2) by (metis append_eq_conv_conj drop_map)
    then have "p = drop (length t) (c # r)" by (rule map_injective) (simp add: inj_def)
    ultimately show thesis using that by (metis append_take_drop_id)
  qed
  show ?thesis using m' p(3) t' unfolding ev
    by (intro exI [of _ m'] exI [of _ t'] exI [of _ p]) simp
qed


lemma colonless_header_leaks_witness:
  "\<exists>m' t p. mp_feed (''ab'' @ [CR, LF] @ CHR ''q'' # []) (demo_parser\<lparr>mp_state := HEADER_FIELD_START\<rparr>) =
       Val (length (''ab'' @ [CR, LF] @ CHR ''q'' # []), m') \<and> CHR ''q'' # [] = t @ p \<and> length p < length demo_boundary \<and>
     events m' = events (demo_parser\<lparr>mp_state := HEADER_FIELD_START\<rparr>) @ heard (\<lambda>_. True)
       (Mark onHeadersEnd # map (Byte onPartData) (take (length ''ab'') (lookbehind (demo_parser\<lparr>mp_state := HEADER_FIELD_START\<rparr>)) @ t))"
proof (rule colonless_header_leaks [OF demo_header_wf])
  show "\<not> occurs demo_boundary (CHR ''q'' # [])"
    using occurs_length [of demo_boundary "''q''"] by (auto simp: demo_len)
qed (simp_all add: demo_boundary_def isHeaderFieldCharacter_def schar_def)

end
