(* ===== verification/FastCache.thy ===== *)
theory FastCache
  imports Prelude "HOL-Library.AList"
begin

text \<open>
  \<open>rojcpp::Fastcache\<close> of \<open>include/tools/fastCache.hpp\<close>: a hash map in shards whose values expire. A shard's \<open>unordered_map\<close> is an
  association list with distinct keys; nothing depends on its order. The hash function and the number of shards are parameters. Every
  operation holds the mutex of its shard, so operations on one shard happen one after the other; the clock is an argument, in
  nanoseconds, and the thread that removes what has expired is a step of its own for each shard. (\<open>append\<close> of the cache adds a
  time point where \<open>CacheItem::append\<close> wants a duration and does not compile when it is used, so it has no model.)
\<close>

section \<open>Items and shards\<close>

record 'v cache_item =
  ci_data :: 'v
  expiration :: int

text \<open>\<open>time_point_cast\<close> to seconds truncates towards zero.\<close>

definition seconds_of :: "int \<Rightarrow> int" where
  "seconds_of t = (if t \<ge> 0 then t div 1000000000 else - ((- t) div 1000000000))"

definition CacheItem :: "int \<Rightarrow> 'v \<Rightarrow> int \<Rightarrow> 'v cache_item" where
  "CacheItem now d dura = \<lparr>ci_data = d, expiration = seconds_of now + dura\<rparr>"

definition item_append :: "int \<Rightarrow> string \<Rightarrow> int \<Rightarrow> bool \<Rightarrow> string cache_item \<Rightarrow> string cache_item" where
  "item_append now d new_exp use_pre_split_char it =
     (let it = (if use_pre_split_char then it\<lparr>ci_data := ci_data it @ '',''\<rparr> else it);
          it = it\<lparr>ci_data := ci_data it @ d\<rparr>
      in it\<lparr>expiration := seconds_of now + new_exp\<rparr>)"

definition expired :: "int \<Rightarrow> 'v cache_item \<Rightarrow> bool" where
  "expired now it \<longleftrightarrow> seconds_of now > expiration it"

type_synonym ('k, 'v) shard = "('k \<times> 'v cache_item) list"

text \<open>The loop over the items; the time has been cut to seconds before and is converted back.\<close>

fun del_expired_keys :: "int \<Rightarrow> ('k, 'v) shard \<Rightarrow> ('k, 'v) shard" where
  "del_expired_keys now_time [] = []"
| "del_expired_keys now_time (x # c) =
     (if expired (now_time * 1000000000) (snd x) then del_expired_keys now_time c else x # del_expired_keys now_time c)"

section \<open>The cache\<close>

definition Fastcache :: "nat \<Rightarrow> ('k, 'v) shard list" where
  "Fastcache Shard_size = replicate Shard_size []"

definition calc_index :: "('k \<Rightarrow> nat) \<Rightarrow> nat \<Rightarrow> 'k \<Rightarrow> nat" where
  "calc_index hash Shard_size key = hash key mod Shard_size"

definition total_size :: "('k, 'v) shard list \<Rightarrow> nat" where
  "total_size c = foldl (\<lambda>tot e. tot + length e) 0 c"

definition cache_set :: "('k \<Rightarrow> nat) \<Rightarrow> nat \<Rightarrow> int \<Rightarrow> 'k \<Rightarrow> 'v \<Rightarrow> int \<Rightarrow> ('k, 'v) shard list \<Rightarrow> ('k, 'v) shard list" where
  "cache_set hash n now key val dura c =
     (let index = calc_index hash n key in c[index := AList.update key (CacheItem now val dura) (c ! index)])"

definition cache_exists :: "('k \<Rightarrow> nat) \<Rightarrow> nat \<Rightarrow> 'k \<Rightarrow> ('k, 'v) shard list \<Rightarrow> bool" where
  "cache_exists hash n key c = (map_of (c ! calc_index hash n key) key \<noteq> None)"

definition cache_del :: "('k \<Rightarrow> nat) \<Rightarrow> nat \<Rightarrow> 'k \<Rightarrow> ('k, 'v) shard list \<Rightarrow> nat \<times> ('k, 'v) shard list" where
  "cache_del hash n key c =
     (let index = calc_index hash n key; s = c ! index in
      (if map_of s key \<noteq> None then 1 else 0, c[index := AList.delete key s]))"

definition new_expire :: "('k \<Rightarrow> nat) \<Rightarrow> nat \<Rightarrow> int \<Rightarrow> 'k \<Rightarrow> int \<Rightarrow> ('k, 'v) shard list \<Rightarrow> ('k, 'v) shard list" where
  "new_expire hash n now key dura c =
     (let index = calc_index hash n key; s = c ! index in
      case map_of s key of
        None \<Rightarrow> c
      | Some it \<Rightarrow> c[index := AList.update key (it\<lparr>expiration := seconds_of now + dura\<rparr>) s])"

definition cache_get :: "('k \<Rightarrow> nat) \<Rightarrow> nat \<Rightarrow> int \<Rightarrow> 'k \<Rightarrow> ('k, 'v) shard list \<Rightarrow> 'v option \<times> ('k, 'v) shard list" where
  "cache_get hash n now key c =
     (let index = calc_index hash n key; s = c ! index in
      case map_of s key of
        None \<Rightarrow> (None, c)
      | Some it \<Rightarrow> if expired now it then (None, c[index := AList.delete key s]) else (Some (ci_data it), c))"

text \<open>One turn of the loop in \<open>expired_check_func\<close>: the time is read once, the shards are taken one by one, with other operations
  in between.\<close>

definition sweep_shard :: "int \<Rightarrow> nat \<Rightarrow> ('k, 'v) shard list \<Rightarrow> ('k, 'v) shard list" where
  "sweep_shard now_time i c = c[i := del_expired_keys now_time (c ! i)]"

definition expired_check :: "int \<Rightarrow> ('k, 'v) shard list \<Rightarrow> ('k, 'v) shard list" where
  "expired_check now c = fold (sweep_shard (seconds_of now)) [0..<length c] c"

section \<open>Histories\<close>

text \<open>A history is a list of operations with the times at which they hold the mutex; a sweep has the time that its thread read.\<close>

datatype ('k, 'v) cache_op = CSet int 'k 'v int | CGet int 'k | CDel int 'k | CExpire int 'k int | CSweep int int nat

fun op_time :: "('k, 'v) cache_op \<Rightarrow> int" where
  "op_time (CSet t k v d) = t"
| "op_time (CGet t k) = t"
| "op_time (CDel t k) = t"
| "op_time (CExpire t k d) = t"
| "op_time (CSweep t u i) = t"

fun op_ok :: "('k, 'v) cache_op \<Rightarrow> bool" where
  "op_ok (CSweep t u i) \<longleftrightarrow> u \<le> seconds_of t"
| "op_ok _ \<longleftrightarrow> True"

text \<open>The answers of the gets, with the operations as arguments.\<close>

fun run_cache where
  "run_cache st ge de ex sw [] c = ([], c)"
| "run_cache st ge de ex sw (op # ops) c =
     (case op of
        CSet t k v d \<Rightarrow> run_cache st ge de ex sw ops (st t k v d c)
      | CGet t k \<Rightarrow> (let (r, c) = ge t k c; (rs, c) = run_cache st ge de ex sw ops c in (r # rs, c))
      | CDel t k \<Rightarrow> run_cache st ge de ex sw ops (snd (de k c))
      | CExpire t k d \<Rightarrow> run_cache st ge de ex sw ops (ex t k d c)
      | CSweep t u i \<Rightarrow> run_cache st ge de ex sw ops (sw u i c))"

text \<open>The specification: a map that forgets nothing and answers for what has not expired.\<close>

definition spec_set :: "int \<Rightarrow> 'k \<Rightarrow> 'v \<Rightarrow> int \<Rightarrow> ('k \<Rightarrow> 'v cache_item option) \<Rightarrow> ('k \<Rightarrow> 'v cache_item option)" where
  "spec_set t k v d m = m(k \<mapsto> CacheItem t v d)"

definition spec_get :: "int \<Rightarrow> 'k \<Rightarrow> ('k \<Rightarrow> 'v cache_item option) \<Rightarrow> 'v option \<times> ('k \<Rightarrow> 'v cache_item option)" where
  "spec_get t k m = (case m k of None \<Rightarrow> None | Some it \<Rightarrow> if seconds_of t \<le> expiration it then Some (ci_data it) else None, m)"

definition spec_del :: "'k \<Rightarrow> ('k \<Rightarrow> 'v cache_item option) \<Rightarrow> nat \<times> ('k \<Rightarrow> 'v cache_item option)" where
  "spec_del k m = (0, m(k := None))"

definition spec_expire :: "int \<Rightarrow> 'k \<Rightarrow> int \<Rightarrow> ('k \<Rightarrow> 'v cache_item option) \<Rightarrow> ('k \<Rightarrow> 'v cache_item option)" where
  "spec_expire t k d m = (case m k of None \<Rightarrow> m | Some it \<Rightarrow> m(k \<mapsto> it\<lparr>expiration := seconds_of t + d\<rparr>))"

abbreviation "run_spec \<equiv> run_cache spec_set spec_get spec_del spec_expire (\<lambda>u i m. m)"

text \<open>Times do not decrease, and no lease is renewed after its end: then the value may be there or not, as the sweeps had it.\<close>

fun history_ok :: "('k, 'v) cache_op list \<Rightarrow> int \<Rightarrow> ('k \<Rightarrow> 'v cache_item option) \<Rightarrow> bool" where
  "history_ok [] t m = True"
| "history_ok (op # ops) t m \<longleftrightarrow> t \<le> op_time op \<and> op_ok op \<and>
     (case op of CExpire u k d \<Rightarrow> (case m k of None \<Rightarrow> True | Some it \<Rightarrow> seconds_of u \<le> expiration it) | _ \<Rightarrow> True) \<and>
     history_ok ops (op_time op) (snd (run_spec [op] m))"

lemma seconds_of_mono: "t \<le> u \<Longrightarrow> seconds_of t \<le> seconds_of u"
  unfolding seconds_of_def by (auto intro: zdiv_mono1) (smt (verit) div_neg_pos_less0 pos_imp_zdiv_nonneg_iff)

lemma seconds_of_whole: "seconds_of (t * 1000000000) = t"
  by (simp add: seconds_of_def flip: mult_minus_left)

section \<open>The interface\<close>

text \<open>What the operations promise about the item that is found under a key.\<close>

locale expiring_cache =
  fixes find :: "'c \<Rightarrow> 'k \<Rightarrow> 'v cache_item option"
    and ok :: "'c \<Rightarrow> bool"
    and st :: "int \<Rightarrow> 'k \<Rightarrow> 'v \<Rightarrow> int \<Rightarrow> 'c \<Rightarrow> 'c"
    and ge :: "int \<Rightarrow> 'k \<Rightarrow> 'c \<Rightarrow> 'v option \<times> 'c"
    and de :: "'k \<Rightarrow> 'c \<Rightarrow> nat \<times> 'c"
    and ex :: "int \<Rightarrow> 'k \<Rightarrow> int \<Rightarrow> 'c \<Rightarrow> 'c"
    and sw :: "int \<Rightarrow> nat \<Rightarrow> 'c \<Rightarrow> 'c"
  assumes st: "ok c \<Longrightarrow> ok (st t k v d c) \<and> find (st t k v d c) = (find c)(k \<mapsto> CacheItem t v d)"
    and de: "ok c \<Longrightarrow> ok (snd (de k c)) \<and> find (snd (de k c)) = (find c)(k := None)"
    and ge: "ok c \<Longrightarrow> ok (snd (ge t k c)) \<and>
      fst (ge t k c) = (case find c k of None \<Rightarrow> None | Some it \<Rightarrow> if expired t it then None else Some (ci_data it)) \<and>
      find (snd (ge t k c)) = (case find c k of None \<Rightarrow> find c | Some it \<Rightarrow> if expired t it then (find c)(k := None) else find c)"
    and ex: "ok c \<Longrightarrow> ok (ex t k d c) \<and>
      find (ex t k d c) = (case find c k of None \<Rightarrow> find c | Some it \<Rightarrow> (find c)(k \<mapsto> it\<lparr>expiration := seconds_of t + d\<rparr>))"
    and sw: "ok c \<Longrightarrow> ok (sw u i c) \<and>
      (\<forall>k. find (sw u i c) k = find c k \<or> find (sw u i c) k = None \<and> (\<exists>it. find c k = Some it \<and> expiration it < u))"
begin

text \<open>The cache holds the items of the specification, but for some that have expired.\<close>

definition holds :: "int \<Rightarrow> 'c \<Rightarrow> ('k \<Rightarrow> 'v cache_item option) \<Rightarrow> bool" where
  "holds t c m \<longleftrightarrow> ok c \<and> (\<forall>k. find c k = m k \<or> find c k = None \<and> (\<exists>it. m k = Some it \<and> expiration it < seconds_of t))"

lemma holds_later:
  assumes "holds t c m" "t \<le> u"
  shows "holds u c m"
  unfolding holds_def
proof (intro conjI allI)
  fix k
  show "find c k = m k \<or> find c k = None \<and> (\<exists>it. m k = Some it \<and> expiration it < seconds_of u)"
    using assms(1) seconds_of_mono [OF assms(2)] unfolding holds_def by (meson less_le_trans)
qed (use assms in \<open>simp add: holds_def\<close>)

lemma run_exact:
  "holds t c m \<Longrightarrow> history_ok ops t m \<Longrightarrow> fst (run_cache st ge de ex sw ops c) = fst (run_spec ops m)"
proof (induction ops arbitrary: t c m)
  case (Cons op ops)
  let ?u = "op_time op"
  have h: "holds ?u c m" using holds_later [OF Cons.prems(1)] Cons.prems(2) by simp
  then have ok: "ok c" and f: "\<And>k. find c k = m k \<or> find c k = None \<and> (\<exists>it. m k = Some it \<and> expiration it < seconds_of ?u)"
    by (auto simp: holds_def)
  have next1: "history_ok ops ?u (snd (run_spec [op] m))" "op_ok op" using Cons.prems(2) by auto
  show ?case
  proof (cases op)
    case (CSet u k v d)
    have "holds ?u (st u k v d c) (spec_set u k v d m)"
      using st [OF ok, of u k v d] f by (auto simp: holds_def spec_set_def)
    from Cons.IH [OF this] next1 show ?thesis using CSet by simp
  next
    case (CGet u k)
    note g = ge [OF ok, of u k]
    have lost: "m k = None \<or> (\<exists>it. m k = Some it \<and> expiration it < seconds_of u)" if "find c k = None"
      using f [of k] that CGet by auto
    have kept: "m k = Some it" if "find c k = Some it" for it
      using f [of k] that by auto
    have a: "fst (ge u k c) = fst (spec_get u k m)"
      using g lost kept by (cases "find c k") (auto simp: spec_get_def expired_def)
    have fnd: "find (snd (ge u k c)) j = find c j \<or> j = k \<and> find (snd (ge u k c)) j = None \<and> (\<exists>it. m k = Some it \<and> expiration it < seconds_of u)" for j
      using g kept by (cases "find c k") (auto simp: expired_def)
    have "holds ?u (snd (ge u k c)) (snd (spec_get u k m))"
      unfolding holds_def spec_get_def snd_conv
    proof (intro conjI allI)
      fix j
      show "find (snd (ge u k c)) j = m j \<or> find (snd (ge u k c)) j = None \<and> (\<exists>it. m j = Some it \<and> expiration it < seconds_of ?u)"
        using fnd [of j] f [of j] CGet by auto
    qed (use g in simp)
    with a Cons.IH [OF this] next1(1) show ?thesis using CGet by (simp add: case_prod_beta)
  next
    case (CDel u k)
    have "holds ?u (snd (de k c)) (snd (spec_del k m))"
      using de [OF ok, of k] f by (auto simp: holds_def spec_del_def)
    from Cons.IH [OF this] next1 show ?thesis using CDel by simp
  next
    case (CExpire u k d)
    have "find c k = m k" using f [of k] Cons.prems(2) CExpire by auto
    then have "holds ?u (ex u k d c) (spec_expire u k d m)"
      using ex [OF ok, of u k d] f by (auto simp: holds_def spec_expire_def split: option.splits)
    from Cons.IH [OF this] next1 show ?thesis using CExpire by simp
  next
    case (CSweep t' u i)
    have "holds ?u (sw u i c) m"
      unfolding holds_def
    proof (intro conjI allI)
      fix k
      show "find (sw u i c) k = m k \<or> find (sw u i c) k = None \<and> (\<exists>it. m k = Some it \<and> expiration it < seconds_of ?u)"
        using sw [OF ok, of u i] f [of k] next1(2) CSweep by (metis less_le_trans op_ok.simps(1) op_time.simps(5))
    qed (use sw [OF ok] in simp)
    from Cons.IH [OF this] next1 show ?thesis using CSweep by simp
  qed
qed simp

end

section \<open>The shards keep the promise\<close>

definition shard_find :: "('k \<Rightarrow> nat) \<Rightarrow> nat \<Rightarrow> ('k, 'v) shard list \<Rightarrow> 'k \<Rightarrow> 'v cache_item option" where
  "shard_find hash n c k = map_of (c ! calc_index hash n k) k"

definition shards_ok :: "('k \<Rightarrow> nat) \<Rightarrow> nat \<Rightarrow> ('k, 'v) shard list \<Rightarrow> bool" where
  "shards_ok hash n c \<longleftrightarrow> 0 < n \<and> length c = n \<and>
     (\<forall>i<n. distinct (map fst (c ! i)) \<and> (\<forall>k \<in> fst ` set (c ! i). calc_index hash n k = i))"

lemma calc_index_less: "0 < n \<Longrightarrow> calc_index hash n k < n"
  by (simp add: calc_index_def)

lemma shards_ok_new: "0 < n \<Longrightarrow> shards_ok hash n (Fastcache n)"
  by (simp add: shards_ok_def Fastcache_def)

lemma shards_ok_upd:
  assumes "shards_ok hash n c" "distinct (map fst s)" "\<forall>k \<in> fst ` set s. calc_index hash n k = i"
  shows "shards_ok hash n (c[i := s])"
  using assms by (cases "i < length c") (auto simp: shards_ok_def nth_list_update list_update_beyond)

lemma shards_okD:
  assumes "shards_ok hash n c"
  shows "calc_index hash n k < length c" "distinct (map fst (c ! calc_index hash n k))"
    "\<forall>j \<in> fst ` set (c ! calc_index hash n k). calc_index hash n j = calc_index hash n k"
  using assms calc_index_less [of n hash k] by (auto simp: shards_ok_def)

lemma find_upd:
  assumes "shards_ok hash n c" "map_of s = (map_of (c ! calc_index hash n k))(k := x)"
  shows "shard_find hash n (c[calc_index hash n k := s]) = (shard_find hash n c)(k := x)"
  using assms shards_okD(1) [OF assms(1)] by (auto simp: shard_find_def nth_list_update fun_eq_iff)

lemma put_ok:
  assumes "shards_ok hash n c"
  shows "shards_ok hash n (c[calc_index hash n k := AList.update k x (c ! calc_index hash n k)])"
    "shard_find hash n (c[calc_index hash n k := AList.update k x (c ! calc_index hash n k)]) = (shard_find hash n c)(k \<mapsto> x)"
proof -
  note D = shards_okD [OF assms, of k]
  have "\<forall>j \<in> fst ` set (AList.update k x (c ! calc_index hash n k)). calc_index hash n j = calc_index hash n k"
    using D(3) unfolding dom_update by auto
  then show "shards_ok hash n (c[calc_index hash n k := AList.update k x (c ! calc_index hash n k)])"
    by (rule shards_ok_upd [OF assms distinct_update [OF D(2)]])
qed (rule find_upd [OF assms update_conv'])

lemma erase_ok:
  assumes "shards_ok hash n c"
  shows "shards_ok hash n (c[calc_index hash n k := AList.delete k (c ! calc_index hash n k)])"
    "shard_find hash n (c[calc_index hash n k := AList.delete k (c ! calc_index hash n k)]) = (shard_find hash n c)(k := None)"
proof -
  note D = shards_okD [OF assms, of k]
  have "\<forall>j \<in> fst ` set (AList.delete k (c ! calc_index hash n k)). calc_index hash n j = calc_index hash n k"
    using D(3) dom_delete_subset [of k "c ! calc_index hash n k"] by blast
  then show "shards_ok hash n (c[calc_index hash n k := AList.delete k (c ! calc_index hash n k)])"
    by (rule shards_ok_upd [OF assms distinct_delete [OF D(2)]])
qed (rule find_upd [OF assms delete_conv'])

lemma del_expired_keys_filter: "del_expired_keys u s = filter (\<lambda>x. \<not> expiration (snd x) < u) s"
  by (induction s) (auto simp: expired_def seconds_of_whole)

lemma map_of_filter_item:
  "distinct (map fst s) \<Longrightarrow> map_of (filter (\<lambda>x. P (snd x)) s) k = (case map_of s k of None \<Rightarrow> None | Some it \<Rightarrow> if P it then Some it else None)"
  by (induction s) (auto split: option.splits simp: map_of_eq_None_iff image_iff)

lemma sweep_find:
  assumes "shards_ok hash n c"
  shows "shard_find hash n (sweep_shard u i c) k =
    (case shard_find hash n c k of
       None \<Rightarrow> None
     | Some it \<Rightarrow> if i = calc_index hash n k \<and> expiration it < u then None else Some it)"
proof (cases "i = calc_index hash n k")
  case True
  have "shard_find hash n (sweep_shard u i c) k = map_of (filter (\<lambda>x. \<not> expiration (snd x) < u) (c ! i)) k"
    using shards_okD(1) [OF assms] True by (simp add: sweep_shard_def shard_find_def del_expired_keys_filter)
  moreover have "distinct (map fst (c ! i))" using shards_okD(2) [OF assms] True by simp
  ultimately show ?thesis
    using True map_of_filter_item [of "c ! i" "\<lambda>it. \<not> expiration it < u" k]
    by (simp add: shard_find_def split: option.splits)
next
  case False
  then show ?thesis by (simp add: sweep_shard_def shard_find_def split: option.splits)
qed

lemma sweep_ok:
  assumes "shards_ok hash n c"
  shows "shards_ok hash n (sweep_shard u i c)"
    "shard_find hash n (sweep_shard u i c) k = shard_find hash n c k \<or>
     shard_find hash n (sweep_shard u i c) k = None \<and> (\<exists>it. shard_find hash n c k = Some it \<and> expiration it < u)"
proof -
  show "shards_ok hash n (sweep_shard u i c)"
  proof (cases "i < length c")
    case True
    then have "distinct (map fst (c ! i))" "\<forall>k \<in> fst ` set (c ! i). calc_index hash n k = i"
      using assms by (auto simp: shards_ok_def)
    then show ?thesis unfolding sweep_shard_def del_expired_keys_filter
      by (intro shards_ok_upd [OF assms]) (auto simp: distinct_map_filter)
  qed (use assms in \<open>simp add: sweep_shard_def list_update_beyond\<close>)
  show "shard_find hash n (sweep_shard u i c) k = shard_find hash n c k \<or>
     shard_find hash n (sweep_shard u i c) k = None \<and> (\<exists>it. shard_find hash n c k = Some it \<and> expiration it < u)"
    unfolding sweep_find [OF assms] by (cases "shard_find hash n c k") simp_all
qed

lemma get_ok:
  assumes "shards_ok hash n c"
  shows "cache_get hash n t k c =
    (case shard_find hash n c k of
       None \<Rightarrow> (None, c)
     | Some it \<Rightarrow> if expired t it then (None, snd (cache_del hash n k c)) else (Some (ci_data it), c))"
  unfolding cache_get_def cache_del_def Let_def shard_find_def snd_conv by (rule refl)

lemma expire_ok:
  "new_expire hash n t k d c =
    (case shard_find hash n c k of
       None \<Rightarrow> c
     | Some it \<Rightarrow> c[calc_index hash n k := AList.update k (it\<lparr>expiration := seconds_of t + d\<rparr>) (c ! calc_index hash n k)])"
  unfolding new_expire_def Let_def shard_find_def by (rule refl)

lemma del_ok:
  assumes "shards_ok hash n c"
  shows "shards_ok hash n (snd (cache_del hash n k c))" "shard_find hash n (snd (cache_del hash n k c)) = (shard_find hash n c)(k := None)"
  using erase_ok [OF assms, of k] by (simp_all add: cache_del_def Let_def)

interpretation fc: expiring_cache "shard_find hash n" "shards_ok hash n" "cache_set hash n" "cache_get hash n" "cache_del hash n"
  "new_expire hash n" sweep_shard for hash n
proof (unfold_locales, goal_cases)
  case (1 c t k v d)
  then show ?case using put_ok [of hash n c k] by (simp add: cache_set_def Let_def)
next
  case (2 c k)
  then show ?case using del_ok [of hash n c k] by simp
next
  case (3 c t k)
  then show ?case using del_ok [of hash n c k] by (cases "shard_find hash n c k") (simp_all add: get_ok)
next
  case (4 c t k d)
  then show ?case using put_ok [of hash n c k] by (cases "shard_find hash n c k") (simp_all add: expire_ok)
next
  case (5 c u i)
  then show ?case using sweep_ok [of hash n c u i] by simp
qed

section \<open>Properties\<close>

lemma holds_new: "0 < n \<Longrightarrow> fc.holds hash n t (Fastcache n) (\<lambda>_. None)"
  using calc_index_less [of n hash] shards_ok_new [of n hash] by (simp add: fc.holds_def shard_find_def Fastcache_def)

text \<open>C24: whatever the thread that removes expired items does, and whenever, every \<open>get\<close> of a history answers as a map that
  forgets nothing: with the last value of the key while its lease lasts. (No lease of the history is renewed after its end.)\<close>

theorem cache_gets_exact:
  assumes "0 < n" "history_ok ops t (\<lambda>_. None)"
  shows "fst (run_cache (cache_set hash n) (cache_get hash n) (cache_del hash n) (new_expire hash n) sweep_shard ops (Fastcache n)) =
    fst (run_spec ops (\<lambda>_. None))"
  by (rule fc.run_exact [OF holds_new [OF assms(1)] assms(2)])

lemma cache_gets_exact_witness:
  "fst (run_cache (cache_set (\<lambda>k::nat. k) 3) (cache_get (\<lambda>k. k) 3) (cache_del (\<lambda>k. k) 3) (new_expire (\<lambda>k. k) 3) sweep_shard
     [CSet 0 4 True 2, CGet 2000000000 4, CSweep 3000000000 3 1, CGet 3000000000 4] (Fastcache 3)) = [Some True, None]"
proof -
  have "fst (run_spec [CSet 0 (4::nat) True 2, CGet 2000000000 4, CSweep 3000000000 3 1, CGet 3000000000 4] (\<lambda>_. None)) = [Some True, None]"
    by (simp add: spec_set_def spec_get_def CacheItem_def seconds_of_def)
  then show ?thesis
    by (subst cache_gets_exact [where t = 0]) (simp_all add: seconds_of_def)
qed

text \<open>A value whose lease has ended is still there for \<open>exists\<close> and can be given a new lease, but only until its shard is
  swept.\<close>

theorem expired_value_revives:
  assumes "shards_ok hash n c" "seconds_of t + d < seconds_of u" "0 \<le> d'"
  shows "let c1 = cache_set hash n t k v d c; c2 = sweep_shard (seconds_of u) (calc_index hash n k) c1 in
    cache_exists hash n k c1 \<and> fst (cache_get hash n u k c1) = None \<and>
    fst (cache_get hash n u k (new_expire hash n u k d' c1)) = Some v \<and>
    \<not> cache_exists hash n k c2 \<and> fst (cache_get hash n u k (new_expire hash n u k d' c2)) = None"
proof -
  define c1 where "c1 = cache_set hash n t k v d c"
  define c2 where "c2 = sweep_shard (seconds_of u) (calc_index hash n k) c1"
  have c1: "shards_ok hash n c1" "shard_find hash n c1 k = Some (CacheItem t v d)"
    using fc.st [OF assms(1), of t k v d] by (simp_all add: c1_def)
  have f2: "shard_find hash n c2 k = None"
    unfolding c2_def sweep_find [OF c1(1)] using c1(2) assms(2) by (simp add: CacheItem_def)
  have c2: "shards_ok hash n c2" using sweep_ok(1) [OF c1(1)] by (simp add: c2_def)
  have ex: "cache_exists hash n k x = (shard_find hash n x k \<noteq> None)" for x
    by (simp add: cache_exists_def shard_find_def)
  let ?r1 = "new_expire hash n u k d' c1" and ?r2 = "new_expire hash n u k d' c2"
  have r1: "shards_ok hash n ?r1" "shard_find hash n ?r1 k = Some (CacheItem t v d\<lparr>expiration := seconds_of u + d'\<rparr>)"
    using fc.ex [OF c1(1), of u k d'] c1(2) by simp_all
  have r2: "shards_ok hash n ?r2" "shard_find hash n ?r2 k = None"
    using fc.ex [OF c2, of u k d'] f2 by simp_all
  have "fst (cache_get hash n u k c1) = None"
    using fc.ge [OF c1(1), of u k] c1(2) assms(2) by (simp add: CacheItem_def expired_def)
  moreover have "fst (cache_get hash n u k ?r1) = Some v"
    using fc.ge [OF r1(1), of u k] r1(2) assms(3) by (simp add: CacheItem_def expired_def)
  moreover have "fst (cache_get hash n u k ?r2) = None" using fc.ge [OF r2(1), of u k] r2(2) by simp
  ultimately show ?thesis unfolding Let_def c1_def [symmetric] c2_def [symmetric] by (simp add: ex c1(2) f2)
qed

lemma expired_value_revives_witness:
  "cache_exists (\<lambda>k::nat. k) 3 4 (cache_set (\<lambda>k. k) 3 0 4 True 2 (Fastcache 3)) \<and>
   fst (cache_get (\<lambda>k. k) 3 5000000000 4 (new_expire (\<lambda>k. k) 3 5000000000 4 1 (cache_set (\<lambda>k. k) 3 0 4 True 2 (Fastcache 3)))) = Some True"
proof -
  have "seconds_of 0 + 2 < seconds_of 5000000000" by (simp add: seconds_of_def)
  from expired_value_revives [OF shards_ok_new [of 3 "\<lambda>k. k"] this, of 1 4 True] show ?thesis by (simp add: Let_def)
qed

end
