(* ===== verification/IoCtx.thy ===== *)
theory IoCtx
  imports TaQueue PoolImpl
begin

text \<open>
  The event loop of \<open>libs/tinyasync/include/tinyasync/io_context.h\<close>: the timer queue, and the critical sections of \<open>IoCtx\<close> for one thread
  and for several. Times are in nanoseconds. \<open>epoll_ctl\<close> on the wake-up handle is taken to succeed; it arms the event again, which is
  delivered to one thread (\<open>EPOLLONESHOT\<close>). What the threads do together is in \<open>IoRun\<close>.
\<close>

section \<open>Timer nodes\<close>

record tnodes =
  t_next :: "addr \<Rightarrow> addr"
  t_prev :: "addr \<Rightarrow> addr"
  t_post_task :: "addr \<Rightarrow> node"
  t_expire :: "addr \<Rightarrow> int"

definition timeNode_init :: "addr \<Rightarrow> tnodes \<Rightarrow> tnodes" where
  "timeNode_init a s = s\<lparr>t_next := (t_next s)(a := a), t_prev := (t_prev s)(a := a)\<rparr>"

definition timeNode_remove_self :: "addr \<Rightarrow> tnodes \<Rightarrow> bool \<times> tnodes" where
  "timeNode_remove_self a s =
     (let prev = t_prev s a; next = t_next s a;
          s = s\<lparr>t_prev := (t_prev s)(next := prev)\<rparr>;
          s = s\<lparr>t_next := (t_next s)(prev := next)\<rparr>
      in (prev = next, s))"

definition timeNode_push :: "addr \<Rightarrow> addr \<Rightarrow> tnodes \<Rightarrow> tnodes" where
  "timeNode_push a n s =
     (let next = t_next s a;
          s = s\<lparr>t_next := (t_next s)(n := next)\<rparr>;
          s = s\<lparr>t_prev := (t_prev s)(n := a)\<rparr>;
          s = s\<lparr>t_next := (t_next s)(a := n)\<rparr>
      in s\<lparr>t_prev := (t_prev s)(next := n)\<rparr>)"

definition timeNode_is_expire :: "addr \<Rightarrow> int \<Rightarrow> tnodes \<Rightarrow> bool" where
  "timeNode_is_expire a ts s \<longleftrightarrow> t_expire s a < ts"

section \<open>The timer queue\<close>

text \<open>The address of \<open>m_head\<close> is an argument; \<open>m_size\<close> is never used.\<close>

definition timeQueue_duration :: int where "timeQueue_duration = 10 * 1000 * 1000000"

definition timeQueue_front :: "addr \<Rightarrow> tnodes \<Rightarrow> addr" where
  "timeQueue_front m_head s = t_next s m_head"

definition timeQueue_back :: "addr \<Rightarrow> tnodes \<Rightarrow> addr" where
  "timeQueue_back m_head s = t_prev s m_head"

definition timeQueue_empty :: "addr \<Rightarrow> tnodes \<Rightarrow> bool" where
  "timeQueue_empty m_head s \<longleftrightarrow> t_next s m_head = m_head"

definition timeQueue_push :: "addr \<Rightarrow> int \<Rightarrow> addr \<Rightarrow> tnodes \<Rightarrow> tnodes" where
  "timeQueue_push m_head now n s =
     (let s = s\<lparr>t_expire := (t_expire s)(n := now + timeQueue_duration)\<rparr> in timeNode_push (timeQueue_back m_head s) n s)"

definition timeQueue_pop :: "addr \<Rightarrow> tnodes \<Rightarrow> tnodes" where
  "timeQueue_pop m_head s =
     (if \<not> timeQueue_empty m_head s then snd (timeNode_remove_self (timeQueue_front m_head s) s) else s)"

text \<open>The nodes form a ring like those of the memory pool.\<close>

abbreviation "links s \<equiv> (t_next s, t_prev s)"

lemma timeNode_links:
  "links (timeNode_init a s) = FreeNode_init a (links s)"
  "links (snd (timeNode_remove_self a s)) = snd (FreeNode_remove_self a (links s))"
  "links (timeNode_push a n s) = FreeNode_push a n (links s)"
  by (auto simp: timeNode_init_def FreeNode_init_def timeNode_remove_self_def FreeNode_remove_self_def timeNode_push_def
      FreeNode_push_def Let_def)

lemma timeNode_other [simp]:
  "t_post_task (snd (timeNode_remove_self a s)) = t_post_task s" "t_expire (snd (timeNode_remove_self a s)) = t_expire s"
  "t_post_task (timeNode_push a n s) = t_post_task s" "t_expire (timeNode_push a n s) = t_expire s"
  "t_post_task (timeNode_init a s) = t_post_task s" "t_expire (timeNode_init a s) = t_expire s"
  "t_post_task (timeQueue_pop a s) = t_post_task s" "t_expire (timeQueue_pop a s) = t_expire s"
  by (simp_all add: timeNode_remove_self_def timeNode_push_def timeNode_init_def timeQueue_pop_def Let_def)

definition time_rep :: "addr \<Rightarrow> tnodes \<Rightarrow> addr list \<Rightarrow> bool" where
  "time_rep m_head s ts \<longleftrightarrow> ring (links s) m_head ts"

lemma ring_rotate: "ring h a (xs @ b # ys) \<Longrightarrow> ring h b (ys @ a # xs)"
  by (auto simp: ring_def chain_append)

lemma time_rep_init: "time_rep a (timeNode_init a s) []"
  by (simp add: time_rep_def timeNode_links ring_init)

lemma ring_ends:
  assumes "ring h a xs"
  shows "fst h a = hd (xs @ [a])" "snd h a = last (a # xs)"
proof -
  show "fst h a = hd (xs @ [a])" using assms by (cases xs) (auto simp: ring_def)
  show "snd h a = last (a # xs)" using assms by (cases xs rule: rev_cases) (auto simp: ring_def chain_append)
qed

lemma time_rep_empty: "time_rep a s ts \<Longrightarrow> timeQueue_empty a s \<longleftrightarrow> ts = []"
  using ring_ends(1) [of "links s" a ts] by (cases ts) (auto simp: time_rep_def timeQueue_empty_def ring_def)

lemma time_rep_front: "time_rep a s (n # ts) \<Longrightarrow> timeQueue_front a s = n"
  using ring_ends(1) [of "links s" a "n # ts"] by (simp add: time_rep_def timeQueue_front_def)

lemma time_rep_push:
  assumes "time_rep a s ts" "n \<notin> insert a (set ts)"
  shows "time_rep a (timeQueue_push a now n s) (ts @ [n])"
proof -
  define s1 where "s1 = s\<lparr>t_expire := (t_expire s)(n := now + timeQueue_duration)\<rparr>"
  have r: "ring (links s1) a ts" using assms(1) by (simp add: s1_def time_rep_def)
  define b where "b = last (a # ts)"
  have b: "timeQueue_back a s1 = b" using ring_ends(2) [OF r] by (simp add: timeQueue_back_def b_def)
  have "ring (FreeNode_push b n (links s1)) a (ts @ [n])"
  proof (cases ts rule: rev_cases)
    case Nil
    then show ?thesis using ring_push [OF r] assms(2) by (simp add: b_def)
  next
    case (snoc zs z)
    then have z: "b = z" by (simp add: b_def)
    have "ring (links s1) z ([] @ a # zs)" using ring_rotate [of "links s1" a zs z "[]"] r snoc by simp
    from ring_push [OF this, of n] have "ring (FreeNode_push z n (links s1)) z ([n] @ a # zs)"
      using assms(2) snoc by simp
    from ring_rotate [OF this] show ?thesis by (simp add: snoc z)
  qed
  then show ?thesis
    by (simp add: time_rep_def timeQueue_push_def timeNode_links s1_def [symmetric] b Let_def)
qed

lemma time_rep_remove: "time_rep a s (xs @ n # ys) \<Longrightarrow> time_rep a (snd (timeNode_remove_self n s)) (xs @ ys)"
  unfolding time_rep_def timeNode_links by (rule ring_remove(2))

lemma time_rep_pop:
  assumes "time_rep a s (n # ts)"
  shows "time_rep a (timeQueue_pop a s) ts"
  using time_rep_remove [of a s "[]" n ts] assms time_rep_empty [OF assms] time_rep_front [OF assms]
  by (simp add: timeQueue_pop_def)

text \<open>To remove a node twice in a row changes nothing more.\<close>

lemma remove_self_twice: "snd (timeNode_remove_self a (snd (timeNode_remove_self a s))) = snd (timeNode_remove_self a s)"
  by (cases s) (auto simp: timeNode_remove_self_def Let_def fun_eq_iff)

section \<open>The context\<close>

text \<open>
  \<open>mt\<close> below is \<open>k_multiple_thread\<close>. \<open>que_locked\<close> is the state of \<open>m_que_lock\<close>, \<open>wakeup_armed\<close> whether the wake-up event can be
  delivered. The counters are numbers of threads and of nodes in memory and cannot wrap around.
\<close>

record io_ctx =
  que_locked :: bool
  m_thread_waiting :: int
  m_task_queue_size :: int
  m_task_queue :: qstate
  m_time_queue :: tnodes
  time_head :: addr
  m_abort_requested :: bool
  wakeup_armed :: bool

definition IoCtx_new :: "next_heap \<Rightarrow> tnodes \<Rightarrow> addr \<Rightarrow> io_ctx" where
  "IoCtx_new h s a =
     \<lparr>que_locked = False, m_thread_waiting = 0, m_task_queue_size = 0, m_task_queue = (h, Queue_init),
      m_time_queue = timeNode_init a s, time_head = a, m_abort_requested = False, wakeup_armed = True\<rparr>"

text \<open>A thread that takes a spin lock which it holds itself waits for ever.\<close>

datatype 'a held = Done 'a io_ctx | SelfLock io_ctx | AssertFail

definition que_lock :: "bool \<Rightarrow> io_ctx \<Rightarrow> unit held" where
  "que_lock mt c = (if mt then if que_locked c then SelfLock c else Done () (c\<lparr>que_locked := True\<rparr>) else Done () c)"

definition que_unlock :: "bool \<Rightarrow> io_ctx \<Rightarrow> io_ctx" where
  "que_unlock mt c = (if mt then c\<lparr>que_locked := False\<rparr> else c)"

definition wakeup_a_thread :: "io_ctx \<Rightarrow> io_ctx" where
  "wakeup_a_thread c = c\<lparr>wakeup_armed := True\<rparr>"

text \<open>The part of \<open>post_task\<close> under the lock; the result says whether a thread is to be woken.\<close>

definition post_section :: "bool \<Rightarrow> node \<Rightarrow> io_ctx \<Rightarrow> bool held" where
  "post_section mt task c =
     (if mt then
        (case que_lock mt c of
           Done _ c \<Rightarrow>
             let c = c\<lparr>m_task_queue := Queue_push task (m_task_queue c)\<rparr>;
                 c = c\<lparr>m_task_queue_size := m_task_queue_size c + 1\<rparr>;
                 thread_wating = m_thread_waiting c
             in Done (thread_wating > 0) (que_unlock mt c)
         | SelfLock c \<Rightarrow> SelfLock c
         | AssertFail \<Rightarrow> AssertFail)
      else Done False (c\<lparr>m_task_queue := Queue_push task (m_task_queue c)\<rparr>))"

definition post_task :: "bool \<Rightarrow> node \<Rightarrow> io_ctx \<Rightarrow> unit held" where
  "post_task mt task c =
     (case post_section mt task c of
        Done wake c \<Rightarrow> Done () (if wake then wakeup_a_thread c else c)
      | SelfLock c \<Rightarrow> SelfLock c
      | AssertFail \<Rightarrow> AssertFail)"

text \<open>\<open>post_time_out\<close> takes no lock.\<close>

definition post_time_out :: "int \<Rightarrow> addr \<Rightarrow> io_ctx \<Rightarrow> io_ctx" where
  "post_time_out now tnode c = c\<lparr>m_time_queue := timeQueue_push (time_head c) now tnode (m_time_queue c)\<rparr>"

definition abort_section :: "bool \<Rightarrow> io_ctx \<Rightarrow> bool held" where
  "abort_section mt c =
     (if mt then
        (case que_lock mt c of
           Done _ c \<Rightarrow> let c = c\<lparr>m_abort_requested := True\<rparr> in Done (m_thread_waiting c > 0) (que_unlock mt c)
         | SelfLock c \<Rightarrow> SelfLock c
         | AssertFail \<Rightarrow> AssertFail)
      else Done False (c\<lparr>m_abort_requested := True\<rparr>))"

definition request_abort :: "bool \<Rightarrow> io_ctx \<Rightarrow> unit held" where
  "request_abort mt c =
     (case abort_section mt c of
        Done wake c \<Rightarrow> Done () (if wake then wakeup_a_thread c else c)
      | SelfLock c \<Rightarrow> SelfLock c
      | AssertFail \<Rightarrow> AssertFail)"

section \<open>The head of the loop of run\<close>

text \<open>The loop over the timer queue, with the lock held.\<close>

partial_function (option) check_timers :: "bool \<Rightarrow> int \<Rightarrow> io_ctx \<Rightarrow> unit held option" where
  "check_timers mt now_time c =
     (if timeQueue_empty (time_head c) (m_time_queue c) then Some (Done () c)
      else let time_node = timeQueue_front (time_head c) (m_time_queue c) in
        if \<not> timeNode_is_expire time_node now_time (m_time_queue c) then Some (Done () c)
        else let c = c\<lparr>m_time_queue := timeQueue_pop (time_head c) (m_time_queue c)\<rparr> in
          case post_task mt (t_post_task (m_time_queue c) time_node) c of
            Done _ c \<Rightarrow> check_timers mt now_time (c\<lparr>m_time_queue := snd (timeNode_remove_self time_node (m_time_queue c))\<rparr>)
          | SelfLock c \<Rightarrow> Some (SelfLock c)
          | AssertFail \<Rightarrow> Some AssertFail)"

text \<open>What a thread does when it has released the lock. A task that was taken from the queue is dropped when the loop ends.\<close>

datatype head_out = LoopEnds | RunTask node | WaitEvents

definition take_task :: "bool \<Rightarrow> io_ctx \<Rightarrow> head_out held" where
  "take_task mt c =
     (case Queue_pop (m_task_queue c) of
        None \<Rightarrow> AssertFail
      | Some (node, q) \<Rightarrow>
          let c = c\<lparr>m_task_queue := q\<rparr> in
          if m_abort_requested c then Done LoopEnds (que_unlock mt c)
          else (case node of
              Some n \<Rightarrow> Done (RunTask n) (if mt then que_unlock mt (c\<lparr>m_task_queue_size := m_task_queue_size c - 1\<rparr>) else c)
            | None \<Rightarrow> Done WaitEvents (if mt then que_unlock mt (c\<lparr>m_thread_waiting := m_thread_waiting c + 1\<rparr>) else c)))"

definition loop_head :: "bool \<Rightarrow> int \<Rightarrow> io_ctx \<Rightarrow> head_out held option" where
  "loop_head mt now_time c =
     (case que_lock mt c of
        Done _ c \<Rightarrow>
          (case check_timers mt now_time c of
             None \<Rightarrow> None
           | Some (Done _ c) \<Rightarrow> Some (take_task mt c)
           | Some (SelfLock c) \<Rightarrow> Some (SelfLock c)
           | Some AssertFail \<Rightarrow> Some AssertFail)
      | SelfLock c \<Rightarrow> Some (SelfLock c)
      | AssertFail \<Rightarrow> Some AssertFail)"

section \<open>After epoll\_wait\<close>

definition count_section :: "io_ctx \<Rightarrow> int held" where
  "count_section c =
     (case que_lock True c of
        Done _ c \<Rightarrow>
          let c = c\<lparr>m_thread_waiting := m_thread_waiting c - 1\<rparr>; task_queue_size = m_task_queue_size c
          in Done task_queue_size (que_unlock True c)
      | SelfLock c \<Rightarrow> SelfLock c
      | AssertFail \<Rightarrow> AssertFail)"

text \<open>An event is the pointer in its data: the wake-up event has 1, the others have the address of a callback.\<close>

definition CallbackGuard :: nat where "CallbackGuard = 8"

fun scan_effective :: "nat list \<Rightarrow> nat" where
  "scan_effective [] = 0"
| "scan_effective (e # es) = (if e < CallbackGuard then scan_effective es else 1)"

fun scan_wakeup :: "nat list \<Rightarrow> nat" where
  "scan_wakeup [] = 0"
| "scan_wakeup (e # es) = (if e < CallbackGuard then 1 else scan_wakeup es)"

text \<open>The numbers \<open>effective_event\<close> and \<open>wakeup_event\<close>.\<close>

fun overview :: "nat list \<Rightarrow> nat \<times> nat" where
  "overview [] = (0, 0)"
| "overview (e # es) = (if e < CallbackGuard then (scan_effective es, 1) else (1, scan_wakeup es))"

definition must_wake :: "bool \<Rightarrow> int \<Rightarrow> nat list \<Rightarrow> bool" where
  "must_wake abort task_queue_size es =
     (let (effective_event, wakeup_event) = overview es in
      abort \<or> wakeup_event \<noteq> 0 \<and> task_queue_size + int effective_event > 1)"

lemma overview_eq: "overview es = (of_bool (\<exists>e \<in> set es. e \<ge> CallbackGuard), of_bool (\<exists>e \<in> set es. e < CallbackGuard))"
proof -
  have e: "scan_effective es = of_bool (\<exists>e \<in> set es. e \<ge> CallbackGuard)" for es
    by (induction es) auto
  have w: "scan_wakeup es = of_bool (\<exists>e \<in> set es. e < CallbackGuard)" for es
    by (induction es) auto
  show ?thesis by (cases es) (auto simp: e w)
qed

section \<open>One thread\<close>

text \<open>The timers of \<open>ts\<close> are in the timer queue and the tasks \<open>xs\<close> in the task queue.\<close>

definition ctx_rep :: "io_ctx \<Rightarrow> node list \<Rightarrow> addr list \<Rightarrow> bool" where
  "ctx_rep c xs ts \<longleftrightarrow> queue_rep (m_task_queue c) xs \<and> time_rep (time_head c) (m_time_queue c) ts"

abbreviation "task_of c n \<equiv> t_post_task (m_time_queue c) n"
abbreviation "expiry_of c n \<equiv> t_expire (m_time_queue c) n"

lemma ctx_rep_new: "ctx_rep (IoCtx_new h s a) [] []"
  by (simp add: ctx_rep_def IoCtx_new_def Queue_init_rep time_rep_init)

lemma post_time_out_rep:
  assumes "ctx_rep c xs ts" "n \<notin> insert (time_head c) (set ts)"
  shows "ctx_rep (post_time_out now n c) xs (ts @ [n])" "task_of (post_time_out now n c) = task_of c"
    "expiry_of (post_time_out now n c) = (expiry_of c)(n := now + timeQueue_duration)"
  using assms time_rep_push [of "time_head c" "m_time_queue c" ts n now]
  by (simp_all add: ctx_rep_def post_time_out_def timeQueue_push_def Let_def fun_eq_iff)

lemma check_timers_rep:
  assumes "ctx_rep c xs ts" "distinct (xs @ map (task_of c) ts)"
  shows "\<exists>c'. check_timers False now c = Some (Done () c') \<and>
    ctx_rep c' (xs @ map (task_of c) (takeWhile (\<lambda>n. expiry_of c n < now) ts)) (dropWhile (\<lambda>n. expiry_of c n < now) ts) \<and>
    task_of c' = task_of c \<and> expiry_of c' = expiry_of c \<and> m_abort_requested c' = m_abort_requested c \<and> time_head c' = time_head c"
  using assms
proof (induction ts arbitrary: c xs)
  case Nil
  then have "timeQueue_empty (time_head c) (m_time_queue c)" using time_rep_empty by (auto simp: ctx_rep_def)
  with Nil show ?case by (subst check_timers.simps) simp
next
  case (Cons n ts)
  have r: "time_rep (time_head c) (m_time_queue c) (n # ts)" using Cons.prems(1) by (simp add: ctx_rep_def)
  have ne: "\<not> timeQueue_empty (time_head c) (m_time_queue c)" using time_rep_empty [OF r] by simp
  note f = time_rep_front [OF r]
  show ?case
  proof (cases "expiry_of c n < now")
    case False
    with ne f Cons.prems show ?thesis by (subst check_timers.simps) (simp add: Let_def timeNode_is_expire_def)
  next
    case True
    define s where "s = timeQueue_pop (time_head c) (m_time_queue c)"
    define c1 where "c1 = c\<lparr>m_task_queue := Queue_push (task_of c n) (m_task_queue c), m_time_queue := s\<rparr>"
    have twice: "snd (timeNode_remove_self n s) = s"
      using ne f remove_self_twice [of n "m_time_queue c"] by (simp add: s_def timeQueue_pop_def)
    have "check_timers False now c = check_timers False now c1"
      using ne f True twice
      by (subst check_timers.simps)
        (simp add: Let_def timeNode_is_expire_def post_task_def post_section_def c1_def s_def [symmetric], simp add: s_def)
    moreover have "ctx_rep c1 (xs @ [task_of c n]) ts"
      using Cons.prems time_rep_pop [OF r] Queue_push_rep [of "m_task_queue c" xs "task_of c n"] by (simp add: ctx_rep_def c1_def s_def)
    moreover have "task_of c1 = task_of c" "expiry_of c1 = expiry_of c" by (simp_all add: c1_def s_def)
    ultimately show ?thesis
      using Cons.IH [of c1 "xs @ [task_of c n]"] Cons.prems(2) True by (simp add: c1_def)
  qed
qed


lemma takeWhile_sorted:
  assumes "sorted (map f ts)"
  shows "takeWhile (\<lambda>n. f n < (k::int)) ts = filter (\<lambda>n. f n < k) ts" "dropWhile (\<lambda>n. f n < k) ts = filter (\<lambda>n. \<not> f n < k) ts"
proof -
  have none: "\<forall>y \<in> set ts. \<not> f y < k" if "sorted (map f (x # ts))" "\<not> f x < k" for x ts
    using that by fastforce
  show "takeWhile (\<lambda>n. f n < k) ts = filter (\<lambda>n. f n < k) ts" using assms
  proof (induction ts)
    case (Cons x ts)
    then show ?case using none [OF Cons.prems] by (auto simp: filter_empty_conv)
  qed simp
  show "dropWhile (\<lambda>n. f n < k) ts = filter (\<lambda>n. \<not> f n < k) ts" using assms
  proof (induction ts)
    case (Cons x ts)
    then show ?case using none [OF Cons.prems] by auto
  qed simp
qed

text \<open>Timers come in the order of the clock, so they are sorted.\<close>

lemma post_time_out_sorted:
  assumes "sorted (map (expiry_of c) ts)" "n \<notin> set ts" "\<forall>m \<in> set ts. expiry_of c m \<le> now + timeQueue_duration"
  shows "sorted (map (expiry_of (post_time_out now n c)) (ts @ [n]))"
proof -
  have "map (expiry_of (post_time_out now n c)) ts = map (expiry_of c) ts"
    using assms(2) by (auto simp: post_time_out_def timeQueue_push_def Let_def)
  then have e: "map (expiry_of (post_time_out now n c)) (ts @ [n]) = map (expiry_of c) ts @ [now + timeQueue_duration]"
    by (simp add: post_time_out_def timeQueue_push_def Let_def)
  show ?thesis unfolding e using assms by (simp add: sorted_append)
qed

section \<open>Properties\<close>

text \<open>C27: a context with one thread takes the timers that have expired, and only those, out of the timer queue and lines up their tasks
  behind the ones that wait; the thread runs the first task, or waits for events when there is none.\<close>

theorem timers_post_tasks:
  assumes "ctx_rep c xs ts" "distinct (xs @ map (task_of c) ts)" "sorted (map (expiry_of c) ts)" "\<not> m_abort_requested c"
  shows "let due = xs @ map (task_of c) (filter (\<lambda>n. expiry_of c n < now) ts) in
    \<exists>c'. loop_head False now c = Some (Done (case due of [] \<Rightarrow> WaitEvents | n # _ \<Rightarrow> RunTask n) c') \<and>
      ctx_rep c' (tl due) (filter (\<lambda>n. \<not> expiry_of c n < now) ts)"
proof -
  define due where "due = xs @ map (task_of c) (filter (\<lambda>n. expiry_of c n < now) ts)"
  define rest where "rest = filter (\<lambda>n. \<not> expiry_of c n < now) ts"
  from check_timers_rep [OF assms(1,2), of now] obtain c1 where c1: "check_timers False now c = Some (Done () c1)"
    "ctx_rep c1 due rest" "\<not> m_abort_requested c1"
    using assms(4) unfolding takeWhile_sorted [OF assms(3)] due_def rest_def by auto
  have h: "loop_head False now c = Some (take_task False c1)" using c1(1) by (simp add: loop_head_def que_lock_def)
  have "\<exists>c'. loop_head False now c = Some (Done (case due of [] \<Rightarrow> WaitEvents | n # _ \<Rightarrow> RunTask n) c') \<and> ctx_rep c' (tl due) rest"
  proof (cases due)
    case Nil
    then have "Queue_pop (m_task_queue c1) = Some (None, m_task_queue c1)" using c1(2) Queue_pop_Nil by (simp add: ctx_rep_def)
    with h c1(2,3) Nil show ?thesis by (simp add: take_task_def)
  next
    case (Cons n ns)
    then obtain q where "Queue_pop (m_task_queue c1) = Some (Some n, q)" "queue_rep q ns"
      using c1(2) Queue_pop_Cons [of "m_task_queue c1" n ns] by (auto simp: ctx_rep_def)
    with h c1(2,3) Cons show ?thesis by (simp add: take_task_def ctx_rep_def)
  qed
  then show ?thesis by (simp add: due_def rest_def Let_def)
qed

lemma timers_post_tasks_witness:
  "\<exists>c'. loop_head False 10000000003 (post_time_out 5 2 (post_time_out 0 1
       (IoCtx_new (\<lambda>_. None) \<lparr>t_next = \<lambda>_. 0, t_prev = \<lambda>_. 0, t_post_task = \<lambda>n. n + 100, t_expire = \<lambda>_. 0\<rparr> 0)))
     = Some (Done (RunTask 101) c') \<and> ctx_rep c' [] [2]"
proof -
  define c0 where "c0 = IoCtx_new (\<lambda>_. None) \<lparr>t_next = \<lambda>_. 0, t_prev = \<lambda>_. 0, t_post_task = \<lambda>n. n + 100, t_expire = \<lambda>_. 0\<rparr> 0"
  have c0: "ctx_rep c0 [] []" "time_head c0 = 0" "task_of c0 = (\<lambda>n. n + 100)" "\<not> m_abort_requested c0"
    by (simp_all add: c0_def ctx_rep_new, simp_all add: IoCtx_new_def)
  define c1 where "c1 = post_time_out 0 1 c0"
  define c2 where "c2 = post_time_out 5 2 c1"
  have c1: "ctx_rep c1 [] [1]" "task_of c1 = task_of c0" "expiry_of c1 1 = timeQueue_duration" "time_head c1 = 0" "\<not> m_abort_requested c1"
    using post_time_out_rep [OF c0(1), of 1 0] c0 unfolding c1_def by (simp_all, simp_all add: post_time_out_def)
  have c2: "ctx_rep c2 [] [1, 2]" "task_of c2 = task_of c1" "expiry_of c2 = (expiry_of c1)(2 := 5 + timeQueue_duration)"
     "\<not> m_abort_requested c2"
    using post_time_out_rep [OF c1(1), of 2 5] c1 unfolding c2_def by (simp_all, simp_all add: post_time_out_def)
  have e: "expiry_of c2 1 = 10000000000" "expiry_of c2 2 = 10000000005" using c1 c2 by (simp_all add: timeQueue_duration_def)
  have "distinct ([] @ map (task_of c2) [1, 2])" "sorted (map (expiry_of c2) [1, 2])" using c0 c1 c2 e by simp_all
  from timers_post_tasks [OF c2(1) this c2(4), of 10000000003]
  show ?thesis using c0 c1 c2 e by (simp add: Let_def c2_def c1_def c0_def)
qed

end
