(* ===== verification/IoRun.thy ===== *)
theory IoRun
  imports IoCtx
begin

text \<open>
  Several threads in \<open>IoCtx::run\<close> and threads that post to it, in the default context \<open>IoContext\<close>, which has the lock. A critical section
  is one step, for the lock is free when it starts; what the threads read and write without the lock are steps of their own. The kernel
  is the relation \<open>epoll_wait_returns\<close>.
\<close>

section \<open>Threads\<close>

text \<open>
  Where a thread is: outside of \<open>run\<close>, before the lock at the head of the loop, waiting for the lock it holds, in the callback of a
  task, in \<open>epoll_wait\<close>, after it (\<open>None\<close> when it failed), before the test of \<open>m_thread_waiting\<close>, before that of
  \<open>m_abort_requested\<close>, before \<open>wakeup_a_thread\<close>, and in the callbacks of the events.
\<close>

datatype io_pc = Outside | AtHead | SelfLocked | InTask node | InWait | Woken "nat list option" | Decide int "nat list"
  | Decide2 int "nat list" | Waking "nat list" | Events "nat list"

text \<open>
  A thread outside of the loop or in a callback may call \<open>post_task\<close> and \<open>request_abort\<close>; \<open>arming\<close> says that it is to call
  \<open>wakeup_a_thread\<close> before it returns from there. The tasks posted and the tasks taken are recorded.
\<close>

record io_sys =
  ctx :: io_ctx
  pcs :: "nat \<Rightarrow> io_pc"
  arming :: "nat \<Rightarrow> bool"
  posted :: "node list"
  taken :: "node list"

definition io_init :: "next_heap \<Rightarrow> tnodes \<Rightarrow> addr \<Rightarrow> io_sys" where
  "io_init h s a = \<lparr>ctx = IoCtx_new h s a, pcs = \<lambda>_. Outside, arming = \<lambda>_. False, posted = [], taken = []\<rparr>"

fun in_user_code :: "io_pc \<Rightarrow> bool" where
  "in_user_code Outside = True"
| "in_user_code (InTask n) = True"
| "in_user_code (Events es) = True"
| "in_user_code _ = False"

text \<open>At most five events; the wake-up event only when it is armed, which it then is no more.\<close>

definition epoll_wait_returns :: "bool \<Rightarrow> nat list option \<Rightarrow> bool \<Rightarrow> bool" where
  "epoll_wait_returns armed r armed' \<longleftrightarrow>
     (case r of
        None \<Rightarrow> armed' = armed
      | Some es \<Rightarrow> length es \<le> 5 \<and> (\<forall>e \<in> set es. e = 1 \<or> CallbackGuard \<le> e) \<and>
          (if 1 \<in> set es then armed \<and> \<not> armed' else armed' = armed))"

fun after_head :: "head_out \<Rightarrow> io_pc" where
  "after_head LoopEnds = Outside"
| "after_head (RunTask n) = InTask n"
| "after_head WaitEvents = InWait"

fun task_of_head :: "head_out \<Rightarrow> node list" where
  "task_of_head (RunTask n) = [n]"
| "task_of_head _ = []"

definition queued :: "io_ctx \<Rightarrow> node \<Rightarrow> bool" where
  "queued c n \<longleftrightarrow> (\<exists>xs. queue_rep (m_task_queue c) xs \<and> n \<in> set xs)"

inductive io_step :: "nat \<Rightarrow> io_sys \<Rightarrow> io_sys \<Rightarrow> bool" for N where
  start: "t < N \<Longrightarrow> pcs s t = Outside \<Longrightarrow> \<not> arming s t \<Longrightarrow> io_step N s (s\<lparr>pcs := (pcs s)(t := AtHead)\<rparr>)"
| head: "t < N \<Longrightarrow> pcs s t = AtHead \<Longrightarrow> \<not> que_locked (ctx s) \<Longrightarrow> loop_head True now (ctx s) = Some (Done out c) \<Longrightarrow>
    io_step N s (s\<lparr>ctx := c, pcs := (pcs s)(t := after_head out), taken := taken s @ task_of_head out\<rparr>)"
| head_self: "t < N \<Longrightarrow> pcs s t = AtHead \<Longrightarrow> \<not> que_locked (ctx s) \<Longrightarrow> loop_head True now (ctx s) = Some (SelfLock c) \<Longrightarrow>
    io_step N s (s\<lparr>ctx := c, pcs := (pcs s)(t := SelfLocked)\<rparr>)"
| task_end: "t < N \<Longrightarrow> pcs s t = InTask n \<Longrightarrow> \<not> arming s t \<Longrightarrow> io_step N s (s\<lparr>pcs := (pcs s)(t := AtHead)\<rparr>)"
| post: "t < N \<Longrightarrow> in_user_code (pcs s t) \<Longrightarrow> \<not> arming s t \<Longrightarrow> \<not> que_locked (ctx s) \<Longrightarrow> \<not> queued (ctx s) n \<Longrightarrow>
    post_section True n (ctx s) = Done wake c \<Longrightarrow>
    io_step N s (s\<lparr>ctx := c, arming := (arming s)(t := wake), posted := posted s @ [n]\<rparr>)"
| abort: "t < N \<Longrightarrow> in_user_code (pcs s t) \<Longrightarrow> \<not> arming s t \<Longrightarrow> \<not> que_locked (ctx s) \<Longrightarrow>
    abort_section True (ctx s) = Done wake c \<Longrightarrow> io_step N s (s\<lparr>ctx := c, arming := (arming s)(t := wake)\<rparr>)"
| timer: "t < N \<Longrightarrow> in_user_code (pcs s t) \<Longrightarrow> io_step N s (s\<lparr>ctx := post_time_out now n (ctx s)\<rparr>)"
| cancel: "t < N \<Longrightarrow> in_user_code (pcs s t) \<Longrightarrow>
    io_step N s (s\<lparr>ctx := (ctx s)\<lparr>m_time_queue := snd (timeNode_remove_self n (m_time_queue (ctx s)))\<rparr>\<rparr>)"
| arm: "t < N \<Longrightarrow> arming s t \<Longrightarrow> io_step N s (s\<lparr>ctx := wakeup_a_thread (ctx s), arming := (arming s)(t := False)\<rparr>)"
| wait: "t < N \<Longrightarrow> pcs s t = InWait \<Longrightarrow> epoll_wait_returns (wakeup_armed (ctx s)) r armed' \<Longrightarrow>
    io_step N s (s\<lparr>ctx := (ctx s)\<lparr>wakeup_armed := armed'\<rparr>, pcs := (pcs s)(t := Woken r)\<rparr>)"
| count: "t < N \<Longrightarrow> pcs s t = Woken r \<Longrightarrow> \<not> que_locked (ctx s) \<Longrightarrow> count_section (ctx s) = Done sz c \<Longrightarrow>
    io_step N s (s\<lparr>ctx := c, pcs := (pcs s)(t := case r of None \<Rightarrow> Outside | Some es \<Rightarrow> Decide sz es)\<rparr>)"
| decide: "t < N \<Longrightarrow> pcs s t = Decide sz es \<Longrightarrow>
    io_step N s (s\<lparr>pcs := (pcs s)(t := if m_thread_waiting (ctx s) \<noteq> 0 then Decide2 sz es else Events es)\<rparr>)"
| decide2: "t < N \<Longrightarrow> pcs s t = Decide2 sz es \<Longrightarrow>
    io_step N s (s\<lparr>pcs := (pcs s)(t := if must_wake (m_abort_requested (ctx s)) sz es then Waking es else Events es)\<rparr>)"
| waking: "t < N \<Longrightarrow> pcs s t = Waking es \<Longrightarrow>
    io_step N s (s\<lparr>ctx := wakeup_a_thread (ctx s), pcs := (pcs s)(t := Events es)\<rparr>)"
| event: "t < N \<Longrightarrow> pcs s t = Events (e # es) \<Longrightarrow> \<not> arming s t \<Longrightarrow> io_step N s (s\<lparr>pcs := (pcs s)(t := Events es)\<rparr>)"
| events_end: "t < N \<Longrightarrow> pcs s t = Events [] \<Longrightarrow> \<not> arming s t \<Longrightarrow> io_step N s (s\<lparr>pcs := (pcs s)(t := AtHead)\<rparr>)"

inductive io_reach :: "nat \<Rightarrow> io_sys \<Rightarrow> bool" for N where
  init: "io_reach N (io_init h s a)"
| step: "io_reach N s \<Longrightarrow> io_step N s s' \<Longrightarrow> io_reach N s'"

section \<open>What the critical sections do\<close>

lemma check_timers_locked:
  assumes "que_locked c" "check_timers True now c = Some r"
  shows "r = Done () c \<or> (\<exists>s. r = SelfLock (c\<lparr>m_time_queue := s\<rparr>))"
  using assms by (subst (asm) check_timers.simps) (auto simp: Let_def post_task_def post_section_def que_lock_def split: if_splits)

text \<open>The loop over the timers of a context with several threads blocks at the first one that has expired.\<close>

lemma loop_head_mt:
  assumes "\<not> que_locked c" "loop_head True now c = Some r"
  shows "r = take_task True (c\<lparr>que_locked := True\<rparr>) \<or> (\<exists>s. r = SelfLock (c\<lparr>que_locked := True, m_time_queue := s\<rparr>))"
proof -
  obtain r' where r': "check_timers True now (c\<lparr>que_locked := True\<rparr>) = Some r'"
    and r: "r = (case r' of Done _ c \<Rightarrow> take_task True c | SelfLock c \<Rightarrow> SelfLock c | AssertFail \<Rightarrow> AssertFail)"
    using assms by (auto simp: loop_head_def que_lock_def split: option.splits held.splits)
  from check_timers_locked [OF _ r'] show ?thesis unfolding r by auto
qed

lemma head_Done:
  assumes "\<not> que_locked c" "loop_head True now c = Some (Done out c')" "queue_rep (m_task_queue c) xs"
  shows "\<exists>ys. queue_rep (m_task_queue c') ys \<and> \<not> que_locked c' \<and> wakeup_armed c' = wakeup_armed c \<and>
    m_abort_requested c' = m_abort_requested c \<and> out = (if m_abort_requested c then LoopEnds else case xs of [] \<Rightarrow> WaitEvents | x # _ \<Rightarrow> RunTask x) \<and>
    (\<not> m_abort_requested c \<longrightarrow> xs = task_of_head out @ ys \<and> m_task_queue_size c' = m_task_queue_size c - int (length (task_of_head out))) \<and>
    m_thread_waiting c' = m_thread_waiting c + of_bool (out = WaitEvents)"
proof -
  have t: "take_task True (c\<lparr>que_locked := True\<rparr>) = Done out c'" using loop_head_mt [OF assms(1,2)] by auto
  show ?thesis
  proof (cases xs)
    case Nil
    then have "Queue_pop (m_task_queue c) = Some (None, m_task_queue c)" using assms(3) Queue_pop_Nil by simp
    with t Nil assms(3) show ?thesis
      by (intro exI [of _ "[]"]; cases "m_abort_requested c") (auto simp: take_task_def que_unlock_def Let_def)
  next
    case (Cons x ys)
    then obtain q where "Queue_pop (m_task_queue c) = Some (Some x, q)" "queue_rep q ys"
      using assms(3) Queue_pop_Cons [of "m_task_queue c" x ys] by auto
    with t Cons show ?thesis
      by (intro exI [of _ ys]; cases "m_abort_requested c") (auto simp: take_task_def que_unlock_def Let_def)
  qed
qed

lemma head_SelfLock:
  assumes "\<not> que_locked c" "loop_head True now c = Some (SelfLock c')"
  shows "\<exists>s. c' = c\<lparr>que_locked := True, m_time_queue := s\<rparr>"
  using loop_head_mt [OF assms] by (auto simp: take_task_def Let_def split: option.splits if_splits prod.splits)

lemma post_section_Done:
  assumes "\<not> que_locked c" "post_section True n c = Done wake c'"
  shows "wake = (m_thread_waiting c > 0)"
    "c' = c\<lparr>m_task_queue := Queue_push n (m_task_queue c), m_task_queue_size := m_task_queue_size c + 1\<rparr>"
  using assms by (auto simp: post_section_def que_lock_def que_unlock_def Let_def)

lemma abort_section_Done:
  assumes "\<not> que_locked c" "abort_section True c = Done wake c'"
  shows "wake = (m_thread_waiting c > 0)" "c' = c\<lparr>m_abort_requested := True\<rparr>"
  using assms by (auto simp: abort_section_def que_lock_def que_unlock_def Let_def)

lemma count_section_Done:
  assumes "\<not> que_locked c" "count_section c = Done sz c'"
  shows "sz = m_task_queue_size c" "c' = c\<lparr>m_thread_waiting := m_thread_waiting c - 1\<rparr>"
  using assms by (auto simp: count_section_def que_lock_def que_unlock_def Let_def)


section \<open>Where the threads are\<close>

abbreviation asleep :: "io_pc \<Rightarrow> bool" where "asleep p \<equiv> p = InWait"
abbreviation blocked :: "io_pc \<Rightarrow> bool" where "blocked p \<equiv> p = SelfLocked"

section \<open>The invariant\<close>

text \<open>
  \<open>counted\<close>: the threads that \<open>m_thread_waiting\<close> counts. \<open>heads\<close>: the threads that reach the queue without running a callback first.
  \<open>will_wake\<close>: the threads that are bound to arm the wake-up event if a thread is waiting.
\<close>

fun counted :: "io_pc \<Rightarrow> bool" where
  "counted InWait = True"
| "counted (Woken r) = True"
| "counted _ = False"

definition no_effective :: "nat list \<Rightarrow> bool" where
  "no_effective es \<longleftrightarrow> (\<forall>e \<in> set es. e < CallbackGuard)"

fun heads :: "io_pc \<Rightarrow> bool" where
  "heads AtHead = True"
| "heads (Woken (Some es)) = no_effective es"
| "heads (Decide sz es) = no_effective es"
| "heads (Decide2 sz es) = no_effective es"
| "heads (Waking es) = no_effective es"
| "heads (Events es) = no_effective es"
| "heads _ = False"

fun will_wake :: "bool \<Rightarrow> io_pc \<Rightarrow> bool" where
  "will_wake a (Woken (Some es)) = (1 \<in> set es)"
| "will_wake a (Decide sz es) = must_wake a sz es"
| "will_wake a (Decide2 sz es) = must_wake a sz es"
| "will_wake a (Waking es) = True"
| "will_wake a _ = False"

definition wake_ok :: "nat \<Rightarrow> io_sys \<Rightarrow> nat \<Rightarrow> bool" where
  "wake_ok N s len \<longleftrightarrow>
     (\<not> que_locked (ctx s) \<and> any_pc N asleep (pcs s) \<longrightarrow>
      wakeup_armed (ctx s) \<or> (\<exists>t<N. arming s t) \<or> any_pc N (will_wake (m_abort_requested (ctx s))) (pcs s) \<or>
      \<not> m_abort_requested (ctx s) \<and> int len \<le> npcs N heads (pcs s))"

definition io_inv :: "nat \<Rightarrow> io_sys \<Rightarrow> node list \<Rightarrow> bool" where
  "io_inv N s xs \<longleftrightarrow>
     queue_rep (m_task_queue (ctx s)) xs \<and>
     (\<not> m_abort_requested (ctx s) \<longrightarrow> taken s @ xs = posted s \<and> m_task_queue_size (ctx s) = int (length xs)) \<and>
     m_thread_waiting (ctx s) = npcs N counted (pcs s) \<and>
     (que_locked (ctx s) \<longleftrightarrow> any_pc N blocked (pcs s)) \<and>
     wake_ok N s (length xs)"

lemma must_wake_eq:
  "must_wake a sz es \<longleftrightarrow> a \<or> (\<exists>e \<in> set es. e < CallbackGuard) \<and> sz + of_bool (\<not> no_effective es) > 1"
  by (auto simp: must_wake_def overview_eq no_effective_def not_less)

lemma io_inv_init: "io_inv N (io_init h s a) []"
  by (simp add: io_inv_def io_init_def IoCtx_new_def Queue_init_rep npcs_def wake_ok_def any_pc_def)

lemma waiting_pos: "io_inv N s xs \<Longrightarrow> t < N \<Longrightarrow> counted (pcs s t) \<Longrightarrow> 1 \<le> m_thread_waiting (ctx s)"
  using npcs_pos [of t N counted "pcs s"] by (simp add: io_inv_def)

text \<open>The steps in which one thread moves and the shared state stays as it is, but for the wake-up event.\<close>

lemma move_inv:
  assumes inv: "io_inv N s xs" and t: "t < N" and q: "pcs s t \<noteq> SelfLocked" "p \<noteq> SelfLocked" "counted p = counted (pcs s t)"
    and c: "m_task_queue c = m_task_queue (ctx s)" "m_abort_requested c = m_abort_requested (ctx s)"
      "m_task_queue_size c = m_task_queue_size (ctx s)" "m_thread_waiting c = m_thread_waiting (ctx s)" "que_locked c = que_locked (ctx s)"
    and w: "wake_ok N (s\<lparr>ctx := c, pcs := (pcs s)(t := p)\<rparr>) (length xs)"
  shows "io_inv N (s\<lparr>ctx := c, pcs := (pcs s)(t := p)\<rparr>) xs"
  unfolding io_inv_def
proof (intro conjI)
  show "que_locked (ctx (s\<lparr>ctx := c, pcs := (pcs s)(t := p)\<rparr>)) \<longleftrightarrow> any_pc N blocked (pcs (s\<lparr>ctx := c, pcs := (pcs s)(t := p)\<rparr>))"
    using inv t q any_apart [OF t, of blocked "pcs s"] by (simp add: io_inv_def c any_upd)
qed (use assms in \<open>simp_all add: io_inv_def npcs_upd\<close>)


lemma wake_move:
  assumes w: "wake_ok N s len" and t: "t < N" "pcs s t \<noteq> InWait" "p \<noteq> InWait"
    and c: "m_abort_requested c = m_abort_requested (ctx s)" "que_locked c = que_locked (ctx s)"
      "wakeup_armed (ctx s) \<Longrightarrow> wakeup_armed c"
    and h: "heads (pcs s t) \<Longrightarrow> heads p"
    and ww: "will_wake (m_abort_requested c) (pcs s t) \<Longrightarrow>
      wakeup_armed c \<or> will_wake (m_abort_requested c) p \<or> \<not> any_pc N asleep (pcs s)"
  shows "wake_ok N (s\<lparr>ctx := c, pcs := (pcs s)(t := p)\<rparr>) len"
proof -
  have n: "npcs N heads (pcs s) \<le> npcs N heads ((pcs s)(t := p))" using h by (simp add: npcs_upd [OF t(1)])
  note u = any_upd [OF t(1)] any_apart [OF t(1), where f = "pcs s"]
  show ?thesis using w c n ww t unfolding wake_ok_def by (auto simp: u)
qed

lemma head_inv:
  assumes inv: "io_inv N s xs" and t: "t < N" "pcs s t = AtHead" and l: "\<not> que_locked (ctx s)"
    and h: "loop_head True now (ctx s) = Some (Done out c)"
  shows "\<exists>ys. io_inv N (s\<lparr>ctx := c, pcs := (pcs s)(t := after_head out), taken := taken s @ task_of_head out\<rparr>) ys"
proof -
  have "queue_rep (m_task_queue (ctx s)) xs" using inv by (simp add: io_inv_def)
  from head_Done [OF l h this] obtain ys where q: "queue_rep (m_task_queue c) ys" and c: "\<not> que_locked c" "wakeup_armed c = wakeup_armed (ctx s)"
      "m_abort_requested c = m_abort_requested (ctx s)"
    and out: "out = (if m_abort_requested (ctx s) then LoopEnds else case xs of [] \<Rightarrow> WaitEvents | x # _ \<Rightarrow> RunTask x)"
    and xs: "\<not> m_abort_requested (ctx s) \<Longrightarrow> xs = task_of_head out @ ys \<and>
      m_task_queue_size c = m_task_queue_size (ctx s) - int (length (task_of_head out))"
    and w: "m_thread_waiting c = m_thread_waiting (ctx s) + of_bool (out = WaitEvents)"
    by blast
  let ?s = "s\<lparr>ctx := c, pcs := (pcs s)(t := after_head out), taken := taken s @ task_of_head out\<rparr>"
  have pc: "after_head out \<noteq> SelfLocked" "counted (after_head out) \<longleftrightarrow> out = WaitEvents" "\<not> heads (after_head out)"
    "\<not> will_wake a (after_head out)" "after_head out = InWait \<longleftrightarrow> out = WaitEvents" for a
    by (cases out; simp)+
  note u = any_upd [OF t(1)] any_apart [OF t(1), where f = "pcs s"]
  have "wake_ok N ?s (length ys)"
  proof (cases "m_abort_requested (ctx s)")
    case True
    then show ?thesis using inv t pc l out c unfolding io_inv_def wake_ok_def by (simp add: u)
  next
    case False
    then have "int (length ys) \<le> npcs N heads (pcs ?s)" if "int (length xs) \<le> npcs N heads (pcs s)"
      using that xs out t pc npcs_ge0 [of N heads "pcs ?s"] by (cases xs) (simp_all add: npcs_upd)
    moreover have "int (length ys) \<le> npcs N heads (pcs ?s)" if "out = WaitEvents"
      using that False xs out npcs_ge0 [of N heads "pcs ?s"] by (cases xs) simp_all
    ultimately show ?thesis using inv t pc l c False unfolding io_inv_def wake_ok_def by (auto simp: u)
  qed
  moreover have "\<not> any_pc N blocked (pcs ?s)"
    using inv l t pc by (auto simp: io_inv_def u)
  ultimately have "io_inv N ?s ys"
    using inv t pc l q c xs w unfolding io_inv_def by (auto simp: npcs_upd)
  then show ?thesis ..
qed

lemma head_self_inv:
  assumes inv: "io_inv N s xs" and t: "t < N" "pcs s t = AtHead" and l: "\<not> que_locked (ctx s)"
    and h: "loop_head True now (ctx s) = Some (SelfLock c)"
  shows "io_inv N (s\<lparr>ctx := c, pcs := (pcs s)(t := SelfLocked)\<rparr>) xs"
proof -
  obtain tq where c: "c = (ctx s)\<lparr>que_locked := True, m_time_queue := tq\<rparr>" using head_SelfLock [OF l h] by auto
  show ?thesis using inv t by (auto simp: io_inv_def c wake_ok_def npcs_upd any_upd)
qed

lemma post_inv:
  assumes inv: "io_inv N s xs" and t: "t < N" "\<not> queued (ctx s) n" and l: "\<not> que_locked (ctx s)"
    and h: "post_section True n (ctx s) = Done wake c"
  shows "io_inv N (s\<lparr>ctx := c, arming := (arming s)(t := wake), posted := posted s @ [n]\<rparr>) (xs @ [n])"
proof -
  note c = post_section_Done [OF l h]
  have q: "queue_rep (m_task_queue (ctx s)) xs" using inv by (simp add: io_inv_def)
  with t(2) have n: "n \<notin> set xs" by (auto simp: queued_def)
  have "wake" if "any_pc N asleep (pcs s)"
  proof -
    from that obtain u where "u < N" "pcs s u = InWait" by (auto simp: any_pc_def)
    with waiting_pos [OF inv, of u] c(1) show ?thesis by simp
  qed
  then have "wake_ok N (s\<lparr>ctx := c, arming := (arming s)(t := wake), posted := posted s @ [n]\<rparr>) (length (xs @ [n]))"
    using t(1) unfolding wake_ok_def by auto
  then show ?thesis using inv Queue_push_rep [OF q n] by (auto simp: io_inv_def c(2))
qed

lemma abort_inv:
  assumes inv: "io_inv N s xs" and t: "t < N" and l: "\<not> que_locked (ctx s)"
    and h: "abort_section True (ctx s) = Done wake c"
  shows "io_inv N (s\<lparr>ctx := c, arming := (arming s)(t := wake)\<rparr>) xs"
proof -
  note c = abort_section_Done [OF l h]
  have "wake" if "any_pc N asleep (pcs s)"
  proof -
    from that obtain u where "u < N" "pcs s u = InWait" by (auto simp: any_pc_def)
    with waiting_pos [OF inv, of u] c(1) show ?thesis by simp
  qed
  then have "wake_ok N (s\<lparr>ctx := c, arming := (arming s)(t := wake)\<rparr>) (length xs)"
    using t unfolding wake_ok_def by auto
  then show ?thesis using inv by (auto simp: io_inv_def c(2))
qed

lemma wait_inv:
  assumes inv: "io_inv N s xs" and t: "t < N" "pcs s t = InWait" and r: "epoll_wait_returns (wakeup_armed (ctx s)) r armed'"
  shows "io_inv N (s\<lparr>ctx := (ctx s)\<lparr>wakeup_armed := armed'\<rparr>, pcs := (pcs s)(t := Woken r)\<rparr>) xs"
proof -
  let ?s = "s\<lparr>ctx := (ctx s)\<lparr>wakeup_armed := armed'\<rparr>, pcs := (pcs s)(t := Woken r)\<rparr>"
  note u = any_upd [OF t(1)] any_apart [OF t(1), where f = "pcs s"]
  have "armed' \<or> will_wake a (Woken r)" if "wakeup_armed (ctx s)" for a
    using r that by (auto simp: epoll_wait_returns_def split: option.splits if_splits)
  moreover have "npcs N heads (pcs s) \<le> npcs N heads (pcs ?s)" using t by (simp add: npcs_upd)
  ultimately have "wake_ok N ?s (length xs)"
    using inv t unfolding io_inv_def wake_ok_def by (auto simp: u)
  then have "io_inv N (s\<lparr>ctx := (ctx s)\<lparr>wakeup_armed := armed'\<rparr>, pcs := (pcs s)(t := Woken r)\<rparr>) xs"
    using t by (intro move_inv [OF inv]) simp_all
  then show ?thesis .
qed

lemma count_inv:
  assumes inv: "io_inv N s xs" and t: "t < N" "pcs s t = Woken r" and l: "\<not> que_locked (ctx s)"
    and h: "count_section (ctx s) = Done sz c"
  shows "io_inv N (s\<lparr>ctx := c, pcs := (pcs s)(t := case r of None \<Rightarrow> Outside | Some es \<Rightarrow> Decide sz es)\<rparr>) xs"
proof -
  note c = count_section_Done [OF l h]
  define p where "p = (case r of None \<Rightarrow> Outside | Some es \<Rightarrow> Decide sz es)"
  let ?s = "s\<lparr>ctx := c, pcs := (pcs s)(t := p)\<rparr>" and ?a = "m_abort_requested (ctx s)"
  have p: "p \<noteq> InWait" "p \<noteq> SelfLocked" "\<not> counted p" "heads p = heads (Woken r)" by (cases r; simp add: p_def)+
  note u = any_upd [OF t(1)] any_apart [OF t(1), where f = "pcs s"]
  have n: "npcs N heads (pcs ?s) = npcs N heads (pcs s)" using t p by (simp add: npcs_upd)
  have "\<not> ?a \<and> int (length xs) \<le> npcs N heads (pcs s)" if "will_wake ?a (Woken r)" "\<not> will_wake ?a p"
  proof -
    from that obtain es where r: "r = Some es" "1 \<in> set es" by (cases r) simp_all
    then have "(1::nat) \<in> set es" "(1::nat) < CallbackGuard" by (simp_all add: CallbackGuard_def)
    with that(2) have a: "\<not> ?a" "sz + of_bool (\<not> no_effective es) \<le> 1" by (auto simp: p_def r must_wake_eq)
    with inv c(1) have len: "int (length xs) + of_bool (\<not> no_effective es) \<le> 1" by (simp add: io_inv_def)
    show ?thesis
    proof (cases "no_effective es")
      case True
      then have "heads (pcs s t)" using t r by simp
      from npcs_pos [OF t(1), of heads "pcs s", OF this] len a True show ?thesis by simp
    qed (use len a npcs_ge0 [of N heads "pcs s"] in simp)
  qed
  then have "wake_ok N ?s (length xs)"
    using inv t p n unfolding io_inv_def wake_ok_def by (auto simp: u c(2))
  moreover have "any_pc N blocked (pcs ?s) \<longleftrightarrow> any_pc N blocked (pcs s)" using t p by (simp add: u)
  ultimately have "io_inv N ?s xs" using inv t p unfolding io_inv_def by (auto simp: c(2) npcs_upd)
  then show ?thesis by (simp add: p_def)
qed


lemma stay_inv:
  assumes inv: "io_inv N s xs" and t: "t < N" "pcs s t \<noteq> InWait" "p \<noteq> InWait" "pcs s t \<noteq> SelfLocked" "p \<noteq> SelfLocked"
      "counted p = counted (pcs s t)" "heads (pcs s t) \<Longrightarrow> heads p"
    and ww: "will_wake (m_abort_requested (ctx s)) (pcs s t) \<Longrightarrow> will_wake (m_abort_requested (ctx s)) p \<or> \<not> any_pc N asleep (pcs s)"
  shows "io_inv N (s\<lparr>pcs := (pcs s)(t := p)\<rparr>) xs"
proof -
  have "wake_ok N s (length xs)" using inv by (simp add: io_inv_def)
  then have "wake_ok N (s\<lparr>ctx := ctx s, pcs := (pcs s)(t := p)\<rparr>) (length xs)"
    using ww by (intro wake_move t) auto
  with inv t have "io_inv N (s\<lparr>ctx := ctx s, pcs := (pcs s)(t := p)\<rparr>) xs" by (intro move_inv) simp_all
  then show ?thesis by simp
qed

lemma timers_inv: "io_inv N s xs \<Longrightarrow> io_inv N (s\<lparr>ctx := (ctx s)\<lparr>m_time_queue := q\<rparr>\<rparr>) xs"
  by (simp add: io_inv_def wake_ok_def)

lemma arm_inv: "io_inv N s xs \<Longrightarrow> io_inv N (s\<lparr>ctx := wakeup_a_thread (ctx s), arming := a\<rparr>) xs"
  by (simp add: io_inv_def wake_ok_def wakeup_a_thread_def)

lemma waking_inv:
  assumes inv: "io_inv N s xs" and t: "t < N" "pcs s t = Waking es"
  shows "io_inv N (s\<lparr>ctx := wakeup_a_thread (ctx s), pcs := (pcs s)(t := Events es)\<rparr>) xs"
  using t by (intro move_inv [OF inv]) (simp_all add: wakeup_a_thread_def wake_ok_def)

lemma io_step_inv:
  assumes "io_step N s s'" "io_inv N s xs"
  shows "\<exists>ys. io_inv N s' ys"
  using assms
proof (cases rule: io_step.cases)
  case (head t now out c)
  then show ?thesis using head_inv assms(2) by blast
next
  case (head_self t now c)
  then show ?thesis using head_self_inv assms(2) by blast
next
  case (post t n wake c)
  then show ?thesis using post_inv assms(2) by blast
next
  case (abort t wake c)
  then show ?thesis using abort_inv assms(2) by blast
next
  case (timer t now n)
  then show ?thesis using timers_inv [OF assms(2)] by (auto simp: post_time_out_def)
next
  case (cancel t n)
  then show ?thesis using timers_inv [OF assms(2)] by blast
next
  case (arm t)
  then show ?thesis using arm_inv [OF assms(2)] by blast
next
  case (wait t r armed')
  then show ?thesis using wait_inv assms(2) by blast
next
  case (count t r sz c)
  then show ?thesis using count_inv assms(2) by blast
next
  case (waking t es)
  then show ?thesis using waking_inv [OF assms(2)] by blast
next
  case (start t)
  then have "io_inv N s' xs" unfolding \<open>s' = _\<close> by (intro stay_inv [OF assms(2)]) simp_all
  then show ?thesis ..
next
  case (task_end t n)
  then have "io_inv N s' xs" unfolding \<open>s' = _\<close> by (intro stay_inv [OF assms(2)]) simp_all
  then show ?thesis ..
next
  case (decide t sz es)
  have "\<not> any_pc N asleep (pcs s)" if "m_thread_waiting (ctx s) = 0"
    using waiting_pos [OF assms(2)] that by (fastforce simp: any_pc_def)
  with decide have "io_inv N s' xs" unfolding \<open>s' = _\<close> by (intro stay_inv [OF assms(2)]) (simp_all split: if_splits)
  then show ?thesis ..
next
  case (decide2 t sz es)
  then have "io_inv N s' xs" unfolding \<open>s' = _\<close> by (intro stay_inv [OF assms(2)]) (simp_all split: if_splits)
  then show ?thesis ..
next
  case (event t e es)
  then have "io_inv N s' xs" unfolding \<open>s' = _\<close>
    by (intro stay_inv [OF assms(2)]) (simp_all add: no_effective_def)
  then show ?thesis ..
next
  case (events_end t)
  then have "io_inv N s' xs" unfolding \<open>s' = _\<close> by (intro stay_inv [OF assms(2)]) simp_all
  then show ?thesis ..
qed

lemma io_reach_inv: "io_reach N s \<Longrightarrow> \<exists>xs. io_inv N s xs"
proof (induction rule: io_reach.induct)
  case (init h s a)
  then show ?case using io_inv_init by blast
next
  case (step s s')
  then show ?case using io_step_inv by blast
qed

section \<open>The timers with several threads\<close>

lemma expired_self_lock:
  assumes "\<not> que_locked c" "time_rep (time_head c) (m_time_queue c) (n # ts)" "expiry_of c n < now"
  shows "loop_head True now c = Some (SelfLock (c\<lparr>que_locked := True, m_time_queue := timeQueue_pop (time_head c) (m_time_queue c)\<rparr>))"
proof -
  have "\<not> timeQueue_empty (time_head c) (m_time_queue c)" "timeQueue_front (time_head c) (m_time_queue c) = n"
    using time_rep_empty [OF assms(2)] time_rep_front [OF assms(2)] by simp_all
  then show ?thesis using assms(1,3)
    by (simp add: loop_head_def que_lock_def check_timers.simps timeNode_is_expire_def post_task_def post_section_def)
qed

lemma self_locked_step:
  assumes "io_step N s s'" "t < N" "pcs s t = SelfLocked" "que_locked (ctx s)"
  shows "pcs s' t = SelfLocked \<and> que_locked (ctx s') \<and> taken s' = taken s \<and> posted s' = posted s"
  using assms by (cases rule: io_step.cases) (auto simp: post_time_out_def wakeup_a_thread_def)

lemma self_locked_steps:
  assumes "(io_step N)\<^sup>*\<^sup>* s s'" "t < N" "pcs s t = SelfLocked" "que_locked (ctx s)"
  shows "pcs s' t = SelfLocked \<and> que_locked (ctx s') \<and> taken s' = taken s \<and> posted s' = posted s"
  using assms
proof (induction rule: rtranclp_induct)
  case (step s' s'')
  then show ?case using self_locked_step [of N s' s'' t] by simp
qed simp

section \<open>Properties\<close>

text \<open>C25: no wake-up is lost. Whenever a thread sleeps in \<open>epoll_wait\<close> while a task is queued, or after \<open>request_abort\<close>, and every
  other thread sleeps too, is outside of the loop or runs a callback, then the wake-up event is armed.\<close>

theorem io_no_lost_wakeup:
  assumes "io_reach N s" "\<not> que_locked (ctx s)" "t < N" "pcs s t = InWait"
    and "\<forall>u<N. \<not> arming s u \<and> (pcs s u = InWait \<or> pcs s u = Outside \<or> (\<exists>n. pcs s u = InTask n) \<or>
      (\<exists>es. pcs s u = Events es \<and> (\<exists>e \<in> set es. CallbackGuard \<le> e)))"
    and "queue_rep (m_task_queue (ctx s)) xs" "xs \<noteq> [] \<or> m_abort_requested (ctx s)"
  shows "wakeup_armed (ctx s)"
proof -
  obtain ys where inv: "io_inv N s ys" using io_reach_inv [OF assms(1)] by blast
  then have "queue_rep (m_task_queue (ctx s)) ys" by (simp add: io_inv_def)
  from queue_rep_unique [OF this assms(6)] have "ys = xs" .
  with inv have w: "wake_ok N s (length xs)" by (simp add: io_inv_def)
  have "\<not> heads (pcs s u)" "\<not> will_wake a (pcs s u)" "\<not> arming s u" if "u < N" for u a
    using assms(5) [THEN spec, of u] that by (auto simp: no_effective_def dest!: leD)
  then have "npcs N heads (pcs s) = 0" "\<not> any_pc N (will_wake a) (pcs s)" "\<not> (\<exists>u<N. arming s u)" for a
    using npcs_zero [of N heads "pcs s"] by (auto simp: any_pc_def)
  with w assms(2,3,4,7) show ?thesis by (auto simp: wake_ok_def any_pc_def)
qed

text \<open>C26: until an abort is requested, the threads take every posted task once, in the order in which the tasks were posted.\<close>

theorem io_tasks_in_order:
  assumes "io_reach N s" "\<not> m_abort_requested (ctx s)"
  shows "\<exists>xs. queue_rep (m_task_queue (ctx s)) xs \<and> posted s = taken s @ xs \<and> m_task_queue_size (ctx s) = int (length xs)"
  using io_reach_inv [OF assms(1)] assms(2) by (auto simp: io_inv_def)

text \<open>A timer that expires blocks a context with several threads for good. The thread that finds it calls \<open>post_task\<close> while it holds
  the lock, and waits for itself; from then on no task is posted or taken.\<close>

theorem io_timer_blocks:
  assumes "t < N" "pcs s t = AtHead" "\<not> que_locked (ctx s)"
    "time_rep (time_head (ctx s)) (m_time_queue (ctx s)) (n # ts)" "expiry_of (ctx s) n < now"
  shows "\<exists>c. loop_head True now (ctx s) = Some (SelfLock c) \<and> io_step N s (s\<lparr>ctx := c, pcs := (pcs s)(t := SelfLocked)\<rparr>) \<and>
    (\<forall>s'. (io_step N)\<^sup>*\<^sup>* (s\<lparr>ctx := c, pcs := (pcs s)(t := SelfLocked)\<rparr>) s' \<longrightarrow>
       pcs s' t = SelfLocked \<and> que_locked (ctx s') \<and> taken s' = taken s \<and> posted s' = posted s)"
proof -
  let ?c = "(ctx s)\<lparr>que_locked := True, m_time_queue := timeQueue_pop (time_head (ctx s)) (m_time_queue (ctx s))\<rparr>"
  note l = expired_self_lock [OF assms(3-5)]
  have "io_step N s (s\<lparr>ctx := ?c, pcs := (pcs s)(t := SelfLocked)\<rparr>)"
    using assms(1-3) l by (rule io_step.head_self)
  moreover have "pcs s' t = SelfLocked \<and> que_locked (ctx s') \<and> taken s' = taken s \<and> posted s' = posted s"
    if "(io_step N)\<^sup>*\<^sup>* (s\<lparr>ctx := ?c, pcs := (pcs s)(t := SelfLocked)\<rparr>) s'" for s'
    using self_locked_steps [OF that assms(1)] by simp
  ultimately show ?thesis using l by blast
qed


text \<open>Witnesses: two threads, of which the first waits for events when the second posts.\<close>

definition no_tnodes :: tnodes where
  "no_tnodes = \<lparr>t_next = \<lambda>_. 0, t_prev = \<lambda>_. 0, t_post_task = \<lambda>n. n + 100, t_expire = \<lambda>_. 0\<rparr>"

definition io_one_waits :: io_sys where
  "io_one_waits = (io_init (\<lambda>_. None) no_tnodes 0)
     \<lparr>ctx := (IoCtx_new (\<lambda>_. None) no_tnodes 0)\<lparr>m_thread_waiting := 1\<rparr>, pcs := (\<lambda>_. Outside)(0 := InWait)\<rparr>"

definition io_one_posted :: io_sys where
  "io_one_posted = io_one_waits
     \<lparr>ctx := (ctx io_one_waits)\<lparr>m_task_queue := Queue_push 5 (m_task_queue (ctx io_one_waits)), m_task_queue_size := 1\<rparr>, posted := [5]\<rparr>"

lemma io_one_waits_reach: "io_reach 2 io_one_waits"
proof -
  let ?s = "io_init (\<lambda>_. None) no_tnodes 0" and ?c = "IoCtx_new (\<lambda>_. None) no_tnodes 0"
  have "io_step 2 ?s (?s\<lparr>pcs := (pcs ?s)(0 := AtHead)\<rparr>)" by (rule io_step.start) (simp_all add: io_init_def)
  from io_reach.step [OF io_reach.init this] have r: "io_reach 2 (?s\<lparr>pcs := (\<lambda>_. Outside)(0 := AtHead)\<rparr>)" by (simp add: io_init_def)
  have "loop_head True 0 ?c = Some (Done WaitEvents (?c\<lparr>m_thread_waiting := 1\<rparr>))"
    by (simp add: loop_head_def que_lock_def check_timers.simps IoCtx_new_def timeQueue_empty_def timeNode_init_def take_task_def
        Queue_pop_def Queue_pop_flag_def Queue_init_def que_unlock_def)
  then have "io_step 2 (?s\<lparr>pcs := (\<lambda>_. Outside)(0 := AtHead)\<rparr>) io_one_waits"
    using io_step.head [of 0 2 "?s\<lparr>pcs := (\<lambda>_. Outside)(0 := AtHead)\<rparr>" 0 WaitEvents "?c\<lparr>m_thread_waiting := 1\<rparr>"]
    by (simp add: io_init_def io_one_waits_def IoCtx_new_def)
  with r show ?thesis by (rule io_reach.step)
qed

lemma io_one_posted_reach: "io_reach 2 io_one_posted" "queue_rep (m_task_queue (ctx io_one_posted)) [5]"
proof -
  let ?c = "(ctx io_one_waits)\<lparr>m_task_queue := Queue_push 5 (m_task_queue (ctx io_one_waits)), m_task_queue_size := 1\<rparr>"
  have q: "queue_rep (m_task_queue (ctx io_one_waits)) []" by (simp add: io_one_waits_def IoCtx_new_def Queue_init_rep)
  then have "\<not> queued (ctx io_one_waits) 5" using queue_rep_unique by (fastforce simp: queued_def)
  then have "io_step 2 io_one_waits (io_one_waits\<lparr>ctx := ?c, arming := (\<lambda>_. False)(1 := True), posted := [5]\<rparr>)"
    using io_step.post [of 1 2 io_one_waits 5 True ?c]
    by (simp add: io_one_waits_def io_init_def IoCtx_new_def post_section_def que_lock_def que_unlock_def)
  from io_reach.step [OF io_one_waits_reach this]
  have r: "io_reach 2 (io_one_waits\<lparr>ctx := ?c, arming := (\<lambda>_. False)(1 := True), posted := [5]\<rparr>)" .
  moreover have "(\<lambda>_. False)(Suc 0 := False) = (\<lambda>_. False)" by auto
  ultimately have "io_step 2 (io_one_waits\<lparr>ctx := ?c, arming := (\<lambda>_. False)(1 := True), posted := [5]\<rparr>) io_one_posted"
    using io_step.arm [of 1 2 "io_one_waits\<lparr>ctx := ?c, arming := (\<lambda>_. False)(1 := True), posted := [5]\<rparr>"]
    by (simp add: io_one_posted_def io_one_waits_def io_init_def IoCtx_new_def wakeup_a_thread_def)
  with r show "io_reach 2 io_one_posted" by (rule io_reach.step)
  show "queue_rep (m_task_queue (ctx io_one_posted)) [5]"
    using Queue_push_rep [OF q, of 5] by (simp add: io_one_posted_def)
qed

lemma io_no_lost_wakeup_witness: "wakeup_armed (ctx io_one_posted)"
proof (rule io_no_lost_wakeup [OF io_one_posted_reach(1) _ _ _ _ io_one_posted_reach(2)])
  show "(0::nat) < 2" by simp
qed (auto simp: io_one_posted_def io_one_waits_def io_init_def IoCtx_new_def)

lemma io_tasks_in_order_witness:
  "\<exists>xs. queue_rep (m_task_queue (ctx io_one_posted)) xs \<and> [5] = [] @ xs \<and> m_task_queue_size (ctx io_one_posted) = int (length xs)"
  using io_tasks_in_order [OF io_one_posted_reach(1)] by (simp add: io_one_posted_def io_one_waits_def io_init_def IoCtx_new_def)

definition io_one_timer :: io_sys where
  "io_one_timer = (io_init (\<lambda>_. None) no_tnodes 0)
     \<lparr>ctx := post_time_out 0 1 (IoCtx_new (\<lambda>_. None) no_tnodes 0), pcs := (\<lambda>_. Outside)(0 := AtHead)\<rparr>"

lemma io_timer_blocks_witness:
  "\<exists>c. loop_head True 10000000001 (ctx io_one_timer) = Some (SelfLock c) \<and>
    (\<forall>s'. (io_step 2)\<^sup>*\<^sup>* (io_one_timer\<lparr>ctx := c, pcs := (pcs io_one_timer)(0 := SelfLocked)\<rparr>) s' \<longrightarrow> taken s' = [])"
proof -
  have "ctx_rep (ctx io_one_timer) [] [1]" "expiry_of (ctx io_one_timer) 1 = 10000000000"
    using post_time_out_rep [OF ctx_rep_new [of "\<lambda>_. None" no_tnodes 0], of 1 0]
    by (simp_all add: io_one_timer_def timeQueue_duration_def IoCtx_new_def)
  then have "time_rep (time_head (ctx io_one_timer)) (m_time_queue (ctx io_one_timer)) [1]"
    "expiry_of (ctx io_one_timer) 1 < 10000000001" by (simp_all add: ctx_rep_def)
  from io_timer_blocks [OF _ _ _ this, of 0 2] show ?thesis
    by (auto simp: io_one_timer_def io_init_def post_time_out_def IoCtx_new_def)
qed

end
