(* ===== verification/Conn.thy ===== *)
theory Conn
  imports IoCtx
begin

text \<open>
  \<open>ConnImpl\<close>, its awaiters and \<open>Connection\<close> of \<open>libs/tinyasync/include/tinyasync/awaiters.h\<close>. Awaiters live in coroutine frames and
  are found by their address; a frame that was destroyed is \<open>None\<close>. The timer node and the task of a receiving awaiter are its members.
  What a coroutine does when it is resumed is an argument; results of system calls are arguments too, and calls that change the
  socket are recorded.
\<close>

section \<open>State\<close>

record awaiter =
  aw_next :: "addr option"
  aw_size :: nat
  aw_transfer :: int
  aw_suspend_return :: bool
  aw_timeout_flag :: bool
  aw_timenode :: addr
  aw_post_task :: node

definition k_closed_socket_ready :: int where "k_closed_socket_ready = -2"
definition k_time_out :: int where "k_time_out = -3"

record conn =
  conn_handle :: int
  recv_awaiter :: "addr option"
  send_awaiter :: "addr option"
  close_task :: node
  ref_cnt :: int
  added_to_pool :: bool
  recv_shutdown :: bool
  send_shutdown :: bool
  ready_to_send :: bool
  ready_to_recv :: bool

datatype syscall = SShutRd int | SShutWr int | SShutRdWr int | SClose int

record conn_world =
  w_conn :: conn
  conn_alive :: bool
  aws :: "addr \<Rightarrow> awaiter option"
  w_ctx :: io_ctx
  sys_log :: "syscall list"

text \<open>An operation returns, throws, fails an assertion, uses memory that was freed, waits for a lock for ever, or ends the process.\<close>

datatype 'a outcome = Value 'a conn_world | Raises string conn_world | AssertionFails | UseAfterFree | Blocks | Exits

fun then_do :: "'a outcome \<Rightarrow> ('a \<Rightarrow> conn_world \<Rightarrow> 'b outcome) \<Rightarrow> 'b outcome" where
  "then_do (Value a w) f = f a w"
| "then_do (Raises e w) f = Raises e w"
| "then_do AssertionFails f = AssertionFails"
| "then_do UseAfterFree f = UseAfterFree"
| "then_do Blocks f = Blocks"
| "then_do Exits f = Exits"

definition ConnImpl_new :: "int \<Rightarrow> node \<Rightarrow> conn" where
  "ConnImpl_new conn_sock task =
     \<lparr>conn_handle = conn_sock, recv_awaiter = None, send_awaiter = None, close_task = task, ref_cnt = 2, added_to_pool = True,
      recv_shutdown = False, send_shutdown = False, ready_to_send = True, ready_to_recv = True\<rparr>"

section \<open>Shutting down\<close>

definition is_any_shutdown :: "conn \<Rightarrow> bool" where
  "is_any_shutdown c \<longleftrightarrow> \<not> recv_shutdown c \<and> \<not> send_shutdown c"

definition is_recv_send_shutdown :: "conn \<Rightarrow> bool" where
  "is_recv_send_shutdown c \<longleftrightarrow> recv_shutdown c \<and> send_shutdown c"

text \<open>An operation on the members, with the system call that it makes.\<close>

definition on_conn :: "(conn \<Rightarrow> (conn \<times> syscall list) option) \<Rightarrow> conn_world \<Rightarrow> unit outcome" where
  "on_conn f w =
     (if \<not> conn_alive w then UseAfterFree
      else case f (w_conn w) of
          None \<Rightarrow> AssertionFails
        | Some (c, l) \<Rightarrow> Value () (w\<lparr>w_conn := c, sys_log := sys_log w @ l\<rparr>))"

definition shutdown_recv :: "conn \<Rightarrow> (conn \<times> syscall list) option" where
  "shutdown_recv c =
     (if conn_handle c = 0 \<or> recv_shutdown c then None
      else Some (c\<lparr>recv_shutdown := True\<rparr>, [SShutRd (conn_handle c)]))"

definition shutdown_send :: "conn \<Rightarrow> (conn \<times> syscall list) option" where
  "shutdown_send c =
     (if conn_handle c = 0 \<or> recv_shutdown c then None
      else Some (c\<lparr>send_shutdown := True\<rparr>, [SShutWr (conn_handle c)]))"

definition shutdown_recv_send :: "conn \<Rightarrow> (conn \<times> syscall list) option" where
  "shutdown_recv_send c =
     (if conn_handle c = 0 \<or> recv_shutdown c \<or> send_shutdown c then None
      else Some (c\<lparr>send_shutdown := True, recv_shutdown := True\<rparr>, [SShutRdWr (conn_handle c)]))"

definition safe_shutdown_recv :: "conn \<Rightarrow> (conn \<times> syscall list) option" where
  "safe_shutdown_recv c = (if \<not> recv_shutdown c then shutdown_recv c else Some (c, []))"

definition safe_shutdown_send :: "conn \<Rightarrow> (conn \<times> syscall list) option" where
  "safe_shutdown_send c = (if \<not> send_shutdown c then shutdown_send c else Some (c, []))"

definition safe_shutdown_recv_send :: "conn \<Rightarrow> (conn \<times> syscall list) option" where
  "safe_shutdown_recv_send c =
     (if \<not> recv_shutdown c \<and> \<not> send_shutdown c then shutdown_recv_send c
      else if \<not> send_shutdown c then shutdown_send c
      else shutdown_recv c)"

section \<open>Closing\<close>

text \<open>\<open>ok\<close> is whether the system call \<open>close\<close> succeeds; \<open>mt\<close> is the kind of the context.\<close>

definition conn_close :: "bool \<Rightarrow> bool \<Rightarrow> conn_world \<Rightarrow> unit outcome" where
  "conn_close mt ok w =
     (if \<not> conn_alive w then UseAfterFree
      else let c = w_conn w; w = w\<lparr>sys_log := sys_log w @ [SClose (conn_handle c)]\<rparr> in
        if \<not> ok then Raises ''close error'' w
        else let c = c\<lparr>conn_handle := 0, send_shutdown := True, recv_shutdown := True, added_to_pool := False\<rparr> in
          case post_task mt (close_task c) (w_ctx w) of
            Done _ x \<Rightarrow> Value () (w\<lparr>w_conn := c, w_ctx := x\<rparr>)
          | SelfLock x \<Rightarrow> Blocks
          | AssertFail \<Rightarrow> AssertionFails)"

definition conn_safe_close :: "bool \<Rightarrow> bool \<Rightarrow> conn_world \<Rightarrow> unit outcome" where
  "conn_safe_close mt ok w = (if conn_alive w \<and> conn_handle (w_conn w) \<noteq> 0 then conn_close mt ok w else if conn_alive w then Value () w else UseAfterFree)"

text \<open>The reference that is given up last deletes the object, whose destructor wants that nobody waits.\<close>

definition drop_ref :: "conn_world \<Rightarrow> unit outcome" where
  "drop_ref w =
     (if \<not> conn_alive w then UseAfterFree
      else let c = (w_conn w)\<lparr>ref_cnt := ref_cnt (w_conn w) - 1\<rparr>; w = w\<lparr>w_conn := c\<rparr> in
        if ref_cnt c = 0 then
          (if recv_awaiter c = None \<and> send_awaiter c = None then Value () (w\<lparr>conn_alive := False\<rparr>) else AssertionFails)
        else Value () w)"

text \<open>The loops of \<open>wakeup_awaiter_on_close\<close>; \<open>co\<close> is what the coroutine of an awaiter does when it is resumed.\<close>

partial_function (option) wake_all :: "(addr \<Rightarrow> conn_world \<Rightarrow> unit outcome) \<Rightarrow> addr option \<Rightarrow> conn_world \<Rightarrow> unit outcome option" where
  "wake_all co p w =
     (case p of
        None \<Rightarrow> Some (Value () w)
      | Some a \<Rightarrow>
          (case aws w a of
             None \<Rightarrow> Some UseAfterFree
           | Some x \<Rightarrow>
               (case co a (w\<lparr>aws := (aws w)(a \<mapsto> x\<lparr>aw_transfer := -1\<rparr>)\<rparr>) of
                  Value _ w \<Rightarrow> wake_all co (aw_next x) w
                | r \<Rightarrow> Some r)))"

definition wakeup_awaiter_on_close ::
  "(addr \<Rightarrow> conn_world \<Rightarrow> unit outcome) \<Rightarrow> (addr \<Rightarrow> conn_world \<Rightarrow> unit outcome) \<Rightarrow> conn_world \<Rightarrow> unit outcome option" where
  "wakeup_awaiter_on_close co_recv co_send w =
     (if \<not> conn_alive w then Some UseAfterFree
      else case wake_all co_recv (recv_awaiter (w_conn w)) w of
          None \<Rightarrow> None
        | Some (Value _ w) \<Rightarrow>
            (case wake_all co_send (send_awaiter (w_conn w)) w of
               None \<Rightarrow> None
             | Some (Value _ w) \<Rightarrow> Some (drop_ref w)
             | Some r \<Rightarrow> Some r)
        | Some r \<Rightarrow> Some r)"

text \<open>\<open>~Connection\<close>, of a connection that owns a \<open>ConnImpl\<close>.\<close>

definition Connection_destroy :: "bool \<Rightarrow> bool \<Rightarrow> conn_world \<Rightarrow> unit outcome" where
  "Connection_destroy mt ok w =
     then_do (on_conn safe_shutdown_recv_send w) (\<lambda>_ w. then_do (conn_safe_close mt ok w) (\<lambda>_ w. drop_ref w))"

text \<open>The members of \<open>Connection\<close> that forward; \<open>Connection::shutdown_recv_send\<close> calls \<open>shutdown_send\<close> only.\<close>

datatype conn_op = ShutdownRecv | ShutdownSend | ShutdownRecvSend | SafeShutdownRecv | SafeShutdownSend | SafeShutdownRecvSend
  | SafeClose | Close

fun Connection_do :: "bool \<Rightarrow> bool \<Rightarrow> conn_op \<Rightarrow> conn_world \<Rightarrow> unit outcome" where
  "Connection_do mt ok ShutdownRecv w = on_conn shutdown_recv w"
| "Connection_do mt ok ShutdownSend w = on_conn shutdown_send w"
| "Connection_do mt ok ShutdownRecvSend w = on_conn shutdown_send w"
| "Connection_do mt ok SafeShutdownRecv w = on_conn safe_shutdown_recv w"
| "Connection_do mt ok SafeShutdownSend w = on_conn safe_shutdown_send w"
| "Connection_do mt ok SafeShutdownRecvSend w = on_conn safe_shutdown_recv_send w"
| "Connection_do mt ok SafeClose w = conn_safe_close mt ok w"
| "Connection_do mt ok Close w = (if conn_handle (w_conn w) = 0 then AssertionFails else conn_close mt ok w)"

section \<open>Receiving\<close>

definition AsyncReceiveAwaiter_new :: "nat \<Rightarrow> bool \<Rightarrow> addr \<Rightarrow> node \<Rightarrow> awaiter" where
  "AsyncReceiveAwaiter_new n timeOutFlag tn task =
     \<lparr>aw_next = None, aw_size = n, aw_transfer = 0, aw_suspend_return = False, aw_timeout_flag = timeOutFlag, aw_timenode = tn,
      aw_post_task = task\<rparr>"

definition set_aw :: "addr \<Rightarrow> awaiter \<Rightarrow> conn_world \<Rightarrow> conn_world" where
  "set_aw a x w = w\<lparr>aws := (aws w)(a \<mapsto> x)\<rparr>"

text \<open>\<open>await_ready\<close>: true when the coroutine is not to be suspended, because the connection cannot receive.\<close>

definition recv_await_ready :: "addr \<Rightarrow> awaiter \<Rightarrow> conn_world \<Rightarrow> bool outcome" where
  "recv_await_ready a x w =
     (if \<not> conn_alive w then UseAfterFree
      else if conn_handle (w_conn w) = 0 \<or> recv_shutdown (w_conn w) then Value True (set_aw a (x\<lparr>aw_transfer := k_closed_socket_ready\<rparr>) w)
      else Value False (set_aw a x w))"

text \<open>Results of \<open>recv\<close> and \<open>send\<close>: a number of bytes, \<open>EAGAIN\<close>, another error.\<close>

datatype io_res = Transferred nat | WouldBlock | IoError

text \<open>\<open>await_suspend\<close>; \<open>res\<close> is what \<open>recv\<close> returns if it is called. The result says whether the coroutine is suspended.\<close>

definition recv_await_suspend :: "int \<Rightarrow> io_res \<Rightarrow> addr \<Rightarrow> awaiter \<Rightarrow> conn_world \<Rightarrow> bool outcome" where
  "recv_await_suspend now res a x w =
     (if \<not> conn_alive w then UseAfterFree
      else if conn_handle (w_conn w) = 0 then AssertionFails
      else let suspend = (\<lambda>w.
          let w = (if aw_timeout_flag x then
                     w\<lparr>w_ctx := post_time_out now (aw_timenode x)
                         ((w_ctx w)\<lparr>m_time_queue := (m_time_queue (w_ctx w))\<lparr>t_post_task := (t_post_task (m_time_queue (w_ctx w)))(aw_timenode x := aw_post_task x)\<rparr>\<rparr>)\<rparr>
                   else w);
              w = set_aw a (x\<lparr>aw_next := recv_awaiter (w_conn w), aw_suspend_return := True\<rparr>) w
          in Value True (w\<lparr>w_conn := (w_conn w)\<lparr>recv_awaiter := Some a\<rparr>\<rparr>)) in
        if ready_to_recv (w_conn w) then
          (case res of
             WouldBlock \<Rightarrow> suspend (w\<lparr>w_conn := (w_conn w)\<lparr>ready_to_recv := False\<rparr>\<rparr>)
           | IoError \<Rightarrow> Raises ''recv error'' w
           | Transferred n \<Rightarrow> Value False (set_aw a (x\<lparr>aw_suspend_return := False, aw_transfer := int n\<rparr>) w))
        else suspend w)"

text \<open>\<open>await_resume\<close> takes the first awaiter out of the list, whichever that is.\<close>

definition recv_await_resume :: "addr \<Rightarrow> conn_world \<Rightarrow> nat outcome" where
  "recv_await_resume a w =
     (case aws w a of
        None \<Rightarrow> UseAfterFree
      | Some x \<Rightarrow>
          if aw_transfer x = k_closed_socket_ready then Raises ''ENOTSOCK'' w
          else if aw_transfer x = k_time_out then Raises ''AsyncRecvTimeOutError'' w
          else
            then_do
              (if aw_suspend_return x then
                 (case (if conn_alive w then recv_awaiter (w_conn w) else None) of
                    None \<Rightarrow> UseAfterFree
                  | Some f \<Rightarrow>
                      (case aws w f of
                         None \<Rightarrow> UseAfterFree
                       | Some y \<Rightarrow> Value () (w\<lparr>w_conn := (w_conn w)\<lparr>recv_awaiter := aw_next y\<rparr>\<rparr>)))
               else Value () w)
              (\<lambda>_ w.
                 if aw_transfer x < 0 then Raises ''recv error'' w
                 else Value (nat (aw_transfer x))
                   (if aw_timeout_flag x then w\<lparr>w_ctx := (w_ctx w)\<lparr>m_time_queue := snd (timeNode_remove_self (aw_timenode x) (m_time_queue (w_ctx w)))\<rparr>\<rparr>
                    else w)))"

text \<open>The search loop of \<open>on_timeout_outcallbak\<close>: \<open>ptr_pre\<close> is the member that points to the current awaiter.\<close>

partial_function (option) unlink_recv :: "addr \<Rightarrow> addr option \<Rightarrow> addr option \<Rightarrow> conn_world \<Rightarrow> unit outcome option" where
  "unlink_recv a ptr_pre cur w =
     (case cur of
        None \<Rightarrow> Some (Value () w)
      | Some b \<Rightarrow>
          (case aws w b of
             None \<Rightarrow> Some UseAfterFree
           | Some y \<Rightarrow>
               if b = a then
                 (case ptr_pre of
                    None \<Rightarrow> Some (Value () (w\<lparr>w_conn := (w_conn w)\<lparr>recv_awaiter := aw_next y\<rparr>\<rparr>))
                  | Some p \<Rightarrow>
                      (case aws w p of
                         None \<Rightarrow> Some UseAfterFree
                       | Some z \<Rightarrow> Some (Value () (set_aw p (z\<lparr>aw_next := aw_next y\<rparr>) w))))
               else unlink_recv a (Some b) (aw_next y) w))"

definition on_timeout_outcallbak :: "(addr \<Rightarrow> conn_world \<Rightarrow> unit outcome) \<Rightarrow> addr \<Rightarrow> conn_world \<Rightarrow> unit outcome option" where
  "on_timeout_outcallbak co a w =
     (case aws w a of
        None \<Rightarrow> Some UseAfterFree
      | Some x \<Rightarrow>
          let w = set_aw a (x\<lparr>aw_transfer := k_time_out\<rparr>) w in
          if \<not> conn_alive w then Some UseAfterFree
          else case unlink_recv a None (recv_awaiter (w_conn w)) w of
              None \<Rightarrow> None
            | Some r \<Rightarrow> Some (then_do r (\<lambda>_ w. co a w)))"


section \<open>Sending\<close>

definition AsyncSendAwaiter_new :: "nat \<Rightarrow> awaiter" where
  "AsyncSendAwaiter_new n =
     \<lparr>aw_next = None, aw_size = n, aw_transfer = 0, aw_suspend_return = False, aw_timeout_flag = False, aw_timenode = 0, aw_post_task = 0\<rparr>"

definition send_await_ready :: "addr \<Rightarrow> awaiter \<Rightarrow> conn_world \<Rightarrow> bool outcome" where
  "send_await_ready a x w =
     (if \<not> conn_alive w then UseAfterFree
      else if conn_handle (w_conn w) = 0 \<or> send_shutdown (w_conn w) then Value True (set_aw a (x\<lparr>aw_transfer := k_closed_socket_ready\<rparr>) w)
      else Value False (set_aw a x w))"

definition send_await_suspend :: "io_res \<Rightarrow> addr \<Rightarrow> awaiter \<Rightarrow> conn_world \<Rightarrow> bool outcome" where
  "send_await_suspend res a x w =
     (if \<not> conn_alive w then UseAfterFree
      else if conn_handle (w_conn w) = 0 then AssertionFails
      else let suspend = (\<lambda>w.
          let w = set_aw a (x\<lparr>aw_next := send_awaiter (w_conn w), aw_suspend_return := True\<rparr>) w
          in Value True (w\<lparr>w_conn := (w_conn w)\<lparr>send_awaiter := Some a\<rparr>\<rparr>)) in
        if ready_to_send (w_conn w) then
          (case res of
             WouldBlock \<Rightarrow> suspend (w\<lparr>w_conn := (w_conn w)\<lparr>ready_to_send := False\<rparr>\<rparr>)
           | IoError \<Rightarrow> Raises ''send error'' w
           | Transferred n \<Rightarrow> Value False (set_aw a (x\<lparr>aw_transfer := int n, aw_suspend_return := False\<rparr>) w))
        else suspend w)"

definition send_await_resume :: "addr \<Rightarrow> conn_world \<Rightarrow> nat outcome" where
  "send_await_resume a w =
     (case aws w a of
        None \<Rightarrow> UseAfterFree
      | Some x \<Rightarrow>
          if aw_transfer x = k_closed_socket_ready then Raises ''ENOTSOCK'' w
          else
            then_do
              (if aw_suspend_return x then
                 (case (if conn_alive w then send_awaiter (w_conn w) else None) of
                    None \<Rightarrow> UseAfterFree
                  | Some f \<Rightarrow>
                      (case aws w f of
                         None \<Rightarrow> UseAfterFree
                       | Some y \<Rightarrow> Value () (w\<lparr>w_conn := (w_conn w)\<lparr>send_awaiter := aw_next y\<rparr>\<rparr>)))
               else Value () w)
              (\<lambda>_ w. if aw_transfer x < 0 then Raises ''send error'' w else Value (nat (aw_transfer x)) w))"

section \<open>Events of a connection\<close>

fun nbytes_of :: "io_res \<Rightarrow> int" where
  "nbytes_of (Transferred n) = int n"
| "nbytes_of WouldBlock = -1"
| "nbytes_of IoError = -1"

text \<open>
  The comparison of an \<open>int\<close> with a \<open>std::size_t\<close>: a negative number of bytes counts as a huge one.
\<close>

definition is_short :: "io_res \<Rightarrow> nat \<Rightarrow> bool" where
  "is_short r desired_bytes \<longleftrightarrow> nbytes_of r mod 2 ^ 64 < int desired_bytes"

text \<open>What the loop does after the coroutine of an awaiter ran: the awaiter is read again, to find the next one.\<close>

definition recv_after :: "io_res \<Rightarrow> nat \<Rightarrow> addr \<Rightarrow> conn_world \<Rightarrow> addr option outcome" where
  "recv_after r desired_bytes a w =
     (if is_short r desired_bytes then
        (if conn_alive w then Value None (w\<lparr>w_conn := (w_conn w)\<lparr>ready_to_recv := False\<rparr>\<rparr>) else UseAfterFree)
      else (case aws w a of None \<Rightarrow> UseAfterFree | Some y \<Rightarrow> Value (aw_next y) w))"

definition send_after :: "io_res \<Rightarrow> nat \<Rightarrow> addr \<Rightarrow> conn_world \<Rightarrow> addr option outcome" where
  "send_after r desired_bytes a w =
     (if is_short r desired_bytes then
        (if conn_alive w then Value None (w\<lparr>w_conn := (w_conn w)\<lparr>ready_to_send := False\<rparr>\<rparr>) else UseAfterFree)
      else (case aws w a of None \<Rightarrow> UseAfterFree | Some y \<Rightarrow> Value (aw_next y) w))"

text \<open>The loop over the receiving awaiters; \<open>recv i\<close> is the result of the call number \<open>i\<close>.\<close>

partial_function (option) conn_recv_loop ::
  "(addr \<Rightarrow> conn_world \<Rightarrow> unit outcome) \<Rightarrow> (nat \<Rightarrow> io_res) \<Rightarrow> nat \<Rightarrow> addr \<Rightarrow> conn_world \<Rightarrow> unit outcome option" where
  "conn_recv_loop co recv i a w =
     (case aws w a of
        None \<Rightarrow> Some UseAfterFree
      | Some x \<Rightarrow>
          if recv i = WouldBlock then
            Some (if conn_alive w then Value () (w\<lparr>w_conn := (w_conn w)\<lparr>ready_to_recv := False\<rparr>\<rparr>) else UseAfterFree)
          else (case co a (set_aw a (x\<lparr>aw_transfer := nbytes_of (recv i)\<rparr>) w) of
              Value _ w \<Rightarrow>
                (case recv_after (recv i) (aw_size x) a w of
                   Value None w \<Rightarrow> Some (Value () w)
                 | Value (Some b) w \<Rightarrow> conn_recv_loop co recv (i + 1) b w
                 | _ \<Rightarrow> Some UseAfterFree)
            | r \<Rightarrow> Some r))"

partial_function (option) conn_send_loop ::
  "(addr \<Rightarrow> conn_world \<Rightarrow> unit outcome) \<Rightarrow> (nat \<Rightarrow> io_res) \<Rightarrow> nat \<Rightarrow> addr \<Rightarrow> conn_world \<Rightarrow> unit outcome option" where
  "conn_send_loop co send i a w =
     (case aws w a of
        None \<Rightarrow> Some UseAfterFree
      | Some x \<Rightarrow>
          if send i = WouldBlock then
            Some (if conn_alive w then Value () (w\<lparr>w_conn := (w_conn w)\<lparr>ready_to_send := False\<rparr>\<rparr>) else UseAfterFree)
          else (case co a (set_aw a (x\<lparr>aw_transfer := nbytes_of (send i)\<rparr>) w) of
              Value _ w \<Rightarrow>
                (case send_after (send i) (aw_size x) a w of
                   Value None w \<Rightarrow> Some (Value () w)
                 | Value (Some b) w \<Rightarrow> conn_send_loop co send (i + 1) b w
                 | _ \<Rightarrow> Some UseAfterFree)
            | r \<Rightarrow> Some r))"

text \<open>\<open>on_callback\<close>, with the flags \<open>EPOLLIN\<close> and \<open>EPOLLOUT\<close> of the event. Both lists are read before the first coroutine runs.\<close>

definition event_ready :: "bool \<Rightarrow> bool \<Rightarrow> conn_world \<Rightarrow> conn_world" where
  "event_ready ein eout w =
     (let w = (if ein then w\<lparr>w_conn := (w_conn w)\<lparr>ready_to_recv := True\<rparr>\<rparr> else w)
      in if eout then w\<lparr>w_conn := (w_conn w)\<lparr>ready_to_send := True\<rparr>\<rparr> else w)"

definition conn_on_callback ::
  "(addr \<Rightarrow> conn_world \<Rightarrow> unit outcome) \<Rightarrow> (addr \<Rightarrow> conn_world \<Rightarrow> unit outcome) \<Rightarrow> (nat \<Rightarrow> io_res) \<Rightarrow> (nat \<Rightarrow> io_res) \<Rightarrow>
    bool \<Rightarrow> bool \<Rightarrow> conn_world \<Rightarrow> unit outcome option" where
  "conn_on_callback co_recv co_send recv send ein eout w =
     (if \<not> conn_alive w then Some UseAfterFree
      else if conn_handle (w_conn w) = 0 then Some (Value () w)
      else let w = event_ready ein eout w; ra = recv_awaiter (w_conn w); sa = send_awaiter (w_conn w) in
        case (case ra of Some a \<Rightarrow> if ein then conn_recv_loop co_recv recv 0 a w else Some (Value () w) | None \<Rightarrow> Some (Value () w)) of
          Some (Value _ w) \<Rightarrow>
            (case (case sa of Some a \<Rightarrow> if eout then conn_send_loop co_send send 0 a w else Some (Value () w) | None \<Rightarrow> Some (Value () w)) of
               Some (Value _ w) \<Rightarrow> Some (if \<not> ein \<and> \<not> eout then Exits else Value () w)
             | r \<Rightarrow> r)
        | r \<Rightarrow> r)"

end
