(* ===== verification/ConnLife.thy ===== *)
theory ConnLife
  imports Conn
begin

text \<open>
  The life of a connection (\<open>Conn\<close>): who may still use it, when it is deleted, which of its awaiters are waiting, and what becomes of
  their timers.
\<close>

section \<open>The lists of awaiters\<close>

fun aw_list :: "(addr \<Rightarrow> awaiter option) \<Rightarrow> addr option \<Rightarrow> addr list \<Rightarrow> bool" where
  "aw_list f p [] \<longleftrightarrow> p = None"
| "aw_list f p (a # as) \<longleftrightarrow> p = Some a \<and> (\<exists>x. f a = Some x \<and> aw_list f (aw_next x) as)"

lemma aw_list_other [simp]: "a \<notin> set as \<Longrightarrow> aw_list (f(a := v)) p as = aw_list f p as"
  by (induction as arbitrary: p) auto

lemma aw_list_same_next:
  "f a = Some x \<Longrightarrow> aw_next x' = aw_next x \<Longrightarrow> aw_list (f(a \<mapsto> x')) p as = aw_list f p as"
  by (induction as arbitrary: p) auto

lemma aw_list_None [simp]: "aw_list f None as \<longleftrightarrow> as = []"
  by (cases as) auto

lemma set_aw_simps [simp]:
  "w_conn (set_aw a x w) = w_conn w" "conn_alive (set_aw a x w) = conn_alive w" "aws (set_aw a x w) = (aws w)(a \<mapsto> x)"
  "w_ctx (set_aw a x w) = w_ctx w" "sys_log (set_aw a x w) = sys_log w"
  by (simp_all add: set_aw_def)

text \<open>The search finds the awaiter and takes it out.\<close>

lemma unlink_recv_from:
  assumes "aw_list (aws w) p (xs @ a # ys)" "distinct (b # xs @ a # ys)" "aws w b = Some z" "aw_next z = p"
  shows "\<exists>w'. unlink_recv a (Some b) p w = Some (Value () w') \<and> aw_list (aws w') (Some b) (b # xs @ ys) \<and>
    aws w' a = aws w a \<and> w_conn w' = w_conn w \<and> (\<forall>c. c \<notin> set (b # xs) \<longrightarrow> aws w' c = aws w c)"
  using assms
proof (induction xs arbitrary: p b z)
  case Nil
  then obtain y where y: "p = Some a" "aws w a = Some y" "aw_list (aws w) (aw_next y) ys" by auto
  have "unlink_recv a (Some b) p w = Some (Value () (set_aw b (z\<lparr>aw_next := aw_next y\<rparr>) w))"
    using y Nil by (subst unlink_recv.simps) simp
  with y Nil show ?case by auto
next
  case (Cons c xs)
  then obtain y where y: "p = Some c" "aws w c = Some y" "aw_list (aws w) (aw_next y) (xs @ a # ys)" by auto
  from Cons.IH [OF y(3) _ y(2)] Cons.prems(2) obtain w' where w': "unlink_recv a (Some c) (aw_next y) w = Some (Value () w')"
    "aw_list (aws w') (Some c) (c # xs @ ys)" "aws w' a = aws w a" "w_conn w' = w_conn w" "\<forall>d. d \<notin> set (c # xs) \<longrightarrow> aws w' d = aws w d"
    by auto
  have "unlink_recv a (Some b) p w = Some (Value () w')"
    using y(1,2) Cons.prems(2) w'(1) by (subst unlink_recv.simps) auto
  moreover have "aws w' b = Some z" using w'(5) Cons.prems(2,3) by auto
  ultimately show ?case using w' Cons.prems(4) y(1) by auto
qed

lemma unlink_recv_list:
  assumes "aw_list (aws w) (recv_awaiter (w_conn w)) (xs @ a # ys)" "distinct (xs @ a # ys)"
  shows "\<exists>w'. unlink_recv a None (recv_awaiter (w_conn w)) w = Some (Value () w') \<and>
    aw_list (aws w') (recv_awaiter (w_conn w')) (xs @ ys) \<and> aws w' a = aws w a"
proof (cases xs)
  case Nil
  then obtain y where y: "recv_awaiter (w_conn w) = Some a" "aws w a = Some y" "aw_list (aws w) (aw_next y) ys" using assms(1) by auto
  then show ?thesis using Nil by (subst unlink_recv.simps) simp
next
  case (Cons b xs')
  then obtain z where z: "recv_awaiter (w_conn w) = Some b" "aws w b = Some z" "aw_list (aws w) (aw_next z) (xs' @ a # ys)" using assms(1) by auto
  have b: "b \<noteq> a" using assms(2) Cons by auto
  from unlink_recv_from [OF z(3) _ z(2)] assms(2) Cons obtain w' where "unlink_recv a (Some b) (aw_next z) w = Some (Value () w')"
    "aw_list (aws w') (Some b) (b # xs' @ ys)" "aws w' a = aws w a" "w_conn w' = w_conn w" by auto
  moreover from this have "unlink_recv a None (recv_awaiter (w_conn w)) w = Some (Value () w')"
    using z(1,2) b by (subst unlink_recv.simps) simp
  ultimately show ?thesis using z(1) Cons by auto
qed

section \<open>The life cycle\<close>

fun is_close :: "syscall \<Rightarrow> bool" where
  "is_close (SClose fd) = True"
| "is_close _ = False"

definition closes :: "conn_world \<Rightarrow> nat" where
  "closes w = length (filter is_close (sys_log w))"

text \<open>What the rest of the program may do meanwhile: everything but to touch the members of the connection that concern its life, or to
  post or take its task.\<close>

definition elsewhere :: "conn_world \<Rightarrow> conn_world \<Rightarrow> bool" where
  "elsewhere w w' \<longleftrightarrow>
     conn_handle (w_conn w') = conn_handle (w_conn w) \<and> recv_shutdown (w_conn w') = recv_shutdown (w_conn w) \<and>
     send_shutdown (w_conn w') = send_shutdown (w_conn w) \<and> ref_cnt (w_conn w') = ref_cnt (w_conn w) \<and>
     close_task (w_conn w') = close_task (w_conn w) \<and> conn_alive w' = conn_alive w \<and> closes w' = closes w \<and>
     (\<exists>xs xs'. queue_rep (m_task_queue (w_ctx w)) xs \<and> queue_rep (m_task_queue (w_ctx w')) xs' \<and>
       (close_task (w_conn w) \<in> set xs' \<longleftrightarrow> close_task (w_conn w) \<in> set xs))"

text \<open>\<open>life mt owner gone w\<close>: the connection, still owned by a \<open>Connection\<close> or not, its close task run or not, has come to \<open>w\<close> without an
  error. The context takes the close task from its queue. A socket can be closed.\<close>

inductive life :: "bool \<Rightarrow> bool \<Rightarrow> bool \<Rightarrow> conn_world \<Rightarrow> bool" for mt where
  create: "0 < fd \<Longrightarrow> queue_rep (m_task_queue c) xs \<Longrightarrow> task \<notin> set xs \<Longrightarrow>
    life mt True False \<lparr>w_conn = ConnImpl_new fd task, conn_alive = True, aws = f, w_ctx = c, sys_log = []\<rparr>"
| call: "life mt True gone w \<Longrightarrow> Connection_do mt True op w = Value () w' \<Longrightarrow> life mt True gone w'"
| destroy: "life mt True gone w \<Longrightarrow> Connection_destroy mt True w = Value () w' \<Longrightarrow> life mt False gone w'"
| task: "life mt owner gone w \<Longrightarrow> Queue_pop (m_task_queue (w_ctx w)) = Some (Some (close_task (w_conn w)), q) \<Longrightarrow>
    wakeup_awaiter_on_close co_recv co_send (w\<lparr>w_ctx := (w_ctx w)\<lparr>m_task_queue := q\<rparr>\<rparr>) = Some (Value () w') \<Longrightarrow>
    (\<And>a v v'. co_recv a v = Value () v' \<Longrightarrow> elsewhere v v') \<Longrightarrow> (\<And>a v v'. co_send a v = Value () v' \<Longrightarrow> elsewhere v v') \<Longrightarrow>
    life mt owner True w'"
| other: "life mt owner gone w \<Longrightarrow> elsewhere w w' \<Longrightarrow> life mt owner gone w'"

definition life_inv :: "bool \<Rightarrow> bool \<Rightarrow> conn_world \<Rightarrow> bool" where
  "life_inv owner gone w \<longleftrightarrow>
     ref_cnt (w_conn w) = of_bool owner + of_bool (\<not> gone) \<and> (conn_alive w \<longleftrightarrow> owner \<or> \<not> gone) \<and>
     closes w = of_bool (conn_handle (w_conn w) = 0) \<and> (\<not> owner \<or> gone \<longrightarrow> conn_handle (w_conn w) = 0) \<and>
     (\<exists>xs. queue_rep (m_task_queue (w_ctx w)) xs \<and>
       (close_task (w_conn w) \<in> set xs \<longleftrightarrow> conn_handle (w_conn w) = 0 \<and> \<not> gone))"


lemma post_task_Done:
  assumes "post_task mt n c = Done u c'" "queue_rep (m_task_queue c) xs" "n \<notin> set xs"
  shows "queue_rep (m_task_queue c') (xs @ [n])"
  using assms Queue_push_rep [OF assms(2,3)]
  by (cases mt) (auto simp: post_task_def post_section_def que_lock_def que_unlock_def wakeup_a_thread_def Let_def split: if_splits)

lemma conn_close_inv:
  assumes inv: "life_inv owner False w" and h: "conn_handle (w_conn w) \<noteq> 0" and c: "conn_close mt True w = Value () w'"
  shows "life_inv owner False w' \<and> conn_handle (w_conn w') = 0"
proof -
  obtain xs where xs: "queue_rep (m_task_queue (w_ctx w)) xs" "close_task (w_conn w) \<notin> set xs"
    using inv h by (auto simp: life_inv_def)
  from c obtain x where x: "post_task mt (close_task (w_conn w)) (w_ctx w) = Done () x"
    and w': "w' = w\<lparr>sys_log := sys_log w @ [SClose (conn_handle (w_conn w))],
      w_conn := (w_conn w)\<lparr>conn_handle := 0, send_shutdown := True, recv_shutdown := True, added_to_pool := False\<rparr>, w_ctx := x\<rparr>"
    by (auto simp: conn_close_def Let_def split: if_splits held.splits)
  have "queue_rep (m_task_queue (w_ctx w')) (xs @ [close_task (w_conn w)])" using post_task_Done [OF x xs] by (simp add: w')
  then have "\<exists>ys. queue_rep (m_task_queue (w_ctx w')) ys \<and> close_task (w_conn w) \<in> set ys" by (intro exI conjI) auto
  with inv h show ?thesis by (auto simp: life_inv_def w' closes_def)
qed

lemma on_conn_inv:
  assumes "life_inv owner gone w" "on_conn f w = Value () w'"
    and f: "\<And>c c' l. f c = Some (c', l) \<Longrightarrow> conn_handle c' = conn_handle c \<and> ref_cnt c' = ref_cnt c \<and> close_task c' = close_task c \<and>
      filter is_close l = []"
  shows "life_inv owner gone w'" "conn_handle (w_conn w') = conn_handle (w_conn w)"
  using assms(1,2) f [of "w_conn w"]
  by (auto simp: on_conn_def life_inv_def closes_def split: if_splits option.splits)

lemma shutdowns_keep:
  "shutdown_recv c = Some (c', l) \<Longrightarrow> conn_handle c' = conn_handle c \<and> ref_cnt c' = ref_cnt c \<and> close_task c' = close_task c \<and> filter is_close l = []"
  "shutdown_send c = Some (c', l) \<Longrightarrow> conn_handle c' = conn_handle c \<and> ref_cnt c' = ref_cnt c \<and> close_task c' = close_task c \<and> filter is_close l = []"
  "shutdown_recv_send c = Some (c', l) \<Longrightarrow> conn_handle c' = conn_handle c \<and> ref_cnt c' = ref_cnt c \<and> close_task c' = close_task c \<and> filter is_close l = []"
  "safe_shutdown_recv c = Some (c', l) \<Longrightarrow> conn_handle c' = conn_handle c \<and> ref_cnt c' = ref_cnt c \<and> close_task c' = close_task c \<and> filter is_close l = []"
  "safe_shutdown_send c = Some (c', l) \<Longrightarrow> conn_handle c' = conn_handle c \<and> ref_cnt c' = ref_cnt c \<and> close_task c' = close_task c \<and> filter is_close l = []"
  "safe_shutdown_recv_send c = Some (c', l) \<Longrightarrow> conn_handle c' = conn_handle c \<and> ref_cnt c' = ref_cnt c \<and> close_task c' = close_task c \<and> filter is_close l = []"
  by (auto simp: shutdown_recv_def shutdown_send_def shutdown_recv_send_def safe_shutdown_recv_def safe_shutdown_send_def
      safe_shutdown_recv_send_def split: if_splits)

text \<open>A connection whose task has run is closed, and an owner may not close it again.\<close>

lemma gone_closed: "life_inv owner gone w \<Longrightarrow> conn_handle (w_conn w) \<noteq> 0 \<Longrightarrow> owner \<and> \<not> gone"
  by (auto simp: life_inv_def)

lemma safe_close_inv:
  assumes inv: "life_inv owner gone w" and c: "conn_safe_close mt True w = Value () w'"
  shows "life_inv owner gone w' \<and> conn_handle (w_conn w') = 0"
proof (cases "conn_handle (w_conn w) = 0")
  case True
  with inv c show ?thesis by (auto simp: conn_safe_close_def split: if_splits)
next
  case False
  with gone_closed [OF inv] have "\<not> gone" by simp
  with False inv c show ?thesis using conn_close_inv [of owner w mt w'] by (auto simp: conn_safe_close_def split: if_splits)
qed

lemma Connection_do_inv:
  assumes inv: "life_inv owner gone w" and d: "Connection_do mt True op w = Value () w'"
  shows "life_inv owner gone w'"
proof (cases op)
  case Close
  with d have h: "conn_handle (w_conn w) \<noteq> 0" "conn_close mt True w = Value () w'" by (auto split: if_splits)
  with gone_closed [OF inv] have "\<not> gone" by simp
  with conn_close_inv [of owner w mt w'] inv h show ?thesis by simp
qed (use d safe_close_inv [OF inv] on_conn_inv(1) [OF inv] shutdowns_keep in \<open>auto\<close>)


lemma drop_ref_inv:
  assumes "drop_ref w = Value () w'" "ref_cnt (w_conn w) = 1 + of_bool b" "conn_alive w"
  shows "ref_cnt (w_conn w') = of_bool b" "conn_alive w' = b" "conn_handle (w_conn w') = conn_handle (w_conn w)"
    "close_task (w_conn w') = close_task (w_conn w)" "w_ctx w' = w_ctx w" "closes w' = closes w"
  using assms by (auto simp: drop_ref_def Let_def closes_def split: if_splits)

lemma Connection_destroy_inv:
  assumes inv: "life_inv True gone w" and d: "Connection_destroy mt True w = Value () w'"
  shows "life_inv False gone w'"
proof -
  obtain w1 where w1: "on_conn safe_shutdown_recv_send w = Value () w1"
    and r1: "then_do (conn_safe_close mt True w1) (\<lambda>_ w. drop_ref w) = Value () w'"
    using d by (cases "on_conn safe_shutdown_recv_send w") (auto simp: Connection_destroy_def)
  obtain w2 where w2: "conn_safe_close mt True w1 = Value () w2" and r2: "drop_ref w2 = Value () w'"
    using r1 by (cases "conn_safe_close mt True w1") auto
  have "life_inv True gone w1" using on_conn_inv(1) [OF inv w1] shutdowns_keep by blast
  from safe_close_inv [OF this w2] have i2: "life_inv True gone w2" "conn_handle (w_conn w2) = 0" by simp_all
  then have "ref_cnt (w_conn w2) = 1 + of_bool (\<not> gone)" "conn_alive w2" by (auto simp: life_inv_def)
  note r = drop_ref_inv [OF r2 this]
  show ?thesis using i2 unfolding life_inv_def r by auto
qed

lemma elsewhere_trans: "elsewhere u v \<Longrightarrow> elsewhere v w \<Longrightarrow> elsewhere u w"
  unfolding elsewhere_def by (auto dest: queue_rep_unique)

lemma elsewhere_refl: "queue_rep (m_task_queue (w_ctx w)) xs \<Longrightarrow> w_conn w' = w_conn w \<Longrightarrow> conn_alive w' = conn_alive w \<Longrightarrow>
    w_ctx w' = w_ctx w \<Longrightarrow> sys_log w' = sys_log w \<Longrightarrow> elsewhere w w'"
  by (auto simp: elsewhere_def closes_def)

lemma wake_all_elsewhere:
  assumes "wake_all co p w = Some r" "r = Value () w'" "queue_rep (m_task_queue (w_ctx w)) xs"
    and co: "\<And>a v v'. co a v = Value () v' \<Longrightarrow> elsewhere v v'"
  shows "elsewhere w w'"
proof -
  have "\<forall>w' xs. r = Value () w' \<longrightarrow> (\<forall>a v v'. co a v = Value () v' \<longrightarrow> elsewhere v v') \<longrightarrow> queue_rep (m_task_queue (w_ctx w)) xs \<longrightarrow> elsewhere w w'"
    using assms(1)
  proof (induction rule: wake_all.raw_induct [rotated, consumes 1, case_names step])
    case (step wake co p w r)
    show ?case
    proof (intro allI impI)
      fix w' xs
      assume r: "r = Value () w'" and co: "\<forall>a v v'. co a v = Value () v' \<longrightarrow> elsewhere v v'"
        and q: "queue_rep (m_task_queue (w_ctx w)) xs"
      show "elsewhere w w'"
      proof (cases p)
        case None
        with step(2) r have "w' = w" by simp
        with elsewhere_refl [OF q] show ?thesis by simp
      next
        case (Some a)
        from step(2) r Some obtain x v where x: "aws w a = Some x"
          and v: "co a (w\<lparr>aws := (aws w)(a \<mapsto> x\<lparr>aw_transfer := -1\<rparr>)\<rparr>) = Value () v" "wake co (aw_next x) v = Some r"
          by (auto split: option.splits outcome.splits)
        have "elsewhere w (w\<lparr>aws := (aws w)(a \<mapsto> x\<lparr>aw_transfer := -1\<rparr>)\<rparr>)" using q by (intro elsewhere_refl) simp_all
        moreover have "elsewhere (w\<lparr>aws := (aws w)(a \<mapsto> x\<lparr>aw_transfer := -1\<rparr>)\<rparr>) v" using co v(1) by blast
        ultimately have e: "elsewhere w v" by (rule elsewhere_trans)
        then obtain ys where "queue_rep (m_task_queue (w_ctx v)) ys" by (auto simp: elsewhere_def)
        with step(1) [OF v(2)] r co have "elsewhere v w'" by blast
        with e show ?thesis by (rule elsewhere_trans)
      qed
    qed
  qed
  with assms(2,3) co show ?thesis by blast
qed

lemma close_task_inv:
  assumes inv: "life_inv owner gone w" and q: "Queue_pop (m_task_queue (w_ctx w)) = Some (Some (close_task (w_conn w)), q)"
    and r: "wakeup_awaiter_on_close co_recv co_send (w\<lparr>w_ctx := (w_ctx w)\<lparr>m_task_queue := q\<rparr>\<rparr>) = Some (Value () w')"
    and co: "\<And>a v v'. co_recv a v = Value () v' \<Longrightarrow> elsewhere v v'" "\<And>a v v'. co_send a v = Value () v' \<Longrightarrow> elsewhere v v'"
  shows "life_inv owner True w' \<and> \<not> gone"
proof -
  obtain xs where xs: "queue_rep (m_task_queue (w_ctx w)) xs" "close_task (w_conn w) \<in> set xs \<longleftrightarrow> conn_handle (w_conn w) = 0 \<and> \<not> gone"
    using inv by (auto simp: life_inv_def)
  obtain ys where ys: "xs = close_task (w_conn w) # ys" "queue_rep q ys"
  proof (cases xs)
    case Nil
    then show ?thesis using xs(1) q Queue_pop_Nil by fastforce
  next
    case (Cons y ys)
    from Queue_pop_Cons [OF xs(1) [unfolded this]] q Cons show ?thesis by (intro that) auto
  qed
  have g: "conn_handle (w_conn w) = 0" "\<not> gone" using xs(2) ys(1) by simp_all
  have nin: "close_task (w_conn w) \<notin> set ys" using xs(1) ys(1) by (simp add: queue_rep_def)
  let ?w = "w\<lparr>w_ctx := (w_ctx w)\<lparr>m_task_queue := q\<rparr>\<rparr>"
  obtain w1 where w1: "wake_all co_recv (recv_awaiter (w_conn ?w)) ?w = Some (Value () w1)"
    and r1: "(case wake_all co_send (send_awaiter (w_conn w1)) w1 of None \<Rightarrow> None | Some (Value _ w) \<Rightarrow> Some (drop_ref w) | Some r \<Rightarrow> Some r) = Some (Value () w')"
    using r by (auto simp: wakeup_awaiter_on_close_def split: if_splits option.splits outcome.splits)
  obtain w2 where w2: "wake_all co_send (send_awaiter (w_conn w1)) w1 = Some (Value () w2)" and r2: "drop_ref w2 = Value () w'"
    using r1 by (auto split: option.splits outcome.splits)
  have "queue_rep (m_task_queue (w_ctx ?w)) ys" using ys(2) by simp
  from wake_all_elsewhere [OF w1 refl this co(1)] have e1: "elsewhere ?w w1" by simp
  then obtain zs where "queue_rep (m_task_queue (w_ctx w1)) zs" by (auto simp: elsewhere_def)
  from wake_all_elsewhere [OF w2 refl this co(2)] have "elsewhere w1 w2" by simp
  with e1 have e: "elsewhere ?w w2" by (rule elsewhere_trans)
  then obtain us where us: "queue_rep (m_task_queue (w_ctx w2)) us" "close_task (w_conn w) \<notin> set us"
    using queue_rep_unique [OF ys(2)] nin by (auto simp: elsewhere_def)
  have "ref_cnt (w_conn w2) = 1 + of_bool owner" "conn_alive w2" using inv g e by (auto simp: life_inv_def elsewhere_def)
  note d = drop_ref_inv [OF r2 this]
  have "closes w2 = 1" using inv g e by (simp add: life_inv_def elsewhere_def closes_def)
  then show ?thesis using e us g unfolding life_inv_def d by (auto simp: elsewhere_def)
qed

lemma life_inv: "life mt owner gone w \<Longrightarrow> life_inv owner gone w"
proof (induction rule: life.induct)
  case (create fd c xs task f)
  then show ?case by (auto simp: life_inv_def ConnImpl_new_def closes_def)
next
  case (call gone w op w')
  then show ?case using Connection_do_inv by blast
next
  case (destroy gone w w')
  then show ?case using Connection_destroy_inv by blast
next
  case (task owner gone w q co_recv co_send w')
  then show ?case using close_task_inv by blast
next
  case (other owner gone w w')
  then show ?case unfolding life_inv_def elsewhere_def by (auto dest: queue_rep_unique)
qed


section \<open>Properties\<close>

text \<open>C28: a connection is closed once and deleted once. However the owner shuts down, closes and destroys it and whenever its close
  task runs, as long as nothing fails: the object is there exactly as long as the owner or the task need it, the socket has been closed
  once if the connection has let go of its handle and never otherwise, and once the owner is gone the task is in the queue until it runs.\<close>

theorem connection_life:
  assumes "life mt owner gone w"
  shows "(conn_alive w \<longleftrightarrow> owner \<or> \<not> gone) \<and> closes w = of_bool (conn_handle (w_conn w) = 0) \<and>
    (\<not> owner \<longrightarrow> closes w = 1) \<and>
    (\<exists>xs. queue_rep (m_task_queue (w_ctx w)) xs \<and> (close_task (w_conn w) \<in> set xs \<longleftrightarrow> closes w = 1 \<and> \<not> gone))"
  using life_inv [OF assms] by (auto simp: life_inv_def)

text \<open>The destructor of \<open>Connection\<close> fails an assertion exactly when the connection is closed or its receiving side has been shut
  down.\<close>

theorem destroy_asserts:
  assumes "conn_alive w" "ref_cnt (w_conn w) \<noteq> 1" "mt \<longrightarrow> \<not> que_locked (w_ctx w)"
  shows "Connection_destroy mt True w = AssertionFails \<longleftrightarrow> conn_handle (w_conn w) = 0 \<or> recv_shutdown (w_conn w)"
  using assms
  by (auto simp: Connection_destroy_def on_conn_def safe_shutdown_recv_send_def shutdown_recv_send_def shutdown_send_def shutdown_recv_def
      conn_safe_close_def conn_close_def post_task_def post_section_def que_lock_def drop_ref_def Let_def split: if_splits)

text \<open>A time-out takes its awaiter out of the list of those that wait, wherever it stands there, leaves the others in their order,
  and makes the coroutine throw the exception of a time-out.\<close>

theorem timeout_unlinks:
  assumes "aw_list (aws w) (recv_awaiter (w_conn w)) (xs @ a # ys)" "distinct (xs @ a # ys)" "conn_alive w"
  shows "\<exists>w'. on_timeout_outcallbak co a w = Some (co a w') \<and> aw_list (aws w') (recv_awaiter (w_conn w')) (xs @ ys) \<and>
    recv_await_resume a w' = Raises ''AsyncRecvTimeOutError'' w'"
proof -
  have "\<exists>x. aws w a = Some x"
  proof -
    have "aw_list (aws w) p (xs @ a # ys) \<Longrightarrow> \<exists>x. aws w a = Some x" for p by (induction xs arbitrary: p) auto
    with assms(1) show ?thesis by blast
  qed
  then obtain x where x: "aws w a = Some x" by blast
  define v where "v = set_aw a (x\<lparr>aw_transfer := k_time_out\<rparr>) w"
  have v: "w_conn v = w_conn w" "conn_alive v = conn_alive w" "aws v a = Some (x\<lparr>aw_transfer := k_time_out\<rparr>)" by (simp_all add: v_def)
  have "aw_list (aws v) (recv_awaiter (w_conn v)) (xs @ a # ys)"
    using assms(1) x by (simp add: v_def aw_list_same_next)
  from unlink_recv_list [OF this assms(2)] obtain w' where w': "unlink_recv a None (recv_awaiter (w_conn v)) v = Some (Value () w')"
    "aw_list (aws w') (recv_awaiter (w_conn w')) (xs @ ys)" "aws w' a = aws v a" by blast
  have "on_timeout_outcallbak co a w = Some (co a w')"
    using x w'(1) assms(3) v by (simp add: on_timeout_outcallbak_def v_def [symmetric])
  moreover have "recv_await_resume a w' = Raises ''AsyncRecvTimeOutError'' w'"
    using w'(3) v(3) by (simp add: recv_await_resume_def k_time_out_def k_closed_socket_ready_def)
  ultimately show ?thesis using w'(2) by blast
qed

text \<open>A receiving awaiter with a time limit takes its timer back when bytes were received, but leaves it in the timer queue when
  \<open>recv\<close> failed, where it points to the awaiter after its end.\<close>

theorem recv_error_leaves_timer:
  assumes "aws w a = Some x" "aw_suspend_return x" "aw_timeout_flag x" "aw_list (aws w) (recv_awaiter (w_conn w)) (a # as)" "conn_alive w"
    "time_rep (time_head (w_ctx w)) (m_time_queue (w_ctx w)) (ts @ aw_timenode x # us)" "-1 \<le> aw_transfer x"
  shows "\<exists>w'. recv_await_resume a w = (if aw_transfer x = -1 then Raises ''recv error'' w' else Value (nat (aw_transfer x)) w') \<and>
    time_rep (time_head (w_ctx w')) (m_time_queue (w_ctx w')) (if aw_transfer x = -1 then ts @ aw_timenode x # us else ts @ us) \<and>
    aw_list (aws w') (recv_awaiter (w_conn w')) as"
  using assms time_rep_remove [OF assms(6)]
  by (auto simp: recv_await_resume_def k_time_out_def k_closed_socket_ready_def)

section \<open>Witnesses\<close>

text \<open>A connection on socket 5 with the close task 9, in a context with one thread.\<close>

definition demo_ctx :: io_ctx where
  "demo_ctx = IoCtx_new (\<lambda>_. None) \<lparr>t_next = \<lambda>_. 0, t_prev = \<lambda>_. 0, t_post_task = \<lambda>_. 0, t_expire = \<lambda>_. 0\<rparr> 0"

definition demo_world :: conn_world where
  "demo_world = \<lparr>w_conn = ConnImpl_new 5 9, conn_alive = True, aws = \<lambda>_. None, w_ctx = demo_ctx, sys_log = []\<rparr>"

lemma demo_ctx_queue: "queue_rep (m_task_queue demo_ctx) []"
  by (simp add: demo_ctx_def IoCtx_new_def Queue_init_rep)

definition demo_destroyed :: conn_world where
  "demo_destroyed = demo_world
     \<lparr>w_conn := (ConnImpl_new 5 9)\<lparr>conn_handle := 0, send_shutdown := True, recv_shutdown := True, added_to_pool := False, ref_cnt := 1\<rparr>,
      w_ctx := demo_ctx\<lparr>m_task_queue := Queue_push 9 (m_task_queue demo_ctx)\<rparr>, sys_log := [SShutRdWr 5, SClose 5]\<rparr>"

lemma demo_life: "life False False False demo_destroyed"
proof -
  have "life False True False demo_world" unfolding demo_world_def by (rule life.create [OF _ demo_ctx_queue]) simp_all
  moreover have "Connection_destroy False True demo_world = Value () demo_destroyed"
    by (simp add: Connection_destroy_def demo_world_def demo_destroyed_def on_conn_def safe_shutdown_recv_send_def shutdown_recv_send_def
        ConnImpl_new_def conn_safe_close_def conn_close_def post_task_def post_section_def drop_ref_def Let_def)
  ultimately show ?thesis by (rule life.destroy)
qed

lemma connection_life_witness: "conn_alive demo_destroyed \<and> closes demo_destroyed = 1"
  using connection_life [OF demo_life] by simp

lemma destroy_asserts_witness:
  "Connection_destroy False True (demo_world\<lparr>w_conn := (ConnImpl_new 5 9)\<lparr>recv_shutdown := True\<rparr>\<rparr>) = AssertionFails"
proof -
  let ?w = "demo_world\<lparr>w_conn := (ConnImpl_new 5 9)\<lparr>recv_shutdown := True\<rparr>\<rparr>"
  have "conn_alive ?w" "ref_cnt (w_conn ?w) \<noteq> 1" by (simp_all add: demo_world_def ConnImpl_new_def)
  then show ?thesis using destroy_asserts [of ?w False] by simp
qed

text \<open>Two readers, the awaiter 20 before the awaiter 10; the timer of 20 is the node 21.\<close>

definition demo_readers :: conn_world where
  "demo_readers = demo_world
     \<lparr>w_conn := (ConnImpl_new 5 9)\<lparr>recv_awaiter := Some 20\<rparr>,
      aws := [10 \<mapsto> (AsyncReceiveAwaiter_new 64 False 11 12)\<lparr>aw_suspend_return := True\<rparr>,
              20 \<mapsto> (AsyncReceiveAwaiter_new 64 True 21 22)\<lparr>aw_suspend_return := True, aw_next := Some 10, aw_transfer := -1\<rparr>],
      w_ctx := post_time_out 0 21 demo_ctx\<rparr>"

lemma demo_readers_list: "aw_list (aws demo_readers) (recv_awaiter (w_conn demo_readers)) [20, 10]"
  by (simp add: demo_readers_def AsyncReceiveAwaiter_new_def)

lemma timeout_unlinks_witness:
  "\<exists>w'. on_timeout_outcallbak (\<lambda>a. Value ()) 10 demo_readers = Some (Value () w') \<and> aw_list (aws w') (recv_awaiter (w_conn w')) [20]"
  using timeout_unlinks [of demo_readers "[20]" 10 "[]" "\<lambda>a. Value ()"] demo_readers_list
  by (auto simp: demo_readers_def demo_world_def)

lemma recv_error_leaves_timer_witness:
  "\<exists>w'. recv_await_resume 20 demo_readers = Raises ''recv error'' w' \<and> time_rep 0 (m_time_queue (w_ctx w')) [21]"
proof -
  have "ctx_rep (post_time_out 0 21 demo_ctx) [] [21]"
    using post_time_out_rep(1) [OF ctx_rep_new [of "\<lambda>_. None" "\<lparr>t_next = \<lambda>_. 0, t_prev = \<lambda>_. 0, t_post_task = \<lambda>_. 0, t_expire = \<lambda>_. 0\<rparr>" 0], of 21 0]
    by (simp add: demo_ctx_def IoCtx_new_def)
  then have t: "time_rep (time_head (w_ctx demo_readers)) (m_time_queue (w_ctx demo_readers)) ([] @ 21 # [])" "time_head (w_ctx demo_readers) = 0"
    by (simp_all add: ctx_rep_def demo_readers_def post_time_out_def demo_ctx_def IoCtx_new_def)
  define x where "x = (AsyncReceiveAwaiter_new 64 True 21 22)\<lparr>aw_suspend_return := True, aw_next := Some 10, aw_transfer := -1\<rparr>"
  have x: "aws demo_readers 20 = Some x" "aw_suspend_return x" "aw_timeout_flag x" "conn_alive demo_readers" "aw_transfer x = -1" "aw_timenode x = 21"
    by (simp_all add: demo_readers_def x_def AsyncReceiveAwaiter_new_def demo_world_def)
  have "-1 \<le> aw_transfer x" by (simp add: x)
  from recv_error_leaves_timer [OF x(1-3) demo_readers_list x(4) t(1) [folded x(6)] this] t(2)
  obtain w' where "recv_await_resume 20 demo_readers = Raises ''recv error'' w'" "time_rep (time_head (w_ctx w')) (m_time_queue (w_ctx w')) [21]"
    by (auto simp: x)
  moreover from this(1) have "time_head (w_ctx w') = 0"
    using t(2) by (auto simp: recv_await_resume_def x k_time_out_def k_closed_socket_ready_def split: option.splits if_splits)
  ultimately show ?thesis by auto
qed

end
