(* ===== verification/ConnRun.thy ===== *)
theory ConnRun
  imports ConnLife
begin

text \<open>
  One coroutine that reads from a connection (\<open>Conn\<close>) whose socket is watched edge-triggered (\<open>EPOLLET\<close>). Bytes arrive at any time;
  the coroutine reads what it likes, may wait for something else in between, and may end. The steps follow \<open>await_suspend\<close>,
  \<open>await_resume\<close> and the loop of \<open>on_callback\<close>, which runs the coroutine within itself. The socket and \<open>epoll\<close> are given by what is
  documented of them: \<open>recv_returns\<close>, and that an event is pending once something has arrived.
\<close>

section \<open>The system\<close>

text \<open>Where control is: in the event loop, in the coroutine (with the result of \<open>recv\<close> and the size asked for when the loop of
  \<open>on_callback\<close> resumed it), in that loop before \<open>recv\<close>, or there after the coroutine came back.\<close>

datatype rd_pc = Waiting | Running "(io_res \<times> nat) option" | InLoop | After io_res nat | Crashed

record 'b rd_sys =
  world :: conn_world
  unread :: "'b list"
  fin :: bool
  edge :: bool
  rd_at :: rd_pc
  away :: bool
  ended :: bool
  arrived :: "'b list"
  delivered :: "'b list"

text \<open>What is documented of \<open>recv\<close> on a stream: fewer bytes than asked for mean that no more were there, and 0 is the end.\<close>

definition recv_returns :: "nat \<Rightarrow> 'b list \<Rightarrow> bool \<Rightarrow> io_res \<Rightarrow> 'b list \<Rightarrow> 'b list \<Rightarrow> bool" where
  "recv_returns n un fi res bs un' \<longleftrightarrow>
     (case res of
        WouldBlock \<Rightarrow> un = [] \<and> \<not> fi \<and> bs = [] \<and> un' = un
      | IoError \<Rightarrow> bs = [] \<and> un' = un
      | Transferred k \<Rightarrow> un = bs @ un' \<and> length bs = k \<and> k \<le> n \<and> (k < n \<longrightarrow> un' = []) \<and> (k = 0 \<longrightarrow> un = [] \<and> fi))"

fun after_pc :: "(io_res \<times> nat) option \<Rightarrow> rd_pc" where
  "after_pc None = Waiting"
| "after_pc (Some (r, n)) = After r n"

abbreviation new_awaiter :: "nat \<Rightarrow> awaiter" where "new_awaiter n \<equiv> AsyncReceiveAwaiter_new n False 0 0"

definition rd_init :: "int \<Rightarrow> node \<Rightarrow> io_ctx \<Rightarrow> 'b rd_sys" where
  "rd_init fd task c =
     \<lparr>world = \<lparr>w_conn = ConnImpl_new fd task, conn_alive = True, aws = \<lambda>_. None, w_ctx = c, sys_log = []\<rparr>, unread = [], fin = False,
      edge = False, rd_at = Running None, away = False, ended = False, arrived = [], delivered = []\<rparr>"

text \<open>\<open>a\<close> is the address of the awaiter in the frame of the coroutine.\<close>

inductive rd_step :: "addr \<Rightarrow> 'b rd_sys \<Rightarrow> 'b rd_sys \<Rightarrow> bool" for a where
  arrive: "\<not> fin s \<Longrightarrow> bs \<noteq> [] \<Longrightarrow> rd_step a s (s\<lparr>unread := unread s @ bs, edge := True, arrived := arrived s @ bs\<rparr>)"
| finish: "\<not> fin s \<Longrightarrow> rd_step a s (s\<lparr>fin := True, edge := True\<rparr>)"
| read_now: "rd_at s = Running r \<Longrightarrow> 0 < n \<Longrightarrow> n < 2 ^ 31 \<Longrightarrow> recv_await_ready a (new_awaiter n) (world s) = Value False w1 \<Longrightarrow>
    recv_returns n (unread s) (fin s) res bs un \<Longrightarrow> recv_await_suspend 0 res a (new_awaiter n) w1 = Value False w2 \<Longrightarrow>
    recv_await_resume a w2 = Value (length bs) w3 \<Longrightarrow>
    rd_step a s (s\<lparr>world := w3, unread := un, delivered := delivered s @ bs\<rparr>)"
| read_fails: "rd_at s = Running r \<Longrightarrow> 0 < n \<Longrightarrow> n < 2 ^ 31 \<Longrightarrow> recv_await_ready a (new_awaiter n) (world s) = Value False w1 \<Longrightarrow>
    recv_await_suspend 0 IoError a (new_awaiter n) w1 = Raises e w2 \<Longrightarrow> rd_step a s (s\<lparr>world := w2\<rparr>)"
| read_waits: "rd_at s = Running r \<Longrightarrow> 0 < n \<Longrightarrow> n < 2 ^ 31 \<Longrightarrow> recv_await_ready a (new_awaiter n) (world s) = Value False w1 \<Longrightarrow>
    (ready_to_recv (w_conn w1) \<Longrightarrow> recv_returns n (unread s) (fin s) WouldBlock [] (unread s)) \<Longrightarrow>
    recv_await_suspend 0 WouldBlock a (new_awaiter n) w1 = Value True w2 \<Longrightarrow> rd_step a s (s\<lparr>world := w2, rd_at := after_pc r\<rparr>)"
| go_away: "rd_at s = Running r \<Longrightarrow> rd_step a s (s\<lparr>rd_at := after_pc r, away := True\<rparr>)"
| come_back: "rd_at s = Waiting \<Longrightarrow> away s \<Longrightarrow> \<not> ended s \<Longrightarrow> rd_step a s (s\<lparr>rd_at := Running None, away := False\<rparr>)"
| finish_frame: "rd_at s = Running r \<Longrightarrow>
    rd_step a s (s\<lparr>rd_at := after_pc r, away := True, ended := True, world := (world s)\<lparr>aws := (aws (world s))(a := None)\<rparr>\<rparr>)"
| event: "rd_at s = Waiting \<Longrightarrow> edge s \<Longrightarrow>
    rd_step a s (s\<lparr>edge := False, world := event_ready True eout (world s),
      rd_at := if recv_awaiter (w_conn (world s)) = None then Waiting else InLoop\<rparr>)"
| loop_again: "rd_at s = InLoop \<Longrightarrow> aws (world s) a = Some x \<Longrightarrow> recv_returns (aw_size x) (unread s) (fin s) WouldBlock [] (unread s) \<Longrightarrow>
    rd_step a s (s\<lparr>world := (world s)\<lparr>w_conn := (w_conn (world s))\<lparr>ready_to_recv := False\<rparr>\<rparr>, rd_at := Waiting\<rparr>)"
| loop_recv: "rd_at s = InLoop \<Longrightarrow> aws (world s) a = Some x \<Longrightarrow> recv_returns (aw_size x) (unread s) (fin s) res bs un \<Longrightarrow>
    res \<noteq> WouldBlock \<Longrightarrow> recv_await_resume a (set_aw a (x\<lparr>aw_transfer := nbytes_of res\<rparr>) (world s)) = r \<Longrightarrow>
    r = Value (length bs) w \<or> bs = [] \<and> r = Raises e w \<Longrightarrow>
    rd_step a s (s\<lparr>world := w, unread := un, delivered := delivered s @ bs, rd_at := Running (Some (res, aw_size x))\<rparr>)"
| after: "rd_at s = After res n \<Longrightarrow> recv_after res n a (world s) = Value None w \<Longrightarrow> rd_step a s (s\<lparr>world := w, rd_at := Waiting\<rparr>)"
| after_freed: "rd_at s = After res n \<Longrightarrow> recv_after res n a (world s) = UseAfterFree \<Longrightarrow> rd_step a s (s\<lparr>rd_at := Crashed\<rparr>)"

inductive rd_reach :: "addr \<Rightarrow> 'b rd_sys \<Rightarrow> bool" for a where
  init: "0 < fd \<Longrightarrow> rd_reach a (rd_init fd task c)"
| step: "rd_reach a s \<Longrightarrow> rd_step a s s' \<Longrightarrow> rd_reach a s'"

section \<open>The invariant\<close>

text \<open>The coroutine waits in \<open>recv\<close>: its awaiter is the only one of the list.\<close>

definition in_recv :: "addr \<Rightarrow> conn_world \<Rightarrow> bool" where
  "in_recv a w \<longleftrightarrow> recv_awaiter (w_conn w) = Some a \<and>
     (\<exists>x. aws w a = Some x \<and> aw_next x = None \<and> aw_suspend_return x \<and> \<not> aw_timeout_flag x \<and> 0 < aw_size x \<and> aw_size x < 2 ^ 31)"

definition world_ok :: "addr \<Rightarrow> conn_world \<Rightarrow> bool" where
  "world_ok a w \<longleftrightarrow> conn_alive w \<and> 0 < conn_handle (w_conn w) \<and> \<not> recv_shutdown (w_conn w) \<and>
     (recv_awaiter (w_conn w) \<noteq> None \<longrightarrow> in_recv a w)"

text \<open>\<open>was_short\<close>: the loop of \<open>on_callback\<close> is going to clear \<open>m_ready_to_recv\<close>.\<close>

fun was_short :: "rd_pc \<Rightarrow> bool" where
  "was_short (Running (Some (r, n))) = is_short r n"
| "was_short (After r n) = is_short r n"
| "was_short _ = False"

fun is_running :: "rd_pc \<Rightarrow> bool" where
  "is_running (Running r) = True"
| "is_running _ = False"

definition rd_inv :: "addr \<Rightarrow> 'b rd_sys \<Rightarrow> bool" where
  "rd_inv a s \<longleftrightarrow> world_ok a (world s) \<and> delivered s @ unread s = arrived s \<and>
     (is_running (rd_at s) \<longrightarrow> recv_awaiter (w_conn (world s)) = None) \<and>
     (away s \<longrightarrow> \<not> is_running (rd_at s) \<and> recv_awaiter (w_conn (world s)) = None) \<and>
     (rd_at s = InLoop \<longrightarrow> recv_awaiter (w_conn (world s)) \<noteq> None \<and> ready_to_recv (w_conn (world s))) \<and>
     (unread s \<noteq> [] \<longrightarrow> edge s \<or>
       ready_to_recv (w_conn (world s)) \<and> \<not> was_short (rd_at s) \<and> (recv_awaiter (w_conn (world s)) \<noteq> None \<longrightarrow> rd_at s = InLoop))"


lemma rd_inv_init: "0 < fd \<Longrightarrow> rd_inv a (rd_init fd task c)"
  by (simp add: rd_inv_def rd_init_def world_ok_def ConnImpl_new_def)

lemma await_ready_open:
  assumes "world_ok a w" "recv_await_ready a x w = Value False w1"
  shows "w1 = set_aw a x w"
  using assms by (simp add: recv_await_ready_def world_ok_def split: if_splits)

lemma suspend_now:
  assumes "recv_await_suspend 0 res a (new_awaiter n) w = Value False w2" "recv_await_resume a w2 = Value k w3"
  shows "ready_to_recv (w_conn w) \<and> w_conn w3 = w_conn w \<and> conn_alive w3 = conn_alive w"
  using assms
  by (auto simp: recv_await_suspend_def Let_def AsyncReceiveAwaiter_new_def recv_await_resume_def split: if_splits io_res.splits)

lemma suspend_fails:
  assumes "recv_await_suspend 0 IoError a (new_awaiter n) w = Raises e w2"
  shows "w2 = w"
  using assms by (auto simp: recv_await_suspend_def Let_def split: if_splits)

lemma suspend_waits:
  assumes "recv_await_suspend 0 WouldBlock a (new_awaiter n) w = Value True w2" "recv_awaiter (w_conn w) = None" "0 < n" "n < 2 ^ 31"
  shows "in_recv a w2 \<and> conn_handle (w_conn w2) = conn_handle (w_conn w) \<and> conn_alive w2 = conn_alive w \<and>
    recv_shutdown (w_conn w2) = recv_shutdown (w_conn w)"
  using assms
  by (auto simp: recv_await_suspend_def Let_def AsyncReceiveAwaiter_new_def in_recv_def split: if_splits)

lemma resume_front:
  assumes "in_recv a w" "conn_alive w" "aws w a = Some x" "recv_await_resume a (set_aw a (x\<lparr>aw_transfer := nb\<rparr>) w) = r"
    "r = Value k w' \<or> r = Raises e w'" "-1 \<le> nb"
  shows "recv_awaiter (w_conn w') = None" "conn_alive w'" "conn_handle (w_conn w') = conn_handle (w_conn w)"
    "recv_shutdown (w_conn w') = recv_shutdown (w_conn w)" "ready_to_recv (w_conn w') = ready_to_recv (w_conn w)"
  using assms
  by (auto simp: recv_await_resume_def in_recv_def k_time_out_def k_closed_socket_ready_def split: if_splits)

lemma not_short: "n < 2 ^ 31 \<Longrightarrow> \<not> is_short IoError n" "k < 2 ^ 31 \<Longrightarrow> is_short (Transferred k) n \<longleftrightarrow> k < n"
  by (auto simp: is_short_def)

lemma was_short_after [simp]: "was_short (after_pc r) = was_short (Running r)"
  by (cases r rule: after_pc.cases) simp_all

lemma after_pc_pc [simp]: "\<not> is_running (after_pc r)" "after_pc r \<noteq> InLoop" "after_pc r \<noteq> Crashed"
  by (cases r rule: after_pc.cases; simp)+

lemma loop_recv_inv:
  assumes inv: "rd_inv a s" and s: "rd_at s = InLoop" "aws (world s) a = Some x"
    and r: "recv_returns (aw_size x) (unread s) (fin s) res bs un" "res \<noteq> WouldBlock"
      "recv_await_resume a (set_aw a (x\<lparr>aw_transfer := nbytes_of res\<rparr>) (world s)) = r"
      "r = Value (length bs) w \<or> bs = [] \<and> r = Raises e w"
  shows "rd_inv a (s\<lparr>world := w, unread := un, delivered := delivered s @ bs, rd_at := Running (Some (res, aw_size x))\<rparr>)"
proof -
  have i: "in_recv a (world s)" "conn_alive (world s)" "ready_to_recv (w_conn (world s))"
    using inv s(1) by (auto simp: rd_inv_def world_ok_def)
  then have x: "0 < aw_size x" "aw_size x < 2 ^ 31" using s(2) by (auto simp: in_recv_def)
  have "-1 \<le> nbytes_of res" by (cases res) simp_all
  note f = resume_front [OF i(1,2) s(2) r(3) _ this, of "length bs" w e]
  have ok: "recv_awaiter (w_conn w) = None" "conn_alive w" "conn_handle (w_conn w) = conn_handle (w_conn (world s))"
    "recv_shutdown (w_conn w) = recv_shutdown (w_conn (world s))" "ready_to_recv (w_conn w)"
    using f r(4) i(3) by blast+
  have bytes: "unread s = bs @ un" using r(1,2) by (auto simp: recv_returns_def split: io_res.splits)
  have short: "un = []" if "is_short res (aw_size x)"
  proof (cases res)
    case (Transferred k)
    then have "k \<le> aw_size x" "k < aw_size x \<longrightarrow> un = []" using r(1) by (auto simp: recv_returns_def)
    then show ?thesis using that Transferred x not_short(2) [of k "aw_size x"] by auto
  qed (use that x not_short(1) r(2) in auto)
  show ?thesis using inv s(1) ok bytes short unfolding rd_inv_def world_ok_def by auto
qed

lemma event_ready_in:
  "conn_alive (event_ready True eout w) = conn_alive w" "aws (event_ready True eout w) = aws w"
  "ready_to_recv (w_conn (event_ready True eout w))" "recv_awaiter (w_conn (event_ready True eout w)) = recv_awaiter (w_conn w)"
  "conn_handle (w_conn (event_ready True eout w)) = conn_handle (w_conn w)"
  "recv_shutdown (w_conn (event_ready True eout w)) = recv_shutdown (w_conn w)"
  by (simp_all add: event_ready_def Let_def)

lemma rd_step_inv:
  assumes "rd_step a s s'" "rd_inv a s"
  shows "rd_inv a s'"
  using assms
proof (cases rule: rd_step.cases)
  case (read_now r n w1 res bs un w2 w3)
  have w1: "w1 = set_aw a (new_awaiter n) (world s)" using await_ready_open read_now(5) assms(2) by (auto simp: rd_inv_def)
  have k: "ready_to_recv (w_conn (world s))" "w_conn w3 = w_conn (world s)" "conn_alive w3 = conn_alive (world s)"
    using suspend_now [OF read_now(7,8)] by (simp_all add: w1)
  have "unread s = bs @ un" using read_now(6) by (auto simp: recv_returns_def split: io_res.splits)
  then show ?thesis using assms(2) k read_now(1,2) unfolding rd_inv_def world_ok_def by auto
next
  case (read_fails r n w1 e w2)
  have w1: "w1 = set_aw a (new_awaiter n) (world s)" using await_ready_open read_fails(5) assms(2) by (auto simp: rd_inv_def)
  then show ?thesis using assms(2) suspend_fails [OF read_fails(6)] read_fails(1,2) unfolding rd_inv_def world_ok_def by auto
next
  case (read_waits r n w1 w2)
  have w1: "w1 = set_aw a (new_awaiter n) (world s)" using await_ready_open read_waits(5) assms(2) by (auto simp: rd_inv_def)
  have n: "recv_awaiter (w_conn w1) = None" using assms(2) read_waits(2) by (simp add: w1 rd_inv_def)
  note k = suspend_waits [OF read_waits(7) n read_waits(3,4)]
  have "unread s = [] \<or> edge s"
    using assms(2) read_waits(6) by (auto simp: w1 rd_inv_def recv_returns_def)
  then show ?thesis using assms(2) k read_waits(1,2) unfolding rd_inv_def world_ok_def w1 by auto
next
  case (loop_recv x res bs un r w e)
  then show ?thesis using loop_recv_inv assms(2) by blast
next
  case (after res n w)
  then have "conn_alive w \<and> recv_awaiter (w_conn w) = recv_awaiter (w_conn (world s)) \<and> aws w = aws (world s) \<and>
      conn_handle (w_conn w) = conn_handle (w_conn (world s)) \<and> recv_shutdown (w_conn w) = recv_shutdown (w_conn (world s)) \<and>
      (\<not> is_short res n \<longrightarrow> w = world s)"
    using assms(2) by (auto simp: recv_after_def rd_inv_def world_ok_def split: if_splits option.splits)
  then show ?thesis using assms(2) after(1,2) unfolding rd_inv_def world_ok_def in_recv_def by auto
qed (auto simp: rd_inv_def world_ok_def in_recv_def event_ready_in recv_returns_def)


lemma rd_reach_inv: "rd_reach a s \<Longrightarrow> rd_inv a s"
  by (induction rule: rd_reach.induct) (auto intro: rd_inv_init rd_step_inv)

section \<open>Runs\<close>

text \<open>A reader that asks for \<open>n\<close> bytes when there are none, and is resumed by the event of the first byte.\<close>

lemma rd_first_wait:
  assumes n: "0 < n" "n < 2 ^ 31"
  shows "\<exists>w. rd_reach a ((rd_init 5 9 c)\<lparr>world := w, rd_at := Waiting\<rparr>) \<and> in_recv a w \<and> world_ok a w \<and>
    (\<exists>x. aws w a = Some x \<and> aw_size x = n)"
proof -
  let ?s = "rd_init 5 9 c :: 'a rd_sys" and ?x = "new_awaiter n"
  let ?w1 = "set_aw a ?x (world ?s)"
  let ?w = "set_aw a (?x\<lparr>aw_next := None, aw_suspend_return := True\<rparr>) ?w1
    \<lparr>w_conn := (ConnImpl_new 5 9)\<lparr>ready_to_recv := False, recv_awaiter := Some a\<rparr>\<rparr>"
  have r: "rd_reach a ?s" by (rule rd_reach.init) simp
  have "recv_await_ready a ?x (world ?s) = Value False ?w1" by (simp add: recv_await_ready_def rd_init_def ConnImpl_new_def)
  moreover have "recv_await_suspend 0 WouldBlock a ?x ?w1 = Value True ?w"
    by (simp add: recv_await_suspend_def rd_init_def ConnImpl_new_def set_aw_def AsyncReceiveAwaiter_new_def Let_def)
  moreover have "recv_returns n (unread ?s) (fin ?s) WouldBlock [] (unread ?s)" by (simp add: recv_returns_def rd_init_def)
  ultimately have "rd_step a ?s (?s\<lparr>world := ?w, rd_at := after_pc None\<rparr>)"
    using n by (intro rd_step.read_waits [where n = n]) (simp_all add: rd_init_def)
  with r have "rd_reach a (?s\<lparr>world := ?w, rd_at := Waiting\<rparr>)" by (simp add: rd_reach.step)
  moreover have "in_recv a ?w" using n by (simp add: in_recv_def AsyncReceiveAwaiter_new_def)
  moreover from this have "world_ok a ?w" by (simp add: world_ok_def ConnImpl_new_def rd_init_def)
  ultimately show ?thesis by (intro exI [of _ ?w]) (simp add: AsyncReceiveAwaiter_new_def)
qed

lemma rd_woken:
  assumes r: "rd_reach a s" "rd_at s = Waiting" "edge s" "in_recv a (world s)" and x: "aws (world s) a = Some x"
    and recv: "recv_returns (aw_size x) (unread s) (fin s) (Transferred (length bs)) bs un" "bs \<noteq> []"
  shows "\<exists>w. rd_reach a (s\<lparr>edge := False, world := w, unread := un, delivered := delivered s @ bs,
      rd_at := Running (Some (Transferred (length bs), aw_size x))\<rparr>) \<and>
    recv_awaiter (w_conn w) = None \<and> world_ok a w \<and> ready_to_recv (w_conn w)"
proof -
  let ?w1 = "event_ready True False (world s)"
  let ?s1 = "s\<lparr>edge := False, world := ?w1, rd_at := InLoop\<rparr>"
  have i: "recv_awaiter (w_conn (world s)) = Some a" "aw_next x = None" "aw_suspend_return x" "\<not> aw_timeout_flag x"
    using r(4) x by (auto simp: in_recv_def)
  have ok: "world_ok a (world s)" using rd_reach_inv [OF r(1)] by (simp add: rd_inv_def)
  have "rd_reach a (s\<lparr>edge := False, world := ?w1, rd_at := if recv_awaiter (w_conn (world s)) = None then Waiting else InLoop\<rparr>)"
    using r by (intro rd_reach.step [OF r(1)] rd_step.event) simp_all
  then have r1: "rd_reach a ?s1" using i by simp
  let ?w2 = "set_aw a (x\<lparr>aw_transfer := int (length bs)\<rparr>) ?w1"
  let ?w = "?w2\<lparr>w_conn := (w_conn ?w1)\<lparr>recv_awaiter := None\<rparr>\<rparr>"
  have res: "recv_await_resume a ?w2 = Value (length bs) ?w"
    using i ok by (simp add: recv_await_resume_def k_time_out_def k_closed_socket_ready_def event_ready_in world_ok_def)
  have "rd_step a ?s1 (?s1\<lparr>world := ?w, unread := un, delivered := delivered ?s1 @ bs,
      rd_at := Running (Some (Transferred (length bs), aw_size x))\<rparr>)"
    by (rule rd_step.loop_recv [where res = "Transferred (length bs)" and r = "Value (length bs) ?w"])
      (use x recv res in \<open>simp_all add: event_ready_in\<close>)
  from rd_reach.step [OF r1 this] have "rd_reach a (s\<lparr>edge := False, world := ?w, unread := un, delivered := delivered s @ bs,
      rd_at := Running (Some (Transferred (length bs), aw_size x))\<rparr>)" by simp
  moreover have "world_ok a ?w" using ok by (simp add: world_ok_def event_ready_in)
  ultimately show ?thesis by (intro exI [of _ ?w]) (simp add: event_ready_in)
qed

section \<open>Properties\<close>

text \<open>C29: a coroutine that reads gets the bytes that arrive, all of them and in their order, and does not wait in vain: while it waits in
  \<open>recv\<close> and bytes are there, an event is pending.\<close>

theorem reader_gets_stream:
  assumes "rd_reach a s"
  shows "delivered s @ unread s = arrived s \<and>
    (rd_at s = Waiting \<and> recv_awaiter (w_conn (world s)) \<noteq> None \<and> unread s \<noteq> [] \<longrightarrow> edge s)"
  using rd_reach_inv [OF assms] by (auto simp: rd_inv_def)

lemma reader_gets_stream_witness:
  "\<exists>s :: nat rd_sys. arrived s = [7, 8] \<and> unread s = [7, 8] \<and> rd_at s = Waiting \<and> in_recv 1 (world s) \<and> edge s"
proof -
  obtain w where w: "rd_reach 1 ((rd_init 5 9 demo_ctx)\<lparr>world := w, rd_at := Waiting\<rparr> :: nat rd_sys)" "in_recv 1 w"
    using rd_first_wait [of 64 1 demo_ctx] by auto
  let ?s = "(rd_init 5 9 demo_ctx)\<lparr>world := w, rd_at := Waiting\<rparr> :: nat rd_sys"
  let ?t = "?s\<lparr>unread := unread ?s @ [7, 8], edge := True, arrived := arrived ?s @ [7, 8]\<rparr>"
  have t: "rd_reach 1 ?t" by (intro rd_reach.step [OF w(1)] rd_step.arrive) (simp_all add: rd_init_def)
  from reader_gets_stream [OF t] w(2) have "edge ?t" by (auto simp: in_recv_def rd_init_def)
  with w(2) show ?thesis by (intro exI [of _ ?t]) (simp add: rd_init_def)
qed

text \<open>The end of the stream can be missed. When the last bytes and the end come together, and the coroutine does something else
  before it reads again, then \<open>on_callback\<close> has cleared \<open>m_ready_to_recv\<close> because the read was short; the next read waits for an event
  that never comes.\<close>

theorem end_of_stream_lost:
  "\<exists>s :: 'b rd_sys. rd_reach a s \<and> fin s \<and> unread s = [] \<and> rd_at s = Waiting \<and> in_recv a (world s) \<and> (\<forall>s'. \<not> rd_step a s s')"
proof -
  obtain b :: 'b where True by simp
  obtain w where w: "rd_reach a ((rd_init 5 9 demo_ctx)\<lparr>world := w, rd_at := Waiting\<rparr> :: 'b rd_sys)" "in_recv a w" "world_ok a w"
    "\<exists>x. aws w a = Some x \<and> aw_size x = 64"
    using rd_first_wait [of 64 a demo_ctx] by auto
  then obtain x where x: "aws w a = Some x" "aw_size x = 64" by auto
  let ?s = "(rd_init 5 9 demo_ctx)\<lparr>world := w, rd_at := Waiting\<rparr> :: 'b rd_sys"
  let ?t = "?s\<lparr>unread := unread ?s @ [b], edge := True, arrived := arrived ?s @ [b]\<rparr>"
  have "rd_reach a ?t" by (intro rd_reach.step [OF w(1)] rd_step.arrive) (simp_all add: rd_init_def)
  then have "rd_reach a (?t\<lparr>fin := True, edge := True\<rparr>)"
    by (rule rd_reach.step) (intro rd_step.finish, simp add: rd_init_def)
  moreover have "recv_returns (aw_size x) (unread ?t) True (Transferred (length [b])) [b] []"
    by (simp add: recv_returns_def rd_init_def x)
  ultimately obtain w2 where w2: "rd_reach a (?t\<lparr>fin := True, edge := False, world := w2, unread := [], delivered := [b],
      rd_at := Running (Some (Transferred 1, 64))\<rparr>)" "recv_awaiter (w_conn w2) = None" "world_ok a w2"
    using rd_woken [of a "?t\<lparr>fin := True, edge := True\<rparr>" x "[b]" "[]"] w x by (auto simp: rd_init_def)
  let ?u = "?t\<lparr>fin := True, edge := False, world := w2, unread := [], delivered := [b], rd_at := Running (Some (Transferred 1, 64))\<rparr>"
  have r3: "rd_reach a (?u\<lparr>rd_at := After (Transferred 1) 64, away := True\<rparr>)"
    using rd_reach.step [OF w2(1) rd_step.go_away [of _ "Some (Transferred 1, 64)"]] by simp
  let ?w3 = "w2\<lparr>w_conn := (w_conn w2)\<lparr>ready_to_recv := False\<rparr>\<rparr>"
  have "recv_after (Transferred 1) 64 a w2 = Value None ?w3"
    using w2(3) by (simp add: recv_after_def is_short_def world_ok_def)
  then have "rd_reach a (?u\<lparr>rd_at := Waiting, away := True, world := ?w3\<rparr>)"
    using rd_reach.step [OF r3 rd_step.after [of _ "Transferred 1" 64 a ?w3]] by (simp add: rd_init_def)
  from rd_reach.step [OF this rd_step.come_back]
  have r4: "rd_reach a (?u\<lparr>rd_at := Running None, away := False, world := ?w3\<rparr>)" by (simp add: rd_init_def)
  let ?x = "new_awaiter 64"
  let ?w4 = "set_aw a ?x ?w3"
  let ?w5 = "set_aw a (?x\<lparr>aw_next := None, aw_suspend_return := True\<rparr>) ?w4\<lparr>w_conn := (w_conn ?w3)\<lparr>recv_awaiter := Some a\<rparr>\<rparr>"
  have "recv_await_ready a ?x ?w3 = Value False ?w4" using w2(3) by (simp add: recv_await_ready_def world_ok_def)
  moreover have "recv_await_suspend 0 WouldBlock a ?x ?w4 = Value True ?w5"
    using w2(2,3) by (simp add: recv_await_suspend_def world_ok_def set_aw_def AsyncReceiveAwaiter_new_def Let_def)
  ultimately have "rd_step a (?u\<lparr>rd_at := Running None, away := False, world := ?w3\<rparr>)
      (?u\<lparr>rd_at := Running None, away := False, world := ?w3\<rparr>\<lparr>world := ?w5, rd_at := after_pc None\<rparr>)"
    by (intro rd_step.read_waits [where n = 64]) simp_all
  from rd_reach.step [OF r4 this] have r5: "rd_reach a (?u\<lparr>rd_at := Waiting, away := False, world := ?w5\<rparr>)" (is "rd_reach a ?v")
    by (simp add: rd_init_def)
  have "in_recv a ?w5" by (simp add: in_recv_def AsyncReceiveAwaiter_new_def)
  moreover have "\<not> rd_step a ?v s'" for s'
    by (auto elim!: rd_step.cases)
  ultimately show ?thesis using r5 by (intro exI [of _ ?v]) simp
qed

text \<open>A coroutine that ends after a read which filled its buffer makes \<open>on_callback\<close> use the memory of its frame, which is gone.\<close>

theorem ended_reader_dangles: "\<exists>s :: 'b rd_sys. rd_reach a s \<and> rd_at s = Crashed"
proof -
  obtain b :: 'b where True by simp
  obtain w where w: "rd_reach a ((rd_init 5 9 demo_ctx)\<lparr>world := w, rd_at := Waiting\<rparr> :: 'b rd_sys)" "in_recv a w" "world_ok a w"
    "\<exists>x. aws w a = Some x \<and> aw_size x = 1"
    using rd_first_wait [of 1 a demo_ctx] by auto
  then obtain x where x: "aws w a = Some x" "aw_size x = 1" by auto
  let ?s = "(rd_init 5 9 demo_ctx)\<lparr>world := w, rd_at := Waiting\<rparr> :: 'b rd_sys"
  let ?t = "?s\<lparr>unread := unread ?s @ [b], edge := True, arrived := arrived ?s @ [b]\<rparr>"
  have "rd_reach a ?t" by (intro rd_reach.step [OF w(1)] rd_step.arrive) (simp_all add: rd_init_def)
  moreover have "recv_returns (aw_size x) (unread ?t) (fin ?t) (Transferred (length [b])) [b] []"
    by (simp add: recv_returns_def rd_init_def x)
  ultimately obtain w2 where w2: "rd_reach a (?t\<lparr>edge := False, world := w2, unread := [], delivered := [b],
      rd_at := Running (Some (Transferred 1, 1))\<rparr>)"
    using rd_woken [of a ?t x "[b]" "[]"] w x by (auto simp: rd_init_def)
  let ?u = "?t\<lparr>edge := False, world := w2, unread := [], delivered := [b], rd_at := Running (Some (Transferred 1, 1))\<rparr>"
  from rd_reach.step [OF w2 rd_step.finish_frame [of _ "Some (Transferred 1, 1)"]]
  have r3: "rd_reach a (?u\<lparr>rd_at := After (Transferred 1) 1, away := True, ended := True, world := w2\<lparr>aws := (aws w2)(a := None)\<rparr>\<rparr>)"
    by simp
  have "recv_after (Transferred 1) 1 a (w2\<lparr>aws := (aws w2)(a := None)\<rparr>) = UseAfterFree" by (simp add: recv_after_def is_short_def)
  with rd_reach.step [OF r3 rd_step.after_freed [of _ "Transferred 1" 1 a]] show ?thesis by force
qed

end
