(* ===== verification/Accept.thy ===== *)
theory Accept
  imports TaQueue
begin

text \<open>
  \<open>AcceptorImpl\<close>, \<open>AcceptorAwaiter\<close>, \<open>AcceptorCallback\<close> of \<open>libs/tinyasync/include/tinyasync/awaiters.h\<close> and the coroutine
  \<open>server::listen\<close> of \<open>include/server.h\<close>. The results of the system call \<open>accept\<close> are arguments; \<open>epoll_ctl\<close> and \<open>fcntl\<close> are taken to
  succeed. The listening socket is non-blocking and every server has its own context and its own acceptor on the same socket, so that
  two threads can be told of one connection, and one of them gets \<open>EAGAIN\<close>.
\<close>

section \<open>The acceptor\<close>

text \<open>An awaiter is the address of its list node; \<open>m_conn_socket\<close> maps it to its member. \<open>None\<close> is a failed assertion.\<close>

record acceptor =
  m_awaiter_que :: qstate
  m_added_to_event_pool :: bool
  m_conn_socket :: "node \<Rightarrow> int"

datatype accept_res = Accepted int | AcceptAgain | AcceptFailed

definition NULL_SOCKET :: int where "NULL_SOCKET = 0"

definition AcceptorImpl_new :: "next_heap \<Rightarrow> acceptor" where
  "AcceptorImpl_new h = \<lparr>m_awaiter_que = (h, Queue_init), m_added_to_event_pool = False, m_conn_socket = \<lambda>_. 0\<rparr>"

definition Acceptor_await_suspend :: "node \<Rightarrow> acceptor \<Rightarrow> bool \<times> acceptor" where
  "Acceptor_await_suspend n a =
     (let a = a\<lparr>m_awaiter_que := Queue_push n (m_awaiter_que a)\<rparr>;
          a = (if \<not> m_added_to_event_pool a then a\<lparr>m_added_to_event_pool := True\<rparr> else a)
      in (True, a))"

text \<open>\<open>await_resume\<close>: a connection, or the exception of a failed \<open>accept\<close>.\<close>

definition Acceptor_await_resume :: "node \<Rightarrow> acceptor \<Rightarrow> ((string + int) \<times> acceptor) option" where
  "Acceptor_await_resume n a =
     (case Queue_pop (m_awaiter_que a) of
        None \<Rightarrow> None
      | Some (_, q) \<Rightarrow>
          let a = a\<lparr>m_awaiter_que := q\<rparr>; conn_sock = m_conn_socket a n in
          if conn_sock = -1 then Some (Inl ''can't accept'', a)
          else if conn_sock = NULL_SOCKET then None
          else Some (Inr conn_sock, a))"

text \<open>\<open>on_callback\<close> up to the call that resumes a coroutine; the result is the awaiter to resume.\<close>

definition Acceptor_on_callback :: "accept_res \<Rightarrow> acceptor \<Rightarrow> (node option \<times> acceptor) option" where
  "Acceptor_on_callback res a =
     (case Queue_pop (m_awaiter_que a) of
        None \<Rightarrow> None
      | Some (node, q) \<Rightarrow>
          let a = a\<lparr>m_awaiter_que := q\<rparr> in
          (case node of
             None \<Rightarrow> Some (None, a)
           | Some n \<Rightarrow>
               (case res of
                  AcceptAgain \<Rightarrow> Some (None, a)
                | AcceptFailed \<Rightarrow> Some (Some n, a\<lparr>m_conn_socket := (m_conn_socket a)(n := -1)\<rparr>)
                | Accepted fd \<Rightarrow> Some (Some n, a\<lparr>m_conn_socket := (m_conn_socket a)(n := fd)\<rparr>))))"

section \<open>server::listen\<close>

text \<open>
  One event on the listening socket: the callback, and the coroutine \<open>listen\<close>, which hands the connection to a new coroutine and awaits
  the next one. An exception ends it. The result has the connections that were handed on.
\<close>

definition listen_turn :: "accept_res \<Rightarrow> acceptor \<Rightarrow> (int list \<times> acceptor) option" where
  "listen_turn res a =
     (case Acceptor_on_callback res a of
        None \<Rightarrow> None
      | Some (None, a) \<Rightarrow> Some ([], a)
      | Some (Some n, a) \<Rightarrow>
          (case Acceptor_await_resume n a of
             None \<Rightarrow> None
           | Some (Inl _, a) \<Rightarrow> Some ([], a)
           | Some (Inr conn, a) \<Rightarrow> Some ([conn], snd (Acceptor_await_suspend n a))))"

fun listen_run :: "accept_res list \<Rightarrow> acceptor \<Rightarrow> (int list \<times> acceptor) option" where
  "listen_run [] a = Some ([], a)"
| "listen_run (r # rs) a =
     (case listen_turn r a of
        None \<Rightarrow> None
      | Some (cs, a) \<Rightarrow> map_option (\<lambda>(ds, a). (cs @ ds, a)) (listen_run rs a))"

fun is_accepted :: "accept_res \<Rightarrow> bool" where
  "is_accepted (Accepted fd) = True"
| "is_accepted _ = False"

fun accepted_fd :: "accept_res \<Rightarrow> int" where
  "accepted_fd (Accepted fd) = fd"
| "accepted_fd _ = -1"

text \<open>Descriptors of connections are positive.\<close>

definition fds_ok :: "accept_res list \<Rightarrow> bool" where
  "fds_ok rs \<longleftrightarrow> (\<forall>fd. Accepted fd \<in> set rs \<longrightarrow> 0 < fd)"

section \<open>Turns\<close>

lemma pop_empty: "queue_rep q [] \<Longrightarrow> Queue_pop q = Some (None, q)"
  by (rule Queue_pop_Nil)

lemma listen_turn_nobody:
  assumes "queue_rep (m_awaiter_que a) []"
  shows "listen_turn r a = Some ([], a)"
  using pop_empty [OF assms] by (simp add: listen_turn_def Acceptor_on_callback_def)

lemma listen_run_nobody: "queue_rep (m_awaiter_que a) [] \<Longrightarrow> listen_run rs a = Some ([], a)"
  by (induction rs) (simp_all add: listen_turn_nobody)

lemma listen_turn_one:
  assumes "queue_rep (m_awaiter_que a) [n]" "fds_ok [r]"
  shows "\<exists>a'. listen_turn r a = Some (if is_accepted r then [accepted_fd r] else [], a') \<and>
    queue_rep (m_awaiter_que a') (if is_accepted r then [n] else [])"
proof -
  obtain q where q: "Queue_pop (m_awaiter_que a) = Some (Some n, q)" "queue_rep q []"
    using Queue_pop_Cons [OF assms(1)] by blast
  note e = pop_empty [OF q(2)]
  have p: "queue_rep (Queue_push n q) [n]" using Queue_push_rep [OF q(2), of n] by simp
  show ?thesis
  proof (cases r)
    case (Accepted fd)
    then have "0 < fd" using assms(2) by (simp add: fds_ok_def)
    with Accepted q e p show ?thesis
      by (simp add: listen_turn_def Acceptor_on_callback_def Acceptor_await_resume_def Acceptor_await_suspend_def NULL_SOCKET_def Let_def)
  next
    case AcceptAgain
    with q show ?thesis by (simp add: listen_turn_def Acceptor_on_callback_def)
  next
    case AcceptFailed
    with q e show ?thesis by (simp add: listen_turn_def Acceptor_on_callback_def Acceptor_await_resume_def)
  qed
qed

section \<open>Properties\<close>

text \<open>C30: a server hands on every connection until \<open>accept\<close> does not give one for the first time, be it only \<open>EAGAIN\<close> because another
  thread was faster. From then on nobody waits at its acceptor, and it accepts nothing any more.\<close>

theorem listen_until_eagain:
  assumes "queue_rep (m_awaiter_que a) [n]" "fds_ok rs"
  shows "\<exists>a'. listen_run rs a = Some (map accepted_fd (takeWhile is_accepted rs), a') \<and>
    queue_rep (m_awaiter_que a') (if list_all is_accepted rs then [n] else [])"
  using assms
proof (induction rs arbitrary: a)
  case (Cons r rs)
  have ok: "fds_ok [r]" "fds_ok rs" using Cons.prems(2) by (auto simp: fds_ok_def)
  obtain a1 where a1: "listen_turn r a = Some (if is_accepted r then [accepted_fd r] else [], a1)"
    "queue_rep (m_awaiter_que a1) (if is_accepted r then [n] else [])"
    using listen_turn_one [OF Cons.prems(1) ok(1)] by blast
  show ?case
  proof (cases "is_accepted r")
    case True
    then have "queue_rep (m_awaiter_que a1) [n]" using a1(2) by simp
    from Cons.IH [OF this ok(2)] a1(1) True show ?thesis by auto
  next
    case False
    then have "queue_rep (m_awaiter_que a1) []" using a1(2) by simp
    with a1(1) False listen_run_nobody [OF this] show ?thesis by auto
  qed
qed simp

lemma listen_until_eagain_witness:
  "\<exists>a'. listen_run [Accepted 7, Accepted 8, AcceptAgain, Accepted 9] (snd (Acceptor_await_suspend 3 (AcceptorImpl_new (\<lambda>_. None)))) = Some ([7, 8], a') \<and>
     queue_rep (m_awaiter_que a') []"
proof -
  have "queue_rep (m_awaiter_que (snd (Acceptor_await_suspend 3 (AcceptorImpl_new (\<lambda>_. None))))) [3]"
    using Queue_push_rep [OF Queue_init_rep, of 3 "\<lambda>_. None"] by (simp add: Acceptor_await_suspend_def AcceptorImpl_new_def Let_def)
  moreover have "fds_ok [Accepted 7, Accepted 8, AcceptAgain, Accepted 9]" by (auto simp: fds_ok_def)
  ultimately show ?thesis using listen_until_eagain by fastforce
qed

text \<open>When two coroutines wait for connections, the first connection takes both awaiters out of the queue: the callback removes one,
  and the coroutine that it resumes removes the next, which is never resumed.\<close>

lemma second_acceptor_lost:
  assumes "queue_rep (m_awaiter_que a) [n, m]" "0 < fd"
  shows "\<exists>a' a''. Acceptor_on_callback (Accepted fd) a = Some (Some n, a') \<and> Acceptor_await_resume n a' = Some (Inr fd, a'') \<and>
    queue_rep (m_awaiter_que a'') []"
proof -
  obtain q where q: "Queue_pop (m_awaiter_que a) = Some (Some n, q)" "queue_rep q [m]"
    using Queue_pop_Cons [OF assms(1)] by blast
  obtain q' where q': "Queue_pop q = Some (Some m, q')" "queue_rep q' []"
    using Queue_pop_Cons [OF q(2)] by blast
  show ?thesis using q q' assms(2) by (simp add: Acceptor_on_callback_def Acceptor_await_resume_def NULL_SOCKET_def)
qed

end
