(* ===== verification/JudgeMsg.thy ===== *)
theory JudgeMsg
  imports StrUtils
begin

text \<open>
  The messages between the web server and the judge server (\<open>libs/judgercpp/judge_server/src\<close>): \<open>MessageBuffer\<close>, which writes numbers in
  network byte order and strings after their length, \<open>MessageSendJudge\<close> (a submission) and \<open>MessageResultJudge\<close> (its results).
  A number of type \<open>int\<close> is a 32-bit word, \<open>long\<close> a 64-bit word; \<open>cur\<close> is an index of type \<open>int\<close>. The host is little-endian.
  Reading outside of the message is \<open>UB\<close>, as is a signed overflow. The messages are given as \<open>std::string_view\<close>, which has no terminator: the
  zero byte that follows when it shows the whole of a \<open>std::string\<close> counts as outside, too.
\<close>

unbundle bit_operations_syntax

section \<open>MessageBuffer\<close>

record msg_buffer =
  mb_buff :: string
  mb_cur :: int

definition MessageBuffer_new :: msg_buffer where
  "MessageBuffer_new = \<lparr>mb_buff = [], mb_cur = 0\<rparr>"

text \<open>The bytes in memory of \<open>htonl val\<close>.\<close>

definition net_bytes :: "32 word \<Rightarrow> string" where
  "net_bytes val = map (\<lambda>k. char_of (unat (drop_bit k val AND 255))) [24, 16, 8, 0]"

definition push_back_int :: "32 word \<Rightarrow> msg_buffer \<Rightarrow> msg_buffer" where
  "push_back_int val b = b\<lparr>mb_buff := mb_buff b @ net_bytes val\<rparr>"

definition push_back_str :: "string \<Rightarrow> msg_buffer \<Rightarrow> msg_buffer" where
  "push_back_str str b = b\<lparr>mb_buff := mb_buff b @ str\<rparr>"

text \<open>The length is converted from \<open>std::size_t\<close> to \<open>uint32_t\<close>.\<close>

definition appendMessge :: "string \<Rightarrow> msg_buffer \<Rightarrow> msg_buffer" where
  "appendMessge msg b = push_back_str msg (push_back_int (word_of_nat (length msg)) b)"

definition int_max :: int where "int_max = 2 ^ 31 - 1"

text \<open>Four bytes at \<open>ptr + i\<close>, and the value \<open>ntohl\<close> gives to them.\<close>

definition byte_word :: "char \<Rightarrow> 32 word" where
  "byte_word c = word_of_nat (of_char c)"

definition net_word :: "string \<Rightarrow> 32 word" where
  "net_word b = push_bit 24 (byte_word (b ! 0)) OR push_bit 16 (byte_word (b ! 1)) OR push_bit 8 (byte_word (b ! 2)) OR byte_word (b ! 3)"

definition getInt :: "string \<Rightarrow> int \<Rightarrow> 32 word res" where
  "getInt ptr i = (if 0 \<le> i \<and> i + 4 \<le> int (length ptr) then Val (net_word (take 4 (drop (nat i) ptr))) else UB)"

definition dumpsMessageFromStr_int :: "string \<Rightarrow> int \<Rightarrow> (32 word \<times> int) res" where
  "dumpsMessageFromStr_int ptr cur =
     rbind (getInt ptr cur) (\<lambda>val. if cur + 4 \<le> int_max then Val (val, cur + 4) else UB)"

text \<open>\<open>cur += 4 + size\<close> is an addition of 32-bit words without sign, whose result becomes an \<open>int\<close> again. The string is made of the bytes
from \<open>ptr + old\<close> to \<open>ptr + cur\<close>, which must be a range within the message.\<close>

definition cur_after :: "int \<Rightarrow> 32 word \<Rightarrow> int" where
  "cur_after cur siz = sint (word_of_int cur + (4 + siz))"

definition dumpsMessageFromStr_string :: "string \<Rightarrow> int \<Rightarrow> (string \<times> int) res" where
  "dumpsMessageFromStr_string ptr cur =
     rbind (getInt ptr cur) (\<lambda>siz.
       if cur + 4 \<le> int_max then
         let old = cur + 4;
             cur' = cur_after cur siz
         in if old \<le> cur' \<and> cur' \<le> int (length ptr) then Val (take (nat (cur' - old)) (drop (nat old) ptr), cur') else UB
       else UB)"

definition dumpsMessage_int :: "msg_buffer \<Rightarrow> (32 word \<times> msg_buffer) res" where
  "dumpsMessage_int b = rbind (dumpsMessageFromStr_int (mb_buff b) (mb_cur b)) (\<lambda>(v, c). Val (v, b\<lparr>mb_cur := c\<rparr>))"

definition dumpsMessage_string :: "msg_buffer \<Rightarrow> (string \<times> msg_buffer) res" where
  "dumpsMessage_string b = rbind (dumpsMessageFromStr_string (mb_buff b) (mb_cur b)) (\<lambda>(v, c). Val (v, b\<lparr>mb_cur := c\<rparr>))"

text \<open>A string after its length, as it lies in a message.\<close>

definition sized :: "string \<Rightarrow> string" where
  "sized msg = net_bytes (word_of_nat (length msg)) @ msg"

lemma mb_buff_simps [simp]:
  "mb_buff (push_back_int v b) = mb_buff b @ net_bytes v"
  "mb_buff (push_back_str s b) = mb_buff b @ s"
  "mb_buff (appendMessge s b) = mb_buff b @ sized s"
  "mb_cur (push_back_int v b) = mb_cur b" "mb_cur (push_back_str s b) = mb_cur b" "mb_cur (appendMessge s b) = mb_cur b"
  "mb_buff MessageBuffer_new = []" "mb_cur MessageBuffer_new = 0"
  by (simp_all add: push_back_int_def push_back_str_def appendMessge_def sized_def MessageBuffer_new_def)

lemma length_net_bytes [simp]: "length (net_bytes v) = 4"
  by (simp add: net_bytes_def)

lemma length_sized [simp]: "length (sized s) = 4 + length s"
  by (simp add: sized_def)

text \<open>The bytes of a word, put together again.\<close>

lemma byte_word_char:
  fixes v :: "32 word"
  shows "byte_word (char_of (unat (v AND 255))) = v AND 255"
proof -
  have "v AND 255 = take_bit 8 v"
    by (simp add: take_bit_eq_mask mask_eq_exp_minus_1)
  then have "unat (v AND 255) = take_bit 8 (unat v)"
    by (simp add: unsigned_take_bit_eq)
  then have "unat (v AND 255) mod 256 = unat (v AND 255)"
    by (simp add: take_bit_eq_mod)
  then show ?thesis by (simp add: byte_word_def)
qed

lemma word_of_bytes:
  fixes v :: "32 word"
  shows "push_bit 24 (drop_bit 24 v AND 255) OR push_bit 16 (drop_bit 16 v AND 255) OR push_bit 8 (drop_bit 8 v AND 255) OR (v AND 255) = v"
proof (rule bit_word_eqI)
  fix n :: nat
  assume n: "n < LENGTH(32)"
  have m: "(255 :: 32 word) = mask 8" by (simp add: mask_eq_exp_minus_1)
  consider "n < 8" | "8 \<le> n" "n < 16" | "16 \<le> n" "n < 24" | "24 \<le> n" by linarith
  then show "bit (push_bit 24 (drop_bit 24 v AND 255) OR push_bit 16 (drop_bit 16 v AND 255) OR push_bit 8 (drop_bit 8 v AND 255) OR (v AND 255)) n = bit v n"
    unfolding m using n by cases (auto simp: bit_simps)
qed

lemma net_word_bytes [simp]: "net_word (net_bytes v) = v"
  using word_of_bytes [of v] by (simp add: net_word_def net_bytes_def byte_word_char numeral_eq_Suc)

lemma of_char_less: "(of_char c :: nat) < 256"
proof -
  have "(of_char c :: nat) mod 256 < 256" by simp
  then show ?thesis by (simp only: of_char_mod_256)
qed

lemma unat_byte_word: "unat (byte_word c) = of_char c"
proof -
  have "(of_char c :: nat) < 2 ^ 32" by (rule order.strict_trans [OF of_char_less]) simp
  then have "take_bit 32 (of_char c :: nat) = of_char c" by (rule take_bit_nat_eq_self)
  then show ?thesis by (simp add: byte_word_def unsigned_of_nat)
qed

lemma char_byte_word: "char_of (unat (byte_word c)) = c"
  by (simp add: unat_byte_word)

lemma mask_255: "(255 :: 32 word) = mask 8"
  by (simp add: mask_eq_exp_minus_1)

lemma byte_word_mask: "byte_word c AND 255 = byte_word c"
proof -
  have "unat (byte_word c AND 255) = unat (byte_word c)"
    using of_char_less [of c]
    by (simp add: mask_255 take_bit_eq_mask [symmetric] unsigned_take_bit_eq unat_byte_word take_bit_nat_eq_self del: mask_eq_exp_minus_1)
  then show ?thesis by (simp only: word_unat_eq_iff)
qed

lemma bytes_of_word:
  fixes a b c d :: "32 word"
  assumes "a AND 255 = a" "b AND 255 = b" "c AND 255 = c" "d AND 255 = d"
  shows "drop_bit 24 (push_bit 24 a OR push_bit 16 b OR push_bit 8 c OR d) AND 255 = a"
    "drop_bit 16 (push_bit 24 a OR push_bit 16 b OR push_bit 8 c OR d) AND 255 = b"
    "drop_bit 8 (push_bit 24 a OR push_bit 16 b OR push_bit 8 c OR d) AND 255 = c"
    "(push_bit 24 a OR push_bit 16 b OR push_bit 8 c OR d) AND 255 = d"
proof -
  have lt: "x = x AND 255 \<Longrightarrow> bit x n \<Longrightarrow> n < 8" for x :: "32 word" and n
    by (metis bit_and_iff bit_mask_iff mask_255)
  note l = lt [OF assms(1) [symmetric]] lt [OF assms(2) [symmetric]] lt [OF assms(3) [symmetric]] lt [OF assms(4) [symmetric]]
  show "drop_bit 24 (push_bit 24 a OR push_bit 16 b OR push_bit 8 c OR d) AND 255 = a"
    by (rule bit_word_eqI) (auto simp: mask_255 bit_simps dest: l)
  show "drop_bit 16 (push_bit 24 a OR push_bit 16 b OR push_bit 8 c OR d) AND 255 = b"
    by (rule bit_word_eqI) (auto simp: mask_255 bit_simps dest: l)
  show "drop_bit 8 (push_bit 24 a OR push_bit 16 b OR push_bit 8 c OR d) AND 255 = c"
    by (rule bit_word_eqI) (auto simp: mask_255 bit_simps dest: l)
  show "(push_bit 24 a OR push_bit 16 b OR push_bit 8 c OR d) AND 255 = d"
    by (rule bit_word_eqI) (auto simp: mask_255 bit_simps dest: l)
qed

lemma net_bytes_word:
  assumes "length b = 4"
  shows "net_bytes (net_word b) = b"
proof -
  obtain c0 c1 c2 c3 where b: "b = [c0, c1, c2, c3]" using assms by (auto simp: length_Suc_conv numeral_eq_Suc)
  show ?thesis
    using bytes_of_word [OF byte_word_mask byte_word_mask byte_word_mask byte_word_mask, of c0 c1 c2 c3]
    by (simp add: net_word_def net_bytes_def b char_byte_word)
qed

text \<open>What the two readers accept, for a message that an \<open>int\<close> can index.\<close>

lemma drop_next: "drop c ptr = x @ t \<Longrightarrow> drop (c + length x) ptr = t"
  by (metis add.commute append_eq_conv_conj drop_drop)

lemma getInt_iff:
  assumes "0 \<le> c"
  shows "getInt ptr c = Val v \<longleftrightarrow> (\<exists>t. drop (nat c) ptr = net_bytes v @ t)"
proof
  assume "getInt ptr c = Val v"
  then have l: "nat c + 4 \<le> length ptr" and v: "v = net_word (take 4 (drop (nat c) ptr))"
    using assms by (auto simp: getInt_def split: if_splits)
  from l have "net_bytes v = take 4 (drop (nat c) ptr)" unfolding v by (intro net_bytes_word) simp
  then show "\<exists>t. drop (nat c) ptr = net_bytes v @ t" by (metis append_take_drop_id)
next
  assume "\<exists>t. drop (nat c) ptr = net_bytes v @ t"
  then obtain t where t: "drop (nat c) ptr = net_bytes v @ t" ..
  then have "length (drop (nat c) ptr) = 4 + length t" by simp
  then have "c + 4 \<le> int (length ptr)" using assms by (auto simp: nat_less_iff)
  then show "getInt ptr c = Val v" using assms t by (simp add: getInt_def)
qed

lemma dumps_int_iff:
  assumes "0 \<le> c" "length ptr < 2 ^ 31"
  shows "dumpsMessageFromStr_int ptr c = Val (v, c') \<longleftrightarrow> c' = c + 4 \<and> (\<exists>t. drop (nat c) ptr = net_bytes v @ t)"
proof -
  have "c + 4 \<le> int_max" if "getInt ptr c = Val v"
    using that assms by (auto simp: getInt_def int_max_def split: if_splits)
  then show ?thesis
    by (auto simp: dumpsMessageFromStr_int_def rbind_eq_Val getInt_iff [OF assms(1), symmetric])
qed

lemma sint_small:
  assumes "- (2 ^ 31) \<le> x" "x < 2 ^ 31"
  shows "sint (word_of_int x :: 32 word) = x"
  using assms by (simp add: sint_sbintrunc' signed_take_bit_int_eq_self)

lemma sint_wrap:
  assumes "2 ^ 31 \<le> x" "x < 2 ^ 31 + 2 ^ 32"
  shows "sint (word_of_int x :: 32 word) = x - 2 ^ 32"
proof -
  have "(word_of_int x :: 32 word) = word_of_int (x - 2 ^ 32)"
    by (simp add: word_of_int_eq_iff take_bit_eq_mod)
  moreover have "sint (word_of_int (x - 2 ^ 32) :: 32 word) = x - 2 ^ 32" using assms by (intro sint_small) simp_all
  ultimately show ?thesis by (simp only:)
qed

lemma if_Val: "(if P then if Q then Val x else UB else UB) = Val y \<longleftrightarrow> P \<and> Q \<and> x = y"
  by auto

lemma dumps_string_iff:
  assumes "0 \<le> c" "length ptr < 2 ^ 31"
  shows "dumpsMessageFromStr_string ptr c = Val (s, c') \<longleftrightarrow>
    c' = c + 4 + int (length s) \<and> (\<exists>t. drop (nat c) ptr = sized s @ t)"
proof -
  let ?cur = "cur_after c"
  have w: "?cur v = sint (word_of_int (c + 4 + uint v) :: 32 word)" for v :: "32 word"
    by (simp add: cur_after_def add.assoc)
  have lt: "c + 4 < 2 ^ 31" if "getInt ptr c = Val v" for v
    using that assms by (auto simp: getInt_def split: if_splits)
  have cur: "?cur v = c + 4 + uint v" if "getInt ptr c = Val v" "c + 4 \<le> ?cur v \<or> c + 4 + uint v < 2 ^ 31" for v
  proof (cases "c + 4 + uint v < 2 ^ 31")
    case True
    then show ?thesis unfolding w using assms by (intro sint_small) simp_all
  next
    case False
    have "uint v < 2 ^ 32" using uint_bounded [of v] by simp
    then have "?cur v = c + 4 + uint v - 2 ^ 32" unfolding w using False lt [OF that(1)] by (intro sint_wrap) simp_all
    then show ?thesis using that(2) False \<open>uint v < 2 ^ 32\<close> by simp
  qed
  show ?thesis
  proof (intro iffI; (elim conjE exE)?)
    assume "dumpsMessageFromStr_string ptr c = Val (s, c')"
    then obtain v where g: "getInt ptr c = Val v" and
        b: "(if c + 4 \<le> int_max then
               if c + 4 \<le> ?cur v \<and> ?cur v \<le> int (length ptr) then Val (take (nat (?cur v - (c + 4))) (drop (nat (c + 4)) ptr), ?cur v) else UB
             else UB) = Val (s, c')"
      unfolding dumpsMessageFromStr_string_def rbind_eq_Val Let_def by blast
    note b' = b [unfolded if_Val prod.inject, THEN conjunct2]
    note v = g b' [THEN conjunct1, THEN conjunct1] b' [THEN conjunct1, THEN conjunct2]
      b' [THEN conjunct2, THEN conjunct1, symmetric] b' [THEN conjunct2, THEN conjunct2, symmetric]
    have u: "?cur v = c + 4 + uint v" using cur v by blast
    obtain t where t: "drop (nat c) ptr = net_bytes v @ t" using v(1) getInt_iff assms(1) by blast
    have t': "drop (nat (c + 4)) ptr = t" using drop_next [OF t] assms(1) by (simp add: nat_add_distrib)
    have s: "s = take (unat v) t" using v(4) t' u by simp
    have "length t = length ptr - nat (c + 4)" using t' by (metis length_drop)
    moreover have "c + 4 + int (unat v) \<le> int (length ptr)" using v(3) unfolding u by simp
    ultimately have "unat v \<le> length t" using assms(1) by linarith
    then have l: "length s = unat v" unfolding s by simp
    then have "sized s = net_bytes v @ s" by (simp add: sized_def)
    then have "drop (nat c) ptr = sized s @ drop (unat v) t" using t s by simp
    then show "c' = c + 4 + int (length s) \<and> (\<exists>t. drop (nat c) ptr = sized s @ t)"
      using v(5) u l by auto
  next
    fix t
    assume c': "c' = c + 4 + int (length s)" and t: "drop (nat c) ptr = sized s @ t"
    let ?v = "word_of_nat (length s) :: 32 word"
    have len: "length ptr - nat c = 4 + length s + length t" using arg_cong [OF t, of length] by simp
    then have "length s < 2 ^ 32" using assms(2) by simp
    then have "take_bit 32 (length s) = length s" by (rule take_bit_nat_eq_self)
    then have u: "uint ?v = int (length s)" by (simp add: unsigned_of_nat)
    have g: "getInt ptr c = Val ?v" unfolding getInt_iff [OF assms(1)] using t by (auto simp: sized_def)
    have d: "drop (nat (c + 4)) ptr = s @ t"
      using drop_next [of "nat c" ptr "net_bytes ?v"] t assms(1) by (simp add: sized_def nat_add_distrib)
    have le: "c + 4 + int (length s) \<le> int (length ptr)" using len assms(1) by linarith
    then have "?cur ?v = c + 4 + int (length s)" using cur [OF g] u assms(2) by simp
    then show "dumpsMessageFromStr_string ptr c = Val (s, c')"
      using c' d le lt [OF g] g by (simp add: dumpsMessageFromStr_string_def Let_def int_max_def)
  qed
qed

text \<open>The index at which the rest \<open>r\<close> of the message \<open>ptr\<close> begins.\<close>

definition cur_at :: "string \<Rightarrow> string \<Rightarrow> int" where
  "cur_at ptr r = int (length ptr) - int (length r)"

lemma cur_at_self [simp]: "cur_at ptr ptr = 0"
  by (simp add: cur_at_def)

lemma cur_at_drop: "suf r ptr \<Longrightarrow> drop (nat (cur_at ptr r)) ptr = r"
  by (auto simp: suf_def cur_at_def)

lemma suf_append [simp]: "suf r q \<Longrightarrow> suf r (p @ q)"
  by (auto simp: suf_def)

lemma string_at:
  assumes "suf r ptr" "length ptr < 2 ^ 31"
  shows "dumpsMessageFromStr_string ptr (cur_at ptr r) = Val (s, c') \<longleftrightarrow> (\<exists>t. r = sized s @ t \<and> c' = cur_at ptr t)"
proof -
  have "0 \<le> cur_at ptr r" using suf_length [OF assms(1)] by (simp add: cur_at_def)
  then show ?thesis using assms by (auto simp: dumps_string_iff cur_at_drop) (auto simp: cur_at_def)
qed

lemma int_at:
  assumes "suf r ptr" "length ptr < 2 ^ 31"
  shows "dumpsMessageFromStr_int ptr (cur_at ptr r) = Val (v, c') \<longleftrightarrow> (\<exists>t. r = net_bytes v @ t \<and> c' = cur_at ptr t)"
proof -
  have "0 \<le> cur_at ptr r" using suf_length [OF assms(1)] by (simp add: cur_at_def)
  then show ?thesis using assms by (auto simp: dumps_int_iff cur_at_drop) (auto simp: cur_at_def)
qed

lemma string_read:
  "suf (sized s @ t) ptr \<Longrightarrow> length ptr < 2 ^ 31 \<Longrightarrow> dumpsMessageFromStr_string ptr (cur_at ptr (sized s @ t)) = Val (s, cur_at ptr t)"
  "length (sized s @ t) < 2 ^ 31 \<Longrightarrow> dumpsMessageFromStr_string (sized s @ t) 0 = Val (s, cur_at (sized s @ t) t)"
  by (auto simp: string_at string_at [OF suf_refl, simplified] simp del: length_append)

lemma int_read:
  "suf (net_bytes v @ t) ptr \<Longrightarrow> length ptr < 2 ^ 31 \<Longrightarrow> dumpsMessageFromStr_int ptr (cur_at ptr (net_bytes v @ t)) = Val (v, cur_at ptr t)"
  "length (net_bytes v @ t) < 2 ^ 31 \<Longrightarrow> dumpsMessageFromStr_int (net_bytes v @ t) 0 = Val (v, cur_at (net_bytes v @ t) t)"
  by (auto simp: int_at int_at [OF suf_refl, simplified] simp del: length_append)

lemma int_read_end: "suf (net_bytes v) ptr \<Longrightarrow> length ptr < 2 ^ 31 \<Longrightarrow> dumpsMessageFromStr_int ptr (cur_at ptr (net_bytes v)) = Val (v, cur_at ptr [])"
  using int_read(1) [of v "[]"] by simp

lemmas reads = string_read int_read int_read_end

lemmas read_at = string_at int_at string_at [OF suf_refl, simplified] int_at [OF suf_refl, simplified]

lemma dumps_never_throw:
  "dumpsMessageFromStr_int ptr c \<noteq> Throw e" "dumpsMessageFromStr_string ptr c \<noteq> Throw e"
  by (auto simp: dumpsMessageFromStr_int_def dumpsMessageFromStr_string_def getInt_def Let_def)

section \<open>Submissions\<close>

record judge_send =
  s_key :: string
  s_code :: string
  s_language :: string
  s_pid :: string
  timeLimit :: "32 word"
  memoryLimit :: "32 word"

definition send_dumps :: "judge_send \<Rightarrow> msg_buffer" where
  "send_dumps m =
     push_back_int (memoryLimit m) (push_back_int (timeLimit m)
       (appendMessge (s_pid m) (appendMessge (s_language m) (appendMessge (s_code m) (appendMessge (s_key m) MessageBuffer_new)))))"

definition send_loads :: "string \<Rightarrow> judge_send res" where
  "send_loads str =
     rbind (dumpsMessageFromStr_string str 0) (\<lambda>(key, cur).
     rbind (dumpsMessageFromStr_string str cur) (\<lambda>(code, cur).
     rbind (dumpsMessageFromStr_string str cur) (\<lambda>(language, cur).
     rbind (dumpsMessageFromStr_string str cur) (\<lambda>(pid, cur).
     rbind (dumpsMessageFromStr_int str cur) (\<lambda>(time, cur).
     rbind (dumpsMessageFromStr_int str cur) (\<lambda>(mem, cur).
       Val \<lparr>s_key = key, s_code = code, s_language = language, s_pid = pid, timeLimit = time, memoryLimit = mem\<rparr>))))))"

definition send_loads_buf :: "msg_buffer \<Rightarrow> (judge_send \<times> msg_buffer) res" where
  "send_loads_buf buf =
     rbind (dumpsMessage_string buf) (\<lambda>(key, buf).
     rbind (dumpsMessage_string buf) (\<lambda>(code, buf).
     rbind (dumpsMessage_string buf) (\<lambda>(language, buf).
     rbind (dumpsMessage_string buf) (\<lambda>(pid, buf).
     rbind (dumpsMessage_int buf) (\<lambda>(time, buf).
     rbind (dumpsMessage_int buf) (\<lambda>(mem, buf).
       Val (\<lparr>s_key = key, s_code = code, s_language = language, s_pid = pid, timeLimit = time, memoryLimit = mem\<rparr>, buf)))))))"

text \<open>The bytes of a submission.\<close>

lemma send_bytes:
  "mb_buff (send_dumps m) = sized (s_key m) @ sized (s_code m) @ sized (s_language m) @ sized (s_pid m) @
     net_bytes (timeLimit m) @ net_bytes (memoryLimit m)"
  by (simp add: send_dumps_def)

lemma send_loads_Val:
  assumes "length s < 2 ^ 31"
  shows "send_loads s = Val m \<longleftrightarrow> (\<exists>t. s = mb_buff (send_dumps m) @ t)"
proof
  assume "send_loads s = Val m"
  with assms show "\<exists>t. s = mb_buff (send_dumps m) @ t"
    by (auto simp: send_loads_def rbind_eq_Val read_at send_bytes simp del: length_append)
next
  assume "\<exists>t. s = mb_buff (send_dumps m) @ t"
  with assms show "send_loads s = Val m"
    by (auto simp: send_loads_def reads send_bytes simp del: length_append)
qed

text \<open>The overload of \<open>loads\<close> that reads a buffer moves its index.\<close>

lemma send_loads_buf_dumps:
  assumes "length (mb_buff (send_dumps m)) < 2 ^ 31"
  shows "\<exists>buf. send_loads_buf (send_dumps m) = Val (m, buf) \<and> mb_cur buf = int (length (mb_buff (send_dumps m)))"
proof -
  have "mb_cur (send_dumps m) = 0" by (simp add: send_dumps_def)
  then show ?thesis using assms
    by (simp add: send_loads_buf_def dumpsMessage_string_def dumpsMessage_int_def reads send_bytes del: length_append) (simp add: cur_at_def)?
qed

section \<open>Results\<close>

record point_result =
  cpu_time :: "32 word"
  real_time :: "32 word"
  memory :: "64 word"
  r_signal :: "32 word"
  exit_code :: "32 word"
  r_error :: "32 word"
  r_result :: "32 word"

record judge_result =
  j_code :: "32 word"
  j_key :: string
  j_msg :: string
  Results :: "point_result list"

definition MessageResultJudge :: "string \<Rightarrow> 32 word \<Rightarrow> string \<Rightarrow> judge_result" where
  "MessageResultJudge key code msg = \<lparr>j_code = code, j_key = key, j_msg = msg, Results = []\<rparr>"

definition push_back_result :: "point_result \<Rightarrow> judge_result \<Rightarrow> judge_result" where
  "push_back_result r m = m\<lparr>Results := Results m @ [r]\<rparr>"

text \<open>The two halves of a \<open>long long\<close> in memory, read and written through an \<open>int *\<close>.\<close>

definition half0 :: "64 word \<Rightarrow> 32 word" where "half0 v = ucast v"
definition half1 :: "64 word \<Rightarrow> 32 word" where "half1 v = ucast (drop_bit 32 v)"

definition of_halves :: "32 word \<Rightarrow> 32 word \<Rightarrow> 64 word" where
  "of_halves v1 v2 = ucast v1 OR push_bit 32 (ucast v2)"

lemma of_halves [simp]: "of_halves (half0 v) (half1 v) = v"
proof (rule bit_word_eqI)
  fix n :: nat assume "n < LENGTH(64)"
  then show "bit (of_halves (half0 v) (half1 v)) n = bit v n"
    by (cases "n < 32") (auto simp: of_halves_def half0_def half1_def bit_simps)
qed

text \<open>The results as JSON.\<close>

definition json_field :: "string \<Rightarrow> int \<Rightarrow> string" where
  "json_field name v = CHR 0x22 # name @ [CHR 0x22, CHR '':''] @ int_to_string v"

definition json_point :: "point_result \<Rightarrow> string" where
  "json_point r =
     ''{'' @ json_field ''cpu_time'' (sint (cpu_time r)) @ '','' @ json_field ''real_time'' (sint (real_time r)) @ '','' @
     json_field ''memory'' (sint (memory r)) @ '','' @ json_field ''signal'' (sint (r_signal r)) @ '','' @
     json_field ''exit_code'' (sint (exit_code r)) @ '','' @ json_field ''error'' (sint (r_error r)) @ '','' @
     json_field ''result'' (sint (r_result r)) @ ''}''"

fun json_points :: "point_result list \<Rightarrow> string" where
  "json_points [] = []"
| "json_points (r # rs) = json_point r @ (if rs \<noteq> [] then '','' else []) @ json_points rs"

definition dump_to_json :: "judge_result \<Rightarrow> string" where
  "dump_to_json m = ''['' @ json_points (Results m) @ '']''"

definition dumps_point :: "point_result \<Rightarrow> msg_buffer \<Rightarrow> msg_buffer" where
  "dumps_point e ret =
     (let ret = push_back_int (cpu_time e) ret;
          ret = push_back_int (real_time e) ret;
          ret = push_back_int (half0 (memory e)) ret;
          ret = push_back_int (half1 (memory e)) ret;
          ret = push_back_int (r_signal e) ret;
          ret = push_back_int (exit_code e) ret;
          ret = push_back_int (r_error e) ret
      in push_back_int (r_result e) ret)"

definition result_dumps :: "judge_result \<Rightarrow> msg_buffer" where
  "result_dumps m =
     fold dumps_point (Results m)
       (push_back_int (word_of_nat (length (Results m)))
         (appendMessge (j_msg m) (appendMessge (j_key m) (push_back_int (j_code m) MessageBuffer_new))))"

definition loads_point :: "string \<Rightarrow> int \<Rightarrow> (point_result \<times> int) res" where
  "loads_point str cur =
     rbind (dumpsMessageFromStr_int str cur) (\<lambda>(cpu, cur).
     rbind (dumpsMessageFromStr_int str cur) (\<lambda>(real, cur).
     rbind (dumpsMessageFromStr_int str cur) (\<lambda>(v1, cur).
     rbind (dumpsMessageFromStr_int str cur) (\<lambda>(v2, cur).
     rbind (dumpsMessageFromStr_int str cur) (\<lambda>(sig, cur).
     rbind (dumpsMessageFromStr_int str cur) (\<lambda>(ex, cur).
     rbind (dumpsMessageFromStr_int str cur) (\<lambda>(err, cur).
     rbind (dumpsMessageFromStr_int str cur) (\<lambda>(r, cur).
       Val (\<lparr>cpu_time = cpu, real_time = real, memory = of_halves v1 v2, r_signal = sig, exit_code = ex, r_error = err, r_result = r\<rparr>, cur)))))))))"

text \<open>The turns of the loop that are left; each appends to the results the object has. (The loop ends before \<open>i\<close> could overflow: a message
holds less than \<open>2^31\<close> results.)\<close>

fun loads_points :: "nat \<Rightarrow> string \<Rightarrow> int \<Rightarrow> point_result list \<Rightarrow> point_result list res" where
  "loads_points 0 str cur rs = Val rs"
| "loads_points (Suc n) str cur rs = rbind (loads_point str cur) (\<lambda>(r, cur). loads_points n str cur (rs @ [r]))"

text \<open>The cast of the code to its enumeration keeps the value.\<close>

definition result_loads :: "string \<Rightarrow> judge_result \<Rightarrow> judge_result res" where
  "result_loads str m =
     rbind (dumpsMessageFromStr_int str 0) (\<lambda>(code, cur).
     rbind (dumpsMessageFromStr_string str cur) (\<lambda>(key, cur).
     rbind (dumpsMessageFromStr_string str cur) (\<lambda>(msg, cur).
     rbind (dumpsMessageFromStr_int str cur) (\<lambda>(siz, cur).
     rbind (loads_points (nat (sint siz)) str cur (Results m)) (\<lambda>rs.
       Val \<lparr>j_code = code, j_key = key, j_msg = msg, Results = rs\<rparr>)))))"

definition point_bytes :: "point_result \<Rightarrow> string" where
  "point_bytes e = mb_buff (dumps_point e MessageBuffer_new)"

lemma point_bytes:
  "point_bytes e = net_bytes (cpu_time e) @ net_bytes (real_time e) @ net_bytes (half0 (memory e)) @ net_bytes (half1 (memory e)) @
     net_bytes (r_signal e) @ net_bytes (exit_code e) @ net_bytes (r_error e) @ net_bytes (r_result e)"
  by (simp add: point_bytes_def dumps_point_def Let_def)

lemma dumps_point_bytes [simp]: "mb_buff (dumps_point e b) = mb_buff b @ point_bytes e"
  by (simp add: point_bytes dumps_point_def Let_def)

lemma fold_points: "mb_buff (fold dumps_point es b) = mb_buff b @ concat (map point_bytes es)"
  by (induction es arbitrary: b) auto

lemma result_bytes:
  "mb_buff (result_dumps m) = net_bytes (j_code m) @ sized (j_key m) @ sized (j_msg m) @
     net_bytes (word_of_nat (length (Results m))) @ concat (map point_bytes (Results m))"
  by (simp add: result_dumps_def fold_points)

lemma length_point_bytes [simp]: "length (point_bytes e) = 32"
  by (simp add: point_bytes)

lemma loads_point_read:
  assumes "suf (point_bytes e @ t) ptr" "length ptr < 2 ^ 31"
  shows "loads_point ptr (cur_at ptr (point_bytes e @ t)) = Val (e, cur_at ptr t)"
proof -
  obtain p where "ptr = p @ point_bytes e @ t" using assms(1) by (auto simp: suf_def)
  then show ?thesis using assms(2)
    by (simp add: loads_point_def point_bytes int_read del: length_append)
qed

lemma loads_points_read:
  assumes "suf (concat (map point_bytes es) @ t) ptr" "length ptr < 2 ^ 31"
  shows "loads_points (length es) ptr (cur_at ptr (concat (map point_bytes es) @ t)) rs = Val (rs @ es)"
  using assms
proof (induction es arbitrary: rs)
  case (Cons e es)
  have "suf (concat (map point_bytes es) @ t) ptr"
    using Cons.prems(1) by (auto simp: suf_def intro: exI [of _ "_ @ point_bytes e"])
  then show ?case using Cons by (simp add: loads_point_read)
qed simp

lemma result_loads_read:
  assumes "length (mb_buff (result_dumps m) @ t) < 2 ^ 31"
  shows "result_loads (mb_buff (result_dumps m) @ t) q = Val (m\<lparr>Results := Results q @ Results m\<rparr>)"
proof -
  have "int (length (Results m)) < 2 ^ 31"
    using assms by (simp add: result_bytes length_concat comp_def sum_list_triv)
  then have n: "nat (sint (word_of_nat (length (Results m)) :: 32 word)) = length (Results m)"
    using sint_small [of "int (length (Results m))"] by simp
  show ?thesis using assms
    by (simp add: result_loads_def result_bytes reads loads_points_read n del: length_append)
qed

lemma result_loads_short:
  assumes "length s < 4"
  shows "result_loads s q = UB" "send_loads s = UB"
  using assms by (simp_all add: result_loads_def send_loads_def dumpsMessageFromStr_int_def dumpsMessageFromStr_string_def getInt_def)

section \<open>Properties\<close>

text \<open>A submission is read from exactly the messages that begin with the bytes of one: \<open>loads\<close> gives the submission \<open>m\<close> if and only if
\<open>dumps\<close> of \<open>m\<close> begins the message, and reads outside of the message in all other cases, whatever lengths it claims.\<close>

theorem submission_exact:
  assumes "length s < 2 ^ 31"
  shows "(send_loads s = Val m \<longleftrightarrow> take (length (mb_buff (send_dumps m))) s = mb_buff (send_dumps m)) \<and>
    (send_loads s = UB \<longleftrightarrow> (\<forall>m'. take (length (mb_buff (send_dumps m'))) s \<noteq> mb_buff (send_dumps m')))"
proof -
  have v: "send_loads s = Val m' \<longleftrightarrow> take (length (mb_buff (send_dumps m'))) s = mb_buff (send_dumps m')" for m'
    unfolding send_loads_Val [OF assms] by (metis append_eq_conv_conj append_take_drop_id)
  have t: "send_loads s \<noteq> Throw e" for e
    using dumps_never_throw by (auto simp: send_loads_def rbind_eq_Throw split: prod.splits)
  show ?thesis using v t by (cases "send_loads s") auto
qed

theorem submission_exact_witness:
  "send_loads (mb_buff (send_dumps \<lparr>s_key = ''7'', s_code = ''int main(){}'', s_language = ''cpp'', s_pid = ''1000'', timeLimit = 1000, memoryLimit = 128\<rparr>) @ ''rest'') =
     Val \<lparr>s_key = ''7'', s_code = ''int main(){}'', s_language = ''cpp'', s_pid = ''1000'', timeLimit = 1000, memoryLimit = 128\<rparr>"
proof -
  let ?m = "\<lparr>s_key = ''7'', s_code = ''int main(){}'', s_language = ''cpp'', s_pid = ''1000'', timeLimit = 1000, memoryLimit = 128\<rparr>"
  have "length (mb_buff (send_dumps ?m) @ ''rest'') < 2 ^ 31" by (simp add: send_bytes)
  from submission_exact [OF this, of ?m] show ?thesis by simp
qed

text \<open>A result message of any size that an \<open>int\<close> can index is read as it was written, negative times, codes and both halves of the memory
included; what follows it is left, and the results are appended to those the object already has.\<close>

theorem result_roundtrip:
  assumes "length (mb_buff (result_dumps m) @ rest) < 2 ^ 31"
  shows "result_loads (mb_buff (result_dumps m) @ rest) q = Val (m\<lparr>Results := Results q @ Results m\<rparr>)"
  using assms by (rule result_loads_read)

theorem result_roundtrip_witness:
  "result_loads (mb_buff (result_dumps \<lparr>j_code = 0, j_key = ''7'', j_msg = ''ALL'',
       Results = [\<lparr>cpu_time = 12, real_time = 15, memory = 2 ^ 33 + 5, r_signal = 0, exit_code = 0, r_error = 0, r_result = -1\<rparr>]\<rparr>) @ [])
     (MessageResultJudge [] 0 []) =
   Val \<lparr>j_code = 0, j_key = ''7'', j_msg = ''ALL'',
       Results = [\<lparr>cpu_time = 12, real_time = 15, memory = 2 ^ 33 + 5, r_signal = 0, exit_code = 0, r_error = 0, r_result = -1\<rparr>]\<rparr>"
proof -
  let ?m = "\<lparr>j_code = 0, j_key = ''7'', j_msg = ''ALL'',
       Results = [\<lparr>cpu_time = 12, real_time = 15, memory = 2 ^ 33 + 5, r_signal = 0, exit_code = 0, r_error = 0, r_result = -1\<rparr>]\<rparr>"
  have "length (mb_buff (result_dumps ?m) @ []) < 2 ^ 31" by (simp add: result_bytes)
  from result_roundtrip [OF this] show ?thesis by (simp add: MessageResultJudge_def)
qed

end
