(* ===== verification/JudgeWire.thy ===== *)
theory JudgeWire
  imports JudgeMsg
begin

text \<open>
  How the messages of \<open>JudgeMsg\<close> travel (\<open>socketBase.hpp\<close>, \<open>Client.hpp\<close>, \<open>Server.hpp\<close> of \<open>judge_server/src\<close>): a message follows its
  length. What a socket has still to deliver is the list of the segments \<open>recv\<close> hands over, none of them empty; at the end of the list the
  peer has closed the connection, or \<open>recv\<close> fails. The sockets block. What \<open>send\<close> takes at each call is a list of numbers, and \<open>send\<close> fails
  at its end.
\<close>

section \<open>Sockets\<close>

fun recv_seg :: "string list \<Rightarrow> nat \<Rightarrow> string \<times> string list" where
  "recv_seg [] n = ([], [])"
| "recv_seg (c # cs) n = (if n < length c then (take n c, drop n c # cs) else (c, cs))"

definition live_segs :: "string list \<Rightarrow> bool" where
  "live_segs segs \<longleftrightarrow> [] \<notin> set segs"

lemma recv_seg_bytes: "fst (recv_seg segs n) @ concat (snd (recv_seg segs n)) = concat segs"
  by (cases "(segs, n)" rule: recv_seg.cases) auto

lemma recv_seg_le: "length (fst (recv_seg segs n)) \<le> n"
  by (cases "(segs, n)" rule: recv_seg.cases) auto

lemma recv_seg_live:
  assumes "live_segs segs"
  shows "live_segs (snd (recv_seg segs n))" "n > 0 \<Longrightarrow> fst (recv_seg segs n) = [] \<longleftrightarrow> segs = []"
  using assms by (cases segs; auto simp: live_segs_def)+

lemma live_segs_concat: "live_segs segs \<Longrightarrow> concat segs = [] \<longleftrightarrow> segs = []"
  by (cases segs) (auto simp: live_segs_def)

text \<open>The bytes \<open>readn\<close> has put into the buffer, with its result and what the socket has left.\<close>

function readn :: "string list \<Rightarrow> int \<Rightarrow> string \<Rightarrow> bool \<times> string \<times> string list" where
  "readn segs nLeft buffer =
     (if nLeft > 0 then
        (let (d, segs') = recv_seg segs (nat nLeft) in
         if length d \<le> 0 then (False, buffer, segs') else readn segs' (nLeft - int (length d)) (buffer @ d))
      else (True, buffer, segs))"
  by pat_completeness auto
termination by (relation "measure (\<lambda>(_, nLeft, _). nat nLeft)") auto

declare readn.simps [simp del]

fun writen :: "nat list \<Rightarrow> string \<Rightarrow> bool \<times> string \<times> nat list" where
  "writen ks [] = (True, [], ks)"
| "writen [] (c # cs) = (False, [], [])"
| "writen (k # ks) (c # cs) =
     (if k = 0 then (False, [], ks)
      else let (ok, sent, ks') = writen ks (drop k (c # cs)) in (ok, take k (c # cs) @ sent, ks'))"

section \<open>Messages\<close>

text \<open>The sets of descriptors of \<open>select\<close> hold those below 1024; \<open>sel\<close> is the result of \<open>select\<close>.\<close>

definition in_fd_set :: "int \<Rightarrow> bool" where
  "in_fd_set fd \<longleftrightarrow> 0 \<le> fd \<and> fd < 1024"

definition NUL :: char where "NUL = CHR 0x00"

definition str_resize :: "nat \<Rightarrow> string \<Rightarrow> string" where
  "str_resize n s = take n s @ replicate (n - length s) NUL"

text \<open>A length that is negative as an \<open>int\<close> is a size no string has.\<close>

definition TcpRead :: "int \<Rightarrow> string \<Rightarrow> int \<Rightarrow> int \<Rightarrow> string list \<Rightarrow> (bool \<times> string \<times> string list) res" where
  "TcpRead sockfd buffer itimeout sel segs =
     (if sockfd = -1 then Val (False, buffer, segs)
      else if itimeout > 0 \<and> \<not> in_fd_set sockfd then UB
      else if itimeout > 0 \<and> sel \<le> 0 then Val (False, buffer, segs)
      else
        (let (ok, b, segs) = readn segs 4 [] in
         if ok = False then Val (False, buffer, segs)
         else let ibuflen = sint (net_word b) in
           if ibuflen < 0 then Throw ''length_error''
           else let buffer = str_resize (nat ibuflen) buffer; (ok, d, segs) = readn segs ibuflen [] in
             Val (ok, d @ drop (length d) buffer, segs)))"

definition strlen :: "string \<Rightarrow> int res" where
  "strlen s = (if NUL \<in> set s then Val (int (length (takeWhile (\<lambda>c. c \<noteq> NUL) s))) else UB)"

text \<open>\<open>memset\<close> clears \<open>sizeof(std::string)\<close> bytes from the first of the string on; it may clear no more than the string has, and its
terminator. \<open>buffer\<close> is what can be read through the pointer.\<close>

definition sizeof_string :: int where "sizeof_string = 32"

definition TcpWrite :: "int \<Rightarrow> int \<Rightarrow> nat list \<Rightarrow> string \<Rightarrow> int \<Rightarrow> (bool \<times> string \<times> nat list) res" where
  "TcpWrite sockfd sel ks buffer ibuflen =
     (if sockfd = -1 then Val (False, [], ks)
      else if \<not> in_fd_set sockfd then UB
      else if sel \<le> 0 then Val (False, [], ks)
      else
        rbind (if ibuflen = 0 then strlen buffer else Val ibuflen) (\<lambda>ilen.
          if int_max < ilen + 4 then UB
          else if ilen + 4 < 0 then Throw ''length_error''
          else if ilen + 4 + 1 < sizeof_string then UB
          else if ilen < 0 \<or> int (length buffer) < ilen then UB
          else Val (writen ks (net_bytes (word_of_int ilen) @ take (nat ilen) buffer))))"

text \<open>The bytes of a message on the wire.\<close>

definition frame :: "string \<Rightarrow> string" where
  "frame msg = net_bytes (word_of_nat (length msg)) @ msg"

section \<open>Any cut of the bytes\<close>

lemma readn_bytes:
  assumes "live_segs segs" "0 \<le> n"
  shows "\<exists>segs'. readn segs n buf = (n \<le> int (length (concat segs)), buf @ take (nat n) (concat segs), segs') \<and>
    concat segs' = drop (nat n) (concat segs) \<and> live_segs segs'"
  using assms
proof (induction segs n buf rule: readn.induct)
  case (1 segs n buf)
  show ?case
  proof (cases "n > 0")
    case False
    then show ?thesis using 1 by (simp add: readn.simps)
  next
    case n: True
    obtain d segs' where r: "recv_seg segs (nat n) = (d, segs')" by fastforce
    have b: "concat segs = d @ concat segs'" and le: "length d \<le> nat n"
      using recv_seg_bytes [of segs "nat n"] recv_seg_le [of segs "nat n"] r by simp_all
    show ?thesis
    proof (cases "d = []")
      case True
      then have "segs = []" using recv_seg_live(2) [OF "1.prems"(1), of "nat n"] n r by simp
      then show ?thesis using n r True "1.prems"(1) recv_seg_live(1) [OF "1.prems"(1), of "nat n"] by (auto simp: readn.simps)
    next
      case False
      have l: "live_segs segs'" using recv_seg_live(1) [OF "1.prems"(1), of "nat n"] r by simp
      have dn: "int (length d) \<le> n" using le n by linarith
      obtain s where "readn segs' (n - int (length d)) (buf @ d) =
            (n - int (length d) \<le> int (length (concat segs')), (buf @ d) @ take (nat (n - int (length d))) (concat segs'), s) \<and>
          concat s = drop (nat (n - int (length d))) (concat segs') \<and> live_segs s"
        using "1.IH" [OF n r [symmetric] refl _ l] False dn by auto
      moreover have "readn segs n buf = readn segs' (n - int (length d)) (buf @ d)"
        using n r False by (subst readn.simps) simp
      moreover have "nat (n - int (length d)) = nat n - length d" by simp
      ultimately show ?thesis using le b by (intro exI [of _ s]) auto
    qed
  qed
qed

lemma writen_step:
  "data \<noteq> [] \<Longrightarrow> 0 < k \<Longrightarrow> writen (k # ks) data = (let (ok, sent, ks') = writen ks (drop k data) in (ok, take k data @ sent, ks'))"
  by (cases data) auto

lemma writen_sent: "writen ks data = (True, sent, ks') \<Longrightarrow> sent = data"
  by (induction ks data arbitrary: sent rule: writen.induct) (auto split: if_splits prod.splits)

lemma TcpWrite_frame:
  assumes "TcpWrite fd sel ks buffer n = Val (True, sent, ks')" "n = int (length buffer)" "n \<noteq> 0"
  shows "sent = frame buffer" "27 \<le> length buffer" "length buffer < 2 ^ 31 - 4"
proof -
  have w: "writen ks (frame buffer) = (True, sent, ks')" "27 \<le> length buffer" "length buffer < 2 ^ 31 - 4"
    using assms by (simp_all add: TcpWrite_def frame_def int_max_def sizeof_string_def split: if_splits)
  then show "sent = frame buffer" "27 \<le> length buffer" "length buffer < 2 ^ 31 - 4"
    using writen_sent by simp_all
qed

lemma TcpWrite_ok:
  assumes "in_fd_set fd" "0 < sel" "27 \<le> length buffer" "length buffer < 2 ^ 31 - 4"
  shows "TcpWrite fd sel ks buffer (int (length buffer)) = Val (writen ks (frame buffer))"
  using assms by (auto simp: TcpWrite_def frame_def in_fd_set_def int_max_def sizeof_string_def)

text \<open>What \<open>TcpRead\<close> does with any bytes.\<close>

lemma TcpRead_bytes:
  assumes "live_segs segs" "concat segs = b" "4 \<le> length b" "n = sint (net_word (take 4 b))" "0 \<le> n" "fd \<noteq> -1"
  shows "\<exists>segs'. TcpRead fd [] 0 sel segs = Val (n \<le> int (length b) - 4, str_resize (nat n) (take (nat n) (drop 4 b)), segs') \<and>
    concat segs' = drop (nat n) (drop 4 b) \<and> live_segs segs'"
proof -
  obtain s1 where s1: "readn segs 4 [] = (True, take 4 b, s1)" "concat s1 = drop 4 b" "live_segs s1"
    using readn_bytes [OF assms(1), of 4 "[]"] assms(2,3) by auto
  obtain s2 where s2: "readn s1 n [] = (n \<le> int (length b) - 4, take (nat n) (drop 4 b), s2)"
      "concat s2 = drop (nat n) (drop 4 b)" "live_segs s2"
    using readn_bytes [OF s1(3) assms(5), of "[]"] s1(2) assms(3) by auto
  show ?thesis using s1 s2 assms(4-6) by (simp add: TcpRead_def str_resize_def Let_def)
qed

lemma TcpRead_short:
  assumes "live_segs segs" "length (concat segs) < 4"
  shows "\<exists>segs'. TcpRead fd [] 0 sel segs = Val (False, [], segs')"
  using readn_bytes [OF assms(1), of 4 "[]"] assms(2) by (auto simp: TcpRead_def)

lemma TcpRead_negative:
  assumes "live_segs segs" "4 \<le> length (concat segs)" "sint (net_word (take 4 (concat segs))) < 0" "fd \<noteq> -1"
  shows "TcpRead fd [] 0 sel segs = Throw ''length_error''"
  using readn_bytes [OF assms(1), of 4 "[]"] assms(2-4) by (auto simp: TcpRead_def)

lemma sint_length: "length msg < 2 ^ 31 \<Longrightarrow> sint (word_of_nat (length msg) :: 32 word) = int (length msg)"
  using sint_small [of "int (length msg)"] by simp

lemma TcpRead_frame:
  assumes "live_segs segs" "concat segs = frame msg @ rest" "length msg < 2 ^ 31" "fd \<noteq> -1"
  shows "\<exists>segs'. TcpRead fd [] 0 sel segs = Val (True, msg, segs') \<and> concat segs' = rest \<and> live_segs segs'"
  using TcpRead_bytes [OF assms(1,2), of "int (length msg)" fd sel] sint_length [OF assms(3)] assms(4)
  by (simp add: frame_def str_resize_def)

section \<open>The client sends, the server reads\<close>

text \<open>\<open>Client::send\<close> on a socket that the manager gave out (\<open>SocketManager\<close>).\<close>

definition Client_send :: "nat \<Rightarrow> int \<Rightarrow> int \<Rightarrow> nat list \<Rightarrow> judge_send \<Rightarrow> (bool \<times> string \<times> nat list) res" where
  "Client_send connect_size fd sel ks msg =
     (let msg_dumps = send_dumps msg in
      if connect_size = 0 then Val (False, [], ks)
      else TcpWrite fd sel ks (mb_buff msg_dumps) (int (length (mb_buff msg_dumps))))"

text \<open>A turn of \<open>Server::run\<close> for the socket of a client that is ready, which is when it has bytes or is at its end. The submission goes
to the work pool; \<open>None\<close> says that the socket is closed. The result of \<open>TcpRead\<close> is not looked at.\<close>

definition Server_on_client :: "string list \<Rightarrow> (judge_send option \<times> string list) res" where
  "Server_on_client segs =
     (if concat segs = [] then Val (None, segs)
      else rbind (TcpRead 0 [] 0 0 segs) (\<lambda>(ok, readStr, segs). rbind (send_loads readStr) (\<lambda>msgj. Val (Some msgj, segs))))"

fun Server_turns :: "nat \<Rightarrow> string list \<Rightarrow> (judge_send list \<times> string list) res" where
  "Server_turns 0 segs = Val ([], segs)"
| "Server_turns (Suc n) segs =
     rbind (Server_on_client segs) (\<lambda>(msgj, segs).
       case msgj of
         None \<Rightarrow> Val ([], segs)
       | Some msgj \<Rightarrow> rbind (Server_turns n segs) (\<lambda>(ms, segs). Val (msgj # ms, segs)))"

lemma Client_send_frame:
  assumes "Client_send connect_size fd sel ks m = Val (True, sent, ks')"
  shows "sent = frame (mb_buff (send_dumps m))" "length (mb_buff (send_dumps m)) < 2 ^ 31"
proof -
  have "TcpWrite fd sel ks (mb_buff (send_dumps m)) (int (length (mb_buff (send_dumps m)))) = Val (True, sent, ks')"
    using assms by (simp add: Client_send_def Let_def split: if_splits)
  note t = TcpWrite_frame [OF this refl]
  have "int (length (mb_buff (send_dumps m))) \<noteq> 0" by (simp add: send_bytes)
  from t [OF this] show "sent = frame (mb_buff (send_dumps m))" "length (mb_buff (send_dumps m)) < 2 ^ 31" by simp_all
qed

lemma Server_on_client_frame:
  assumes "live_segs segs" "concat segs = frame (mb_buff (send_dumps m)) @ rest" "length (mb_buff (send_dumps m)) < 2 ^ 31"
  shows "\<exists>segs'. Server_on_client segs = Val (Some m, segs') \<and> concat segs' = rest \<and> live_segs segs'"
proof -
  have l: "send_loads (mb_buff (send_dumps m)) = Val m" unfolding send_loads_Val [OF assms(3)] by simp
  have "concat segs \<noteq> []" using assms(2) by (simp add: frame_def flip: length_greater_0_conv)
  then show ?thesis using TcpRead_frame [OF assms, of 0 0] l by (auto simp: Server_on_client_def)
qed

lemma Server_turns_frames:
  assumes "live_segs segs" "concat segs = concat (map (\<lambda>m. frame (mb_buff (send_dumps m))) ms)"
    "\<forall>m\<in>set ms. length (mb_buff (send_dumps m)) < 2 ^ 31"
  shows "\<exists>segs'. Server_turns (length ms) segs = Val (ms, segs') \<and> Server_on_client segs' = Val (None, segs')"
  using assms
proof (induction ms arbitrary: segs)
  case Nil
  then show ?case by (auto simp: Server_on_client_def)
next
  case (Cons m ms)
  obtain s1 where "Server_on_client segs = Val (Some m, s1)" "concat s1 = concat (map (\<lambda>m. frame (mb_buff (send_dumps m))) ms)" "live_segs s1"
    using Server_on_client_frame [OF Cons.prems(1), of m] Cons.prems(2,3) by auto
  moreover obtain s2 where "Server_turns (length ms) s1 = Val (ms, s2)" "Server_on_client s2 = Val (None, s2)"
    using Cons.IH [of s1] calculation Cons.prems(3) by auto
  ultimately show ?case by auto
qed

text \<open>C32: Submissions that the client sent one after the other on a socket reach the work pool of the server in the same order and unchanged,
however the bytes are cut into segments and however \<open>send\<close> took them; then the server closes the socket.\<close>

theorem submissions_arrive:
  assumes "live_segs segs" "concat segs = concat sents"
    "list_all2 (\<lambda>m sent. \<exists>n fd sel ks ks'. Client_send n fd sel ks m = Val (True, sent, ks')) ms sents"
  shows "\<exists>segs'. Server_turns (length ms) segs = Val (ms, segs') \<and> Server_on_client segs' = Val (None, segs')"
proof (rule Server_turns_frames [OF assms(1)])
  from assms(3) have "sents = map (\<lambda>m. frame (mb_buff (send_dumps m))) ms \<and> (\<forall>m\<in>set ms. length (mb_buff (send_dumps m)) < 2 ^ 31)"
    by (induction rule: list_all2_induct) (auto dest: Client_send_frame)
  then show "concat segs = concat (map (\<lambda>m. frame (mb_buff (send_dumps m))) ms)"
    "\<forall>m\<in>set ms. length (mb_buff (send_dumps m)) < 2 ^ 31" using assms(2) by auto
qed

theorem submissions_arrive_witness:
  "let m = \<lparr>s_key = ''7'', s_code = ''int main(){}'', s_language = ''cpp'', s_pid = ''1'', timeLimit = 1000, memoryLimit = 128\<rparr>;
       f = frame (mb_buff (send_dumps m))
   in \<exists>segs'. Server_turns 2 [take 3 f, drop 3 f @ take 30 f, drop 30 f] = Val ([m, m], segs') \<and> Server_on_client segs' = Val (None, segs')"
proof -
  let ?m = "\<lparr>s_key = ''7'', s_code = ''int main(){}'', s_language = ''cpp'', s_pid = ''1'', timeLimit = 1000, memoryLimit = 128\<rparr>"
  let ?f = "frame (mb_buff (send_dumps ?m))"
  have "length ?f = 45" by (simp add: frame_def send_bytes)
  then have l: "live_segs [take 3 ?f, drop 3 ?f @ take 30 ?f, drop 30 ?f]" by (auto simp: live_segs_def)
  have "writen [20, 100] ?f = (True, ?f, [])"
  proof -
    have "?f \<noteq> []" "drop 20 ?f \<noteq> []" "drop 100 (drop 20 ?f) = []" "take 100 (drop 20 ?f) = drop 20 ?f" using \<open>length ?f = 45\<close> by auto
    then show ?thesis by (simp only: writen_step zero_less_numeral Let_def writen.simps prod.case append_Nil2 append_take_drop_id simp_thms)
  qed
  then have s: "Client_send 1 5 1 [20, 100] ?m = Val (True, ?f, [])"
    using TcpWrite_ok [of 5 1 "mb_buff (send_dumps ?m)"] by (simp add: Client_send_def in_fd_set_def Let_def send_bytes)
  have "concat [take 3 ?f, drop 3 ?f @ take 30 ?f, drop 30 ?f] = concat [?f, ?f]" by simp
  moreover have "list_all2 (\<lambda>m sent. \<exists>n fd sel ks ks'. Client_send n fd sel ks m = Val (True, sent, ks')) [?m, ?m] [?f, ?f]"
    using s by (simp only: list.rel_inject simp_thms) blast
  ultimately have "\<exists>segs'. Server_turns (length [?m, ?m]) [take 3 ?f, drop 3 ?f @ take 30 ?f, drop 30 ?f] = Val ([?m, ?m], segs') \<and>
      Server_on_client segs' = Val (None, segs')"
    by (rule submissions_arrive [OF l])
  then show ?thesis by (simp add: Let_def numeral_2_eq_2)
qed

text \<open>C33: What one turn of the server makes of the bytes of a client, whatever they are: fewer than four bytes before the end are undefined
behaviour (an empty string is parsed), a length with the top bit set throws an exception that nothing catches, and a message that is cut
short is parsed with zeros in the place of what is missing.\<close>

theorem server_reads_exact:
  assumes "live_segs segs" "concat segs \<noteq> []"
  shows "rbind (Server_on_client segs) (\<lambda>(msgj, _). Val msgj) =
    (let b = concat segs; n = sint (net_word (take 4 b)) in
     if length b < 4 then UB
     else if n < 0 then Throw ''length_error''
     else rbind (send_loads (str_resize (nat n) (take (nat n) (drop 4 b)))) (\<lambda>m. Val (Some m)))"
proof -
  let ?b = "concat segs" and ?n = "sint (net_word (take 4 (concat segs)))"
  consider "length ?b < 4" | "4 \<le> length ?b" "?n < 0" | "4 \<le> length ?b" "0 \<le> ?n" by linarith
  then show ?thesis
  proof cases
    case 1
    then show ?thesis using TcpRead_short [OF assms(1) 1, of 0 0] assms(2) result_loads_short(2) [of "[]"]
      by (auto simp: Server_on_client_def)
  next
    case 2
    then show ?thesis using TcpRead_negative [OF assms(1) 2, of 0 0] assms(2) by (simp add: Server_on_client_def)
  next
    case 3
    obtain ok s2 where "TcpRead 0 [] 0 0 segs = Val (ok, str_resize (nat ?n) (take (nat ?n) (drop 4 ?b)), s2)"
      using TcpRead_bytes [OF assms(1) refl 3(1) refl 3(2), of 0 0] by auto
    then show ?thesis using 3 assms(2)
      by (cases "send_loads (str_resize (nat ?n) (take (nat ?n) (drop 4 ?b)))") (simp_all add: Server_on_client_def Let_def)
  qed
qed

theorem server_reads_exact_witness:
  "rbind (Server_on_client [[CHR 0x80], [CHR 0x00, CHR 0x00, CHR 0x00]]) (\<lambda>(msgj, _). Val msgj) = Throw ''length_error''"
proof -
  let ?s = "[[CHR 0x80], [CHR 0x00, CHR 0x00, CHR 0x00]]"
  have "live_segs ?s" "concat ?s \<noteq> []" by (simp_all add: live_segs_def)
  from server_reads_exact [OF this] show ?thesis
    by (simp add: Let_def net_word_def byte_word_def)
qed

section \<open>Answers\<close>

text \<open>\<open>judgeWorkPool::write_message\<close> once it has the socket: the bytes of the message, whose number is its length.\<close>

definition write_message :: "int \<Rightarrow> int \<Rightarrow> nat list \<Rightarrow> judge_result \<Rightarrow> (bool \<times> string \<times> nat list) res" where
  "write_message fd sel ks msg = (let str = mb_buff (result_dumps msg) in TcpWrite fd sel ks str (int (length str)))"

lemma length_result_dumps:
  "length (mb_buff (result_dumps m)) = 16 + length (j_key m) + length (j_msg m) + 32 * length (Results m)"
  by (simp add: result_bytes length_concat comp_def sum_list_triv)

text \<open>C34: Answers with no results whose key and text together have fewer than eleven characters are undefined behaviour when they are sent, for
\<open>memset\<close> clears more bytes than the string has; all others are sent as they are.\<close>

theorem write_message_exact:
  assumes "in_fd_set fd" "0 < sel" "length (mb_buff (result_dumps msg)) < 2 ^ 31 - 4"
  shows "write_message fd sel ks msg =
    (if Results msg = [] \<and> length (j_key msg) + length (j_msg msg) < 11 then UB
     else Val (writen ks (frame (mb_buff (result_dumps msg)))))"
proof (cases "Results msg = [] \<and> length (j_key msg) + length (j_msg msg) < 11")
  case True
  then have "length (mb_buff (result_dumps msg)) < 27" "length (mb_buff (result_dumps msg)) \<noteq> 0"
    by (simp_all add: length_result_dumps)
  then show ?thesis using True assms(1,2)
    by (auto simp: write_message_def TcpWrite_def in_fd_set_def int_max_def sizeof_string_def Let_def)
next
  case False
  then have "27 \<le> length (mb_buff (result_dumps msg))"
    by (cases "Results msg") (simp_all add: length_result_dumps)
  then show ?thesis using False assms TcpWrite_ok by (auto simp: write_message_def Let_def)
qed

theorem write_message_exact_witness:
  "write_message 5 1 [100] (MessageResultJudge ''7'' 0 ''allSize:3'') = UB"
  using write_message_exact [of 5 1 "MessageResultJudge ''7'' 0 ''allSize:3''" "[100]"]
  by (simp add: in_fd_set_def MessageResultJudge_def length_result_dumps)

section \<open>The client reads\<close>

text \<open>The thread of the client that waits for answers: an event is pending after bytes have arrived (\<open>EPOLLET\<close>); the thread then reads one
message, for which it waits until it is complete. \<open>c_arrived\<close> records what has arrived. The connection stays open.\<close>

record client_sys =
  c_arrived :: string
  c_unread :: string
  c_edge :: bool
  c_reading :: bool
  c_handled :: "judge_result list"

definition client_init :: client_sys where
  "client_init = \<lparr>c_arrived = [], c_unread = [], c_edge = False, c_reading = False, c_handled = []\<rparr>"

inductive client_step :: "client_sys \<Rightarrow> client_sys \<Rightarrow> bool" where
  Arrive: "d \<noteq> [] \<Longrightarrow> client_step s (s\<lparr>c_arrived := c_arrived s @ d, c_unread := c_unread s @ d, c_edge := True\<rparr>)"
| Wake: "c_edge s \<Longrightarrow> \<not> c_reading s \<Longrightarrow> client_step s (s\<lparr>c_edge := False, c_reading := True\<rparr>)"
| Finish: "c_reading s \<Longrightarrow> TcpRead 0 [] 0 0 [c_unread s] = Val (True, readStr, segs) \<Longrightarrow>
    result_loads readStr (MessageResultJudge [] 0 []) = Val msg_res \<Longrightarrow>
    client_step s (s\<lparr>c_unread := concat segs, c_reading := False, c_handled := c_handled s @ [msg_res]\<rparr>)"

inductive_cases client_stepE: "client_step s s'"

abbreviation client_reach :: "client_sys \<Rightarrow> bool" where
  "client_reach s \<equiv> client_step\<^sup>*\<^sup>* client_init s"

definition answer_frame :: "judge_result \<Rightarrow> string" where
  "answer_frame m = frame (mb_buff (result_dumps m))"

lemma result_loads_answer:
  "length (mb_buff (result_dumps m)) < 2 ^ 31 \<Longrightarrow> result_loads (mb_buff (result_dumps m)) (MessageResultJudge [] 0 []) = Val m"
  using result_loads_read [of m "[]"] by (simp add: MessageResultJudge_def)

lemma TcpRead_complete:
  assumes r: "TcpRead 0 [] 0 0 [u] = Val (True, str, segs)" and u: "u @ rest = frame msg @ t" and l: "length msg < 2 ^ 31"
  shows "u = frame msg @ concat segs" "str = msg"
proof -
  have "u \<noteq> []" using r by (auto simp: TcpRead_def readn.simps)
  then have live: "live_segs [u]" by (simp add: live_segs_def)
  have 4: "4 \<le> length u" using TcpRead_short [OF live, of 0 0] r by fastforce
  have "take 4 u = take 4 (u @ rest)" using 4 by simp
  then have b: "take 4 u = net_bytes (word_of_nat (length msg))" unfolding u by (simp add: frame_def)
  have d: "drop 4 u @ rest = msg @ t" using arg_cong [OF u, of "drop 4"] 4 by (simp add: frame_def)
  have n: "sint (net_word (take 4 u)) = int (length msg)" using b sint_length [OF l] by simp
  have "int (length msg) \<le> int (length u) - 4" "str = str_resize (length msg) (take (length msg) (drop 4 u))"
      "concat segs = drop (length msg) (drop 4 u)"
    using TcpRead_bytes [OF live _ 4 n [symmetric], of 0 0] r by auto
  moreover have "take (length msg) (drop 4 u) = msg"
    using d calculation(1) by (metis append_eq_append_conv_if append_eq_conv_conj le_diff_conv2 length_drop nat_int_comparison(3) of_nat_diff 4 of_nat_numeral)
  moreover have "u = take 4 u @ take (length msg) (drop 4 u) @ drop (length msg) (drop 4 u)" by (simp only: append_take_drop_id)
  ultimately show "str = msg" "u = frame msg @ concat segs"
    using b by (simp_all add: str_resize_def frame_def)
qed

lemma client_handled:
  assumes "client_reach s" "\<forall>m\<in>set ms. length (mb_buff (result_dumps m)) < 2 ^ 31" "c_arrived s @ rest = concat (map answer_frame ms)"
  shows "\<exists>k\<le>length ms. c_handled s = take k ms \<and> c_unread s @ rest = concat (map answer_frame (drop k ms))"
  using assms(1,3)
proof (induction arbitrary: rest rule: rtranclp_induct)
  case base
  then show ?case by (intro exI [of _ 0]) (simp add: client_init_def)
next
  case (step s s')
  from step.hyps(2) show ?case
  proof (cases rule: client_step.cases)
    case (Arrive d)
    then show ?thesis using step.IH [of "d @ rest"] step.prems by auto
  next
    case Wake
    then show ?thesis using step.IH [of rest] step.prems by auto
  next
    case (Finish str segs m)
    then obtain k where k: "k \<le> length ms" "c_handled s = take k ms" "c_unread s @ rest = concat (map answer_frame (drop k ms))"
      using step.IH [of rest] step.prems by auto
    have "c_unread s \<noteq> []" using Finish(3) by (auto simp: TcpRead_def readn.simps)
    then have lt: "k < length ms" using k by (cases "k < length ms") auto
    define m' where "m' = ms ! k"
    have d: "drop k ms = m' # drop (Suc k) ms" using Cons_nth_drop_Suc [OF lt] by (simp add: m'_def)
    have l: "length (mb_buff (result_dumps m')) < 2 ^ 31" using assms(2) lt by (simp add: m'_def)
    from k(3) have "c_unread s @ rest = frame (mb_buff (result_dumps m')) @ concat (map answer_frame (drop (Suc k) ms))"
      by (simp add: d answer_frame_def)
    note t = TcpRead_complete [OF Finish(3) this l]
    have "m = m'" using Finish(4) t(2) result_loads_answer [OF l] by simp
    moreover have "concat segs @ rest = concat (map answer_frame (drop (Suc k) ms))"
      using k(3) t(1) by (simp add: d answer_frame_def)
    ultimately show ?thesis using Finish(1) k(2) lt by (intro exI [of _ "Suc k"]) (simp add: take_Suc_conv_app_nth m'_def)
  qed
qed

text \<open>C35: The handler of the client gets the answers in the order in which the server sent them, each once and unchanged, and what is not handled
is still unread: for any cut of the bytes, in every state the client can reach.\<close>

theorem client_in_order:
  assumes "client_reach s" "\<forall>m\<in>set ms. length (mb_buff (result_dumps m)) < 2 ^ 31" "c_arrived s @ rest = concat (map answer_frame ms)"
  shows "\<exists>k\<le>length ms. c_handled s = take k ms \<and> c_unread s @ rest = concat (map answer_frame (drop k ms))"
  using assms by (rule client_handled)

text \<open>Two answers that arrive together.\<close>

lemma client_two_answers:
  assumes "length (mb_buff (result_dumps m1)) < 2 ^ 31"
  shows "client_reach \<lparr>c_arrived = answer_frame m1 @ answer_frame m2, c_unread = answer_frame m2, c_edge = False, c_reading = False, c_handled = [m1]\<rparr>"
proof -
  let ?u = "answer_frame m1 @ answer_frame m2"
  let ?s1 = "\<lparr>c_arrived = ?u, c_unread = ?u, c_edge = True, c_reading = False, c_handled = []\<rparr>"
  let ?s2 = "\<lparr>c_arrived = ?u, c_unread = ?u, c_edge = False, c_reading = True, c_handled = []\<rparr>"
  have ne: "?u \<noteq> []" by (simp add: answer_frame_def frame_def flip: length_greater_0_conv)
  have st1: "client_step client_init ?s1" using Arrive [OF ne, of client_init] by (simp add: client_init_def)
  have st2: "client_step ?s1 ?s2" using Wake [of ?s1] by simp
  obtain segs where r: "TcpRead 0 [] 0 0 [?u] = Val (True, mb_buff (result_dumps m1), segs)" "concat segs = answer_frame m2"
    using TcpRead_frame [of "[?u]" "mb_buff (result_dumps m1)" "answer_frame m2" 0 0] ne assms by (auto simp: live_segs_def answer_frame_def)
  then have st3: "client_step ?s2 \<lparr>c_arrived = ?u, c_unread = answer_frame m2, c_edge = False, c_reading = False, c_handled = [m1]\<rparr>"
    using Finish [of ?s2 _ segs m1] result_loads_answer [OF assms] by simp
  from st1 st2 st3 show ?thesis
    by (blast intro: rtranclp.rtrancl_into_rtrancl [OF rtranclp.rtrancl_into_rtrancl [OF rtranclp.rtrancl_into_rtrancl [OF rtranclp.rtrancl_refl]]])
qed

text \<open>When two answers arrive before the client wakes up, it handles the first and stops: the second lies in the socket, complete, and the
client does nothing until more bytes arrive, which after the last answer of a submission need not happen.\<close>

theorem client_answer_waits:
  assumes "length (mb_buff (result_dumps m1)) < 2 ^ 31"
  shows "\<exists>s. client_reach s \<and> c_handled s = [m1] \<and> c_unread s = answer_frame m2 \<and>
    (\<forall>s'. client_step s s' \<longrightarrow> c_handled s' = [m1] \<and> c_arrived s' \<noteq> c_arrived s)"
proof -
  let ?s = "\<lparr>c_arrived = answer_frame m1 @ answer_frame m2, c_unread = answer_frame m2, c_edge = False, c_reading = False, c_handled = [m1]\<rparr>"
  have "client_step ?s s' \<Longrightarrow> c_handled s' = [m1] \<and> c_arrived s' \<noteq> c_arrived ?s" for s'
    by (erule client_stepE) auto
  then show ?thesis using client_two_answers [OF assms] by (intro exI [of _ ?s]) auto
qed

theorem client_answer_waits_witness:
  "\<exists>s. client_reach s \<and> c_handled s = [MessageResultJudge ''7'' 0 ''0,1,p1.in,p1.out''] \<and>
    c_unread s = answer_frame (MessageResultJudge ''7'' 0 ''ALL'') \<and>
    (\<forall>s'. client_step s s' \<longrightarrow> c_handled s' = [MessageResultJudge ''7'' 0 ''0,1,p1.in,p1.out''] \<and> c_arrived s' \<noteq> c_arrived s)"
  by (rule client_answer_waits) (simp add: length_result_dumps MessageResultJudge_def)

theorem client_in_order_witness:
  "let m = MessageResultJudge ''7'' 0 ''0,1,p1.in,p1.out'' in
   \<exists>k\<le>2. c_handled \<lparr>c_arrived = answer_frame m @ answer_frame m, c_unread = answer_frame m, c_edge = False, c_reading = False, c_handled = [m]\<rparr> = take k [m, m] \<and>
     answer_frame m @ [] = concat (map answer_frame (drop k [m, m]))"
proof -
  let ?m = "MessageResultJudge ''7'' 0 ''0,1,p1.in,p1.out''"
  have l: "length (mb_buff (result_dumps ?m)) < 2 ^ 31" by (simp add: length_result_dumps MessageResultJudge_def)
  from client_in_order [OF client_two_answers [OF l, of ?m], of "[?m, ?m]" "[]"] l
  show ?thesis by (simp add: Let_def numeral_2_eq_2)
qed

end
