(* ===== verification/JudgeCheck.thy ===== *)
theory JudgeCheck
  imports Prelude
begin

text \<open>
  \<open>cyaron::Check::noipstyle_check\<close> of \<open>libs/judgercpp/judge_server/src/check.hpp\<close>, which compares the output of a program with an answer,
  line by line. A file is its bytes, or \<open>None\<close> when it cannot be opened; \<open>get\<close> and \<open>peek\<close> then give \<open>EOF\<close>, as they do at the end. \<open>EOF\<close> is
  converted to \<open>char\<close>, which is the byte \<open>0xFF\<close>; \<open>char\<close> has a sign.
\<close>

section \<open>Reader\<close>

definition ch_eof :: char where "ch_eof = CHR 0xFF"
definition ch_cr :: char where "ch_cr = CHR 0x0D"
definition ch_lf :: char where "ch_lf = CHR 0x0A"

record reader =
  rd_cur :: char
  rd_rest :: string

definition Reader_new :: "string option \<Rightarrow> reader" where
  "Reader_new file = \<lparr>rd_cur = CHR 0xFE, rd_rest = (case file of None \<Rightarrow> [] | Some s \<Rightarrow> s)\<rparr>"

definition reader_eof :: "reader \<Rightarrow> bool" where
  "reader_eof r \<longleftrightarrow> rd_cur r = ch_eof"

definition isEofn :: "char \<Rightarrow> bool" where
  "isEofn c \<longleftrightarrow> c = ch_cr \<or> c = ch_lf"

definition peekNextChar :: "reader \<Rightarrow> char" where
  "peekNextChar r = (case rd_rest r of [] \<Rightarrow> ch_eof | c # _ \<Rightarrow> c)"

definition getNextChar :: "reader \<Rightarrow> char \<times> reader" where
  "getNextChar r = (let c = peekNextChar r in (c, r\<lparr>rd_cur := c, rd_rest := tl (rd_rest r)\<rparr>))"

lemma eof_not_eoln [simp]: "\<not> isEofn ch_eof"
  by (simp add: isEofn_def ch_eof_def ch_cr_def ch_lf_def)

function readEoln :: "reader \<Rightarrow> reader" where
  "readEoln r = (if isEofn (peekNextChar r) then readEoln (snd (getNextChar r)) else r)"
  by pat_completeness auto
termination
  by (relation "measure (\<lambda>r. length (rd_rest r))") (auto simp: peekNextChar_def getNextChar_def Let_def split: list.splits)

function read_chars :: "string \<Rightarrow> reader \<Rightarrow> string \<times> reader" where
  "read_chars ret r =
     (let (c, r) = getNextChar r in
      if isEofn c then (ret, r)
      else if c = ch_eof then (ret, r)
      else read_chars (ret @ [c]) r)"
  by pat_completeness auto
termination
  by (relation "measure (\<lambda>(_, r). length (rd_rest r))") (auto simp: peekNextChar_def getNextChar_def Let_def split: list.splits)

declare readEoln.simps [simp del] read_chars.simps [simp del]

definition readLine :: "reader \<Rightarrow> string \<times> reader" where
  "readLine r = (let (ret, r) = read_chars [] r in (ret, readEoln r))"

section \<open>Comparison\<close>

definition is_back :: "char \<Rightarrow> bool" where
  "is_back c \<longleftrightarrow> c = ch_lf \<or> c = CHR '' '' \<or> c = ch_cr"

function del_line_back_space :: "string \<Rightarrow> string" where
  "del_line_back_space str = (if str \<noteq> [] \<and> is_back (last str) then del_line_back_space (butlast str) else str)"
  by pat_completeness auto
termination by (relation "measure length") auto

declare del_line_back_space.simps [simp del]

text \<open>Lines in terms of the bytes that are left.\<close>

definition stops :: "char \<Rightarrow> bool" where
  "stops c \<longleftrightarrow> isEofn c \<or> c = ch_eof"

lemma readEoln_eq: "rd_rest (readEoln r) = dropWhile isEofn (rd_rest r)"
proof (induction r rule: readEoln.induct)
  case (1 r)
  show ?case
  proof (cases "isEofn (peekNextChar r)")
    case True
    then obtain c cs where "rd_rest r = c # cs" "isEofn c" by (auto simp: peekNextChar_def split: list.splits)
    then show ?thesis using 1 True by (subst readEoln.simps) (simp add: getNextChar_def Let_def)
  next
    case False
    then show ?thesis by (subst readEoln.simps) (auto simp: peekNextChar_def split: list.splits)
  qed
qed

lemma readEoln_eof: "\<not> reader_eof r \<Longrightarrow> \<not> reader_eof (readEoln r)"
proof (induction r rule: readEoln.induct)
  case (1 r)
  show ?case
  proof (cases "isEofn (peekNextChar r)")
    case True
    then have "peekNextChar r \<noteq> ch_eof" using eof_not_eoln by metis
    then show ?thesis using 1 True by (subst readEoln.simps) (simp add: getNextChar_def reader_eof_def Let_def)
  next
    case False
    then show ?thesis using 1 by (subst readEoln.simps) simp
  qed
qed

lemma read_chars_eq:
  "read_chars ret r = (ret @ takeWhile (\<lambda>c. \<not> stops c) (rd_rest r),
     case dropWhile (\<lambda>c. \<not> stops c) (rd_rest r) of
       [] \<Rightarrow> \<lparr>rd_cur = ch_eof, rd_rest = []\<rparr>
     | c # cs \<Rightarrow> \<lparr>rd_cur = c, rd_rest = cs\<rparr>)"
proof (induction ret r rule: read_chars.induct)
  case (1 ret r)
  show ?case
  proof (cases "rd_rest r")
    case Nil
    then show ?thesis by (subst read_chars.simps) (simp add: getNextChar_def peekNextChar_def Let_def)
  next
    case (Cons c cs)
    then have g: "getNextChar r = (c, \<lparr>rd_cur = c, rd_rest = cs\<rparr>)" by (simp add: getNextChar_def peekNextChar_def Let_def)
    show ?thesis
    proof (cases "stops c")
      case True
      then show ?thesis using Cons g by (subst read_chars.simps) (auto simp: stops_def)
    next
      case False
      then have "\<not> isEofn c" "c \<noteq> ch_eof" by (auto simp: stops_def)
      note ih = 1 [OF refl g [symmetric] this]
      show ?thesis using Cons g False by (subst read_chars.simps) (simp add: ih stops_def)
    qed
  qed
qed

lemma readLine_eq:
  "readLine r = (takeWhile (\<lambda>c. \<not> stops c) (rd_rest r),
     case dropWhile (\<lambda>c. \<not> stops c) (rd_rest r) of
       [] \<Rightarrow> \<lparr>rd_cur = ch_eof, rd_rest = []\<rparr>
     | c # cs \<Rightarrow> readEoln \<lparr>rd_cur = c, rd_rest = cs\<rparr>)"
proof -
  have "readEoln \<lparr>rd_cur = ch_eof, rd_rest = []\<rparr> = \<lparr>rd_cur = ch_eof, rd_rest = []\<rparr>"
    by (subst readEoln.simps) (simp add: peekNextChar_def)
  then show ?thesis by (cases "dropWhile (\<lambda>c. \<not> stops c) (rd_rest r)") (simp_all only: readLine_def read_chars_eq Let_def prod.case list.case append_Nil)
qed

text \<open>The lines a file has: a line ends before an end of line or a byte \<open>0xFF\<close>, and empty lines after a line are passed over.\<close>

lemma file_lines_less: "s \<noteq> [] \<Longrightarrow> length (dropWhile isEofn (tl (dropWhile (\<lambda>c. \<not> stops c) s))) < length s"
proof -
  assume "s \<noteq> []"
  then have "length (tl (dropWhile (\<lambda>c. \<not> stops c) s)) < length s"
    using length_dropWhile_le [of "\<lambda>c. \<not> stops c" s] by (cases "dropWhile (\<lambda>c. \<not> stops c) s") (auto simp del: dropWhile_eq_Nil_conv)
  then show ?thesis using length_dropWhile_le le_less_trans by blast
qed

function file_lines :: "string \<Rightarrow> string list" where
  "file_lines s = (if s = [] then [] else takeWhile (\<lambda>c. \<not> stops c) s # file_lines (dropWhile isEofn (tl (dropWhile (\<lambda>c. \<not> stops c) s))))"
  by pat_completeness auto
termination by (relation "measure length") (auto simp: file_lines_less)

declare file_lines.simps [simp del]

text \<open>\<open>p\<close> is a local variable of the turn. The loop ends: the answer gets shorter, or was read to its end.\<close>

lemma readLine_shorter:
  assumes "readLine ans = (j, ans')"
  shows "reader_eof ans' \<and> length (rd_rest ans') \<le> length (rd_rest ans) \<or> length (rd_rest ans') < length (rd_rest ans)"
proof (cases "dropWhile (\<lambda>c. \<not> stops c) (rd_rest ans)")
  case Nil
  then have "ans' = \<lparr>rd_cur = ch_eof, rd_rest = []\<rparr>" using assms unfolding readLine_eq Nil by simp
  then show ?thesis by (simp add: reader_eof_def)
next
  case (Cons c cs)
  then have "ans' = readEoln \<lparr>rd_cur = c, rd_rest = cs\<rparr>" using assms by (simp add: readLine_eq)
  then have "length (rd_rest ans') \<le> length cs" using length_dropWhile_le by (simp add: readEoln_eq)
  also have "\<dots> < length (rd_rest ans)" using length_dropWhile_le [of "\<lambda>c. \<not> stops c" "rd_rest ans"] by (simp add: Cons)
  finally show ?thesis by simp
qed

function check_lines :: "reader \<Rightarrow> reader \<Rightarrow> bool" where
  "check_lines ouf ans =
     (if \<not> reader_eof ans then
        let (j, ans) = readLine ans;
            j = del_line_back_space j
        in if j = [] \<and> reader_eof ans then True
           else let (p, ouf) = readLine ouf;
                    p = del_line_back_space p
                in if j \<noteq> p then False else check_lines ouf ans
      else True)"
  by pat_completeness auto
termination
  by (relation "measure (\<lambda>(_, ans). length (rd_rest ans) + (if reader_eof ans then 0 else 1))")
    (auto dest!: readLine_shorter [OF sym])

declare check_lines.simps [simp del]

definition noipstyle_check :: "string option \<Rightarrow> string option \<Rightarrow> bool" where
  "noipstyle_check user_output std_output = check_lines (Reader_new user_output) (Reader_new std_output)"

section \<open>What is compared\<close>

text \<open>The answer is read up to the first byte \<open>0xFF\<close> that no end of line follows.\<close>

definition ends_here :: "string \<Rightarrow> bool" where
  "ends_here d \<longleftrightarrow> d = [] \<or> hd d = ch_eof \<and> (tl d = [] \<or> \<not> isEofn (hd (tl d)))"

fun visible :: "string \<Rightarrow> string" where
  "visible [] = []"
| "visible (c # cs) = (if ends_here (c # cs) then [] else c # visible cs)"

text \<open>The lines of the answer, without blanks at their ends; a last line that is blank and has no end of line does not count.\<close>

definition answer_lines :: "string \<Rightarrow> string list" where
  "answer_lines s =
     (let ls = map del_line_back_space (file_lines s)
      in if s \<noteq> [] \<and> \<not> isEofn (last s) \<and> last ls = [] then butlast ls else ls)"

fun agree :: "string list \<Rightarrow> string list \<Rightarrow> bool" where
  "agree us [] \<longleftrightarrow> True"
| "agree [] (j # js) \<longleftrightarrow> j = [] \<and> agree [] js"
| "agree (u # us) (j # js) \<longleftrightarrow> j = u \<and> agree us js"

lemma agree_iff: "agree us js \<longleftrightarrow> (\<forall>i<length js. js ! i = (if i < length us then us ! i else []))"
  by (induction us js rule: agree.induct) (auto simp: All_less_Suc2)

lemma file_lines_Nil [simp]: "file_lines [] = []"
  by (simp add: file_lines.simps)

lemma file_lines_ne: "s \<noteq> [] \<Longrightarrow> file_lines s \<noteq> []"
  by (subst file_lines.simps) simp

lemma del_Nil [simp]: "del_line_back_space [] = []"
  by (simp add: del_line_back_space.simps)

lemma not_stops [simp]: "isEofn c \<Longrightarrow> stops c" "stops ch_eof"
  by (simp_all add: stops_def)

lemma readLine_parts:
  defines "d r \<equiv> dropWhile (\<lambda>c. \<not> stops c) (rd_rest r)"
  shows "fst (readLine r) = takeWhile (\<lambda>c. \<not> stops c) (rd_rest r)"
    "rd_rest (snd (readLine r)) = dropWhile isEofn (tl (d r))" "reader_eof (snd (readLine r)) \<longleftrightarrow> ends_here (d r)"
proof -
  show "fst (readLine r) = takeWhile (\<lambda>c. \<not> stops c) (rd_rest r)" by (simp add: readLine_eq)
  have e: "snd (readLine r) = (case d r of [] \<Rightarrow> \<lparr>rd_cur = ch_eof, rd_rest = []\<rparr> | c # cs \<Rightarrow> readEoln \<lparr>rd_cur = c, rd_rest = cs\<rparr>)"
    by (simp add: readLine_eq d_def)
  show "rd_rest (snd (readLine r)) = dropWhile isEofn (tl (d r))"
    unfolding e by (cases "d r") (simp_all add: readEoln_eq)
  show "reader_eof (snd (readLine r)) \<longleftrightarrow> ends_here (d r)"
  proof (cases "d r")
    case Nil
    show ?thesis unfolding e Nil by (simp add: reader_eof_def ends_here_def)
  next
    case (Cons c cs)
    have "stops c" using Cons unfolding d_def by (metis dropWhile_eq_Cons_conv)
    have "reader_eof (readEoln \<lparr>rd_cur = c, rd_rest = cs\<rparr>) \<longleftrightarrow> c = ch_eof \<and> (cs = [] \<or> \<not> isEofn (hd cs))"
    proof (cases "cs \<noteq> [] \<and> isEofn (hd cs)")
      case True
      then obtain x xs where x: "cs = x # xs" "isEofn x" by (cases cs) auto
      then have "\<not> reader_eof \<lparr>rd_cur = x, rd_rest = xs\<rparr>" using eof_not_eoln by (auto simp: reader_eof_def)
      then show ?thesis using x readEoln_eof by (subst readEoln.simps) (simp add: peekNextChar_def getNextChar_def Let_def)
    next
      case False
      then have "\<not> isEofn (peekNextChar \<lparr>rd_cur = c, rd_rest = cs\<rparr>)" by (cases cs) (auto simp: peekNextChar_def)
      then show ?thesis using False by (subst readEoln.simps) (auto simp: reader_eof_def)
    qed
    then show ?thesis unfolding e Cons by (simp add: ends_here_def)
  qed
qed

text \<open>What is visible of the answer, line by line.\<close>

lemma visible_split:
  "visible s = takeWhile (\<lambda>c. \<not> stops c) s @ visible (dropWhile (\<lambda>c. \<not> stops c) s)"
proof (induction s)
  case (Cons c s)
  have "\<not> stops c \<Longrightarrow> \<not> ends_here (c # s)" by (auto simp: ends_here_def)
  then show ?case using Cons by auto
qed simp

lemma visible_eols: "visible (dropWhile isEofn s) = dropWhile isEofn (visible s)"
proof (induction s)
  case (Cons c s)
  have "isEofn c \<Longrightarrow> \<not> ends_here (c # s)" by (auto simp: ends_here_def)
  then show ?case using Cons by auto
qed simp

lemma visible_hd: "s \<noteq> [] \<Longrightarrow> isEofn (hd s) \<Longrightarrow> visible s \<noteq> [] \<and> hd (visible s) = hd s"
  by (cases s) (auto simp: ends_here_def)

lemma hd_stops: "dropWhile (\<lambda>c. \<not> stops c) s = c # cs \<Longrightarrow> stops c"
  by (metis dropWhile_eq_Cons_conv)

text \<open>One line more.\<close>

lemma answer_lines_step:
  assumes "\<not> ends_here (dropWhile (\<lambda>c. \<not> stops c) s)"
  shows "answer_lines s = del_line_back_space (takeWhile (\<lambda>c. \<not> stops c) s) # answer_lines (dropWhile isEofn (tl (dropWhile (\<lambda>c. \<not> stops c) s)))"
proof -
  let ?d = "dropWhile (\<lambda>c. \<not> stops c) s" let ?r = "dropWhile isEofn (tl ?d)"
  have d: "?d \<noteq> []" using assms by (auto simp: ends_here_def simp del: dropWhile_eq_Nil_conv)
  then have s: "s \<noteq> []" by auto
  have fl: "file_lines s = takeWhile (\<lambda>c. \<not> stops c) s # file_lines ?r" using s by (subst file_lines.simps) simp
  have l: "last s = last ?d" using d by (metis last_appendR takeWhile_dropWhile_id)
  show ?thesis
  proof (cases "?r = []")
    case True
    have "isEofn (last ?d)"
    proof (cases "tl ?d = []")
      case Nil: True
      then have "?d = [hd ?d]" using d by (metis list.collapse)
      moreover have "stops (hd ?d)" using hd_stops d by (metis list.collapse)
      ultimately show ?thesis using assms Nil unfolding ends_here_def stops_def by (metis last_ConsL)
    next
      case False
      then have "isEofn (last (tl ?d))" using True by (metis dropWhile_eq_Nil_conv last_in_set)
      then show ?thesis using False by (simp add: last_tl)
    qed
    then show ?thesis unfolding answer_lines_def fl True l by simp
  next
    case False
    then have "tl ?d \<noteq> []" by auto
    then have "last ?d = last ?r" using False by (metis last_appendR last_tl takeWhile_dropWhile_id)
    then show ?thesis unfolding answer_lines_def fl l using False s file_lines_ne [OF False] by (simp add: Let_def)
  qed
qed

lemma answer_lines_last:
  assumes "\<forall>c\<in>set s. \<not> stops c"
  shows "answer_lines s = (if del_line_back_space s = [] then [] else [del_line_back_space s])"
proof (cases "s = []")
  case False
  have t: "takeWhile (\<lambda>c. \<not> stops c) s = s" "dropWhile (\<lambda>c. \<not> stops c) s = []" using assms by simp_all
  have "file_lines s = [s]" using False by (subst file_lines.simps) (simp only: t list.sel dropWhile.simps file_lines_Nil if_False)
  moreover have "\<not> isEofn (last s)" using assms False by (auto simp: stops_def)
  ultimately show ?thesis using False by (simp add: answer_lines_def)
qed (simp add: answer_lines_def)

lemma answer_visible:
  defines "w s \<equiv> takeWhile (\<lambda>c. \<not> stops c) s" and "d s \<equiv> dropWhile (\<lambda>c. \<not> stops c) s"
  shows "ends_here (d s) \<Longrightarrow> answer_lines (visible s) = (if del_line_back_space (w s) = [] then [] else [del_line_back_space (w s)])"
    "\<not> ends_here (d s) \<Longrightarrow> answer_lines (visible s) = del_line_back_space (w s) # answer_lines (visible (dropWhile isEofn (tl (d s))))"
proof -
  have v: "visible s = w s @ visible (d s)" unfolding w_def d_def by (rule visible_split)
  have ws: "\<forall>c\<in>set (w s). \<not> stops c" unfolding w_def using set_takeWhileD by fastforce
  show "answer_lines (visible s) = (if del_line_back_space (w s) = [] then [] else [del_line_back_space (w s)])" if "ends_here (d s)"
  proof -
    have "visible (d s) = []" using that by (cases "d s") auto
    then show ?thesis using answer_lines_last [OF ws] v by simp
  qed
  show "answer_lines (visible s) = del_line_back_space (w s) # answer_lines (visible (dropWhile isEofn (tl (d s))))" if e: "\<not> ends_here (d s)"
  proof -
    obtain c cs where d: "d s = c # cs" using e by (cases "d s") (auto simp: ends_here_def)
    have c: "stops c" using hd_stops d unfolding d_def by blast
    have vd: "visible (d s) = c # visible cs" using e unfolding d by simp
    have tw: "takeWhile (\<lambda>c. \<not> stops c) (visible s) = w s" "dropWhile (\<lambda>c. \<not> stops c) (visible s) = c # visible cs"
      using ws c unfolding v vd by (simp_all add: takeWhile_append2 dropWhile_append2)
    have "\<not> ends_here (c # visible cs)"
      using e visible_hd [of cs] unfolding d by (auto simp: ends_here_def)
    then show ?thesis using answer_lines_step [of "visible s"] unfolding tw d by (simp add: visible_eols)
  qed
qed

lemma check_lines_agree:
  assumes "\<not> reader_eof ans"
  shows "check_lines ouf ans \<longleftrightarrow> agree (map del_line_back_space (file_lines (rd_rest ouf))) (answer_lines (visible (rd_rest ans)))"
  using assms
proof (induction ouf ans rule: check_lines.induct)
  case (1 ouf ans)
  obtain j ans' where a: "readLine ans = (j, ans')" by fastforce
  obtain p ouf' where u: "readLine ouf = (p, ouf')" by fastforce
  note ra = readLine_parts [of ans, unfolded a fst_conv snd_conv]
  note ru = readLine_parts [of ouf, unfolded u fst_conv snd_conv]
  have c: "check_lines ouf ans \<longleftrightarrow> del_line_back_space j = [] \<and> reader_eof ans' \<or>
      del_line_back_space j = del_line_back_space p \<and> check_lines ouf' ans'"
    using "1.prems"(1) a u by (subst check_lines.simps) (auto simp: Let_def)
  have pads: "agree (map del_line_back_space (file_lines (rd_rest ouf))) (x # xs) \<longleftrightarrow>
      x = del_line_back_space p \<and> agree (map del_line_back_space (file_lines (rd_rest ouf'))) xs" for x xs
    using ru(1,2) by (cases "rd_rest ouf = []") (simp_all add: file_lines.simps [of "rd_rest ouf"])
  note av = answer_visible [of "rd_rest ans", folded ra(1) ra(2) ra(3)]
  show ?case
  proof (cases "reader_eof ans'")
    case True
    have "check_lines ouf' ans'" using True by (simp add: check_lines.simps)
    then show ?thesis unfolding c using True pads by (simp add: av(1))
  next
    case False
    show ?thesis
    proof (cases "del_line_back_space j = del_line_back_space p")
      case True
      have "check_lines ouf' ans' \<longleftrightarrow> agree (map del_line_back_space (file_lines (rd_rest ouf'))) (answer_lines (visible (rd_rest ans')))"
        by (rule "1.IH" [OF "1.prems"(1) refl a [symmetric] refl _ refl u [symmetric] refl]) (use True False in auto)
      then show ?thesis unfolding c using False True by (simp add: av(2) pads)
    next
      case ne: False
      then show ?thesis unfolding c using False by (simp add: av(2) pads)
    qed
  qed
qed

text \<open>An answer that cannot be opened agrees with everything.\<close>

lemma noipstyle_check_no_file: "noipstyle_check user None"
proof -
  have "readLine (Reader_new None) = ([], \<lparr>rd_cur = ch_eof, rd_rest = []\<rparr>)"
    by (simp add: readLine_eq Reader_new_def)
  then show ?thesis unfolding noipstyle_check_def by (subst check_lines.simps) (simp add: reader_eof_def)
qed

text \<open>C37: The comparison ends for all files, whatever bytes they hold, and says yes exactly when each line of the answer is the line of the output
at the same place, blanks at the ends of the lines aside, where the output has empty lines after its last: what the output has beyond the
lines of the answer is not looked at. A byte \<open>0xFF\<close> ends a line of the output, and ends the whole answer unless an end of line follows it.\<close>

theorem noipstyle_check_exact:
  "noipstyle_check (Some user) (Some std) \<longleftrightarrow>
    (let us = map del_line_back_space (file_lines user); js = answer_lines (visible std)
     in \<forall>i<length js. js ! i = (if i < length us then us ! i else []))"
proof -
  have "\<not> reader_eof (Reader_new (Some std))" by (simp add: reader_eof_def Reader_new_def ch_eof_def)
  from check_lines_agree [OF this, of "Reader_new (Some user)"] show ?thesis
    by (simp add: noipstyle_check_def Reader_new_def agree_iff Let_def)
qed

text \<open>Two files that differ in a byte \<open>0xFF\<close>.\<close>

theorem noipstyle_check_exact_witness:
  "noipstyle_check (Some (''1'' @ [ch_eof] @ ''2'')) (Some (''1'' @ [ch_lf] @ ''2'' @ [ch_lf] @ [ch_eof] @ ''3''))"
proof -
  let ?u = "''1'' @ [ch_eof] @ ''2''" and ?a = "''1'' @ [ch_lf] @ ''2'' @ [ch_lf] @ [ch_eof] @ ''3''"
  have v: "visible ?a = ''1'' @ [ch_lf] @ ''2'' @ [ch_lf]" by (simp add: ends_here_def isEofn_def ch_lf_def ch_cr_def ch_eof_def)
  have u: "file_lines ?u = [''1'', ''2'']" and a: "file_lines (''1'' @ [ch_lf] @ ''2'' @ [ch_lf]) = [''1'', ''2'']"
    by (simp_all add: file_lines.simps stops_def isEofn_def ch_lf_def ch_cr_def ch_eof_def)
  have "map del_line_back_space (file_lines ?u) = [''1'', ''2'']" "answer_lines (''1'' @ [ch_lf] @ ''2'' @ [ch_lf]) = [''1'', ''2'']"
    unfolding u answer_lines_def a by (simp_all add: del_line_back_space.simps is_back_def ch_lf_def ch_cr_def isEofn_def)
  then show ?thesis unfolding noipstyle_check_exact v Let_def by (simp add: less_Suc_eq)
qed

end
