(* ===== verification/JudgeReport.thy ===== *)
theory JudgeReport
  imports JudgeCheck JudgeMsg "HOL-Library.Char_ord" "HOL-Library.List_Lexorder" "HOL-Library.Product_Lexorder"
begin

text \<open>
  The way of a submission through the judge server (\<open>judgeWorkPool.hpp\<close>, \<open>judgeArgs.hpp\<close>, \<open>Problem.hpp\<close>, \<open>utils.hpp\<close> of
  \<open>libs/judgercpp/judge_server/src\<close>), the answers it gives, and what the web server does with them (\<open>server::init\<close> in
  \<open>include/server.h\<close>). Files are a map from paths, as they are written, to bytes. The program that compiles and runs submissions is not
  part of the repository's server: what it does with a command line is the argument \<open>run\<close>, the seven numbers it prints and the files
  after it. The directories are an argument too.
\<close>

section \<open>Names and paths\<close>

datatype support_lang = CPP | PY3 | UNSUPORT

definition string_to_lang :: "string \<Rightarrow> support_lang" where
  "string_to_lang lang =
     (if iequal lang ''c++'' \<or> iequal lang ''cpp'' then CPP
      else if iequal lang ''py'' \<or> iequal lang ''py3'' \<or> iequal lang ''python3'' \<or> iequal lang ''python'' then CPP
      else UNSUPORT)"

definition is_sport_language :: "string \<Rightarrow> bool" where
  "is_sport_language lang \<longleftrightarrow> string_to_lang lang \<noteq> UNSUPORT"

text \<open>The index of the last slash, or the first index; the name begins after it.\<close>

definition last_slash :: "string \<Rightarrow> nat" where
  "last_slash s = (if CHR ''/'' \<in> set s then length s - 1 - length (takeWhile (\<lambda>c. c \<noteq> CHR ''/'') (rev s)) else 0)"

definition getBaseName :: "string \<Rightarrow> string res" where
  "getBaseName s = (if s = [] then UB else Val (drop (last_slash s + 1) s))"

text \<open>\<open>operator/\<close> and \<open>stem\<close> of \<open>std::filesystem::path\<close>.\<close>

definition path_join :: "string \<Rightarrow> string \<Rightarrow> string" where
  "path_join a b =
     (if b \<noteq> [] \<and> hd b = CHR ''/'' then b
      else if a = [] \<or> last a = CHR ''/'' then a @ b
      else a @ ''/'' @ b)"

definition path_stem :: "string \<Rightarrow> string" where
  "path_stem s =
     (let n = (if CHR ''/'' \<in> set s then drop (last_slash s + 1) s else s) in
      if n = ''..'' \<or> CHR ''.'' \<notin> set (tl n) then n else rev (tl (dropWhile (\<lambda>c. c \<noteq> CHR ''.'') (rev n))))"

text \<open>\<open>operator<<\<close> of a path puts it into quotes.\<close>

definition quoted :: "string \<Rightarrow> string" where
  "quoted s = [CHR 0x22] @ concat (map (\<lambda>c. if c = CHR 0x22 \<or> c = CHR 0x5C then [CHR 0x5C, c] else [c]) s) @ [CHR 0x22]"

section \<open>Arguments\<close>

record judge_args =
  max_cpu_time :: nat
  max_real_time :: nat
  max_process_number :: nat
  max_memory :: nat
  max_stack :: nat
  max_output_size :: nat
  seccomp_rule_name :: string
  cwd :: string
  input_path :: string
  output_path :: string
  error_path :: string
  log_path :: string
  exe_path :: string
  ja_args :: "string list"
  ja_env :: "string list"
  gid :: int
  uid :: int

definition unlimit :: nat where "unlimit = 0"
definition memory_base :: nat where "memory_base = 16 * 1024 * 1024"

text \<open>The suffix \<open>__MB\<close> of numbers.\<close>

definition MB :: "nat \<Rightarrow> nat" where "MB a = a * 1024 * 1024 * 1024 mod 2 ^ 64"

definition judge_args_new ::
  "nat \<Rightarrow> nat \<Rightarrow> nat \<Rightarrow> nat \<Rightarrow> nat \<Rightarrow> nat \<Rightarrow> string \<Rightarrow> string \<Rightarrow> string \<Rightarrow> string \<Rightarrow> string \<Rightarrow> string \<Rightarrow> string \<Rightarrow> int \<Rightarrow> int \<Rightarrow> judge_args" where
  "judge_args_new cpu real procs mem stack outp rule dir inp out err log exe g u =
     \<lparr>max_cpu_time = cpu, max_real_time = real, max_process_number = procs,
      max_memory = (if mem = unlimit then unlimit else (mem + memory_base) mod 2 ^ 64),
      max_stack = stack, max_output_size = outp, seccomp_rule_name = rule, cwd = dir, input_path = inp, output_path = out,
      error_path = err, log_path = log, exe_path = exe, ja_args = [], ja_env = [], gid = g, uid = u\<rparr>"

definition compile_CPP_args :: "string \<Rightarrow> string \<Rightarrow> judge_args" where
  "compile_CPP_args dir code_name =
     (judge_args_new (10 * 1000) (90 * 1000) unlimit unlimit unlimit (512 * 2 ^ 30) ''null'' dir ''/dev/null''
       (path_join dir ''compile_output'') (path_join dir ''compile_error'') (path_join dir ''compile_log'') ''/usr/bin/g++'' 0 0)
     \<lparr>ja_args := [''-x'', ''c++'', ''-o'', path_stem code_name, code_name], ja_env := [''PATH=/usr/bin'']\<rparr>"

definition compile_PY3_args :: "string \<Rightarrow> string \<Rightarrow> judge_args" where
  "compile_PY3_args dir code_name =
     (judge_args_new (10 * 1000) (90 * 1000) unlimit unlimit unlimit (128 * 2 ^ 30) ''null'' dir ''/dev/null''
       (path_join dir ''compile_output'') (path_join dir ''compile_error'') (path_join dir ''compile_log'') ''/usr/bin/python3'' 0 0)
     \<lparr>ja_args := [''-m'', ''py_compile'', path_join dir code_name], ja_env := [''PATH=/usr/bin'']\<rparr>"

definition judge_PY3_args :: "string \<Rightarrow> string \<Rightarrow> string \<Rightarrow> string \<Rightarrow> nat \<Rightarrow> nat \<Rightarrow> judge_args" where
  "judge_PY3_args dir code_name in_file out_file time mem =
     (judge_args_new time (10 * time mod 2 ^ 64) 10 (mem * 2 ^ 30 mod 2 ^ 64) (MB 512) (MB 512) ''null'' dir in_file
       (path_join dir out_file) (path_join dir ''judge_error'') (path_join dir ''judge_log'') ''/usr/bin/python3'' 0 0)
     \<lparr>ja_args := [path_join dir code_name], ja_env := [''PATH=/usr/bin'']\<rparr>"

definition judge_CPP_args :: "string \<Rightarrow> string \<Rightarrow> string \<Rightarrow> string \<Rightarrow> nat \<Rightarrow> nat \<Rightarrow> judge_args" where
  "judge_CPP_args dir code_name in_file out_file time mem =
     (judge_args_new time (10 * time mod 2 ^ 64) 10 (mem * 2 ^ 30 mod 2 ^ 64) (MB 512) (MB 512) ''null'' dir in_file
       (path_join dir out_file) (path_join dir ''judge_error'') (path_join dir ''judge_log'') (path_stem code_name) 0 0)
     \<lparr>ja_env := [''PATH=/usr/bin'']\<rparr>"

text \<open>There is no \<open>return\<close> for a language that is not supported.\<close>

definition getJudgeArgs :: "support_lang \<Rightarrow> string \<Rightarrow> string \<Rightarrow> string \<Rightarrow> string \<Rightarrow> nat \<Rightarrow> nat \<Rightarrow> judge_args res" where
  "getJudgeArgs lang dir code_name in_file out_file time mem =
     (case lang of
        PY3 \<Rightarrow> Val (judge_PY3_args dir code_name in_file out_file time mem)
      | CPP \<Rightarrow> Val (judge_CPP_args dir code_name in_file out_file time mem)
      | UNSUPORT \<Rightarrow> UB)"

text \<open>The command line.\<close>

definition judge_args_str :: "judge_args \<Rightarrow> string" where
  "judge_args_str a =
     '' --max_cpu_time='' @ decimal (max_cpu_time a) @ '' --max_real_time='' @ decimal (max_real_time a) @
     '' --max_process_number='' @ decimal (max_process_number a) @ '' --max_memory='' @ decimal (max_memory a) @
     '' --max_stack='' @ decimal (max_stack a) @ '' --max_output_size='' @ decimal (max_output_size a) @
     '' --seccomp_rule_name='' @ seccomp_rule_name a @ '' --cwd='' @ quoted (cwd a) @ '' --input_path='' @ quoted (input_path a) @
     '' --output_path='' @ quoted (output_path a) @ '' --error_path='' @ quoted (error_path a) @ '' --log_path='' @ quoted (log_path a) @
     '' --exe_path='' @ quoted (exe_path a) @ '' '' @
     concat (map (\<lambda>e. ''--args='' @ [CHR 0x22] @ e @ [CHR 0x22] @ '' '') (ja_args a)) @
     concat (map (\<lambda>e. ''--env='' @ [CHR 0x22] @ e @ [CHR 0x22] @ '' '') (ja_env a)) @
     ''--gid='' @ int_to_string (gid a) @ '' --uid='' @ int_to_string (uid a) @ '' ''"

section \<open>Problems\<close>

text \<open>\<open>[A-Za-z_]+(\d+)\.in\<close> and \<open>[A-Za-z_]+(\d+)\.(out|ans)\<close>: the digits of a name that matches.\<close>

definition name_letter :: "char \<Rightarrow> bool" where
  "name_letter c \<longleftrightarrow> 65 \<le> ccode c \<and> ccode c \<le> 90 \<or> 97 \<le> ccode c \<and> ccode c \<le> 122 \<or> c = CHR ''_''"

definition data_regex :: "string list \<Rightarrow> string \<Rightarrow> string option" where
  "data_regex exts name =
     (let l = takeWhile name_letter name; r = dropWhile name_letter name;
          d = takeWhile is_digit r; e = dropWhile is_digit r
      in if l \<noteq> [] \<and> d \<noteq> [] \<and> e \<in> set exts then Some d else None)"

definition stoi :: "string \<Rightarrow> nat res" where
  "stoi d = (if digits_value 0 d < 2 ^ 31 then Val (digits_value 0 d) else Throw ''stoi'')"

record problem_data =
  input_data :: "(nat \<times> string) list"
  output_data :: "(nat \<times> string) list"

fun scan_data :: "string \<Rightarrow> string list \<Rightarrow> problem_data \<Rightarrow> problem_data res" where
  "scan_data data_path [] p = Val p"
| "scan_data data_path (name # names) p =
     (case data_regex [''.in''] name of
        Some d \<Rightarrow> rbind (stoi d) (\<lambda>n. scan_data data_path names (p\<lparr>input_data := input_data p @ [(n, path_join data_path name)]\<rparr>))
      | None \<Rightarrow>
          (case data_regex [''.out'', ''.ans''] name of
             Some d \<Rightarrow> rbind (stoi d) (\<lambda>n. scan_data data_path names (p\<lparr>output_data := output_data p @ [(n, path_join data_path name)]\<rparr>))
           | None \<Rightarrow> scan_data data_path names p))"

definition Problem_load :: "(string \<Rightarrow> string list option) \<Rightarrow> string \<Rightarrow> problem_data res" where
  "Problem_load dir p_path =
     (case dir p_path of
        None \<Rightarrow> Throw (p_path @ '' not found'')
      | Some _ \<Rightarrow>
          (case dir (path_join p_path ''data'') of
             None \<Rightarrow> Throw (path_join p_path ''data'' @ '' not found'')
           | Some names \<Rightarrow>
               rbind (scan_data (path_join p_path ''data'') names \<lparr>input_data = [], output_data = []\<rparr>) (\<lambda>p.
                 if length (input_data p) \<noteq> length (output_data p) then Throw (p_path @ '' does not match'')
                 else Val (p\<lparr>input_data := sort (input_data p), output_data := sort (output_data p)\<rparr>))))"

section \<open>Judging\<close>

type_synonym files = "string \<Rightarrow> string option"
type_synonym runner = "string \<Rightarrow> files \<Rightarrow> point_result \<times> files"

definition judger_bin :: string where "judger_bin = ''/usr/bin/judger_core''"
definition BASE_PROBLEM_PATH :: string where "BASE_PROBLEM_PATH = ''/home/rainboy/mycode/RainboyOJ/problems/problems''"
definition BASE_WORK_PATH :: string where "BASE_WORK_PATH = ''/home/rainboy/tmp''"

definition judger_run :: "runner \<Rightarrow> judge_args \<Rightarrow> files \<Rightarrow> point_result \<times> files" where
  "judger_run run args fs = run (judger_bin @ judge_args_str args) fs"

definition WRONG_ANSWER :: "32 word" where "WRONG_ANSWER = -1"
definition ACCEPT :: "32 word" where "ACCEPT = 0"
definition MEMORY_LIMIT_EXCEEDED :: "32 word" where "MEMORY_LIMIT_EXCEEDED = 3"

text \<open>\<open>judgeWorkPool::Judge\<close>. The memory used is converted to \<open>std::size_t\<close>.\<close>

definition Judge :: "runner \<Rightarrow> judge_args \<Rightarrow> string \<Rightarrow> files \<Rightarrow> point_result \<times> files" where
  "Judge run args out_file fs =
     (let (res, fs) = judger_run run args fs in
      if r_error res \<noteq> 0 \<or> r_result res \<noteq> 0 then (res, fs)
      else if max_memory args \<noteq> unlimit \<and> unat (memory res) \<ge> usub (max_memory args) memory_base
      then (res\<lparr>r_result := MEMORY_LIMIT_EXCEEDED\<rparr>, fs)
      else if \<not> noipstyle_check (fs (output_path args)) (fs out_file) then (res\<lparr>r_result := WRONG_ANSWER\<rparr>, fs)
      else (res, fs))"

definition SUCCESS :: "32 word" where "SUCCESS = 0"
definition INVALID_CONFIG :: "32 word" where "INVALID_CONFIG = -1"
definition COMPILE_FAIL :: "32 word" where "COMPILE_FAIL = -12"

text \<open>A submission in the queue; its stage is always \<open>PREPARE\<close>, and its problem path is always empty.\<close>

record queue_node =
  q_fd :: int
  q_key :: string
  q_code :: string
  q_language :: string
  q_pid :: string
  q_timeLimit :: "32 word"
  q_memoryLimit :: "32 word"

definition enque_node :: "judge_send \<Rightarrow> int \<Rightarrow> queue_node" where
  "enque_node msj fd =
     \<lparr>q_fd = fd, q_key = s_key msj, q_code = s_code msj, q_language = s_language msj, q_pid = s_pid msj,
      q_timeLimit = timeLimit msj, q_memoryLimit = memoryLimit msj\<rparr>"

text \<open>An \<open>int\<close> given as a \<open>std::size_t\<close>.\<close>

definition size_of_int :: "32 word \<Rightarrow> nat" where
  "size_of_int w = nat (sint w mod 2 ^ 64)"

definition test_message :: "string \<Rightarrow> nat \<Rightarrow> nat \<Rightarrow> string \<Rightarrow> string \<Rightarrow> point_result \<Rightarrow> judge_result" where
  "test_message key i n in_name out_name res =
     push_back_result res (MessageResultJudge key SUCCESS (decimal i @ '','' @ decimal n @ '','' @ in_name @ '','' @ out_name))"

text \<open>The loop over the tests: the messages that are sent, the results, and the files.\<close>

function stage1_tests ::
  "runner \<Rightarrow> queue_node \<Rightarrow> string \<Rightarrow> problem_data \<Rightarrow> nat \<Rightarrow> files \<Rightarrow> (judge_result list \<times> point_result list \<times> files) res" where
  "stage1_tests run jn work_path p i fs =
     (if i < length (input_data p) then
        let in_file = snd (input_data p ! i);
            out_file = snd (output_data p ! i);
            user_out_file = decimal i @ ''.out''
        in rbind (getJudgeArgs (string_to_lang (q_language jn)) work_path ''main.code'' in_file user_out_file
                (size_of_int (q_timeLimit jn)) (size_of_int (q_memoryLimit jn))) (\<lambda>judgeArgs.
             let (res, fs) = Judge run judgeArgs user_out_file fs in
             rbind (getBaseName in_file) (\<lambda>in_name. rbind (getBaseName out_file) (\<lambda>out_name.
               rbind (stage1_tests run jn work_path p (i + 1) fs) (\<lambda>(msgs, ress, fs).
                 Val (test_message (q_key jn) i (length (input_data p)) in_name out_name res # msgs, res # ress, fs)))))
      else Val ([], [], fs))"
  by pat_completeness auto
termination by (relation "measure (\<lambda>(_, _, _, p, i, _). length (input_data p) - i)") auto

declare stage1_tests.simps [simp del]

definition read_file :: "files \<Rightarrow> string \<Rightarrow> string" where
  "read_file fs path = (case fs path of None \<Rightarrow> [] | Some s \<Rightarrow> s)"

text \<open>The messages \<open>work_stage1\<close> writes to the socket of the submission. An exception ends it and is caught. The directory \<open>work_path\<close>
is made and, in the end, removed; its name is the argument \<open>uuid\<close>.\<close>

definition work_stage1 ::
  "(string \<Rightarrow> string list option) \<Rightarrow> runner \<Rightarrow> string \<Rightarrow> queue_node \<Rightarrow> files \<Rightarrow> judge_result list res" where
  "work_stage1 dir run uuid jn fs =
     (if is_sport_language (q_language jn) = False
      then Val [MessageResultJudge (q_key jn) INVALID_CONFIG (''unsupport language : '' @ q_language jn)]
      else
        (case Problem_load dir (path_join BASE_PROBLEM_PATH (q_pid jn)) of
           Throw _ \<Rightarrow> Val []
         | UB \<Rightarrow> UB
         | Val p \<Rightarrow>
             let work_path = path_join BASE_WORK_PATH uuid;
                 fs = fs(path_join work_path ''main.code'' \<mapsto> q_code jn);
                 compile_args = compile_CPP_args work_path ''main.code'';
                 (res, fs) = judger_run run compile_args fs
             in if r_result res \<noteq> 0 \<or> r_error res \<noteq> 0 \<or> exit_code res \<noteq> 0 then
                  let msg = read_file fs (error_path compile_args);
                      msg = (if length msg = 0 then read_file fs (log_path compile_args) else msg)
                  in Val [MessageResultJudge (q_key jn) COMPILE_FAIL msg]
                else
                  rbind (stage1_tests run jn work_path p 0 fs) (\<lambda>(msgs, ress, fs).
                    Val (MessageResultJudge (q_key jn) SUCCESS (''allSize:'' @ decimal (length (input_data p))) # msgs @
                         [fold push_back_result ress (MessageResultJudge (q_key jn) SUCCESS ''ALL'')]))))"

section \<open>The web server\<close>

text \<open>\<open>result_to_mini_result\<close>.\<close>

definition mini_char :: "32 word \<Rightarrow> char" where
  "mini_char r =
     (if r = -1 then CHR ''W'' else if r = 0 then CHR ''A'' else if r = 1 \<or> r = 2 then CHR ''T'' else if r = 4 then CHR ''R''
      else if r = 3 then CHR ''M'' else if r = 5 then CHR ''S'' else CHR ''X'')"

datatype report =
    Update_solution (ev_sid: string) (ev_final: int) (ev_cpu: nat) (ev_memory: nat) (ev_score: int) (ev_mini: string) (ev_full: string)
  | JSM_create (ev_key: nat) (ev_point: int) (ev_all: int) (ev_code: int) (ev_json: string)

record summary =
  sum_cpu :: nat
  sum_real :: nat
  sum_memory :: nat
  final_result :: "32 word"
  right_size :: nat
  mini_result :: string

definition summary_init :: summary where
  "summary_init = \<lparr>sum_cpu = 0, sum_real = 0, sum_memory = 0, final_result = 0, right_size = 0, mini_result = []\<rparr>"

definition add_size :: "nat \<Rightarrow> int \<Rightarrow> nat" where
  "add_size a v = nat ((int a + v) mod 2 ^ 64)"

definition summary_step :: "point_result \<Rightarrow> summary \<Rightarrow> summary" where
  "summary_step e s =
     \<lparr>sum_cpu = add_size (sum_cpu s) (sint (cpu_time e)),
      sum_real = add_size (sum_real s) (sint (real_time e)),
      sum_memory = add_size (sum_memory s) (sint (memory e)),
      final_result = (if final_result s = 0 \<and> r_result e \<noteq> 0 then r_result e else final_result s),
      right_size = (if r_result e = ACCEPT then right_size s + 1 else right_size s),
      mini_result = mini_result s @ [mini_char (r_result e)]\<rparr>"

text \<open>\<open>from_chars\<close> into a \<open>std::size_t\<close> that was zero: it keeps its value when there are no digits, or too many.\<close>

definition sid_number :: "string \<Rightarrow> nat" where
  "sid_number sid = (if digits_value 0 sid < 2 ^ 64 then digits_value 0 sid else 0)"

text \<open>The numbers of the test and of all tests at the front of the text; an overflow of \<open>int\<close> is \<open>UB\<close>.\<close>

fun scan_point :: "nat \<Rightarrow> nat \<Rightarrow> nat \<Rightarrow> string \<Rightarrow> (nat \<times> nat) res" where
  "scan_point state now_point total_size [] = Val (now_point, total_size)"
| "scan_point state now_point total_size (c # cs) =
     (if is_digit c then
        if state = 1 then
          if now_point * 10 + ccode c < 2 ^ 31 then scan_point state (now_point * 10 + ccode c - 48) total_size cs else UB
        else if state = 2 then
          if total_size * 10 + ccode c < 2 ^ 31 then scan_point state now_point (total_size * 10 + ccode c - 48) cs else UB
        else scan_point state now_point total_size cs
      else if state = 1 then scan_point 2 now_point total_size cs
      else Val (now_point, total_size))"

definition handle_result :: "judge_result \<Rightarrow> report list res" where
  "handle_result m =
     (let sid = j_key m; int_sid = sid_number sid; msg = j_msg m in
      if j_code m \<noteq> SUCCESS \<or> msg = [] then Val []
      else if hd msg = CHR ''a'' then Val []
      else if hd msg = CHR ''A'' then
        let full = dump_to_json m;
            s = fold summary_step (Results m) summary_init;
            total_size = length (Results m)
        in if 2 ^ 31 \<le> 100 * right_size s then UB
           else let score = (if total_size = 0 then 0 else 100 * right_size s div total_size) in
             Val [Update_solution sid (sint (final_result s)) (sum_cpu s) (sum_memory s) (int score) (mini_result s) full,
                  JSM_create int_sid (-1) (int total_size) (sint (final_result s)) full]
      else if is_digit (hd msg) then
        rbind (scan_point 1 0 0 msg) (\<lambda>(now_point, total_size).
          Val [JSM_create int_sid (int now_point) (int total_size) (sint (j_code m)) (dump_to_json m)])
      else Val [])"

fun handle_results :: "judge_result list \<Rightarrow> report list res" where
  "handle_results [] = Val []"
| "handle_results (m # ms) = rbind (handle_result m) (\<lambda>r. rbind (handle_results ms) (\<lambda>rs. Val (r @ rs)))"

section \<open>The answers to a submission\<close>

text \<open>The results of the tests from \<open>i\<close> on, each judged with the files the one before left.\<close>

fun judge_seq :: "runner \<Rightarrow> (nat \<Rightarrow> judge_args) \<Rightarrow> nat \<Rightarrow> nat \<Rightarrow> files \<Rightarrow> point_result list \<times> files" where
  "judge_seq run args 0 i fs = ([], fs)"
| "judge_seq run args (Suc k) i fs =
     (let (res, fs) = Judge run (args i) (decimal i @ ''.out'') fs; (ress, fs) = judge_seq run args k (i + 1) fs in (res # ress, fs))"

definition test_args :: "queue_node \<Rightarrow> string \<Rightarrow> problem_data \<Rightarrow> nat \<Rightarrow> judge_args" where
  "test_args jn work_path p i =
     judge_CPP_args work_path ''main.code'' (snd (input_data p ! i)) (decimal i @ ''.out'')
       (size_of_int (q_timeLimit jn)) (size_of_int (q_memoryLimit jn))"

definition base_name :: "string \<Rightarrow> string" where
  "base_name s = drop (last_slash s + 1) s"

definition test_messages :: "string \<Rightarrow> problem_data \<Rightarrow> nat \<Rightarrow> point_result list \<Rightarrow> judge_result list" where
  "test_messages key p i ress =
     map (\<lambda>(j, res). test_message key j (length (input_data p)) (base_name (snd (input_data p ! j))) (base_name (snd (output_data p ! j))) res)
       (zip [i..<i + length ress] ress)"

lemma supported_CPP: "is_sport_language lang \<Longrightarrow> string_to_lang lang = CPP"
  by (auto simp: is_sport_language_def string_to_lang_def split: if_splits)

definition named_data :: "problem_data \<Rightarrow> bool" where
  "named_data p \<longleftrightarrow> length (output_data p) = length (input_data p) \<and> [] \<notin> snd ` set (input_data p @ output_data p)"

lemma length_judge_seq [simp]: "length (fst (judge_seq run args k i fs)) = k"
  by (induction k arbitrary: i fs) (simp_all add: Let_def split_beta)

lemma stage1_tests_eq:
  assumes "is_sport_language (q_language jn)" "named_data p" "i + k = length (input_data p)"
  shows "stage1_tests run jn work_path p i fs =
    (let (ress, fs') = judge_seq run (test_args jn work_path p) k i fs in Val (test_messages (q_key jn) p i ress, ress, fs'))"
  using assms(3)
proof (induction k arbitrary: i fs)
  case 0
  then show ?case by (subst stage1_tests.simps) (simp add: test_messages_def)
next
  case (Suc k)
  have i: "i < length (input_data p)" using Suc.prems by simp
  have "input_data p ! i \<in> set (input_data p)" "output_data p ! i \<in> set (output_data p)"
    using i assms(2) by (auto simp: named_data_def)
  then have ne: "snd (input_data p ! i) \<noteq> []" "snd (output_data p ! i) \<noteq> []"
    using assms(2) by (force simp: named_data_def)+
  obtain res fs1 where j: "Judge run (test_args jn work_path p i) (decimal i @ ''.out'') fs = (res, fs1)" by fastforce
  obtain ress fs2 where js: "judge_seq run (test_args jn work_path p) k (i + 1) fs1 = (ress, fs2)" by fastforce
  have m: "test_messages (q_key jn) p i (res # ress) =
      test_message (q_key jn) i (length (input_data p)) (base_name (snd (input_data p ! i))) (base_name (snd (output_data p ! i))) res #
      test_messages (q_key jn) p (i + 1) ress"
  proof -
    have "[i..<i + length (res # ress)] = i # [i + 1..<i + 1 + length ress]" by (simp add: upt_conv_Cons del: upt_Suc)
    then show ?thesis by (simp only: test_messages_def zip_Cons_Cons list.map prod.case)
  qed
  have "stage1_tests run jn work_path p (i + 1) fs1 = Val (test_messages (q_key jn) p (i + 1) ress, ress, fs2)"
    using Suc.IH [of "i + 1" fs1] Suc.prems js by simp
  then show ?case using i ne j js m
    by (subst stage1_tests.simps)
      (simp add: getJudgeArgs_def supported_CPP [OF assms(1)] getBaseName_def test_args_def [symmetric] base_name_def Let_def)
qed

lemma scan_data_named:
  assumes "scan_data data_path names p = Val p'" "[] \<notin> snd ` set (input_data p @ output_data p)" "data_path \<noteq> []"
  shows "[] \<notin> snd ` set (input_data p' @ output_data p')"
  using assms
proof (induction data_path names p rule: scan_data.induct)
  case (2 data_path name names p)
  have "path_join data_path name \<noteq> []" using "2.prems"(3) by (auto simp: path_join_def)
  then show ?case using "2.IH" "2.prems" by (auto simp: rbind_eq_Val split: option.splits)
qed simp

lemma Problem_load_named:
  assumes "Problem_load dir path = Val p"
  shows "named_data p"
proof -
  have "path_join path ''data'' \<noteq> []" by (auto simp: path_join_def)
  then show ?thesis using assms scan_data_named
    by (fastforce simp: Problem_load_def named_data_def rbind_eq_Val split: option.splits if_splits)
qed

lemma work_stage1_eq:
  assumes "is_sport_language (q_language jn)" "Problem_load dir (path_join BASE_PROBLEM_PATH (q_pid jn)) = Val p"
    "judger_run run (compile_CPP_args (path_join BASE_WORK_PATH uuid) ''main.code'')
       (fs(path_join (path_join BASE_WORK_PATH uuid) ''main.code'' \<mapsto> q_code jn)) = (c, fs1)"
    "r_result c = 0" "r_error c = 0" "exit_code c = 0"
  shows "work_stage1 dir run uuid jn fs =
    (let ress = fst (judge_seq run (test_args jn (path_join BASE_WORK_PATH uuid) p) (length (input_data p)) 0 fs1) in
     Val (MessageResultJudge (q_key jn) SUCCESS (''allSize:'' @ decimal (length (input_data p))) #
       test_messages (q_key jn) p 0 ress @ [fold push_back_result ress (MessageResultJudge (q_key jn) SUCCESS ''ALL'')]))"
  using assms stage1_tests_eq [OF assms(1) Problem_load_named [OF assms(2)], of 0 "length (input_data p)"]
  by (simp add: work_stage1_def split_beta Let_def)

section \<open>What the web server records\<close>

lemma fold_push_back: "fold push_back_result rs m = m\<lparr>Results := Results m @ rs\<rparr>"
  by (induction rs arbitrary: m) (simp_all add: push_back_result_def)

lemma digits_value_ge: "v \<le> digits_value v d"
proof (induction d arbitrary: v)
  case (Cons c d)
  show ?case
  proof (cases "48 \<le> ccode c \<and> ccode c \<le> 57")
    case True
    have "v \<le> 10 * v + (ccode c - 48)" by simp
    also have "\<dots> \<le> digits_value (10 * v + (ccode c - 48)) d" by (rule Cons)
    finally show ?thesis using True by simp
  qed auto
qed simp

lemma scan_digit:
  assumes "is_digit c" "digits_value v (c # d) < 2 ^ 31 - 48"
  shows "digits_value v (c # d) = digits_value (v * 10 + ccode c - 48) d" "v * 10 + ccode c < 2 ^ 31"
proof -
  have c: "v * 10 + ccode c - 48 = 10 * v + (ccode c - 48)" using assms(1) by (auto simp: is_digit_def)
  show e: "digits_value v (c # d) = digits_value (v * 10 + ccode c - 48) d"
    unfolding c using assms(1) by (simp add: is_digit_def)
  have "v * 10 + ccode c - 48 < 2 ^ 31 - 48"
    using order.strict_trans1 [OF digits_value_ge assms(2) [unfolded e]] .
  then show "v * 10 + ccode c < 2 ^ 31" by simp
qed

lemma scan_first:
  assumes "\<forall>c\<in>set d. is_digit c" "digits_value v d < 2 ^ 31 - 48"
  shows "scan_point 1 v t (d @ s) = scan_point 1 (digits_value v d) t s"
  using assms
proof (induction d arbitrary: v)
  case (Cons c d)
  then have c: "is_digit c" by simp
  note sd = scan_digit [OF c Cons.prems(2)]
  have "scan_point 1 v t ((c # d) @ s) = scan_point 1 (v * 10 + ccode c - 48) t (d @ s)"
    using c sd(2) by (simp only: append_Cons scan_point.simps if_True simp_thms)
  then show ?case using Cons.IH [of "v * 10 + ccode c - 48"] Cons.prems unfolding sd(1) by simp
qed simp

lemma scan_second:
  assumes "\<forall>c\<in>set d. is_digit c" "digits_value v d < 2 ^ 31 - 48"
  shows "scan_point 2 t v (d @ s) = scan_point 2 t (digits_value v d) s"
  using assms
proof (induction d arbitrary: v)
  case (Cons c d)
  then have c: "is_digit c" by simp
  note sd = scan_digit [OF c Cons.prems(2)]
  have "scan_point 2 t v ((c # d) @ s) = scan_point 2 t (v * 10 + ccode c - 48) (d @ s)"
    using c sd(2) by simp
  then show ?case using Cons.IH [of "v * 10 + ccode c - 48"] Cons.prems unfolding sd(1) by simp
qed simp

lemma decimal_is_digit: "\<forall>c\<in>set (decimal n). is_digit c"
  using decimal_digits by (force simp: is_digit_def)

lemma hd_decimal: "is_digit (hd (decimal n))"
  using decimal_is_digit [of n] decimal_ne(1) [of n] hd_in_set by blast

lemma not_digit: "\<not> is_digit (CHR '','')" "\<not> is_digit (CHR ''a'')" "\<not> is_digit (CHR ''A'')"
  by (simp_all add: is_digit_def ccode_def)

lemma digits_value_0 [simp]: "digits_value 0 (decimal n) = n"
  using digits_value_decimal [of 0 n "[]"] by simp

lemma scan_message:
  assumes "i < 2 ^ 31 - 48" "n < 2 ^ 31 - 48"
  shows "scan_point 1 0 0 (decimal i @ '','' @ decimal n @ '','' @ s) = Val (i, n)"
  using scan_first [OF decimal_is_digit, of 0 i 0] scan_second [OF decimal_is_digit, of 0 n i] assms not_digit(1)
  by simp

lemma handle_test:
  assumes "i < 2 ^ 31 - 48" "n < 2 ^ 31 - 48"
  shows "handle_result (test_message key i n a b res) = Val [JSM_create (sid_number key) (int i) (int n) 0 (''['' @ json_point res @ '']'')]"
proof -
  have h: "hd (decimal i @ x) = hd (decimal i)" for x by (cases "decimal i") auto
  have "hd (decimal i) \<noteq> CHR ''a''" "hd (decimal i) \<noteq> CHR ''A''" using hd_decimal [of i] not_digit by metis+
  then show ?thesis using scan_message [OF assms, of "a @ '','' @ b"] hd_decimal [of i]
    by (simp add: handle_result_def test_message_def push_back_result_def MessageResultJudge_def dump_to_json_def SUCCESS_def h)
qed

text \<open>The summary in one go.\<close>

definition first_bad :: "point_result list \<Rightarrow> 32 word" where
  "first_bad rs = (case filter (\<lambda>r. r_result r \<noteq> 0) rs of [] \<Rightarrow> 0 | r # _ \<Rightarrow> r_result r)"

definition accepted :: "point_result list \<Rightarrow> nat" where
  "accepted rs = length (filter (\<lambda>r. r_result r = ACCEPT) rs)"

definition size_sum :: "int list \<Rightarrow> nat" where
  "size_sum vs = nat (sum_list vs mod 2 ^ 64)"

lemma fold_summary:
  "fold summary_step rs s =
    \<lparr>sum_cpu = (if rs = [] then sum_cpu s else nat ((int (sum_cpu s) + sum_list (map (\<lambda>r. sint (cpu_time r)) rs)) mod 2 ^ 64)),
     sum_real = (if rs = [] then sum_real s else nat ((int (sum_real s) + sum_list (map (\<lambda>r. sint (real_time r)) rs)) mod 2 ^ 64)),
     sum_memory = (if rs = [] then sum_memory s else nat ((int (sum_memory s) + sum_list (map (\<lambda>r. sint (memory r)) rs)) mod 2 ^ 64)),
     final_result = (if final_result s = 0 then first_bad rs else final_result s),
     right_size = right_size s + accepted rs,
     mini_result = mini_result s @ map (\<lambda>r. mini_char (r_result r)) rs\<rparr>"
proof (induction rs arbitrary: s)
  case (Cons r rs)
  have m: "nat ((int (nat (x mod 2 ^ 64)) + y) mod 2 ^ 64) = nat ((x + y) mod 2 ^ 64)" for x y :: int
    by (simp add: mod_add_left_eq)
  show ?case
    unfolding fold_Cons comp_def Cons.IH
    by (cases "rs = []") (auto simp: summary_step_def add_size_def m first_bad_def accepted_def ACCEPT_def add.assoc mod_add_left_eq simp del: power_numeral)
qed (simp add: first_bad_def accepted_def)

lemma handle_all:
  assumes "100 * accepted rs < 2 ^ 31"
  shows "handle_result (fold push_back_result rs (MessageResultJudge key SUCCESS ''ALL'')) =
    (let full = ''['' @ json_points rs @ '']'' in
     Val [Update_solution key (sint (first_bad rs)) (size_sum (map (\<lambda>r. sint (cpu_time r)) rs)) (size_sum (map (\<lambda>r. sint (memory r)) rs))
            (if rs = [] then 0 else int (100 * accepted rs div length rs)) (map (\<lambda>r. mini_char (r_result r)) rs) full,
          JSM_create (sid_number key) (-1) (int (length rs)) (sint (first_bad rs)) full])"
  using assms
  by (auto simp: fold_push_back handle_result_def MessageResultJudge_def SUCCESS_def dump_to_json_def Let_def fold_summary summary_init_def size_sum_def)

lemma handle_results_append:
  "handle_results (ms @ ms') = rbind (handle_results ms) (\<lambda>r. rbind (handle_results ms') (\<lambda>r'. Val (r @ r')))"
  by (induction ms) (cases "handle_results ms'"; simp add: rbind_assoc)+

text \<open>What is recorded for the single tests and in the end.\<close>

definition test_reports :: "string \<Rightarrow> nat \<Rightarrow> nat \<Rightarrow> point_result list \<Rightarrow> report list" where
  "test_reports key n i ress =
     map (\<lambda>(j, res). JSM_create (sid_number key) (int j) (int n) 0 (''['' @ json_point res @ '']'')) (zip [i..<i + length ress] ress)"

definition final_reports :: "string \<Rightarrow> point_result list \<Rightarrow> report list" where
  "final_reports key rs =
     (let full = ''['' @ json_points rs @ '']'' in
      [Update_solution key (sint (first_bad rs)) (size_sum (map (\<lambda>r. sint (cpu_time r)) rs)) (size_sum (map (\<lambda>r. sint (memory r)) rs))
         (if rs = [] then 0 else int (100 * accepted rs div length rs)) (map (\<lambda>r. mini_char (r_result r)) rs) full,
       JSM_create (sid_number key) (-1) (int (length rs)) (sint (first_bad rs)) full])"

lemma handle_results_map:
  assumes "\<And>x. x \<in> set xs \<Longrightarrow> handle_result (f x) = Val [g x]"
  shows "handle_results (map f xs) = Val (map g xs)"
  using assms by (induction xs) auto

lemma handle_tests:
  assumes "length (input_data p) < 2 ^ 31 - 48" "i + length ress \<le> length (input_data p)"
  shows "handle_results (test_messages key p i ress) = Val (test_reports key (length (input_data p)) i ress)"
  unfolding test_messages_def test_reports_def
proof (rule handle_results_map)
  fix x assume "x \<in> set (zip [i..<i + length ress] ress)"
  moreover obtain j r where j: "x = (j, r)" by fastforce
  ultimately have "j \<in> set [i..<i + length ress]" using set_zip_leftD by fast
  with j have x: "x = (j, r)" "j < i + length ress" by simp_all
  show "handle_result (case x of (j, res) \<Rightarrow> test_message key j (length (input_data p)) (base_name (snd (input_data p ! j)))
        (base_name (snd (output_data p ! j))) res) =
      Val [case x of (j, res) \<Rightarrow> JSM_create (sid_number key) (int j) (int (length (input_data p))) 0 (''['' @ json_point res @ '']'')]"
    using x(2) assms by (simp add: x(1) handle_test)
qed

lemma accepted_le: "accepted rs \<le> length rs"
  by (simp add: accepted_def)

lemma submission_eq:
  assumes "is_sport_language (q_language jn)" "Problem_load dir (path_join BASE_PROBLEM_PATH (q_pid jn)) = Val p"
    "judger_run run (compile_CPP_args (path_join BASE_WORK_PATH uuid) ''main.code'')
       (fs(path_join (path_join BASE_WORK_PATH uuid) ''main.code'' \<mapsto> q_code jn)) = (c, fs1)"
    "r_result c = 0" "r_error c = 0" "exit_code c = 0" "100 * length (input_data p) < 2 ^ 31"
  shows "rbind (work_stage1 dir run uuid jn fs) handle_results =
    (let ress = fst (judge_seq run (test_args jn (path_join BASE_WORK_PATH uuid) p) (length (input_data p)) 0 fs1) in
     Val (test_reports (q_key jn) (length ress) 0 ress @ final_reports (q_key jn) ress))"
proof -
  let ?ress = "fst (judge_seq run (test_args jn (path_join BASE_WORK_PATH uuid) p) (length (input_data p)) 0 fs1)"
  have l: "length ?ress = length (input_data p)" by simp
  have first: "handle_result (MessageResultJudge key SUCCESS (''allSize:'' @ s)) = Val []" for key s
    by (simp add: handle_result_def MessageResultJudge_def)
  have "handle_results (test_messages (q_key jn) p 0 ?ress) = Val (test_reports (q_key jn) (length ?ress) 0 ?ress)"
    using handle_tests [of p 0 ?ress "q_key jn"] assms(7) l by simp
  moreover have "handle_result (fold push_back_result ?ress (MessageResultJudge (q_key jn) SUCCESS ''ALL'')) =
      Val (final_reports (q_key jn) ?ress)"
    using handle_all [of ?ress "q_key jn"] accepted_le [of ?ress] assms(7) l by (simp add: final_reports_def Let_def)
  ultimately show ?thesis
    unfolding work_stage1_eq [OF assms(1-6)] Let_def by (simp add: first [simplified] handle_results_append)
qed

text \<open>A problem with one test, and a submission to it.\<close>

lemma sample_load:
  "Problem_load (\<lambda>_. Some [''p1.in'', ''p1.out'']) (path_join BASE_PROBLEM_PATH ''1'') =
     (let d = path_join (path_join BASE_PROBLEM_PATH ''1'') ''data''
      in Val \<lparr>input_data = [(1, path_join d ''p1.in'')], output_data = [(1, path_join d ''p1.out'')]\<rparr>)"
  by (simp add: Problem_load_def data_regex_def name_letter_def is_digit_def ccode_def stoi_def Let_def)

lemma sample_language: "is_sport_language ''cpp''"
  by (simp add: is_sport_language_def string_to_lang_def iequal_lower)

text \<open>C31: A submission in a language the server takes, to a problem that is there, whose program compiles, is answered for every test and then as a
whole; and the web server, which reads these answers as text, records for each test its number, the number of tests and its result, and
in the end the result of the first test that failed, the sums of times and memory, the percentage of accepted tests and a letter for each.\<close>

theorem submission_report:
  assumes "is_sport_language (q_language jn)" "Problem_load dir (path_join BASE_PROBLEM_PATH (q_pid jn)) = Val p"
    "judger_run run (compile_CPP_args (path_join BASE_WORK_PATH uuid) ''main.code'')
       (fs(path_join (path_join BASE_WORK_PATH uuid) ''main.code'' \<mapsto> q_code jn)) = (c, fs1)"
    "r_result c = 0" "r_error c = 0" "exit_code c = 0" "100 * length (input_data p) < 2 ^ 31"
  shows "rbind (work_stage1 dir run uuid jn fs) handle_results =
    (let ress = fst (judge_seq run (test_args jn (path_join BASE_WORK_PATH uuid) p) (length (input_data p)) 0 fs1) in
     Val (test_reports (q_key jn) (length ress) 0 ress @ final_reports (q_key jn) ress))"
  by (rule submission_eq) fact+

theorem submission_report_witness:
  "let r0 = \<lparr>cpu_time = 3, real_time = 4, memory = 100, r_signal = 0, exit_code = 0, r_error = 0, r_result = 0\<rparr>;
       jn = \<lparr>q_fd = 5, q_key = ''7'', q_code = ''x'', q_language = ''cpp'', q_pid = ''1'', q_timeLimit = 1000, q_memoryLimit = 0\<rparr>
   in \<exists>ress. length ress = 1 \<and> rbind (work_stage1 (\<lambda>_. Some [''p1.in'', ''p1.out'']) (\<lambda>_ fs. (r0, fs)) ''u'' jn Map.empty) handle_results =
     Val (test_reports ''7'' 1 0 ress @ final_reports ''7'' ress)"
proof -
  let ?r = "\<lparr>cpu_time = 3, real_time = 4, memory = 100, r_signal = 0, exit_code = 0, r_error = 0, r_result = 0\<rparr> :: point_result"
  let ?j = "\<lparr>q_fd = 5, q_key = ''7'', q_code = ''x'', q_language = ''cpp'', q_pid = ''1'', q_timeLimit = 1000, q_memoryLimit = 0\<rparr>"
  let ?run = "\<lambda>_ fs. (?r, fs)"
  let ?d = "path_join (path_join BASE_PROBLEM_PATH ''1'') ''data''"
  let ?p = "\<lparr>input_data = [(1, path_join ?d ''p1.in'')], output_data = [(1, path_join ?d ''p1.out'')]\<rparr>"
  have "is_sport_language (q_language ?j)"
    "Problem_load (\<lambda>_. Some [''p1.in'', ''p1.out'']) (path_join BASE_PROBLEM_PATH (q_pid ?j)) = Val ?p"
    by (simp_all add: sample_language sample_load Let_def)
  from submission_report [OF this, of ?run "''u''" Map.empty ?r "[path_join (path_join BASE_WORK_PATH ''u'') ''main.code'' \<mapsto> ''x'']"]
  show ?thesis
    by (unfold Let_def, intro exI [of _ "fst (judge_seq ?run (test_args ?j (path_join BASE_WORK_PATH ''u'') ?p) 1 0
        [path_join (path_join BASE_WORK_PATH ''u'') ''main.code'' \<mapsto> ''x''])"])
      (simp add: judger_run_def Let_def del: judge_seq.simps)
qed

section \<open>What is not compared\<close>

lemma size_of_int_small: "size_of_int w < 2 ^ 64"
  by (simp add: size_of_int_def nat_less_iff)

text \<open>A memory limit counts in gigabytes, not in megabytes.\<close>

lemma memory_limit_in_gigabytes:
  assumes "0 < m" "m < 2 ^ 32"
  shows "usub (max_memory (judge_CPP_args d c i out t m)) memory_base = m * 2 ^ 30"
proof -
  have 1: "m * 2 ^ 30 < 2 ^ 62" using assms(2) by simp
  then have "m * 2 ^ 30 mod 2 ^ 64 = m * 2 ^ 30" "(m * 2 ^ 30 + memory_base) mod 2 ^ 64 = m * 2 ^ 30 + memory_base"
    by (simp_all add: memory_base_def)
  then have mm: "max_memory (judge_CPP_args d c i out t m) = m * 2 ^ 30 + memory_base"
    using assms(1) by (simp add: judge_CPP_args_def judge_args_new_def unlimit_def)
  show ?thesis unfolding mm using 1 by (subst usub_le) (simp_all add: memory_base_def)
qed

lemma Judge_no_answer:
  assumes "judger_run run args fs = (res, fs')" "r_error res = 0" "r_result res = 0" "fs' out_file = None"
    "max_memory args = unlimit \<or> unat (memory res) < usub (max_memory args) memory_base"
  shows "Judge run args out_file fs = (res, fs')"
  using assms by (auto simp: Judge_def noipstyle_check_no_file)

lemma judge_seq_accepts:
  assumes "\<And>cmd fs. r_error (fst (run cmd fs)) = 0 \<and> r_result (fst (run cmd fs)) = 0"
    "\<And>i cmd fs. max_memory (args i) = unlimit \<or> unat (memory (fst (run cmd fs))) < usub (max_memory (args i)) memory_base"
    "\<And>i cmd fs. snd (run cmd fs) (decimal i @ ''.out'') = None"
  shows "\<forall>r\<in>set (fst (judge_seq run args k i fs)). r_result r = 0"
proof (induction k arbitrary: i fs)
  case (Suc k)
  have j: "Judge run (args i) (decimal i @ ''.out'') fs = judger_run run (args i) fs"
    using Judge_no_answer [of run "args i" fs] assms by (metis judger_run_def prod.collapse)
  have "r_result (fst (judger_run run (args i) fs)) = 0" using assms(1) by (simp add: judger_run_def)
  then show ?case using Suc.IH by (simp add: j split_beta Let_def del: append_Cons append_Nil)
qed simp

text \<open>C38: The answers of the problem are not looked at: the output of each test is compared with a file of the name of the output in the
directory of the server itself. When there are no such files, every program that compiles and runs within its limits is recorded with a
score of 100, whatever it prints.\<close>

theorem answers_not_compared:
  assumes "is_sport_language (q_language jn)" "Problem_load dir (path_join BASE_PROBLEM_PATH (q_pid jn)) = Val p"
    "0 < length (input_data p)" "100 * length (input_data p) < 2 ^ 31"
    "\<And>cmd fs. r_error (fst (run cmd fs)) = 0 \<and> r_result (fst (run cmd fs)) = 0 \<and> exit_code (fst (run cmd fs)) = 0"
    "\<And>i cmd fs. max_memory (test_args jn (path_join BASE_WORK_PATH uuid) p i) = unlimit \<or>
       unat (memory (fst (run cmd fs))) < usub (max_memory (test_args jn (path_join BASE_WORK_PATH uuid) p i)) memory_base"
    "\<And>i cmd fs. snd (run cmd fs) (decimal i @ ''.out'') = None"
  shows "\<exists>r cpu mem full. rbind (work_stage1 dir run uuid jn fs) handle_results = Val r \<and>
    Update_solution (q_key jn) 0 cpu mem 100 (replicate (length (input_data p)) (CHR ''A'')) full \<in> set r"
proof -
  obtain c fs1 where c: "judger_run run (compile_CPP_args (path_join BASE_WORK_PATH uuid) ''main.code'')
       (fs(path_join (path_join BASE_WORK_PATH uuid) ''main.code'' \<mapsto> q_code jn)) = (c, fs1)" by fastforce
  then have z: "r_result c = 0" "r_error c = 0" "exit_code c = 0"
    using assms(5) by (metis fst_conv judger_run_def)+
  define ress where "ress = fst (judge_seq run (test_args jn (path_join BASE_WORK_PATH uuid) p) (length (input_data p)) 0 fs1)"
  have "\<forall>r\<in>set ress. r_result r = 0" unfolding ress_def using judge_seq_accepts assms(5-7) by blast
  then have a: "first_bad ress = 0" "accepted ress = length ress" "map (\<lambda>r. mini_char (r_result r)) ress = replicate (length ress) (CHR ''A'')"
    by (auto simp: first_bad_def accepted_def ACCEPT_def mini_char_def filter_empty_conv intro!: map_replicate_const replicate_eqI split: list.splits)
  have l: "length ress = length (input_data p)" "ress \<noteq> []" using assms(3) by (auto simp: ress_def simp flip: length_greater_0_conv)
  have "rbind (work_stage1 dir run uuid jn fs) handle_results =
      Val (test_reports (q_key jn) (length ress) 0 ress @ final_reports (q_key jn) ress)"
    using submission_eq [OF assms(1,2) c z assms(4)] unfolding Let_def ress_def .
  then show ?thesis using a l by (auto simp: final_reports_def Let_def)
qed

theorem answers_not_compared_witness:
  "let r0 = \<lparr>cpu_time = 3, real_time = 4, memory = 100, r_signal = 0, exit_code = 0, r_error = 0, r_result = 0\<rparr> :: point_result;
       jn = \<lparr>q_fd = 5, q_key = ''7'', q_code = ''x'', q_language = ''cpp'', q_pid = ''1'', q_timeLimit = 1000, q_memoryLimit = 0\<rparr>
   in \<exists>r cpu mem full. rbind (work_stage1 (\<lambda>_. Some [''p1.in'', ''p1.out'']) (\<lambda>_ _. (r0, [''/work/0.out'' \<mapsto> ''wrong''])) ''u'' jn Map.empty) handle_results = Val r \<and>
     Update_solution ''7'' 0 cpu mem 100 ''A'' full \<in> set r"
proof -
  let ?r = "\<lparr>cpu_time = 3, real_time = 4, memory = 100, r_signal = 0, exit_code = 0, r_error = 0, r_result = 0\<rparr> :: point_result"
  let ?j = "\<lparr>q_fd = 5, q_key = ''7'', q_code = ''x'', q_language = ''cpp'', q_pid = ''1'', q_timeLimit = 1000, q_memoryLimit = 0\<rparr>"
  let ?run = "\<lambda>(_ :: string) (_ :: files). (?r, [''/work/0.out'' \<mapsto> ''wrong''])"
  let ?d = "path_join (path_join BASE_PROBLEM_PATH ''1'') ''data''"
  let ?p = "\<lparr>input_data = [(1, path_join ?d ''p1.in'')], output_data = [(1, path_join ?d ''p1.out'')]\<rparr>"
  have sport: "is_sport_language (q_language ?j)"
    by (simp add: sample_language)
  have load: "Problem_load (\<lambda>_. Some [''p1.in'', ''p1.out'']) (path_join BASE_PROBLEM_PATH (q_pid ?j)) = Val ?p"
    by (simp add: sample_load Let_def)
  have none: "decimal i \<noteq> ''/work/0''" for i
    using hd_decimal [of i] by (auto simp: is_digit_def ccode_def)
  have mem: "max_memory (test_args ?j (path_join BASE_WORK_PATH ''u'') ?p i) = unlimit" for i
    by (simp add: test_args_def judge_CPP_args_def judge_args_new_def size_of_int_def unlimit_def)
  have "\<exists>r cpu mem full. rbind (work_stage1 (\<lambda>_. Some [''p1.in'', ''p1.out'']) ?run ''u'' ?j Map.empty) handle_results = Val r \<and>
      Update_solution (q_key ?j) 0 cpu mem 100 (replicate (length (input_data ?p)) (CHR ''A'')) full \<in> set r"
    by (rule answers_not_compared [OF sport load]) (simp_all add: none mem [simplified])
  then show ?thesis by (simp add: Let_def)
qed

end
