(* ===== verification/SocketMgr.thy ===== *)
theory SocketMgr
  imports Prelude
begin

text \<open>
  \<open>socketManager\<close> and \<open>socketManagerRAII\<close> of \<open>libs/judgercpp/judge_server/src/socketManager.hpp\<close>: which sockets there are and which are in
  use. The \<open>std::map\<close> is an association list in the order of the keys. Every operation holds the mutex, and is one step of the threads
  that use the manager.
\<close>

section \<open>Operations\<close>

type_synonym socket_map = "(int \<times> bool) list"

definition set_use :: "int \<Rightarrow> bool \<Rightarrow> socket_map \<Rightarrow> socket_map" where
  "set_use fd u m = map (\<lambda>e. if fst e = fd then (fd, u) else e) m"

fun sm_insert :: "int \<Rightarrow> socket_map \<Rightarrow> socket_map" where
  "sm_insert fd [] = [(fd, False)]"
| "sm_insert fd (e # m) = (if fd < fst e then (fd, False) # e # m else if fd = fst e then e # m else e # sm_insert fd m)"

text \<open>The first socket that is not in use.\<close>

definition sm_get :: "socket_map \<Rightarrow> int option \<times> socket_map" where
  "sm_get m =
     (case filter (\<lambda>e. snd e = False) m of
        [] \<Rightarrow> (None, m)
      | e # _ \<Rightarrow> (Some (fst e), set_use (fst e) True m))"

definition sm_get_specified_fd :: "int \<Rightarrow> socket_map \<Rightarrow> bool \<times> socket_map" where
  "sm_get_specified_fd fd m =
     (case map_of m fd of
        None \<Rightarrow> (False, m)
      | Some used \<Rightarrow> if used = True then (False, m) else (True, set_use fd True m))"

definition sm_remove :: "int \<Rightarrow> socket_map \<Rightarrow> bool \<times> socket_map" where
  "sm_remove fd m =
     (case map_of m fd of
        None \<Rightarrow> (False, m)
      | Some used \<Rightarrow> if used = True then (False, m) else (True, filter (\<lambda>e. fst e \<noteq> fd) m))"

definition sm_unuse :: "int \<Rightarrow> socket_map \<Rightarrow> socket_map" where
  "sm_unuse fd m = (case map_of m fd of None \<Rightarrow> m | Some _ \<Rightarrow> set_use fd False m)"

definition sm_removeAll :: "socket_map \<Rightarrow> socket_map" where
  "sm_removeAll m = []"

lemma map_of_set_use [simp]:
  "map_of (set_use fd u m) x = (if x = fd then map_option (\<lambda>_. u) (map_of m fd) else map_of m x)"
  by (induction m) (auto simp: set_use_def)

lemma map_of_sm_insert:
  "sorted (map fst m) \<Longrightarrow> map_of (sm_insert fd m) x = (if x = fd \<and> map_of m fd = None then Some False else map_of m x)"
proof (induction m)
  case (Cons e m)
  have "fd < fst e \<Longrightarrow> map_of m fd = None" using Cons.prems by (auto simp: map_of_eq_None_iff)
  then show ?case using Cons by (cases e) auto
qed simp

lemma set_sm_insert: "set (map fst (sm_insert fd m)) = insert fd (set (map fst m))"
  by (induction m) auto

lemma sorted_sm_insert: "sorted (map fst m) \<Longrightarrow> distinct (map fst m) \<Longrightarrow>
    sorted (map fst (sm_insert fd m)) \<and> distinct (map fst (sm_insert fd m))"
proof (induction m)
  case (Cons e m)
  then show ?case using set_sm_insert [of fd m] by force
qed simp

lemma map_fst_set_use [simp]: "map fst (set_use fd u m) = map fst m"
  by (induction m) (auto simp: set_use_def)

lemma map_of_filter_fst [simp]: "map_of (filter (\<lambda>e. fst e \<noteq> fd) m) x = (if x = fd then None else map_of m x)"
  by (induction m) auto

definition sm_wf :: "socket_map \<Rightarrow> bool" where
  "sm_wf m \<longleftrightarrow> sorted (map fst m) \<and> distinct (map fst m)"

lemma sm_get_Some:
  assumes "sm_wf m" "sm_get m = (Some fd, m')"
  shows "map_of m fd = Some False" "m' = set_use fd True m"
proof -
  obtain e es where e: "filter (\<lambda>e. snd e = False) m = e # es" "fd = fst e" "m' = set_use fd True m"
    using assms(2) by (auto simp: sm_get_def split: list.splits)
  obtain u where u: "e = (fd, u)" using e(2) by (cases e) simp
  have "e \<in> set (filter (\<lambda>e. snd e = False) m)" unfolding e(1) by simp
  then have "(fd, False) \<in> set m" by (auto simp: u)
  then show "map_of m fd = Some False" using assms(1) by (simp add: sm_wf_def)
  show "m' = set_use fd True m" by fact
qed

lemma map_of_insert_wf: "sm_wf m \<Longrightarrow> map_of (sm_insert fd m) x = (if x = fd \<and> map_of m fd = None then Some False else map_of m x)"
  by (simp add: sm_wf_def map_of_sm_insert)

lemma sm_wf_ops:
  assumes "sm_wf m"
  shows "sm_wf (sm_insert fd m)" "sm_wf (set_use fd u m)" "sm_wf (filter P m)" "sm_wf (sm_unuse fd m)"
    "sm_wf (snd (sm_get m))" "sm_wf (snd (sm_get_specified_fd fd m))" "sm_wf (snd (sm_remove fd m))"
  using assms sorted_sm_insert [of m fd]
  by (auto simp: sm_wf_def sm_unuse_def sm_get_def sm_get_specified_fd_def sm_remove_def sorted_filter distinct_map_filter
      split: option.splits list.splits)

section \<open>Threads\<close>

text \<open>
  A thread asks for any socket (the client) or for the one a submission came from (a worker of the judge server) until it gets it, writes
  to it, and gives it back. The main thread inserts and removes; the destructor of the client removes all sockets.
\<close>

datatype sm_pc = NoSocket | WantsAny | Wants int | Has int

datatype sm_act = Ask "int option" | Try | Release | Insert int | Remove int | RemoveAll

record sm_sys =
  sockets :: socket_map
  thr :: "nat \<Rightarrow> sm_pc"

definition sm_init :: sm_sys where
  "sm_init = \<lparr>sockets = [], thr = (\<lambda>_. NoSocket)\<rparr>"

definition at_thr :: "nat \<Rightarrow> sm_pc \<Rightarrow> socket_map \<Rightarrow> sm_sys \<Rightarrow> sm_sys" where
  "at_thr t p m s = s\<lparr>sockets := m, thr := (thr s)(t := p)\<rparr>"

text \<open>One turn of the loops of the constructors, and the destructor.\<close>

fun sm_do :: "nat \<Rightarrow> sm_act \<Rightarrow> sm_sys \<Rightarrow> sm_sys option" where
  "sm_do t (Ask w) s = (if thr s t = NoSocket then Some (at_thr t (case w of None \<Rightarrow> WantsAny | Some fd \<Rightarrow> Wants fd) (sockets s) s) else None)"
| "sm_do t Try s =
     (case thr s t of
        WantsAny \<Rightarrow> (case sm_get (sockets s) of
            (None, m) \<Rightarrow> Some (at_thr t WantsAny m s)
          | (Some fd, m) \<Rightarrow> Some (at_thr t (Has fd) m s))
      | Wants fd \<Rightarrow> (let (ok, m) = sm_get_specified_fd fd (sockets s) in Some (at_thr t (if ok = False then Wants fd else Has fd) m s))
      | _ \<Rightarrow> None)"
| "sm_do t Release s = (case thr s t of Has fd \<Rightarrow> Some (at_thr t NoSocket (sm_unuse fd (sockets s)) s) | _ \<Rightarrow> None)"
| "sm_do t (Insert fd) s = Some (s\<lparr>sockets := sm_insert fd (sockets s)\<rparr>)"
| "sm_do t (Remove fd) s = Some (s\<lparr>sockets := snd (sm_remove fd (sockets s))\<rparr>)"
| "sm_do t RemoveAll s = Some (s\<lparr>sockets := sm_removeAll (sockets s)\<rparr>)"

text \<open>The threads in any interleaving.\<close>

fun sm_run :: "(nat \<times> sm_act) list \<Rightarrow> sm_sys \<Rightarrow> sm_sys option" where
  "sm_run [] s = Some s"
| "sm_run ((t, a) # as) s = (case sm_do t a s of None \<Rightarrow> None | Some s' \<Rightarrow> sm_run as s')"

text \<open>Nothing keeps \<open>removeAll\<close> from sockets that are in use. In these runs it happens only while no thread has one.\<close>

fun orderly :: "(nat \<times> sm_act) list \<Rightarrow> sm_sys \<Rightarrow> bool" where
  "orderly [] s \<longleftrightarrow> True"
| "orderly ((t, a) # as) s \<longleftrightarrow>
     (a = RemoveAll \<longrightarrow> (\<forall>t' fd. thr s t' \<noteq> Has fd)) \<and> (case sm_do t a s of None \<Rightarrow> True | Some s' \<Rightarrow> orderly as s')"

lemma sm_run_step: "sm_do t a s = Some s' \<Longrightarrow> sm_run ((t, a) # as) s = sm_run as s'"
  by simp

lemma sm_Try_cases:
  assumes "sm_do t Try s = Some s'" "sm_wf (sockets s)"
  obtains p where "thr s t = p" "\<And>fd. p \<noteq> Has fd" "s' = at_thr t p (sockets s) s"
  | fd where "thr s t = WantsAny \<or> thr s t = Wants fd" "map_of (sockets s) fd = Some False"
      "s' = at_thr t (Has fd) (set_use fd True (sockets s)) s"
proof (cases "thr s t")
  case WantsAny
  obtain r m where g: "sm_get (sockets s) = (r, m)" by fastforce
  show ?thesis
  proof (cases r)
    case None
    then have "m = sockets s" using g by (auto simp: sm_get_def split: list.splits)
    then show ?thesis using that(1) [of WantsAny] WantsAny assms(1) g None by simp
  next
    case (Some fd)
    then show ?thesis using that(2) [of fd] WantsAny assms(1) g sm_get_Some [OF assms(2), of fd m] by simp
  qed
next
  case (Wants fd)
  then show ?thesis using that(1) [of "Wants fd"] that(2) [of fd] assms(1)
    by (simp add: sm_get_specified_fd_def split: option.splits if_splits)
qed (use assms in simp_all)

definition sm_inv :: "sm_sys \<Rightarrow> bool" where
  "sm_inv s \<longleftrightarrow> sm_wf (sockets s) \<and> (\<forall>t fd. thr s t = Has fd \<longrightarrow> map_of (sockets s) fd = Some True) \<and>
     (\<forall>t t' fd. thr s t = Has fd \<longrightarrow> thr s t' = Has fd \<longrightarrow> t = t')"

lemma sm_inv_do:
  assumes "sm_inv s" "sm_do t a s = Some s'" "a = RemoveAll \<Longrightarrow> \<forall>t' fd. thr s t' \<noteq> Has fd"
  shows "sm_inv s'"
proof -
  have wf: "sm_wf (sockets s)" using assms(1) by (simp add: sm_inv_def)
  have free: "sm_inv (at_thr t (Has fd) (set_use fd True (sockets s)) s)" if "map_of (sockets s) fd = Some False" for fd
    using that assms(1) sm_wf_ops(2) [OF wf] by (auto simp: sm_inv_def at_thr_def)
  have same: "sm_inv (at_thr t p (sockets s) s)" if "\<And>fd. p \<noteq> Has fd" for p
    using that assms(1) by (auto simp: sm_inv_def at_thr_def)
  show ?thesis
  proof (cases a)
    case (Ask w)
    then show ?thesis using assms same by (auto split: if_splits option.splits)
  next
    case Try
    from assms(2) [unfolded this] wf show ?thesis
    proof (cases rule: sm_Try_cases)
      case (1 p)
      then show ?thesis using same by simp
    next
      case (2 fd)
      then show ?thesis using free by simp
    qed
  next
    case Release
    then obtain fd where "thr s t = Has fd" "s' = at_thr t NoSocket (sm_unuse fd (sockets s)) s"
      using assms(2) by (auto split: sm_pc.splits)
    then show ?thesis using assms(1) sm_wf_ops(4) [OF wf, of fd]
      by (auto simp: sm_inv_def at_thr_def sm_unuse_def split: option.splits)
  next
    case (Insert fd)
    then show ?thesis using assms sm_wf_ops(1) [OF wf, of fd] by (fastforce simp: sm_inv_def map_of_insert_wf)
  next
    case (Remove fd)
    then show ?thesis using assms sm_wf_ops(7) [OF wf, of fd]
      by (auto simp: sm_inv_def sm_remove_def split: option.splits if_splits)
  next
    case RemoveAll
    then show ?thesis using assms by (auto simp: sm_inv_def sm_wf_def sm_removeAll_def)
  qed
qed

lemma sm_inv_run: "sm_run as s = Some s' \<Longrightarrow> orderly as s \<Longrightarrow> sm_inv s \<Longrightarrow> sm_inv s'"
proof (induction as s rule: sm_run.induct)
  case (2 t a as s)
  then obtain s1 where s1: "sm_do t a s = Some s1" "sm_run as s1 = Some s'" by (auto split: option.splits)
  then show ?case using "2.IH" [OF s1] "2.prems" sm_inv_do [OF _ s1(1)] by simp
qed simp

section \<open>Properties\<close>

text \<open>C36: As long as \<open>removeAll\<close> is called only while no thread has a socket, a socket is given to one thread at a time, and is not removed
while a thread has it, whatever else the threads do and however their operations are interleaved; so that the bytes of two messages are
not mixed.\<close>

theorem socket_exclusive:
  assumes "sm_run as sm_init = Some s" "orderly as sm_init" "thr s t = Has fd"
  shows "map_of (sockets s) fd = Some True \<and> (\<forall>t'. thr s t' = Has fd \<longrightarrow> t' = t)"
proof -
  have "sm_inv sm_init" by (simp add: sm_inv_def sm_init_def sm_wf_def)
  from sm_inv_run [OF assms(1,2) this] show ?thesis using assms(3) unfolding sm_inv_def by blast
qed

theorem socket_exclusive_witness:
  "let s = \<lparr>sockets = [(5, True)], thr = (\<lambda>_. NoSocket)(1 := Has 5, 2 := Wants 5)\<rparr>
   in map_of (sockets s) 5 = Some True \<and> (\<forall>t'. thr s t' = Has 5 \<longrightarrow> t' = 1)"
proof -
  let ?s = "\<lparr>sockets = [(5, True)], thr = (\<lambda>_. NoSocket)(1 := Has 5, 2 := Wants 5)\<rparr>"
  let ?n = "\<lambda>_ :: nat. NoSocket"
  have d: "sm_do 0 (Insert 5) sm_init = Some \<lparr>sockets = [(5, False)], thr = ?n\<rparr>"
    "sm_do 1 (Ask None) \<lparr>sockets = [(5, False)], thr = ?n\<rparr> = Some \<lparr>sockets = [(5, False)], thr = ?n(1 := WantsAny)\<rparr>"
    "sm_do 1 Try \<lparr>sockets = [(5, False)], thr = ?n(1 := WantsAny)\<rparr> = Some \<lparr>sockets = [(5, True)], thr = ?n(1 := Has 5)\<rparr>"
    "sm_do 2 (Ask (Some 5)) \<lparr>sockets = [(5, True)], thr = ?n(1 := Has 5)\<rparr> = Some ?s"
    "sm_do 2 Try ?s = Some ?s"
    by (simp_all add: sm_init_def sm_get_def sm_get_specified_fd_def set_use_def at_thr_def)
  have r: "sm_run [(0, Insert 5), (1, Ask None), (1, Try), (2, Ask (Some 5)), (2, Try)] sm_init = Some ?s"
    by (simp only: sm_run_step [OF d(1)] sm_run_step [OF d(2)] sm_run_step [OF d(3)] sm_run_step [OF d(4)] sm_run_step [OF d(5)] sm_run.simps(1))
  have o: "orderly [(0, Insert 5), (1, Ask None), (1, Try), (2, Ask (Some 5)), (2, Try)] sm_init"
    by (simp only: orderly.simps d option.case sm_act.distinct) simp
  have "thr ?s 1 = Has 5" by simp
  from socket_exclusive [OF r o this] show ?thesis unfolding Let_def .
qed

text \<open>The destructor of the client removes sockets that are in use; a new socket with the same descriptor can then be given out while the
thread that had the old one still writes to it.\<close>

lemma removeAll_in_use:
  "\<exists>s. sm_run [(0, Insert 5), (1, Ask None), (1, Try), (0, RemoveAll), (0, Insert 5), (2, Ask None), (2, Try)] sm_init = Some s \<and>
     thr s 1 = Has 5 \<and> thr s 2 = Has 5"
  by (simp add: sm_init_def sm_get_def set_use_def at_thr_def sm_removeAll_def)

lemma sm_absent_do:
  assumes "sm_do t' a s = Some s'" "a \<noteq> Insert fd" "thr s t = Wants fd" "map_of (sockets s) fd = None" "sm_wf (sockets s)"
  shows "thr s' t = Wants fd \<and> map_of (sockets s') fd = None \<and> sm_wf (sockets s')"
proof (cases a)
  case (Ask w)
  then show ?thesis using assms by (auto simp: at_thr_def split: if_splits)
next
  case Try
  from assms(1) [unfolded this] assms(5) show ?thesis
  proof (cases rule: sm_Try_cases)
    case (1 p)
    then show ?thesis using assms(3-5) by (auto simp: at_thr_def)
  next
    case (2 fd')
    then show ?thesis using assms(3-5) sm_wf_ops(2) [OF assms(5)] by (auto simp: at_thr_def)
  qed
next
  case Release
  then show ?thesis using assms sm_wf_ops(2) [OF assms(5)]
    by (auto simp: at_thr_def sm_unuse_def split: sm_pc.splits option.splits)
next
  case (Insert fd')
  then show ?thesis using assms sm_wf_ops(1) [OF assms(5), of fd'] by (auto simp: map_of_insert_wf)
next
  case (Remove fd')
  then show ?thesis using assms sm_wf_ops(7) [OF assms(5), of fd']
    by (auto simp: sm_remove_def split: option.splits if_splits)
next
  case RemoveAll
  then show ?thesis using assms by (auto simp: sm_removeAll_def sm_wf_def)
qed

text \<open>A worker whose client has gone before the answer is written turns in its loop for ever: as long as no new client gets the same
descriptor, nothing that any thread does gives it the socket.\<close>

theorem gone_client_blocks_worker:
  assumes "sm_run as s = Some s'" "\<forall>t'. (t', Insert fd) \<notin> set as" "thr s t = Wants fd" "map_of (sockets s) fd = None" "sm_wf (sockets s)"
  shows "thr s' t = Wants fd"
  using assms
proof (induction as s rule: sm_run.induct)
  case (2 t' a as s)
  then obtain s1 where s1: "sm_do t' a s = Some s1" "sm_run as s1 = Some s'" by (auto split: option.splits)
  moreover have "a \<noteq> Insert fd" using "2.prems"(2) by auto
  ultimately show ?case using "2.IH" [OF s1(1) s1(2)] sm_absent_do [OF s1(1), of fd t] "2.prems" by auto
qed simp

theorem gone_client_blocks_worker_witness:
  "let s = \<lparr>sockets = [], thr = (\<lambda>_. NoSocket)(1 := Wants 5)\<rparr>
   in sm_run [(1, Try), (0, Insert 6), (1, Try)] s = Some (s\<lparr>sockets := [(6, False)]\<rparr>) \<and> thr (s\<lparr>sockets := [(6, False)]\<rparr>) 1 = Wants 5"
proof -
  let ?s = "\<lparr>sockets = [], thr = (\<lambda>_. NoSocket)(1 := Wants 5)\<rparr>"
  have r: "sm_run [(1, Try), (0, Insert 6), (1, Try)] ?s = Some (?s\<lparr>sockets := [(6, False)]\<rparr>)"
    by (simp add: sm_get_specified_fd_def at_thr_def)
  from gone_client_blocks_worker [OF r, of 5 1] r show ?thesis by (simp add: Let_def sm_wf_def)
qed

text \<open>When a new client gets the descriptor, the worker writes the answer to that client.\<close>

lemma reused_descriptor:
  assumes "thr s t = Wants fd" "map_of (sockets s) fd = None" "sm_wf (sockets s)"
  shows "\<exists>s'. sm_run [(0, Insert fd), (t, Try)] s = Some s' \<and> thr s' t = Has fd"
  using assms by (simp add: map_of_insert_wf sm_get_specified_fd_def at_thr_def)

end
