(* ===== verification/JudgeCache.thy ===== *)
theory JudgeCache
  imports Prelude
begin

text \<open>
  \<open>RWLock\<close> (\<open>include/judge/ReadWriteLock.hpp\<close>), \<open>judgeCache\<close> and \<open>SidMapSer\<close> (\<open>include/judge/judgeServerMediator.hpp\<close>). What happens under the
  mutex of the lock is one step of a thread, from the entry, or from the wake-up in \<open>cv.wait\<close>, to the next wait or to the end. A thread may
  wake up without a notification. Between its two calls of the lock an operation works on the map, which is not protected otherwise; the
  step that ends there includes the call that follows.
\<close>

unbundle bit_operations_syntax

section \<open>The cache\<close>

record judge_msg =
  end_time :: int
  point :: int
  all_point :: int
  result_code :: int
  jm_res :: string

datatype cache_op = HasKey nat | Get nat | Delete nat | Create nat int int int string | CheckExpire

fun is_writer :: "cache_op \<Rightarrow> bool" where
  "is_writer (HasKey k) \<longleftrightarrow> False"
| "is_writer (Get k) \<longleftrightarrow> False"
| "is_writer (Delete k) \<longleftrightarrow> True"
| "is_writer (Create k p a c s) \<longleftrightarrow> True"
| "is_writer CheckExpire \<longleftrightarrow> True"

text \<open>The map after an operation at the time \<open>now\<close>, in nanoseconds.\<close>

definition cache_create :: "int \<Rightarrow> nat \<Rightarrow> int \<Rightarrow> int \<Rightarrow> int \<Rightarrow> string \<Rightarrow> (nat \<Rightarrow> judge_msg option) \<Rightarrow> (nat \<Rightarrow> judge_msg option)" where
  "cache_create now key p a c s m =
     m(key \<mapsto> \<lparr>end_time = now + 60 * 5 * 1000000000, point = p, all_point = a, result_code = c, jm_res = s\<rparr>)"

definition cache_expire :: "int \<Rightarrow> (nat \<Rightarrow> judge_msg option) \<Rightarrow> (nat \<Rightarrow> judge_msg option)" where
  "cache_expire now m = (\<lambda>k. case m k of None \<Rightarrow> None | Some v \<Rightarrow> if end_time v < now then None else Some v)"

fun cache_apply :: "int \<Rightarrow> cache_op \<Rightarrow> (nat \<Rightarrow> judge_msg option) \<Rightarrow> (nat \<Rightarrow> judge_msg option)" where
  "cache_apply now (HasKey k) m = m"
| "cache_apply now (Get k) m = m"
| "cache_apply now (Delete k) m = m(k := None)"
| "cache_apply now (Create k p a c s) m = cache_create now k p a c s m"
| "cache_apply now CheckExpire m = cache_expire now m"

section \<open>The lock\<close>

text \<open>\<open>Waits op\<close> and \<open>Waits2\<close> are before the test of the loop (\<open>Waits2\<close> in the second call of \<open>lock_read\<close> in \<open>get\<close>); \<open>Sleeps op\<close> and \<open>Sleeps2\<close>
in \<open>cv.wait\<close>.\<close>

datatype cpc = Outside | Waits cache_op | Sleeps cache_op | Inside cache_op | Waits2 | Sleeps2

record rw_sys =
  read_cnt :: int
  write_cnt :: int
  c_map :: "nat \<Rightarrow> judge_msg option"
  cpcs :: "nat \<Rightarrow> cpc"
  missed :: int

definition rw_init :: rw_sys where
  "rw_init = \<lparr>read_cnt = 0, write_cnt = 0, c_map = Map.empty, cpcs = (\<lambda>_. Outside), missed = 0\<rparr>"

fun notified :: "cpc \<Rightarrow> cpc" where
  "notified (Sleeps op) = Waits op"
| "notified Sleeps2 = Waits2"
| "notified p = p"

definition notify_all :: "rw_sys \<Rightarrow> rw_sys" where
  "notify_all s = s\<lparr>cpcs := (\<lambda>t. notified (cpcs s t))\<rparr>"

definition lock_read :: "nat \<Rightarrow> cpc \<Rightarrow> cpc \<Rightarrow> rw_sys \<Rightarrow> rw_sys" where
  "lock_read t asleep inside s =
     (if write_cnt s > 0 then s\<lparr>cpcs := (cpcs s)(t := asleep)\<rparr>
      else s\<lparr>read_cnt := read_cnt s + 1, cpcs := (cpcs s)(t := inside)\<rparr>)"

definition lock_write :: "nat \<Rightarrow> cpc \<Rightarrow> cpc \<Rightarrow> rw_sys \<Rightarrow> rw_sys" where
  "lock_write t asleep inside s =
     (if write_cnt s > 0 \<or> read_cnt s > 0 then s\<lparr>cpcs := (cpcs s)(t := asleep)\<rparr>
      else s\<lparr>write_cnt := write_cnt s + 1, cpcs := (cpcs s)(t := inside)\<rparr>)"

definition unlock_read :: "rw_sys \<Rightarrow> rw_sys" where
  "unlock_read s =
     (let s = s\<lparr>read_cnt := read_cnt s - 1\<rparr> in if read_cnt s = 0 then notify_all s else s)"

definition unlock_write :: "rw_sys \<Rightarrow> rw_sys" where
  "unlock_write s = notify_all (s\<lparr>write_cnt := write_cnt s - 1\<rparr>)"

text \<open>The steps of a thread: it calls an operation; it tests; it wakes up; it works on the map and leaves. \<open>get\<close> of a key that is not there
calls \<open>lock_read\<close> again. \<open>missed\<close> counts the calls of \<open>get\<close> that returned so.\<close>

datatype cache_act = Call cache_op | Test | WakeUp | Work int

fun rw_do :: "nat \<Rightarrow> cache_act \<Rightarrow> rw_sys \<Rightarrow> rw_sys option" where
  "rw_do t (Call op) s = (if cpcs s t = Outside then Some (s\<lparr>cpcs := (cpcs s)(t := Waits op)\<rparr>) else None)"
| "rw_do t Test s =
     (case cpcs s t of
        Waits op \<Rightarrow> Some (if is_writer op then lock_write t (Sleeps op) (Inside op) s else lock_read t (Sleeps op) (Inside op) s)
      | Waits2 \<Rightarrow> Some (let s' = lock_read t Sleeps2 Outside s in if cpcs s' t = Outside then s'\<lparr>missed := missed s + 1\<rparr> else s')
      | _ \<Rightarrow> None)"
| "rw_do t WakeUp s = (if cpcs s t \<noteq> notified (cpcs s t) then Some (s\<lparr>cpcs := (cpcs s)(t := notified (cpcs s t))\<rparr>) else None)"
| "rw_do t (Work now) s =
     (case cpcs s t of
        Inside op \<Rightarrow>
          let s' = s\<lparr>c_map := cache_apply now op (c_map s), cpcs := (cpcs s)(t := Outside)\<rparr> in
          Some (if is_writer op then unlock_write s'
                else case op of Get k \<Rightarrow> (if c_map s k = None then s'\<lparr>cpcs := (cpcs s')(t := Waits2)\<rparr> else unlock_read s')
                     | _ \<Rightarrow> unlock_read s')
      | _ \<Rightarrow> None)"

fun rw_run :: "(nat \<times> cache_act) list \<Rightarrow> rw_sys \<Rightarrow> rw_sys option" where
  "rw_run [] s = Some s"
| "rw_run ((t, a) # as) s = (case rw_do t a s of None \<Rightarrow> None | Some s' \<Rightarrow> rw_run as s')"

section \<open>Invariant\<close>

fun writing :: "cpc \<Rightarrow> bool" where
  "writing (Inside op) \<longleftrightarrow> is_writer op"
| "writing _ \<longleftrightarrow> False"

fun reading :: "cpc \<Rightarrow> bool" where
  "reading (Inside op) \<longleftrightarrow> \<not> is_writer op"
| "reading Waits2 \<longleftrightarrow> True"
| "reading Sleeps2 \<longleftrightarrow> True"
| "reading _ \<longleftrightarrow> False"

fun sleeps_write :: "cpc \<Rightarrow> bool" where
  "sleeps_write (Sleeps op) \<longleftrightarrow> is_writer op"
| "sleeps_write _ \<longleftrightarrow> False"

fun sleeps_read :: "cpc \<Rightarrow> bool" where
  "sleeps_read (Sleeps op) \<longleftrightarrow> \<not> is_writer op"
| "sleeps_read Sleeps2 \<longleftrightarrow> True"
| "sleeps_read _ \<longleftrightarrow> False"

lemma notified_simps [simp]:
  "writing (notified p) = writing p" "reading (notified p) = reading p"
  "sleeps_write (notified p) = False" "sleeps_read (notified p) = False"
  by (cases p; simp)+

text \<open>The counters count: \<open>N\<close> bounds the threads. A writer that got in is alone; a thread sleeps only while it has a reason to.\<close>

definition rw_cnt :: "nat \<Rightarrow> rw_sys \<Rightarrow> bool" where
  "rw_cnt N s \<longleftrightarrow>
     write_cnt s = npcs N writing (cpcs s) \<and>
     read_cnt s = npcs N reading (cpcs s) + 2 * missed s \<and> missed s \<ge> 0 \<and>
     write_cnt s \<le> 1 \<and> (write_cnt s > 0 \<longrightarrow> read_cnt s = 0)"

definition rw_inv :: "nat \<Rightarrow> rw_sys \<Rightarrow> bool" where
  "rw_inv N s \<longleftrightarrow>
     rw_cnt N s \<and>
     (any_pc N sleeps_write (cpcs s) \<longrightarrow> write_cnt s > 0 \<or> read_cnt s > 0) \<and>
     (any_pc N sleeps_read (cpcs s) \<longrightarrow> write_cnt s > 0)"

lemma npcs_notified [simp]: "npcs N writing (\<lambda>t. notified (f t)) = npcs N writing f"
    "npcs N reading (\<lambda>t. notified (f t)) = npcs N reading f"
    "any_pc N sleeps_write (\<lambda>t. notified (f t)) = False" "any_pc N sleeps_read (\<lambda>t. notified (f t)) = False"
  by (simp_all add: npcs_def any_pc_def)

lemma rw_inv_notify: "rw_cnt N s \<Longrightarrow> rw_inv N (notify_all s)"
  by (auto simp: rw_inv_def rw_cnt_def notify_all_def)

lemmas rw_counts = npcs_upd any_upd any_apart [where P = sleeps_write] any_apart [where P = sleeps_read]

lemma rw_inv_init: "rw_inv N rw_init"
  by (simp add: rw_inv_def rw_cnt_def rw_init_def npcs_def any_pc_def)

lemma rw_inv_pos:
  assumes "rw_inv N s" "t < N"
  shows "reading (cpcs s t) \<Longrightarrow> read_cnt s > 0 \<and> write_cnt s = 0" "writing (cpcs s t) \<Longrightarrow> write_cnt s = 1 \<and> read_cnt s = 0"
  using assms npcs_pos [OF assms(2), of reading "cpcs s"] npcs_pos [OF assms(2), of writing "cpcs s"]
    npcs_ge0 [of N reading "cpcs s"] npcs_ge0 [of N writing "cpcs s"]
  by (auto simp: rw_inv_def rw_cnt_def)

lemma rw_inv_lock_read:
  assumes "rw_inv N s" "t < N" "cpcs s t = Waits op" "\<not> is_writer op"
  shows "rw_inv N (lock_read t (Sleeps op) (Inside op) s)"
  using assms npcs_ge0 [of N reading "cpcs s"] npcs_ge0 [of N writing "cpcs s"]
  by (auto simp: rw_inv_def rw_cnt_def lock_read_def rw_counts)

lemma rw_inv_lock_write:
  assumes "rw_inv N s" "t < N" "cpcs s t = Waits op" "is_writer op"
  shows "rw_inv N (lock_write t (Sleeps op) (Inside op) s)"
  using assms npcs_ge0 [of N reading "cpcs s"] npcs_ge0 [of N writing "cpcs s"]
  by (auto simp: rw_inv_def rw_cnt_def lock_write_def rw_counts)

lemma rw_inv_Work:
  assumes "rw_inv N s" "t < N" "cpcs s t = Inside op"
  shows "is_writer op \<Longrightarrow> rw_inv N (unlock_write (s\<lparr>c_map := m, cpcs := (cpcs s)(t := Outside)\<rparr>))"
    "\<not> is_writer op \<Longrightarrow> rw_inv N (unlock_read (s\<lparr>c_map := m, cpcs := (cpcs s)(t := Outside)\<rparr>))"
    "\<not> is_writer op \<Longrightarrow> rw_inv N (s\<lparr>c_map := m, cpcs := (cpcs s)(t := Waits2)\<rparr>)"
proof -
  note p = rw_inv_pos [OF assms(1,2)]
  note ge = npcs_ge0 [of N reading "cpcs s"] npcs_ge0 [of N writing "cpcs s"]
  show "rw_inv N (unlock_write (s\<lparr>c_map := m, cpcs := (cpcs s)(t := Outside)\<rparr>))" if "is_writer op"
    unfolding unlock_write_def by (rule rw_inv_notify) (use that assms p ge in \<open>auto simp: rw_inv_def rw_cnt_def rw_counts\<close>)
  show "rw_inv N (unlock_read (s\<lparr>c_map := m, cpcs := (cpcs s)(t := Outside)\<rparr>))" if "\<not> is_writer op"
  proof -
    let ?s = "s\<lparr>c_map := m, cpcs := (cpcs s)(t := Outside), read_cnt := read_cnt s - 1\<rparr>"
    have "rw_cnt N ?s" using that assms p ge by (auto simp: rw_inv_def rw_cnt_def rw_counts)
    moreover have "rw_inv N ?s" if "read_cnt s - 1 \<noteq> 0"
      using that \<open>\<not> is_writer op\<close> assms p ge by (auto simp: rw_inv_def rw_cnt_def rw_counts)
    moreover have "unlock_read (s\<lparr>c_map := m, cpcs := (cpcs s)(t := Outside)\<rparr>) = (if read_cnt s - 1 = 0 then notify_all ?s else ?s)"
      by (simp add: unlock_read_def Let_def)
    ultimately show ?thesis using rw_inv_notify by presburger
  qed
  show "\<not> is_writer op \<Longrightarrow> rw_inv N (s\<lparr>c_map := m, cpcs := (cpcs s)(t := Waits2)\<rparr>)"
    using assms p ge by (auto simp: rw_inv_def rw_cnt_def rw_counts)
qed

lemma rw_inv_again:
  assumes "rw_inv N s" "t < N" "cpcs s t = Waits2"
  shows "rw_inv N (s\<lparr>read_cnt := read_cnt s + 1, cpcs := (cpcs s)(t := Outside), missed := missed s + 1\<rparr>)" "write_cnt s = 0"
  using assms rw_inv_pos [OF assms(1,2)] by (auto simp: rw_inv_def rw_cnt_def rw_counts)

lemma rw_inv_do:
  assumes "rw_inv N s" "t < N" "rw_do t a s = Some s'"
  shows "rw_inv N s'"
proof (cases a)
  case (Call op)
  then show ?thesis using assms by (auto simp: rw_inv_def rw_cnt_def rw_counts split: if_splits)
next
  case Test
  then consider op where "cpcs s t = Waits op" | "cpcs s t = Waits2" using assms(3) by (auto split: cpc.splits)
  then show ?thesis
  proof cases
    case (1 op)
    then show ?thesis using Test assms rw_inv_lock_read rw_inv_lock_write by (auto split: if_splits)
  next
    case 2
    then have "s' = s\<lparr>read_cnt := read_cnt s + 1, cpcs := (cpcs s)(t := Outside), missed := missed s + 1\<rparr>"
      using Test assms(3) rw_inv_again(2) [OF assms(1,2) 2] by (simp add: lock_read_def Let_def)
    then show ?thesis using rw_inv_again(1) [OF assms(1,2) 2] by simp
  qed
next
  case WakeUp
  have "cpcs s t = Sleeps op \<Longrightarrow> rw_inv N (s\<lparr>cpcs := (cpcs s)(t := Waits op)\<rparr>)" for op
    using assms(1,2) by (auto simp: rw_inv_def rw_cnt_def rw_counts)
  moreover have "cpcs s t = Sleeps2 \<Longrightarrow> rw_inv N (s\<lparr>cpcs := (cpcs s)(t := Waits2)\<rparr>)"
    using assms(1,2) by (auto simp: rw_inv_def rw_cnt_def rw_counts)
  ultimately show ?thesis using WakeUp assms(3) by (cases "cpcs s t") (auto split: if_splits)
next
  case (Work now)
  then obtain op where i: "cpcs s t = Inside op" using assms(3) by (auto split: cpc.splits)
  note w = rw_inv_Work [OF assms(1,2) i]
  show ?thesis
  proof (cases "is_writer op")
    case True
    then show ?thesis using Work assms(3) i w(1) [OF True] by (auto simp: Let_def)
  next
    case False
    then show ?thesis using Work assms(3) i w(2) [OF False, of "c_map s"] w(3) [OF False, of "c_map s"] by (auto simp: Let_def split: cache_op.splits if_splits)
  qed
qed

definition threads_below :: "nat \<Rightarrow> (nat \<times> cache_act) list \<Rightarrow> bool" where
  "threads_below N as \<longleftrightarrow> (\<forall>(t, a) \<in> set as. t < N)"

lemma rw_inv_run: "rw_run as s = Some s' \<Longrightarrow> threads_below N as \<Longrightarrow> rw_inv N s \<Longrightarrow> rw_inv N s'"
proof (induction as s rule: rw_run.induct)
  case (2 t a as s)
  then obtain s1 where "rw_do t a s = Some s1" "rw_run as s1 = Some s'" by (auto split: option.splits)
  then show ?case using "2.IH" [of s1] "2.prems" rw_inv_do [of N s t a s1] by (simp add: threads_below_def)
qed simp

section \<open>Properties of the lock\<close>

lemma threads_bound:
  obtains N where "threads_below N as" "t < N" "u < N"
proof -
  let ?M = "{t, u} \<union> fst ` set as"
  have le: "x \<in> ?M \<Longrightarrow> x < Suc (Max ?M)" for x by (intro le_imp_less_Suc Max_ge) auto
  have "a < Suc (Max ?M)" if "(a, b) \<in> set as" for a b using that by (intro le) (auto intro: rev_image_eqI)
  then have "threads_below (Suc (Max ?M)) as" unfolding threads_below_def by blast
  then show ?thesis using that le by blast
qed

lemma npcs_two:
  assumes "t < N" "u < N" "t \<noteq> u" "P (f t)" "P (f u)"
  shows "2 \<le> npcs N P f"
proof -
  have "sum (\<lambda>t. of_bool (P (f t)) :: int) {t, u} \<le> npcs N P f"
    unfolding npcs_def by (rule sum_mono2) (use assms in auto)
  then show ?thesis using assms by simp
qed

lemma rw_reach_inv: "rw_run as rw_init = Some s \<Longrightarrow> threads_below N as \<Longrightarrow> rw_inv N s"
  using rw_inv_run rw_inv_init by blast

text \<open>C39: In every state that any number of threads can reach, a thread that writes to the cache is the only one that is at work on it.\<close>

theorem rwlock_exclusive:
  assumes "rw_run as rw_init = Some s" "cpcs s t = Inside op" "is_writer op" "cpcs s u = Inside op'"
  shows "u = t"
proof (rule ccontr)
  assume ne: "u \<noteq> t"
  obtain N where N: "threads_below N as" "t < N" "u < N" by (rule threads_bound)
  have inv: "rw_inv N s" using rw_reach_inv assms(1) N(1) by blast
  have w: "write_cnt s = 1" "read_cnt s = 0" using rw_inv_pos(2) [OF inv N(2)] assms(2,3) by simp_all
  show False
  proof (cases "is_writer op'")
    case True
    then have "2 \<le> npcs N writing (cpcs s)" by (intro npcs_two [OF N(2,3) ne [symmetric]]) (use assms in simp_all)
    then show ?thesis using w inv by (simp add: rw_inv_def rw_cnt_def)
  next
    case False
    then show ?thesis using rw_inv_pos(1) [OF inv N(3)] assms(4) w by simp
  qed
qed

theorem rwlock_exclusive_witness:
  "let as = [(1, Call (Delete 3)), (1, Test), (2, Call (HasKey 3)), (2, Test)] in
   \<forall>s. rw_run as rw_init = Some s \<longrightarrow> cpcs s 1 = Inside (Delete 3) \<and> (cpcs s 2 = Inside (HasKey 3) \<longrightarrow> (2 :: nat) = 1)"
proof -
  let ?as = "[(1, Call (Delete 3)), (1, Test), (2, Call (HasKey 3)), (2, Test)] :: (nat \<times> cache_act) list"
  have "cpcs s 1 = Inside (Delete 3)" if "rw_run ?as rw_init = Some s" for s
    using that by (auto simp: rw_init_def lock_write_def lock_read_def)
  then show ?thesis using rwlock_exclusive [of ?as _ 1 "Delete 3" 2 "HasKey 3"] unfolding Let_def by (meson is_writer.simps(3))
qed

lemma npcs_some: "0 < npcs N P f \<Longrightarrow> \<exists>t<N. P (f t)"
  using npcs_zero [of N P f] by fastforce

text \<open>No notification is lost: a thread sleeps in the lock only while another one is inside it, or after \<open>get\<close> of a key that is not there.\<close>

theorem rwlock_no_lost_wakeup:
  assumes "rw_run as rw_init = Some s" "cpcs s t = Sleeps op" "missed s = 0"
  shows "\<exists>u. (\<exists>op'. cpcs s u = Inside op') \<or> cpcs s u = Waits2 \<or> cpcs s u = Sleeps2"
proof -
  obtain N where N: "threads_below N as" "t < N" "t < N" by (rule threads_bound)
  have inv: "rw_inv N s" using rw_reach_inv assms(1) N(1) by blast
  have "any_pc N sleeps_write (cpcs s) \<or> any_pc N sleeps_read (cpcs s)"
    using assms(2) N(2) unfolding any_pc_def by (cases "is_writer op") (metis sleeps_write.simps(1), metis sleeps_read.simps(1))
  then have "write_cnt s > 0 \<or> read_cnt s > 0" using inv by (auto simp: rw_inv_def)
  then have "0 < npcs N writing (cpcs s) \<or> 0 < npcs N reading (cpcs s)" using inv assms(3) by (auto simp: rw_inv_def rw_cnt_def)
  then obtain u where "writing (cpcs s u) \<or> reading (cpcs s u)" using npcs_some by blast
  then show ?thesis by (intro exI [of _ u]) (cases "cpcs s u"; simp)
qed

theorem rwlock_no_lost_wakeup_witness:
  "\<exists>u. (\<exists>op'. ((\<lambda>_. Outside)(1 := Inside (Delete 3), 2 := Sleeps (HasKey 3))) u = Inside op') \<or>
     ((\<lambda>_. Outside)(1 := Inside (Delete 3), 2 := Sleeps (HasKey 3))) u = Waits2 \<or>
     ((\<lambda>_. Outside)((1 :: nat) := Inside (Delete 3), 2 := Sleeps (HasKey 3))) u = Sleeps2"
proof -
  let ?as = "[(1, Call (Delete 3)), (1, Test), (2, Call (HasKey 3)), (2, Test)] :: (nat \<times> cache_act) list"
  let ?s = "\<lparr>read_cnt = 0, write_cnt = 1, c_map = Map.empty, cpcs = (\<lambda>_. Outside)(1 := Inside (Delete 3), 2 := Sleeps (HasKey 3)), missed = 0\<rparr>"
  have "rw_run ?as rw_init = Some ?s"
    by (simp add: rw_init_def lock_write_def lock_read_def)
  from rwlock_no_lost_wakeup [OF this, of 2 "HasKey 3"] show ?thesis by simp
qed

lemma missed_do:
  assumes "rw_inv N s" "0 < missed s" "t < N" "rw_do t a s = Some s'"
  shows "c_map s' = c_map s \<and> 0 < missed s'"
proof -
  have nw: "\<not> writing (cpcs s t)"
    using rw_inv_pos(2) [OF assms(1,3)] assms(1,2) npcs_ge0 [of N reading "cpcs s"] by (auto simp: rw_inv_def rw_cnt_def)
  show ?thesis
  proof (cases a)
    case (Work now)
    then obtain op where i: "cpcs s t = Inside op" "\<not> is_writer op" using assms(4) nw by (auto split: cpc.splits)
    then show ?thesis using Work assms(2,4)
      by (auto simp: Let_def unlock_read_def notify_all_def split: cache_op.splits if_splits)
  qed (use assms(2,4) in \<open>auto simp: lock_read_def lock_write_def Let_def split: cpc.splits if_splits\<close>)
qed

text \<open>C40: After one call of \<open>get\<close> for a key that is not there, the cache is frozen: nothing that any thread does from then on changes it, for its
second \<open>lock_read\<close> leaves two readers in the count that never go.\<close>

theorem missing_key_freezes_cache:
  assumes "rw_run as rw_init = Some s" "0 < missed s" "rw_run as' s = Some s'"
  shows "c_map s' = c_map s"
proof -
  obtain N where N: "threads_below N (as @ as')" using threads_bound by blast
  then have "threads_below N as" "threads_below N as'" by (auto simp: threads_below_def)
  then have "rw_inv N s" using rw_reach_inv assms(1) by blast
  from assms(3) \<open>threads_below N as'\<close> this assms(2) show ?thesis
  proof (induction as' s rule: rw_run.induct)
    case (2 t a as s)
    then obtain s1 where s1: "rw_do t a s = Some s1" "rw_run as s1 = Some s'" by (auto split: option.splits)
    have t: "t < N" "threads_below N as" using "2.prems"(2) by (auto simp: threads_below_def)
    from missed_do [OF "2.prems"(3,4) t(1) s1(1)] have m: "c_map s1 = c_map s" "0 < missed s1" by simp_all
    then show ?case using "2.IH" [OF s1 t(2) rw_inv_do [OF "2.prems"(3) t(1) s1(1)] m(2)] by simp
  qed simp
qed

theorem missing_key_freezes_cache_witness:
  "\<exists>s s'. rw_run [(1, Call (Get 3)), (1, Test), (1, Work 0), (1, Test)] rw_init = Some s \<and> missed s = 1 \<and>
     rw_run [(2, Call (Create 3 1 2 0 ''x'')), (2, Test)] s = Some s' \<and> cpcs s' 2 = Sleeps (Create 3 1 2 0 ''x'') \<and> c_map s' = c_map s"
proof -
  let ?s = "\<lparr>read_cnt = 2, write_cnt = 0, c_map = Map.empty, cpcs = (\<lambda>_. Outside), missed = 1\<rparr>"
  let ?s' = "?s\<lparr>cpcs := (\<lambda>_. Outside)(2 := Sleeps (Create 3 1 2 0 ''x''))\<rparr>"
  have 1: "rw_run [(1, Call (Get 3)), (1, Test), (1, Work 0), (1, Test)] rw_init = Some ?s"
    by (simp add: rw_init_def lock_read_def fun_eq_iff)
  have 2: "rw_run [(2, Call (Create 3 1 2 0 ''x'')), (2, Test)] ?s = Some ?s'"
    by (simp add: lock_write_def)
  from missing_key_freezes_cache [OF 1 _ 2] show ?thesis using 1 2 by (intro exI [of _ ?s] exI [of _ ?s']) simp
qed

section \<open>Which servers want a result\<close>

text \<open>\<open>SidMapSer\<close>: for each submission a set of servers as the bits of an \<open>unsigned int\<close>. A shift by a number outside of \<open>0..31\<close> is undefined
(\<open>None\<close>).\<close>

definition ser_bit :: "int \<Rightarrow> 32 word option" where
  "ser_bit pos = (if 0 \<le> pos \<and> pos < 32 then Some (push_bit (nat pos) 1) else None)"

definition ser_clear :: "int \<Rightarrow> 32 word \<Rightarrow> 32 word option" where
  "ser_clear pos v = map_option (\<lambda>b. v AND NOT b) (ser_bit pos)"

definition ser_set :: "int \<Rightarrow> 32 word \<Rightarrow> 32 word option" where
  "ser_set pos v = map_option (\<lambda>b. v OR b) (ser_bit pos)"

definition has_sid :: "32 word \<Rightarrow> int \<Rightarrow> bool option" where
  "has_sid v cid = map_option (\<lambda>b. v AND b \<noteq> 0) (ser_bit cid)"

type_synonym sid_map = "nat \<Rightarrow> 32 word option"

definition sid_get :: "nat \<Rightarrow> sid_map \<Rightarrow> 32 word" where
  "sid_get sid m = (case m sid of None \<Rightarrow> 0 | Some v \<Rightarrow> v)"

text \<open>\<open>_map[sid]\<close> makes an empty entry when there is none.\<close>

definition sid_push :: "nat \<Rightarrow> int \<Rightarrow> sid_map \<Rightarrow> sid_map option" where
  "sid_push sid cid m = map_option (\<lambda>v. m(sid \<mapsto> v)) (ser_set cid (sid_get sid m))"

definition sid_pop :: "nat \<Rightarrow> int \<Rightarrow> sid_map \<Rightarrow> sid_map option" where
  "sid_pop sid cid m =
     (case m sid of None \<Rightarrow> Some m | Some v \<Rightarrow> map_option (\<lambda>v. m(sid \<mapsto> v)) (ser_clear cid v))"

text \<open>The servers that listen to a submission, as a set.\<close>

definition listeners :: "nat \<Rightarrow> sid_map \<Rightarrow> nat set" where
  "listeners sid m = {c. bit (sid_get sid m) c}"

lemma has_sid_listeners: "c < 32 \<Longrightarrow> has_sid (sid_get sid m) (int c) = Some (c \<in> listeners sid m)"
proof -
  assume "c < 32"
  moreover have "v AND push_bit c 1 \<noteq> 0 \<longleftrightarrow> bit v c" if "c < 32" for v :: "32 word"
  proof -
    have "n = c" if "n - c = 0" "c \<le> n" for n using that by simp
    then show ?thesis using that unfolding bit_eq_iff [of "v AND push_bit c 1" 0] by (auto simp: bit_simps bit_1_iff)
  qed
  ultimately show ?thesis by (simp add: has_sid_def ser_bit_def listeners_def)
qed

lemma sid_push_listeners:
  assumes "c < 32"
  shows "\<exists>m'. sid_push sid (int c) m = Some m' \<and> listeners s m' = (if s = sid then insert c (listeners sid m) else listeners s m)"
  using assms by (auto simp: sid_push_def ser_set_def ser_bit_def listeners_def sid_get_def bit_simps split: option.splits)

lemma sid_pop_listeners:
  assumes "c < 32"
  shows "\<exists>m'. sid_pop sid (int c) m = Some m' \<and> listeners s m' = (if s = sid then listeners sid m - {c} else listeners s m)"
  using assms bit_imp_le_length [where 'a = 32]
  by (cases "m sid") (auto simp: sid_pop_def ser_clear_def ser_bit_def listeners_def sid_get_def bit_simps split: option.splits)

end
