(* ===== verification/DbConn.thy ===== *)
theory DbConn
  imports StrUtils
begin

text \<open>
  Connection strings of the database layer (\<open>libs/modern_cppdb/include\<close>): \<open>trim\<close> and \<open>parse_connection_string\<close> of \<open>utils.hpp\<close>,
  \<open>connection_info\<close> of \<open>connection_info.hpp\<close>, and the options that a \<open>backend::connection\<close> sets from it (\<open>mysql_backend.hpp\<close>). A position in the
  string is the suffix from there on. The loop that looks for the end of a property can run for ever; it is a \<open>partial_function\<close>, and
  \<open>None\<close> says that the code does not return.
\<close>

section \<open>Parsing\<close>

definition is_blank_char :: "char \<Rightarrow> bool" where
  "is_blank_char c \<longleftrightarrow> c = CHR '' '' \<or> c = CHR 0x09 \<or> c = CHR 0x0D \<or> c = CHR 0x0A \<or> c = CHR 0x0C"

fun trim_end :: "string \<Rightarrow> nat \<Rightarrow> nat \<Rightarrow> nat" where
  "trim_end s start 0 = 0"
| "trim_end s start (Suc e) = (if Suc e > start \<and> is_blank_char (s ! Suc e) then trim_end s start e else Suc e)"

text \<open>When all characters are blank, \<open>end - start + 1\<close> is zero (as a \<open>size_t\<close> as well).\<close>

definition cs_trim :: "string \<Rightarrow> string" where
  "cs_trim s =
     (if s = [] then s
      else let start = length (takeWhile is_blank_char s); en = trim_end s start (length s - 1)
           in take (en + 1 - start) (drop start s))"

definition QUOTE :: char where "QUOTE = CHR 0x27"

fun cs_quoted :: "string \<Rightarrow> string \<Rightarrow> (string \<times> string) res" where
  "cs_quoted [] value = Throw ''Invalid connection string unterminated string''"
| "cs_quoted (c # s) value =
     (if c = QUOTE then
        (case s of
           [] \<Rightarrow> Val (value, s)
         | c' # s' \<Rightarrow> if c' = QUOTE then cs_quoted s' (value @ [QUOTE]) else Val (value, s))
      else cs_quoted s (value @ [c]))"

text \<open>The value of a property from behind its \<open>=\<close> on.\<close>

definition cs_value :: "string \<Rightarrow> (string \<times> string) res" where
  "cs_value s =
     (let s = dropWhile is_blank_char s in
      case s of
        [] \<Rightarrow> Val ([], [])
      | c # s' \<Rightarrow>
          if c = QUOTE then cs_quoted s' []
          else Val (cs_trim (takeWhile (\<lambda>c. c \<noteq> CHR '';'') s), dropWhile (\<lambda>c. c \<noteq> CHR '';'') s))"

text \<open>A character that is neither blank nor a semicolon is not passed.\<close>

partial_function (option) cs_skip :: "string \<Rightarrow> string option" where
  "cs_skip s =
     (case s of
        [] \<Rightarrow> Some []
      | c # s' \<Rightarrow> if is_blank_char c then cs_skip s' else if c = CHR '';'' then Some s' else cs_skip (c # s'))"

declare cs_skip.simps [code]

text \<open>What the loop does.\<close>

lemma cs_skip_stuck:
  assumes "\<not> is_blank_char c" "c \<noteq> CHR '';''"
  shows "cs_skip (c # s) = None"
proof -
  have "x \<noteq> c # s" if "cs_skip x = Some r" for x r
  proof (rule cs_skip.raw_induct [where P = "\<lambda>x _. x \<noteq> c # s", OF _ that])
    fix f :: "string \<Rightarrow> string option" and x r
    assume "\<And>x r. f x = Some r \<Longrightarrow> x \<noteq> c # s"
      and "(case x of [] \<Rightarrow> Some [] | c # s' \<Rightarrow> if is_blank_char c then f s' else if c = CHR '';'' then Some s' else f (c # s')) = Some r"
    then show "x \<noteq> c # s" using assms by (auto split: list.splits if_splits)
  qed
  then show ?thesis by (cases "cs_skip (c # s)") auto
qed

lemma cs_skip_eq:
  "cs_skip s = (case dropWhile is_blank_char s of [] \<Rightarrow> Some [] | c # s' \<Rightarrow> if c = CHR '';'' then Some s' else None)"
proof (induction s)
  case (Cons c s)
  have semi: "\<not> is_blank_char (CHR '';'')" by (simp add: is_blank_char_def)
  consider "is_blank_char c" | "c = CHR '';''" | "\<not> is_blank_char c" "c \<noteq> CHR '';''" by blast
  then show ?case
  proof cases
    case 1
    then show ?thesis using Cons by (simp add: cs_skip.simps [of "c # s"])
  next
    case 2
    then show ?thesis unfolding 2 by (subst cs_skip.simps) (simp add: semi)
  qed (simp add: cs_skip_stuck)
qed (simp add: cs_skip.simps)

lemma cs_skip_Some: "cs_skip s = Some t \<Longrightarrow> length t \<le> length s"
  using length_dropWhile_le [of is_blank_char s] by (auto simp: cs_skip_eq split: list.splits if_splits)

lemma cs_quoted_Val: "cs_quoted s v = Val (v', t) \<Longrightarrow> length t < length s"
  by (induction s v arbitrary: v' t rule: cs_quoted.induct) (fastforce split: if_splits list.splits)+

lemma cs_value_Val: "cs_value s = Val (v, t) \<Longrightarrow> length t \<le> length s"
proof -
  assume v: "cs_value s = Val (v, t)"
  have l: "length (dropWhile is_blank_char s) \<le> length s" by (rule length_dropWhile_le)
  show ?thesis
  proof (cases "dropWhile is_blank_char s")
    case Nil
    show ?thesis using v [unfolded cs_value_def Nil Let_def] by simp
  next
    case (Cons c s')
    show ?thesis
    proof (cases "c = QUOTE")
      case True
      then have "cs_quoted s' [] = Val (v, t)" using v by (simp add: cs_value_def Cons)
      then show ?thesis using cs_quoted_Val [of s'] l Cons by fastforce
    next
      case False
      then have "t = dropWhile (\<lambda>c. c \<noteq> CHR '';'') (c # s')" using v by (simp add: cs_value_def Cons)
      then show ?thesis using length_dropWhile_le [of "\<lambda>c. c \<noteq> CHR '';''" "c # s'"] l Cons by simp
    qed
  qed
qed

lemma cs_loop_less:
  assumes "CHR ''='' \<in> set s" "cs_value (tl (dropWhile (\<lambda>c. c \<noteq> CHR ''='') s)) = Val (v, t)" "cs_skip t = Some u"
  shows "length u < length s"
proof -
  have "dropWhile (\<lambda>c. c \<noteq> CHR ''='') s \<noteq> []" using assms(1) by (auto simp: dropWhile_eq_Nil_conv)
  then have "length (tl (dropWhile (\<lambda>c. c \<noteq> CHR ''='') s)) < length s"
    using length_dropWhile_le [of "\<lambda>c. c \<noteq> CHR ''=''" s] by (cases "dropWhile (\<lambda>c. c \<noteq> CHR ''='') s") auto
  then show ?thesis using cs_value_Val [OF assms(2)] cs_skip_Some [OF assms(3)] by simp
qed

type_synonym properties = "string \<Rightarrow> string option"

text \<open>The loop over the properties. \<open>None\<close>: it does not end.\<close>

function cs_loop :: "string \<Rightarrow> properties \<Rightarrow> properties res option" where
  "cs_loop s params =
     (if s = [] then Some (Val params)
      else if CHR ''='' \<notin> set s then Some (Throw ''Invalid connection string - invalid property'')
      else
        let key = cs_trim (takeWhile (\<lambda>c. c \<noteq> CHR ''='') s)
        in case cs_value (tl (dropWhile (\<lambda>c. c \<noteq> CHR ''='') s)) of
             Throw e \<Rightarrow> Some (Throw e)
           | UB \<Rightarrow> Some UB
           | Val (value, s) \<Rightarrow>
               if key \<in> dom params then Some (Throw ''cppdb::invalid connection string duplicate key'')
               else case cs_skip s of None \<Rightarrow> None | Some s \<Rightarrow> cs_loop s (params(key \<mapsto> value)))"
  by pat_completeness auto
termination by (relation "measure (\<lambda>(s, _). length s)") (auto dest!: cs_loop_less)

declare cs_loop.simps [simp del]

definition parse_connection_string :: "string \<Rightarrow> (string \<times> properties) res option" where
  "parse_connection_string cs =
     (if CHR '':'' \<notin> set cs then Some (Throw ''cppdb::Invalid connection string - no driver given'')
      else case cs_loop (tl (dropWhile (\<lambda>c. c \<noteq> CHR '':'') cs)) Map.empty of
             None \<Rightarrow> None
           | Some r \<Rightarrow> Some (rbind r (\<lambda>params. Val (takeWhile (\<lambda>c. c \<noteq> CHR '':'') cs, params))))"

section \<open>Trimming\<close>

lemma split_at:
  assumes "c \<notin> set v"
  shows "takeWhile (\<lambda>x. x \<noteq> c) (v @ c # s) = v" "dropWhile (\<lambda>x. x \<noteq> c) (v @ c # s) = c # s"
proof -
  have "\<And>x. x \<in> set v \<Longrightarrow> x \<noteq> c" using assms by auto
  then show "takeWhile (\<lambda>x. x \<noteq> c) (v @ c # s) = v" "dropWhile (\<lambda>x. x \<noteq> c) (v @ c # s) = c # s"
    by (simp_all add: takeWhile_append2 dropWhile_append2)
qed

definition trimmed :: "string \<Rightarrow> bool" where
  "trimmed s \<longleftrightarrow> s = [] \<or> \<not> is_blank_char (hd s) \<and> \<not> is_blank_char (last s)"

lemma trim_end_eq: "\<not> is_blank_char (s ! e) \<Longrightarrow> trim_end s st e = e"
  by (cases e) auto

lemma cs_trim_trimmed [simp]: "trimmed s \<Longrightarrow> cs_trim s = s"
proof -
  assume t: "trimmed s"
  show ?thesis
  proof (cases s)
    case (Cons c cs)
    then have "takeWhile is_blank_char s = []" "\<not> is_blank_char (s ! (length s - 1))"
      using t last_conv_nth [of s] by (auto simp: trimmed_def)
    then show ?thesis unfolding cs_trim_def Let_def using trim_end_eq [of s "length s - 1"] Cons by simp
  qed (simp add: cs_trim_def)
qed

section \<open>Printed strings\<close>

text \<open>A value as it is, or in quotes, which are doubled in it.\<close>

datatype value_form = Plain string | Quoted string

definition double_quotes :: "string \<Rightarrow> string" where
  "double_quotes v = concat (map (\<lambda>c. if c = QUOTE then [QUOTE, QUOTE] else [c]) v)"

fun form_text :: "value_form \<Rightarrow> string" where
  "form_text (Plain v) = v"
| "form_text (Quoted v) = QUOTE # double_quotes v @ [QUOTE]"

fun form_value :: "value_form \<Rightarrow> string" where
  "form_value (Plain v) = v"
| "form_value (Quoted v) = v"

fun form_ok :: "value_form \<Rightarrow> bool" where
  "form_ok (Plain v) \<longleftrightarrow> trimmed v \<and> CHR '';'' \<notin> set v \<and> (v = [] \<or> hd v \<noteq> QUOTE)"
| "form_ok (Quoted v) \<longleftrightarrow> True"

definition key_ok :: "string \<Rightarrow> bool" where
  "key_ok k \<longleftrightarrow> trimmed k \<and> CHR ''='' \<notin> set k"

definition print_props :: "(string \<times> value_form) list \<Rightarrow> string" where
  "print_props ps = concat (map (\<lambda>(k, f). k @ ''='' @ form_text f @ '';'') ps)"

lemma cs_quoted_read:
  "s = [] \<or> hd s \<noteq> QUOTE \<Longrightarrow> cs_quoted (double_quotes v @ QUOTE # s) u = Val (u @ v, s)"
proof (induction v arbitrary: u)
  case Nil
  then show ?case by (auto simp: double_quotes_def split: list.splits)
next
  case (Cons c v)
  then show ?case using Cons.IH [of "u @ [c]"] by (simp add: double_quotes_def)
qed

lemma semi_not_blank [simp]: "\<not> is_blank_char (CHR '';'')" "\<not> is_blank_char QUOTE"
  by (simp_all add: is_blank_char_def QUOTE_def)

lemma cs_value_read:
  assumes "form_ok f"
  shows "cs_value (form_text f @ CHR '';'' # s) = Val (form_value f, CHR '';'' # s)"
proof (cases f)
  case (Plain v)
  have q: "CHR '';'' \<noteq> QUOTE" by (simp add: QUOTE_def)
  show ?thesis
  proof (cases v)
    case Nil
    then show ?thesis using Plain q by (simp add: cs_value_def cs_trim_def)
  next
    case (Cons c cs)
    then have "\<not> is_blank_char c" "c \<noteq> QUOTE" "cs_trim v = v" "CHR '';'' \<notin> set v"
      using assms Plain by (auto simp: trimmed_def)
    moreover from this have "dropWhile is_blank_char (v @ CHR '';'' # s) = v @ CHR '';'' # s" using Cons by simp
    ultimately show ?thesis using Plain split_at [of "CHR '';''" v s] Cons by (simp add: cs_value_def)
  qed
next
  case (Quoted v)
  have "CHR '';'' \<noteq> QUOTE" by (simp add: QUOTE_def)
  then show ?thesis using Quoted cs_quoted_read [of "CHR '';'' # s" v "[]"] by (simp add: cs_value_def)
qed

lemma cs_loop_read:
  assumes "key_ok k" "cs_value t = Val (v, s)" "k \<notin> dom m"
  shows "cs_loop (k @ CHR ''='' # t) m = (case cs_skip s of None \<Rightarrow> None | Some s \<Rightarrow> cs_loop s (m(k \<mapsto> v)))"
proof -
  have "CHR ''='' \<notin> set k" "cs_trim k = k" using assms(1) by (simp_all add: key_ok_def)
  then show ?thesis using assms(2,3) split_at [of "CHR ''=''" k t] by (subst cs_loop.simps) (auto simp: Let_def)
qed

lemma cs_loop_print:
  assumes "\<forall>(k, f)\<in>set ps. key_ok k \<and> form_ok f" "distinct (map fst ps)" "\<forall>k\<in>fst ` set ps. k \<notin> dom m"
  shows "cs_loop (print_props ps @ s) m = cs_loop s (m ++ map_of (map (\<lambda>(k, f). (k, form_value f)) ps))"
  using assms
proof (induction ps arbitrary: m)
  case (Cons p ps)
  obtain k f where p: "p = (k, f)" by fastforce
  have loop: "cs_loop (print_props (p # ps) @ s) m = cs_loop (print_props ps @ s) (m(k \<mapsto> form_value f))"
    using Cons.prems p cs_loop_read [of k _ "form_value f" _ m] cs_value_read [of f "print_props ps @ s"]
    by (simp add: print_props_def cs_skip_eq)
  have "map_of (map (\<lambda>(k, f). (k, form_value f)) ps) k = None"
    using Cons.prems(2) p by (auto simp: map_of_eq_None_iff image_iff)
  then have upd: "m(k \<mapsto> form_value f) ++ map_of (map (\<lambda>(k, f). (k, form_value f)) ps) =
      m ++ map_of (map (\<lambda>(k, f). (k, form_value f)) (p # ps))"
    by (auto simp: p map_add_def fun_eq_iff split: option.splits)
  have new: "\<forall>x\<in>fst ` set ps. x \<notin> dom (m(k \<mapsto> form_value f))" using Cons.prems(2,3) p by auto
  show ?case unfolding loop upd [symmetric] by (rule Cons.IH [OF _ _ new]) (use Cons.prems(1,2) in simp_all)
qed (simp add: print_props_def)

lemma parse_driver:
  assumes "CHR '':'' \<notin> set d"
  shows "parse_connection_string (d @ CHR '':'' # s) =
    (case cs_loop s Map.empty of None \<Rightarrow> None | Some r \<Rightarrow> Some (rbind r (\<lambda>params. Val (d, params))))"
  unfolding parse_connection_string_def split_at [OF assms] by simp

section \<open>Where the loop does not end\<close>

text \<open>Without quotes the loop ends; the value ends with the string, or before a semicolon.\<close>

lemma set_tl_dropWhile: "set (tl (dropWhile P s)) \<subseteq> set s"
proof
  fix x assume "x \<in> set (tl (dropWhile P s))"
  then have "x \<in> set (dropWhile P s)" by (cases "dropWhile P s") (simp_all del: dropWhile_eq_Nil_conv)
  then show "x \<in> set s" by (rule set_dropWhileD)
qed

lemma cs_value_plain:
  assumes "QUOTE \<notin> set s"
  shows "\<exists>v t u. cs_value s = Val (v, t) \<and> cs_skip t = Some u \<and> set u \<subseteq> set s"
proof (cases "dropWhile is_blank_char s")
  case Nil
  have "cs_value s = Val ([], [])" unfolding cs_value_def Nil Let_def by simp
  moreover have "cs_skip [] = Some []" by (simp add: cs_skip_eq)
  ultimately show ?thesis by simp
next
  case (Cons c cs)
  have sub: "set (c # cs) \<subseteq> set s" using set_dropWhileD [of _ is_blank_char s] unfolding Cons by blast
  then have "c \<noteq> QUOTE" using assms by auto
  then have v: "cs_value s = Val (cs_trim (takeWhile (\<lambda>c. c \<noteq> CHR '';'') (c # cs)), dropWhile (\<lambda>c. c \<noteq> CHR '';'') (c # cs))"
    by (simp add: cs_value_def Cons)
  have "\<exists>u. cs_skip (dropWhile (\<lambda>c. c \<noteq> CHR '';'') (c # cs)) = Some u \<and> set u \<subseteq> set s"
  proof (cases "dropWhile (\<lambda>c. c \<noteq> CHR '';'') (c # cs)")
    case Nil
    show ?thesis unfolding Nil by (simp add: cs_skip_eq)
  next
    case (Cons x xs)
    have "x = CHR '';''" using hd_dropWhile [of "\<lambda>c. c \<noteq> CHR '';''" "c # cs"] unfolding Cons by simp
    moreover have "set xs \<subseteq> set s" using set_tl_dropWhile [of "\<lambda>c. c \<noteq> CHR '';''" "c # cs"] sub unfolding Cons by auto
    ultimately show ?thesis unfolding Cons by (simp add: cs_skip_eq)
  qed
  then show ?thesis using v by blast
qed

lemma cs_loop_plain: "QUOTE \<notin> set s \<Longrightarrow> cs_loop s m \<noteq> None"
proof (induction s m rule: cs_loop.induct)
  case (1 s m)
  let ?t = "tl (dropWhile (\<lambda>c. c \<noteq> CHR ''='') s)" and ?k = "cs_trim (takeWhile (\<lambda>c. c \<noteq> CHR ''='') s)"
  have "QUOTE \<notin> set ?t" using "1.prems" set_tl_dropWhile [of "\<lambda>c. c \<noteq> CHR ''=''" s] by blast
  from cs_value_plain [OF this] obtain v t u where v: "cs_value ?t = Val (v, t)" "cs_skip t = Some u" and u: "set u \<subseteq> set ?t" by blast
  then have q: "QUOTE \<notin> set u" using \<open>QUOTE \<notin> set ?t\<close> by blast
  show ?case
  proof (cases "s = [] \<or> CHR ''='' \<notin> set s \<or> ?k \<in> dom m")
    case True
    then show ?thesis unfolding cs_loop.simps [of s m] Let_def v(1) res.case prod.case by auto
  next
    case False
    then have "cs_loop u (m(?k \<mapsto> v)) \<noteq> None" using "1.IH" [OF _ _ refl v(1) refl _ v(2) q] by blast
    then show ?thesis using False unfolding cs_loop.simps [of s m] Let_def v(1) res.case prod.case v(2) option.case by simp
  qed
qed

text \<open>After a value in quotes nothing but blanks may stand before the semicolon.\<close>

lemma cs_loop_stuck:
  assumes "key_ok k" "k \<notin> dom m" "list_all is_blank_char bs" "\<not> is_blank_char c" "c \<noteq> CHR '';''" "c \<noteq> QUOTE"
  shows "cs_loop (k @ CHR ''='' # form_text (Quoted v) @ bs @ c # s) m = None"
proof -
  have "bs @ c # s = [] \<or> hd (bs @ c # s) \<noteq> QUOTE" using assms(3,6) by (cases bs) auto
  then have "cs_value (form_text (Quoted v) @ bs @ c # s) = Val (v, bs @ c # s)"
    using cs_quoted_read [of "bs @ c # s" v "[]"] by (simp add: cs_value_def)
  moreover have "dropWhile is_blank_char (bs @ c # s) = c # s"
    using assms(3,4) by (induction bs) auto
  then have "cs_skip (bs @ c # s) = None" using assms(5) by (simp add: cs_skip_eq)
  ultimately show ?thesis using cs_loop_read [OF assms(1) _ assms(2)] by simp
qed

section \<open>The parsed string\<close>

record connection_info =
  connection_string :: string
  driver :: string
  properties :: properties

definition connection_info_new :: "string \<Rightarrow> connection_info res option" where
  "connection_info_new cs =
     map_option (\<lambda>r. rbind r (\<lambda>(d, ps). Val \<lparr>connection_string = cs, driver = d, properties = ps\<rparr>)) (parse_connection_string cs)"

definition ci_get :: "string \<Rightarrow> string \<Rightarrow> connection_info \<Rightarrow> string" where
  "ci_get prop default_value ci = (case properties ci prop of None \<Rightarrow> default_value | Some v \<Rightarrow> v)"

definition ci_has :: "string \<Rightarrow> connection_info \<Rightarrow> bool" where
  "ci_has prop ci \<longleftrightarrow> properties ci prop \<noteq> None"

text \<open>\<open>>>\<close> of a stream into an \<open>int\<close> in the classic locale, up to the end of the stream (\<open>None\<close> when it fails or stops before).\<close>

definition is_space :: "char \<Rightarrow> bool" where
  "is_space c \<longleftrightarrow> c = CHR '' '' \<or> (9 \<le> ccode c \<and> ccode c \<le> 13)"

definition stream_int :: "string \<Rightarrow> int option" where
  "stream_int s =
     (let s = dropWhile is_space s;
          neg = (s \<noteq> [] \<and> hd s = CHR ''-'');
          ds = (if s \<noteq> [] \<and> (hd s = CHR ''-'' \<or> hd s = CHR ''+'') then tl s else s);
          v = (if neg then - int (digits_value 0 ds) else int (digits_value 0 ds))
      in if ds \<noteq> [] \<and> list_all is_digit ds \<and> - (2 ^ 31) \<le> v \<and> v < 2 ^ 31 then Some v else None)"

definition ci_get_int :: "string \<Rightarrow> int \<Rightarrow> connection_info \<Rightarrow> int res" where
  "ci_get_int prop default_value ci =
     (case properties ci prop of
        None \<Rightarrow> Val default_value
      | Some v \<Rightarrow>
          (case stream_int v of
             None \<Rightarrow> Throw (''cppdb::connection_info property '' @ prop @ '' expected to be integer value'')
           | Some val \<Rightarrow> Val val))"

section \<open>A connection\<close>

datatype mysql_option =
    MYSQL_DEFAULT_AUTH | MYSQL_INIT_COMMAND | MYSQL_OPT_COMPRESS | MYSQL_OPT_CONNECT_TIMEOUT | MYSQL_OPT_GUESS_CONNECTION
  | MYSQL_OPT_NAMED_PIPE | MYSQL_OPT_PROTOCOL | MYSQL_OPT_READ_TIMEOUT | MYSQL_OPT_RECONNECT | MYSQL_PLUGIN_DIR | MYSQL_SET_CLIENT_IP
  | MYSQL_OPT_SSL_VERIFY_SERVER_CERT | MYSQL_OPT_USE_EMBEDDED_CONNECTION | MYSQL_OPT_USE_REMOTE_CONNECTION | MYSQL_OPT_WRITE_TIMEOUT
  | MYSQL_READ_DEFAULT_FILE | MYSQL_READ_DEFAULT_GROUP | MYSQL_REPORT_DATA_TRUNCATION | MYSQL_SECURE_AUTH | MYSQL_SET_CHARSET_DIR
  | MYSQL_SET_CHARSET_NAME | MYSQL_SHARED_MEMORY_BASE_NAME | MYSQL_OPT_LOCAL_INFILE

text \<open>What an option points to: characters, nothing, an \<open>unsigned\<close>, or a \<open>my_bool\<close>, which is a \<open>char\<close>.\<close>

datatype opt_arg = StrArg string | NullArg | UIntArg nat | BoolArg nat

type_synonym opt_calls = "(mysql_option \<times> opt_arg) list"

definition str_option :: "connection_info \<Rightarrow> string \<Rightarrow> mysql_option \<Rightarrow> opt_calls res" where
  "str_option ci prop opt = (let v = ci_get prop [] ci in Val (if v \<noteq> [] then [(opt, StrArg v)] else []))"

definition int_option :: "connection_info \<Rightarrow> string \<Rightarrow> int \<Rightarrow> (int \<Rightarrow> opt_calls) \<Rightarrow> opt_calls res" where
  "int_option ci prop def calls =
     (if ci_has prop ci then rbind (ci_get_int prop def ci) (\<lambda>v. Val (if v \<noteq> 0 then calls v else [])) else Val [])"

definition flag_option :: "connection_info \<Rightarrow> string \<Rightarrow> mysql_option \<Rightarrow> opt_calls res" where
  "flag_option ci prop opt = int_option ci prop 1 (\<lambda>_. [(opt, NullArg)])"

definition uint_option :: "connection_info \<Rightarrow> string \<Rightarrow> mysql_option \<Rightarrow> opt_calls res" where
  "uint_option ci prop opt = int_option ci prop 0 (\<lambda>v. [(opt, UIntArg (nat (v mod 2 ^ 32)))])"

definition bool_option :: "connection_info \<Rightarrow> string \<Rightarrow> mysql_option \<Rightarrow> opt_calls res" where
  "bool_option ci prop opt = int_option ci prop 1 (\<lambda>v. [(opt, BoolArg (nat (v mod 2 ^ 8)))])"

fun all_options :: "opt_calls res list \<Rightarrow> opt_calls res" where
  "all_options [] = Val []"
| "all_options (r # rs) = rbind r (\<lambda>cs. rbind (all_options rs) (\<lambda>cs'. Val (cs @ cs')))"

text \<open>The calls of \<open>mysql_set_option\<close> in their order, for the versions of the client that have all of the options.\<close>

definition connection_options :: "connection_info \<Rightarrow> opt_calls res" where
  "connection_options ci = all_options
     [str_option ci ''default_auth'' MYSQL_DEFAULT_AUTH,
      str_option ci ''init_command'' MYSQL_INIT_COMMAND,
      flag_option ci ''opt_compress'' MYSQL_OPT_COMPRESS,
      uint_option ci ''opt_connect_timeout'' MYSQL_OPT_CONNECT_TIMEOUT,
      flag_option ci ''opt_guess_connection'' MYSQL_OPT_GUESS_CONNECTION,
      uint_option ci ''opt_local_infile'' MYSQL_OPT_CONNECT_TIMEOUT,
      flag_option ci ''opt_named_pipe'' MYSQL_OPT_NAMED_PIPE,
      uint_option ci ''opt_protocol'' MYSQL_OPT_PROTOCOL,
      uint_option ci ''opt_read_timeout'' MYSQL_OPT_READ_TIMEOUT,
      bool_option ci ''opt_reconnect'' MYSQL_OPT_RECONNECT,
      str_option ci ''plugin_dir'' MYSQL_PLUGIN_DIR,
      str_option ci ''set_client_ip'' MYSQL_SET_CLIENT_IP,
      bool_option ci ''opt_ssl_verify_server_cert'' MYSQL_OPT_SSL_VERIFY_SERVER_CERT,
      flag_option ci ''opt_use_embedded_connection'' MYSQL_OPT_USE_EMBEDDED_CONNECTION,
      flag_option ci ''opt_use_remote_connection'' MYSQL_OPT_USE_REMOTE_CONNECTION,
      uint_option ci ''opt_write_timeout'' MYSQL_OPT_WRITE_TIMEOUT,
      str_option ci ''read_default_file'' MYSQL_READ_DEFAULT_FILE,
      str_option ci ''read_default_group'' MYSQL_READ_DEFAULT_GROUP,
      bool_option ci ''report_data_truncation'' MYSQL_REPORT_DATA_TRUNCATION,
      bool_option ci ''secure_auth'' MYSQL_SECURE_AUTH,
      str_option ci ''set_charset_dir'' MYSQL_SET_CHARSET_DIR,
      str_option ci ''set_charset_name'' MYSQL_SET_CHARSET_NAME,
      str_option ci ''shared_memory_base_name'' MYSQL_SHARED_MEMORY_BASE_NAME]"

record real_connect =
  rc_host :: "string option"
  rc_user :: "string option"
  rc_password :: "string option"
  rc_database :: "string option"
  rc_port :: int
  rc_unix_socket :: "string option"

definition arg_of :: "string \<Rightarrow> string option" where
  "arg_of s = (if s = [] then None else Some s)"

text \<open>The constructor. \<open>init\<close>, \<open>set_opt\<close> and \<open>real_connect\<close> say whether the calls of the client library succeed; the last one gives its error
message otherwise.\<close>

definition connection_new ::
  "bool \<Rightarrow> (mysql_option \<times> opt_arg \<Rightarrow> bool) \<Rightarrow> (opt_calls \<Rightarrow> real_connect \<Rightarrow> string option) \<Rightarrow> connection_info \<Rightarrow> (opt_calls \<times> real_connect) res" where
  "connection_new init set_opt real_connect ci =
     (if \<not> init then Throw ''cppdb::mysql failed to create connection''
      else
        rbind (ci_get_int ''port'' 3306 ci) (\<lambda>port.
          let rc = \<lparr>rc_host = arg_of (ci_get ''host'' [] ci), rc_user = arg_of (ci_get ''user'' [] ci),
                    rc_password = arg_of (ci_get ''password'' [] ci), rc_database = arg_of (ci_get ''database'' [] ci),
                    rc_port = port, rc_unix_socket = arg_of (ci_get ''unix_socket'' [] ci)\<rparr>
          in rbind (connection_options ci) (\<lambda>calls.
               if \<not> list_all set_opt calls then Throw ''cppdb::mysql failed to set option''
               else case real_connect calls rc of Some err \<Rightarrow> Throw err | None \<Rightarrow> Val (calls, rc))))"

section \<open>Properties\<close>

text \<open>A connection string that is printed from a driver and properties with different keys is parsed into the driver and these properties,
whether the values stand in quotes, with any characters, or as they are.\<close>

theorem connection_string_roundtrip:
  assumes "CHR '':'' \<notin> set d" "\<forall>(k, f)\<in>set ps. key_ok k \<and> form_ok f" "distinct (map fst ps)"
  shows "parse_connection_string (d @ CHR '':'' # print_props ps) =
    Some (Val (d, map_of (map (\<lambda>(k, f). (k, form_value f)) ps)))"
proof -
  have "cs_loop (print_props ps) Map.empty = Some (Val (map_of (map (\<lambda>(k, f). (k, form_value f)) ps)))"
    using cs_loop_print [OF assms(2,3), of Map.empty "[]"] by (simp add: cs_loop.simps [of "[]"])
  then show ?thesis using parse_driver [OF assms(1)] by simp
qed

theorem connection_string_roundtrip_witness:
  "parse_connection_string ''mysql:host=127.0.0.1;port=3306;user=root;password=root;database=rojcpp;'' =
     Some (Val (''mysql'', [''host'' \<mapsto> ''127.0.0.1'', ''port'' \<mapsto> ''3306'', ''user'' \<mapsto> ''root'', ''password'' \<mapsto> ''root'', ''database'' \<mapsto> ''rojcpp'']))"
proof -
  let ?ps = "[(''host'', Plain ''127.0.0.1''), (''port'', Plain ''3306''), (''user'', Plain ''root''), (''password'', Plain ''root''),
    (''database'', Plain ''rojcpp'')]"
  have "CHR '':'' \<notin> set ''mysql''" "\<forall>(k, f)\<in>set ?ps. key_ok k \<and> form_ok f" "distinct (map fst ?ps)"
    by (simp_all add: key_ok_def trimmed_def is_blank_char_def QUOTE_def)
  from connection_string_roundtrip [OF this] show ?thesis
    by (simp add: print_props_def fun_upd_twist)
qed

text \<open>Parsing a connection string ends when there are no quotes in it. It does not end when a value in quotes is followed by anything but
blanks, a semicolon or the end of the string.\<close>

theorem connection_string_returns:
  "(\<forall>cs. QUOTE \<notin> set cs \<longrightarrow> (\<exists>r. parse_connection_string cs = Some r)) \<and>
   (\<forall>d ps k v bs c s. CHR '':'' \<notin> set d \<and> (\<forall>(k, f)\<in>set ps. key_ok k \<and> form_ok f) \<and> distinct (map fst ps) \<and> key_ok k \<and> k \<notin> fst ` set ps \<and>
      list_all is_blank_char bs \<and> \<not> is_blank_char c \<and> c \<noteq> CHR '';'' \<and> c \<noteq> QUOTE \<longrightarrow>
      parse_connection_string (d @ CHR '':'' # print_props ps @ k @ CHR ''='' # form_text (Quoted v) @ bs @ c # s) = None)"
proof (intro conjI allI impI)
  fix cs assume "QUOTE \<notin> set cs"
  then have "QUOTE \<notin> set (tl (dropWhile (\<lambda>c. c \<noteq> CHR '':'') cs))" using set_tl_dropWhile [of "\<lambda>c. c \<noteq> CHR '':''" cs] by blast
  then show "\<exists>r. parse_connection_string cs = Some r"
    using cs_loop_plain [of "tl (dropWhile (\<lambda>c. c \<noteq> CHR '':'') cs)" Map.empty]
    by (cases "cs_loop (tl (dropWhile (\<lambda>c. c \<noteq> CHR '':'') cs)) Map.empty") (simp_all add: parse_connection_string_def)
next
  fix d ps k v bs c s
  assume a: "CHR '':'' \<notin> set d \<and> (\<forall>(k, f)\<in>set ps. key_ok k \<and> form_ok f) \<and> distinct (map fst ps) \<and> key_ok k \<and> k \<notin> fst ` set ps \<and>
      list_all is_blank_char bs \<and> \<not> is_blank_char c \<and> c \<noteq> CHR '';'' \<and> c \<noteq> QUOTE"
  let ?m = "map_of (map (\<lambda>(k, f). (k, form_value f)) ps)"
  have "k \<notin> dom ?m" using a by (auto simp: dom_map_of_conv_image_fst image_iff)
  then have "cs_loop (k @ CHR ''='' # form_text (Quoted v) @ bs @ c # s) ?m = None" using a cs_loop_stuck by blast
  then have "cs_loop (print_props ps @ k @ CHR ''='' # form_text (Quoted v) @ bs @ c # s) Map.empty = None"
    using a cs_loop_print [of ps Map.empty] by simp
  then show "parse_connection_string (d @ CHR '':'' # print_props ps @ k @ CHR ''='' # form_text (Quoted v) @ bs @ c # s) = None"
    using a by (subst parse_driver) simp_all
qed

theorem connection_string_returns_witness:
  "parse_connection_string ''mysql:user=root;password='a'b;'' = None"
proof -
  let ?p = "''a''"
  have "parse_connection_string (''mysql'' @ CHR '':'' # print_props [(''user'', Plain ''root'')] @ ''password'' @ CHR ''='' # form_text (Quoted ?p) @ [] @ CHR ''b'' # '';'') = None"
    by (rule connection_string_returns [THEN conjunct2, rule_format])
      (simp add: key_ok_def trimmed_def is_blank_char_def QUOTE_def)
  then show ?thesis by (simp add: print_props_def double_quotes_def QUOTE_def)
qed

text \<open>The option of \<open>opt_local_infile\<close> is never set; the time-out of the connection is set in its place.\<close>

lemma local_infile_sets_timeout:
  assumes "stream_int v = Some n" "n \<noteq> 0"
  shows "connection_options \<lparr>connection_string = cs, driver = d, properties = [''opt_local_infile'' \<mapsto> v]\<rparr> =
    Val [(MYSQL_OPT_CONNECT_TIMEOUT, UIntArg (nat (n mod 2 ^ 32)))]"
  using assms by (simp add: connection_options_def str_option_def flag_option_def uint_option_def bool_option_def int_option_def
      ci_get_def ci_has_def ci_get_int_def)

lemma all_options_in: "all_options rs = Val cs \<Longrightarrow> x \<in> set cs \<Longrightarrow> \<exists>r\<in>set rs. \<exists>cs'. r = Val cs' \<and> x \<in> set cs'"
  by (induction rs arbitrary: cs) (auto simp: rbind_eq_Val)

lemma option_kinds:
  "str_option ci p opt = Val cs \<Longrightarrow> x \<in> set cs \<Longrightarrow> fst x = opt" "flag_option ci p opt = Val cs \<Longrightarrow> x \<in> set cs \<Longrightarrow> fst x = opt"
  "uint_option ci p opt = Val cs \<Longrightarrow> x \<in> set cs \<Longrightarrow> fst x = opt" "bool_option ci p opt = Val cs \<Longrightarrow> x \<in> set cs \<Longrightarrow> fst x = opt"
  by (auto simp: str_option_def flag_option_def uint_option_def bool_option_def int_option_def rbind_eq_Val Let_def split: if_splits)

lemma local_infile_never_set: "connection_options ci = Val calls \<Longrightarrow> x \<in> set calls \<Longrightarrow> fst x \<noteq> MYSQL_OPT_LOCAL_INFILE"
  unfolding connection_options_def by (drule (1) all_options_in) (auto dest: option_kinds)

end
