(* ===== verification/Spec2Isabelle.thy ===== *)
theory Spec2Isabelle
  imports PicoParse ChunkedRun TaSync TicketLock FixPool PoolAlloc Base64 Utf8 HttpServer MultipartForm FastCache IoRun ConnRun Accept JudgeWire JudgeReport SocketMgr JudgeCache DbConn
begin

text \<open>
  A verification library for the rojcpp web server: a coroutine HTTP server (\<open>src/include\<close>, \<open>src/src\<close>) on the event library tinyasync
  (\<open>src/libs/tinyasync\<close>), with the picohttpparser of \<open>src/src/picohttpparser.c\<close>.

  \<^bold>\<open>How the parts interact.\<close> A connection's bytes arrive in a \<open>Buffer\<close> of the request; \<open>request::parse_header\<close> gives the buffer to
  \<open>phr_parse_request\<close> and derives path, query map and body length; the router calls a handler, which fills the \<open>Buffer\<close> of the
  response. The coroutines run on tinyasync, whose locks, queues and memory pools are modelled here as well.

  \<^bold>\<open>The parser.\<close> A pointer into a buffer is the suffix of the buffer from there on; the results \<open>Ok\<close>, \<open>Ret\<close>, \<open>Oob\<close> of \<open>Prelude\<close> are success, the
  error codes, and a read outside the buffer. \<open>PicoScan\<close>: the scanners and macros, both builds (with and without SSE4.2, a flag).
  \<open>PicoRequest\<close>: header blocks, requests, responses, the entry points. \<open>PicoSafe\<close>: no result is \<open>Oob\<close>. \<open>PicoGrammar\<close>: an inductive
  grammar of requests, sound and complete for the parser. \<open>PicoExtend\<close>: results are stable when bytes are appended. \<open>PicoParse\<close>: the
  properties of the entry points. \<open>Chunked\<close>, \<open>ChunkedRun\<close>: the in-place chunked decoder, its byte automaton, splitting and round trip.

  \<^bold>\<open>Strings.\<close> \<open>StrUtils\<close>: \<open>utils.hpp\<close>, comparison without case, trimming, splitting, cookies. \<open>UrlCode\<close>: percent encoding.
  \<open>Base64\<close>: \<open>base64_encode\<close> on words. \<open>Utf8\<close>: \<open>is_valid_utf8\<close> against the encodings of the scalar values.

  \<^bold>\<open>HTTP.\<close> \<open>HttpBuffer\<close>: \<open>Buffer\<close> as memory cells with sizes, refined to a byte string that grows; exceptions and undefined
  behaviour are results. \<open>HttpRequest\<close>: \<open>request\<close>. \<open>ResponseTables\<close>, \<open>HttpResponse\<close>: the tables and \<open>response\<close>, whose output the
  parser reads back. \<open>Cookie\<close>: printing cookies, with the calendar. \<open>HttpRoute\<close>: \<open>http_router\<close>, with handlers and access points on
  an abstract state. \<open>HttpServer\<close>: the read and send loops of \<open>server::deal\<close> around \<open>http_session\<close>, for any cut of the bytes.

  \<^bold>\<open>Multipart bodies.\<close> \<open>Multipart\<close>: \<open>multipart_parser\<close>, with its local variables, marks and callbacks. \<open>MultipartRun\<close>: an automaton
  that takes one byte at a time, and why skipping is sound. \<open>MultipartSim\<close>: a turn of the loop of \<open>feed\<close> is a run of the automaton.
  \<open>MultipartSafe\<close>: no access out of bounds, for any bytes. \<open>FormRun\<close>: the automaton on printed forms. \<open>MultipartForm\<close>: the properties.

  \<^bold>\<open>Tinyasync.\<close> \<open>TaQueue\<close>: the intrusive stack and queue on a heap of next pointers, refined to lists. \<open>TicketLock\<close>: the spin lock and
  double-checked initialisation, one step per atomic access, any interleaving, by invariants over reachable states. \<open>LockCore\<close>: the
  lock-free core of the mutex, one step per access to its flags and its queue; the accesses to the debug counters, which only the owner
  or the agent in the section of the queue makes, are part of these steps. \<open>TaSync\<close>: the coroutine mutex, its guard, event and condition variable. \<open>FixPool\<close>: the
  pool of equal blocks. \<open>PoolImpl\<close>, \<open>PoolHeap\<close>, \<open>PoolAlloc\<close>: the general pool with boundary tags, its heap invariant, and allocation
  and release that keep it.

  \<^bold>\<open>The event loop.\<close> \<open>IoCtx\<close>: the timer queue, and the critical sections of \<open>IoCtx\<close> (\<open>post_task\<close>, \<open>request_abort\<close>, \<open>post_time_out\<close>,
  the turns of \<open>run\<close>) for one thread and for several. \<open>IoRun\<close>: any number of threads in \<open>run\<close>, as an interleaving step relation with
  \<open>epoll_wait\<close> as a relation: no wake-up is lost, tasks are taken in the order of posting, and what a running timer does to the others.

  \<^bold>\<open>Connections.\<close> \<open>Conn\<close>: \<open>ConnImpl\<close>, its awaiters and \<open>Connection\<close> of \<open>awaiters.h\<close>, with the results of \<open>recv\<close> and \<open>send\<close> as arguments.
  \<open>ConnLife\<close>: who may use a connection, when it is deleted, which awaiters wait, what a timeout unlinks. \<open>ConnRun\<close>: a coroutine that
  reads from an edge-triggered socket: it gets the bytes of the stream in order, and the cases where the end of the stream is missed.
  \<open>Accept\<close>: \<open>AcceptorImpl\<close> with its awaiters, and \<open>server::listen\<close>, which accepts until the system says \<open>EAGAIN\<close>.

  \<^bold>\<open>The cache.\<close> \<open>FastCache\<close>: \<open>Fastcache\<close> of \<open>fastCache.hpp\<close> in shards, refined to one map from keys to values with an expiry.

  \<^bold>\<open>The judge.\<close> The web server sends submissions to a judge server and gets answers (\<open>libs/judgercpp/judge_server\<close>). \<open>JudgeMsg\<close>: the bytes of
  submissions and results, and their parsers, where a read outside the message is undefined behaviour. \<open>JudgeWire\<close>: \<open>readn\<close>, \<open>writen\<close>,
  \<open>TcpRead\<close>, \<open>TcpWrite\<close> on sockets that cut the bytes anywhere, the server that reads submissions, the client that reads answers.
  \<open>SocketMgr\<close>: which thread has which socket, for any interleaving; \<open>removeAll\<close>, which the destructor of the client calls, breaks this while
  sockets are in use. \<open>JudgeCheck\<close>: the comparison of an output with an answer. \<open>JudgeReport\<close>:
  the way of a submission, with the program that runs it as an argument, composed with the handler of \<open>server::init\<close>. \<open>JudgeCache\<close>: the
  read-write lock, in any interleaving, around the cache of results of \<open>judgeServerMediator.hpp\<close>, and which servers want a result.

  \<^bold>\<open>The database.\<close> \<open>DbConn\<close>: connection strings (\<open>libs/modern_cppdb\<close>), which are read back as they were printed, the strings for which the
  parser runs for ever, and the options of a connection.

  \<^bold>\<open>Bounds.\<close> Sizes are \<open>std::size_t\<close> with the modulus written out where a wrap-around can matter, and words where bits are computed.
  Fuel is used in no definition; loops are recursive functions with a termination proof, or \<open>partial_function (option)\<close> where the
  code may run for ever, with theorems that it returns.

  \<^bold>\<open>Not modelled.\<close> Of \<open>awaiters.h\<close>, the connector, the timers and the addresses; \<open>dns_resolver.h\<close>, the coroutine frames
  (\<open>task.h\<close>), the sandbox of the judge, the threads and the queue of its work pool (\<open>libs/judgercpp\<close>), the pool of connections and the queries of the database layer (\<open>libs/modern_cppdb\<close>), the logger, the vendored
  queue \<open>concurrentqueue.h\<close>, JSON, tests, examples and documents. Atomics are sequentially consistent.
\<close>

end
